(* ===== verification/Prelude.thy ===== *)
theory Prelude
  imports Main "HOL-Library.Word" "HOL-Library.Sublist"
begin

text \<open>
  Shared ground of the development: the types every component uses (bytes and
  machine words, nullable C strings), the fixed-width conversions of C, the
  little-endian field accessors of the wire formats, and three interfaces that
  components implement: a \<^emph>\<open>framing\<close> (self-delimiting byte encoding of messages),
  a \<^emph>\<open>bounded queue\<close>, and a \<^emph>\<open>transition system\<close> with an inductive invariant.
\<close>

unbundle bit_operations_syntax

named_theorems wire_simps \<open>rewrite rules for wire-format accessors\<close>
named_theorems inv_intros \<open>one lemma per operation: the operation keeps its component's invariant\<close>

type_synonym byte = "8 word"
type_synonym u16 = "16 word"
type_synonym u32 = "32 word"
type_synonym u64 = "64 word"

type_synonym cstr = "string option"
  \<comment> \<open>a \<open>char *\<close>: \<open>None\<close> is \<open>NULL\<close>, \<open>Some s\<close> points at the characters \<open>s\<close> followed by NUL\<close>

section \<open>Conversions of C\<close>

text \<open>Conversion of a wider signed value to \<open>int\<close> (32 bits, two's complement).\<close>

definition to_int32 :: "int \<Rightarrow> int" where
  "to_int32 l = (l + 2147483648) mod 4294967296 - 2147483648"

lemma to_int32_id: "-2147483648 \<le> l \<Longrightarrow> l < 2147483648 \<Longrightarrow> to_int32 l = l"
  by (simp add: to_int32_def)

lemma to_int32_range: "-2147483648 \<le> to_int32 l \<and> to_int32 l < 2147483648"
  by (simp add: to_int32_def)

section \<open>Little-endian fields\<close>

definition le16_of :: "byte \<Rightarrow> byte \<Rightarrow> u16" where
  "le16_of b0 b1 = ucast b0 + 256 * ucast b1"

definition le16_bytes :: "u16 \<Rightarrow> byte list" where
  "le16_bytes w = [ucast w, ucast (drop_bit 8 w)]"

definition le32_of :: "byte \<Rightarrow> byte \<Rightarrow> byte \<Rightarrow> byte \<Rightarrow> u32" where
  "le32_of b0 b1 b2 b3 = ucast b0 + 256 * ucast b1 + 65536 * ucast b2 + 16777216 * ucast b3"

definition le32_bytes :: "u32 \<Rightarrow> byte list" where
  "le32_bytes w = [ucast w, ucast (drop_bit 8 w), ucast (drop_bit 16 w), ucast (drop_bit 24 w)]"

lemma unat_byte_less [simp]: "unat (b :: byte) < 256"
  using unsigned_less [of b] by simp

lemma unat_u16_less [simp]: "unat (w :: u16) < 65536"
  using unsigned_less [of w] by simp

lemma unat_u32_less [simp]: "unat (w :: u32) < 4294967296"
  using unsigned_less [of w] by simp

lemma unat_of_nat_u32: "n < 4294967296 \<Longrightarrow> unat (of_nat n :: u32) = n"
  by (simp add: unat_of_nat take_bit_nat_eq_self)

lemma unat_ucast_widen:
  assumes "LENGTH('a::len) \<le> LENGTH('b::len)"
  shows "unat (ucast (w :: 'a word) :: 'b word) = unat w"
proof -
  have "unat w < 2 ^ LENGTH('a)" by simp
  also have "\<dots> \<le> 2 ^ LENGTH('b)" using assms by (simp add: power_increasing)
  finally show ?thesis by (simp add: unsigned_ucast_eq take_bit_nat_eq_self)
qed

lemma ucast_u64_u32: "ucast (ucast (w :: u32) :: u64) = w"
  by (rule bit_word_eqI) (simp add: bit_simps)

lemma unat_le16_of [wire_simps]: "unat (le16_of b0 b1) = unat b0 + 256 * unat b1"
proof -
  have "unat b0 + 256 * unat b1 < 65536"
    using unat_byte_less [of b0] unat_byte_less [of b1] by linarith
  then show ?thesis
    by (simp add: le16_of_def unat_word_ariths unat_ucast_widen)
qed

lemma le16_of_inject: "le16_of a b = le16_of c d \<longleftrightarrow> a = c \<and> b = d"
proof
  assume "le16_of a b = le16_of c d"
  then have "unat a + 256 * unat b = unat c + 256 * unat d" by (metis unat_le16_of)
  then have "(unat a + 256 * unat b) mod 256 = (unat c + 256 * unat d) mod 256" "(unat a + 256 * unat b) div 256 = (unat c + 256 * unat d) div 256"
    by simp_all
  then have "unat a = unat c" "unat b = unat d" by simp_all
  then show "a = c \<and> b = d" by (simp add: word_unat_eq_iff)
qed simp

lemma unat_le32_of [wire_simps]:
  "unat (le32_of b0 b1 b2 b3) = unat b0 + 256 * unat b1 + 65536 * unat b2 + 16777216 * unat b3"
proof -
  have "unat b0 + 256 * unat b1 + 65536 * unat b2 + 16777216 * unat b3 < 4294967296"
    using unat_byte_less [of b0] unat_byte_less [of b1] unat_byte_less [of b2] unat_byte_less [of b3]
    by linarith
  then show ?thesis
    by (simp add: le32_of_def unat_word_ariths unat_ucast_widen)
qed

lemma le16_of_le16_bytes [wire_simps]:
  "le16_of (ucast w) (ucast (drop_bit 8 w)) = w"
proof -
  have "unat (le16_of (ucast w) (ucast (drop_bit 8 w))) = unat w mod 256 + 256 * (unat w div 256 mod 256)"
    by (simp add: wire_simps unsigned_ucast_eq unsigned_drop_bit_eq take_bit_eq_mod drop_bit_eq_div unat_div_distrib)
  also have "unat w div 256 mod 256 = unat w div 256"
    using unat_u16_less [of w] by (intro mod_less) linarith
  also have "unat w mod 256 + 256 * (unat w div 256) = unat w"
    by simp
  finally show ?thesis by (simp add: word_unat_eq_iff)
qed

lemma le32_of_le32_bytes [wire_simps]:
  "le32_of (ucast w) (ucast (drop_bit 8 w)) (ucast (drop_bit 16 w)) (ucast (drop_bit 24 w)) = w"
proof -
  let ?n = "unat w"
  have "unat (le32_of (ucast w) (ucast (drop_bit 8 w)) (ucast (drop_bit 16 w)) (ucast (drop_bit 24 w)))
      = ?n mod 256 + 256 * (?n div 256 mod 256) + 65536 * (?n div 65536 mod 256) + 16777216 * (?n div 16777216 mod 256)"
    by (simp add: wire_simps unsigned_ucast_eq unsigned_drop_bit_eq take_bit_eq_mod drop_bit_eq_div unat_div_distrib)
  also have "?n div 16777216 mod 256 = ?n div 16777216"
    using unat_u32_less [of w] by (intro mod_less) linarith
  also have "?n mod 256 + 256 * (?n div 256 mod 256) + 65536 * (?n div 65536 mod 256) + 16777216 * (?n div 16777216) = ?n"
  proof -
    have digits: "256 * a + x = n \<Longrightarrow> 256 * b + y = a \<Longrightarrow> 256 * c + z = b \<Longrightarrow> x + 256 * y + 65536 * z + 16777216 * c = n"
      for a b c n x y z :: nat by simp
    have "?n div 65536 = ?n div 256 div 256" "?n div 16777216 = ?n div 256 div 256 div 256" by (simp_all flip: div_mult2_eq)
    then show ?thesis
      using digits [OF mult_div_mod_eq [of 256 ?n] mult_div_mod_eq [of 256 "?n div 256"] mult_div_mod_eq [of 256 "?n div 256 div 256"]]
      by (simp only:)
  qed
  finally show ?thesis by (simp add: word_unat_eq_iff)
qed

lemma le32_bytes_le32_of: "le32_bytes (le32_of a b c d) = [a, b, c, d]"
proof -
  let ?n = "unat a + 256 * unat b + 65536 * unat c + 16777216 * unat d"
  have l: "unat a < 256" "unat b < 256" "unat c < 256" "unat d < 256" by simp_all
  have n: "?n = unat a + 256 * (unat b + 256 * (unat c + 256 * unat d))" by simp
  have digit: "(x + 256 * y) div 256 = y" "(x + 256 * y) mod 256 = x" if "x < 256" for x y :: nat
    using that by simp_all
  have d1: "?n div 256 = unat b + 256 * (unat c + 256 * unat d)" by (simp only: n digit l)
  have d2: "?n div 65536 = unat c + 256 * unat d" using div_mult2_eq [of ?n 256 256] by (simp only: d1 digit l) simp
  have d3: "?n div 16777216 = unat d" using div_mult2_eq [of ?n 65536 256] by (simp only: d2 digit l) simp
  have "?n mod 256 = unat a" "?n div 256 mod 256 = unat b" "?n div 65536 mod 256 = unat c" "?n div 16777216 mod 256 = unat d"
    by (simp_all only: d1 d2 d3 digit l) (simp_all only: n digit l mod_less)
  then show ?thesis
    by (simp add: le32_bytes_def word_unat_eq_iff unsigned_ucast_eq unsigned_drop_bit_eq take_bit_eq_mod drop_bit_eq_div
        unat_div_distrib unat_le32_of)
qed

lemma length_le16_bytes [simp]: "length (le16_bytes w) = 2"
  by (simp add: le16_bytes_def)

lemma length_le32_bytes [simp]: "length (le32_bytes w) = 4"
  by (simp add: le32_bytes_def)


section \<open>Fields of a byte buffer\<close>

text \<open>
  A fixed-size receive buffer of the source is a byte list; a field of a packed structure
  is read at its offset. Offsets beyond the list read as 0; the buffers the source casts
  to a structure are always longer than the structure.
\<close>

definition fld8 :: "byte list \<Rightarrow> nat \<Rightarrow> byte" where
  "fld8 b i = (if i < length b then b ! i else 0)"

definition fld16 :: "byte list \<Rightarrow> nat \<Rightarrow> u16" where
  "fld16 b i = le16_of (fld8 b i) (fld8 b (i + 1))"

definition fld32 :: "byte list \<Rightarrow> nat \<Rightarrow> u32" where
  "fld32 b i = le32_of (fld8 b i) (fld8 b (i + 1)) (fld8 b (i + 2)) (fld8 b (i + 3))"

lemma fld8_append1 [simp]: "i < length a \<Longrightarrow> fld8 (a @ b) i = fld8 a i"
  by (simp add: fld8_def nth_append)

lemma fld8_append2 [simp]: "length a \<le> i \<Longrightarrow> fld8 (a @ b) i = fld8 b (i - length a)"
  by (auto simp: fld8_def nth_append)

lemma fld8_take: "i < n \<Longrightarrow> fld8 (take n b) i = fld8 b i"
  by (simp add: fld8_def)

lemma fld8_drop: "fld8 (drop n b) i = fld8 b (n + i)"
  by (simp add: fld8_def less_diff_conv add.commute)

lemma fld16_le16_bytes [wire_simps]: "fld16 (le16_bytes w @ r) 0 = w"
  by (simp add: fld16_def fld8_def le16_bytes_def le16_of_le16_bytes)

section \<open>Network byte order\<close>

definition be16_of :: "byte \<Rightarrow> byte \<Rightarrow> u16" where
  "be16_of b0 b1 = le16_of b1 b0"

definition be16_bytes :: "u16 \<Rightarrow> byte list" where
  "be16_bytes w = [ucast (drop_bit 8 w), ucast w]"

lemma be16_of_be16_bytes [wire_simps]: "be16_of (ucast (drop_bit 8 w)) (ucast w) = w"
  by (simp add: be16_of_def le16_of_le16_bytes)

lemma length_be16_bytes [simp]: "length (be16_bytes w) = 2"
  by (simp add: be16_bytes_def)

section \<open>Self-delimiting encodings\<close>

text \<open>
  The contract of a message format that is read back one message at a time: \<open>dec\<close> undoes
  \<open>enc\<close> whatever follows, and \<open>run\<close>, the receive loop of the component, takes one message
  after the other. \<open>view\<close> is what the receiver learns of a message.
\<close>

locale framing =
  fixes enc :: "'a \<Rightarrow> byte list"
    and ok :: "'a \<Rightarrow> bool"
    and view :: "'a \<Rightarrow> 'b"
    and dec :: "byte list \<Rightarrow> ('b \<times> byte list) option"
    and run :: "byte list \<Rightarrow> 'b list option"
  assumes dec_enc: "ok x \<Longrightarrow> dec (enc x @ rest) = Some (view x, rest)"
    and run_Nil: "run [] = Some []"
    and run_step: "dec bs = Some (y, rest) \<Longrightarrow> run bs = map_option ((#) y) (run rest)"
begin

lemma run_concat_append:
  "list_all ok xs \<Longrightarrow> run (concat (map enc xs) @ rest) = map_option ((@) (map view xs)) (run rest)"
proof (induction xs)
  case Nil
  then show ?case by (simp add: option.map_ident)
next
  case (Cons x xs)
  then have "run (enc x @ concat (map enc xs) @ rest)
      = map_option ((#) (view x)) (run (concat (map enc xs) @ rest))"
    by (intro run_step dec_enc) simp
  with Cons show ?case by (simp add: option.map_comp comp_def)
qed

lemma run_concat: "list_all ok xs \<Longrightarrow> run (concat (map enc xs)) = Some (map view xs)"
  using run_concat_append [of xs "[]"] by (simp add: run_Nil)

lemma concat_enc_views:
  "list_all ok xs \<Longrightarrow> list_all ok ys \<Longrightarrow> concat (map enc xs) = concat (map enc ys)
    \<Longrightarrow> map view xs = map view ys"
  using run_concat [of xs] run_concat [of ys] by simp

end

section \<open>Bounded queues\<close>

text \<open>
  The contract of a queue of fixed capacity: what it holds as a list, and that the operations
  append at its end and take from its front.
\<close>

locale bounded_fifo =
  fixes inv :: "'q \<Rightarrow> bool"
    and contents :: "'q \<Rightarrow> 'x list"
    and cap :: "'q \<Rightarrow> nat"
    and full :: "'q \<Rightarrow> bool"
    and put :: "'x \<Rightarrow> 'q \<Rightarrow> 'q"
    and get :: "'q \<Rightarrow> 'q"
  assumes full_iff: "inv q \<Longrightarrow> full q \<longleftrightarrow> length (contents q) = cap q"
    and len_le: "inv q \<Longrightarrow> length (contents q) \<le> cap q"
    and put: "inv q \<Longrightarrow> \<not> full q \<Longrightarrow>
      inv (put x q) \<and> contents (put x q) = contents q @ [x] \<and> cap (put x q) = cap q"
    and get: "inv q \<Longrightarrow> contents q \<noteq> [] \<Longrightarrow>
      inv (get q) \<and> contents (get q) = tl (contents q) \<and> cap (get q) = cap q"
begin

lemma put_list:
  "inv q \<Longrightarrow> length (contents q) + length xs \<le> cap q \<Longrightarrow>
   inv (fold put xs q) \<and> contents (fold put xs q) = contents q @ xs \<and> cap (fold put xs q) = cap q"
proof (induction xs arbitrary: q)
  case (Cons x xs)
  then have "\<not> full q" using full_iff by auto
  from put [OF Cons.prems(1) this, of x] Cons show ?case by auto
qed simp

lemma get_many:
  "inv q \<Longrightarrow> k \<le> length (contents q) \<Longrightarrow>
   inv ((get ^^ k) q) \<and> contents ((get ^^ k) q) = drop k (contents q) \<and> cap ((get ^^ k) q) = cap q"
proof (induction k)
  case (Suc k)
  then have IH: "inv ((get ^^ k) q)" "contents ((get ^^ k) q) = drop k (contents q)" "cap ((get ^^ k) q) = cap q"
    by simp_all
  moreover have "drop k (contents q) \<noteq> []" using Suc.prems by simp
  ultimately show ?case using get [of "(get ^^ k) q"] by (simp add: drop_Suc tl_drop)
qed simp

end

section \<open>Lists\<close>

lemma zip_take_length: "zip (take (length ys) xs) ys = zip xs ys"
proof (induction ys arbitrary: xs)
  case (Cons y ys)
  then show ?case by (cases xs) auto
qed simp

text \<open>A list that maps to a flattened list of groups is itself made of such groups.\<close>

lemma map_eq_concat_append:
  "map f xs = concat gs @ cs \<Longrightarrow> \<exists>groups rest. xs = concat groups @ rest \<and> gs = map (map f) groups"
proof (induction gs arbitrary: xs)
  case Nil
  then show ?case by (intro exI [of _ "[]"] exI [of _ xs]) simp
next
  case (Cons g gs)
  then have "map f xs = g @ (concat gs @ cs)" by simp
  then obtain a b where ab: "xs = a @ b" "map f a = g" "map f b = concat gs @ cs"
    by (metis map_eq_append_conv)
  from Cons.IH [OF ab(3)] obtain groups rest where "b = concat groups @ rest" "gs = map (map f) groups"
    by blast
  with ab show ?case by (intro exI [of _ "a # groups"] exI [of _ rest]) simp
qed

section \<open>Systems with an inductive invariant\<close>

text \<open>
  The contract between a component's operations and the invariant its properties use: the
  start states satisfy it and every step keeps it.
\<close>

locale inv_system =
  fixes init :: "'s \<Rightarrow> bool"
    and step :: "'s \<Rightarrow> 's \<Rightarrow> bool"
    and inv :: "'s \<Rightarrow> bool"
  assumes init_inv: "init s \<Longrightarrow> inv s"
    and step_inv: "step s t \<Longrightarrow> inv s \<Longrightarrow> inv t"
begin

lemma run_inv: "step\<^sup>*\<^sup>* s t \<Longrightarrow> inv s \<Longrightarrow> inv t"
  by (induction rule: rtranclp_induct) (auto intro: step_inv)

lemma reach_inv: "init s \<Longrightarrow> step\<^sup>*\<^sup>* s t \<Longrightarrow> inv t"
  using run_inv init_inv by blast

end

end
