(* ===== verification/AtTok.thy ===== *)
theory AtTok
  imports Prelude
begin

text \<open>
  The AT response tokenizer, \<^verbatim>\<open>quectel_cm_5G/src/at_tok.c\<close>. A cursor \<open>char *\<close>
  into the response line is a \<^typ>\<open>cstr\<close>: the characters from the cursor to
  the terminating NUL, or \<open>NULL\<close>. The \<open>strsep\<close> calls of the source write a NUL
  over the delimiter, which is behind the cursor from then on, so the token
  returned is exactly the characters before the delimiter and nothing that is
  read later changes.
\<close>

section \<open>The C library functions the source uses\<close>

definition isspace :: "char \<Rightarrow> bool" where
  "isspace c \<longleftrightarrow> c = CHR '' '' \<or> (9 \<le> (of_char c :: nat) \<and> (of_char c :: nat) \<le> 13)"

definition isdigit :: "char \<Rightarrow> bool" where
  "isdigit c \<longleftrightarrow> 48 \<le> (of_char c :: nat) \<and> (of_char c :: nat) \<le> 57"

fun strchr :: "string \<Rightarrow> char \<Rightarrow> cstr" where
  "strchr [] c = None"
| "strchr (x # xs) c = (if x = c then Some (x # xs) else strchr xs c)"

fun strsep :: "cstr \<Rightarrow> char \<Rightarrow> cstr \<times> cstr" where
  "strsep None d = (None, None)"
| "strsep (Some s) d =
     (Some (takeWhile (\<lambda>c. c \<noteq> d) s),
      (case dropWhile (\<lambda>c. c \<noteq> d) s of [] \<Rightarrow> None | _ # r \<Rightarrow> Some r))"

text \<open>
  \<open>strtol\<close> and \<open>strtoul\<close> with a 64-bit \<open>long\<close>: white space, an optional sign,
  for base 16 an optional \<open>0x\<close> that a hex digit follows, digits, saturation.
  The result is the value as \<open>long\<close> and whether any digit was converted
  (\<open>end \<noteq> ret\<close>).
\<close>

definition digit_val :: "char \<Rightarrow> nat" where
  "digit_val c = (let n = (of_char c :: nat) in
     if 48 \<le> n \<and> n \<le> 57 then n - 48
     else if 97 \<le> n \<and> n \<le> 122 then n - 87
     else if 65 \<le> n \<and> n \<le> 90 then n - 55
     else 255)"

fun digits_val :: "nat \<Rightarrow> nat \<Rightarrow> string \<Rightarrow> nat" where
  "digits_val base acc [] = acc"
| "digits_val base acc (c # cs) =
     (if digit_val c < base then digits_val base (acc * base + digit_val c) cs else acc)"

definition skip0x :: "nat \<Rightarrow> string \<Rightarrow> string" where
  "skip0x base s = (case s of
       z # x # h # r \<Rightarrow>
         if base = 16 \<and> z = CHR ''0'' \<and> (x = CHR ''x'' \<or> x = CHR ''X'') \<and> digit_val h < 16
         then h # r else s
     | _ \<Rightarrow> s)"

definition strto_parts :: "nat \<Rightarrow> string \<Rightarrow> bool \<times> nat \<times> bool" where
  "strto_parts base s =
     (let t = dropWhile isspace s;
          neg = (case t of c # _ \<Rightarrow> c = CHR ''-'' | [] \<Rightarrow> False);
          u = (case t of c # r \<Rightarrow> if c = CHR ''-'' \<or> c = CHR ''+'' then r else t | [] \<Rightarrow> t);
          v = skip0x base u
      in (neg, digits_val base 0 v, (case v of c # _ \<Rightarrow> digit_val c < base | [] \<Rightarrow> False)))"

definition strtol :: "nat \<Rightarrow> string \<Rightarrow> int \<times> bool" where
  "strtol base s = (case strto_parts base s of (neg, m, conv) \<Rightarrow>
     (if neg then max (- (2 ^ 63)) (- int m) else min (2 ^ 63 - 1) (int m), conv))"

text \<open>\<open>sscanf\<close> with \<open>%02X\<close>, and the equality of \<open>strcasecmp\<close>.\<close>

definition scan_X2 :: "string \<Rightarrow> (int \<times> string) option" where
  "scan_X2 s =
     (case dropWhile isspace s of
        [] \<Rightarrow> None
      | a # r \<Rightarrow>
          if digit_val a < 16 then
            (case r of
               [] \<Rightarrow> Some (int (digit_val a), [])
             | b # r' \<Rightarrow>
                 if a = CHR ''0'' \<and> (b = CHR ''x'' \<or> b = CHR ''X'') then None
                 else if digit_val b < 16 then Some (int (16 * digit_val a + digit_val b), r')
                 else Some (int (digit_val a), r))
          else if a = CHR ''-'' \<or> a = CHR ''+'' then
            (case r of
               [] \<Rightarrow> None
             | b # r' \<Rightarrow> if digit_val b < 16 then Some (if a = CHR ''-'' then - int (digit_val b) else int (digit_val b), r') else None)
          else None)"

definition tolower :: "char \<Rightarrow> char" where
  "tolower c = (if 65 \<le> (of_char c :: nat) \<and> (of_char c :: nat) \<le> 90 then char_of (of_char c + 32 :: nat) else c)"

definition strcasecmp_eq :: "string \<Rightarrow> string \<Rightarrow> bool" where
  "strcasecmp_eq a b \<longleftrightarrow> map tolower a = map tolower b"

text \<open>
  The \<open>unsigned long\<close> that \<open>strtoul\<close> returns is assigned to a \<open>long\<close> by the source:
  its two's complement reading.
\<close>

definition strtoul_as_long :: "nat \<Rightarrow> string \<Rightarrow> int \<times> bool" where
  "strtoul_as_long base s = (case strto_parts base s of (neg, m, conv) \<Rightarrow>
     (let u = (if int m > 2 ^ 64 - 1 then 2 ^ 64 - 1
               else if neg then (- int m) mod 2 ^ 64 else int m)
      in (if u \<ge> 2 ^ 63 then u - 2 ^ 64 else u, conv)))"

section \<open>The tokenizer\<close>

text \<open>\<open>at_tok_start\<close>: the return code and the new cursor.\<close>

fun at_tok_start :: "cstr \<Rightarrow> int \<times> cstr" where
  "at_tok_start None = (-1, None)"
| "at_tok_start (Some s) =
     (case strchr s (CHR '':'') of
        None \<Rightarrow> (-1, None)
      | Some t \<Rightarrow> (0, Some (tl t)))"

fun skipWhiteSpace :: "cstr \<Rightarrow> cstr" where
  "skipWhiteSpace None = None"
| "skipWhiteSpace (Some s) = Some (dropWhile isspace s)"

fun skipNextComma :: "cstr \<Rightarrow> cstr" where
  "skipNextComma None = None"
| "skipNextComma (Some s) =
     Some (case dropWhile (\<lambda>c. c \<noteq> CHR '','') s of [] \<Rightarrow> [] | _ # r \<Rightarrow> r)"

definition nextTok :: "cstr \<Rightarrow> cstr \<times> cstr" where
  "nextTok cur =
     (case skipWhiteSpace cur of
        None \<Rightarrow> (None, None)
      | Some s \<Rightarrow>
          (case s of
             c # r \<Rightarrow>
               if c = CHR 0x22 then
                 (case strsep (Some r) (CHR 0x22) of (tok, cur') \<Rightarrow> (tok, skipNextComma cur'))
               else strsep (Some s) (CHR '','')
           | [] \<Rightarrow> strsep (Some s) (CHR '','')))"

text \<open>The return code, the new cursor and what is stored through \<open>p_out\<close>, if anything.\<close>

definition at_tok_nextint_base :: "cstr \<Rightarrow> nat \<Rightarrow> bool \<Rightarrow> int \<times> cstr \<times> int option" where
  "at_tok_nextint_base cur base uns =
     (if cur = None then (-1, cur, None)
      else case nextTok cur of
        (None, cur') \<Rightarrow> (-1, cur', None)
      | (Some ret, cur') \<Rightarrow>
          (case (if uns then strtoul_as_long base ret else strtol base ret) of (l, conv) \<Rightarrow>
             (if conv then 0 else -1, cur', Some (to_int32 l))))"

definition at_tok_nextint :: "cstr \<Rightarrow> int \<times> cstr \<times> int option" where
  "at_tok_nextint cur = at_tok_nextint_base cur 10 False"

definition at_tok_nexthexint :: "cstr \<Rightarrow> int \<times> cstr \<times> int option" where
  "at_tok_nexthexint cur = at_tok_nextint_base cur 16 True"

definition at_tok_nextbool :: "cstr \<Rightarrow> int \<times> cstr \<times> int option" where
  "at_tok_nextbool cur =
     (case at_tok_nextint cur of (ret, cur', out) \<Rightarrow>
        if ret < 0 then (-1, cur', None)
        else case out of
          None \<Rightarrow> (-1, cur', None)
        | Some result \<Rightarrow>
            if \<not> (result = 0 \<or> result = 1) then (-1, cur', None)
            else (ret, cur', Some result))"

definition at_tok_nextstr :: "cstr \<Rightarrow> int \<times> cstr \<times> cstr" where
  "at_tok_nextstr cur =
     (if cur = None then (-1, cur, None)
      else case nextTok cur of (tok, cur') \<Rightarrow> (0, cur', tok))"

definition at_tok_hasmore :: "cstr \<Rightarrow> bool" where
  "at_tok_hasmore cur \<longleftrightarrow> \<not> (cur = None \<or> cur = Some [])"

definition at_tok_count :: "cstr \<Rightarrow> nat" where
  "at_tok_count in_line =
     (case in_line of None \<Rightarrow> 0 | Some s \<Rightarrow> length (filter (\<lambda>c. c = CHR '','') s))"

text \<open>
  \<open>at_tok_scanf\<close>. What is stored through the variadic pointers is a list with one
  entry per pointer taken with \<open>va_arg\<close>: \<open>NoStore\<close> where nothing is stored. (A
  \<open>NULL\<close> argument is redirected to a local, so it gets the same entry.) The format
  is walked character by character. The value \<open>None\<close> is the run that steps over
  the terminating NUL of a format that ends in \<open>%\<close>, which the source can only do
  in the branch for an empty \<open>-\<close> field.
\<close>

datatype store = NoStore | StInt int | StBool int | StStr cstr

fun scan_conv :: "char \<Rightarrow> cstr \<Rightarrow> int \<times> cstr \<times> store" where
  "scan_conv c line =
     (if c = CHR ''d'' then
        (case at_tok_nextint line of (err, line', out) \<Rightarrow>
           (err, line', (case out of None \<Rightarrow> NoStore | Some v \<Rightarrow> StInt v)))
      else if c = CHR ''x'' then
        (case at_tok_nexthexint line of (err, line', out) \<Rightarrow>
           (err, line', (case out of None \<Rightarrow> NoStore | Some v \<Rightarrow> StInt v)))
      else if c = CHR ''b'' then
        (case at_tok_nextbool line of (err, line', out) \<Rightarrow>
           (err, line', (case out of None \<Rightarrow> NoStore | Some v \<Rightarrow> StBool v)))
      else if c = CHR ''s'' then
        (case at_tok_nextstr line of (err, line', out) \<Rightarrow>
           (err, line', (if err < 0 then NoStore else StStr out)))
      else (-1, line, NoStore))"

definition is_dash_field :: "cstr \<Rightarrow> bool" where
  "is_dash_field line \<longleftrightarrow>
     (case line of Some (a # b # _) \<Rightarrow> a = CHR ''-'' \<and> b = CHR '','' | _ \<Rightarrow> False)"

fun scan_loop :: "string \<Rightarrow> cstr \<Rightarrow> nat \<Rightarrow> store list \<Rightarrow> (nat \<times> store list) option" where
  "scan_loop [] line n out = Some (n, out)"
| "scan_loop (p # ps) line n out =
     (if p = CHR '','' \<or> p = CHR '' '' then scan_loop ps line n out
      else if p \<noteq> CHR 0x25 then Some (n, out)
      else if \<not> at_tok_hasmore line then Some (n, out @ [NoStore])
      else if is_dash_field line then
        (case ps of
           [] \<Rightarrow> None
         | q # qs \<Rightarrow> scan_loop qs (map_option (drop 2) line) (Suc n)
                      (out @ [if q = CHR ''d'' then StInt (-1) else NoStore]))
      else
        (case ps of
           [] \<Rightarrow> Some (n, out @ [NoStore])
         | q # qs \<Rightarrow>
             (case scan_conv q line of (err, line', st) \<Rightarrow>
                if err < 0 then Some (n, out @ [st])
                else scan_loop qs line' (Suc n) (out @ [st]))))"

definition at_tok_scanf :: "cstr \<Rightarrow> string \<Rightarrow> (nat \<times> store list) option" where
  "at_tok_scanf in_line fmt =
     (case in_line of
        None \<Rightarrow> Some (0, [])
      | Some s \<Rightarrow>
          (case at_tok_start (Some (take 1023 s)) of (err, line) \<Rightarrow>
             if err < 0 then Some (0, []) else scan_loop fmt line 0 []))"

section \<open>Cursors stay inside the line\<close>

text \<open>\<open>cur_le a b\<close>: the cursor \<open>a\<close> is \<open>NULL\<close> or points into what \<open>b\<close> points at.\<close>

definition cur_le :: "cstr \<Rightarrow> cstr \<Rightarrow> bool" where
  "cur_le a b \<longleftrightarrow> a = None \<or> (\<exists>s t. a = Some s \<and> b = Some t \<and> suffix s t)"

lemma cur_le_refl [simp]: "cur_le a a"
  by (cases a) (auto simp: cur_le_def)

lemma cur_le_trans: "cur_le a b \<Longrightarrow> cur_le b c \<Longrightarrow> cur_le a c"
  by (auto simp: cur_le_def intro: suffix_order.trans)

lemma cur_le_None [simp]: "cur_le None b" "cur_le a None \<longleftrightarrow> a = None"
  by (auto simp: cur_le_def)

lemma cur_le_Some [simp]: "cur_le (Some s) (Some t) \<longleftrightarrow> suffix s t"
  by (auto simp: cur_le_def)

lemma dropWhile_tail_suffix: "dropWhile P s = c # r \<Longrightarrow> suffix r s"
  by (metis suffix_ConsD suffix_dropWhile)

lemma strchr_suffix: "strchr s c = Some t \<Longrightarrow> suffix t s"
  by (induction s) (auto simp: suffix_ConsI split: if_splits)

lemma strchr_head: "strchr s c = Some t \<Longrightarrow> \<exists>r. t = c # r"
  by (induction s) (auto split: if_splits)

lemma strsep_cursor: "strsep cur d = (tok, cur') \<Longrightarrow> cur_le cur' cur"
  by (cases cur) (auto split: list.splits dest: dropWhile_tail_suffix)

lemma strsep_shrinks:
  "strsep (Some s) d = (tok, Some t) \<Longrightarrow> length t < length s"
  using length_dropWhile_le [of "\<lambda>c. c \<noteq> d" s] by (auto split: list.splits)

lemma skipNextComma_le: "cur_le (skipNextComma cur) cur"
  by (cases cur) (auto split: list.splits dest: dropWhile_tail_suffix)

lemma nextTok_None [simp]: "nextTok None = (None, None)"
  by (simp add: nextTok_def)

lemma nextTok_Some:
  "nextTok (Some s) =
     (case dropWhile isspace s of
        [] \<Rightarrow> (Some [], None)
      | c # r \<Rightarrow> if c = CHR 0x22
                then (fst (strsep (Some r) (CHR 0x22)), skipNextComma (snd (strsep (Some r) (CHR 0x22))))
                else strsep (Some (c # r)) (CHR '',''))"
proof (cases "dropWhile isspace s")
  case Nil
  then show ?thesis by (simp add: nextTok_def del: dropWhile_eq_Nil_conv)
next
  case (Cons c r)
  then show ?thesis
    by (simp add: nextTok_def case_prod_beta del: strsep.simps)
qed

lemma nextTok_cursor: "nextTok cur = (tok, cur') \<Longrightarrow> cur_le cur' cur"
proof (cases cur)
  case (Some s)
  assume eq: "nextTok cur = (tok, cur')"
  show ?thesis
  proof (cases "dropWhile isspace s")
    case Nil
    with eq Some show ?thesis by (simp add: nextTok_Some)
  next
    case (Cons c r)
    have le: "cur_le (Some (c # r)) cur"
      using Some Cons suffix_dropWhile [of isspace s] by simp
    have le': "cur_le (Some r) cur"
      using le by (auto simp: cur_le_def suffix_def)
    have "cur_le cur' (Some r)" if "c = CHR 0x22"
    proof -
      have "cur' = skipNextComma (snd (strsep (Some r) (CHR 0x22)))"
        using eq Some Cons that by (simp add: nextTok_Some del: strsep.simps)
      moreover have "cur_le (snd (strsep (Some r) (CHR 0x22))) (Some r)"
        by (rule strsep_cursor) (rule prod.collapse [symmetric])
      ultimately show ?thesis
        using cur_le_trans skipNextComma_le by blast
    qed
    moreover have "cur_le cur' (Some (c # r))" if "c \<noteq> CHR 0x22"
      using eq Some Cons that strsep_cursor by (simp add: nextTok_Some del: strsep.simps)
    ultimately show ?thesis using le le' cur_le_trans by blast
  qed
qed simp

lemma nextTok_token: "fst (nextTok (Some s)) \<noteq> None"
  by (auto simp: nextTok_Some split: list.split)

lemma nextTok_shrinks: "nextTok (Some s) = (tok, Some t) \<Longrightarrow> length t < length s"
proof -
  assume eq: "nextTok (Some s) = (tok, Some t)"
  then obtain c r where cr: "dropWhile isspace s = c # r"
    by (cases "dropWhile isspace s") (auto simp: nextTok_Some)
  have len: "length (c # r) \<le> length s"
    using length_dropWhile_le [of isspace s] cr by simp
  show ?thesis
  proof (cases "c = CHR 0x22")
    case True
    then obtain u where u: "snd (strsep (Some r) (CHR 0x22)) = Some u" and t: "skipNextComma (Some u) = Some t"
      using eq cr
      by (cases "snd (strsep (Some r) (CHR 0x22))") (auto simp: nextTok_Some simp del: strsep.simps)
    have "length t \<le> length u"
      using skipNextComma_le [of "Some u"] t by (simp add: suffix_length_le)
    moreover have "length u < length r"
      using strsep_shrinks [of r "CHR 0x22" _ u] u
      by (cases "strsep (Some r) (CHR 0x22)") (simp del: strsep.simps)
    ultimately show ?thesis using len by simp
  next
    case False
    then have "strsep (Some (c # r)) (CHR '','') = (tok, Some t)"
      using eq cr by (simp add: nextTok_Some del: strsep.simps)
    from strsep_shrinks [OF this] len show ?thesis by simp
  qed
qed

lemma at_tok_nextint_base_cursor:
  "at_tok_nextint_base cur base uns = (ret, cur', out) \<Longrightarrow> cur_le cur' cur"
  by (auto simp: at_tok_nextint_base_def split: if_splits prod.splits option.splits
      dest: nextTok_cursor)

lemma scan_conv_cursor: "scan_conv c line = (err, line', st) \<Longrightarrow> cur_le line' line"
  by (auto simp: at_tok_nextint_def at_tok_nexthexint_def at_tok_nextbool_def at_tok_nextstr_def
      split: if_splits prod.splits option.splits
      dest: nextTok_cursor at_tok_nextint_base_cursor)

section \<open>Printing fields and reading them back\<close>

text \<open>
  An AT response field as a modem prints it: bare, or between double quotes.
\<close>

datatype field = Plain string | Quoted string

fun field_text :: "field \<Rightarrow> string" where
  "field_text (Plain s) = s"
| "field_text (Quoted s) = s"

fun field_ok :: "field \<Rightarrow> bool" where
  "field_ok (Plain s) \<longleftrightarrow> CHR '','' \<notin> set s \<and> (case s of [] \<Rightarrow> True | c # _ \<Rightarrow> c \<noteq> CHR 0x22 \<and> \<not> isspace c)"
| "field_ok (Quoted s) \<longleftrightarrow> CHR 0x22 \<notin> set s"

fun show_field :: "field \<Rightarrow> string" where
  "show_field (Plain s) = s"
| "show_field (Quoted s) = CHR 0x22 # s @ [CHR 0x22]"

fun show_fields :: "field list \<Rightarrow> string" where
  "show_fields [] = []"
| "show_fields [f] = show_field f"
| "show_fields (f # fs) = show_field f @ CHR '','' # show_fields fs"

text \<open>A caller that takes \<open>n\<close> tokens one after the other.\<close>

primrec nextToks :: "nat \<Rightarrow> cstr \<Rightarrow> cstr list \<times> cstr" where
  "nextToks 0 cur = ([], cur)"
| "nextToks (Suc n) cur =
     (case nextTok cur of (tok, cur') \<Rightarrow>
        (case nextToks n cur' of (toks, cur'') \<Rightarrow> (tok # toks, cur'')))"

lemma not_isspace_delims [simp]:
  "\<not> isspace (CHR '','')" "\<not> isspace (CHR 0x22)" "\<not> isspace (CHR ''-'')"
  by (simp_all add: isspace_def)

lemma takeWhile_sep: "c \<notin> set s \<Longrightarrow> takeWhile (\<lambda>x. x \<noteq> c) (s @ c # r) = s"
  by (induction s) auto

lemma dropWhile_sep: "c \<notin> set s \<Longrightarrow> dropWhile (\<lambda>x. x \<noteq> c) (s @ c # r) = c # r"
  by (induction s) auto

lemma takeWhile_nosep: "c \<notin> set s \<Longrightarrow> takeWhile (\<lambda>x. x \<noteq> c) s = s"
  by (induction s) auto

lemma dropWhile_nosep: "c \<notin> set s \<Longrightarrow> dropWhile (\<lambda>x. x \<noteq> c) s = []"
  by (induction s) auto

lemmas sep_simps = takeWhile_sep dropWhile_sep takeWhile_nosep dropWhile_nosep

lemma dropWhile_prefix: "\<forall>c \<in> set w. P c \<Longrightarrow> dropWhile P (w @ s) = dropWhile P s"
  by (induction w) auto

lemma nextTok_skip_ws: "\<forall>c \<in> set w. isspace c \<Longrightarrow> nextTok (Some (w @ s)) = nextTok (Some s)"
  by (simp add: nextTok_Some dropWhile_prefix)

lemma nextTok_field_more:
  "field_ok f \<Longrightarrow> nextTok (Some (show_field f @ CHR '','' # r)) = (Some (field_text f), Some r)"
proof (cases f)
  case (Plain s)
  assume "field_ok f"
  with Plain show ?thesis
    by (cases s) (auto simp: nextTok_Some sep_simps)
next
  case (Quoted s)
  assume "field_ok f"
  with Quoted show ?thesis
    by (simp add: nextTok_Some sep_simps)
qed

lemma nextTok_field_last:
  "field_ok f \<Longrightarrow> fst (nextTok (Some (show_field f))) = Some (field_text f)"
proof (cases f)
  case (Plain s)
  assume "field_ok f"
  with Plain show ?thesis
    by (cases s) (auto simp: nextTok_Some sep_simps)
next
  case (Quoted s)
  assume "field_ok f"
  with Quoted show ?thesis
    by (simp add: nextTok_Some sep_simps)
qed

section \<open>Printing integers and reading them back\<close>

definition digit_char :: "nat \<Rightarrow> char" where
  "digit_char d = char_of (48 + d)"

fun show_nat :: "nat \<Rightarrow> string" where
  "show_nat n = (if n < 10 then [digit_char n] else show_nat (n div 10) @ [digit_char (n mod 10)])"

declare show_nat.simps [simp del]

definition show_int :: "int \<Rightarrow> string" where
  "show_int i = (if i < 0 then CHR ''-'' # show_nat (nat (- i)) else show_nat (nat i))"

lemma of_char_digit_char: "d < 10 \<Longrightarrow> of_char (digit_char d) = (48 + d :: nat)"
  by (simp add: digit_char_def of_char_of)

lemma digit_val_digit_char [simp]: "d < 10 \<Longrightarrow> digit_val (digit_char d) = d"
  by (simp add: digit_val_def of_char_digit_char)

lemma digits_val_append:
  "\<forall>c \<in> set s. digit_val c < b \<Longrightarrow> digits_val b a (s @ t) = digits_val b (digits_val b a s) t"
  by (induction s arbitrary: a) auto

definition is_dec :: "char \<Rightarrow> bool" where
  "is_dec c \<longleftrightarrow> (\<exists>d < 10. c = digit_char d)"

lemma is_dec_digit_char: "d < 10 \<Longrightarrow> is_dec (digit_char d)"
  by (auto simp: is_dec_def)

lemma is_decD: "is_dec c \<Longrightarrow> digit_val c < 10"
  by (auto simp: is_dec_def)

lemma is_dec_not: "is_dec c \<Longrightarrow> c \<noteq> CHR '','' \<and> c \<noteq> CHR 0x22 \<and> c \<noteq> CHR ''-'' \<and> c \<noteq> CHR ''+'' \<and> \<not> isspace c"
proof -
  assume "is_dec c"
  then obtain d where d: "d < 10" "c = digit_char d" by (auto simp: is_dec_def)
  then have n: "(of_char c :: nat) = 48 + d" by (simp add: of_char_digit_char)
  have "(of_char c :: nat) \<noteq> of_char (CHR '','')" "(of_char c :: nat) \<noteq> of_char (CHR 0x22)"
    "(of_char c :: nat) \<noteq> of_char (CHR ''-'')" "(of_char c :: nat) \<noteq> of_char (CHR ''+'')"
    "(of_char c :: nat) \<noteq> of_char (CHR '' '')"
    by (simp_all add: n)
  then show ?thesis using n d(1) by (auto simp: isspace_def)
qed

lemma show_nat_dec: "\<forall>c \<in> set (show_nat n). is_dec c"
proof (induction n rule: show_nat.induct)
  case (1 n)
  then show ?case
    by (subst show_nat.simps) (auto simp: is_dec_digit_char)
qed

lemma show_nat_nonempty [simp]: "show_nat n \<noteq> []"
  by (subst show_nat.simps) simp

lemma digits_val_show_nat: "digits_val 10 0 (show_nat n) = n"
proof (induction n rule: show_nat.induct)
  case (1 n)
  show ?case
  proof (cases "n < 10")
    case True
    then show ?thesis by (simp add: show_nat.simps [of n])
  next
    case False
    then show ?thesis
      using "1.IH" show_nat_dec [of "n div 10"]
      by (simp add: show_nat.simps [of n] digits_val_append is_decD)
  qed
qed

lemma show_nat_Cons: "\<exists>c r. show_nat n = c # r \<and> is_dec c"
  using show_nat_dec [of n] by (cases "show_nat n") auto

lemma strto_parts_show_int: "strto_parts 10 (show_int i) = (i < 0, nat \<bar>i\<bar>, True)"
proof -
  obtain c r where cr: "show_nat (nat \<bar>i\<bar>) = c # r" and c: "is_dec c"
    using show_nat_Cons by blast
  have v: "digits_val 10 0 (c # r) = nat \<bar>i\<bar>"
    using digits_val_show_nat [of "nat \<bar>i\<bar>"] by (simp only: cr)
  have s: "skip0x 10 t = t" for t
    by (auto simp: skip0x_def split: list.split)
  show ?thesis
  proof (cases "i < 0")
    case True
    then have "show_int i = CHR ''-'' # c # r"
      using cr by (simp add: show_int_def)
    with True v is_decD [OF c] show ?thesis
      by (simp add: strto_parts_def s)
  next
    case False
    then have "show_int i = c # r"
      using cr by (simp add: show_int_def)
    with False v is_decD [OF c] is_dec_not [OF c] show ?thesis
      by (simp add: strto_parts_def s)
  qed
qed

lemma strtol_show_int:
  "- (2 ^ 63) \<le> i \<Longrightarrow> i < 2 ^ 63 \<Longrightarrow> strtol 10 (show_int i) = (i, True)"
  by (auto simp: strtol_def strto_parts_show_int)

lemma field_ok_show_int: "field_ok (Plain (show_int i))"
proof -
  obtain c r where cr: "show_nat (nat \<bar>i\<bar>) = c # r" and c: "is_dec c"
    using show_nat_Cons by blast
  have "CHR '','' \<notin> set (show_nat (nat \<bar>i\<bar>))"
    using show_nat_dec [of "nat \<bar>i\<bar>"] is_dec_not by blast
  with cr is_dec_not [OF c] show ?thesis
    by (auto simp: show_int_def)
qed

definition in_int32 :: "int \<Rightarrow> bool" where
  "in_int32 i \<longleftrightarrow> -2147483648 \<le> i \<and> i < 2147483648"

lemma scan_conv_int:
  assumes "nextTok (Some s) = (Some (show_int i), cur')" and "in_int32 i"
  shows "scan_conv (CHR ''d'') (Some s) = (0, cur', StInt i)"
  using assms
  by (simp add: at_tok_nextint_def at_tok_nextint_base_def in_int32_def strtol_show_int to_int32_id)

lemma ws_not_dash:
  assumes "\<forall>c \<in> set w. isspace c"
  shows "\<not> is_dash_field (Some (w @ show_int i @ r))"
proof (cases w)
  case Nil
  obtain c r' where cr: "show_nat (nat \<bar>i\<bar>) = c # r'" and c: "is_dec c"
    using show_nat_Cons by blast
  with Nil is_dec_not [OF c] show ?thesis
    by (auto simp: is_dash_field_def show_int_def split: list.split)
next
  case (Cons a w')
  with assms show ?thesis
    by (auto simp: is_dash_field_def split: list.split)
qed

lemma show_int_nonempty [simp]: "show_int i \<noteq> []"
  by (simp add: show_int_def)

fun int_fmt :: "nat \<Rightarrow> string" where
  "int_fmt 0 = []"
| "int_fmt (Suc 0) = ''%d''"
| "int_fmt (Suc (Suc n)) = ''%d,'' @ int_fmt (Suc n)"

abbreviation int_fields :: "int list \<Rightarrow> string" where
  "int_fields is \<equiv> show_fields (map (\<lambda>i. Plain (show_int i)) is)"

lemma scan_loop_ints:
  assumes "is \<noteq> []" "\<forall>i \<in> set is. in_int32 i" "\<forall>c \<in> set w. isspace c"
  shows "scan_loop (int_fmt (length is)) (Some (w @ int_fields is)) n out
         = Some (n + length is, out @ map StInt is)"
  using assms
proof (induction "is" arbitrary: n out w rule: induct_list012)
  case (2 i)
  obtain cur' where tok: "nextTok (Some (w @ show_int i)) = (Some (show_int i), cur')"
    using nextTok_field_last [OF field_ok_show_int, of i] nextTok_skip_ws [OF "2.prems"(3)]
    by (metis field_text.simps(1) prod.collapse show_field.simps(1))
  show ?case
    using scan_conv_int [OF tok] "2.prems" ws_not_dash [of w i "[]"]
    by (simp add: at_tok_hasmore_def del: scan_conv.simps)
next
  case (3 i j js)
  let ?r = "int_fields (j # js)"
  have tok: "nextTok (Some (w @ show_int i @ CHR '','' # ?r)) = (Some (show_int i), Some ?r)"
    using nextTok_field_more [OF field_ok_show_int, of i ?r] "3.prems"(3)
    by (simp add: nextTok_skip_ws)
  have IH: "scan_loop (int_fmt (length (j # js))) (Some ([] @ ?r)) (Suc n) (out @ [StInt i])
            = Some (Suc n + length (j # js), (out @ [StInt i]) @ map StInt (j # js))"
    by (rule "3.IH"(2)) (use "3.prems" in auto)
  show ?case
    using scan_conv_int [OF tok] "3.prems" ws_not_dash [of w i "CHR '','' # ?r"] IH
    by (simp add: at_tok_hasmore_def del: scan_conv.simps)
qed simp

lemma strchr_colon: "c \<notin> set pre \<Longrightarrow> strchr (pre @ c # r) c = Some (c # r)"
  by (induction pre) auto

section \<open>Properties\<close>

text \<open>
  Round trip of AT responses: \<open>at_tok_scanf\<close> applied to a response line that carries
  the decimal integers \<open>is\<close> (each in the range of a 32-bit \<open>int\<close>), with the matching
  \<open>%d,%d,...\<close> format, returns the number of integers and stores exactly these
  integers, whatever the prefix before the first colon and the white space after it,
  as long as the line fits the 1023 characters the function copies.
\<close>

theorem at_tok_scanf_ints:
  assumes "CHR '':'' \<notin> set pre" and "\<forall>c \<in> set w. isspace c" and "\<forall>i \<in> set is. in_int32 i"
    and "length (pre @ '':'' @ w @ int_fields is) \<le> 1023"
  shows "at_tok_scanf (Some (pre @ '':'' @ w @ int_fields is)) (int_fmt (length is))
         = Some (length is, map StInt is)"
proof -
  have start: "at_tok_start (Some (pre @ '':'' @ w @ int_fields is)) = (0, Some (w @ int_fields is))"
    using assms(1) by (simp add: strchr_colon)
  have "take 1023 (pre @ '':'' @ w @ int_fields is) = pre @ '':'' @ w @ int_fields is"
    using assms(4) by simp
  then show ?thesis
    using start scan_loop_ints [of "is" w 0 "[]"] assms(2,3)
    by (cases "is = []") (simp_all add: at_tok_scanf_def)
qed

theorem at_tok_scanf_ints_witness:
  "at_tok_scanf (Some (''+CREG'' @ '':'' @ '' '' @ int_fields [2, -1])) (int_fmt 2)
   = Some (2, [StInt 2, StInt (-1)])"
proof -
  have "length (''+CREG'' @ '':'' @ '' '' @ int_fields [2, -1]) \<le> 1023"
    by (simp add: show_int_def show_nat.simps)
  then show ?thesis
    using at_tok_scanf_ints [of "''+CREG''" "'' ''" "[2, -1]"]
    by (simp add: in_int32_def isspace_def numeral_2_eq_2)
qed

text \<open>
  Round trip of tokens: a caller that takes as many tokens as there are comma
  separated fields, some of them between double quotes (and then with commas inside),
  gets the fields' texts in order.
\<close>

theorem nextTok_roundtrip:
  assumes "\<forall>f \<in> set fs. field_ok f"
  shows "fst (nextToks (length fs) (Some (show_fields fs))) = map (Some \<circ> field_text) fs"
  using assms
proof (induction fs rule: show_fields.induct)
  case (2 f)
  then show ?case using nextTok_field_last [of f] by (simp add: case_prod_beta)
next
  case (3 f g gs)
  then show ?case by (simp add: nextTok_field_more case_prod_beta)
qed simp

theorem nextTok_roundtrip_witness:
  "fst (nextToks 2 (Some (show_fields [Quoted ''a,b'', Plain ''7'']))) = [Some ''a,b'', Some ''7'']"
  using nextTok_roundtrip [of "[Quoted ''a,b'', Plain ''7'']"]
  by (simp add: isspace_def numeral_2_eq_2)

text \<open>
  Memory safety of the tokenizer: whatever conversion is applied, the cursor it
  leaves is \<open>NULL\<close> or points into the characters the cursor pointed at before (never
  beyond the terminating NUL), and a token taken from a non-null cursor is non-null and
  leaves strictly fewer characters unless it ends the line.
\<close>

theorem at_tok_cursor_safe:
  "cur_le (fst (snd (scan_conv c line))) line
   \<and> fst (nextTok (Some s)) \<noteq> None
   \<and> (case snd (nextTok (Some s)) of None \<Rightarrow> True | Some t \<Rightarrow> length t < length s)"
proof (intro conjI)
  show "cur_le (fst (snd (scan_conv c line))) line"
    by (cases "scan_conv c line") (auto dest: scan_conv_cursor simp del: scan_conv.simps)
  show "case snd (nextTok (Some s)) of None \<Rightarrow> True | Some t \<Rightarrow> length t < length s"
    using nextTok_shrinks [of s "fst (nextTok (Some s))"]
    by (auto split: option.split simp: prod_eq_iff)
qed (rule nextTok_token)

end
