(* ===== verification/AtChannel.thy ===== *)
theory AtChannel
  imports AtTok
begin

text \<open>
  The AT command channel, \<^verbatim>\<open>quectel_cm_5G/src/atchannel.c\<close>: the reader thread that
  cuts the byte stream of the modem into lines and dispatches them, and the command
  thread that sends one command and waits for its final response.

  The file-scope variables of the source are the fields of \<open>at_state\<close>. What the
  channel does to the outside (bytes written, callbacks, condition signals) is appended
  to the field \<open>out\<close>. The answers of the operating system to the next \<open>write\<close> and
  \<open>poll\<close> calls are in the fields \<open>wr\<close> and \<open>pl\<close>; calls beyond these lists succeed
  completely. \<open>None\<close> as a state is a run that dereferences a \<open>NULL\<close> pointer.
\<close>

section \<open>State\<close>

datatype ATCommandType = NO_RESULT | NUMERIC | SINGLELINE | MULTILINE

record ATResponse =
  success :: int
  finalResponse :: cstr
  p_intermediates :: "string list"

datatype at_event =
    Unsolicited string "string option"
  | Sent string
  | CondSignal
  | TimeoutCb
  | ReaderClosedCb

datatype wres = WEintr | WErr | Wrote nat

record at_state =
  s_fd :: int
  s_unsolHandler :: bool
  s_atc_proxy :: bool
  s_type :: ATCommandType
  s_responsePrefix :: cstr
  s_smsPDU :: cstr
  s_raw_data :: cstr
  sp_response :: "ATResponse option"
  s_onTimeout :: bool
  s_onReaderClosed :: bool
  s_readerClosed :: bool
  wr :: "wres list"
  pl :: "bool list"
  out :: "at_event list"

definition AT_ERROR_GENERIC :: int where "AT_ERROR_GENERIC = -1"
definition AT_ERROR_COMMAND_PENDING :: int where "AT_ERROR_COMMAND_PENDING = -2"
definition AT_ERROR_CHANNEL_CLOSED :: int where "AT_ERROR_CHANNEL_CLOSED = -3"
definition AT_ERROR_TIMEOUT :: int where "AT_ERROR_TIMEOUT = -4"
definition AT_ERROR_INVALID_THREAD :: int where "AT_ERROR_INVALID_THREAD = -5"
definition AT_ERROR_INVALID_RESPONSE :: int where "AT_ERROR_INVALID_RESPONSE = -6"

lemmas at_errors = AT_ERROR_GENERIC_def AT_ERROR_COMMAND_PENDING_def AT_ERROR_CHANNEL_CLOSED_def
  AT_ERROR_TIMEOUT_def AT_ERROR_INVALID_THREAD_def AT_ERROR_INVALID_RESPONSE_def

definition emit :: "at_event \<Rightarrow> at_state \<Rightarrow> at_state" where
  "emit e st = st\<lparr>out := out st @ [e]\<rparr>"

section \<open>Classifying lines\<close>

fun strStartsWith :: "string \<Rightarrow> string \<Rightarrow> bool" where
  "strStartsWith (l # ls) (p # ps) = (if l \<noteq> p then False else strStartsWith ls ps)"
| "strStartsWith [] (p # ps) = False"
| "strStartsWith ls [] = True"

definition s_finalResponsesError :: "string list" where
  "s_finalResponsesError =
     [''ERROR'', ''+CMS ERROR:'', ''+CME ERROR:'', ''NO CARRIER'', ''NO ANSWER'', ''NO DIALTONE'',
      ''COMMAND NOT SUPPORT'']"

definition isFinalResponseError :: "string \<Rightarrow> bool" where
  "isFinalResponseError line = list_ex (strStartsWith line) s_finalResponsesError"

definition s_finalResponsesSuccess :: "string list" where
  "s_finalResponsesSuccess =
     [''OK'',
      ''+QIND: '' @ [CHR 0x22] @ ''FOTA'' @ [CHR 0x22, CHR '','', CHR 0x22] @ ''END'' @ [CHR 0x22] @ '',0'',
      ''CONNECT'']"

definition isFinalResponseSuccess :: "string \<Rightarrow> bool" where
  "isFinalResponseSuccess line = list_ex (strStartsWith line) s_finalResponsesSuccess"

definition s_smsUnsoliciteds :: "string list" where
  "s_smsUnsoliciteds = [''+CMT:'', ''+CDS:'', ''+CBM:'', ''+CMTI:'']"

definition isSMSUnsolicited :: "string \<Rightarrow> bool" where
  "isSMSUnsolicited line = list_ex (strStartsWith line) s_smsUnsoliciteds"

section \<open>Writing\<close>

text \<open>
  The write loop shared by \<open>writeline\<close> and \<open>writeCtrlZ\<close>: whether it succeeded, the
  bytes that went out, and the remaining answers.
\<close>

fun write_loop :: "wres list \<Rightarrow> string \<Rightarrow> string \<Rightarrow> bool \<times> string \<times> wres list" where
  "write_loop ws [] sent = (True, sent, ws)"
| "write_loop [] d sent = (True, sent @ d, [])"
| "write_loop (WEintr # ws) d sent = write_loop ws d sent"
| "write_loop (WErr # ws) d sent = (False, sent, ws)"
| "write_loop (Wrote n # ws) d sent = write_loop ws (drop n d) (sent @ take n d)"

definition do_write :: "string \<Rightarrow> at_state \<Rightarrow> bool \<times> at_state" where
  "do_write d st = (case write_loop (wr st) d [] of (ok, sent, ws) \<Rightarrow>
     (ok, emit (Sent sent) (st\<lparr>wr := ws\<rparr>)))"

definition writeline :: "string \<Rightarrow> at_state \<Rightarrow> int \<times> at_state" where
  "writeline s st =
     (if s_fd st < 0 \<or> s_readerClosed st then (AT_ERROR_CHANNEL_CLOSED, st)
      else if length s < 63 then
        (case do_write (s @ [CHR 0x0D]) st of (ok, st') \<Rightarrow> (if ok then 0 else AT_ERROR_GENERIC, st'))
      else
        (case do_write s st of (ok, st') \<Rightarrow>
           if \<not> ok then (AT_ERROR_GENERIC, st')
           else (case do_write [CHR 0x0D] st' of (ok', st'') \<Rightarrow>
                   (if ok' then 0 else AT_ERROR_GENERIC, st''))))"

definition writeCtrlZ :: "string \<Rightarrow> at_state \<Rightarrow> int \<times> at_state" where
  "writeCtrlZ s st =
     (if s_fd st < 0 \<or> s_readerClosed st then (AT_ERROR_CHANNEL_CLOSED, st)
      else
        (case do_write s st of (ok, st') \<Rightarrow>
           if \<not> ok then (AT_ERROR_GENERIC, st')
           else (case do_write [CHR 0x1A] st' of (ok', st'') \<Rightarrow>
                   (if ok' then 0 else AT_ERROR_GENERIC, st''))))"

text \<open>
  \<open>writeraw\<close> polls before every write and stops when \<open>poll\<close> does not report the
  descriptor; its only caller ignores the return value, which is not modelled.
\<close>

fun write_once :: "wres list \<Rightarrow> string \<Rightarrow> nat option \<times> wres list" where
  "write_once [] d = (Some (length d), [])"
| "write_once (WEintr # ws) d = write_once ws d"
| "write_once (WErr # ws) d = (None, ws)"
| "write_once (Wrote n # ws) d = (Some (min n (length d)), ws)"

lemma write_once_less:
  "write_once ws d = (Some n, ws') \<Longrightarrow> d \<noteq> [] \<Longrightarrow> length ws' + length (drop n d) < length ws + length d"
  by (induction ws d rule: write_once.induct) auto

function raw_loop :: "bool list \<Rightarrow> wres list \<Rightarrow> string \<Rightarrow> string \<Rightarrow> string \<times> bool list \<times> wres list" where
  "raw_loop ps ws d sent =
     (if d = [] then (sent, ps, ws)
      else if ps \<noteq> [] \<and> \<not> hd ps then (sent, tl ps, ws)
      else case write_once ws d of
        (None, ws') \<Rightarrow> (sent, tl ps, ws')
      | (Some n, ws') \<Rightarrow> raw_loop (tl ps) ws' (drop n d) (sent @ take n d))"
  by pat_completeness auto
termination
  by (relation "measure (\<lambda>(ps, ws, d, sent). length ws + length d)")
    (simp, use write_once_less in fastforce)

declare raw_loop.simps [simp del]

definition writeraw :: "string \<Rightarrow> at_state \<Rightarrow> at_state" where
  "writeraw d st =
     (if s_fd st < 0 \<or> s_readerClosed st then st
      else case raw_loop (pl st) (wr st) d [] of (sent, ps, ws) \<Rightarrow>
        emit (Sent sent) (st\<lparr>pl := ps, wr := ws\<rparr>))"

section \<open>Dispatching a line\<close>

definition addIntermediate :: "string \<Rightarrow> ATResponse \<Rightarrow> ATResponse" where
  "addIntermediate line r = r\<lparr>p_intermediates := line # p_intermediates r\<rparr>"

definition handleUnsolicited :: "string \<Rightarrow> at_state \<Rightarrow> at_state" where
  "handleUnsolicited line st =
     (if s_unsolHandler st then emit (Unsolicited line None) st else st)"

definition handleFinalResponse :: "string \<Rightarrow> ATResponse \<Rightarrow> at_state \<Rightarrow> at_state" where
  "handleFinalResponse line r st =
     emit CondSignal (st\<lparr>sp_response := Some (r\<lparr>finalResponse := Some line\<rparr>)\<rparr>)"

definition processLine :: "string \<Rightarrow> at_state \<Rightarrow> at_state option" where
  "processLine line st =
     (case sp_response st of
        None \<Rightarrow> Some (handleUnsolicited line st)
      | Some r \<Rightarrow>
          if s_raw_data st \<noteq> None \<and> line = ''CONNECT'' then
            Some ((writeraw (the (s_raw_data st)) st)\<lparr>s_raw_data := None\<rparr>)
          else if isFinalResponseSuccess line then
            Some (handleFinalResponse line (r\<lparr>success := 1\<rparr>)
                   (if s_atc_proxy st then handleUnsolicited line st else st))
          else if isFinalResponseError line then
            Some (handleFinalResponse line (r\<lparr>success := 0\<rparr>)
                   (if s_atc_proxy st then handleUnsolicited line st else st))
          else if s_smsPDU st \<noteq> None \<and> line = ''> '' then
            Some ((snd (writeCtrlZ (the (s_smsPDU st)) st))\<lparr>s_smsPDU := None\<rparr>)
          else (case s_type st of
              NO_RESULT \<Rightarrow> Some (handleUnsolicited line st)
            | NUMERIC \<Rightarrow>
                if p_intermediates r = [] \<and> line \<noteq> [] \<and> isdigit (hd line)
                then Some (st\<lparr>sp_response := Some (addIntermediate line r)\<rparr>)
                else Some (handleUnsolicited line st)
            | SINGLELINE \<Rightarrow>
                if p_intermediates r = [] then
                  (case s_responsePrefix st of
                     None \<Rightarrow> None
                   | Some pre \<Rightarrow>
                       if strStartsWith line pre
                       then Some (st\<lparr>sp_response := Some (addIntermediate line r)\<rparr>)
                       else Some (handleUnsolicited line st))
                else Some (handleUnsolicited line st)
            | MULTILINE \<Rightarrow>
                (case s_responsePrefix st of
                   None \<Rightarrow> None
                 | Some pre \<Rightarrow>
                     if strStartsWith line pre
                     then Some (st\<lparr>sp_response := Some (addIntermediate line r)\<rparr>)
                     else Some (handleUnsolicited line st))))"

definition onReaderClosed :: "at_state \<Rightarrow> at_state" where
  "onReaderClosed st =
     (if s_onReaderClosed st \<and> \<not> s_readerClosed st
      then emit ReaderClosedCb (emit CondSignal (st\<lparr>s_readerClosed := True\<rparr>))
      else st)"

text \<open>
  \<open>readerLoop\<close> on the lines that \<open>readline\<close> returns before it returns \<open>NULL\<close>.
\<close>

fun readerLoop :: "string list \<Rightarrow> at_state \<Rightarrow> at_state option" where
  "readerLoop [] st = Some (onReaderClosed st)"
| "readerLoop (line # ls) st =
     (if isSMSUnsolicited line then
        (case ls of
           [] \<Rightarrow> Some (onReaderClosed st)
         | line2 # ls' \<Rightarrow>
             readerLoop ls' (if s_unsolHandler st then emit (Unsolicited line (Some line2)) st else st))
      else (case processLine line st of None \<Rightarrow> None | Some st' \<Rightarrow> readerLoop ls st'))"

section \<open>Commands\<close>

definition at_response_new :: ATResponse where
  "at_response_new = \<lparr>success = 0, finalResponse = None, p_intermediates = []\<rparr>"

definition clearPendingCommand :: "at_state \<Rightarrow> at_state" where
  "clearPendingCommand st = st\<lparr>sp_response := None, s_responsePrefix := None, s_smsPDU := None\<rparr>"

text \<open>The in-place reversal of the intermediate lines.\<close>

fun rev_loop :: "string list \<Rightarrow> string list \<Rightarrow> string list" where
  "rev_loop [] acc = acc"
| "rev_loop (pcur # pnext) acc = rev_loop pnext (pcur # acc)"

definition reverseIntermediates :: "ATResponse \<Rightarrow> ATResponse" where
  "reverseIntermediates r = r\<lparr>p_intermediates := rev_loop (p_intermediates r) []\<rparr>"

text \<open>
  While the command thread waits on \<open>cm_command_cond\<close> the mutex is free and the reader
  thread runs. \<open>wake\<close> is one such activity; the wait ends in \<open>ETIMEDOUT\<close> when no
  activity is left.
\<close>

datatype wake = WLine string | WSms string string | WClose

definition at_close :: "at_state \<Rightarrow> at_state" where
  "at_close st = emit CondSignal (st\<lparr>s_fd := -1, s_readerClosed := True\<rparr>)"

fun wake_step :: "wake \<Rightarrow> at_state \<Rightarrow> at_state option" where
  "wake_step (WLine l) st = processLine l st"
| "wake_step (WSms l1 l2) st =
     Some (if s_unsolHandler st then emit (Unsolicited l1 (Some l2)) st else st)"
| "wake_step WClose st = Some (at_close st)"

definition cmd_done :: "at_state \<Rightarrow> bool" where
  "cmd_done st \<longleftrightarrow> s_readerClosed st \<or>
     (case sp_response st of None \<Rightarrow> False | Some r \<Rightarrow> finalResponse r \<noteq> None)"

text \<open>The wait loop: whether the command is done (or timed out), and the state.\<close>

fun wait_loop :: "wake list \<Rightarrow> at_state \<Rightarrow> (bool \<times> at_state) option" where
  "wait_loop evs st =
     (if sp_response st = None then None
      else if cmd_done st then Some (True, st)
      else case evs of
        [] \<Rightarrow> Some (False, st)
      | e # es \<Rightarrow> (case wake_step e st of None \<Rightarrow> None | Some st' \<Rightarrow> wait_loop es st'))"

definition at_send_command_full_nolock ::
    "cstr \<Rightarrow> ATCommandType \<Rightarrow> cstr \<Rightarrow> cstr \<Rightarrow> bool \<Rightarrow> wake list \<Rightarrow> at_state
     \<Rightarrow> (int \<times> ATResponse option \<times> at_state) option" where
  "at_send_command_full_nolock command type responsePrefix smspdu want evs st =
     (if sp_response st \<noteq> None then
        Some (AT_ERROR_COMMAND_PENDING, None, clearPendingCommand st)
      else
        (case (case command of None \<Rightarrow> (0, st) | Some c \<Rightarrow> writeline c st) of (err, st1) \<Rightarrow>
           if err < 0 then Some (err, None, clearPendingCommand st1)
           else
             (case wait_loop evs (st1\<lparr>s_type := type, s_responsePrefix := responsePrefix,
                                      s_smsPDU := smspdu, sp_response := Some at_response_new\<rparr>) of
                None \<Rightarrow> None
              | Some (False, st2) \<Rightarrow> Some (AT_ERROR_TIMEOUT, None, clearPendingCommand st2)
              | Some (True, st2) \<Rightarrow>
                  (let resp = (if want then map_option reverseIntermediates (sp_response st2) else None);
                       st3 = st2\<lparr>sp_response := None\<rparr>
                   in Some (if s_readerClosed st3 then AT_ERROR_CHANNEL_CLOSED else 0,
                            resp, clearPendingCommand st3)))))"

text \<open>\<open>is_reader\<close>: the caller runs on the reader thread.\<close>

definition at_send_command_full ::
    "bool \<Rightarrow> cstr \<Rightarrow> ATCommandType \<Rightarrow> cstr \<Rightarrow> cstr \<Rightarrow> bool \<Rightarrow> wake list \<Rightarrow> at_state
     \<Rightarrow> (int \<times> ATResponse option \<times> at_state) option" where
  "at_send_command_full is_reader command type responsePrefix smspdu want evs st =
     (if is_reader then Some (AT_ERROR_INVALID_THREAD, None, st)
      else case at_send_command_full_nolock command type responsePrefix smspdu want evs st of
        None \<Rightarrow> None
      | Some (err, resp, st') \<Rightarrow>
          Some (err, resp, if err = AT_ERROR_TIMEOUT \<and> s_onTimeout st' then emit TimeoutCb st' else st'))"

definition at_send_command :: "bool \<Rightarrow> cstr \<Rightarrow> bool \<Rightarrow> wake list \<Rightarrow> at_state
     \<Rightarrow> (int \<times> ATResponse option \<times> at_state) option" where
  "at_send_command is_reader command want evs st =
     at_send_command_full is_reader command NO_RESULT None None want evs st"

text \<open>The check the single-line commands make on a successful response.\<close>

definition require_intermediate :: "int \<times> ATResponse option \<times> at_state \<Rightarrow> int \<times> ATResponse option \<times> at_state" where
  "require_intermediate res = (case res of (err, resp, st) \<Rightarrow>
     (case resp of
        None \<Rightarrow> (err, None, st)
      | Some r \<Rightarrow>
          if err = 0 \<and> success r > 0 \<and> p_intermediates r = []
          then (AT_ERROR_INVALID_RESPONSE, None, st)
          else (err, Some r, st)))"

definition at_send_command_singleline where
  "at_send_command_singleline is_reader command responsePrefix want evs st =
     map_option require_intermediate
       (at_send_command_full is_reader command SINGLELINE responsePrefix None want evs st)"

definition at_send_command_numeric where
  "at_send_command_numeric is_reader command want evs st =
     map_option require_intermediate
       (at_send_command_full is_reader command NUMERIC None None want evs st)"

definition at_send_command_sms where
  "at_send_command_sms is_reader command pdu responsePrefix want evs st =
     map_option require_intermediate
       (at_send_command_full is_reader command SINGLELINE responsePrefix pdu want evs st)"

definition at_send_command_multiline where
  "at_send_command_multiline is_reader command responsePrefix want evs st =
     at_send_command_full is_reader command MULTILINE responsePrefix None want evs st"

definition at_send_command_raw where
  "at_send_command_raw is_reader command raw_data responsePrefix want evs st =
     at_send_command_full is_reader command SINGLELINE responsePrefix None want evs
       (st\<lparr>s_raw_data := raw_data\<rparr>)"

text \<open>\<open>at_handshake\<close>: at most eight attempts, each with its own reader activity.\<close>

fun handshake_loop :: "nat \<Rightarrow> wake list list \<Rightarrow> int \<Rightarrow> at_state \<Rightarrow> (int \<times> at_state) option" where
  "handshake_loop 0 evss err st = Some (err, st)"
| "handshake_loop (Suc n) evss err st =
     (case at_send_command_full_nolock (Some ''ATE0Q0V1'') NO_RESULT None None False
             (case evss of [] \<Rightarrow> [] | evs # _ \<Rightarrow> evs) st of
        None \<Rightarrow> None
      | Some (err', _, st') \<Rightarrow>
          if err' = 0 then Some (0, st') else handshake_loop n (tl evss) err' st')"

definition at_handshake :: "bool \<Rightarrow> wake list list \<Rightarrow> at_state \<Rightarrow> (int \<times> at_state) option" where
  "at_handshake is_reader evss st =
     (if is_reader then Some (AT_ERROR_INVALID_THREAD, st) else handshake_loop 8 evss 0 st)"

definition at_get_cme_error :: "ATResponse option \<Rightarrow> int" where
  "at_get_cme_error p_response =
     (case p_response of
        None \<Rightarrow> -1
      | Some r \<Rightarrow>
          if success r > 0 then 0
          else (case finalResponse r of
              None \<Rightarrow> -1
            | Some f \<Rightarrow>
                if \<not> strStartsWith f ''+CME ERROR:'' then -1
                else (case at_tok_start (Some f) of (err, cur) \<Rightarrow>
                  if err < 0 then -1
                  else (case at_tok_nextint cur of
                      (err', _, Some ret) \<Rightarrow> if err' < 0 then -1 else ret
                    | (err', _, None) \<Rightarrow> -1))))"

definition at_open :: "int \<Rightarrow> bool \<Rightarrow> bool \<Rightarrow> at_state \<Rightarrow> at_state" where
  "at_open fd h proxy st =
     st\<lparr>s_fd := fd, s_unsolHandler := h, s_readerClosed := False, s_atc_proxy := proxy,
        s_responsePrefix := None, s_smsPDU := None, sp_response := None\<rparr>"

definition at_set_on_timeout :: "bool \<Rightarrow> at_state \<Rightarrow> at_state" where
  "at_set_on_timeout h st = st\<lparr>s_onTimeout := h\<rparr>"

definition at_set_on_reader_closed :: "bool \<Rightarrow> at_state \<Rightarrow> at_state" where
  "at_set_on_reader_closed h st = st\<lparr>s_onReaderClosed := h\<rparr>"


section \<open>Lemmas\<close>

declare wait_loop.simps [simp del]

lemma wait_loop_Nil [simp]:
  "wait_loop [] st = (if sp_response st = None then None else Some (cmd_done st, st))"
  by (simp add: wait_loop.simps)

lemma wait_loop_Cons [simp]:
  "wait_loop (e # es) st =
     (if sp_response st = None then None
      else if cmd_done st then Some (True, st)
      else case wake_step e st of None \<Rightarrow> None | Some st' \<Rightarrow> wait_loop es st')"
  by (simp add: wait_loop.simps)

lemma wait_loop_done:
  "sp_response st \<noteq> None \<Longrightarrow> cmd_done st \<Longrightarrow> wait_loop evs st = Some (True, st)"
  by (cases evs) auto

lemma rev_loop_rev: "rev_loop xs acc = rev xs @ acc"
  by (induction xs arbitrary: acc) auto

lemma emit_fields [simp]:
  "s_fd (emit e st) = s_fd st" "s_unsolHandler (emit e st) = s_unsolHandler st"
  "s_atc_proxy (emit e st) = s_atc_proxy st" "s_type (emit e st) = s_type st"
  "s_responsePrefix (emit e st) = s_responsePrefix st" "s_smsPDU (emit e st) = s_smsPDU st"
  "s_raw_data (emit e st) = s_raw_data st" "sp_response (emit e st) = sp_response st"
  "s_onTimeout (emit e st) = s_onTimeout st" "s_onReaderClosed (emit e st) = s_onReaderClosed st"
  "s_readerClosed (emit e st) = s_readerClosed st" "out (emit e st) = out st @ [e]"
  by (simp_all add: emit_def)

lemma handleUnsolicited_fields [simp]:
  "s_type (handleUnsolicited l st) = s_type st"
  "s_responsePrefix (handleUnsolicited l st) = s_responsePrefix st"
  "s_smsPDU (handleUnsolicited l st) = s_smsPDU st"
  "s_raw_data (handleUnsolicited l st) = s_raw_data st"
  "sp_response (handleUnsolicited l st) = sp_response st"
  "s_readerClosed (handleUnsolicited l st) = s_readerClosed st"
  by (simp_all add: handleUnsolicited_def)

lemma do_write_fields:
  assumes "do_write d st = (ok, st')"
  shows "s_type st' = s_type st" "s_responsePrefix st' = s_responsePrefix st"
    "sp_response st' = sp_response st" "s_readerClosed st' = s_readerClosed st"
    "s_unsolHandler st' = s_unsolHandler st" "s_atc_proxy st' = s_atc_proxy st"
  using assms by (auto simp: do_write_def split: prod.splits)

lemma writeCtrlZ_fields [simp]:
  "s_type (snd (writeCtrlZ d st)) = s_type st"
  "s_responsePrefix (snd (writeCtrlZ d st)) = s_responsePrefix st"
  "sp_response (snd (writeCtrlZ d st)) = sp_response st"
  by (auto simp: writeCtrlZ_def do_write_fields split: prod.splits)

lemma writeline_fields:
  assumes "writeline c st = (err, st')"
  shows "s_type st' = s_type st" "s_responsePrefix st' = s_responsePrefix st"
    "sp_response st' = sp_response st" "s_readerClosed st' = s_readerClosed st"
    "s_unsolHandler st' = s_unsolHandler st" "s_atc_proxy st' = s_atc_proxy st"
  using assms by (auto simp: writeline_def do_write_fields split: prod.splits if_splits)

lemma writeraw_fields [simp]:
  "s_type (writeraw d st) = s_type st"
  "s_responsePrefix (writeraw d st) = s_responsePrefix st"
  "sp_response (writeraw d st) = sp_response st"
  by (auto simp: writeraw_def split: prod.splits)

subsection \<open>The pending command while the reader runs\<close>

text \<open>
  What a response under construction satisfies for a command of type \<open>ty\<close> and prefix
  \<open>pre\<close>: a single-line (or numeric) command has at most one intermediate line, and
  every intermediate line has the shape the command asked for.
\<close>

definition line_matches :: "ATCommandType \<Rightarrow> cstr \<Rightarrow> string \<Rightarrow> bool" where
  "line_matches ty pre l =
     (case ty of
        NO_RESULT \<Rightarrow> False
      | NUMERIC \<Rightarrow> l \<noteq> [] \<and> isdigit (hd l)
      | _ \<Rightarrow> (case pre of None \<Rightarrow> False | Some p \<Rightarrow> strStartsWith l p))"

definition resp_ok :: "ATCommandType \<Rightarrow> cstr \<Rightarrow> ATResponse \<Rightarrow> bool" where
  "resp_ok ty pre r \<longleftrightarrow>
     (ty \<noteq> MULTILINE \<longrightarrow> length (p_intermediates r) \<le> 1)
     \<and> (\<forall>l \<in> set (p_intermediates r). line_matches ty pre l)"

definition pending_inv :: "ATCommandType \<Rightarrow> cstr \<Rightarrow> at_state \<Rightarrow> bool" where
  "pending_inv ty pre st \<longleftrightarrow>
     s_type st = ty \<and> s_responsePrefix st = pre
     \<and> (\<exists>r. sp_response st = Some r \<and> resp_ok ty pre r)"

definition prefix_given :: "ATCommandType \<Rightarrow> cstr \<Rightarrow> bool" where
  "prefix_given ty pre \<longleftrightarrow> (ty = SINGLELINE \<or> ty = MULTILINE \<longrightarrow> pre \<noteq> None)"

lemma resp_ok_fields [simp]:
  "resp_ok ty pre (r\<lparr>success := v\<rparr>) = resp_ok ty pre r"
  "resp_ok ty pre (r\<lparr>finalResponse := f\<rparr>) = resp_ok ty pre r"
  by (simp_all add: resp_ok_def)

lemma pending_inv_handleUnsolicited [simp]:
  "pending_inv ty pre (handleUnsolicited l st) = pending_inv ty pre st"
  by (simp add: pending_inv_def)

lemma pending_inv_processLine [inv_intros]:
  assumes "pending_inv ty pre st" and "prefix_given ty pre"
  shows "\<exists>st'. processLine l st = Some st' \<and> pending_inv ty pre st'"
proof -
  from assms(1) obtain r where r: "sp_response st = Some r" and ok: "resp_ok ty pre r"
    and ty: "s_type st = ty" and pre: "s_responsePrefix st = pre"
    by (auto simp: pending_inv_def)
  have add: "resp_ok ty pre (addIntermediate l r)"
    if "line_matches ty pre l" "ty = MULTILINE \<or> p_intermediates r = []"
    using ok that by (auto simp: resp_ok_def addIntermediate_def)
  have final: "\<exists>st'. Some (handleFinalResponse l (r\<lparr>success := v\<rparr>) (if s_atc_proxy st then handleUnsolicited l st else st)) = Some st'
      \<and> pending_inv ty pre st'" for v
    using ok ty pre by (auto simp: handleFinalResponse_def pending_inv_def)
  show ?thesis
  proof (cases "(s_raw_data st \<noteq> None \<and> l = ''CONNECT'') \<or> isFinalResponseSuccess l
      \<or> isFinalResponseError l \<or> (s_smsPDU st \<noteq> None \<and> l = ''> '')")
    case True
    then show ?thesis
      using assms(1) r ok ty pre final
      by (auto simp: processLine_def pending_inv_def)
  next
    case False
    then show ?thesis
      using assms r ok ty pre add
      by (cases ty) (auto simp: processLine_def pending_inv_def line_matches_def prefix_given_def)
  qed
qed

lemma pending_inv_wake [inv_intros]:
  assumes "pending_inv ty pre st" and "prefix_given ty pre"
  shows "\<exists>st'. wake_step e st = Some st' \<and> pending_inv ty pre st'"
proof (cases e)
  case (WLine l)
  with pending_inv_processLine [OF assms] show ?thesis by simp
qed (use assms in \<open>auto simp: pending_inv_def at_close_def\<close>)

lemma pending_inv_wait:
  assumes "pending_inv ty pre st" and "prefix_given ty pre"
  shows "\<exists>b st'. wait_loop evs st = Some (b, st') \<and> pending_inv ty pre st' \<and> cmd_done st' = b"
  using assms(1)
proof (induction evs arbitrary: st)
  case Nil
  then show ?case by (auto simp: pending_inv_def)
next
  case (Cons e es)
  obtain st' where "wake_step e st = Some st'" "pending_inv ty pre st'"
    using pending_inv_wake [OF Cons.prems assms(2)] by blast
  with Cons.IH [of st'] Cons.prems show ?case
    by (auto simp: pending_inv_def)
qed


subsection \<open>Lines that do not end the command\<close>

definition plain_line :: "string \<Rightarrow> bool" where
  "plain_line l \<longleftrightarrow> \<not> isFinalResponseSuccess l \<and> \<not> isFinalResponseError l"

lemma connect_final: "isFinalResponseSuccess ''CONNECT''"
  by (simp add: isFinalResponseSuccess_def s_finalResponsesSuccess_def)

text \<open>The state in which a multi-line command waits.\<close>

definition waiting_multi :: "string \<Rightarrow> ATResponse \<Rightarrow> at_state \<Rightarrow> bool" where
  "waiting_multi pre r st \<longleftrightarrow>
     s_type st = MULTILINE \<and> s_responsePrefix st = Some pre \<and> s_smsPDU st = None
     \<and> s_unsolHandler st \<and> \<not> s_readerClosed st \<and> sp_response st = Some r \<and> finalResponse r = None"

lemma waiting_multi_line:
  assumes "waiting_multi pre r st" and "plain_line l"
  shows "processLine l st =
     Some (if strStartsWith l pre
           then st\<lparr>sp_response := Some (r\<lparr>p_intermediates := l # p_intermediates r\<rparr>)\<rparr>
           else st\<lparr>out := out st @ [Unsolicited l None]\<rparr>)"
proof -
  have "l \<noteq> ''CONNECT''"
    using assms(2) connect_final by (auto simp: plain_line_def)
  with assms show ?thesis
    by (auto simp: processLine_def waiting_multi_def plain_line_def addIntermediate_def
        handleUnsolicited_def emit_def)
qed

lemma waiting_multi_lines:
  assumes "waiting_multi pre r st" and "\<forall>l \<in> set ls. plain_line l"
  shows "wait_loop (map WLine ls @ evs) st =
     wait_loop evs (st\<lparr>sp_response :=
         Some (r\<lparr>p_intermediates := rev (filter (\<lambda>l. strStartsWith l pre) ls) @ p_intermediates r\<rparr>),
       out := out st @ map (\<lambda>l. Unsolicited l None) (filter (\<lambda>l. \<not> strStartsWith l pre) ls)\<rparr>)"
  using assms
proof (induction ls arbitrary: r st)
  case Nil
  then have "st\<lparr>sp_response := Some r, out := out st\<rparr> = st"
    by (simp add: waiting_multi_def)
  then show ?case by simp
next
  case (Cons l ls)
  let ?r1 = "if strStartsWith l pre then r\<lparr>p_intermediates := l # p_intermediates r\<rparr> else r"
  let ?st1 = "if strStartsWith l pre
      then st\<lparr>sp_response := Some (r\<lparr>p_intermediates := l # p_intermediates r\<rparr>)\<rparr>
      else st\<lparr>out := out st @ [Unsolicited l None]\<rparr>"
  have step: "processLine l st = Some ?st1"
    using waiting_multi_line [OF Cons.prems(1)] Cons.prems(2) by simp
  have w1: "waiting_multi pre ?r1 ?st1"
    using Cons.prems(1) by (simp add: waiting_multi_def)
  have "wait_loop (map WLine (l # ls) @ evs) st = wait_loop (map WLine ls @ evs) ?st1"
    using Cons.prems(1) step by (simp add: waiting_multi_def cmd_done_def)
  also note Cons.IH [OF w1]
  finally show ?case using Cons.prems by simp
qed

section \<open>Properties\<close>

text \<open>
  A multi-line command (for example \<open>AT+QNWINFO\<close>): when the command line is written
  and the modem answers with the lines \<open>ls\<close>, none of them a final response, and then the
  success line \<open>f\<close>, the issuer gets return code 0 and a successful response whose
  intermediate lines are exactly the lines of \<open>ls\<close> with the requested prefix, in the order
  of arrival; every other line went to the unsolicited handler, in order, and no command is
  pending any more. What the reader does after \<open>f\<close> plays no role.
\<close>

theorem at_send_command_multiline_ok:
  assumes "writeline c st = (0, st1)" and "sp_response st = None"
    and "\<not> s_readerClosed st" and "s_unsolHandler st" and "s_raw_data st1 = None"
    and "\<forall>l \<in> set ls. plain_line l" and "isFinalResponseSuccess f"
  shows "at_send_command_multiline False (Some c) (Some pre) True (map WLine ls @ WLine f # evs) st =
     Some (0, Some \<lparr>success = 1, finalResponse = Some f,
                     p_intermediates = filter (\<lambda>l. strStartsWith l pre) ls\<rparr>,
           st1\<lparr>s_type := MULTILINE, s_responsePrefix := None, s_smsPDU := None, sp_response := None,
               out := out st1
                 @ map (\<lambda>l. Unsolicited l None) (filter (\<lambda>l. \<not> strStartsWith l pre) ls)
                 @ (if s_atc_proxy st then [Unsolicited f None] else []) @ [CondSignal]\<rparr>)"
proof -
  note w = writeline_fields [OF assms(1)]
  let ?s0 = "st1\<lparr>s_type := MULTILINE, s_responsePrefix := Some pre, s_smsPDU := None,
                 sp_response := Some at_response_new\<rparr>"
  let ?out = "out st1 @ map (\<lambda>l. Unsolicited l None) (filter (\<lambda>l. \<not> strStartsWith l pre) ls)"
  let ?r = "at_response_new\<lparr>p_intermediates := rev (filter (\<lambda>l. strStartsWith l pre) ls)\<rparr>"
  let ?s1 = "?s0\<lparr>sp_response := Some ?r, out := ?out\<rparr>"
  have w0: "waiting_multi pre at_response_new ?s0"
    using assms w by (simp add: waiting_multi_def at_response_new_def)
  let ?s2 = "?s1\<lparr>sp_response := Some (?r\<lparr>success := 1, finalResponse := Some f\<rparr>),
                 out := ?out @ (if s_atc_proxy st then [Unsolicited f None] else []) @ [CondSignal]\<rparr>"
  have step: "processLine f ?s1 = Some ?s2"
    using assms w by (simp add: processLine_def handleFinalResponse_def handleUnsolicited_def emit_def)
  have "wait_loop (map WLine ls @ WLine f # evs) ?s0 = wait_loop (WLine f # evs) ?s1"
    using waiting_multi_lines [OF w0 assms(6)] by (simp add: at_response_new_def)
  also have "\<dots> = Some (True, ?s2)"
    using step assms(3) w
    by (simp add: cmd_done_def at_response_new_def wait_loop_done)
  finally have wl: "wait_loop (map WLine ls @ WLine f # evs) ?s0 = Some (True, ?s2)" .
  show ?thesis
    using assms(1,2,3) wl w
    by (simp add: at_send_command_multiline_def at_send_command_full_def at_send_command_full_nolock_def
        clearPendingCommand_def reverseIntermediates_def rev_loop_rev at_errors at_response_new_def)
qed

definition demo_state :: at_state where
  "demo_state = \<lparr>s_fd = 3, s_unsolHandler = True, s_atc_proxy = False, s_type = NO_RESULT,
     s_responsePrefix = None, s_smsPDU = None, s_raw_data = None, sp_response = None,
     s_onTimeout = False, s_onReaderClosed = True, s_readerClosed = False, wr = [Wrote 2], pl = [], out = []\<rparr>"

theorem at_send_command_multiline_ok_witness:
  "map_option (\<lambda>(e, r, s). (e, r))
     (at_send_command_multiline False (Some ''AT+CGDCONT?'') (Some ''+CGDCONT:'') True
       (map WLine [''+CGDCONT: 1'', ''RING'', ''+CGDCONT: 2''] @ WLine ''OK'' # []) demo_state)
   = Some (0, Some \<lparr>success = 1, finalResponse = Some ''OK'',
                    p_intermediates = [''+CGDCONT: 1'', ''+CGDCONT: 2'']\<rparr>)"
proof -
  obtain st1 where w: "writeline ''AT+CGDCONT?'' demo_state = (0, st1)" and "s_raw_data st1 = None"
    by (simp add: writeline_def do_write_def demo_state_def)
  moreover have "\<forall>l \<in> set [''+CGDCONT: 1'', ''RING'', ''+CGDCONT: 2'']. plain_line l"
    by (simp add: plain_line_def isFinalResponseSuccess_def isFinalResponseError_def
        s_finalResponsesSuccess_def s_finalResponsesError_def)
  moreover have "isFinalResponseSuccess ''OK''"
    by (simp add: isFinalResponseSuccess_def s_finalResponsesSuccess_def)
  ultimately have "at_send_command_multiline False (Some ''AT+CGDCONT?'') (Some ''+CGDCONT:'') True
       (map WLine [''+CGDCONT: 1'', ''RING'', ''+CGDCONT: 2''] @ WLine ''OK'' # []) demo_state
     = Some (0, Some \<lparr>success = 1, finalResponse = Some ''OK'',
                    p_intermediates = filter (\<lambda>l. strStartsWith l ''+CGDCONT:'')
                      [''+CGDCONT: 1'', ''RING'', ''+CGDCONT: 2'']\<rparr>,
           st1\<lparr>s_type := MULTILINE, s_responsePrefix := None, s_smsPDU := None, sp_response := None,
               out := out st1
                 @ map (\<lambda>l. Unsolicited l None) (filter (\<lambda>l. \<not> strStartsWith l ''+CGDCONT:'')
                     [''+CGDCONT: 1'', ''RING'', ''+CGDCONT: 2''])
                 @ (if s_atc_proxy demo_state then [Unsolicited ''OK'' None] else []) @ [CondSignal]\<rparr>)"
    by (intro at_send_command_multiline_ok) (simp_all add: demo_state_def)
  then show ?thesis by (simp only: option.map prod.case) simp
qed

lemma send_full_total:
  assumes "prefix_given ty pre" and "sp_response st = None"
  shows "\<exists>err resp st'.
     at_send_command_full_nolock command ty pre pdu want evs st = Some (err, resp, st')
     \<and> err \<in> {0, AT_ERROR_GENERIC, AT_ERROR_CHANNEL_CLOSED, AT_ERROR_TIMEOUT}
     \<and> sp_response st' = None \<and> s_responsePrefix st' = None \<and> s_smsPDU st' = None
     \<and> (case resp of None \<Rightarrow> err \<noteq> 0 \<or> \<not> want
        | Some r \<Rightarrow> want \<and> resp_ok ty pre r
                    \<and> (err = 0 \<longrightarrow> finalResponse r \<noteq> None))"
proof -
  obtain err1 st1 where w: "(case command of None \<Rightarrow> (0, st) | Some c \<Rightarrow> writeline c st) = (err1, st1)"
    by (metis prod.exhaust)
  have err1: "err1 \<in> {0, AT_ERROR_GENERIC, AT_ERROR_CHANNEL_CLOSED}"
    using w by (auto simp: writeline_def split: option.splits if_splits prod.splits)
  let ?s0 = "st1\<lparr>s_type := ty, s_responsePrefix := pre, s_smsPDU := pdu, sp_response := Some at_response_new\<rparr>"
  have "pending_inv ty pre ?s0"
    by (simp add: pending_inv_def resp_ok_def at_response_new_def)
  then obtain b st2 where wl: "wait_loop evs ?s0 = Some (b, st2)" and inv: "pending_inv ty pre st2"
    and dn: "cmd_done st2 = b"
    using pending_inv_wait [OF _ assms(1)] by blast
  from inv obtain r where r: "sp_response st2 = Some r" "resp_ok ty pre r"
    by (auto simp: pending_inv_def)
  show ?thesis
  proof (cases "err1 < 0")
    case True
    with w assms(2) err1 show ?thesis
      by (auto simp: at_send_command_full_nolock_def clearPendingCommand_def)
  next
    case False
    with w assms(2) wl r dn show ?thesis
      by (cases b; cases want)
        (auto simp: at_send_command_full_nolock_def clearPendingCommand_def reverseIntermediates_def
          rev_loop_rev Let_def cmd_done_def resp_ok_def at_errors)
  qed
qed

text \<open>
  C24. The channel never dereferences a null response or a null prefix: whatever the reader
  does while the command waits (lines in any order, closing of the channel, silence), a
  command of a type that needs a prefix and has one returns, with an error code of the
  source's list, and leaves no pending command. A response it hands out satisfies
  \<open>resp_ok\<close>: single-line and numeric commands have at most one intermediate line and
  every intermediate line has the requested shape.
\<close>

theorem at_send_command_full_total:
  assumes "prefix_given ty pre" and "sp_response st = None"
  shows "\<exists>err resp st'.
     at_send_command_full_nolock command ty pre pdu want evs st = Some (err, resp, st')
     \<and> err \<in> {0, AT_ERROR_GENERIC, AT_ERROR_CHANNEL_CLOSED, AT_ERROR_TIMEOUT}
     \<and> sp_response st' = None \<and> s_responsePrefix st' = None \<and> s_smsPDU st' = None
     \<and> (case resp of None \<Rightarrow> err \<noteq> 0 \<or> \<not> want
        | Some r \<Rightarrow> want \<and> resp_ok ty pre r
                    \<and> (err = 0 \<longrightarrow> finalResponse r \<noteq> None))"
  by (rule send_full_total [OF assms])

theorem at_send_command_full_total_witness:
  "\<exists>err resp st'.
     at_send_command_full_nolock (Some ''AT'') SINGLELINE (Some ''+CPIN:'') None True [WLine ''ERROR''] demo_state
       = Some (err, resp, st') \<and> sp_response st' = None"
  using at_send_command_full_total [of SINGLELINE "Some ''+CPIN:''" demo_state "Some ''AT''" None True "[WLine ''ERROR'']"]
  by (auto simp: prefix_given_def demo_state_def)

text \<open>
  A command issued while another one is pending. The second caller gets
  \<open>AT_ERROR_COMMAND_PENDING\<close>, as the header documents, but on this path the source also
  clears the pending command, which belongs to the first caller: when the first caller wakes
  up, it reads the final response of a null response (the state \<open>None\<close>).
\<close>

theorem at_pending_command_lost:
  assumes "sp_response st = Some r"
  shows "\<exists>st'. at_send_command_full_nolock command ty pre pdu want evs st
                = Some (AT_ERROR_COMMAND_PENDING, None, st')
               \<and> sp_response st' = None \<and> wait_loop evs' st' = None"
  using assms
  by (auto simp: at_send_command_full_nolock_def clearPendingCommand_def wait_loop.simps)

theorem at_pending_command_lost_witness:
  "\<exists>st'. at_send_command_full_nolock (Some ''AT'') NO_RESULT None None False []
            (demo_state\<lparr>sp_response := Some at_response_new\<rparr>)
          = Some (AT_ERROR_COMMAND_PENDING, None, st') \<and> wait_loop [WLine ''OK''] st' = None"
proof -
  have "sp_response (demo_state\<lparr>sp_response := Some at_response_new\<rparr>) = Some at_response_new"
    by simp
  from at_pending_command_lost [OF this, of "Some ''AT''" NO_RESULT None None False "[]" "[WLine ''OK'']"]
  show ?thesis by blast
qed

text \<open>
  The error code of a \<open>+CME ERROR:\<close> final response is read back exactly: for every
  integer code in the range of an \<open>int\<close>, \<open>at_get_cme_error\<close> of a failed response whose
  final line is \<open>+CME ERROR: <code>\<close> is the code, and it is 0 for a successful response.
\<close>

theorem at_get_cme_error_roundtrip:
  assumes "in_int32 code"
  shows "at_get_cme_error (Some \<lparr>success = 0,
            finalResponse = Some (''+CME ERROR: '' @ show_int code), p_intermediates = ls\<rparr>) = code"
proof -
  let ?f = "''+CME ERROR: '' @ show_int code"
  have start: "at_tok_start (Some ?f) = (0, Some ('' '' @ show_int code))"
    by simp
  have "nextTok (Some ('' '' @ show_int code)) = nextTok (Some (show_int code))"
    by (rule nextTok_skip_ws) (simp add: isspace_def)
  then obtain cur where tok: "nextTok (Some ('' '' @ show_int code)) = (Some (show_int code), cur)"
    using nextTok_field_last [OF field_ok_show_int, of code] by (metis field_text.simps(1) prod.collapse show_field.simps(1))
  have "at_tok_nextint (Some ('' '' @ show_int code)) = (0, cur, Some code)"
    using tok assms by (simp add: at_tok_nextint_def at_tok_nextint_base_def strtol_show_int to_int32_id in_int32_def)
  with start show ?thesis
    by (simp add: at_get_cme_error_def del: at_tok_start.simps)
qed

theorem at_get_cme_error_roundtrip_witness:
  "at_get_cme_error (Some \<lparr>success = 0, finalResponse = Some (''+CME ERROR: '' @ show_int 10),
      p_intermediates = []\<rparr>) = 10"
  by (rule at_get_cme_error_roundtrip) (simp add: in_int32_def)

end
