(* ===== verification/AtReader.thy ===== *)
theory AtReader
  imports AtChannel
begin

text \<open>
  The line reader of the AT channel, \<open>findNextEOL\<close> and \<open>readline\<close> of
  \<^verbatim>\<open>quectel_cm_5G/src/atchannel.c\<close>, at the level of the receive array
  \<open>s_ATBuffer\<close> (that is \<open>cm_recv_buf\<close>, \<open>MAX_AT_RESPONSE\<close> bytes): \<open>mem\<close> is the content
  of the array, \<open>MAX_AT_RESPONSE\<close> its length, pointers are indices. The stream of the
  modem is a list of chunks, one per \<open>read\<close> that the poll loop lets through; an empty
  chunk, or no chunk, is a \<open>read\<close> that returns 0 or an error. A write or read outside
  the array is a value of \<open>rd_error\<close>.
\<close>

section \<open>Model\<close>

datatype rd_error = Overflow nat | Overread

record rd_state =
  mem :: "char list"
  bcur :: nat

abbreviation NUL :: char where "NUL \<equiv> CHR 0x00"

definition is_nl :: "char \<Rightarrow> bool" where
  "is_nl c \<longleftrightarrow> c = CHR 0x0D \<or> c = CHR 0x0A"

definition at_idx :: "'a list \<Rightarrow> nat \<Rightarrow> 'a option" where
  "at_idx m i = (if i < length m then Some (m ! i) else None)"

definition findNextEOL :: "char list \<Rightarrow> nat \<Rightarrow> rd_error + nat option" where
  "findNextEOL m cur =
     (if at_idx m cur = Some (CHR ''>'') \<and> at_idx m (cur + 1) = Some (CHR '' '')
         \<and> at_idx m (cur + 2) = Some NUL
      then Inr (Some (cur + 2))
      else
        (let e = cur + length (takeWhile (\<lambda>c. c \<noteq> NUL \<and> \<not> is_nl c) (drop cur m))
         in case at_idx m e of
              None \<Rightarrow> Inl Overread
            | Some c \<Rightarrow> Inr (if c = NUL then None else Some e)))"

definition skip_newlines :: "char list \<Rightarrow> nat \<Rightarrow> nat" where
  "skip_newlines m cur = cur + length (takeWhile is_nl (drop cur m))"

text \<open>\<open>read(fd, p_read, ...)\<close> followed by \<open>p_read[count] = NUL\<close>.\<close>

definition fill :: "char list \<Rightarrow> nat \<Rightarrow> char list \<Rightarrow> rd_error + char list" where
  "fill m p d =
     (if p + length d < length m
      then Inr (take p m @ d @ NUL # drop (p + length d + 1) m)
      else Inl (Overflow (p + length d)))"

definition take_line :: "char list \<Rightarrow> nat \<Rightarrow> nat \<Rightarrow> string \<times> rd_state" where
  "take_line m cur e = (take (e - cur) (drop cur m), \<lparr>mem = m[e := NUL], bcur = e + 1\<rparr>)"

definition reset_full :: "char list \<Rightarrow> nat \<Rightarrow> nat \<Rightarrow> char list \<times> nat \<times> nat" where
  "reset_full m cur p = (if p = length m then (m[0 := NUL], 0, 0) else (m, cur, p))"

text \<open>
  The loop \<open>while (p_eol == NULL)\<close>: the line (\<open>None\<close> for the return value \<open>NULL\<close>),
  the reader state and the part of the stream that is not read yet.
\<close>

function readline_loop :: "char list \<Rightarrow> nat \<Rightarrow> nat \<Rightarrow> string list
    \<Rightarrow> rd_error + (cstr \<times> rd_state \<times> string list)" where
  "readline_loop m cur p [] =
     (case reset_full m cur p of (m1, cur1, p1) \<Rightarrow> Inr (None, \<lparr>mem = m1, bcur = cur1\<rparr>, []))"
| "readline_loop m cur p (c # cs) =
     (case reset_full m cur p of (m1, cur1, p1) \<Rightarrow>
        (let count = min (length c) (length m1 - p1) in
         if count = 0 then Inr (None, \<lparr>mem = m1, bcur = cur1\<rparr>, cs)
         else case fill m1 p1 (take count c) of
           Inl e \<Rightarrow> Inl e
         | Inr m2 \<Rightarrow>
             (let cur2 = skip_newlines m2 cur1;
                  cs' = (if drop count c = [] then cs else drop count c # cs)
              in case findNextEOL m2 cur2 of
                   Inl e \<Rightarrow> Inl e
                 | Inr None \<Rightarrow> readline_loop m2 cur2 (p1 + count) cs'
                 | Inr (Some e) \<Rightarrow> (case take_line m2 cur2 e of (l, st) \<Rightarrow> Inr (Some l, st, cs')))))"
  by pat_completeness auto
termination
  by (relation "measure (\<lambda>(m, cur, p, cs). length cs + length (concat cs))")
    (auto simp: min_def split: if_splits)

definition readline :: "rd_state \<Rightarrow> string list \<Rightarrow> rd_error + (cstr \<times> rd_state \<times> string list)" where
  "readline st cs =
     (case at_idx (mem st) (bcur st) of
        None \<Rightarrow> Inl Overread
      | Some c \<Rightarrow>
          if c = NUL then readline_loop ((mem st)[0 := NUL]) 0 0 cs
          else
            (let cur = skip_newlines (mem st) (bcur st) in
             case findNextEOL (mem st) cur of
               Inl e \<Rightarrow> Inl e
             | Inr (Some e) \<Rightarrow> (case take_line (mem st) cur e of (l, st') \<Rightarrow> Inr (Some l, st', cs))
             | Inr None \<Rightarrow>
                 (let len = length (takeWhile (\<lambda>c. c \<noteq> NUL) (drop cur (mem st)));
                      m1 = take (len + 1) (drop cur (mem st)) @ drop (len + 1) (mem st)
                  in readline_loop m1 0 len cs)))"

declare readline_loop.simps [simp del]

section \<open>The array holds the pending characters\<close>

text \<open>
  \<open>holds m cur s\<close>: the C string at index \<open>cur\<close> of the array is \<open>s\<close>, and its
  terminating NUL is inside the array.
\<close>

definition holds :: "char list \<Rightarrow> nat \<Rightarrow> string \<Rightarrow> bool" where
  "holds m cur s \<longleftrightarrow> (\<exists>t. drop cur m = s @ NUL # t) \<and> NUL \<notin> set s"

lemma not_nl_NUL [simp]: "\<not> is_nl NUL"
  by (simp add: is_nl_def)

lemma holds_length: "holds m cur s \<Longrightarrow> cur + length s < length m"
  by (auto simp: holds_def dest: arg_cong [where f = length])

lemma holds_zeroed: "0 < n \<Longrightarrow> holds (replicate n NUL) 0 []"
  by (cases n) (auto simp: holds_def)

lemma drop_eq_nth: "drop cur m = s @ x # t \<Longrightarrow> at_idx m (cur + length s) = Some x"
proof -
  assume d: "drop cur m = s @ x # t"
  then have l: "cur + length s < length m"
    by (auto dest: arg_cong [where f = length])
  have "m ! (cur + length s) = drop cur m ! length s"
    using l by simp
  with d l show ?thesis by (simp add: at_idx_def nth_append)
qed

lemma holds_drop: "holds m cur (a @ b) \<Longrightarrow> holds m (cur + length a) b"
proof -
  assume h: "holds m cur (a @ b)"
  have "drop (cur + length a) m = drop (length a) (drop cur m)"
    by (simp add: add.commute)
  moreover from h obtain t where "drop cur m = (a @ b) @ NUL # t" "NUL \<notin> set (a @ b)"
    by (auto simp: holds_def)
  ultimately have "drop (cur + length a) m = b @ NUL # t" "NUL \<notin> set b"
    by (simp_all del: drop_drop)
  then show ?thesis by (auto simp: holds_def)
qed

lemma holds_skip:
  assumes "holds m cur s"
  shows "holds m (skip_newlines m cur) (dropWhile is_nl s)
    \<and> skip_newlines m cur = cur + length (takeWhile is_nl s)"
proof -
  from assms obtain t where d: "drop cur m = s @ NUL # t" by (auto simp: holds_def)
  have "takeWhile is_nl (s @ NUL # t) = takeWhile is_nl s"
    by (induction s) auto
  then have sk: "skip_newlines m cur = cur + length (takeWhile is_nl s)"
    by (simp add: skip_newlines_def d)
  moreover have "holds m (cur + length (takeWhile is_nl s)) (dropWhile is_nl s)"
    using holds_drop [of m cur "takeWhile is_nl s" "dropWhile is_nl s"] assms by simp
  ultimately show ?thesis by simp
qed

text \<open>\<open>findNextEOL\<close> on an array that holds \<open>s\<close>.\<close>

lemma findNextEOL_holds:
  assumes "holds m cur s" and "s \<noteq> ''> ''"
  shows "findNextEOL m cur =
     Inr (if \<exists>c \<in> set s. is_nl c then Some (cur + length (takeWhile (\<lambda>c. \<not> is_nl c) s)) else None)"
proof -
  from assms(1) obtain t where d: "drop cur m = s @ NUL # t" and n: "NUL \<notin> set s"
    by (auto simp: holds_def)
  have noprompt: "\<not> (at_idx m cur = Some (CHR ''>'') \<and> at_idx m (cur + 1) = Some (CHR '' '')
      \<and> at_idx m (cur + 2) = Some NUL)"
  proof
    assume p: "at_idx m cur = Some (CHR ''>'') \<and> at_idx m (cur + 1) = Some (CHR '' '')
      \<and> at_idx m (cur + 2) = Some NUL"
    then have l: "cur + 2 < length m" by (auto simp: at_idx_def split: if_splits)
    have a: "drop cur m = m ! cur # m ! (cur + 1) # m ! (cur + 2) # drop (cur + 3) m"
      using l by (simp add: Cons_nth_drop_Suc numeral_eq_Suc)
    have "s @ NUL # t = CHR ''>'' # CHR '' '' # NUL # drop (cur + 3) m"
      using p l a d by (simp add: at_idx_def)
    then have "s = ''> ''"
      using n by (cases s; cases "tl s"; cases "tl (tl s)") auto
    with assms(2) show False by simp
  qed
  have tw: "takeWhile (\<lambda>c. c \<noteq> NUL \<and> \<not> is_nl c) (s @ NUL # t) = takeWhile (\<lambda>c. \<not> is_nl c) s"
    using n by (induction s) auto
  let ?k = "length (takeWhile (\<lambda>c. \<not> is_nl c) s)"
  have at: "at_idx m (cur + ?k) = Some (if \<exists>c \<in> set s. is_nl c then hd (dropWhile (\<lambda>c. \<not> is_nl c) s) else NUL)"
  proof (cases "\<exists>c \<in> set s. is_nl c")
    case True
    then obtain x r where x: "dropWhile (\<lambda>c. \<not> is_nl c) s = x # r"
      by (cases "dropWhile (\<lambda>c. \<not> is_nl c) s") auto
    have "drop cur m = takeWhile (\<lambda>c. \<not> is_nl c) s @ x # (r @ NUL # t)"
      using d x takeWhile_dropWhile_id [of "\<lambda>c. \<not> is_nl c" s] by (metis append.assoc append_Cons)
    from drop_eq_nth [OF this] True x show ?thesis by simp
  next
    case False
    then have all: "takeWhile (\<lambda>c. \<not> is_nl c) s = s" by (simp add: takeWhile_eq_all_conv)
    from drop_eq_nth [OF d] False show ?thesis by (simp add: all)
  qed
  have "hd (dropWhile (\<lambda>c. \<not> is_nl c) s) \<noteq> NUL" if "\<exists>c \<in> set s. is_nl c"
    using that hd_dropWhile [of "\<lambda>c. \<not> is_nl c" s] by auto
  with at tw d show ?thesis
    unfolding findNextEOL_def if_not_P [OF noprompt] by (simp add: Let_def)
qed


lemma fill_holds:
  assumes "holds m cur s" and "p = cur + length s" and "p + length d < length m" and "NUL \<notin> set d"
  shows "\<exists>m'. fill m p d = Inr m' \<and> holds m' cur (s @ d) \<and> length m' = length m"
proof -
  let ?m' = "take p m @ d @ NUL # drop (p + length d + 1) m"
  from assms(1) obtain t where d: "drop cur m = s @ NUL # t" and n: "NUL \<notin> set s"
    by (auto simp: holds_def)
  have p: "cur \<le> p" "p < length m" using assms(2,3) by auto
  have "drop cur (take p m) = take (p - cur) (drop cur m)" by (simp add: drop_take)
  also have "\<dots> = s" using d assms(2) by simp
  finally have "drop cur ?m' = s @ d @ NUL # drop (p + length d + 1) m"
    using p by simp
  then have "holds ?m' cur (s @ d)" using n assms(4) by (auto simp: holds_def)
  moreover have "length ?m' = length m" using assms(3) by simp
  ultimately show ?thesis using assms(3) by (simp add: fill_def)
qed

lemma take_line_holds:
  assumes "holds m cur (l @ x # r)"
  shows "\<exists>st. take_line m cur (cur + length l) = (l, st) \<and> holds (mem st) (bcur st) r
     \<and> length (mem st) = length m"
proof -
  from assms obtain t where d: "drop cur m = l @ x # r @ NUL # t"
    by (auto simp: holds_def)
  have "drop (cur + length l + 1) m = drop (length l + 1) (drop cur m)"
    by (simp add: add.commute add.left_commute)
  then have "drop (cur + length l + 1) (m[cur + length l := NUL]) = r @ NUL # t"
    using d by simp
  with d assms show ?thesis
    by (auto simp: take_line_def holds_def)
qed

text \<open>Cutting a stream at its first line.\<close>

lemma cut_unique:
  assumes "dropWhile is_nl a @ b = l @ x # r" and "\<forall>c \<in> set l. \<not> is_nl c" and "is_nl x"
    and "\<exists>c \<in> set (dropWhile is_nl a). is_nl c"
  shows "\<exists>r'. dropWhile is_nl a = l @ x # r' \<and> r' @ b = r"
proof -
  let ?s = "dropWhile is_nl a"
  have "length l < length ?s"
  proof (rule ccontr)
    assume "\<not> length l < length ?s"
    then have "?s = take (length ?s) l"
      using assms(1) by (metis append_eq_append_conv_if append_eq_conv_conj linorder_not_le nat_less_le)
    then show False using assms(2,4) by (metis in_set_takeD)
  qed
  then show ?thesis using assms(1)
    by (auto simp: append_eq_append_conv2 append_eq_Cons_conv)
qed

lemma skip_cut:
  assumes "a @ b = nls @ z # r" and "\<forall>c \<in> set nls. is_nl c" and "\<not> is_nl z"
  shows "\<exists>nls'. dropWhile is_nl a @ b = nls' @ z # r \<and> (dropWhile is_nl a \<noteq> [] \<longrightarrow> nls' = [])
     \<and> length (takeWhile is_nl a) + length nls' = length nls \<and> set nls' \<subseteq> set nls"
  using assms
proof (induction nls arbitrary: a)
  case Nil
  then show ?case by (cases a) auto
next
  case (Cons n nls)
  show ?case
  proof (cases a)
    case Nil
    with Cons.prems show ?thesis by auto
  next
    case (Cons y a')
    with Cons.IH [of a'] Cons.prems show ?thesis by auto
  qed
qed

lemma findNextEOL_partial:
  assumes "holds m cur u" and "\<forall>c \<in> set u. \<not> is_nl c"
    and "u @ b = nls' @ l @ x # r" and "u \<noteq> [] \<longrightarrow> nls' = []"
    and "l \<noteq> []" and "is_nl x" and "\<not> prefix ''> '' l"
  shows "findNextEOL m cur = Inr None"
proof -
  have "u \<noteq> ''> ''"
  proof
    assume "u = ''> ''"
    with assms(3,4) have "CHR ''>'' # CHR '' '' # b = l @ x # r" by simp
    then show False
      using assms(5,6,7) by (cases l; cases "tl l") (auto simp: is_nl_def)
  qed
  from findNextEOL_holds [OF assms(1) this] show ?thesis
    using assms(2) by simp
qed

lemma readline_loop_line:
  assumes "holds m cur s" and "p = cur + length s" and "\<forall>c \<in> set s. \<not> is_nl c"
    and "s @ concat cs = nls @ l @ x # r" and "s \<noteq> [] \<longrightarrow> nls = []"
    and "\<forall>c \<in> set nls. is_nl c" and "l \<noteq> []" and "\<forall>c \<in> set l. \<not> is_nl c" and "is_nl x"
    and "\<not> prefix ''> '' l" and "\<forall>c \<in> set cs. c \<noteq> [] \<and> NUL \<notin> set c"
    and "\<forall>c \<in> set cs. cur + length nls + length l + length c < length m"
  shows "\<exists>st s' cs'. readline_loop m cur p cs = Inr (Some l, st, cs') \<and> holds (mem st) (bcur st) s'
     \<and> s' @ concat cs' = r \<and> length (mem st) = length m \<and> set cs' \<subseteq> set cs"
  using assms
proof (induction cs arbitrary: m cur p s nls)
  case Nil
  then have "s = nls @ l @ x # r" by simp
  with Nil.prems(3,9) have False by simp
  then show ?case ..
next
  case (Cons c cs)
  have c: "c \<noteq> []" "NUL \<notin> set c" using Cons.prems(11) by auto
  have ls: "length s \<le> length l"
  proof (rule ccontr)
    assume n: "\<not> length s \<le> length l"
    then have "s = l @ x # drop (Suc (length l)) s"
      using Cons.prems(4,5) by (cases "s = []") (auto simp: append_eq_append_conv2 append_eq_Cons_conv)
    then show False using Cons.prems(3,9) by (metis in_set_conv_decomp)
  qed
  have room: "p + length c < length m"
    using Cons.prems(2,12) ls by auto
  then have rs: "reset_full m cur p = (m, cur, p)" by (simp add: reset_full_def)
  have cnt: "min (length c) (length m - p) = length c" using room by simp
  obtain m2 where m2: "fill m p c = Inr m2" "holds m2 cur (s @ c)" "length m2 = length m"
    using fill_holds [OF Cons.prems(1,2) room c(2)] by blast
  let ?u = "dropWhile is_nl (s @ c)" and ?cur = "skip_newlines m2 cur"
  have u: "holds m2 ?cur ?u" and cur: "?cur = cur + length (takeWhile is_nl (s @ c))"
    using holds_skip [OF m2(2)] by auto
  have "\<exists>nls'. ?u @ concat cs = nls' @ l @ x # r \<and> (?u \<noteq> [] \<longrightarrow> nls' = [])
      \<and> length (takeWhile is_nl (s @ c)) + length nls' = length nls \<and> set nls' \<subseteq> set nls"
  proof (cases "s = []")
    case True
    obtain z l' where l: "l = z # l'" "\<not> is_nl z" using Cons.prems(7,8) by (cases l) auto
    have "c @ concat cs = nls @ z # (l' @ x # r)" using Cons.prems(4) True l by simp
    from skip_cut [OF this Cons.prems(6) l(2)] show ?thesis using True l by simp
  next
    case False
    then have "\<not> is_nl (hd (s @ c))" using Cons.prems(3) by simp
    then have "takeWhile is_nl (s @ c) = []" "?u = s @ c"
      using False by (cases s; simp)+
    with Cons.prems(4,5) False show ?thesis by simp
  qed
  then obtain nls' where n1: "?u @ concat cs = nls' @ l @ x # r" and n2: "?u \<noteq> [] \<longrightarrow> nls' = []"
    and n3: "length (takeWhile is_nl (s @ c)) + length nls' = length nls" and n4: "set nls' \<subseteq> set nls"
    by blast
  show ?case
  proof (cases "\<exists>y \<in> set ?u. is_nl y")
    case True
    then have "?u \<noteq> []" by (metis empty_iff list.set(1))
    with n2 have nls': "nls' = []" by blast
    from cut_unique [OF _ Cons.prems(8,9) True, of "concat cs" r] n1
    obtain r' where r': "?u = l @ x # r'" "r' @ concat cs = r" by (auto simp: nls')
    have ne: "?u \<noteq> ''> ''" using True by (auto simp: is_nl_def)
    have tw: "takeWhile (\<lambda>c. \<not> is_nl c) ?u = l"
      unfolding r'(1) using Cons.prems(8,9) by (simp add: takeWhile_append2)
    from findNextEOL_holds [OF u ne] have fe: "findNextEOL m2 ?cur = Inr (Some (?cur + length l))"
      unfolding if_P [OF True] tw .
    show ?thesis
      using take_line_holds [of m2 ?cur l x r'] u r' rs cnt c m2 fe
      by (auto simp: readline_loop.simps)
  next
    case False
    have fe: "findNextEOL m2 ?cur = Inr None"
      by (rule findNextEOL_partial [OF u _ n1 n2 Cons.prems(7,9,10)]) (use False in blast)
    have "readline_loop m cur p (c # cs) = readline_loop m2 ?cur (p + length c) cs"
      using rs cnt c m2 fe by (simp add: readline_loop.simps)
    moreover have "\<exists>st s' cs'. readline_loop m2 ?cur (p + length c) cs = Inr (Some l, st, cs')
        \<and> holds (mem st) (bcur st) s' \<and> s' @ concat cs' = r \<and> length (mem st) = length m2 \<and> set cs' \<subseteq> set cs"
    proof (rule Cons.IH [OF u _ _ n1 n2])
      have "length (takeWhile is_nl (s @ c)) + length ?u = length (s @ c)"
        by (metis length_append takeWhile_dropWhile_id)
      then show "p + length c = ?cur + length ?u"
        unfolding cur Cons.prems(2) by simp
      show "\<forall>y \<in> set ?u. \<not> is_nl y" using False by blast
      show "\<forall>y \<in> set nls'. is_nl y" using n4 Cons.prems(6) by blast
      show "\<forall>d \<in> set cs. d \<noteq> [] \<and> NUL \<notin> set d" using Cons.prems(11) by simp
      have "?cur + length nls' = cur + length nls" unfolding cur using n3 by simp
      then show "\<forall>d \<in> set cs. ?cur + length nls' + length l + length d < length m2"
        using Cons.prems(12) m2(3) by simp
    qed (rule Cons.prems)+
    ultimately show ?thesis using m2(3) by auto
  qed
qed


lemma readline_line:
  assumes "holds (mem st) (bcur st) s" and "s @ concat cs = nls @ l @ x # r"
    and "\<forall>c \<in> set nls. is_nl c" and "l \<noteq> []" and "\<forall>c \<in> set l. \<not> is_nl c" and "is_nl x"
    and "\<not> prefix ''> '' l" and "\<forall>c \<in> set cs. c \<noteq> [] \<and> NUL \<notin> set c"
    and "\<forall>c \<in> set cs. length nls + length l + length c < length (mem st)"
  shows "\<exists>st' s' cs'. readline st cs = Inr (Some l, st', cs') \<and> holds (mem st') (bcur st') s'
     \<and> s' @ concat cs' = r \<and> length (mem st') = length (mem st) \<and> set cs' \<subseteq> set cs"
proof -
  let ?m = "mem st"
  from assms(1) obtain t where d: "drop (bcur st) ?m = s @ NUL # t" and n: "NUL \<notin> set s"
    by (auto simp: holds_def)
  have nonempty: "0 < length ?m" using holds_length [OF assms(1)] by linarith
  show ?thesis
  proof (cases "s = []")
    case True
    have "at_idx ?m (bcur st) = Some NUL"
      using drop_eq_nth [of "bcur st" ?m "[]" NUL t] d True by simp
    then have "readline st cs = readline_loop (?m[0 := NUL]) 0 0 cs"
      by (simp add: readline_def)
    moreover have "holds (?m[0 := NUL]) 0 []"
      using nonempty by (cases ?m) (auto simp: holds_def)
    ultimately show ?thesis
      using readline_loop_line [of "?m[0 := NUL]" 0 "[]" 0 cs nls l x r] assms True by simp
  next
    case False
    then obtain a s' where as: "s = a # s'" by (cases s) auto
    have a: "at_idx ?m (bcur st) = Some a" "a \<noteq> NUL"
      using drop_eq_nth [of "bcur st" ?m "[]" a "s' @ NUL # t"] d n as by auto
    let ?u = "dropWhile is_nl s" and ?cur = "skip_newlines ?m (bcur st)"
    have u: "holds ?m ?cur ?u" using holds_skip [OF assms(1)] by blast
    obtain z l' where l: "l = z # l'" "\<not> is_nl z" using assms(4,5) by (cases l) auto
    then have "s @ concat cs = nls @ z # (l' @ x # r)" using assms(2) by simp
    from skip_cut [OF this assms(3) l(2)] l obtain nls' where
      n1: "?u @ concat cs = nls' @ l @ x # r" and n2: "?u \<noteq> [] \<longrightarrow> nls' = []"
      and n3: "length nls' \<le> length nls" and n4: "set nls' \<subseteq> set nls" by auto
    show ?thesis
    proof (cases "\<exists>y \<in> set ?u. is_nl y")
      case True
      then have "?u \<noteq> []" by (metis empty_iff list.set(1))
      with n2 have nls': "nls' = []" by blast
      from cut_unique [OF _ assms(5,6) True, of "concat cs" r] n1
      obtain r' where r': "?u = l @ x # r'" "r' @ concat cs = r" by (auto simp: nls')
      have ne: "?u \<noteq> ''> ''" using True by (auto simp: is_nl_def)
      have tw: "takeWhile (\<lambda>c. \<not> is_nl c) ?u = l"
        unfolding r'(1) using assms(5,6) by (simp add: takeWhile_append2)
      from findNextEOL_holds [OF u ne] have "findNextEOL ?m ?cur = Inr (Some (?cur + length l))"
        unfolding if_P [OF True] tw .
      then show ?thesis
        using take_line_holds [of ?m ?cur l x r'] u r' a by (auto simp: readline_def)
    next
      case False
      let ?m1 = "take (length ?u + 1) (drop ?cur ?m) @ drop (length ?u + 1) ?m"
      obtain t' where t': "drop ?cur ?m = ?u @ NUL # t'" "NUL \<notin> set ?u"
        using u by (auto simp: holds_def)
      have fe: "findNextEOL ?m ?cur = Inr None"
        by (rule findNextEOL_partial [OF u _ n1 n2 assms(4,6,7)]) (use False in blast)
      have "takeWhile (\<lambda>c. c \<noteq> NUL) (drop ?cur ?m) = ?u"
        unfolding t'(1) using t'(2) by (simp add: sep_simps)
      with fe a have eq: "readline st cs = readline_loop ?m1 0 (length ?u) cs"
        by (simp add: readline_def Let_def)
      have h: "holds ?m1 0 ?u"
        unfolding t'(1) using t'(2) by (simp add: holds_def)
      have len: "length ?m1 = length ?m"
        using holds_length [OF u] by simp
      have nn: "\<forall>y \<in> set ?u. \<not> is_nl y" "\<forall>y \<in> set nls'. is_nl y"
        using False n4 assms(3) by blast+
      have room: "\<forall>c \<in> set cs. 0 + length nls' + length l + length c < length ?m1"
        unfolding len using assms(9) n3 by fastforce
      show ?thesis
        unfolding eq len [symmetric]
        by (rule readline_loop_line [OF h _ nn(1) n1 n2 nn(2) assms(4-8) room]) simp
    qed
  qed
qed


section \<open>Properties\<close>

text \<open>A reader that takes \<open>n\<close> lines.\<close>

primrec readlines :: "nat \<Rightarrow> rd_state \<Rightarrow> string list \<Rightarrow> rd_error + (cstr list \<times> rd_state \<times> string list)" where
  "readlines 0 st cs = Inr ([], st, cs)"
| "readlines (Suc n) st cs =
     (case readline st cs of
        Inl e \<Rightarrow> Inl e
      | Inr (l, st', cs') \<Rightarrow>
          (case readlines n st' cs' of
             Inl e \<Rightarrow> Inl e
           | Inr (ls, st'', cs'') \<Rightarrow> Inr (l # ls, st'', cs'')))"

definition crlf :: string where
  "crlf = [CHR 0x0D, CHR 0x0A]"

definition at_line_ok :: "string \<Rightarrow> bool" where
  "at_line_ok l \<longleftrightarrow> l \<noteq> [] \<and> (\<forall>c \<in> set l. \<not> is_nl c) \<and> \<not> prefix ''> '' l"

lemma readlines_stream:
  assumes "holds (mem st) (bcur st) s" and "s @ concat cs = nls @ concat (map (\<lambda>l. l @ crlf) ls)"
    and "nls = [] \<or> nls = [CHR 0x0A]" and "\<forall>l \<in> set ls. at_line_ok l"
    and "\<forall>c \<in> set cs. c \<noteq> [] \<and> NUL \<notin> set c"
    and "\<forall>c \<in> set cs. \<forall>l \<in> set ls. 1 + length l + length c < length (mem st)"
  shows "\<exists>st' cs'. readlines (length ls) st cs = Inr (map Some ls, st', cs')"
  using assms
proof (induction ls arbitrary: st s cs nls)
  case (Cons l ls)
  let ?r = "CHR 0x0A # concat (map (\<lambda>l. l @ crlf) ls)"
  have l: "at_line_ok l" using Cons.prems(4) by simp
  have nl: "is_nl (CHR 0x0D)" "\<forall>c \<in> set nls. is_nl c" and len: "length nls \<le> 1"
    using Cons.prems(3) by (auto simp: is_nl_def)
  have "s @ concat cs = nls @ l @ CHR 0x0D # ?r"
    using Cons.prems(2) by (simp add: crlf_def)
  moreover have "\<forall>c \<in> set cs. length nls + length l + length c < length (mem st)"
    using Cons.prems(6) len by fastforce
  ultimately obtain st' s' cs' where rl: "readline st cs = Inr (Some l, st', cs')"
    and h: "holds (mem st') (bcur st') s'" "s' @ concat cs' = ?r"
    and m: "length (mem st') = length (mem st)" "set cs' \<subseteq> set cs"
    using readline_line [OF Cons.prems(1), of cs nls l "CHR 0x0D" ?r] l nl Cons.prems(5)
    unfolding at_line_ok_def by blast
  have "\<exists>st'' cs''. readlines (length ls) st' cs' = Inr (map Some ls, st'', cs'')"
    by (rule Cons.IH [OF h(1), of cs' "[CHR 0x0A]"]) (use h(2) m Cons.prems(4-6) in auto)
  then show ?case using rl by auto
qed simp

text \<open>
  C9. The line reader does not depend on how the modem's bytes arrive. Whatever the chunks
  \<open>cs\<close> in which \<open>read\<close> delivers the lines \<open>ls\<close>, each followed by CR LF, a reader that
  starts with an empty buffer returns exactly these lines, in order, and never writes or
  reads outside the receive array, provided a line together with one chunk leaves room in
  the array. Lines are non-empty, without NUL or newline, and do not begin with the SMS
  prompt.
\<close>

theorem readlines_any_chunking:
  assumes "concat cs = concat (map (\<lambda>l. l @ crlf) ls)" and "\<forall>l \<in> set ls. at_line_ok l"
    and "\<forall>c \<in> set cs. c \<noteq> [] \<and> NUL \<notin> set c"
    and "\<forall>c \<in> set cs. \<forall>l \<in> set ls. 1 + length l + length c < max_at" and "0 < max_at"
  shows "\<exists>st' cs'. readlines (length ls) \<lparr>mem = replicate max_at NUL, bcur = 0\<rparr> cs
            = Inr (map Some ls, st', cs')"
proof -
  show ?thesis
    using readlines_stream [of "\<lparr>mem = replicate max_at NUL, bcur = 0\<rparr>" "[]" cs "[]" ls] assms
    by (simp add: holds_zeroed)
qed

theorem readlines_any_chunking_witness:
  "\<exists>st' cs'. readlines 2 \<lparr>mem = replicate 4096 NUL, bcur = 0\<rparr>
       [''+CS'', ''Q: 20,99'' @ [CHR 0x0D], [CHR 0x0A, CHR ''O''], ''K'' @ crlf]
     = Inr ([Some ''+CSQ: 20,99'', Some ''OK''], st', cs')"
  using readlines_any_chunking [of "[''+CS'', ''Q: 20,99'' @ [CHR 0x0D], [CHR 0x0A, CHR ''O''], ''K'' @ crlf]"
      "[''+CSQ: 20,99'', ''OK'']" 4096]
  by (simp add: crlf_def at_line_ok_def is_nl_def numeral_2_eq_2)

text \<open>
  The receive array is one byte too short. \<open>readline\<close> lets \<open>read\<close> fill the array to its
  last byte (\<open>MAX_AT_RESPONSE\<close> is the size of the array) and then stores a NUL behind the
  bytes read: whenever the buffer is empty and the modem delivers at least as many bytes as the
  array has, the NUL goes to the index one past the end.
\<close>

theorem readline_overflow:
  assumes "holds (mem st) (bcur st) []" and "length (mem st) \<le> length c"
  shows "readline st (c # cs) = Inl (Overflow (length (mem st)))"
proof -
  from assms(1) obtain t where d: "drop (bcur st) (mem st) = [] @ NUL # t"
    by (auto simp: holds_def)
  then have "at_idx (mem st) (bcur st) = Some NUL"
    using drop_eq_nth [of "bcur st" "mem st" "[]" NUL t] by simp
  moreover have "0 < length (mem st)" using holds_length [OF assms(1)] by linarith
  ultimately show ?thesis
    using assms(2) by (simp add: readline_def readline_loop.simps reset_full_def fill_def min_def)
qed

theorem readline_overflow_witness:
  "readline \<lparr>mem = replicate 4096 NUL, bcur = 0\<rparr> [replicate 4096 (CHR ''A'')] = Inl (Overflow 4096)"
  using readline_overflow [of "\<lparr>mem = replicate 4096 NUL, bcur = 0\<rparr>" "replicate 4096 (CHR ''A'')" "[]"]
  by (simp add: holds_zeroed)

text \<open>
  The SMS prompt leaves the cursor behind the terminating NUL, contrary to the comment
  at the end of \<open>readline\<close> (``this will always be <= p\_read''). The bytes there are left over
  from earlier responses and are taken for new input: after the response \<open>+CREG: 1\<close>, the
  prompt, and the final response \<open>OK\<close>, the third line the reader returns is \<open>EG: 1OK\<close>,
  which is not a final response.
\<close>

theorem readline_prompt_stale:
  "(case readlines 3 \<lparr>mem = replicate 16 NUL, bcur = 0\<rparr> [''+CREG: 1'' @ crlf, ''> '', ''OK'' @ crlf] of
      Inr (ls, st, cs) \<Rightarrow> ls = [Some ''+CREG: 1'', Some ''> '', Some ''EG: 1OK'']
    | Inl e \<Rightarrow> False)
   \<and> \<not> isFinalResponseSuccess ''EG: 1OK'' \<and> \<not> isFinalResponseError ''EG: 1OK''"
  by (simp add: numeral_eq_Suc readline_def readline_loop.simps reset_full_def fill_def findNextEOL_def
      skip_newlines_def at_idx_def take_line_def crlf_def is_nl_def Let_def
      isFinalResponseSuccess_def isFinalResponseError_def s_finalResponsesSuccess_def s_finalResponsesError_def)

end
