(* ===== verification/QmiMsg.thy ===== *)
theory QmiMsg
  imports Prelude "HOL-Library.Monad_Syntax"
begin

text \<open>
  QMI messages of the connection manager (\<open>quectel_cm_5G/src/QMIThread.c\<close>,
  \<open>QmiWwanCM.c\<close>, \<open>MPQMI.h\<close>, \<open>MPQMUX.h\<close>): the type-length-value parts of a message, the
  lookup of a part in a received message, the bodies of the requests and their composition.
  A received message is a byte list of exactly the allocated size; a read outside of it is
  the value \<open>None\<close>.
\<close>

section \<open>Reading a message\<close>

definition rd8 :: "byte list \<Rightarrow> nat \<Rightarrow> byte option" where
  "rd8 m i = (if i < length m then Some (m ! i) else None)"

definition rd16 :: "byte list \<Rightarrow> nat \<Rightarrow> u16 option" where
  "rd16 m i = do { a \<leftarrow> rd8 m i; b \<leftarrow> rd8 m (i + 1); Some (le16_of a b) }"

definition rd32 :: "byte list \<Rightarrow> nat \<Rightarrow> u32 option" where
  "rd32 m i = do { a \<leftarrow> rd8 m i; b \<leftarrow> rd8 m (i + 1); c \<leftarrow> rd8 m (i + 2); d \<leftarrow> rd8 m (i + 3); Some (le32_of a b c d) }"

definition rdn :: "byte list \<Rightarrow> nat \<Rightarrow> nat \<Rightarrow> byte list option" where
  "rdn m i n = (if i + n \<le> length m then Some (take n (drop i m)) else None)"

text \<open>
  \<open>GetTLV\<close>: the part of a type, or the part of a number when the type is above 0x1000. The
  result is the offset of the part, NULL, or \<open>None\<close> when the search leaves the message. The
  remaining length is a 16-bit value and wraps around.
\<close>

function GetTLV_loop :: "byte list \<Rightarrow> nat \<Rightarrow> nat \<Rightarrow> u16 \<Rightarrow> nat \<Rightarrow> nat option option" where
  "GetTLV_loop m ty n Length p =
     (if unat Length < 3 then Some None
      else if 0x1000 < ty \<and> Suc n + 0x1000 = ty then Some (Some p)
      else do {
        t \<leftarrow> (if 0x1000 < ty then Some 0 else rd8 m p);
        if \<not> 0x1000 < ty \<and> unat t = ty then Some (Some p)
        else do {
          l \<leftarrow> rd16 m (p + 1);
          GetTLV_loop m ty (Suc n) (Length - (l + 3)) (p + unat l + 3)
        }
      })"
  by auto

termination
  by (relation "measure (\<lambda>(m, ty, n, l, p). length m - p)")
    (auto simp: rd16_def rd8_def bind_eq_Some_conv split: if_splits)

declare GetTLV_loop.simps [simp del]

definition GetTLV :: "byte list \<Rightarrow> nat \<Rightarrow> nat option option" where
  "GetTLV m ty = do { l \<leftarrow> rd16 m 11; GetTLV_loop m ty 0 l 13 }"

section \<open>Parts of a request\<close>

type_synonym tlv = "byte \<times> byte list"

definition tlv_bytes :: "tlv \<Rightarrow> byte list" where
  "tlv_bytes x = fst x # le16_bytes (of_nat (length (snd x))) @ snd x"

definition tlvs_bytes :: "tlv list \<Rightarrow> byte list" where
  "tlvs_bytes xs = concat (map tlv_bytes xs)"

definition cbytes :: "string \<Rightarrow> byte list" where
  "cbytes s = map of_char s"

text \<open>
  The user's connection profile and the settings of the QMAP data format. Fields of
  \<open>PROFILE_T\<close> that no modelled function uses are left out.
\<close>

record IPV4_T =
  v4_Address :: u32
  v4_Gateway :: u32
  v4_SubnetMask :: u32
  v4_DnsPrimary :: u32
  v4_DnsSecondary :: u32
  v4_Mtu :: u32

record IPV6_T =
  v6_Address :: "byte list"
  v6_Gateway :: "byte list"
  v6_DnsPrimary :: "byte list"
  v6_DnsSecondary :: "byte list"
  v6_PrefixLengthIPAddr :: byte
  v6_PrefixLengthGateway :: byte
  v6_Mtu :: u32

record RMNET_INFO =
  ri_size :: u32
  ri_rx_urb_size :: u32
  ri_ep_type :: u32
  ri_iface_id :: u32
  ri_qmap_version :: u32
  ri_dl_minimum_padding :: u32

record PROFILE_T =
  apn :: cstr
  user :: cstr
  password :: cstr
  auth :: int
  iptype :: int
  pdp :: int
  enable_ipv4 :: bool
  enable_ipv6 :: bool
  curIpFamily :: int
  qmap_mode :: int
  qmap_size :: u32
  p_qmap_version :: int
  rawIP :: bool
  muxid :: u32
  wda_client :: int
  hardware_pcie :: bool            \<comment> \<open>\<open>hardware_interface == HARDWARE_PCIE\<close>\<close>
  pincode :: cstr
  proxy :: string
  qmichannel :: string
  qmapnet_adapter :: string
  loopback_state :: byte
  replication_factor :: u32
  BaseBandVersion :: string
  ipv4 :: IPV4_T
  ipv6 :: IPV6_T
  PCSCFIpv4Addr1 :: u32
  PCSCFIpv4Addr2 :: u32
  PCSCFIpv6Addr1 :: "byte list"
  PCSCFIpv6Addr2 :: "byte list"
  old_apn :: string
  old_user :: string
  old_password :: string
  old_auth :: int
  old_iptype :: int
  rmnet_info :: RMNET_INFO

record QMAP_SETTING =
  qs_rx_urb_size :: u32
  qs_ep_type :: u32
  qs_iface_id :: u32
  qs_MuxId :: u32
  qs_ul_max_datagrams :: u32
  qs_ul_max_size :: u32
  qs_dl_minimum_padding :: u32

definition DATA_EP_TYPE_HSUSB :: u32 where "DATA_EP_TYPE_HSUSB = 2"
definition DATA_EP_TYPE_PCIE :: u32 where "DATA_EP_TYPE_PCIE = 3"
definition IpFamilyV4 :: int where "IpFamilyV4 = 4"
definition IpFamilyV6 :: int where "IpFamilyV6 = 6"

text \<open>
  The request bodies. A body is a list of parts; the number with it counts the bytes the
  builder stores behind its last part (the NUL of \<open>qstrcpy\<close>).
\<close>

type_synonym body = "tlv list \<times> nat"

definition str_tlv :: "byte \<Rightarrow> cstr \<Rightarrow> tlv list" where
  "str_tlv t s = (case s of None \<Rightarrow> [] | Some x \<Rightarrow> [(t, cbytes x)])"

definition empty_cstr :: "cstr \<Rightarrow> bool" where
  "empty_cstr s \<longleftrightarrow> s = None \<or> s = Some []"

definition start_cred :: "bool \<Rightarrow> PROFILE_T \<Rightarrow> cstr \<times> cstr \<times> int" where
  "start_cred cdma p =
     (if cdma \<and> empty_cstr (user p) \<and> empty_cstr (password p) then (Some ''ctnet@mycdma.cn'', Some ''vnet.mobi'', 2)
      else (user p, password p, auth p))"

definition WdsStartNwInterfaceReq :: "bool \<Rightarrow> PROFILE_T \<Rightarrow> body" where
  "WdsStartNwInterfaceReq cdma p =
     (case start_cred cdma p of (u, pw, au) \<Rightarrow>
        ([(0x30, [if cdma then 0x02 else 0x01])]
         @ (if cdma then [] else str_tlv 0x14 (apn p))
         @ str_tlv 0x17 u @ str_tlv 0x18 pw
         @ (if u \<noteq> None \<and> pw \<noteq> None then [(0x16, [word_of_int au])] else [])
         @ [(0x19, [word_of_int (curIpFamily p)])]
         @ (if pdp p \<noteq> 0 \<and> \<not> cdma then [(0x31, [word_of_int (pdp p)])] else []), 0))"

definition WdsStopNwInterfaceReq :: "u32 \<Rightarrow> u32 \<Rightarrow> int \<Rightarrow> body" where
  "WdsStopNwInterfaceReq handle4 handle6 family =
     ([(0x01, le32_bytes (if family = IpFamilyV4 then handle4 else handle6))], 0)"

definition WdsSetClientIPFamilyPref :: "byte \<Rightarrow> body" where
  "WdsSetClientIPFamilyPref pref = ([(0x01, [pref])], 0)"

definition WdsSetAutoConnect :: "byte \<Rightarrow> body" where
  "WdsSetAutoConnect setting = ([(0x01, [setting])], 0)"

definition WdsSetQMUXBindMuxDataPort :: "QMAP_SETTING \<Rightarrow> body" where
  "WdsSetQMUXBindMuxDataPort q =
     ([(0x10, le32_bytes (qs_ep_type q) @ le32_bytes (qs_iface_id q)), (0x11, [ucast (qs_MuxId q)]), (0x13, le32_bytes 1)], 0)"

definition WdaSetDataFormat :: "u32 \<Rightarrow> QMAP_SETTING \<Rightarrow> body" where
  "WdaSetDataFormat version q =
     (if qs_rx_urb_size q = 0 then ([(0x10, [0]), (0x11, le32_bytes 1), (0x13, le32_bytes 0)], 0)
      else ([(0x10, [0]), (0x11, le32_bytes 2), (0x12, le32_bytes version), (0x13, le32_bytes version),
             (0x15, le32_bytes (qs_rx_urb_size q div 512)), (0x16, le32_bytes (qs_rx_urb_size q)),
             (0x17, le32_bytes (qs_ep_type q) @ le32_bytes (qs_iface_id q))]
            @ (if qs_ul_max_datagrams q = 0 then []
               else [(0x19, le32_bytes (qs_dl_minimum_padding q)), (0x1B, le32_bytes (qs_ul_max_datagrams q)),
                     (0x1C, le32_bytes (qs_ul_max_size q))]), 0))"

definition DmsUIMVerifyPinReqSend :: "string \<Rightarrow> body" where
  "DmsUIMVerifyPinReqSend pin = ([(0x01, [0x01, of_nat (length pin)] @ cbytes pin)], 1)"

definition UimVerifyPinReqSend :: "string \<Rightarrow> body" where
  "UimVerifyPinReqSend pin = ([(0x01, [0x00, 0x00]), (0x02, [0x01, of_nat (length pin)] @ cbytes pin)], 1)"

definition WdsCreateProfileSettingsReqSend :: "PROFILE_T \<Rightarrow> body" where
  "WdsCreateProfileSettingsReqSend p = ([(0x01, [0x00]), (0x25, [word_of_int (pdp p)])], 0)"

definition WdsGetProfileSettingsReqSend :: "PROFILE_T \<Rightarrow> body" where
  "WdsGetProfileSettingsReqSend p = ([(0x01, [0x00, word_of_int (pdp p)])], 0)"

definition WdsModifyProfileSettingsReq :: "PROFILE_T \<Rightarrow> body" where
  "WdsModifyProfileSettingsReq p =
     ([(0x01, [0x00, word_of_int (pdp p)]), (0x11, [word_of_int (iptype p)])]
      @ str_tlv 0x14 (apn p) @ str_tlv 0x1B (user p) @ str_tlv 0x1C (password p)
      @ (if user p \<noteq> None \<and> password p \<noteq> None then [(0x1D, [word_of_int (auth p)])] else []),
      if (apn p \<noteq> None \<or> user p \<noteq> None \<or> password p \<noteq> None) \<and> \<not> (user p \<noteq> None \<and> password p \<noteq> None) then 1 else 0)"

definition WdsGetRuntimeSettingReq :: body where
  "WdsGetRuntimeSettingReq =
     ([(0x10, le32_bytes (push_bit 4 1 OR push_bit 8 1 OR push_bit 13 1 OR push_bit 9 1 OR push_bit 11 1 OR push_bit 14 1))], 0)"

definition UimSetCardSlotReq :: "byte \<Rightarrow> body" where
  "UimSetCardSlotReq slot = ([(0x01, [slot])], 0)"

text \<open>
  The two values are stored after the composition; the replication factor goes through
  \<open>cpu_to_le16\<close>, which keeps 16 bits.
\<close>

definition WdaSetLoopBackReq :: "byte \<Rightarrow> u32 \<Rightarrow> body" where
  "WdaSetLoopBackReq state factor = ([(0x01, [state]), (0x10, le32_bytes (ucast (ucast factor :: u16)))], 0)"

definition DmsSetOperatingModeReq :: "byte \<Rightarrow> body" where
  "DmsSetOperatingModeReq mode = ([(0x01, [mode])], 0)"

text \<open>Bodies of control requests (\<open>QmiWwanCM.c\<close>).\<close>

definition CtlGetVersionReq :: body where
  "CtlGetVersionReq = ([(0x01, [0xFF])], 0)"

definition CtlGetClientIdReq :: "byte \<Rightarrow> body" where
  "CtlGetClientIdReq ty = ([(0x01, [ty])], 0)"

definition CtlLibQmiProxyOpenReq :: "string \<Rightarrow> body" where
  "CtlLibQmiProxyOpenReq path = ([(0x01, cbytes path)], 0)"

definition CtlReleaseClientIdReq :: "byte \<Rightarrow> byte \<Rightarrow> body" where
  "CtlReleaseClientIdReq ty cid = ([(0x01, [ty, cid])], 0)"

section \<open>Composition\<close>

definition WDM_DEFAULT_BUFSIZE :: nat where "WDM_DEFAULT_BUFSIZE = 256"

text \<open>The counters of transaction numbers (\<open>static int\<close>).\<close>

definition GetQMUXTransactionId :: "int \<Rightarrow> int" where
  "GetQMUXTransactionId t = (if 0xFFFF < t + 1 then 1 else t + 1)"

definition GetQCTLTransactionId :: "int \<Rightarrow> int" where
  "GetQCTLTransactionId t = (if 0xFF < t + 1 then 1 else t + 1)"

text \<open>
  A request is composed in an array of \<open>WDM_DEFAULT_BUFSIZE\<close> bytes; \<open>None\<close> when the builder
  stores behind its end.
\<close>

definition ComposeQMUXMsg :: "byte \<Rightarrow> u16 \<Rightarrow> body \<Rightarrow> int \<Rightarrow> byte list option" where
  "ComposeQMUXMsg QMIType ty b tid =
     (let v = tlvs_bytes (fst b); n = length v in
      if WDM_DEFAULT_BUFSIZE < 13 + n + snd b then None
      else Some ([0x01] @ le16_bytes (of_nat (n + 4 + 3 + 6 - 1)) @ [0x00, QMIType, 0x00]
             @ [0x00] @ le16_bytes (word_of_int tid) @ le16_bytes ty @ le16_bytes (of_nat n) @ v))"

definition ComposeQCTLMsg :: "u16 \<Rightarrow> body \<Rightarrow> int \<Rightarrow> byte list option" where
  "ComposeQCTLMsg ty b tid =
     (let v = tlvs_bytes (fst b); n = length v in
      if WDM_DEFAULT_BUFSIZE < 12 + n + snd b then None
      else Some ([0x01] @ le16_bytes (of_nat (n + 6 + 6 - 1)) @ [0x00, 0x00, 0x00]
             @ [0x00, word_of_int tid] @ le16_bytes ty @ le16_bytes (of_nat n) @ v))"

text \<open>Fields of a message, at the offsets of \<open>QCQMI_HDR\<close>, \<open>QCQMUX_HDR\<close> and \<open>QCQMUX_MSG_HDR_RESP\<close>.\<close>

definition m_QMIType :: "byte list \<Rightarrow> byte option" where "m_QMIType m = rd8 m 4"
definition m_ClientId :: "byte list \<Rightarrow> byte option" where "m_ClientId m = rd8 m 5"
definition m_Type :: "byte list \<Rightarrow> u16 option" where "m_Type m = rd16 m 9"
definition m_CtlTid :: "byte list \<Rightarrow> byte option" where "m_CtlTid m = rd8 m 7"
definition m_MuxTid :: "byte list \<Rightarrow> u16 option" where "m_MuxTid m = rd16 m 7"
definition m_CtlType :: "byte list \<Rightarrow> u16 option" where "m_CtlType m = rd16 m 8"

definition is_response :: "byte list \<Rightarrow> byte list \<Rightarrow> bool option" where
  "is_response req rsp = do {
     a \<leftarrow> m_QMIType req; b \<leftarrow> m_QMIType rsp;
     if a \<noteq> b then Some False
     else do {
       c \<leftarrow> m_ClientId req; d \<leftarrow> m_ClientId rsp;
       if c \<noteq> d then Some False
       else if a = 0 then do { t \<leftarrow> m_CtlTid req; u \<leftarrow> m_CtlTid rsp; Some (t = u) }
       else do { t \<leftarrow> m_MuxTid req; u \<leftarrow> m_MuxTid rsp; Some (t = u) }
     }
   }"

section \<open>Lookup in a well-formed message\<close>

text \<open>What a lookup should find: the first part of the type.\<close>

fun tlv_lookup :: "tlv list \<Rightarrow> nat \<Rightarrow> byte list option" where
  "tlv_lookup [] ty = None"
| "tlv_lookup (x # xs) ty = (if unat (fst x) = ty then Some (snd x) else tlv_lookup xs ty)"

fun tlv_offset :: "tlv list \<Rightarrow> nat \<Rightarrow> nat" where
  "tlv_offset [] ty = 0"
| "tlv_offset (x # xs) ty = (if unat (fst x) = ty then 0 else length (tlv_bytes x) + tlv_offset xs ty)"

lemma tlvs_bytes_simps [simp]:
  "tlvs_bytes [] = []" "tlvs_bytes (x # xs) = tlv_bytes x @ tlvs_bytes xs" "tlvs_bytes (xs @ ys) = tlvs_bytes xs @ tlvs_bytes ys"
  by (simp_all add: tlvs_bytes_def)

lemma length_tlv_bytes [simp]: "length (tlv_bytes x) = length (snd x) + 3"
  by (simp add: tlv_bytes_def)

lemma rd8_append [simp]: "rd8 (a @ b) (length a) = rd8 b 0" "rd8 (a @ b) (length a + i) = rd8 b i" "rd8 (a @ b) (Suc (length a)) = rd8 b 1"
  by (simp_all add: rd8_def nth_append)

lemma rd16_append: "rd16 (a @ b) (length a + i) = rd16 b i"
proof -
  have "length a + i + 1 = length a + (i + 1)" by simp
  then show ?thesis by (simp only: rd16_def rd8_append)
qed

lemma rdn_append: "rdn (a @ b) (length a + i) n = rdn b i n"
  by (simp add: rdn_def)

lemma rd8_prefix: "i < length a \<Longrightarrow> rd8 (a @ b) i = rd8 a i"
  by (simp add: rd8_def nth_append)

lemma rd8_head: "rd8 (tlv_bytes x @ r) 0 = Some (fst x)"
  by (simp add: tlv_bytes_def rd8_def)

lemma rd16_len: "length (snd x) < 65536 \<Longrightarrow> rd16 (tlv_bytes x @ r) 1 = Some (of_nat (length (snd x)))"
  by (simp add: tlv_bytes_def rd16_def rd8_def le16_bytes_def wire_simps)

lemma rdn_value: "rdn (tlv_bytes x @ r) 3 (length (snd x)) = Some (snd x)"
  by (simp add: tlv_bytes_def rdn_def le16_bytes_def)

lemma len16_sub: "a + b < 65536 \<Longrightarrow> (of_nat (a + b) :: u16) - of_nat a = of_nat b"
  by simp

text \<open>One turn of the search: a part of another type is skipped.\<close>

lemma GetTLV_loop_skip:
  assumes "length (snd x) + 3 + r < 65536" "ty \<le> 0x1000" "unat (fst x) \<noteq> ty"
  shows "GetTLV_loop (pre @ tlv_bytes x @ rest) ty n (of_nat (length (snd x) + 3 + r)) (length pre) =
     GetTLV_loop ((pre @ tlv_bytes x) @ rest) ty (Suc n) (of_nat r) (length (pre @ tlv_bytes x))"
proof -
  let ?m = "pre @ tlv_bytes x @ rest" and ?k = "length (snd x)"
  have u: "unat (of_nat (?k + 3 + r) :: u16) = ?k + 3 + r"
    using assms(1) by (simp add: unat_of_nat take_bit_nat_eq_self del: of_nat_add)
  have t: "rd8 ?m (length pre) = Some (fst x)" by (simp add: rd8_head)
  have l: "rd16 ?m (Suc (length pre)) = Some (of_nat ?k)"
    using rd16_append [of pre "tlv_bytes x @ rest" 1] rd16_len [of x] assms(1) by simp
  have k: "unat (of_nat ?k :: u16) = ?k" using assms(1) by (simp add: unat_of_nat take_bit_nat_eq_self)
  have sub: "(of_nat (?k + 3 + r) :: u16) - (of_nat ?k + 3) = of_nat r" by simp
  have step: "GetTLV_loop ?m ty n L (length pre) = GetTLV_loop ?m ty (Suc n) (L - (of_nat ?k + 3)) (length pre + ?k + 3)"
    if "unat L = ?k + 3 + r" for L
    using assms(2,3) that by (subst GetTLV_loop.simps) (simp add: t l k del: of_nat_add rd8_append)
  show ?thesis using step [OF u] unfolding sub by (simp add: add.assoc)
qed

lemma GetTLV_loop_hit:
  assumes "length (snd x) + 3 + r < 65536" "unat (fst x) = ty" "ty \<le> 0x1000"
  shows "GetTLV_loop (pre @ tlv_bytes x @ rest) ty n (of_nat (length (snd x) + 3 + r)) (length pre) = Some (Some (length pre))"
proof -
  have "unat (of_nat (length (snd x) + 3 + r) :: u16) = length (snd x) + 3 + r"
    using assms(1) by (simp add: unat_of_nat take_bit_nat_eq_self del: of_nat_add)
  moreover have "rd8 (pre @ tlv_bytes x @ rest) (length pre) = Some (fst x)" by (simp add: rd8_head)
  ultimately show ?thesis
    using assms(2,3) by (subst GetTLV_loop.simps) (simp del: of_nat_add rd8_append)
qed

lemma GetTLV_loop_finds:
  "length (tlvs_bytes xs) < 65536 \<Longrightarrow> ty \<le> 0x1000 \<Longrightarrow>
   GetTLV_loop (pre @ tlvs_bytes xs @ post) ty n (of_nat (length (tlvs_bytes xs))) (length pre) =
     Some (if tlv_lookup xs ty = None then None else Some (length pre + tlv_offset xs ty))"
proof (induction xs arbitrary: pre n)
  case Nil
  then show ?case by (subst GetTLV_loop.simps) simp
next
  case (Cons x xs)
  have len: "length (snd x) + 3 + length (tlvs_bytes xs) < 65536" using Cons.prems(1) by simp
  show ?case
  proof (cases "unat (fst x) = ty")
    case True
    then show ?thesis
      using GetTLV_loop_hit [OF len True Cons.prems(2), of pre "tlvs_bytes xs @ post" n] by (simp add: add.assoc)
  next
    case False
    then show ?thesis
      using GetTLV_loop_skip [OF len Cons.prems(2) False, of pre "tlvs_bytes xs @ post" n]
        Cons.IH [of "pre @ tlv_bytes x" "Suc n"] Cons.prems(2) len
      by (simp add: add.assoc)
  qed
qed

text \<open>A part that claims more than is left: the length wraps and the next header is outside.\<close>

lemma GetTLV_loop_wraps:
  assumes "ty \<le> 0x1000" "unat t \<noteq> ty" "length v < unat l" "unat l \<le> 65533 + length v" "3 + length v < 65536"
  shows "GetTLV_loop (pre @ t # le16_bytes l @ v) ty n (of_nat (3 + length v)) (length pre) = None"
proof -
  let ?m = "pre @ t # le16_bytes l @ v" and ?d = "65536 - (unat l - length v)"
  have rd: "rd8 ?m (length pre) = Some t" "rd16 ?m (Suc (length pre)) = Some l"
    using rd16_append [of pre "t # le16_bytes l @ v" 1] by (simp_all add: rd8_def rd16_def le16_bytes_def wire_simps)
  have u: "unat (of_nat (3 + length v) :: u16) = 3 + length v"
    using assms(5) by (simp add: unat_of_nat take_bit_nat_eq_self del: of_nat_add)
  have d: "3 \<le> ?d" "?d < 65536" using assms(3,4) by auto
  have "int ?d = 65536 - (int (unat l) - int (length v))" using assms(3) unat_u16_less [of l] by linarith
  then have "(word_of_int (int ?d) :: u16) = word_of_int 65536 - (word_of_int (int (unat l)) - word_of_int (int (length v)))"
    by (simp only: wi_hom_sub)
  then have w: "(of_nat (3 + length v) :: u16) - (l + 3) = of_nat ?d" by simp
  have "unat (of_nat ?d :: u16) = ?d" using d(2) by (simp add: unat_of_nat take_bit_nat_eq_self)
  moreover have "rd8 ?m (length pre + unat l + 3) = None" using assms(3) by (simp add: rd8_def)
  ultimately have "GetTLV_loop ?m ty (Suc n) (of_nat ?d) (length pre + unat l + 3) = None"
    using assms(1) d(1) by (subst GetTLV_loop.simps) simp
  then show ?thesis
    using assms(1,2) rd u w by (subst GetTLV_loop.simps) (simp del: of_nat_add rd8_append)
qed

text \<open>A message whose parts follow a header of eleven bytes and their length.\<close>

definition qmux_msg :: "byte list \<Rightarrow> tlv list \<Rightarrow> byte list" where
  "qmux_msg h xs = h @ le16_bytes (of_nat (length (tlvs_bytes xs))) @ tlvs_bytes xs"

lemma qmux_msg_length_field: "length h = 11 \<Longrightarrow> rd16 (h @ le16_bytes w @ r) 11 = Some w"
  using rd16_append [of h "le16_bytes w @ r" 0] by (simp add: rd16_def rd8_def le16_bytes_def wire_simps)

lemma GetTLV_finds:
  assumes "length h = 11" "length (tlvs_bytes xs) < 65536" "ty \<le> 0x1000"
  shows "GetTLV (qmux_msg h xs) ty = Some (if tlv_lookup xs ty = None then None else Some (13 + tlv_offset xs ty))"
  using GetTLV_loop_finds [OF assms(2,3), of "h @ le16_bytes (of_nat (length (tlvs_bytes xs)))" "[]" 0] assms(1)
  by (simp add: GetTLV_def qmux_msg_def qmux_msg_length_field)

lemma tlv_lookup_split:
  "tlv_lookup xs ty = Some v \<Longrightarrow> \<exists>ys t zs. xs = ys @ (t, v) # zs \<and> unat t = ty \<and> length (tlvs_bytes ys) = tlv_offset xs ty"
proof (induction xs)
  case (Cons x xs)
  show ?case
  proof (cases "unat (fst x) = ty")
    case True
    then show ?thesis using Cons.prems by (intro exI [of _ "[]"]) (cases x, auto)
  next
    case False
    then obtain ys t zs where "xs = ys @ (t, v) # zs" "unat t = ty" "length (tlvs_bytes ys) = tlv_offset xs ty"
      using Cons by auto
    then show ?thesis using False by (intro exI [of _ "x # ys"]) auto
  qed
qed simp

lemma tlv_lookup_value:
  assumes "length h = 11" "length (tlvs_bytes xs) < 65536" "tlv_lookup xs ty = Some v" "i + n \<le> length v"
  shows "rdn (qmux_msg h xs) (13 + tlv_offset xs ty + 3 + i) n = Some (take n (drop i v))"
    and "rd16 (qmux_msg h xs) (13 + tlv_offset xs ty + 1) = Some (of_nat (length v))"
proof -
  obtain ys t zs where xs: "xs = ys @ (t, v) # zs" "length (tlvs_bytes ys) = tlv_offset xs ty"
    using tlv_lookup_split [OF assms(3)] by blast
  let ?pre = "h @ le16_bytes (of_nat (length (tlvs_bytes xs))) @ tlvs_bytes ys"
  have m: "qmux_msg h xs = ?pre @ tlv_bytes (t, v) @ tlvs_bytes zs" by (simp add: qmux_msg_def xs(1))
  have pre: "length ?pre = 13 + tlv_offset xs ty" using assms(1) xs(2) by simp
  have "rdn (qmux_msg h xs) (13 + tlv_offset xs ty + 3 + i) n = rdn (tlv_bytes (t, v) @ tlvs_bytes zs) (3 + i) n"
    unfolding m pre [symmetric] add.assoc by (rule rdn_append)
  also have "\<dots> = Some (take n (drop i v))" using assms(4) by (simp add: rdn_def tlv_bytes_def le16_bytes_def eval_nat_numeral)
  finally show "rdn (qmux_msg h xs) (13 + tlv_offset xs ty + 3 + i) n = Some (take n (drop i v))" .
  have "length v < 65536" using assms(2) xs(1) by simp
  then show "rd16 (qmux_msg h xs) (13 + tlv_offset xs ty + 1) = Some (of_nat (length v))"
    unfolding m pre [symmetric] using rd16_append [of ?pre "tlv_bytes (t, v) @ tlvs_bytes zs" 1] rd16_len [of "(t, v)"] by simp
qed

lemma compose_is_qmux_msg:
  assumes "ComposeQMUXMsg svc ty b tid = Some m"
  shows "\<exists>h. length h = 11 \<and> m = qmux_msg h (fst b) \<and> length (tlvs_bytes (fst b)) < 65536 \<and>
     rd8 m 4 = Some svc \<and> rd16 m 7 = Some (word_of_int tid) \<and> rd16 m 9 = Some ty \<and> length m \<le> WDM_DEFAULT_BUFSIZE \<and>
     rd16 m 1 = Some (of_nat (length m - 1))"
proof -
  let ?n = "length (tlvs_bytes (fst b))"
  let ?h = "[0x01] @ le16_bytes (of_nat (?n + 4 + 3 + 6 - 1)) @ [0x00, svc, 0x00] @ [0x00] @ le16_bytes (word_of_int tid) @ le16_bytes ty"
  have n: "13 + ?n \<le> 256" and m: "m = qmux_msg ?h (fst b)"
    using assms by (auto simp: ComposeQMUXMsg_def qmux_msg_def Let_def WDM_DEFAULT_BUFSIZE_def split: if_splits)
  have "rd8 m 4 = Some svc" "rd16 m 7 = Some (word_of_int tid)" "rd16 m 9 = Some ty" "rd16 m 1 = Some (of_nat (?n + 4 + 3 + 6 - 1))"
    by (simp_all add: m qmux_msg_def rd8_def rd16_def le16_bytes_def wire_simps)
  moreover have "length m = ?n + 13" by (simp add: m qmux_msg_def)
  ultimately show ?thesis using n m by (intro exI [of _ ?h]) (simp add: WDM_DEFAULT_BUFSIZE_def)
qed

section \<open>Properties\<close>

text \<open>
  C29. Every request the connection manager composes is read back exactly by its own parser:
  the header carries the service, the message type and the transaction number, the length
  field counts the message, looking up a type finds the first part of that type with its
  value, and NULL when there is none, without leaving the message.
\<close>

theorem compose_GetTLV:
  assumes "ComposeQMUXMsg svc mty b tid = Some m" "ty \<le> 0x1000"
  shows "m_QMIType m = Some svc \<and> m_Type m = Some mty \<and> m_MuxTid m = Some (word_of_int tid) \<and>
     rd16 m 1 = Some (of_nat (length m - 1)) \<and>
     (case tlv_lookup (fst b) ty of
        None \<Rightarrow> GetTLV m ty = Some None
      | Some v \<Rightarrow> \<exists>p. GetTLV m ty = Some (Some p) \<and> rd16 m (p + 1) = Some (of_nat (length v)) \<and> rdn m (p + 3) (length v) = Some v)"
proof -
  obtain h where h: "length h = 11" "m = qmux_msg h (fst b)" "length (tlvs_bytes (fst b)) < 65536" "rd8 m 4 = Some svc"
      "rd16 m 7 = Some (word_of_int tid)" "rd16 m 9 = Some mty" "rd16 m 1 = Some (of_nat (length m - 1))"
    using compose_is_qmux_msg [OF assms(1)] by blast
  have f: "m_QMIType m = Some svc" "m_Type m = Some mty" "m_MuxTid m = Some (word_of_int tid)"
    using h(4-6) by (simp_all add: m_QMIType_def m_Type_def m_MuxTid_def)
  note g = GetTLV_finds [OF h(1,3) assms(2), folded h(2)]
  show ?thesis
  proof (cases "tlv_lookup (fst b) ty")
    case None
    then show ?thesis using f g h(7) by simp
  next
    case (Some v)
    let ?p = "13 + tlv_offset (fst b) ty"
    have "rdn m (?p + 3) (length v) = Some v"
      using tlv_lookup_value(1) [OF h(1,3) Some, of 0 "length v", folded h(2)] by simp
    moreover have "rd16 m (?p + 1) = Some (of_nat (length v))"
      using tlv_lookup_value(2) [OF h(1,3) Some, of 0 "length v", folded h(2)] by simp
    moreover have "GetTLV m ty = Some (Some ?p)" using g Some by simp
    ultimately show ?thesis using f h(7) Some by auto
  qed
qed

definition sample_profile :: PROFILE_T where
  "sample_profile = \<lparr>apn = Some ''3gnet'', user = None, password = None, auth = 0, iptype = 0, pdp = 1,
     enable_ipv4 = True, enable_ipv6 = False, curIpFamily = 4, qmap_mode = 1, qmap_size = 16384, p_qmap_version = 5, rawIP = True,
     muxid = 0x81, wda_client = 1, hardware_pcie = False, pincode = None, proxy = [], qmichannel = ''/dev/cdc-wdm0'',
     qmapnet_adapter = ''wwan0_1'', loopback_state = 0, replication_factor = 0, BaseBandVersion = [],
     ipv4 = \<lparr>v4_Address = 0, v4_Gateway = 0, v4_SubnetMask = 0, v4_DnsPrimary = 0, v4_DnsSecondary = 0, v4_Mtu = 0\<rparr>,
     ipv6 = \<lparr>v6_Address = [], v6_Gateway = [], v6_DnsPrimary = [], v6_DnsSecondary = [], v6_PrefixLengthIPAddr = 0,
       v6_PrefixLengthGateway = 0, v6_Mtu = 0\<rparr>,
     PCSCFIpv4Addr1 = 0, PCSCFIpv4Addr2 = 0, PCSCFIpv6Addr1 = [], PCSCFIpv6Addr2 = [],
     old_apn = [], old_user = [], old_password = [], old_auth = 0, old_iptype = 0,
     rmnet_info = \<lparr>ri_size = 0, ri_rx_urb_size = 0, ri_ep_type = 0, ri_iface_id = 0, ri_qmap_version = 0, ri_dl_minimum_padding = 0\<rparr>\<rparr>"

definition sample_start :: "byte list" where
  "sample_start = [0x01, 0x20, 0x00, 0x00, 0x01, 0x00, 0x00, 0x07, 0x00, 0x20, 0x00, 0x14, 0x00,
     0x30, 0x01, 0x00, 0x01, 0x14, 0x05, 0x00, 0x33, 0x67, 0x6E, 0x65, 0x74, 0x19, 0x01, 0x00, 0x04, 0x31, 0x01, 0x00, 0x01]"

lemma sample_start_composed: "ComposeQMUXMsg 0x01 0x0020 (WdsStartNwInterfaceReq False sample_profile) 7 = Some sample_start"
  by code_simp

lemma compose_GetTLV_witness:
  "ComposeQMUXMsg 0x01 0x0020 (WdsStartNwInterfaceReq False sample_profile) 7 = Some sample_start \<and>
   (\<exists>p. GetTLV sample_start 0x14 = Some (Some p) \<and> rdn sample_start (p + 3) 5 = Some (cbytes ''3gnet''))"
proof -
  have l: "tlv_lookup (fst (WdsStartNwInterfaceReq False sample_profile)) 0x14 = Some (cbytes ''3gnet'')" by code_simp
  have n: "length (cbytes ''3gnet'') = 5" by code_simp
  show ?thesis using compose_GetTLV [OF sample_start_composed, of "0x14"] sample_start_composed l n by auto
qed

text \<open>
  The lookup trusts the length of a part. When a part claims more bytes than the message
  has left, the remaining length wraps around and the search for a later type reads beyond
  the end of the message.
\<close>

theorem GetTLV_overrun:
  assumes "length h = 11" "ty \<le> 0x1000" "tlv_lookup xs ty = None" "unat t \<noteq> ty"
    and "length v < unat l" "unat l \<le> 65533 + length v" "length (tlvs_bytes xs) + 3 + length v < 65536"
  shows "GetTLV (h @ le16_bytes (of_nat (length (tlvs_bytes xs) + 3 + length v)) @ tlvs_bytes xs @ t # le16_bytes l @ v) ty = None"
proof -
  have "GetTLV_loop (pre @ tlvs_bytes xs @ t # le16_bytes l @ v) ty n (of_nat (length (tlvs_bytes xs) + 3 + length v)) (length pre) = None"
    for pre n
    using assms(3,7)
  proof (induction xs arbitrary: pre n)
    case Nil
    then show ?case using GetTLV_loop_wraps [OF assms(2,4-6)] by simp
  next
    case (Cons x xs)
    have len: "length (snd x) + 3 + (length (tlvs_bytes xs) + 3 + length v) < 65536" using Cons.prems(2) by simp
    have "unat (fst x) \<noteq> ty" "tlv_lookup xs ty = None" using Cons.prems(1) by (auto split: if_splits)
    then show ?case
      using GetTLV_loop_skip [OF len assms(2), of pre "tlvs_bytes xs @ t # le16_bytes l @ v" n] Cons.IH [of "pre @ tlv_bytes x" "Suc n"] len
      by (simp add: add.assoc)
  qed
  from this [of "h @ le16_bytes (of_nat (length (tlvs_bytes xs) + 3 + length v))" 0] assms(1) show ?thesis
    by (simp add: GetTLV_def qmux_msg_length_field)
qed

lemma GetTLV_overrun_witness:
  "GetTLV ([1, 0, 0, 0, 1, 1, 2, 7, 0, 0x2D, 0] @ le16_bytes 10 @ [0x02, 4, 0, 0, 0, 0, 0] @ [0x15, 4, 0]) 0x1E = None"
proof -
  have e: "tlvs_bytes [(0x02, [0, 0, 0, 0])] = [0x02, 4, 0, 0, 0, 0, 0]" "le16_bytes 4 = [4, 0]" by code_simp+
  have "GetTLV ([1, 0, 0, 0, 1, 1, 2, 7, 0, 0x2D, 0] @ le16_bytes (of_nat (length (tlvs_bytes [(0x02, [0, 0, 0, 0])]) + 3 + length ([] :: byte list)))
      @ tlvs_bytes [(0x02, [0, 0, 0, 0])] @ 0x15 # le16_bytes 4 @ []) 0x1E = None"
    by (rule GetTLV_overrun) (simp_all add: e)
  then show ?thesis by (simp add: e del: tlvs_bytes_simps)
qed

end
