(* ===== verification/QmiWwan.thy ===== *)
theory QmiWwan
  imports QmiMsg
begin

text \<open>
  The QMI transport of the connection manager (\<open>quectel_cm_5G/src/QmiWwanCM.c\<close> and the first
  part of \<open>QMIThread.c\<close>): sending a request to the control device, waiting for its answer while
  the reader thread hands over what the device sends, and the allocation of client numbers.

  The static variables of the two files are one record. The device is a list of exchanges, one
  per write: the outcome of the write and the buffers the reader thread hands over until the
  sender runs again; an exhausted list is a device that accepts and stays silent. \<open>None\<close> as
  the value of a function means an access outside of an object. \<open>malloc\<close> succeeds.
\<close>

section \<open>State\<close>

text \<open>An exchange: results of \<open>poll\<close> and \<open>write\<close>, then the reader's calls (\<open>None\<close> is \<open>QmiThreadRecvQMI(NULL)\<close>).\<close>

record exchange =
  x_poll :: int
  x_pollout :: bool
  x_write :: int
  x_recv :: "byte list option list"

text \<open>What is written to the control sockets of the main thread.\<close>

datatype main_event = MainEvent int | MainEventExt int "byte list"

record qmi =
  cdc_wdm :: bool                           \<comment> \<open>\<open>cdc_wdm_fd != -1\<close>\<close>
  qmiclientId :: "byte list"
  QMUXTransactionId :: int
  QCTLTransactionId :: int
  s_pRequest :: "byte list option"
  s_pResponse :: "byte list option"
  WdsConnectionIPv4Handle :: u32
  WdsConnectionIPv6Handle :: u32
  s_is_cdma :: bool
  s_5g_type :: u32
  s_hdr_personality :: int
  s_9x07 :: bool
  qmap_version :: u32
  to_device :: "byte list list"
  to_main :: "main_event list"
  to_driver :: "QMAP_SETTING list"          \<comment> \<open>\<open>ql_set_driver_qmap_setting\<close>\<close>
  exchanges :: "exchange list"
  incoming :: "byte list option list"       \<comment> \<open>of the current exchange\<close>

definition QMUX_TYPE_CTL :: byte where "QMUX_TYPE_CTL = 0x00"
definition QMUX_TYPE_WDS :: byte where "QMUX_TYPE_WDS = 0x01"
definition QMUX_TYPE_DMS :: byte where "QMUX_TYPE_DMS = 0x02"
definition QMUX_TYPE_NAS :: byte where "QMUX_TYPE_NAS = 0x03"
definition QMUX_TYPE_UIM :: byte where "QMUX_TYPE_UIM = 0x0B"
definition QMUX_TYPE_WDS_IPV6 :: byte where "QMUX_TYPE_WDS_IPV6 = 0x11"
definition QMUX_TYPE_WDS_ADMIN :: byte where "QMUX_TYPE_WDS_ADMIN = 0x1A"
definition QMUX_TYPE_ALL :: nat where "QMUX_TYPE_ALL = 0xFF"

definition ENODEV :: int where "ENODEV = 19"
definition ETIMEDOUT :: int where "ETIMEDOUT = 110"

definition RIL_UNSOL_RESPONSE_VOICE_NETWORK_STATE_CHANGED :: int where "RIL_UNSOL_RESPONSE_VOICE_NETWORK_STATE_CHANGED = 0x1004"
definition RIL_UNSOL_DATA_CALL_LIST_CHANGED :: int where "RIL_UNSOL_DATA_CALL_LIST_CHANGED = 0x1005"
definition MODEM_REPORT_RESET_EVENT :: int where "MODEM_REPORT_RESET_EVENT = 0x1006"
definition RIL_UNSOL_LOOPBACK_CONFIG_IND :: int where "RIL_UNSOL_LOOPBACK_CONFIG_IND = 0x1007"

lemmas qmux_types = QMUX_TYPE_CTL_def QMUX_TYPE_WDS_def QMUX_TYPE_DMS_def QMUX_TYPE_NAS_def QMUX_TYPE_UIM_def
  QMUX_TYPE_WDS_IPV6_def QMUX_TYPE_WDS_ADMIN_def

definition silent :: exchange where
  "silent = \<lparr>x_poll = 1, x_pollout = True, x_write = 0, x_recv = []\<rparr>"

section \<open>Sending\<close>

text \<open>
  \<open>QmiWwanSendQMI\<close>: fill in the client number of the service, send IPv6 data calls under the
  service WDS, write the message. The request is changed in place.
\<close>

definition next_exchange :: "byte list \<Rightarrow> qmi \<Rightarrow> exchange" where
  "next_exchange req s = (case exchanges s of [] \<Rightarrow> silent\<lparr>x_write := int (length req)\<rparr> | x # _ \<Rightarrow> x)"

definition wdm_write :: "byte list \<Rightarrow> qmi \<Rightarrow> int \<times> qmi" where
  "wdm_write req s =
     (let x = next_exchange req s; s' = s\<lparr>exchanges := tl (exchanges s), incoming := x_recv x\<rparr> in
      if x_pollout x
      then (if x_write x = int (length req) then 0 else x_write x, s'\<lparr>to_device := to_device s @ [take (nat (x_write x)) req]\<rparr>)
      else (x_poll x, s'))"

definition QmiWwanSendQMI :: "byte list \<Rightarrow> qmi \<Rightarrow> (int \<times> byte list \<times> qmi) option" where
  "QmiWwanSendQMI req s =
     (if \<not> cdc_wdm s then Some (- ENODEV, req, s)
      else do {
        t \<leftarrow> m_QMIType req;
        if t = QMUX_TYPE_CTL then (case wdm_write req s of (ret, s) \<Rightarrow> Some (ret, req, s))
        else do {
          c \<leftarrow> rd8 (qmiclientId s) (unat t);
          let req = req[5 := c];
          if c = 0 then Some (- ENODEV, req, s)
          else (let req = (if t = QMUX_TYPE_WDS_IPV6 then req[4 := QMUX_TYPE_WDS] else req) in
                case wdm_write req s of (ret, s) \<Rightarrow> Some (ret, req, s))
        }
      })"

section \<open>Receiving\<close>

text \<open>
  \<open>QmiThreadRecvQMI\<close>, called by the reader thread with its receive buffer: the answer of the
  pending request is copied and the sender is signalled (the boolean result); indications become
  events for the main thread.
\<close>

definition indication :: "byte list \<Rightarrow> main_event list option" where
  "indication b = do {
     t \<leftarrow> m_QMIType b;
     if t = QMUX_TYPE_CTL then do {
       ty \<leftarrow> m_CtlType b;
       Some (if ty = 0x0024 then [MainEvent MODEM_REPORT_RESET_EVENT] else [])
     }
     else if t = QMUX_TYPE_NAS then do {
       ty \<leftarrow> m_Type b;
       Some (if ty = 0x0024 \<or> ty = 0x004E then [MainEvent RIL_UNSOL_RESPONSE_VOICE_NETWORK_STATE_CHANGED] else [])
     }
     else if t = QMUX_TYPE_WDS then do {
       ty \<leftarrow> m_Type b;
       Some (if ty = 0x0022 then [MainEvent RIL_UNSOL_DATA_CALL_LIST_CHANGED] else [])
     }
     else if t = QMUX_TYPE_WDS_ADMIN then do {
       ty \<leftarrow> m_Type b;
       if ty = 0x002F then do { d \<leftarrow> rdn b 9 15; Some [MainEventExt RIL_UNSOL_LOOPBACK_CONFIG_IND d] } else Some []
     }
     else Some []
   }"

definition QmiThreadRecvQMI :: "byte list option \<Rightarrow> qmi \<Rightarrow> (bool \<times> qmi) option" where
  "QmiThreadRecvQMI rsp s =
     (case rsp of
        None \<Rightarrow> (case s_pRequest s of
                  None \<Rightarrow> Some (False, s)
                | Some _ \<Rightarrow> Some (True, s\<lparr>s_pRequest := None, s_pResponse := None\<rparr>))
      | Some b \<Rightarrow> do {
          mine \<leftarrow> (case s_pRequest s of None \<Rightarrow> Some False | Some rq \<Rightarrow> is_response rq b);
          if mine then do {
            l \<leftarrow> rd16 b 1;
            m \<leftarrow> rdn b 0 (unat l + 1);
            Some (True, s\<lparr>s_pRequest := None, s_pResponse := Some m\<rparr>)
          }
          else do { ev \<leftarrow> indication b; Some (False, s\<lparr>to_main := to_main s @ ev\<rparr>) }
        })"

text \<open>The calls of the reader thread while the sender waits; whether one of them signalled.\<close>

fun recv_all :: "byte list option list \<Rightarrow> bool \<Rightarrow> qmi \<Rightarrow> (bool \<times> qmi) option" where
  "recv_all [] sig s = Some (sig, s)"
| "recv_all (r # rs) sig s = do { (g, s) \<leftarrow> QmiThreadRecvQMI r s; recv_all rs (sig \<or> g) s }"

text \<open>
  \<open>QmiThreadSendQMITimeout\<close>: without a signal in time the result is \<open>ETIMEDOUT\<close>; the first
  argument says whether the caller wants the response. After a failed write there is no wait,
  what the device sends is handed over all the same.
\<close>

definition QmiThreadSendQMITimeout :: "bool \<Rightarrow> byte list \<Rightarrow> qmi \<Rightarrow> (int \<times> byte list option \<times> qmi) option" where
  "QmiThreadSendQMITimeout want req s = do {
     (ret, req', s1) \<leftarrow> QmiWwanSendQMI req (s\<lparr>s_pRequest := Some req, s_pResponse := None, incoming := []\<rparr>);
     (sig, s2) \<leftarrow> recv_all (incoming s1) False (s1\<lparr>s_pRequest := Some req'\<rparr>);
     if ret \<noteq> 0 then Some (ret, None, s2)
     else if \<not> sig then Some (ETIMEDOUT, None, s2)
     else if want then Some (0, s_pResponse s2, s2)
     else Some (0, None, s2\<lparr>s_pResponse := None\<rparr>)
   }"

section \<open>Control requests\<close>

definition compose_ctl :: "u16 \<Rightarrow> body \<Rightarrow> qmi \<Rightarrow> (byte list \<times> qmi) option" where
  "compose_ctl ty b s =
     (let tid = GetQCTLTransactionId (QCTLTransactionId s) in
      do { m \<leftarrow> ComposeQCTLMsg ty b tid; Some (m, s\<lparr>QCTLTransactionId := tid\<rparr>) })"

definition no_body :: body where "no_body = ([], 0)"

definition c_Result :: "byte list \<Rightarrow> u16 option" where "c_Result m = rd16 m 15"
definition c_Error :: "byte list \<Rightarrow> u16 option" where "c_Error m = rd16 m 17"

definition libqmi_proxy_open :: "string \<Rightarrow> qmi \<Rightarrow> (int \<times> qmi) option" where
  "libqmi_proxy_open path s = do {
     (req, s) \<leftarrow> compose_ctl 0xFF00 (CtlLibQmiProxyOpenReq path) s;
     (ret, rsp, s) \<leftarrow> QmiThreadSendQMITimeout True req s;
     if ret \<noteq> 0 then Some (-1, s)
     else case rsp of
       None \<Rightarrow> Some (-1, s)
     | Some m \<Rightarrow> do { r \<leftarrow> c_Result m; e \<leftarrow> (if r = 0 then c_Error m else Some 0); Some (if r = 0 \<and> e = 0 then 0 else -1, s) }
   }"

definition QmiWwanGetClientID :: "byte \<Rightarrow> qmi \<Rightarrow> (byte \<times> qmi) option" where
  "QmiWwanGetClientID ty s = do {
     (req, s) \<leftarrow> compose_ctl 0x0022 (CtlGetClientIdReq ty) s;
     (ret, rsp, s) \<leftarrow> QmiThreadSendQMITimeout True req s;
     case rsp of
       None \<Rightarrow> Some (0, s)
     | Some m \<Rightarrow> do {
         r \<leftarrow> c_Result m; e \<leftarrow> c_Error m; c \<leftarrow> rd8 m 23;
         t \<leftarrow> (if r = 0 \<and> e = 0 then rd8 m 22 else Some 0);
         Some (if r = 0 \<and> e = 0 \<and> ty = t then c else 0, s)
       }
   }"

definition QmiWwanReleaseClientID :: "byte \<Rightarrow> byte \<Rightarrow> qmi \<Rightarrow> (int \<times> qmi) option" where
  "QmiWwanReleaseClientID ty cid s = do {
     (req, s) \<leftarrow> compose_ctl 0x0023 (CtlReleaseClientIdReq ty cid) s;
     (ret, rsp, s) \<leftarrow> QmiThreadSendQMITimeout False req s;
     Some (0, s)
   }"

text \<open>The synchronisation of \<open>QmiWwanInit\<close>: at most ten attempts.\<close>

fun sync_loop :: "nat \<Rightarrow> int \<Rightarrow> qmi \<Rightarrow> (int \<times> qmi) option" where
  "sync_loop 0 ret s = Some (ret, s)"
| "sync_loop (Suc n) ret s = do {
     (req, s) \<leftarrow> compose_ctl 0x0027 no_body s;
     (ret, rsp, s) \<leftarrow> QmiThreadSendQMITimeout False req s;
     if ret = 0 then Some (0, s) else sync_loop n ret s
   }"

text \<open>The version list of the answer: the minor version of WDA decides the QMAP version.\<close>

fun version_loop :: "byte list \<Rightarrow> nat \<Rightarrow> nat \<Rightarrow> int \<Rightarrow> int option" where
  "version_loop m i 0 v = Some v"
| "version_loop m i (Suc n) v = do {
     t \<leftarrow> rd8 m (23 + 5 * i);
     v \<leftarrow> (if t = QMUX_TYPE_WDS_ADMIN then do { minor \<leftarrow> rd16 m (23 + 5 * i + 3); Some (if 16 < minor then 1 else 0) } else Some v);
     version_loop m (Suc i) n v
   }"

definition get_version :: "PROFILE_T \<Rightarrow> qmi \<Rightarrow> (PROFILE_T \<times> qmi) option" where
  "get_version p s = do {
     (req, s) \<leftarrow> compose_ctl 0x0021 CtlGetVersionReq s;
     (ret, rsp, s) \<leftarrow> QmiThreadSendQMITimeout True req s;
     case rsp of
       None \<Rightarrow> Some (p, s)
     | Some m \<Rightarrow>
         if qmap_mode p = 0 then Some (p, s)
         else do {
           r \<leftarrow> c_Result m; e \<leftarrow> (if r = 0 then c_Error m else Some 0);
           if r = 0 \<and> e = 0 then do {
             n \<leftarrow> rd8 m 22;
             v \<leftarrow> version_loop m 0 (unat n) (p_qmap_version p);
             Some (p\<lparr>p_qmap_version := v\<rparr>, s)
           }
           else Some (p, s)
         }
   }"

definition set_client :: "byte \<Rightarrow> byte \<Rightarrow> qmi \<Rightarrow> (byte \<times> qmi) option" where
  "set_client slot ty s = do {
     (c, s) \<leftarrow> QmiWwanGetClientID ty s;
     Some (c, s\<lparr>qmiclientId := (qmiclientId s)[unat slot := c]\<rparr>)
   }"

definition QmiWwanInit :: "PROFILE_T \<Rightarrow> qmi \<Rightarrow> (int \<times> PROFILE_T \<times> qmi) option" where
  "QmiWwanInit p s = do {
     (ret, s) \<leftarrow> (if proxy p = ''qmi-proxy'' then libqmi_proxy_open (qmichannel p) s else Some (0, s));
     if ret \<noteq> 0 then Some (ret, p, s)
     else do {
       (ret, s) \<leftarrow> (if proxy p = [] then sync_loop 10 0 s else Some (0, s));
       if ret \<noteq> 0 then Some (ret, p, s)
       else do {
         (p, s) \<leftarrow> get_version p s;
         (c, s) \<leftarrow> set_client QMUX_TYPE_WDS QMUX_TYPE_WDS s;
         (c, s) \<leftarrow> (if enable_ipv6 p then set_client QMUX_TYPE_WDS_IPV6 QMUX_TYPE_WDS s else Some (c, s));
         (c, s) \<leftarrow> set_client QMUX_TYPE_DMS QMUX_TYPE_DMS s;
         (c, s) \<leftarrow> set_client QMUX_TYPE_NAS QMUX_TYPE_NAS s;
         (c, s) \<leftarrow> set_client QMUX_TYPE_UIM QMUX_TYPE_UIM s;
         (c, s) \<leftarrow> set_client QMUX_TYPE_WDS_ADMIN QMUX_TYPE_WDS_ADMIN s;
         Some (0, p\<lparr>wda_client := uint c\<rparr>, s)
       }
     }
   }"

text \<open>\<open>QmiWwanDeInit\<close>: release the client number of every slot in use.\<close>

fun deinit_loop :: "nat \<Rightarrow> nat \<Rightarrow> qmi \<Rightarrow> qmi option" where
  "deinit_loop i 0 s = Some s"
| "deinit_loop i (Suc n) s = do {
     c \<leftarrow> rd8 (qmiclientId s) i;
     s \<leftarrow> (if c \<noteq> 0 then do {
             (ret, s) \<leftarrow> QmiWwanReleaseClientID (of_nat i) c s;
             Some (s\<lparr>qmiclientId := (qmiclientId s)[i := 0]\<rparr>)
           }
           else Some s);
     deinit_loop (Suc i) n s
   }"

definition QmiWwanDeInit :: "qmi \<Rightarrow> (int \<times> qmi) option" where
  "QmiWwanDeInit s = do { s \<leftarrow> deinit_loop 0 QMUX_TYPE_ALL s; Some (0, s) }"

section \<open>The reader thread\<close>

text \<open>
  \<open>QmiWwanThread\<close> after the device is open: one step per wake-up of \<open>poll\<close> with one ready
  descriptor. The receive buffer keeps what an earlier, longer message left behind. A step says
  what \<open>QmiThreadRecvQMI\<close> is called with and whether the thread quits.
\<close>

datatype wakeup =
    PollTimeout | PollFail | PollHup
  | ControlEvent int
  | DeviceRead "byte list"

record reader =
  wait_for_request_quit :: bool
  cm_recv_buf :: "byte list"

definition RIL_REQUEST_QUIT :: int where "RIL_REQUEST_QUIT = 0x1000"
definition RIL_INDICATE_DEVICE_CONNECTED :: int where "RIL_INDICATE_DEVICE_CONNECTED = 0x1002"
definition RIL_INDICATE_DEVICE_DISCONNECTED :: int where "RIL_INDICATE_DEVICE_DISCONNECTED = 0x1003"
definition SIG_EVENT_START :: int where "SIG_EVENT_START = 0"
definition SIG_EVENT_CHECK :: int where "SIG_EVENT_CHECK = 1"
definition SIG_EVENT_STOP :: int where "SIG_EVENT_STOP = 2"

fun QmiWwanThread_step :: "wakeup \<Rightarrow> reader \<Rightarrow> (byte list option option \<times> bool \<times> reader) option" where
  "QmiWwanThread_step PollTimeout r = Some (if wait_for_request_quit r then (Some None, False, r) else (None, True, r))"
| "QmiWwanThread_step PollFail r = Some (None, True, r)"
| "QmiWwanThread_step PollHup r = Some (None, True, r)"
| "QmiWwanThread_step (ControlEvent e) r =
     Some (None, e = RIL_REQUEST_QUIT, if e = SIG_EVENT_STOP then r\<lparr>wait_for_request_quit := True\<rparr> else r)"
| "QmiWwanThread_step (DeviceRead d) r =
     (if d = [] then Some (None, False, r)
      else let buf = d @ drop (length d) (cm_recv_buf r); r' = r\<lparr>cm_recv_buf := buf\<rparr> in do {
        l \<leftarrow> rd16 buf 1;
        Some (if length d = unat l + 1 then Some (Some buf) else None, False, r')
      })"

text \<open>What leaving the loop does.\<close>

definition QmiWwanThread_quit :: "qmi \<Rightarrow> (bool \<times> qmi) option" where
  "QmiWwanThread_quit s = QmiThreadRecvQMI None (s\<lparr>cdc_wdm := False, to_main := to_main s @ [MainEvent RIL_INDICATE_DEVICE_DISCONNECTED]\<rparr>)"

section \<open>Waiting for the answer\<close>

text \<open>A buffer the reader thread hands over: the whole receive buffer, the message at its start.\<close>

definition recv_buf :: "byte list \<Rightarrow> bool" where
  "recv_buf b \<longleftrightarrow> length b = 4096 \<and> (\<exists>l. rd16 b 1 = Some l \<and> unat l < 4096)"

definition message :: "byte list \<Rightarrow> byte list" where
  "message b = take (unat (the (rd16 b 1)) + 1) b"

lemma reader_hands_over_messages:
  assumes "QmiWwanThread_step w r = Some (Some (Some b), q, r')" "length (cm_recv_buf r) = 4096" "\<And>d. w = DeviceRead d \<Longrightarrow> length d \<le> 4096"
  shows "recv_buf b \<and> w = DeviceRead (message b)"
proof (cases w)
  case (DeviceRead d)
  let ?buf = "d @ drop (length d) (cm_recv_buf r)"
  have b: "b = ?buf" "\<exists>l. rd16 ?buf 1 = Some l \<and> length d = unat l + 1" and len: "length ?buf = 4096"
    using assms DeviceRead by (auto simp: bind_eq_Some_conv Let_def split: if_splits)
  then obtain l where l: "rd16 ?buf 1 = Some l" "length d = unat l + 1" by blast
  then have "message b = d" unfolding b(1) message_def by simp
  moreover have "recv_buf b" using l len assms(3) [OF DeviceRead] b(1) by (auto simp: recv_buf_def)
  ultimately show ?thesis using DeviceRead by simp
qed (use assms in \<open>auto split: if_splits\<close>)

fun others :: "byte list \<Rightarrow> byte list list \<Rightarrow> byte list list" where
  "others rq [] = []"
| "others rq (b # bs) = (if is_response rq b = Some True then bs else b # others rq bs)"

definition answer :: "byte list \<Rightarrow> byte list list \<Rightarrow> byte list option" where
  "answer rq ms = find (\<lambda>b. is_response rq b = Some True) ms"

lemma answer_simps [simp]:
  "answer rq [] = None"
  "answer rq (b # bs) = (if is_response rq b = Some True then Some b else answer rq bs)"
  by (simp_all add: answer_def)

lemma rd8_recv: "recv_buf b \<Longrightarrow> i < 4096 \<Longrightarrow> rd8 b i = Some (b ! i)"
  by (simp add: recv_buf_def rd8_def)

lemma rd16_recv: "recv_buf b \<Longrightarrow> i < 4095 \<Longrightarrow> \<exists>w. rd16 b i = Some w"
  by (simp add: rd16_def rd8_recv)

lemma indication_total:
  assumes "recv_buf b"
  shows "\<exists>ev. indication b = Some ev"
proof -
  have "length b = 4096" using assms by (simp add: recv_buf_def)
  then have "indication b \<noteq> None" by (simp add: indication_def m_QMIType_def m_CtlType_def m_Type_def rd16_def rd8_def rdn_def)
  then show ?thesis by auto
qed

lemma rdn_message: "recv_buf b \<Longrightarrow> \<exists>l. rd16 b 1 = Some l \<and> rdn b 0 (unat l + 1) = Some (message b)"
  by (auto simp: recv_buf_def rdn_def message_def)

lemma is_response_total:
  assumes "recv_buf b" "9 \<le> length rq"
  shows "\<exists>r. is_response rq b = Some r"
proof -
  have "length b = 4096" using assms(1) by (simp add: recv_buf_def)
  then have "is_response rq b \<noteq> None"
    using assms(2) by (simp add: is_response_def m_QMIType_def m_ClientId_def m_CtlTid_def m_MuxTid_def rd16_def rd8_def) blast
  then show ?thesis by auto
qed

lemma recv_idle:
  "list_all recv_buf ms \<Longrightarrow> s_pRequest s = None \<Longrightarrow>
   recv_all (map Some ms) sig s = Some (sig, s\<lparr>to_main := to_main s @ concat (map (\<lambda>b. the (indication b)) ms)\<rparr>)"
proof (induction ms arbitrary: s)
  case (Cons b ms)
  then obtain ev where "indication b = Some ev" using indication_total by auto
  then show ?case using Cons by (simp add: QmiThreadRecvQMI_def)
qed simp

lemma recv_pending:
  "list_all recv_buf ms \<Longrightarrow> s_pRequest s = Some rq \<Longrightarrow> 9 \<le> length rq \<Longrightarrow>
   recv_all (map Some ms) sig s =
     (let ev = concat (map (\<lambda>b. the (indication b)) (others rq ms)) in
      Some (case answer rq ms of
        None \<Rightarrow> (sig, s\<lparr>to_main := to_main s @ ev\<rparr>)
      | Some b \<Rightarrow> (True, s\<lparr>s_pRequest := None, s_pResponse := Some (message b), to_main := to_main s @ ev\<rparr>)))"
proof (induction ms arbitrary: s)
  case Nil
  then show ?case by simp
next
  case (Cons b ms)
  then obtain r where r: "is_response rq b = Some r" using is_response_total [of b rq] by auto
  show ?case
  proof (cases r)
    case True
    then show ?thesis
      using Cons.prems r rdn_message [of b] recv_idle [of ms "s\<lparr>s_pRequest := None, s_pResponse := Some (message b)\<rparr>"]
      by (auto simp: QmiThreadRecvQMI_def)
  next
    case False
    moreover obtain ev where "indication b = Some ev" using Cons.prems indication_total by auto
    ultimately show ?thesis using Cons r by (simp add: QmiThreadRecvQMI_def Let_def split: option.split)
  qed
qed

text \<open>The request as it goes out, and when it can.\<close>

definition addressed :: "qmi \<Rightarrow> byte list \<Rightarrow> byte list" where
  "addressed s req =
     (if req ! 4 = QMUX_TYPE_CTL then req
      else let req' = req[5 := qmiclientId s ! unat (req ! 4)] in
        if req ! 4 = QMUX_TYPE_WDS_IPV6 then req'[4 := QMUX_TYPE_WDS] else req')"

definition can_send :: "qmi \<Rightarrow> byte list \<Rightarrow> bool" where
  "can_send s req \<longleftrightarrow> cdc_wdm s \<and> 9 \<le> length req \<and>
     (req ! 4 = QMUX_TYPE_CTL \<or> unat (req ! 4) < length (qmiclientId s) \<and> qmiclientId s ! unat (req ! 4) \<noteq> 0)"

definition accepted :: "byte list \<Rightarrow> byte list option list \<Rightarrow> exchange" where
  "accepted req rs = \<lparr>x_poll = 1, x_pollout = True, x_write = int (length req), x_recv = rs\<rparr>"

definition answered :: "byte list \<Rightarrow> byte list list \<Rightarrow> exchange" where
  "answered req ms = accepted req (map Some ms)"

lemma length_addressed [simp]: "length (addressed s req) = length req"
  by (simp add: addressed_def Let_def)

lemma addressed_cong: "qmiclientId t = qmiclientId s \<Longrightarrow> addressed t req = addressed s req"
  by (simp add: addressed_def)

lemma QmiWwanSendQMI_ok:
  assumes "can_send s req" "exchanges s = accepted req rs # xs"
  shows "QmiWwanSendQMI req s = Some (0, addressed s req,
     s\<lparr>exchanges := xs, incoming := rs, to_device := to_device s @ [addressed s req]\<rparr>)"
proof -
  have w: "wdm_write r s = (0, s\<lparr>exchanges := xs, incoming := rs, to_device := to_device s @ [r]\<rparr>)"
    if "length r = length req" for r
    using assms(2) that by (simp add: wdm_write_def next_exchange_def accepted_def)
  have t: "cdc_wdm s" "m_QMIType req = Some (req ! 4)" using assms(1) by (simp_all add: can_send_def m_QMIType_def rd8_def)
  show ?thesis
  proof (cases "req ! 4 = QMUX_TYPE_CTL")
    case True
    then show ?thesis using t w by (simp add: QmiWwanSendQMI_def addressed_def)
  next
    case False
    then have "rd8 (qmiclientId s) (unat (req ! 4)) = Some (qmiclientId s ! unat (req ! 4))" "qmiclientId s ! unat (req ! 4) \<noteq> 0"
      using assms(1) by (simp_all add: can_send_def rd8_def)
    then show ?thesis using False t w by (simp add: QmiWwanSendQMI_def addressed_def Let_def)
  qed
qed

text \<open>The outcome of an accepted request, in full.\<close>

lemma send_outcome:
  assumes "can_send s req" "exchanges s = answered req ms # xs" "list_all recv_buf ms"
  shows "QmiThreadSendQMITimeout want req s =
     (let rq = addressed s req; a = answer rq ms in
      Some (if a = None then ETIMEDOUT else 0, if want then map_option message a else None,
        s\<lparr>s_pRequest := (if a = None then Some rq else None), s_pResponse := (if want then map_option message a else None),
          exchanges := xs, incoming := map Some ms, to_device := to_device s @ [rq],
          to_main := to_main s @ concat (map (\<lambda>b. the (indication b)) (others rq ms))\<rparr>))"
proof -
  let ?s = "s\<lparr>s_pRequest := Some req, s_pResponse := None, incoming := []\<rparr>" and ?rq = "addressed s req"
  have "QmiWwanSendQMI req ?s = Some (0, ?rq, ?s\<lparr>exchanges := xs, incoming := map Some ms, to_device := to_device s @ [?rq]\<rparr>)"
    using QmiWwanSendQMI_ok [of ?s req "map Some ms" xs] assms(1,2) by (simp add: can_send_def addressed_cong [of ?s s] answered_def)
  moreover have "9 \<le> length ?rq" using assms(1) by (simp add: can_send_def)
  ultimately show ?thesis
    using assms(3) by (cases "answer ?rq ms") (simp_all add: QmiThreadSendQMITimeout_def recv_pending Let_def)
qed

section \<open>Transaction numbers\<close>

lemma mux_tid_step: "0 \<le> t \<Longrightarrow> t \<le> 65535 \<Longrightarrow> GetQMUXTransactionId t = t mod 65535 + 1"
  by (cases "t = 65535") (auto simp: GetQMUXTransactionId_def)

lemma mux_tid_iter:
  assumes "0 \<le> t" "t \<le> 65535"
  shows "(GetQMUXTransactionId ^^ Suc n) t = (t + int n) mod 65535 + 1"
proof (induction n)
  case 0
  then show ?case using assms by (simp add: mux_tid_step)
next
  case (Suc n)
  let ?m = "(t + int n) mod 65535"
  have "0 \<le> ?m + 1" "?m + 1 \<le> 65535" using pos_mod_bound [of 65535 "t + int n"] by simp_all
  then have "(GetQMUXTransactionId ^^ Suc (Suc n)) t = (?m + 1) mod 65535 + 1"
    using Suc.IH by (simp add: mux_tid_step)
  then show ?case by (simp add: mod_simps add.commute add.left_commute)
qed

lemma mux_tid_distinct:
  assumes "0 \<le> t" "t \<le> 65535" "0 < i" "i < j" "j < i + 65535"
  shows "(word_of_int ((GetQMUXTransactionId ^^ i) t) :: u16) \<noteq> word_of_int ((GetQMUXTransactionId ^^ j) t)"
proof
  obtain a b where ab: "i = Suc a" "j = Suc b" using assms(3,4) by (metis Suc_pred less_trans)
  let ?x = "(t + int a) mod 65535" and ?y = "(t + int b) mod 65535"
  assume "(word_of_int ((GetQMUXTransactionId ^^ i) t) :: u16) = word_of_int ((GetQMUXTransactionId ^^ j) t)"
  then have "(?x + 1) mod 65536 = (?y + 1) mod 65536"
    unfolding ab mux_tid_iter [OF assms(1,2)] by (simp add: word_of_int_eq_iff take_bit_eq_mod)
  moreover have "(?x + 1) mod 65536 = ?x + 1" "(?y + 1) mod 65536 = ?y + 1"
    using pos_mod_bound [of 65535 "t + int a"] pos_mod_bound [of 65535 "t + int b"] by (intro mod_pos_pos_trivial; simp)+
  ultimately have "?x = ?y" by simp
  then have "65535 dvd (t + int b) - (t + int a)" by (metis mod_eq_dvd_iff)
  then have "65535 dvd int (b - a)" using assms(4) ab by (simp add: of_nat_diff)
  then have "65535 dvd b - a" by (metis int_dvd_int_iff of_nat_numeral)
  then show False using assms(4,5) ab by (auto dest: dvd_imp_le)
qed

lemma addressed_tid: "m_MuxTid (addressed s req) = m_MuxTid req"
  by (simp add: addressed_def m_MuxTid_def rd16_def rd8_def Let_def)

lemma is_response_same_tid:
  assumes "is_response (addressed s req) b = Some True" "req ! 4 \<noteq> QMUX_TYPE_CTL" "5 < length req"
  shows "m_MuxTid b = m_MuxTid req"
proof -
  have "m_QMIType (addressed s req) \<noteq> Some 0"
    using assms(2,3) by (simp add: addressed_def m_QMIType_def rd8_def Let_def qmux_types)
  then show ?thesis
    using assms(1) addressed_tid [of s req]
    by (auto simp: is_response_def bind_eq_Some_conv split: if_splits)
qed

section \<open>Any device\<close>

text \<open>
  The invariant of the static variables, for a device of which only the size of the receive
  buffer is known.
\<close>

definition recv_call :: "byte list option \<Rightarrow> bool" where
  "recv_call r = (case r of None \<Rightarrow> True | Some b \<Rightarrow> recv_buf b)"

definition request_ok :: "byte list \<Rightarrow> bool" where
  "request_ok req \<longleftrightarrow> 9 \<le> length req \<and> req ! 4 \<noteq> 0xFF"

definition qmi_ok :: "qmi \<Rightarrow> bool" where
  "qmi_ok s \<longleftrightarrow> length (qmiclientId s) = QMUX_TYPE_ALL \<and>
     0 \<le> QMUXTransactionId s \<and> QMUXTransactionId s \<le> 0xFFFF \<and> 0 \<le> QCTLTransactionId s \<and> QCTLTransactionId s \<le> 0xFF \<and>
     list_all (\<lambda>x. list_all recv_call (x_recv x)) (exchanges s) \<and> pred_option (\<lambda>r. 9 \<le> length r) (s_pRequest s)"

text \<open>The variables the transport leaves alone.\<close>

definition core :: "qmi \<Rightarrow> bool \<times> byte list \<times> int \<times> int \<times> u32 \<times> u32 \<times> bool \<times> u32 \<times> int \<times> bool \<times> u32 \<times> QMAP_SETTING list" where
  "core s = (cdc_wdm s, qmiclientId s, QMUXTransactionId s, QCTLTransactionId s, WdsConnectionIPv4Handle s, WdsConnectionIPv6Handle s,
     s_is_cdma s, s_5g_type s, s_hdr_personality s, s_9x07 s, qmap_version s, to_driver s)"

lemma recv_total:
  assumes "recv_call r" "pred_option (\<lambda>q. 9 \<le> length q) (s_pRequest s)"
  shows "\<exists>g s'. QmiThreadRecvQMI r s = Some (g, s') \<and> core s' = core s \<and> exchanges s' = exchanges s \<and> s_pRequest s' \<in> {s_pRequest s, None}"
proof (cases r)
  case None
  then show ?thesis by (cases "s_pRequest s") (auto simp: QmiThreadRecvQMI_def core_def)
next
  case (Some b)
  then have b: "recv_buf b" using assms(1) by (simp add: recv_call_def)
  obtain ev where ev: "indication b = Some ev" using indication_total [OF b] by blast
  obtain l where l: "rd16 b 1 = Some l" "rdn b 0 (unat l + 1) = Some (message b)" using rdn_message [OF b] by blast
  show ?thesis
  proof (cases "s_pRequest s")
    case None
    then show ?thesis using Some ev by (auto simp: QmiThreadRecvQMI_def core_def)
  next
    fix rq assume rq: "s_pRequest s = Some rq"
    then obtain m where "is_response rq b = Some m" using is_response_total [OF b, of rq] assms(2) by auto
    then show ?thesis using Some rq ev l by (cases m) (auto simp: QmiThreadRecvQMI_def core_def)
  qed
qed

lemma recv_all_total:
  "list_all recv_call rs \<Longrightarrow> pred_option (\<lambda>q. 9 \<le> length q) (s_pRequest s) \<Longrightarrow>
   \<exists>g s'. recv_all rs sig s = Some (g, s') \<and> core s' = core s \<and> exchanges s' = exchanges s \<and> s_pRequest s' \<in> {s_pRequest s, None}"
proof (induction rs arbitrary: sig s)
  case (Cons r rs)
  then obtain g s' where s': "QmiThreadRecvQMI r s = Some (g, s')" "core s' = core s" "exchanges s' = exchanges s" "s_pRequest s' \<in> {s_pRequest s, None}"
    using recv_total [of r s] by auto
  then have "pred_option (\<lambda>q. 9 \<le> length q) (s_pRequest s')" using Cons.prems(2) by auto
  with Cons.IH [of s' "sig \<or> g"] Cons.prems(1) s' show ?case by fastforce
qed simp

lemma wdm_write_frame:
  "wdm_write req s = (ret, s') \<Longrightarrow> core s' = core s \<and> s_pRequest s' = s_pRequest s \<and> exchanges s' = tl (exchanges s) \<and>
     incoming s' = (case exchanges s of [] \<Rightarrow> [] | x # _ \<Rightarrow> x_recv x)"
  by (auto simp: wdm_write_def next_exchange_def silent_def core_def Let_def split: if_splits list.splits)

lemma QmiWwanSendQMI_total:
  assumes "length (qmiclientId s) = QMUX_TYPE_ALL" "request_ok req"
  shows "\<exists>ret req' s'. QmiWwanSendQMI req s = Some (ret, req', s') \<and> length req' = length req \<and>
    core s' = core s \<and> s_pRequest s' = s_pRequest s \<and>
    (exchanges s' = exchanges s \<and> incoming s' = incoming s \<or>
     exchanges s' = tl (exchanges s) \<and> incoming s' = (case exchanges s of [] \<Rightarrow> [] | x # _ \<Rightarrow> x_recv x))"
proof (cases "cdc_wdm s")
  case False
  then show ?thesis by (simp add: QmiWwanSendQMI_def)
next
  case True
  let ?t = "req ! 4"
  have t: "m_QMIType req = Some ?t" using assms(2) by (simp add: request_ok_def m_QMIType_def rd8_def)
  have "unat ?t \<noteq> unat (0xFF :: byte)" using assms(2) by (simp only: request_ok_def word_unat_eq_iff) simp
  then have "unat ?t < 255" using unat_byte_less [of ?t] by (simp del: unat_byte_less)
  then have c: "rd8 (qmiclientId s) (unat ?t) = Some (qmiclientId s ! unat ?t)" using assms(1) by (simp add: rd8_def QMUX_TYPE_ALL_def)
  have w: "\<exists>ret s'. wdm_write r s = (ret, s') \<and> core s' = core s \<and> s_pRequest s' = s_pRequest s \<and> exchanges s' = tl (exchanges s) \<and>
      incoming s' = (case exchanges s of [] \<Rightarrow> [] | x # _ \<Rightarrow> x_recv x)" for r
    using wdm_write_frame [of r s] by (cases "wdm_write r s") simp
  show ?thesis
  proof (cases "?t = QMUX_TYPE_CTL")
    assume ctl: "?t = QMUX_TYPE_CTL"
    show ?thesis using w [of req] True t ctl by (auto simp: QmiWwanSendQMI_def)
  next
    assume svc: "?t \<noteq> QMUX_TYPE_CTL"
    let ?r = "let r = req[5 := qmiclientId s ! unat ?t] in if ?t = QMUX_TYPE_WDS_IPV6 then r[4 := QMUX_TYPE_WDS] else r"
    have "length ?r = length req" by (simp add: Let_def)
    then show ?thesis using w [of ?r] True t svc c
      by (cases "qmiclientId s ! unat ?t = 0") (auto simp: QmiWwanSendQMI_def Let_def)
  qed
qed

lemma send_total:
  assumes "qmi_ok s" "request_ok req"
  shows "\<exists>ret rsp s'. QmiThreadSendQMITimeout want req s = Some (ret, rsp, s') \<and> qmi_ok s' \<and> core s' = core s"
proof -
  let ?s = "s\<lparr>s_pRequest := Some req, s_pResponse := None, incoming := []\<rparr>"
  obtain ret req' s1 where s1: "QmiWwanSendQMI req ?s = Some (ret, req', s1)" "length req' = length req" "core s1 = core ?s"
      "exchanges s1 = exchanges s \<and> incoming s1 = [] \<or>
       exchanges s1 = tl (exchanges s) \<and> incoming s1 = (case exchanges s of [] \<Rightarrow> [] | x # _ \<Rightarrow> x_recv x)"
    using QmiWwanSendQMI_total [of ?s req] assms by (auto simp: qmi_ok_def)
  have inc: "list_all recv_call (incoming s1)" and ex: "list_all (\<lambda>x. list_all recv_call (x_recv x)) (exchanges s1)"
    using s1(4) assms(1) by (auto simp: qmi_ok_def split: list.splits)
  have "9 \<le> length req'" using s1(2) assms(2) by (simp add: request_ok_def)
  then obtain g s2 where s2: "recv_all (incoming s1) False (s1\<lparr>s_pRequest := Some req'\<rparr>) = Some (g, s2)" "core s2 = core s1"
      "exchanges s2 = exchanges s1" "s_pRequest s2 \<in> {Some req', None}"
    using recv_all_total [OF inc, of "s1\<lparr>s_pRequest := Some req'\<rparr>" False] by (auto simp: core_def)
  have c: "core s2 = core s" using s1(3) s2(2) by (simp add: core_def)
  have "qmi_ok s2" using assms(1) c ex s2(3,4) \<open>9 \<le> length req'\<close> by (auto simp: qmi_ok_def core_def)
  then show ?thesis using s1(1) s2(1) c by (auto simp: QmiThreadSendQMITimeout_def core_def qmi_ok_def)
qed

lemma compose_request_ok: "ComposeQMUXMsg svc ty b tid = Some req \<Longrightarrow> svc \<noteq> 0xFF \<Longrightarrow> request_ok req \<and> req ! 4 = svc"
  by (auto simp: ComposeQMUXMsg_def request_ok_def le16_bytes_def Let_def split: if_splits)

lemma compose_ctl_ok:
  assumes "length (tlvs_bytes (fst b)) + snd b \<le> 244" "qmi_ok s"
  shows "\<exists>m s'. compose_ctl ty b s = Some (m, s') \<and> request_ok m \<and> qmi_ok s' \<and> qmiclientId s' = qmiclientId s"
  using assms
  by (simp add: compose_ctl_def ComposeQCTLMsg_def WDM_DEFAULT_BUFSIZE_def Let_def request_ok_def le16_bytes_def qmi_ok_def GetQCTLTransactionId_def)

lemma release_total:
  assumes "qmi_ok s"
  shows "\<exists>s'. QmiWwanReleaseClientID ty cid s = Some (0, s') \<and> qmi_ok s' \<and> qmiclientId s' = qmiclientId s"
proof -
  have "length (tlvs_bytes (fst (CtlReleaseClientIdReq ty cid))) + snd (CtlReleaseClientIdReq ty cid) \<le> 244"
    by (simp add: CtlReleaseClientIdReq_def)
  from compose_ctl_ok [OF this assms, of "0x0023"] obtain m s1 where
    m: "compose_ctl 0x0023 (CtlReleaseClientIdReq ty cid) s = Some (m, s1)" "request_ok m" "qmi_ok s1" "qmiclientId s1 = qmiclientId s"
    by auto
  from send_total [OF m(3,2), of False] m show ?thesis by (auto simp: QmiWwanReleaseClientID_def core_def)
qed

lemma deinit_loop_total:
  "qmi_ok s \<Longrightarrow> i + n = QMUX_TYPE_ALL \<Longrightarrow>
   \<exists>s'. deinit_loop i n s = Some s' \<and> qmi_ok s' \<and> qmiclientId s' = take i (qmiclientId s) @ replicate n 0"
proof (induction n arbitrary: i s)
  case 0
  then show ?case by (auto simp: qmi_ok_def)
next
  case (Suc n)
  have i: "i < length (qmiclientId s)" using Suc.prems by (simp add: qmi_ok_def)
  have "\<exists>t. (if qmiclientId s ! i \<noteq> 0 then do { (ret, s) \<leftarrow> QmiWwanReleaseClientID (of_nat i) (qmiclientId s ! i) s;
             Some (s\<lparr>qmiclientId := (qmiclientId s)[i := 0]\<rparr>) } else Some s) = Some t \<and>
      qmi_ok t \<and> qmiclientId t = (qmiclientId s)[i := 0]"
  proof (cases "qmiclientId s ! i = 0")
    case True
    then show ?thesis using Suc.prems(1) list_update_id [of "qmiclientId s" i] by simp
  next
    case False
    then show ?thesis using release_total [OF Suc.prems(1), of "of_nat i" "qmiclientId s ! i"] by (auto simp: qmi_ok_def)
  qed
  then obtain t where t: "(if qmiclientId s ! i \<noteq> 0 then do { (ret, s) \<leftarrow> QmiWwanReleaseClientID (of_nat i) (qmiclientId s ! i) s;
             Some (s\<lparr>qmiclientId := (qmiclientId s)[i := 0]\<rparr>) } else Some s) = Some t" "qmi_ok t" "qmiclientId t = (qmiclientId s)[i := 0]"
    by blast
  have "deinit_loop i (Suc n) s = deinit_loop (Suc i) n t" using t(1) i by (auto simp: rd8_def split: if_splits)
  moreover obtain s' where "deinit_loop (Suc i) n t = Some s'" "qmi_ok s'" "qmiclientId s' = take (Suc i) (qmiclientId t) @ replicate n 0"
    using Suc.IH [OF t(2), of "Suc i"] Suc.prems(2) by auto
  ultimately show ?case using t(3) i by (auto simp: take_Suc_conv_app_nth)
qed

text \<open>The fields that are compared, byte by byte: a control message has a transaction number of one byte.\<close>

lemma is_response_bytes:
  assumes "recv_buf b" "9 \<le> length rq"
  shows "is_response rq b = Some (b ! 4 = rq ! 4 \<and> b ! 5 = rq ! 5 \<and> b ! 7 = rq ! 7 \<and> (rq ! 4 = 0 \<or> b ! 8 = rq ! 8))"
proof -
  have "9 \<le> length b" using assms(1) by (simp add: recv_buf_def)
  then show ?thesis
    using assms(2) by (auto simp: le16_of_inject is_response_def m_QMIType_def m_ClientId_def m_CtlTid_def m_MuxTid_def rd16_def rd8_def)
qed

lemma addressed_response:
  assumes "can_send s req" "recv_buf b"
  shows "is_response (addressed s req) b = Some (b ! 4 = addressed s req ! 4 \<and> b ! 5 = addressed s req ! 5 \<and>
     b ! 7 = addressed s req ! 7 \<and> (req ! 4 = 0 \<or> b ! 8 = addressed s req ! 8))"
proof -
  have l: "9 \<le> length (addressed s req)" using assms(1) by (simp add: can_send_def addressed_def Let_def)
  have "addressed s req ! 4 = 0 \<longleftrightarrow> req ! 4 = 0"
    using assms(1) by (auto simp: can_send_def addressed_def Let_def qmux_types)
  with is_response_bytes [OF assms(2) l] show ?thesis by simp
qed

section \<open>Properties\<close>

text \<open>
  C8. A request that the device accepts is answered by the first message of the wait that has
  its service, client number and transaction number, compared byte by byte; the caller gets
  exactly that message.
  Every other message of the wait is treated as an indication, none is lost to the request.
  Without an answer the call times out.
\<close>

theorem send_returns_first_answer:
  assumes "can_send s req" "exchanges s = answered req ms # xs" "list_all recv_buf ms"
  shows "\<exists>s'. QmiThreadSendQMITimeout True req s =
      Some (case answer (addressed s req) ms of None \<Rightarrow> (ETIMEDOUT, None, s') | Some b \<Rightarrow> (0, Some (message b), s')) \<and>
     to_device s' = to_device s @ [addressed s req] \<and> exchanges s' = xs \<and>
     to_main s' = to_main s @ concat (map (\<lambda>b. the (indication b)) (others (addressed s req) ms)) \<and>
     core s' = core s \<and>
     (\<forall>b \<in> set ms. is_response (addressed s req) b = Some (b ! 4 = addressed s req ! 4 \<and> b ! 5 = addressed s req ! 5 \<and>
        b ! 7 = addressed s req ! 7 \<and> (req ! 4 = 0 \<or> b ! 8 = addressed s req ! 8)))"
proof -
  have m: "\<forall>b \<in> set ms. is_response (addressed s req) b = Some (b ! 4 = addressed s req ! 4 \<and> b ! 5 = addressed s req ! 5 \<and>
        b ! 7 = addressed s req ! 7 \<and> (req ! 4 = 0 \<or> b ! 8 = addressed s req ! 8))"
    using addressed_response [OF assms(1)] assms(3) by (simp add: list_all_iff)
  show ?thesis
    unfolding send_outcome [OF assms] Let_def
    by (cases "answer (addressed s req) ms") (simp_all add: core_def m)
qed

text \<open>A state with one client, and a receive buffer with an answer for it.\<close>

definition sample_qmi :: "exchange list \<Rightarrow> qmi" where
  "sample_qmi xs = \<lparr>cdc_wdm = True, qmiclientId = (replicate 255 0)[1 := 7], QMUXTransactionId = 6, QCTLTransactionId = 0,
     s_pRequest = None, s_pResponse = None, WdsConnectionIPv4Handle = 0, WdsConnectionIPv6Handle = 0, s_is_cdma = False, s_5g_type = 0,
     s_hdr_personality = 0, s_9x07 = True, qmap_version = 5, to_device = [], to_main = [], to_driver = [], exchanges = xs, incoming = []\<rparr>"

lemma sample_qmi_simps [simp]:
  "exchanges (sample_qmi xs) = xs" "to_device (sample_qmi xs) = []" "to_main (sample_qmi xs) = []"
  by (simp_all add: sample_qmi_def)

definition pad_buf :: "byte list \<Rightarrow> byte list" where
  "pad_buf m = m @ replicate (4096 - length m) 0"

lemma recv_buf_pad: "length m \<le> 4096 \<Longrightarrow> 3 \<le> length m \<Longrightarrow> rd16 m 1 = Some l \<Longrightarrow> unat l < 4096 \<Longrightarrow> recv_buf (pad_buf m)"
  by (simp add: recv_buf_def pad_buf_def rd16_def rd8_def nth_append)

text \<open>The answer to the start request: result and error 0, the handle of the data call.\<close>

definition sample_answer :: "byte list" where
  "sample_answer = [0x01, 0x1A, 0x00, 0x80, 0x01, 0x07, 0x02, 0x07, 0x00, 0x20, 0x00, 0x0E, 0x00,
     0x02, 0x04, 0x00, 0x00, 0x00, 0x00, 0x00, 0x01, 0x04, 0x00, 0x44, 0x33, 0x22, 0x11]"

lemma sample_answer_buf: "recv_buf (pad_buf sample_answer)"
proof (rule recv_buf_pad)
  show "length sample_answer \<le> 4096" "3 \<le> length sample_answer" by (simp_all add: sample_answer_def)
  show "rd16 sample_answer 1 = Some 0x1A" by code_simp
qed simp

lemma sample_can_send: "can_send (sample_qmi xs) sample_start"
  by (simp add: can_send_def sample_qmi_def sample_start_def qmux_types)

lemma sample_addressed: "addressed (sample_qmi xs) sample_start = sample_start[5 := 7]"
  by (simp add: addressed_def sample_qmi_def sample_start_def qmux_types)

lemma is_response_pad:
  assumes "9 \<le> length m"
  shows "is_response rq (pad_buf m) = is_response rq m"
proof -
  have "m_QMIType (pad_buf m) = m_QMIType m" "m_ClientId (pad_buf m) = m_ClientId m" "m_CtlTid (pad_buf m) = m_CtlTid m"
      "m_MuxTid (pad_buf m) = m_MuxTid m"
    using assms by (simp_all add: pad_buf_def m_QMIType_def m_ClientId_def m_CtlTid_def m_MuxTid_def rd16_def rd8_prefix)
  then show ?thesis by (simp only: is_response_def)
qed

lemma sample_is_answer: "is_response (sample_start[5 := 7]) (pad_buf sample_answer) = Some True"
proof -
  have "9 \<le> length sample_answer" by (simp add: sample_answer_def)
  moreover have "is_response (sample_start[5 := 7]) sample_answer = Some True" by code_simp
  ultimately show ?thesis by (simp add: is_response_pad)
qed

lemma send_returns_first_answer_witness:
  "\<exists>s'. QmiThreadSendQMITimeout True sample_start (sample_qmi [answered sample_start [pad_buf sample_answer]])
     = Some (0, Some (message (pad_buf sample_answer)), s') \<and> to_device s' = [sample_start[5 := 7]]"
proof -
  let ?s = "sample_qmi [answered sample_start [pad_buf sample_answer]]"
  have "exchanges ?s = answered sample_start [pad_buf sample_answer] # []" by (simp add: sample_qmi_def)
  from send_returns_first_answer [OF sample_can_send this] sample_answer_buf
  show ?thesis by (auto simp: sample_addressed sample_is_answer)
qed

text \<open>
  An answer that arrives after its request timed out is never taken for the answer of a
  later request: transaction numbers of 65535 consecutive requests are different.
\<close>

theorem late_answer_ignored:
  assumes "0 \<le> t" "t \<le> 65535" "0 < i" "i < j" "j < i + 65535"
    and "ComposeQMUXMsg svc ty b ((GetQMUXTransactionId ^^ i) t) = Some r" "svc \<noteq> QMUX_TYPE_CTL"
    and "ComposeQMUXMsg svc' ty' b' ((GetQMUXTransactionId ^^ j) t) = Some r'" "svc' \<noteq> QMUX_TYPE_CTL"
    and "is_response (addressed s r) m = Some True"
  shows "is_response (addressed s' r') m \<noteq> Some True"
proof
  assume late: "is_response (addressed s' r') m = Some True"
  have shape: "x ! 4 = v \<and> 5 < length x \<and> m_MuxTid x = Some (word_of_int tid)"
    if "ComposeQMUXMsg v ty b tid = Some x" for x v ty b tid
  proof -
    have "length x = 13 + length (tlvs_bytes (fst b))" using that by (auto simp: ComposeQMUXMsg_def Let_def split: if_splits)
    then show ?thesis using compose_is_qmux_msg [OF that] by (auto simp: m_MuxTid_def rd8_def)
  qed
  have "m_MuxTid m = m_MuxTid r" "m_MuxTid m = m_MuxTid r'"
    using is_response_same_tid [OF assms(10)] is_response_same_tid [OF late] shape [OF assms(6)] shape [OF assms(8)] assms(7,9)
    by auto
  then show False using mux_tid_distinct [OF assms(1-5)] shape [OF assms(6)] shape [OF assms(8)] by simp
qed

lemma late_answer_ignored_witness:
  "is_response (addressed (sample_qmi []) sample_start) (pad_buf sample_answer) = Some True \<and>
   is_response (addressed (sample_qmi []) (sample_start[7 := 8])) (pad_buf sample_answer) \<noteq> Some True"
proof -
  have n: "(GetQMUXTransactionId ^^ 1) 6 = 7" "(GetQMUXTransactionId ^^ 2) 6 = 8" by code_simp+
  have c: "ComposeQMUXMsg 0x01 0x0020 (WdsStartNwInterfaceReq False sample_profile) 8 = Some (sample_start[7 := 8])" by code_simp
  have "is_response (addressed (sample_qmi []) (sample_start[7 := 8])) (pad_buf sample_answer) \<noteq> Some True"
    by (rule late_answer_ignored [of 6 1 2 "0x01" "0x0020" "WdsStartNwInterfaceReq False sample_profile" sample_start "0x01" "0x0020"
          "WdsStartNwInterfaceReq False sample_profile" _ "sample_qmi []"])
      (use n sample_start_composed c sample_is_answer in \<open>simp_all add: sample_addressed qmux_types\<close>)
  then show ?thesis by (simp add: sample_addressed sample_is_answer)
qed

text \<open>
  C26. Whatever the device does, sending a composed request is defined and keeps the variables of
  the transport well-formed: one client number per service, transaction numbers in range, a
  pending request long enough to be compared. A response is returned only with the result 0.
\<close>

theorem transport_type_safe:
  assumes "qmi_ok s" "ComposeQMUXMsg svc ty b tid = Some req" "svc \<noteq> 0xFF"
  shows "\<exists>ret rsp s'. QmiThreadSendQMITimeout want req s = Some (ret, rsp, s') \<and> qmi_ok s' \<and> core s' = core s \<and>
     (rsp \<noteq> None \<longrightarrow> want \<and> ret = 0)"
proof -
  have "request_ok req" using compose_request_ok [OF assms(2,3)] by simp
  from send_total [OF assms(1) this, of want] obtain ret rsp s' where
    r: "QmiThreadSendQMITimeout want req s = Some (ret, rsp, s')" "qmi_ok s'" "core s' = core s" by blast
  moreover have "rsp \<noteq> None \<longrightarrow> want \<and> ret = 0"
    using r(1) by (auto simp: QmiThreadSendQMITimeout_def bind_eq_Some_conv split: if_splits)
  ultimately show ?thesis by blast
qed

lemma sample_qmi_ok: "list_all (\<lambda>x. list_all recv_call (x_recv x)) xs \<Longrightarrow> qmi_ok (sample_qmi xs)"
  by (simp add: qmi_ok_def sample_qmi_def QMUX_TYPE_ALL_def)

lemma transport_type_safe_witness:
  "\<exists>ret rsp s'. QmiThreadSendQMITimeout True sample_start (sample_qmi [\<lparr>x_poll = 1, x_pollout = True, x_write = 33, x_recv = [None]\<rparr>])
     = Some (ret, rsp, s') \<and> qmi_ok s'"
proof -
  have "qmi_ok (sample_qmi [\<lparr>x_poll = 1, x_pollout = True, x_write = 33, x_recv = [None]\<rparr>])"
    by (rule sample_qmi_ok) (simp add: recv_call_def)
  from transport_type_safe [OF this sample_start_composed, of True] show ?thesis by auto
qed

text \<open>
  Closing the transport ends for every device and leaves no client number behind.
\<close>

theorem deinit_clears_clients:
  assumes "qmi_ok s"
  shows "\<exists>s'. QmiWwanDeInit s = Some (0, s') \<and> qmi_ok s' \<and> qmiclientId s' = replicate 255 0"
  using deinit_loop_total [OF assms, of 0 QMUX_TYPE_ALL] by (auto simp: QmiWwanDeInit_def QMUX_TYPE_ALL_def)

lemma deinit_clears_clients_witness:
  "qmiclientId (sample_qmi []) ! 1 = 7 \<and> (\<exists>s'. QmiWwanDeInit (sample_qmi []) = Some (0, s') \<and> qmiclientId s' = replicate 255 0)"
proof -
  have "qmi_ok (sample_qmi [])" by (rule sample_qmi_ok) simp
  from deinit_clears_clients [OF this] show ?thesis by (auto simp: sample_qmi_def)
qed

end
