(* ===== verification/QmiThread.thy ===== *)
theory QmiThread
  imports QmiWwan AtTok
begin

text \<open>
  The requests of the connection manager to the modem (\<open>quectel_cm_5G/src/QMIThread.c\<close>, the
  operations of \<open>qmi_request_ops\<close>): data format, SIM, registration, data calls, profiles. A
  request takes the profile and the static variables and returns the C result with the changed
  ones; \<open>None\<close> means an access outside of a message or array. Log output is left out, except
  where its arguments are what a function computes.
\<close>

section \<open>One request\<close>

definition m_Result :: "byte list \<Rightarrow> u16 option" where "m_Result m = rd16 m 16"
definition m_Error :: "byte list \<Rightarrow> u16 option" where "m_Error m = rd16 m 18"

definition compose :: "byte \<Rightarrow> u16 \<Rightarrow> body \<Rightarrow> qmi \<Rightarrow> (byte list \<times> qmi) option" where
  "compose svc ty b s =
     (let tid = GetQMUXTransactionId (QMUXTransactionId s) in
      do { m \<leftarrow> ComposeQMUXMsg svc ty b tid; Some (m, s\<lparr>QMUXTransactionId := tid\<rparr>) })"

definition request :: "byte \<Rightarrow> u16 \<Rightarrow> body \<Rightarrow> qmi \<Rightarrow> (int \<times> byte list option \<times> qmi) option" where
  "request svc ty b s = do { (req, s) \<leftarrow> compose svc ty b s; QmiThreadSendQMITimeout True req s }"

text \<open>The macro \<open>qmi_rsp_check_and_return\<close>: \<open>ret\<close> is the early return, \<open>k\<close> what follows.\<close>

definition qmi_rsp_check_and_return ::
  "(int \<Rightarrow> qmi \<Rightarrow> 'r) \<Rightarrow> int \<times> byte list option \<times> qmi \<Rightarrow> (byte list \<Rightarrow> qmi \<Rightarrow> 'r option) \<Rightarrow> 'r option" where
  "qmi_rsp_check_and_return ret t k =
     (case t of (err, rsp, s) \<Rightarrow>
        if err < 0 then Some (ret err s)
        else case rsp of
          None \<Rightarrow> Some (ret err s)
        | Some m \<Rightarrow> do {
            r \<leftarrow> m_Result m; e \<leftarrow> m_Error m;
            if r \<noteq> 0 \<or> e \<noteq> 0 then Some (ret (uint e) s) else k m s
          })"

definition with_tlv :: "byte list \<Rightarrow> nat \<Rightarrow> 'a \<Rightarrow> (nat \<Rightarrow> 'a option) \<Rightarrow> 'a option" where
  "with_tlv m ty d f = do { p \<leftarrow> GetTLV m ty; case p of None \<Rightarrow> Some d | Some p \<Rightarrow> f p }"

definition uchar2char :: "nat \<Rightarrow> byte list \<Rightarrow> nat \<Rightarrow> nat \<Rightarrow> string option" where
  "uchar2char dst_len m src src_len = do {
     b \<leftarrow> rdn m src (min (dst_len - 1) src_len);
     Some (map (\<lambda>c. char_of (unat c)) (takeWhile (\<lambda>c. c \<noteq> (0 :: byte)) b))
   }"

section \<open>Data format\<close>

definition qmap_setup :: "PROFILE_T \<Rightarrow> qmi \<Rightarrow> QMAP_SETTING \<times> PROFILE_T \<times> qmi" where
  "qmap_setup p s =
     (if qmap_mode p = 0
      then (\<lparr>qs_rx_urb_size = 0, qs_ep_type = 0, qs_iface_id = 0, qs_MuxId = 0, qs_ul_max_datagrams = 0, qs_ul_max_size = 0,
             qs_dl_minimum_padding = 0\<rparr>, p, s)
      else let v = (if p_qmap_version p \<noteq> 0x09 then 0x05 else p_qmap_version p);
               q = \<lparr>qs_rx_urb_size = qmap_size p, qs_ep_type = (if hardware_pcie p then DATA_EP_TYPE_PCIE else DATA_EP_TYPE_HSUSB),
                    qs_iface_id = 0x04, qs_MuxId = muxid p, qs_ul_max_datagrams = 11, qs_ul_max_size = 8 * 1024, qs_dl_minimum_padding = 0\<rparr>;
               p = p\<lparr>rawIP := True, p_qmap_version := v\<rparr>;
               s = s\<lparr>s_9x07 := True, qmap_version := word_of_int v\<rparr>;
               i = rmnet_info p in
        if ri_size i \<noteq> 0
        then (q\<lparr>qs_rx_urb_size := ri_rx_urb_size i, qs_ep_type := ri_ep_type i, qs_iface_id := ri_iface_id i,
                qs_dl_minimum_padding := ri_dl_minimum_padding i\<rparr>, p, s\<lparr>qmap_version := ri_qmap_version i\<rparr>)
        else (q, p, s))"

definition tlv_u32 :: "byte list \<Rightarrow> nat \<Rightarrow> (u32 \<Rightarrow> 'a) \<Rightarrow> 'a \<Rightarrow> 'a option" where
  "tlv_u32 m ty f d = with_tlv m ty d (\<lambda>p. do { v \<leftarrow> rd32 m (p + 3); Some (f v) })"

definition set_data_format ::
  "QMAP_SETTING \<Rightarrow> PROFILE_T \<Rightarrow> qmi \<Rightarrow> (QMAP_SETTING \<Rightarrow> PROFILE_T \<Rightarrow> qmi \<Rightarrow> (int \<times> PROFILE_T \<times> qmi) option) \<Rightarrow> (int \<times> PROFILE_T \<times> qmi) option" where
  "set_data_format q p s k = do {
     t \<leftarrow> request QMUX_TYPE_WDS_ADMIN 0x0020 (WdaSetDataFormat (qmap_version s) q) s;
     qmi_rsp_check_and_return (\<lambda>e s. (e, p, s)) t (\<lambda>m s. do {
       (p, s) \<leftarrow> tlv_u32 m 0x11 (\<lambda>v. (p\<lparr>rawIP := v = 2\<rparr>, s\<lparr>s_9x07 := v = 2\<rparr>)) (p, s);
       q \<leftarrow> (if qmap_mode p \<noteq> 0 then tlv_u32 m 0x16 (\<lambda>v. q\<lparr>qs_rx_urb_size := v\<rparr>) q else do { z \<leftarrow> GetTLV m 0x16; Some q });
       if qs_ul_max_datagrams q = 0 then k q p s
       else do {
         q \<leftarrow> tlv_u32 m 0x17 (\<lambda>v. q\<lparr>qs_ul_max_datagrams := min (qs_ul_max_datagrams q) v\<rparr>) q;
         q \<leftarrow> tlv_u32 m 0x18 (\<lambda>v. q\<lparr>qs_ul_max_size := min (qs_ul_max_size q) v\<rparr>) q;
         q \<leftarrow> tlv_u32 m 0x1A (\<lambda>v. q\<lparr>qs_dl_minimum_padding := v\<rparr>) q;
         k q p (if 1 < qs_ul_max_datagrams q then s\<lparr>to_driver := to_driver s @ [q]\<rparr> else s)
       }
     })
   }"

definition bind_mux ::
  "byte \<Rightarrow> QMAP_SETTING \<Rightarrow> PROFILE_T \<Rightarrow> qmi \<Rightarrow> (qmi \<Rightarrow> (int \<times> PROFILE_T \<times> qmi) option) \<Rightarrow> (int \<times> PROFILE_T \<times> qmi) option" where
  "bind_mux svc q p s k =
     (if qmapnet_adapter p \<noteq> []
      then do { t \<leftarrow> request svc 0x00A2 (WdsSetQMUXBindMuxDataPort q) s;
                qmi_rsp_check_and_return (\<lambda>e s. (e, p, s)) t (\<lambda>m s. k s) }
      else k s)"

definition set_ipv6 ::
  "QMAP_SETTING \<Rightarrow> PROFILE_T \<Rightarrow> qmi \<Rightarrow> (qmi \<Rightarrow> (int \<times> PROFILE_T \<times> qmi) option) \<Rightarrow> (int \<times> PROFILE_T \<times> qmi) option" where
  "set_ipv6 q p s k =
     (if enable_ipv6 p
      then bind_mux QMUX_TYPE_WDS_IPV6 q p s (\<lambda>s. do {
             t \<leftarrow> request QMUX_TYPE_WDS_IPV6 0x004D (WdsSetClientIPFamilyPref (word_of_int IpFamilyV6)) s;
             qmi_rsp_check_and_return (\<lambda>e s. (e, p, s)) t (\<lambda>m s. k s) })
      else k s)"

definition set_ipv4 ::
  "QMAP_SETTING \<Rightarrow> PROFILE_T \<Rightarrow> qmi \<Rightarrow> (qmi \<Rightarrow> (int \<times> PROFILE_T \<times> qmi) option) \<Rightarrow> (int \<times> PROFILE_T \<times> qmi) option" where
  "set_ipv4 q p s k =
     (if enable_ipv4 p
      then bind_mux QMUX_TYPE_WDS q p s (\<lambda>s. do {
             (err, rsp, s) \<leftarrow> request QMUX_TYPE_WDS 0x004D (WdsSetClientIPFamilyPref (word_of_int IpFamilyV4)) s;
             k s })
      else k s)"

definition requestSetEthMode :: "PROFILE_T \<Rightarrow> qmi \<Rightarrow> (int \<times> PROFILE_T \<times> qmi) option" where
  "requestSetEthMode p s =
     (let wds = (\<lambda>q p s. set_ipv4 q p s (\<lambda>s. set_ipv6 q p s (\<lambda>s. do {
                   (err, rsp, s) \<leftarrow> request QMUX_TYPE_WDS 0x0051 (WdsSetAutoConnect 0) s;
                   Some (0, p, s) })))
      in case qmap_setup p s of (q, p, s) \<Rightarrow>
           if qmap_mode p \<noteq> 0 \<and> wda_client p = 0 then wds q p s else set_data_format q p s wds)"

section \<open>SIM\<close>

datatype SIM_Status = SIM_ABSENT | SIM_NOT_READY | SIM_READY | SIM_PIN | SIM_PUK | SIM_NETWORK_PERSONALIZATION | SIM_BAD

definition requestGetPINStatus :: "SIM_Status \<Rightarrow> qmi \<Rightarrow> (int \<times> SIM_Status \<times> qmi) option" where
  "requestGetPINStatus st s = do {
     t \<leftarrow> (if s_9x07 s then request QMUX_TYPE_UIM 0x002F no_body s else request QMUX_TYPE_DMS 0x002B no_body s);
     qmi_rsp_check_and_return (\<lambda>e s. (e, st, s)) t (\<lambda>m s. do {
       st \<leftarrow> with_tlv m 0x11 st (\<lambda>p. do {
              v \<leftarrow> rd8 m (p + 3);
              Some (if v = 1 then SIM_PIN else if v = 4 then SIM_PUK else if v = 5 then SIM_BAD else st) });
       Some (0, st, s)
     })
   }"

text \<open>The card status of the UIM service: the state of the card and of its PIN.\<close>

definition card_status :: "byte list \<Rightarrow> (byte \<times> byte) option" where
  "card_status m = with_tlv m 0x10 (0x01, 1) (\<lambda>p. do {
     aid \<leftarrow> rd8 m (p + 24);
     card \<leftarrow> rd8 m (p + 12);
     if card = 1 then do {
       univ \<leftarrow> rd8 m (p + 25 + unat aid);
       pin \<leftarrow> (if univ = 1 then rd8 m (p + 13) else rd8 m (p + 25 + unat aid + 1));
       Some (card, pin)
     }
     else Some (card, 1)
   })"

definition sim_of :: "byte \<Rightarrow> byte \<Rightarrow> SIM_Status" where
  "sim_of cs pin =
     (if cs = 1 \<and> (pin = 2 \<or> pin = 3) then SIM_READY
      else if cs = 1 then
        (let st = (if pin = 1 then SIM_PIN else SIM_ABSENT) in
         if pin = 4 then SIM_PUK
         else if pin = 5 then SIM_BAD
         else if pin = 0 \<or> pin = 2 \<or> pin = 3 then SIM_READY
         else st)
      else SIM_ABSENT)"

text \<open>The status is printed by indexing an array of six names, so \<open>SIM_BAD\<close> (6) reads outside of it.\<close>

definition requestGetSIMStatus :: "SIM_Status \<Rightarrow> qmi \<Rightarrow> (int \<times> SIM_Status \<times> qmi) option" where
  "requestGetSIMStatus st s = do {
     t \<leftarrow> (if s_9x07 s then request QMUX_TYPE_UIM 0x002F no_body s else request QMUX_TYPE_DMS 0x0044 no_body s);
     qmi_rsp_check_and_return (\<lambda>e s. (e, st, s)) t (\<lambda>m s. do {
       (st, s) \<leftarrow> (if s_9x07 s then do { (cs, pin) \<leftarrow> card_status m; Some (sim_of cs pin, s) }
                  else do {
                    u \<leftarrow> rd8 m 23;
                    if u = 0x00 then Some (SIM_READY, s)
                    else if u = 0x01 then do { (e, st, s) \<leftarrow> requestGetPINStatus SIM_ABSENT s; Some (st, s) }
                    else Some (SIM_ABSENT, s)
                  });
       if st = SIM_BAD then None else Some (0, st, s)
     })
   }"

definition requestEnterSimPin :: "string \<Rightarrow> qmi \<Rightarrow> (int \<times> qmi) option" where
  "requestEnterSimPin pin s = do {
     t \<leftarrow> (if s_9x07 s then request QMUX_TYPE_UIM 0x0026 (UimVerifyPinReqSend pin) s
          else request QMUX_TYPE_DMS 0x0028 (DmsUIMVerifyPinReqSend pin) s);
     qmi_rsp_check_and_return (\<lambda>e s. (e, s)) t (\<lambda>m s. Some (0, s))
   }"

section \<open>Registration\<close>

text \<open>Country and network codes of CDMA: each digit plus one modulo ten, 0 written as 10.\<close>

definition quectel_convert_cdma_mcc_2_ascii_mcc :: "u16 \<Rightarrow> u16" where
  "quectel_convert_cdma_mcc_2_ascii_mcc mcc =
     (if mcc = 0x3FF then 3
      else let buf = unat mcc + 111; d3 = buf mod 10;
               buf = (if d3 = 0 then (buf - 10) div 10 else buf div 10); d2 = buf mod 10;
               buf = (if d2 = 0 then (buf - 10) div 10 else buf div 10);
               d1 = (if buf = 10 then 0 else buf) in
           if d1 < 10 \<and> d2 < 10 \<and> d3 < 10 then of_nat (d1 * 100 + d2 * 10 + d3) else 0)"

definition quectel_convert_cdma_mnc_2_ascii_mnc :: "u16 \<Rightarrow> u16" where
  "quectel_convert_cdma_mnc_2_ascii_mnc mnc =
     (if mnc = 0x7F then 7
      else let buf = unat mnc + 11; d2 = buf mod 10;
               buf = (if d2 = 0 then (buf - 10) div 10 else buf div 10);
               d1 = (if buf = 10 then 0 else buf) in
           if d1 < 10 \<and> d2 < 10 then of_nat (d1 * 10 + d2) else 0)"

text \<open>The out parameters are nullable pointers to pairs.\<close>

definition requestGetHomeNetwork ::
  "(u16 \<times> u16) option \<Rightarrow> (u16 \<times> u16) option \<Rightarrow> qmi \<Rightarrow> (int \<times> (u16 \<times> u16) option \<times> (u16 \<times> u16) option \<times> qmi) option" where
  "requestGetHomeNetwork net sid s = do {
     t \<leftarrow> request QMUX_TYPE_NAS 0x0025 no_body s;
     qmi_rsp_check_and_return (\<lambda>e s. (e, net, sid, s)) t (\<lambda>m s. do {
       net \<leftarrow> with_tlv m 0x01 net (\<lambda>p. if net = None then Some net else do { a \<leftarrow> rd16 m (p + 3); b \<leftarrow> rd16 m (p + 5); Some (Some (a, b)) });
       sid \<leftarrow> with_tlv m 0x10 sid (\<lambda>p. if sid = None then Some sid else do { a \<leftarrow> rd16 m (p + 3); b \<leftarrow> rd16 m (p + 5); Some (Some (a, b)) });
       Some (0, net, sid, s)
     })
   }"

definition WWAN_DATA_CLASS_NONE :: u32 where "WWAN_DATA_CLASS_NONE = 0x00000000"
definition WWAN_DATA_CLASS_GPRS :: u32 where "WWAN_DATA_CLASS_GPRS = 0x00000001"
definition WWAN_DATA_CLASS_EDGE :: u32 where "WWAN_DATA_CLASS_EDGE = 0x00000002"
definition WWAN_DATA_CLASS_UMTS :: u32 where "WWAN_DATA_CLASS_UMTS = 0x00000004"
definition WWAN_DATA_CLASS_HSDPA :: u32 where "WWAN_DATA_CLASS_HSDPA = 0x00000008"
definition WWAN_DATA_CLASS_HSUPA :: u32 where "WWAN_DATA_CLASS_HSUPA = 0x00000010"
definition WWAN_DATA_CLASS_LTE :: u32 where "WWAN_DATA_CLASS_LTE = 0x00000020"
definition WWAN_DATA_CLASS_5G_NSA :: u32 where "WWAN_DATA_CLASS_5G_NSA = 0x00000040"
definition WWAN_DATA_CLASS_5G_SA :: u32 where "WWAN_DATA_CLASS_5G_SA = 0x00000080"
definition WWAN_DATA_CLASS_1XRTT :: u32 where "WWAN_DATA_CLASS_1XRTT = 0x00010000"
definition WWAN_DATA_CLASS_1XEVDO :: u32 where "WWAN_DATA_CLASS_1XEVDO = 0x00020000"
definition WWAN_DATA_CLASS_1XEVDO_REVA :: u32 where "WWAN_DATA_CLASS_1XEVDO_REVA = 0x00040000"
definition WWAN_DATA_CLASS_1XEVDV :: u32 where "WWAN_DATA_CLASS_1XEVDV = 0x00080000"
definition WWAN_DATA_CLASS_3XRTT :: u32 where "WWAN_DATA_CLASS_3XRTT = 0x00100000"
definition WWAN_DATA_CLASS_1XEVDO_REVB :: u32 where "WWAN_DATA_CLASS_1XEVDO_REVB = 0x00200000"
definition WWAN_DATA_CLASS_UMB :: u32 where "WWAN_DATA_CLASS_UMB = 0x00400000"
definition WWAN_DATA_CLASS_CUSTOM :: u32 where "WWAN_DATA_CLASS_CUSTOM = 0x80000000"

definition class2str :: "(u32 \<times> string) list" where
  "class2str =
     [(WWAN_DATA_CLASS_NONE, ''UNKNOWN''), (WWAN_DATA_CLASS_GPRS, ''GPRS''), (WWAN_DATA_CLASS_EDGE, ''EDGE''),
      (WWAN_DATA_CLASS_UMTS, ''UMTS''), (WWAN_DATA_CLASS_HSDPA, ''HSDPA''), (WWAN_DATA_CLASS_HSUPA, ''HSUPA''),
      (WWAN_DATA_CLASS_LTE, ''LTE''), (WWAN_DATA_CLASS_5G_NSA, ''5G_NSA''), (WWAN_DATA_CLASS_5G_SA, ''5G_SA''),
      (WWAN_DATA_CLASS_1XRTT, ''1XRTT''), (WWAN_DATA_CLASS_1XEVDO, ''1XEVDO''), (WWAN_DATA_CLASS_1XEVDO_REVA, ''1XEVDO_REVA''),
      (WWAN_DATA_CLASS_1XEVDV, ''1XEVDV''), (WWAN_DATA_CLASS_3XRTT, ''3XRTT''), (WWAN_DATA_CLASS_1XEVDO_REVB, ''1XEVDO_REVB''),
      (WWAN_DATA_CLASS_UMB, ''UMB''), (WWAN_DATA_CLASS_CUSTOM, ''CUSTOM'')]"

definition wwan_data_class2str :: "u32 \<Rightarrow> string" where
  "wwan_data_class2str c = (case map_of class2str c of None \<Rightarrow> ''UNKNOWN'' | Some n \<Rightarrow> n)"

definition char2ushort :: "byte list \<Rightarrow> u16" where
  "char2ushort str = word_of_int (to_int32 (fst (strtol 10 (map (\<lambda>c. char_of (unat c)) (takeWhile (\<lambda>c. c \<noteq> 0 \<and> c \<noteq> 0xFF) str)))))"

datatype device_class = CLASS_UNKNOWN | CLASS_CDMA | CLASS_GSM

text \<open>The local variables of \<open>requestRegistrationState2\<close>.\<close>

record reg =
  PSAttachedState :: byte
  is_lte :: bool
  DeviceClass :: device_class
  DataCapList :: u32
  endc_available :: "byte option"           \<comment> \<open>with \<open>endc_available_valid\<close>\<close>
  restrict_dcnr :: "byte option"
  MobileCountryCode :: u16
  MobileNetworkCode :: u16
  pDataCapStr :: string

text \<open>A system information block: service domain at 3, network codes behind the flag at \<open>off\<close>.\<close>

definition srv_domain_ps :: "byte list \<Rightarrow> nat \<Rightarrow> bool option" where
  "srv_domain_ps m p = do { v \<leftarrow> rd8 m (p + 3); if v = 1 then do { d \<leftarrow> rd8 m (p + 4); Some (d AND 2 \<noteq> 0) } else Some False }"

definition network_id :: "byte list \<Rightarrow> nat \<Rightarrow> reg \<Rightarrow> reg option" where
  "network_id m q l = do {
     v \<leftarrow> rd8 m q;
     if v = 1 then do {
       a \<leftarrow> rdn m (q + 1) 3; b \<leftarrow> rdn m (q + 4) 3;
       Some (l\<lparr>MobileCountryCode := char2ushort a, MobileNetworkCode := char2ushort b\<rparr>)
     }
     else Some l
   }"

definition service_status :: "byte list \<Rightarrow> nat \<Rightarrow> reg \<times> qmi \<Rightarrow> reg \<times> qmi \<Rightarrow> (reg \<times> qmi) option" where
  "service_status m p yes no = do { v \<leftarrow> rd8 m (p + 3); Some (if v = 2 then yes else no) }"

definition home_codes :: "reg \<Rightarrow> qmi \<Rightarrow> (reg \<times> qmi) option" where
  "home_codes l s = do {
     (e, net, sid, s) \<leftarrow> requestGetHomeNetwork (Some (0, 0)) None s;
     case net of
       Some (mcc, mnc) \<Rightarrow>
         Some (if e = 0 \<and> mcc \<noteq> 0
               then l\<lparr>MobileCountryCode := quectel_convert_cdma_mcc_2_ascii_mcc mcc, MobileNetworkCode := quectel_convert_cdma_mnc_2_ascii_mnc mnc\<rparr>
               else l, s)
     | None \<Rightarrow> Some (l, s)
   }"

definition sys_info_tlv :: "byte list \<Rightarrow> nat \<Rightarrow> byte \<Rightarrow> reg \<Rightarrow> qmi \<Rightarrow> (reg \<times> qmi) option" where
  "sys_info_tlv m p ty l s =
     (let cdma = s\<lparr>s_is_cdma := \<not> is_lte l\<rparr>; lte = s\<lparr>s_is_cdma := False\<rparr> in
      if ty = 0x10 then service_status m p
        (l\<lparr>DataCapList := WWAN_DATA_CLASS_1XRTT OR WWAN_DATA_CLASS_1XEVDO OR WWAN_DATA_CLASS_1XEVDO_REVA OR WWAN_DATA_CLASS_1XEVDV
             OR WWAN_DATA_CLASS_1XEVDO_REVB, DeviceClass := CLASS_CDMA\<rparr>, cdma) (l, s)
      else if ty = 0x11 then service_status m p
        (l\<lparr>DataCapList := WWAN_DATA_CLASS_3XRTT OR WWAN_DATA_CLASS_UMB, DeviceClass := CLASS_CDMA\<rparr>, cdma) (l, s)
      else if ty = 0x12 then service_status m p
        (l\<lparr>DataCapList := WWAN_DATA_CLASS_GPRS OR WWAN_DATA_CLASS_EDGE, DeviceClass := CLASS_GSM\<rparr>, s) (l, s)
      else if ty = 0x13 then service_status m p (l\<lparr>DataCapList := WWAN_DATA_CLASS_UMTS, DeviceClass := CLASS_GSM\<rparr>, s) (l, s)
      else if ty = 0x14 then service_status m p
        (l\<lparr>DataCapList := WWAN_DATA_CLASS_LTE, DeviceClass := CLASS_GSM, is_lte := True\<rparr>, lte) (l, s)
      else if ty = 0x4A then service_status m p
        (l\<lparr>DataCapList := DataCapList l OR WWAN_DATA_CLASS_5G_SA, DeviceClass := CLASS_GSM, is_lte := True\<rparr>, lte) (l, s)
      else if ty = 0x4E then do { v \<leftarrow> rd8 m (p + 3); Some (l\<lparr>endc_available := Some v\<rparr>, s) }
      else if ty = 0x4F then do { v \<leftarrow> rd8 m (p + 3); Some (l\<lparr>restrict_dcnr := Some v\<rparr>, s) }
      else if ty = 0x24 then service_status m p (l\<lparr>pDataCapStr := ''TD-SCDMA''\<rparr>, s) (l, s)
      else if ty = 0x15 then do {
        ps \<leftarrow> srv_domain_ps m p;
        l' \<leftarrow> network_id m (p + 38) (if ps then l\<lparr>PSAttachedState := 1\<rparr> else l);
        Some (l', if ps then cdma else s)
      }
      else if ty = 0x16 then do {
        ps \<leftarrow> srv_domain_ps m p;
        let l' = (if ps then l\<lparr>PSAttachedState := 1\<rparr> else l);
        hdr \<leftarrow> (if PSAttachedState l' \<noteq> 0 then do { v \<leftarrow> rd8 m (p + 13); if v = 1 then do { h \<leftarrow> rd8 m (p + 14); Some (h = 3) } else Some False }
                else Some False);
        home_codes l' (let s' = (if ps then cdma else s) in if hdr then s'\<lparr>s_hdr_personality := 2\<rparr> else s')
      }
      else if ty \<in> {0x17, 0x18, 0x25, 0x4B} then do {
        ps \<leftarrow> srv_domain_ps m p;
        l' \<leftarrow> network_id m (p + 22) (if ps then l\<lparr>PSAttachedState := 1\<rparr> else l);
        Some (l', s)
      }
      else if ty = 0x19 then do {
        ps \<leftarrow> srv_domain_ps m p;
        l' \<leftarrow> network_id m (p + 22) (if ps then l\<lparr>PSAttachedState := 1, is_lte := True\<rparr> else l);
        Some (l', if ps then lte else s)
      }
      else Some (l, s))"

function sys_info_loop :: "byte list \<Rightarrow> int \<Rightarrow> nat \<Rightarrow> reg \<Rightarrow> qmi \<Rightarrow> (reg \<times> qmi) option" where
  "sys_info_loop m remainingLen p l s =
     (if remainingLen \<le> 0 then Some (l, s)
      else do {
        ty \<leftarrow> rd8 m p;
        (l, s) \<leftarrow> sys_info_tlv m p ty l s;
        n \<leftarrow> rd16 m (p + 1);
        sys_info_loop m (remainingLen - (int (unat n) + 3)) (p + 1 + unat n + 2) l s
      })"
  by auto

termination
  by (relation "measure (\<lambda>(m, r, p, l, s). length m - p)") (auto simp: rd8_def split: if_splits)

declare sys_info_loop.simps [simp del]

definition data_cap_class :: "reg \<Rightarrow> qmi \<Rightarrow> string \<times> u32" where
  "data_cap_class l s =
     (let has = (\<lambda>c. DataCapList l AND c \<noteq> 0) in
      if DeviceClass l = CLASS_CDMA
      then (if s_hdr_personality s = 2 then ''eHRPD''
            else if has WWAN_DATA_CLASS_1XEVDO_REVB then wwan_data_class2str WWAN_DATA_CLASS_1XEVDO_REVB
            else if has WWAN_DATA_CLASS_1XEVDO_REVA then wwan_data_class2str WWAN_DATA_CLASS_1XEVDO_REVA
            else if has WWAN_DATA_CLASS_1XEVDO then wwan_data_class2str WWAN_DATA_CLASS_1XEVDO
            else if has WWAN_DATA_CLASS_1XRTT then wwan_data_class2str WWAN_DATA_CLASS_1XRTT
            else if has WWAN_DATA_CLASS_3XRTT then wwan_data_class2str WWAN_DATA_CLASS_3XRTT
            else if has WWAN_DATA_CLASS_UMB then wwan_data_class2str WWAN_DATA_CLASS_UMB
            else pDataCapStr l, s_5g_type s)
      else if has WWAN_DATA_CLASS_5G_SA then (wwan_data_class2str WWAN_DATA_CLASS_5G_SA, WWAN_DATA_CLASS_5G_SA)
      else if has WWAN_DATA_CLASS_5G_NSA then (wwan_data_class2str WWAN_DATA_CLASS_5G_NSA, WWAN_DATA_CLASS_5G_NSA)
      else (if has WWAN_DATA_CLASS_LTE then wwan_data_class2str WWAN_DATA_CLASS_LTE
            else if has WWAN_DATA_CLASS_HSDPA \<and> has WWAN_DATA_CLASS_HSUPA then ''HSDPA_HSUPA''
            else if has WWAN_DATA_CLASS_HSDPA then wwan_data_class2str WWAN_DATA_CLASS_HSDPA
            else if has WWAN_DATA_CLASS_HSUPA then wwan_data_class2str WWAN_DATA_CLASS_HSUPA
            else if has WWAN_DATA_CLASS_UMTS then wwan_data_class2str WWAN_DATA_CLASS_UMTS
            else if has WWAN_DATA_CLASS_EDGE then wwan_data_class2str WWAN_DATA_CLASS_EDGE
            else if has WWAN_DATA_CLASS_GPRS then wwan_data_class2str WWAN_DATA_CLASS_GPRS
            else pDataCapStr l, s_5g_type s))"

definition reg_init :: reg where
  "reg_init = \<lparr>PSAttachedState = 0, is_lte = False, DeviceClass = CLASS_UNKNOWN, DataCapList = 0, endc_available = None, restrict_dcnr = None,
     MobileCountryCode = 0, MobileNetworkCode = 0, pDataCapStr = ''UNKNOW''\<rparr>"

text \<open>The result has the attach state and what is printed: country code, network code, capability.\<close>

definition requestRegistrationState2 :: "byte \<Rightarrow> qmi \<Rightarrow> (int \<times> byte \<times> (u16 \<times> u16 \<times> string) option \<times> qmi) option" where
  "requestRegistrationState2 ps s = do {
     t \<leftarrow> request QMUX_TYPE_NAS 0x004D no_body s;
     qmi_rsp_check_and_return (\<lambda>e s. (e, 0, None, s)) t (\<lambda>m s. do {
       len \<leftarrow> rd16 m 11;
       (l, s) \<leftarrow> sys_info_loop m (int (unat len)) 13 reg_init (s\<lparr>s_is_cdma := False, s_5g_type := WWAN_DATA_CLASS_NONE, s_hdr_personality := 0\<rparr>);
       let l = (if DataCapList l AND WWAN_DATA_CLASS_LTE \<noteq> 0 \<and> endc_available l \<noteq> None \<and> restrict_dcnr l \<noteq> None \<and>
                   the (endc_available l) \<noteq> 0 \<and> the (restrict_dcnr l) = 0
                then l\<lparr>DataCapList := DataCapList l OR WWAN_DATA_CLASS_5G_NSA\<rparr> else l);
       (case data_cap_class l s of (cap, g5) \<Rightarrow>
          Some (0, PSAttachedState l, Some (MobileCountryCode l, MobileNetworkCode l, cap), s\<lparr>s_5g_type := g5\<rparr>))
     })
   }"

definition cap_name :: "byte \<Rightarrow> string" where
  "cap_name c =
     (case map_of [(0x01, ''GPRS''), (0x02, ''EDGE''), (0x03, ''HSDPA''), (0x04, ''HSUPA''), (0x05, ''UMTS''), (0x06, ''1XRTT''),
        (0x07, ''1XEVDO''), (0x08, ''1XEVDO_REVA''), (0x09, ''GPRS''), (0x0A, ''1XEVDO_REVB''), (0x0B, ''LTE''), (0x0C, ''HSDPA''),
        (0x0D, ''HSDPA'')] c of None \<Rightarrow> ''UNKNOW'' | Some n \<Rightarrow> n)"

definition data_cap :: "byte list \<Rightarrow> string option" where
  "data_cap m = with_tlv m 0x11 ''UNKNOW'' (\<lambda>p. do {
     n \<leftarrow> rd8 m (p + 3);
     if n = 0 then Some ''UNKNOW''
     else do {
       c \<leftarrow> rd8 m (p + 4);
       d \<leftarrow> (if n = 2 \<and> c = 0x06 then rd8 m (p + 5) else Some 0);
       Some (cap_name (if n = 2 \<and> c = 0x06 \<and> (d = 0x08 \<or> d = 0x0A) then d else c))
     }
   })"

text \<open>The serving system: the attach state, and the radio interface in use (0 when not registered or none).\<close>

definition serving_system :: "byte list \<Rightarrow> (byte \<times> byte) option" where
  "serving_system m = with_tlv m 0x01 (0, 0) (\<lambda>p. do {
     r \<leftarrow> rd8 m (p + 3);
     if r = 0x01 then do {
       ps \<leftarrow> rd8 m (p + 5);
       inuse \<leftarrow> rd8 m (p + 7);
       rf \<leftarrow> (if inuse \<noteq> 0 then rd8 m (p + 8) else Some 0);
       Some (ps, rf)
     }
     else Some (0x02, 0)
   })"

definition requestRegistrationState :: "byte \<Rightarrow> qmi \<Rightarrow> (int \<times> byte \<times> (u16 \<times> u16 \<times> string) option \<times> qmi) option" where
  "requestRegistrationState ps s =
     (if s_9x07 s then requestRegistrationState2 ps s
      else do {
        t \<leftarrow> request QMUX_TYPE_NAS 0x0024 no_body s;
        qmi_rsp_check_and_return (\<lambda>e s. (e, ps, None, s)) t (\<lambda>m s. do {
          (mcc, mnc) \<leftarrow> with_tlv m 0x12 (0, 0) (\<lambda>p. do { a \<leftarrow> rd16 m (p + 3); b \<leftarrow> rd16 m (p + 5); Some (a, b) });
          (ps, rf) \<leftarrow> serving_system m;
          cap \<leftarrow> data_cap m;
          let cap = (if rf = 0x09 then ''TD-SCDMA'' else cap);
          if rf = 0x01 \<or> rf = 0x02 then do {
            (l, s) \<leftarrow> home_codes (reg_init\<lparr>MobileCountryCode := mcc, MobileNetworkCode := mnc\<rparr>) (s\<lparr>s_is_cdma := True\<rparr>);
            hdr \<leftarrow> with_tlv m 0x23 0 (\<lambda>p. do { v \<leftarrow> rd8 m (p + 3); Some (uint v) });
            Some (0, ps, Some (MobileCountryCode l, MobileNetworkCode l, if hdr = 2 then ''eHRPD'' else cap), s\<lparr>s_hdr_personality := hdr\<rparr>)
          }
          else Some (0, ps, Some (mcc, mnc, cap), s\<lparr>s_is_cdma := False\<rparr>)
        })
      })"

section \<open>Data calls\<close>

definition wds_type :: "int \<Rightarrow> byte" where
  "wds_type family = (if family = IpFamilyV4 then QMUX_TYPE_WDS else QMUX_TYPE_WDS_IPV6)"

definition set_handle :: "int \<Rightarrow> u32 \<Rightarrow> qmi \<Rightarrow> qmi" where
  "set_handle family h s = (if family = IpFamilyV4 then s\<lparr>WdsConnectionIPv4Handle := h\<rparr> else s\<lparr>WdsConnectionIPv6Handle := h\<rparr>)"

definition QWDS_PKT_DATA_UNKNOW :: byte where "QWDS_PKT_DATA_UNKNOW = 0x00"
definition QWDS_PKT_DATA_DISCONNECTED :: byte where "QWDS_PKT_DATA_DISCONNECTED = 0x01"
definition QWDS_PKT_DATA_CONNECTED :: byte where "QWDS_PKT_DATA_CONNECTED = 0x02"

definition requestQueryDataCall :: "byte \<Rightarrow> int \<Rightarrow> qmi \<Rightarrow> (int \<times> byte \<times> qmi) option" where
  "requestQueryDataCall st family s = do {
     t \<leftarrow> request (wds_type family) 0x0022 no_body s;
     qmi_rsp_check_and_return (\<lambda>e s. (e, st, s)) t (\<lambda>m s. do {
       st \<leftarrow> with_tlv m 0x01 QWDS_PKT_DATA_DISCONNECTED (\<lambda>p. do {
              v \<leftarrow> rd8 m (p + 3);
              n \<leftarrow> rd16 m (p + 1);
              r \<leftarrow> (if n = 2 then rd8 m (p + 4) else Some 0);
              Some (if n = 2 \<and> r = 0x01 then QWDS_PKT_DATA_DISCONNECTED else v) });
       Some (0, st, if st = QWDS_PKT_DATA_DISCONNECTED then set_handle family 0 s else s)
     })
   }"

text \<open>
  After a refusal the error code is read from the response that was just freed; the allocator is
  taken to leave these bytes (offset 18) alone.
\<close>

definition requestSetupDataCall :: "PROFILE_T \<Rightarrow> int \<Rightarrow> qmi \<Rightarrow> (int \<times> PROFILE_T \<times> qmi) option" where
  "requestSetupDataCall p family s =
     (let p = p\<lparr>curIpFamily := family\<rparr> in do {
        (err, rsp, s) \<leftarrow> request (wds_type family) 0x0020 (WdsStartNwInterfaceReq (s_is_cdma s) p) s;
        if err < 0 then Some (err, p, s)
        else case rsp of
          None \<Rightarrow> Some (err, p, s)
        | Some m \<Rightarrow> do {
            r \<leftarrow> m_Result m; e \<leftarrow> m_Error m;
            if r \<noteq> 0 \<or> e \<noteq> 0 then do {
              a \<leftarrow> with_tlv m 0x10 0 (\<lambda>p. rd16 m (p + 3));
              b \<leftarrow> with_tlv m 0x11 0 (\<lambda>p. do { c \<leftarrow> rd16 m (p + 3); rd16 m (p + 5) });
              Some (uint e, p, s)
            }
            else do { h \<leftarrow> rd32 m 23; Some (0, p, set_handle family h s) }
          }
      })"

definition requestDeactivateDefaultPDP :: "PROFILE_T \<Rightarrow> int \<Rightarrow> qmi \<Rightarrow> (int \<times> qmi) option" where
  "requestDeactivateDefaultPDP p family s =
     (if family = IpFamilyV4 \<and> WdsConnectionIPv4Handle s = 0 then Some (0, s)
      else if family = IpFamilyV6 \<and> WdsConnectionIPv6Handle s = 0 then Some (0, s)
      else do {
        t \<leftarrow> request (wds_type family) 0x0021 (WdsStopNwInterfaceReq (WdsConnectionIPv4Handle s) (WdsConnectionIPv6Handle s) family) s;
        qmi_rsp_check_and_return Pair t (\<lambda>m s. Some (0, set_handle family 0 s))
      })"

definition zero_ipv4 :: IPV4_T where
  "zero_ipv4 = \<lparr>v4_Address = 0, v4_Gateway = 0, v4_SubnetMask = 0, v4_DnsPrimary = 0, v4_DnsSecondary = 0, v4_Mtu = 0\<rparr>"

definition zero_ipv6 :: IPV6_T where
  "zero_ipv6 = \<lparr>v6_Address = replicate 16 0, v6_Gateway = replicate 16 0, v6_DnsPrimary = replicate 16 0, v6_DnsSecondary = replicate 16 0,
     v6_PrefixLengthIPAddr = 0, v6_PrefixLengthGateway = 0, v6_Mtu = 0\<rparr>"

definition pcscf6 :: "byte list \<Rightarrow> PROFILE_T \<Rightarrow> PROFILE_T option" where
  "pcscf6 m p = with_tlv m 0x2E p (\<lambda>q. do {
     n \<leftarrow> rd8 m (q + 3);
     if n = 1 then do { a \<leftarrow> rdn m (q + 4) 16; Some (p\<lparr>PCSCFIpv6Addr1 := a\<rparr>) }
     else if n = 2 then do { a \<leftarrow> rdn m (q + 4) 16; b \<leftarrow> rdn m (q + 20) 16; Some (p\<lparr>PCSCFIpv6Addr1 := a, PCSCFIpv6Addr2 := b\<rparr>) }
     else Some p
   })"

definition pcscf4 :: "byte list \<Rightarrow> PROFILE_T \<Rightarrow> PROFILE_T option" where
  "pcscf4 m p = with_tlv m 0x23 p (\<lambda>q. do {
     n \<leftarrow> rd8 m (q + 3);
     if n = 1 then do { a \<leftarrow> rd32 m (q + 4); Some (p\<lparr>PCSCFIpv4Addr1 := a\<rparr>) }
     else if n = 2 then do { a \<leftarrow> rd32 m (q + 4); b \<leftarrow> rd32 m (q + 8); Some (p\<lparr>PCSCFIpv4Addr1 := a, PCSCFIpv4Addr2 := b\<rparr>) }
     else Some p
   })"

definition tlv_v6 :: "byte list \<Rightarrow> nat \<Rightarrow> (byte list \<Rightarrow> IPV6_T) \<Rightarrow> IPV6_T \<Rightarrow> IPV6_T option" where
  "tlv_v6 m ty f d = with_tlv m ty d (\<lambda>q. do { a \<leftarrow> rdn m (q + 3) 16; Some (f a) })"

definition tlv_v6_prefix :: "byte list \<Rightarrow> nat \<Rightarrow> (byte list \<Rightarrow> byte \<Rightarrow> IPV6_T) \<Rightarrow> IPV6_T \<Rightarrow> IPV6_T option" where
  "tlv_v6_prefix m ty f d = with_tlv m ty d (\<lambda>q. do { a \<leftarrow> rdn m (q + 3) 16; n \<leftarrow> rd8 m (q + 19); Some (f a n) })"

definition decode_ipv4 :: "byte list \<Rightarrow> IPV4_T \<Rightarrow> IPV4_T option" where
  "decode_ipv4 m i = do {
     i \<leftarrow> tlv_u32 m 0x15 (\<lambda>v. i\<lparr>v4_DnsPrimary := v\<rparr>) i;
     i \<leftarrow> tlv_u32 m 0x16 (\<lambda>v. i\<lparr>v4_DnsSecondary := v\<rparr>) i;
     i \<leftarrow> tlv_u32 m 0x20 (\<lambda>v. i\<lparr>v4_Gateway := v\<rparr>) i;
     i \<leftarrow> tlv_u32 m 0x21 (\<lambda>v. i\<lparr>v4_SubnetMask := v\<rparr>) i;
     tlv_u32 m 0x1E (\<lambda>v. i\<lparr>v4_Address := v\<rparr>) i
   }"

definition decode_ipv6 :: "byte list \<Rightarrow> IPV6_T \<Rightarrow> IPV6_T option" where
  "decode_ipv6 m i = do {
     i \<leftarrow> tlv_v6 m 0x27 (\<lambda>a. i\<lparr>v6_DnsPrimary := a\<rparr>) i;
     i \<leftarrow> tlv_v6 m 0x28 (\<lambda>a. i\<lparr>v6_DnsSecondary := a\<rparr>) i;
     i \<leftarrow> tlv_v6_prefix m 0x26 (\<lambda>a n. i\<lparr>v6_Gateway := a, v6_PrefixLengthGateway := n\<rparr>) i;
     tlv_v6_prefix m 0x25 (\<lambda>a n. i\<lparr>v6_Address := a, v6_PrefixLengthIPAddr := n\<rparr>) i
   }"

definition clear_family :: "int \<Rightarrow> PROFILE_T \<Rightarrow> PROFILE_T" where
  "clear_family family p =
     (if family = IpFamilyV4 then p\<lparr>ipv4 := zero_ipv4\<rparr> else if family = IpFamilyV6 then p\<lparr>ipv6 := zero_ipv6\<rparr> else p)"

definition requestGetIPAddress :: "PROFILE_T \<Rightarrow> int \<Rightarrow> qmi \<Rightarrow> (int \<times> PROFILE_T \<times> qmi) option" where
  "requestGetIPAddress p family s =
     (let p = clear_family family p in
      if family = IpFamilyV4 \<and> WdsConnectionIPv4Handle s = 0 \<or> family = IpFamilyV6 \<and> WdsConnectionIPv6Handle s = 0 then Some (0, p, s)
      else do {
        t \<leftarrow> request (wds_type family) 0x002D WdsGetRuntimeSettingReq s;
        qmi_rsp_check_and_return (\<lambda>e s. (e, p, s)) t (\<lambda>m s. do {
          p \<leftarrow> pcscf6 m p;
          p \<leftarrow> pcscf4 m p;
          i4 \<leftarrow> decode_ipv4 m (ipv4 p);
          i6 \<leftarrow> decode_ipv6 m (ipv6 p);
          (i4, i6) \<leftarrow> tlv_u32 m 0x29 (\<lambda>v. if family = IpFamilyV4 then (i4\<lparr>v4_Mtu := v\<rparr>, i6) else (i4, i6\<lparr>v6_Mtu := v\<rparr>)) (i4, i6);
          Some (0, p\<lparr>ipv4 := i4, ipv6 := i6\<rparr>, s)
        })
      })"

section \<open>Profiles\<close>

definition cstr_or_empty :: "cstr \<Rightarrow> string" where
  "cstr_or_empty s = (case s of None \<Rightarrow> [] | Some x \<Rightarrow> x)"

text \<open>\<open>iptype\<close> indexes an array of four names for the log.\<close>

definition requestSetProfile :: "PROFILE_T \<Rightarrow> qmi \<Rightarrow> (int \<times> qmi) option" where
  "requestSetProfile p s =
     (if iptype p < 0 \<or> 3 < iptype p then None
      else if pdp p = 0 then Some (-1, s)
      else if old_apn p = cstr_or_empty (apn p) \<and> old_user p = cstr_or_empty (user p) \<and> old_password p = cstr_or_empty (password p) \<and>
              old_iptype p = iptype p \<and> old_auth p = auth p
      then Some (0, s)
      else do {
        t \<leftarrow> request QMUX_TYPE_WDS 0x0028 (WdsModifyProfileSettingsReq p) s;
        qmi_rsp_check_and_return Pair t (\<lambda>m s. Some (1, s))
      })"

definition tlv_string :: "byte list \<Rightarrow> nat \<Rightarrow> string \<Rightarrow> string option" where
  "tlv_string m ty d = with_tlv m ty d (\<lambda>q. do { n \<leftarrow> rd16 m (q + 1); uchar2char 64 m (q + 3) (unat n) })"

definition tlv_int8 :: "byte list \<Rightarrow> nat \<Rightarrow> int \<Rightarrow> int option" where
  "tlv_int8 m ty d = with_tlv m ty d (\<lambda>q. do { v \<leftarrow> rd8 m (q + 3); Some (uint v) })"

definition read_profile :: "byte list \<Rightarrow> PROFILE_T \<Rightarrow> PROFILE_T option" where
  "read_profile m p = do {
     a \<leftarrow> tlv_string m 0x14 (old_apn p);
     u \<leftarrow> tlv_string m 0x1B (old_user p);
     w \<leftarrow> tlv_string m 0x1C (old_password p);
     au \<leftarrow> tlv_int8 m 0x1D (old_auth p);
     ip \<leftarrow> tlv_int8 m 0x11 (old_iptype p);
     if 3 < ip then None
     else Some (p\<lparr>old_apn := a, old_user := u, old_password := w, old_auth := au, old_iptype := ip\<rparr>)
   }"

text \<open>A request that got an answer used up an exchange.\<close>

lemma recv_exchanges: "QmiThreadRecvQMI r s = Some (g, s') \<Longrightarrow> exchanges s' = exchanges s"
  by (auto simp: QmiThreadRecvQMI_def bind_eq_Some_conv split: option.splits if_splits)

lemma recv_all_exchanges: "recv_all rs sig s = Some (g, s') \<Longrightarrow> exchanges s' = exchanges s"
  by (induction rs arbitrary: sig s) (auto simp: bind_eq_Some_conv dest: recv_exchanges)

lemma write_exchanges:
  "wdm_write req s = (ret, s') \<Longrightarrow> exchanges s' = tl (exchanges s) \<and> (exchanges s = [] \<longrightarrow> ret = 0 \<and> incoming s' = [])"
  by (auto simp: wdm_write_def next_exchange_def silent_def Let_def split: if_splits list.splits)

lemma send_exchanges:
  "QmiWwanSendQMI req s = Some (ret, req', s') \<Longrightarrow>
    exchanges s' = exchanges s \<and> incoming s' = incoming s \<and> ret = - ENODEV \<or>
    exchanges s' = tl (exchanges s) \<and> (exchanges s = [] \<longrightarrow> ret = 0 \<and> incoming s' = [])"
  by (auto simp: QmiWwanSendQMI_def bind_eq_Some_conv Let_def dest: write_exchanges split: if_splits prod.splits)

lemma send_uses_exchange:
  assumes "QmiThreadSendQMITimeout want req s = Some (ret, rsp, s')"
  shows "length (exchanges s') \<le> length (exchanges s)"
    and "rsp \<noteq> None \<or> ret \<notin> {- ENODEV, ETIMEDOUT} \<Longrightarrow> length (exchanges s') < length (exchanges s)"
proof -
  let ?s = "s\<lparr>s_pRequest := Some req, s_pResponse := None, incoming := []\<rparr>"
  obtain r req' s1 g s2 where s1: "QmiWwanSendQMI req ?s = Some (r, req', s1)"
      and s2: "recv_all (incoming s1) False (s1\<lparr>s_pRequest := Some req'\<rparr>) = Some (g, s2)"
      and o: "exchanges s' = exchanges s2" "ret = (if r \<noteq> 0 then r else if g then 0 else ETIMEDOUT)" "rsp \<noteq> None \<longrightarrow> r = 0 \<and> g"
    using assms by (auto simp: QmiThreadSendQMITimeout_def bind_eq_Some_conv split: if_splits)
  have e: "exchanges s' = exchanges s1" using recv_all_exchanges [OF s2] o(1) by simp
  have g: "incoming s1 = [] \<Longrightarrow> \<not> g" using s2 by auto
  note c = send_exchanges [OF s1]
  show "length (exchanges s') \<le> length (exchanges s)" using c e by auto
  show "length (exchanges s') < length (exchanges s)" if "rsp \<noteq> None \<or> ret \<notin> {- ENODEV, ETIMEDOUT}"
  proof -
    have "exchanges s1 = tl (exchanges s)" "exchanges s \<noteq> []" using that c o(2,3) g by (auto simp: ENODEV_def split: if_splits)
    then show ?thesis using e by (simp add: neq_Nil_conv)
  qed
qed

lemma request_uses_exchange:
  assumes "request svc ty b s = Some (ret, rsp, s')"
  shows "length (exchanges s') \<le> length (exchanges s)"
    and "rsp \<noteq> None \<or> ret \<notin> {- ENODEV, ETIMEDOUT} \<Longrightarrow> length (exchanges s') < length (exchanges s)"
proof -
  let ?t = "s\<lparr>QMUXTransactionId := GetQMUXTransactionId (QMUXTransactionId s)\<rparr>"
  obtain req where "QmiThreadSendQMITimeout True req ?t = Some (ret, rsp, s')"
    using assms by (auto simp: request_def compose_def bind_eq_Some_conv Let_def)
  then show "length (exchanges s') \<le> length (exchanges s)"
    "rsp \<noteq> None \<or> ret \<notin> {- ENODEV, ETIMEDOUT} \<Longrightarrow> length (exchanges s') < length (exchanges s)"
    using send_uses_exchange [of True req ?t ret rsp s'] by simp_all
qed

lemma request_answer_uses_exchange:
  "request svc ty b s = Some (ret, Some m, s') \<Longrightarrow> length (exchanges s') < length (exchanges s)"
  by (rule request_uses_exchange(2)) auto

text \<open>
  \<open>requestGetProfile\<close> from \<open>_re_check\<close> on: while the modem answers that the profile does not exist
  it is created and read again.
\<close>

definition profile_missing :: "int \<Rightarrow> byte list option \<Rightarrow> bool option" where
  "profile_missing err rsp =
     (if err \<noteq> 0 then Some False
      else case rsp of
        None \<Rightarrow> Some False
      | Some m \<Rightarrow> do { r \<leftarrow> m_Result m; if r = 0 then Some False else do { e \<leftarrow> m_Error m; Some (e = 0x0051) } })"

function get_profile_loop :: "PROFILE_T \<Rightarrow> qmi \<Rightarrow> (int \<times> PROFILE_T \<times> qmi) option" where
  "get_profile_loop p s = do {
     (err, rsp, s1) \<leftarrow> request QMUX_TYPE_WDS 0x002B (WdsGetProfileSettingsReqSend p) s;
     again \<leftarrow> profile_missing err rsp;
     if \<not> again
     then qmi_rsp_check_and_return (\<lambda>e s. (e, p, s)) (err, rsp, s1) (\<lambda>m s. do { p \<leftarrow> read_profile m p; Some (0, p, s) })
     else do {
       (err, rsp, s2) \<leftarrow> request QMUX_TYPE_WDS 0x0027 (WdsCreateProfileSettingsReqSend p) s1;
       if err < 0 then Some (err, p, s2)
       else case rsp of
         None \<Rightarrow> Some (err, p, s2)
       | Some m \<Rightarrow> do {
           r \<leftarrow> m_Result m; e \<leftarrow> m_Error m;
           if r \<noteq> 0 \<or> e \<noteq> 0 then Some (uint e, p, s2) else get_profile_loop p s2
         }
     }
   }"
  by auto

termination
  by (relation "measure (\<lambda>(p, s). length (exchanges s))")
    (auto simp: profile_missing_def dest!: request_answer_uses_exchange split: if_splits option.splits)

declare get_profile_loop.simps [simp del]

definition requestGetProfile :: "PROFILE_T \<Rightarrow> qmi \<Rightarrow> (int \<times> PROFILE_T \<times> qmi) option" where
  "requestGetProfile p s =
     (let p = p\<lparr>old_apn := [], old_user := [], old_password := [], old_auth := 0, old_iptype := 0,
                iptype := (if enable_ipv4 p \<and> enable_ipv6 p then 3 else if enable_ipv6 p then 2 else 0)\<rparr> in
      if pdp p = 0 then Some (0, p, s) else get_profile_loop p s)"

section \<open>Device requests\<close>

definition requestBaseBandVersion :: "PROFILE_T \<Rightarrow> qmi \<Rightarrow> (int \<times> PROFILE_T \<times> qmi) option" where
  "requestBaseBandVersion p s = do {
     t \<leftarrow> request QMUX_TYPE_DMS 0x0023 no_body s;
     qmi_rsp_check_and_return (\<lambda>e s. (e, p, s)) t (\<lambda>m s. do {
       v \<leftarrow> with_tlv m 0x01 (BaseBandVersion p) (\<lambda>q. do {
             n \<leftarrow> rd16 m (q + 1);
             if n = 0 then Some (BaseBandVersion p) else uchar2char 64 m (q + 3) (unat n) });
       Some (0, p\<lparr>BaseBandVersion := v\<rparr>, s)
     })
   }"

definition DMS_OP_MODE_ONLINE :: byte where "DMS_OP_MODE_ONLINE = 0"
definition DMS_OP_MODE_LOW_POWER :: byte where "DMS_OP_MODE_LOW_POWER = 1"

definition requestRadioPower :: "bool \<Rightarrow> qmi \<Rightarrow> (int \<times> qmi) option" where
  "requestRadioPower state s = do {
     t \<leftarrow> request QMUX_TYPE_DMS 0x002E (DmsSetOperatingModeReq (if state then DMS_OP_MODE_ONLINE else DMS_OP_MODE_LOW_POWER)) s;
     qmi_rsp_check_and_return Pair t (\<lambda>m s. do {
       t \<leftarrow> request QMUX_TYPE_UIM (if state then 0x0031 else 0x0030) (UimSetCardSlotReq 0x01) s;
       qmi_rsp_check_and_return Pair t (\<lambda>m s. Some (0, s))
     })
   }"

definition requestSetLoopBackState :: "byte \<Rightarrow> u32 \<Rightarrow> qmi \<Rightarrow> (int \<times> qmi) option" where
  "requestSetLoopBackState loopback factor s = do {
     t \<leftarrow> request QMUX_TYPE_WDS_ADMIN 0x002F (WdaSetLoopBackReq loopback factor) s;
     qmi_rsp_check_and_return Pair t (\<lambda>m s. Some (0, s))
   }"

section \<open>A request that the modem answers\<close>

text \<open>A message of the modem: the service, client number and transaction number it answers, and its parts.\<close>

definition reply :: "byte \<Rightarrow> byte \<Rightarrow> u16 \<Rightarrow> u16 \<Rightarrow> tlv list \<Rightarrow> byte list" where
  "reply svc cid tid ty xs =
     qmux_msg ([0x01] @ le16_bytes (of_nat (12 + length (tlvs_bytes xs))) @ [0x80, svc, cid, 0x02] @ le16_bytes tid @ le16_bytes ty) xs"

definition result_ok :: tlv where "result_ok = (0x02, [0, 0, 0, 0])"

definition wire_svc :: "byte \<Rightarrow> byte" where
  "wire_svc svc = (if svc = QMUX_TYPE_WDS_IPV6 then QMUX_TYPE_WDS else svc)"

definition client :: "byte \<Rightarrow> qmi \<Rightarrow> byte" where
  "client svc s = qmiclientId s ! unat svc"

definition next_tid :: "qmi \<Rightarrow> int" where
  "next_tid s = GetQMUXTransactionId (QMUXTransactionId s)"

text \<open>
  The modem answers the next request, of this service, type and body, with these parts; other
  exchanges follow.
\<close>

definition replies :: "byte \<Rightarrow> u16 \<Rightarrow> body \<Rightarrow> tlv list \<Rightarrow> exchange list \<Rightarrow> qmi \<Rightarrow> bool" where
  "replies svc ty b xs rest s \<longleftrightarrow>
     cdc_wdm s \<and> svc \<noteq> QMUX_TYPE_CTL \<and> unat svc < length (qmiclientId s) \<and> client svc s \<noteq> 0 \<and>
     length (tlvs_bytes xs) + 13 \<le> 4096 \<and>
     (case ComposeQMUXMsg svc ty b (next_tid s) of
        None \<Rightarrow> False
      | Some req \<Rightarrow> exchanges s = answered req [pad_buf (reply (wire_svc svc) (client svc s) (word_of_int (next_tid s)) ty xs)] # rest)"

lemma length_reply [simp]: "length (reply svc cid tid ty xs) = length (tlvs_bytes xs) + 13"
  by (simp add: reply_def qmux_msg_def)

lemma reply_fields:
  "m_QMIType (reply svc cid tid ty xs) = Some svc" "m_ClientId (reply svc cid tid ty xs) = Some cid"
  "m_MuxTid (reply svc cid tid ty xs) = Some tid" "rd16 (reply svc cid tid ty xs) 1 = Some (of_nat (12 + length (tlvs_bytes xs)))"
  by (simp_all add: reply_def qmux_msg_def m_QMIType_def m_ClientId_def m_MuxTid_def rd8_def rd16_def le16_bytes_def wire_simps)

lemma reply_result:
  assumes "xs = result_ok # ys"
  shows "m_Result (reply svc cid tid ty xs) = Some 0" "m_Error (reply svc cid tid ty xs) = Some 0"
  using assms
  by (simp_all add: reply_def qmux_msg_def m_Result_def m_Error_def result_ok_def tlv_bytes_def rd8_def rd16_def le16_bytes_def le16_of_def)

lemma message_reply:
  assumes "length (tlvs_bytes xs) + 13 \<le> 4096"
  shows "recv_buf (pad_buf (reply svc cid tid ty xs))" "message (pad_buf (reply svc cid tid ty xs)) = reply svc cid tid ty xs"
proof -
  let ?m = "reply svc cid tid ty xs"
  have u: "unat (of_nat (12 + length (tlvs_bytes xs)) :: u16) = 12 + length (tlvs_bytes xs)"
    using assms by (simp add: unat_of_nat take_bit_nat_eq_self del: of_nat_add)
  show "recv_buf (pad_buf ?m)"
    by (rule recv_buf_pad [OF _ _ reply_fields(4)]) (use assms u in \<open>simp_all del: of_nat_add\<close>)
  have "rd16 (pad_buf ?m) 1 = Some (of_nat (12 + length (tlvs_bytes xs)))"
    using reply_fields(4) [of svc cid tid ty xs] assms by (simp add: pad_buf_def rd16_def rd8_prefix)
  then show "message (pad_buf ?m) = ?m" using u by (simp add: message_def pad_buf_def del: of_nat_add)
qed

lemma compose_shape:
  assumes "ComposeQMUXMsg svc ty b tid = Some req"
  shows "length req = 13 + length (tlvs_bytes (fst b))" "req ! 4 = svc" "m_MuxTid req = Some (word_of_int tid)"
proof -
  show l: "length req = 13 + length (tlvs_bytes (fst b))" using assms by (auto simp: ComposeQMUXMsg_def Let_def split: if_splits)
  show "req ! 4 = svc" "m_MuxTid req = Some (word_of_int tid)"
    using compose_is_qmux_msg [OF assms] l by (auto simp: rd8_def m_MuxTid_def)
qed

lemma reply_is_response:
  assumes "ComposeQMUXMsg svc ty b tid = Some req" "svc \<noteq> QMUX_TYPE_CTL"
  shows "is_response (addressed s req) (pad_buf (reply (wire_svc svc) (client svc s) (word_of_int tid) ty' xs)) = Some True"
proof -
  note sh = compose_shape [OF assms(1)]
  have "m_QMIType (addressed s req) = Some (wire_svc svc)" "m_ClientId (addressed s req) = Some (client svc s)"
    using sh assms(2) by (simp_all add: addressed_def m_QMIType_def m_ClientId_def rd8_def wire_svc_def client_def Let_def)
  moreover have "wire_svc svc \<noteq> 0" using assms(2) by (simp add: wire_svc_def qmux_types)
  ultimately have "is_response (addressed s req) (reply (wire_svc svc) (client svc s) (word_of_int tid) ty' xs) = Some True"
    using sh(3) by (simp add: is_response_def reply_fields addressed_tid)
  then show ?thesis by (simp add: is_response_pad)
qed

lemma request_reply:
  assumes "replies svc ty b xs rest s"
  obtains req where "ComposeQMUXMsg svc ty b (next_tid s) = Some req"
    and "request svc ty b s =
      Some (0, Some (reply (wire_svc svc) (client svc s) (word_of_int (next_tid s)) ty xs),
        s\<lparr>QMUXTransactionId := next_tid s, s_pRequest := None,
          s_pResponse := Some (reply (wire_svc svc) (client svc s) (word_of_int (next_tid s)) ty xs), exchanges := rest,
          incoming := [Some (pad_buf (reply (wire_svc svc) (client svc s) (word_of_int (next_tid s)) ty xs))],
          to_device := to_device s @ [addressed s req]\<rparr>)"
proof -
  obtain req where req: "ComposeQMUXMsg svc ty b (next_tid s) = Some req"
    using assms by (auto simp: replies_def split: option.splits)
  let ?m = "reply (wire_svc svc) (client svc s) (word_of_int (next_tid s)) ty xs" and ?s = "s\<lparr>QMUXTransactionId := next_tid s\<rparr>"
  have a: "cdc_wdm s" "svc \<noteq> QMUX_TYPE_CTL" "unat svc < length (qmiclientId s)" "client svc s \<noteq> 0" "length (tlvs_bytes xs) + 13 \<le> 4096"
      "exchanges s = answered req [pad_buf ?m] # rest"
    using assms unfolding replies_def req option.case by blast+
  have can: "can_send ?s req" using a(1-4) compose_shape [OF req] by (simp add: can_send_def client_def)
  have ex: "exchanges ?s = answered req [pad_buf ?m] # rest" using a(6) by simp
  have rb: "list_all recv_buf [pad_buf ?m]" using message_reply(1) [OF a(5)] by simp
  have ad: "addressed ?s req = addressed s req" by (rule addressed_cong) simp
  have an: "answer (addressed s req) [pad_buf ?m] = Some (pad_buf ?m)" "others (addressed s req) [pad_buf ?m] = []"
    using reply_is_response [OF req a(2), of s] by simp_all
  have "QmiThreadSendQMITimeout True req ?s = Some (0, Some ?m, ?s\<lparr>s_pRequest := None, s_pResponse := Some ?m,
      exchanges := rest, incoming := [Some (pad_buf ?m)], to_device := to_device s @ [addressed s req]\<rparr>)"
    unfolding send_outcome [OF can ex rb] ad Let_def an by (simp add: message_reply(2) [OF a(5)])
  moreover have "request svc ty b s = QmiThreadSendQMITimeout True req ?s"
    using req unfolding request_def compose_def Let_def next_tid_def by simp
  ultimately have "request svc ty b s = Some (0, Some ?m, ?s\<lparr>s_pRequest := None, s_pResponse := Some ?m,
      exchanges := rest, incoming := [Some (pad_buf ?m)], to_device := to_device s @ [addressed s req]\<rparr>)"
    by (simp only:)
  then show ?thesis by (rule that [OF req])
qed

section \<open>Reading an answer\<close>

lemma reply_qmux: "\<exists>h. length h = 11 \<and> reply svc cid tid ty xs = qmux_msg h xs"
  by (auto simp: reply_def intro!: exI)

lemma with_tlv_reply:
  assumes "length (tlvs_bytes xs) < 65536" "t \<le> 0x1000"
  shows "with_tlv (reply svc cid tid ty xs) t d f = (case tlv_lookup xs t of None \<Rightarrow> Some d | Some v \<Rightarrow> f (13 + tlv_offset xs t))"
proof -
  obtain h where "length h = 11" "reply svc cid tid ty xs = qmux_msg h xs" using reply_qmux by blast
  then show ?thesis using GetTLV_finds [of h xs t] assms by (simp add: with_tlv_def split: option.split)
qed

lemma rdn_reply:
  assumes "length (tlvs_bytes xs) < 65536" "tlv_lookup xs t = Some v" "i + n \<le> length v"
  shows "rdn (reply svc cid tid ty xs) (13 + tlv_offset xs t + 3 + i) n = Some (take n (drop i v))"
proof -
  obtain h where "length h = 11" "reply svc cid tid ty xs = qmux_msg h xs" using reply_qmux by blast
  then show ?thesis using tlv_lookup_value(1) [of h xs t v i n] assms by simp
qed

lemma rd8_rdn: "rdn m i 1 = Some v \<Longrightarrow> rd8 m i = Some (v ! 0)"
  by (auto simp: rdn_def rd8_def split: if_splits)

lemma rd32_rdn: "rdn m i 4 = Some v \<Longrightarrow> rd32 m i = Some (le32_of (v ! 0) (v ! 1) (v ! 2) (v ! 3))"
  by (auto simp: rdn_def rd32_def rd8_def split: if_splits)

definition le32_at :: "byte list \<Rightarrow> u32" where
  "le32_at v = le32_of (v ! 0) (v ! 1) (v ! 2) (v ! 3)"

lemma le32_at_bytes [simp]: "le32_at (le32_bytes w @ r) = w" "le32_at (le32_bytes w) = w"
  by (simp_all add: le32_at_def le32_bytes_def wire_simps)

lemma tlv_u32_reply:
  assumes "length (tlvs_bytes xs) < 65536" "t \<le> 0x1000" "pred_option (\<lambda>v. 4 \<le> length v) (tlv_lookup xs t)"
  shows "tlv_u32 (reply svc cid tid ty xs) t f d = Some (case tlv_lookup xs t of None \<Rightarrow> d | Some v \<Rightarrow> f (le32_at v))"
proof (cases "tlv_lookup xs t")
  case (Some v)
  then have "rd32 (reply svc cid tid ty xs) (13 + tlv_offset xs t + 3) = Some (le32_at v)"
    using rd32_rdn [OF rdn_reply [OF assms(1) Some, of 0 4]] assms(3) by (simp add: le32_at_def)
  then show ?thesis using Some by (simp add: tlv_u32_def with_tlv_reply [OF assms(1,2)])
qed (simp add: tlv_u32_def with_tlv_reply [OF assms(1,2)])

lemma tlv_v6_reply:
  assumes "length (tlvs_bytes xs) < 65536" "t \<le> 0x1000" "pred_option (\<lambda>v. 16 \<le> length v) (tlv_lookup xs t)"
  shows "tlv_v6 (reply svc cid tid ty xs) t f d = Some (case tlv_lookup xs t of None \<Rightarrow> d | Some v \<Rightarrow> f (take 16 v))"
proof (cases "tlv_lookup xs t")
  case (Some v)
  then have "rdn (reply svc cid tid ty xs) (13 + tlv_offset xs t + 3) 16 = Some (take 16 v)"
    using rdn_reply [OF assms(1) Some, of 0 16] assms(3) by simp
  then show ?thesis using Some by (simp add: tlv_v6_def with_tlv_reply [OF assms(1,2)])
qed (simp add: tlv_v6_def with_tlv_reply [OF assms(1,2)])

lemma tlv_v6_prefix_reply:
  assumes "length (tlvs_bytes xs) < 65536" "t \<le> 0x1000" "pred_option (\<lambda>v. 17 \<le> length v) (tlv_lookup xs t)"
  shows "tlv_v6_prefix (reply svc cid tid ty xs) t f d = Some (case tlv_lookup xs t of None \<Rightarrow> d | Some v \<Rightarrow> f (take 16 v) (v ! 16))"
proof (cases "tlv_lookup xs t")
  case (Some v)
  then have "rdn (reply svc cid tid ty xs) (13 + tlv_offset xs t + 3) 16 = Some (take 16 v)"
    using rdn_reply [OF assms(1) Some, of 0 16] assms(3) by simp
  moreover have "rd8 (reply svc cid tid ty xs) (13 + tlv_offset xs t + 3 + 16) = Some (v ! 16)"
    using rd8_rdn [OF rdn_reply [OF assms(1) Some, of 16 1]] assms(3) Some by simp
  ultimately show ?thesis using Some by (simp add: tlv_v6_prefix_def with_tlv_reply [OF assms(1,2)])
qed (simp add: tlv_v6_prefix_def with_tlv_reply [OF assms(1,2)])

lemma reply_handle:
  "rd32 (reply svc cid tid ty (result_ok # (1, le32_bytes h) # xs)) 23 = Some h"
  by (simp add: reply_def qmux_msg_def result_ok_def tlv_bytes_def rd8_def rd32_def le16_bytes_def le32_bytes_def wire_simps)

text \<open>The settings of a data call as its answer has them; a part that is missing leaves the old value.\<close>

definition u32_part :: "tlv list \<Rightarrow> nat \<Rightarrow> u32 \<Rightarrow> u32" where
  "u32_part xs ty d = (case tlv_lookup xs ty of None \<Rightarrow> d | Some v \<Rightarrow> le32_at v)"

definition addr_part :: "tlv list \<Rightarrow> nat \<Rightarrow> byte list \<Rightarrow> byte list" where
  "addr_part xs ty d = (case tlv_lookup xs ty of None \<Rightarrow> d | Some v \<Rightarrow> take 16 v)"

definition prefix_part :: "tlv list \<Rightarrow> nat \<Rightarrow> byte \<Rightarrow> byte" where
  "prefix_part xs ty d = (case tlv_lookup xs ty of None \<Rightarrow> d | Some v \<Rightarrow> v ! 16)"

definition settings_ok :: "tlv list \<Rightarrow> bool" where
  "settings_ok xs \<longleftrightarrow> length (tlvs_bytes xs) < 65536 \<and>
     list_all (\<lambda>t. pred_option (\<lambda>v. 4 \<le> length v) (tlv_lookup xs t)) [0x15, 0x16, 0x20, 0x21, 0x1E, 0x29] \<and>
     list_all (\<lambda>t. pred_option (\<lambda>v. 16 \<le> length v) (tlv_lookup xs t)) [0x27, 0x28] \<and>
     list_all (\<lambda>t. pred_option (\<lambda>v. 17 \<le> length v) (tlv_lookup xs t)) [0x25, 0x26] \<and>
     tlv_lookup xs 0x2E = None \<and> tlv_lookup xs 0x23 = None"

lemma decode_ipv4_reply:
  assumes "settings_ok xs"
  shows "decode_ipv4 (reply svc cid tid ty xs) i =
     Some (i\<lparr>v4_DnsPrimary := u32_part xs 0x15 (v4_DnsPrimary i), v4_DnsSecondary := u32_part xs 0x16 (v4_DnsSecondary i),
             v4_Gateway := u32_part xs 0x20 (v4_Gateway i), v4_SubnetMask := u32_part xs 0x21 (v4_SubnetMask i),
             v4_Address := u32_part xs 0x1E (v4_Address i)\<rparr>)"
  using assms
  by (auto simp: settings_ok_def decode_ipv4_def tlv_u32_reply u32_part_def split: option.split)

lemma decode_ipv6_reply:
  assumes "settings_ok xs"
  shows "decode_ipv6 (reply svc cid tid ty xs) i =
     Some (i\<lparr>v6_DnsPrimary := addr_part xs 0x27 (v6_DnsPrimary i), v6_DnsSecondary := addr_part xs 0x28 (v6_DnsSecondary i),
             v6_Gateway := addr_part xs 0x26 (v6_Gateway i), v6_PrefixLengthGateway := prefix_part xs 0x26 (v6_PrefixLengthGateway i),
             v6_Address := addr_part xs 0x25 (v6_Address i), v6_PrefixLengthIPAddr := prefix_part xs 0x25 (v6_PrefixLengthIPAddr i)\<rparr>)"
  using assms
  by (auto simp: settings_ok_def decode_ipv6_def tlv_v6_reply tlv_v6_prefix_reply addr_part_def prefix_part_def split: option.split)

section \<open>Data calls: lemmas\<close>

definition handle :: "int \<Rightarrow> qmi \<Rightarrow> u32" where
  "handle family s = (if family = IpFamilyV4 then WdsConnectionIPv4Handle s else WdsConnectionIPv6Handle s)"

lemmas families = IpFamilyV4_def IpFamilyV6_def

lemma handle_set_handle [simp]: "handle family (set_handle family h s) = h"
  by (simp add: handle_def set_handle_def)

lemma handle_set_other: "{f, g} = {IpFamilyV4, IpFamilyV6} \<Longrightarrow> handle g (set_handle f h s) = handle g s"
  by (auto simp: handle_def set_handle_def doubleton_eq_iff families)

lemma to_device_set_handle [simp]: "to_device (set_handle family h s) = to_device s"
  by (simp add: set_handle_def)

lemma stop_body: "family \<in> {IpFamilyV4, IpFamilyV6} \<Longrightarrow>
    fst (WdsStopNwInterfaceReq (WdsConnectionIPv4Handle s) (WdsConnectionIPv6Handle s) family) = [(0x01, le32_bytes (handle family s))]"
  by (auto simp: WdsStopNwInterfaceReq_def handle_def)

lemma setup_reply:
  assumes "replies (wds_type family) 0x0020 (WdsStartNwInterfaceReq (s_is_cdma s) (p\<lparr>curIpFamily := family\<rparr>))
      (result_ok # (0x01, le32_bytes h) # xs) rest s"
  obtains s' where "requestSetupDataCall p family s = Some (0, p\<lparr>curIpFamily := family\<rparr>, s')" "handle family s' = h"
    "qmiclientId s' = qmiclientId s" "{family, g} = {IpFamilyV4, IpFamilyV6} \<Longrightarrow> handle g s' = handle g s"
    "cdc_wdm s'" "exchanges s' = rest" "QMUXTransactionId s' = next_tid s"
proof -
  let ?m = "reply (wire_svc (wds_type family)) (client (wds_type family) s) (word_of_int (next_tid s)) 0x0020 (result_ok # (0x01, le32_bytes h) # xs)"
  obtain s1 where s1: "request (wds_type family) 0x0020 (WdsStartNwInterfaceReq (s_is_cdma s) (p\<lparr>curIpFamily := family\<rparr>)) s = Some (0, Some ?m, s1)"
      "qmiclientId s1 = qmiclientId s" "handle g s1 = handle g s" "cdc_wdm s1" "exchanges s1 = rest" "QMUXTransactionId s1 = next_tid s"
    by (rule request_reply [OF assms]) (use assms in \<open>auto simp: handle_def replies_def\<close>)
  have "requestSetupDataCall p family s = Some (0, p\<lparr>curIpFamily := family\<rparr>, set_handle family h s1)"
    using s1(1) by (simp add: requestSetupDataCall_def reply_result [OF refl] reply_handle)
  then show ?thesis
    using that s1(2-6) by (simp add: handle_set_other) (simp add: set_handle_def)
qed

text \<open>What goes out for a composed request, as the parser reads it.\<close>

lemma addressed_fields:
  assumes "ComposeQMUXMsg svc ty b tid = Some req" "svc \<noteq> QMUX_TYPE_CTL"
  shows "m_QMIType (addressed s req) = Some (wire_svc svc)" "m_ClientId (addressed s req) = Some (client svc s)"
    "m_Type (addressed s req) = Some ty" "\<exists>h. length h = 11 \<and> addressed s req = qmux_msg h (fst b)"
proof -
  note sh = compose_shape [OF assms(1)]
  show "m_QMIType (addressed s req) = Some (wire_svc svc)" "m_ClientId (addressed s req) = Some (client svc s)"
    using sh assms(2) by (simp_all add: addressed_def m_QMIType_def m_ClientId_def rd8_def wire_svc_def client_def Let_def)
  obtain h where h: "length h = 11" "req = qmux_msg h (fst b)" "rd16 req 9 = Some ty" using compose_is_qmux_msg [OF assms(1)] by blast
  show "m_Type (addressed s req) = Some ty" using h(3) sh(1) by (simp add: addressed_def m_Type_def rd16_def rd8_def Let_def)
  have "length (addressed s h) = 11" "addressed s req = qmux_msg (addressed s h) (fst b)"
    using h(1,2) by (simp_all add: addressed_def qmux_msg_def nth_append list_update_append Let_def)
  then show "\<exists>h. length h = 11 \<and> addressed s req = qmux_msg h (fst b)" by blast
qed

lemma addressed_tlv:
  assumes "ComposeQMUXMsg svc ty b tid = Some req" "svc \<noteq> QMUX_TYPE_CTL" "tlv_lookup (fst b) t = Some v" "t \<le> 0x1000"
  shows "\<exists>q. GetTLV (addressed s req) t = Some (Some q) \<and> rdn (addressed s req) (q + 3) (length v) = Some v"
proof -
  obtain h where h: "length h = 11" "addressed s req = qmux_msg h (fst b)" using addressed_fields(4) [OF assms(1,2)] by blast
  have l: "length (tlvs_bytes (fst b)) < 65536" using compose_is_qmux_msg [OF assms(1)] by blast
  show ?thesis
    using GetTLV_finds [OF h(1) l assms(4)] tlv_lookup_value(1) [OF h(1) l assms(3), of 0 "length v"] assms(3) h(2)
    by (auto simp: add.assoc)
qed

lemma wds_type_simps [simp]: "wds_type family \<noteq> QMUX_TYPE_CTL" "wire_svc (wds_type family) = QMUX_TYPE_WDS"
  by (simp_all add: wds_type_def wire_svc_def qmux_types)

section \<open>Properties\<close>

text \<open>
  C12. A data call that the modem grants is stopped by name: setting it up stores the handle of
  the answer for its IP family and leaves the other family's alone; stopping it sends one
  stop request, under the service WDS with the family's client number, that carries exactly
  this handle, and forgets it.
\<close>

theorem data_call_roundtrip:
  assumes fam: "{family, other} = {IpFamilyV4, IpFamilyV6}"
    and up: "replies (wds_type family) 0x0020 (WdsStartNwInterfaceReq (s_is_cdma s) (p\<lparr>curIpFamily := family\<rparr>))
        (result_ok # (0x01, le32_bytes h) # xs) rest s" "h \<noteq> 0"
    and call: "requestSetupDataCall p family s = Some (err, p', s1)"
    and down: "replies (wds_type family) 0x0021 (WdsStopNwInterfaceReq (WdsConnectionIPv4Handle s1) (WdsConnectionIPv6Handle s1) family)
        (result_ok # ys) rest' s1"
  shows "err = 0 \<and> handle family s1 = h \<and> handle other s1 = handle other s \<and>
     (\<exists>s2 m q. requestDeactivateDefaultPDP p' family s1 = Some (0, s2) \<and> handle family s2 = 0 \<and> handle other s2 = handle other s \<and>
        to_device s2 = to_device s1 @ [m] \<and> m_QMIType m = Some QMUX_TYPE_WDS \<and> m_ClientId m = Some (client (wds_type family) s) \<and>
        m_Type m = Some 0x0021 \<and> GetTLV m 0x01 = Some (Some q) \<and> rd32 m (q + 3) = Some h)"
proof -
  have f: "family \<in> {IpFamilyV4, IpFamilyV6}" using fam by auto
  obtain s' where s': "requestSetupDataCall p family s = Some (0, p\<lparr>curIpFamily := family\<rparr>, s')" "handle family s' = h"
      "qmiclientId s' = qmiclientId s" "handle other s' = handle other s"
    using setup_reply [OF up(1), of other] fam by blast
  then have e: "err = 0" "p' = p\<lparr>curIpFamily := family\<rparr>" "s1 = s'" using call by simp_all
  let ?b = "WdsStopNwInterfaceReq (WdsConnectionIPv4Handle s1) (WdsConnectionIPv6Handle s1) family"
  let ?m = "reply QMUX_TYPE_WDS (client (wds_type family) s1) (word_of_int (next_tid s1)) 0x0021 (result_ok # ys)"
  obtain req t where req: "ComposeQMUXMsg (wds_type family) 0x0021 ?b (next_tid s1) = Some req"
      and t: "request (wds_type family) 0x0021 ?b s1 = Some (0, Some ?m, t)" "to_device t = to_device s1 @ [addressed s1 req]" "handle other t = handle other s1"
    by (rule request_reply [OF down]) (auto simp: handle_def)
  have "requestDeactivateDefaultPDP p' family s1 = Some (0, set_handle family 0 t)"
    using t(1) s'(2) up(2) e(3) f
    by (auto simp: requestDeactivateDefaultPDP_def qmi_rsp_check_and_return_def reply_result [OF refl] handle_def families split: if_splits)
  moreover have "tlv_lookup (fst ?b) 0x01 = Some (le32_bytes h)" using stop_body [OF f] s'(2) e(3) by simp
  from addressed_tlv [OF req _ this, of s1] obtain q where
    "GetTLV (addressed s1 req) 0x01 = Some (Some q)" "rdn (addressed s1 req) (q + 3) 4 = Some (le32_bytes h)" by auto
  moreover from this(2) have "rd32 (addressed s1 req) (q + 3) = Some h"
    using rd32_rdn by (fastforce simp: le32_bytes_def wire_simps)
  moreover have "client (wds_type family) s1 = client (wds_type family) s" using s'(3) e(3) by (simp add: client_def)
  ultimately show ?thesis
    using addressed_fields [OF req, of s1] t(2,3) e s' handle_set_other [OF fam] by auto
qed

text \<open>A call that the modem grants as 0x11223344, then stops.\<close>

definition sample_stop :: "byte list" where
  "sample_stop = [0x01, 0x13, 0x00, 0x00, 0x01, 0x00, 0x00, 0x08, 0x00, 0x21, 0x00, 0x07, 0x00, 0x01, 0x04, 0x00, 0x44, 0x33, 0x22, 0x11]"

definition sample_call :: qmi where
  "sample_call = sample_qmi
     [answered sample_start [pad_buf (reply 0x01 7 7 0x0020 [result_ok, (0x01, le32_bytes 0x11223344)])],
      answered sample_stop [pad_buf (reply 0x01 7 8 0x0021 [result_ok])]]"

lemma sample_profile_v4: "sample_profile\<lparr>curIpFamily := IpFamilyV4\<rparr> = sample_profile"
  by (simp add: sample_profile_def IpFamilyV4_def)

lemma sample_call_up:
  "replies (wds_type IpFamilyV4) 0x0020 (WdsStartNwInterfaceReq (s_is_cdma sample_call) (sample_profile\<lparr>curIpFamily := IpFamilyV4\<rparr>))
     [result_ok, (0x01, le32_bytes 0x11223344)] [answered sample_stop [pad_buf (reply 0x01 7 8 0x0021 [result_ok])]] sample_call"
proof -
  have "next_tid sample_call = 7" "wds_type IpFamilyV4 = 0x01" "wire_svc 0x01 = 0x01" "client 0x01 sample_call = 7" "\<not> s_is_cdma sample_call"
    by (simp_all add: sample_call_def sample_qmi_def next_tid_def GetQMUXTransactionId_def wds_type_def wire_svc_def client_def qmux_types)
  then show ?thesis
    using sample_start_composed
    by (simp add: replies_def sample_profile_v4) (simp add: sample_call_def sample_qmi_def result_ok_def qmux_types)
qed

lemma data_call_roundtrip_witness:
  "\<exists>s1 s2 m. requestSetupDataCall sample_profile IpFamilyV4 sample_call = Some (0, sample_profile, s1) \<and> handle IpFamilyV4 s1 = 0x11223344 \<and>
     requestDeactivateDefaultPDP sample_profile IpFamilyV4 s1 = Some (0, s2) \<and> handle IpFamilyV4 s2 = 0 \<and>
     to_device s2 = to_device s1 @ [m] \<and> m_Type m = Some 0x0021"
proof -
  obtain s1 where s1: "requestSetupDataCall sample_profile IpFamilyV4 sample_call = Some (0, sample_profile, s1)" "handle IpFamilyV4 s1 = 0x11223344"
      "qmiclientId s1 = qmiclientId sample_call" "handle IpFamilyV6 s1 = handle IpFamilyV6 sample_call" "cdc_wdm s1"
      "exchanges s1 = [answered sample_stop [pad_buf (reply 0x01 7 8 0x0021 [result_ok])]]" "QMUXTransactionId s1 = next_tid sample_call"
    by (rule setup_reply [OF sample_call_up, of IpFamilyV6]) (auto simp: sample_profile_v4)
  have h: "WdsConnectionIPv4Handle s1 = 0x11223344" "WdsConnectionIPv6Handle s1 = 0"
    using s1(2,4) by (simp_all add: handle_def families sample_call_def sample_qmi_def)
  have c: "ComposeQMUXMsg 0x01 0x0021 (WdsStopNwInterfaceReq 0x11223344 0 IpFamilyV4) 8 = Some sample_stop" by code_simp
  have n: "next_tid s1 = 8" "client 0x01 s1 = 7" "length (qmiclientId s1) = 255" "wds_type IpFamilyV4 = 0x01" "wire_svc 0x01 = 0x01"
    using s1(3,7)
    by (simp_all add: next_tid_def GetQMUXTransactionId_def client_def sample_call_def sample_qmi_def wds_type_def wire_svc_def qmux_types)
  have "replies (wds_type IpFamilyV4) 0x0021 (WdsStopNwInterfaceReq (WdsConnectionIPv4Handle s1) (WdsConnectionIPv6Handle s1) IpFamilyV4) [result_ok] [] s1"
    using s1(5,6) by (simp add: replies_def n h c) (simp add: result_ok_def qmux_types)
  from data_call_roundtrip [OF _ sample_call_up _ s1(1) this, of IpFamilyV6] s1 show ?thesis by auto
qed


definition sample_settings :: "tlv list" where
  "sample_settings = [(0x29, le32_bytes 1500), (0x1E, le32_bytes 0x0A000002), (0x15, le32_bytes 0x08080808)]"


text \<open>
  The conversions of CDMA country and network codes invert the encoding of the standard, in
  which every digit is written one less and 0 as 9, for all codes; the wildcard values do not
  occur among them.
\<close>

definition cdma_digit :: "nat \<Rightarrow> nat" where
  "cdma_digit d = (if d = 0 then 10 else d)"

lemma cdma_digit_split:
  assumes "d < 10"
  shows "(10 * x + cdma_digit d) mod 10 = d"
    "(if d = 0 then (10 * x + cdma_digit d - 10) div 10 else (10 * x + cdma_digit d) div 10) = x"
  using assms by (auto simp: cdma_digit_def)

lemma cdma_digit_bounds: "d < 10 \<Longrightarrow> 1 \<le> cdma_digit d \<and> cdma_digit d \<le> 10"
  by (auto simp: cdma_digit_def)

theorem cdma_codes_inverted:
  assumes "d1 < 10" "d2 < 10" "d3 < 10"
  shows "quectel_convert_cdma_mcc_2_ascii_mcc (of_nat (100 * cdma_digit d1 + 10 * cdma_digit d2 + cdma_digit d3 - 111)) = of_nat (100 * d1 + 10 * d2 + d3) \<and>
     quectel_convert_cdma_mnc_2_ascii_mnc (of_nat (10 * cdma_digit d1 + cdma_digit d2 - 11)) = of_nat (10 * d1 + d2)"
proof -
  let ?a = "cdma_digit d1" and ?b = "cdma_digit d2" and ?c = "cdma_digit d3"
  let ?mcc = "of_nat (100 * ?a + 10 * ?b + ?c - 111) :: u16" and ?mnc = "of_nat (10 * ?a + ?b - 11) :: u16"
  note bd = cdma_digit_bounds [OF assms(1)] cdma_digit_bounds [OF assms(2)] cdma_digit_bounds [OF assms(3)]
  have un: "unat (of_nat n :: u16) = n" if "n < 65536" for n using that by (simp add: unat_of_nat take_bit_nat_eq_self)
  have u: "unat ?mcc = 100 * ?a + 10 * ?b + ?c - 111" "unat ?mnc = 10 * ?a + ?b - 11"
    using bd by (intro un; linarith)+
  have "unat ?mcc \<noteq> unat (0x3FF :: u16)" "unat ?mnc \<noteq> unat (0x7F :: u16)"
    unfolding u using bd by auto
  then have w: "?mcc \<noteq> 0x3FF" "?mnc \<noteq> 0x7F" by metis+
  have e: "unat ?mcc + 111 = 10 * (10 * ?a + ?b) + ?c" "unat ?mnc + 11 = 10 * ?a + ?b" unfolding u using bd by simp_all
  have d: "(if ?a = 10 then 0 else ?a) = d1" using assms(1) by (auto simp: cdma_digit_def)
  show ?thesis
    using w assms
    by (simp only: quectel_convert_cdma_mcc_2_ascii_mcc_def quectel_convert_cdma_mnc_2_ascii_mnc_def e Let_def if_False
        cdma_digit_split [OF assms(3)] cdma_digit_split [OF assms(2)] d)
      (simp add: algebra_simps)
qed

lemma cdma_codes_inverted_witness:
  "quectel_convert_cdma_mcc_2_ascii_mcc (of_nat (100 * cdma_digit 4 + 10 * cdma_digit 6 + cdma_digit 0 - 111)) = of_nat (100 * 4 + 10 * 6 + 0) \<and>
   quectel_convert_cdma_mnc_2_ascii_mnc (of_nat (10 * cdma_digit 4 + cdma_digit 6 - 11)) = of_nat (10 * 4 + 6)"
  by (rule cdma_codes_inverted) simp_all

text \<open>
  The device goes away while a request waits: the reader thread hands over NULL.
\<close>

definition closes :: "byte \<Rightarrow> u16 \<Rightarrow> body \<Rightarrow> exchange list \<Rightarrow> qmi \<Rightarrow> bool" where
  "closes svc ty b rest s \<longleftrightarrow>
     cdc_wdm s \<and> svc \<noteq> QMUX_TYPE_CTL \<and> unat svc < length (qmiclientId s) \<and> client svc s \<noteq> 0 \<and>
     (case ComposeQMUXMsg svc ty b (next_tid s) of
        None \<Rightarrow> False
      | Some req \<Rightarrow> exchanges s = accepted req [None] # rest)"

lemma request_closed:
  assumes "closes svc ty b rest s"
  obtains s' where "request svc ty b s = Some (0, None, s')" "s_pResponse s' = None" "handle family s' = handle family s"
proof -
  obtain req where req: "ComposeQMUXMsg svc ty b (next_tid s) = Some req"
    using assms by (auto simp: closes_def split: option.splits)
  let ?s = "s\<lparr>QMUXTransactionId := next_tid s\<rparr>"
  let ?t = "?s\<lparr>s_pRequest := Some req, s_pResponse := None, incoming := []\<rparr>"
  have a: "cdc_wdm s" "svc \<noteq> QMUX_TYPE_CTL" "unat svc < length (qmiclientId s)" "client svc s \<noteq> 0" "exchanges s = accepted req [None] # rest"
    using assms unfolding closes_def req option.case by blast+
  have "can_send ?t req" using a(1-4) compose_shape [OF req] by (simp add: can_send_def client_def)
  from QmiWwanSendQMI_ok [OF this, of "[None]" rest] a(5)
  have "QmiWwanSendQMI req ?t = Some (0, addressed ?t req, ?t\<lparr>exchanges := rest, incoming := [None], to_device := to_device s @ [addressed ?t req]\<rparr>)"
    by simp
  moreover have "request svc ty b s = QmiThreadSendQMITimeout True req ?s"
    using req unfolding request_def compose_def Let_def next_tid_def by simp
  ultimately have "request svc ty b s = Some (0, None, ?t\<lparr>exchanges := rest, incoming := [None], to_device := to_device s @ [addressed ?t req],
      s_pRequest := None, s_pResponse := None\<rparr>)"
    by (simp add: QmiThreadSendQMITimeout_def QmiThreadRecvQMI_def)
  then show ?thesis by (rule that) (simp_all add: handle_def)
qed

text \<open>
  C33. When the device disappears during the setup of a data call, the setup reports success
  although nothing was granted, and with no handle stored the settings are reported as read: the
  caller takes the call for connected, with the address 0.
\<close>

theorem lost_device_reported_connected:
  assumes "closes (wds_type family) 0x0020 (WdsStartNwInterfaceReq (s_is_cdma s) (p\<lparr>curIpFamily := family\<rparr>)) rest s"
    and "family \<in> {IpFamilyV4, IpFamilyV6}" "handle family s = 0"
  shows "\<exists>s1. requestSetupDataCall p family s = Some (0, p\<lparr>curIpFamily := family\<rparr>, s1) \<and> s_pResponse s1 = None \<and>
     requestGetIPAddress (p\<lparr>curIpFamily := family\<rparr>) family s1 = Some (0, clear_family family (p\<lparr>curIpFamily := family\<rparr>), s1)"
proof -
  obtain s1 where s1: "request (wds_type family) 0x0020 (WdsStartNwInterfaceReq (s_is_cdma s) (p\<lparr>curIpFamily := family\<rparr>)) s = Some (0, None, s1)"
      "s_pResponse s1 = None" "handle family s1 = handle family s"
    by (rule request_closed [OF assms(1)])
  have "requestSetupDataCall p family s = Some (0, p\<lparr>curIpFamily := family\<rparr>, s1)"
    using s1(1) by (simp add: requestSetupDataCall_def)
  moreover have "requestGetIPAddress q family s1 = Some (0, clear_family family q, s1)" for q
    using assms(2,3) s1(3) by (auto simp: requestGetIPAddress_def handle_def families)
  ultimately show ?thesis using s1(2) by blast
qed

lemma lost_device_reported_connected_witness:
  "\<exists>s1 p. requestSetupDataCall sample_profile IpFamilyV4 (sample_qmi [accepted sample_start [None]]) = Some (0, sample_profile, s1) \<and>
     requestGetIPAddress sample_profile IpFamilyV4 s1 = Some (0, p, s1) \<and> v4_Address (ipv4 p) = 0"
proof -
  let ?s = "sample_qmi [accepted sample_start [None]]"
  have n: "next_tid ?s = 7" "wds_type IpFamilyV4 = 0x01" "client 0x01 ?s = 7" "\<not> s_is_cdma ?s" "handle IpFamilyV4 ?s = 0"
    by (simp_all add: sample_qmi_def next_tid_def GetQMUXTransactionId_def wds_type_def client_def handle_def qmux_types)
  have "closes (wds_type IpFamilyV4) 0x0020 (WdsStartNwInterfaceReq (s_is_cdma ?s) (sample_profile\<lparr>curIpFamily := IpFamilyV4\<rparr>)) [] ?s"
    using sample_start_composed n by (simp add: closes_def sample_profile_v4) (simp add: sample_qmi_def qmux_types)
  from lost_device_reported_connected [OF this] n(5) show ?thesis
    by (auto simp: sample_profile_v4 clear_family_def zero_ipv4_def)
qed

end
