(* ===== verification/Atc.thy ===== *)
theory Atc
  imports AtChannel QmiThread
begin

text \<open>
  The AT back-end of the connection manager, \<^verbatim>\<open>quectel_cm_5G/src/atc.c\<close>: the start-up of the
  channel, the reader thread's loop, and the requests of \<open>atc_request_ops\<close>, each with every AT
  command it sends over the channel of \<open>AtChannel\<close> and the tokenizer of \<open>AtTok\<close> on the answers.

  What the reader thread does is given by the field \<open>feed\<close>: per command, what it reads before the
  command takes the channel's lock and while the command waits. Commands beyond the list find a
  silent modem and time out. \<open>None\<close> is a run with undefined behaviour: a null or uninitialised
  pointer is read, or an array beyond its end. Freeing and printing are left out.
\<close>

section \<open>State and commands\<close>

record atc =
  chan :: at_state
  asr_style_atc :: bool
  s_pdp :: int
  g_donot_exit_when_modem_hangup :: bool
  feed :: "(wake list \<times> wake list) list"
  main_queue :: "int list"                   \<comment> \<open>events sent to the main thread\<close>
  ifconfig_up :: nat                         \<comment> \<open>how often the shell command was run\<close>

definition at_response_error :: "int \<Rightarrow> ATResponse option \<Rightarrow> bool" where
  "at_response_error err r \<longleftrightarrow>
     err \<noteq> 0 \<or> (case r of None \<Rightarrow> True | Some x \<Rightarrow> finalResponse x = None \<or> success x = 0)"

definition onUnsolicited :: "string \<Rightarrow> int list" where
  "onUnsolicited s =
     (if strStartsWith s ''+QNETDEVSTATUS:'' then [RIL_UNSOL_DATA_CALL_LIST_CHANGED]
      else if strStartsWith s ''+CGREG:'' \<or> strStartsWith s ''+CEREG:'' \<or> strStartsWith s ''+C5GREG:''
      then [RIL_UNSOL_RESPONSE_VOICE_NETWORK_STATE_CHANGED] else [])"

fun callback :: "at_event \<Rightarrow> int list" where
  "callback (Unsolicited l pdu) = onUnsolicited l"
| "callback _ = []"

definition send_event_to_main :: "int \<Rightarrow> atc \<Rightarrow> atc" where
  "send_event_to_main e s = s\<lparr>main_queue := main_queue s @ [e]\<rparr>"

text \<open>The new channel state, with the callbacks that led to it.\<close>

definition set_chan :: "at_state \<Rightarrow> atc \<Rightarrow> atc" where
  "set_chan c s = s\<lparr>chan := c, main_queue := main_queue s @ concat (map callback (drop (length (out (chan s))) (out c)))\<rparr>"

fun run_wakes :: "wake list \<Rightarrow> at_state \<Rightarrow> at_state option" where
  "run_wakes [] c = Some c"
| "run_wakes (w # ws) c = do { c \<leftarrow> wake_step w c; run_wakes ws c }"

definition next_feed :: "atc \<Rightarrow> wake list \<times> wake list" where
  "next_feed s = (case feed s of [] \<Rightarrow> ([], []) | x # _ \<Rightarrow> x)"

definition command ::
  "(wake list \<Rightarrow> at_state \<Rightarrow> (int \<times> ATResponse option \<times> at_state) option) \<Rightarrow> atc \<Rightarrow> (int \<times> ATResponse option \<times> atc) option" where
  "command f s = do {
     c \<leftarrow> run_wakes (fst (next_feed s)) (chan s);
     (err, r, c) \<leftarrow> f (snd (next_feed s)) c;
     Some (err, r, set_chan c (s\<lparr>feed := tl (feed s)\<rparr>)) }"

definition send_command :: "string \<Rightarrow> bool \<Rightarrow> atc \<Rightarrow> (int \<times> ATResponse option \<times> atc) option" where
  "send_command c want = command (at_send_command False (Some c) want)"

definition send_singleline :: "string \<Rightarrow> string \<Rightarrow> bool \<Rightarrow> atc \<Rightarrow> (int \<times> ATResponse option \<times> atc) option" where
  "send_singleline c pre want = command (at_send_command_singleline False (Some c) (Some pre) want)"

definition send_multiline :: "string \<Rightarrow> string \<Rightarrow> bool \<Rightarrow> atc \<Rightarrow> (int \<times> ATResponse option \<times> atc) option" where
  "send_multiline c pre want = command (at_send_command_multiline False (Some c) (Some pre) want)"

definition send_numeric :: "string \<Rightarrow> bool \<Rightarrow> atc \<Rightarrow> (int \<times> ATResponse option \<times> atc) option" where
  "send_numeric c want = command (at_send_command_numeric False (Some c) want)"

text \<open>The handshake holds the lock during its eight attempts.\<close>

definition handshake :: "atc \<Rightarrow> (int \<times> atc) option" where
  "handshake s = do {
     c \<leftarrow> run_wakes (fst (next_feed s)) (chan s);
     (err, c) \<leftarrow> at_handshake False (map snd (take 8 (feed s))) c;
     Some (err, set_chan c (s\<lparr>feed := drop 8 (feed s)\<rparr>)) }"

text \<open>
  The lines of a response, its first line (undefined when there is none), and what a scan stored:
  in a variable that has a value, or in one that has none.
\<close>

fun intermediates :: "ATResponse option \<Rightarrow> string list" where
  "intermediates None = []"
| "intermediates (Some r) = p_intermediates r"

fun first_line :: "ATResponse option \<Rightarrow> string option" where
  "first_line (Some r) = (case p_intermediates r of [] \<Rightarrow> None | l # _ \<Rightarrow> Some l)"
| "first_line None = None"

definition store_at :: "store list \<Rightarrow> nat \<Rightarrow> store" where
  "store_at st i = (if i < length st then st ! i else NoStore)"

definition int_at :: "store list \<Rightarrow> nat \<Rightarrow> int \<Rightarrow> int" where
  "int_at st i v = (case store_at st i of StInt x \<Rightarrow> x | _ \<Rightarrow> v)"

definition str_at :: "store list \<Rightarrow> nat \<Rightarrow> cstr \<Rightarrow> cstr" where
  "str_at st i v = (case store_at st i of StStr x \<Rightarrow> x | _ \<Rightarrow> v)"

definition dq :: "string \<Rightarrow> string" where
  "dq s = [CHR 0x22] @ s @ [CHR 0x22]"

section \<open>Start-up and reader thread\<close>

definition set_nat :: "int \<Rightarrow> atc \<Rightarrow> atc option" where
  "set_nat new_nat s = do {
     (err, r, s) \<leftarrow> send_command (''AT+QCFG='' @ dq ''NAT'' @ '','' @ show_int new_nat) True s;
     if at_response_error err r then Some s
     else do {
       (err, _, s) \<leftarrow> send_command ''at+cfun=1,1'' False s;
       Some (if err = 0 then s\<lparr>g_donot_exit_when_modem_hangup := True\<rparr> else s) } }"

definition probe_style :: "atc \<Rightarrow> (int \<times> atc) option" where
  "probe_style s = do {
     (err, r, s) \<leftarrow> send_singleline ''AT+QNETDEVSTATUS=?'' ''+QNETDEVSTATUS:'' True s;
     Some (err, if at_response_error err r then s\<lparr>asr_style_atc := True\<rparr> else s) }"

definition atc_init :: "PROFILE_T \<Rightarrow> atc \<Rightarrow> (int \<times> atc) option" where
  "atc_init p s =
     (if proxy p \<noteq> [] then probe_style (s\<lparr>s_pdp := pdp p\<rparr>)
      else do {
        (err, s) \<leftarrow> handshake s;
        if err \<noteq> 0 then Some (err, s)
        else do {
          (_, _, s) \<leftarrow> send_singleline (''AT+QCFG='' @ dq ''usbnet'') ''+QCFG:'' False (s\<lparr>s_pdp := pdp p\<rparr>);
          (_, _, s) \<leftarrow> send_multiline ''AT+QNETDEVCTL=?'' ''+QNETDEVCTL:'' False s;
          (_, _, s) \<leftarrow> send_command ''AT+CGREG=2'' False s;
          (_, _, s) \<leftarrow> send_command ''AT+CEREG=2'' False s;
          (_, _, s) \<leftarrow> send_command ''AT+C5GREG=2'' False s;
          (_, s) \<leftarrow> probe_style s;
          (err, r, s) \<leftarrow> send_singleline (''AT+QCFG='' @ dq ''NAT'') ''+QCFG:'' True s;
          if at_response_error err r then Some (err, s)
          else do {
            l \<leftarrow> first_line r;
            (n, st) \<leftarrow> at_tok_scanf (Some l) ''%s%d'';
            let new_nat = (if asr_style_atc s then 1 else 0);
            s \<leftarrow> (if n = 2 \<and> int_at st 1 0 \<noteq> new_nat then set_nat new_nat s else Some s);
            Some (0, s) } } })"

text \<open>
  The loop of the reader thread on the results of its \<open>poll\<close> calls: what was returned, and for the
  device and the control socket whether they are in error or readable, with the event read.
\<close>

datatype fd_ready = FdQuiet | FdBroken | FdIn "int option"

fun atc_poll :: "bool \<Rightarrow> int \<times> fd_ready \<times> fd_ready \<Rightarrow> bool \<times> bool" where
  "atc_poll w (ret, dev, ctl) =
     (if ret = 0 \<and> w \<or> ret < 0 \<or> dev = FdBroken \<or> ctl = FdBroken then (True, w)
      else case ctl of
        FdIn (Some e) \<Rightarrow> if e = RIL_REQUEST_QUIT then (True, w) else (False, w \<or> e = SIG_EVENT_STOP)
      | _ \<Rightarrow> (False, w))"

fun atc_read_loop :: "bool \<Rightarrow> (int \<times> fd_ready \<times> fd_ready) list \<Rightarrow> bool" where
  "atc_read_loop w [] = False"
| "atc_read_loop w (x # xs) = (case atc_poll w x of (quit, w) \<Rightarrow> quit \<or> atc_read_loop w xs)"

text \<open>Before the loop, and after it; \<open>opened\<close> is the outcome of starting the channel's reader.\<close>

definition atc_read_start :: "int \<Rightarrow> bool \<Rightarrow> atc \<Rightarrow> bool \<times> atc" where
  "atc_read_start fd opened s =
     (if fd \<le> 0 then (False, s)
      else let s = s\<lparr>chan := at_open fd True False (chan s)\<rparr> in
        if \<not> opened then (False, s)
        else (True, send_event_to_main RIL_INDICATE_DEVICE_CONNECTED
               (s\<lparr>chan := at_set_on_reader_closed True (at_set_on_timeout True (chan s))\<rparr>)))"

definition atc_read_quit :: "atc \<Rightarrow> atc" where
  "atc_read_quit s = send_event_to_main RIL_INDICATE_DEVICE_DISCONNECTED (s\<lparr>chan := at_close (chan s)\<rparr>)"

section \<open>Requests\<close>

definition requestBaseBandVersion :: "PROFILE_T \<Rightarrow> atc \<Rightarrow> (int \<times> PROFILE_T \<times> atc) option" where
  "requestBaseBandVersion p s = do {
     (err, r, s) \<leftarrow> send_multiline ''AT+CGMR'' [] True s;
     if at_response_error err r then Some (-1, p, s)
     else Some (case intermediates r of [] \<Rightarrow> (-1, p, s) | l # _ \<Rightarrow> (0, p\<lparr>BaseBandVersion := take 63 l\<rparr>, s)) }"

definition CME_SUCCESS :: int where "CME_SUCCESS = 0"
definition CME_OPERATION_NOT_ALLOWED :: int where "CME_OPERATION_NOT_ALLOWED = 3"
definition CME_SIM_NOT_INSERTED :: int where "CME_SIM_NOT_INSERTED = 10"
definition CME_FAILURE :: int where "CME_FAILURE = 13"

text \<open>The last branch of \<open>requestGetSIMStatus\<close> returns without storing the status.\<close>

definition cpin_status :: "SIM_Status \<Rightarrow> string \<Rightarrow> int \<times> SIM_Status" where
  "cpin_status old x =
     (if x = ''SIM PIN'' then (0, SIM_PIN)
      else if x = ''SIM PUK'' then (0, SIM_PUK)
      else if x = ''PH-NET PIN'' then (5, old)
      else if x \<noteq> ''READY'' then (0, SIM_ABSENT)
      else (0, SIM_READY))"

definition requestGetSIMStatus :: "SIM_Status \<Rightarrow> atc \<Rightarrow> (int \<times> SIM_Status \<times> atc) option" where
  "requestGetSIMStatus old s = do {
     (err, r, s) \<leftarrow> send_singleline ''AT+CPIN?'' ''+CPIN:'' True s;
     if at_response_error err r then Some (err, SIM_NOT_READY, s)
     else let cme = at_get_cme_error r in
       if cme \<noteq> CME_SUCCESS then
         Some (err, if cme \<in> {CME_SIM_NOT_INSERTED, CME_OPERATION_NOT_ALLOWED, CME_FAILURE} then SIM_ABSENT else SIM_NOT_READY, s)
       else do {
         l \<leftarrow> first_line r;
         let (err, cur) = at_tok_start (Some l);
         if err < 0 then Some (err, SIM_NOT_READY, s)
         else let (err, _, x) = at_tok_nextstr cur in
           if err < 0 then Some (err, SIM_NOT_READY, s)
           else do { x \<leftarrow> x; let (ret, st) = cpin_status old x; Some (ret, st, s) } } }"

definition requestEnterSimPin :: "string \<Rightarrow> atc \<Rightarrow> (int \<times> atc) option" where
  "requestEnterSimPin pPinCode s = do {
     (err, r, s) \<leftarrow> send_command (''AT+CPIN='' @ pPinCode) False s;
     Some (if \<not> at_response_error err None then 0 else -1, s) }"

definition ipStr :: "string list" where
  "ipStr = [''NULL'', ''IPV4'', ''IPV6'', ''IPV4V6'']"

definition ip_name :: "int \<Rightarrow> string option" where
  "ip_name i = (if 0 \<le> i \<and> i < 4 then Some (ipStr ! nat i) else None)"

definition or_empty :: "cstr \<Rightarrow> string" where
  "or_empty s = (case s of None \<Rightarrow> [] | Some x \<Rightarrow> x)"

definition same_profile :: "PROFILE_T \<Rightarrow> bool" where
  "same_profile p \<longleftrightarrow> old_apn p = or_empty (apn p) \<and> old_user p = or_empty (user p) \<and> old_password p = or_empty (password p) \<and>
     old_iptype p = iptype p \<and> old_auth p = auth p"

definition qicsgp_set :: "int \<Rightarrow> int \<Rightarrow> string \<Rightarrow> string \<Rightarrow> string \<Rightarrow> int \<Rightarrow> string" where
  "qicsgp_set cid ipt a u w au =
     ''AT+QICSGP='' @ show_int cid @ '','' @ show_int ipt @ '','' @ dq a @ '','' @ dq u @ '','' @ dq w @ '','' @ show_int au"

definition requestSetProfile :: "PROFILE_T \<Rightarrow> atc \<Rightarrow> (int \<times> atc) option" where
  "requestSetProfile p s = do {
     name \<leftarrow> ip_name (iptype p);
     if same_profile p then Some (0, s)
     else do {
       (err, r, s) \<leftarrow> send_command
         (qicsgp_set (pdp p) (iptype p) (or_empty (apn p)) (or_empty (user p)) (or_empty (password p)) (auth p)) True s;
       if at_response_error err r then do {
         (_, _, s) \<leftarrow> send_command (''AT+CGDCONT='' @ show_int (pdp p) @ '','' @ dq name @ '','' @ dq (or_empty (apn p))) True s;
         Some (1, s) }
       else Some (1, s) } }"

text \<open>The loop back to \<open>_re_check\<close>.\<close>

partial_function (option) qicsgp_query :: "PROFILE_T \<Rightarrow> atc \<Rightarrow> (int \<times> ATResponse option \<times> atc) option" where
  "qicsgp_query p s = do {
     (err, r, s) \<leftarrow> send_singleline (''AT+QICSGP='' @ show_int (pdp p)) ''+QICSGP:'' True s;
     if err = AT_ERROR_INVALID_RESPONSE \<and> r = None then do {
       (err, r, s) \<leftarrow> send_command (qicsgp_set (pdp p) (iptype p) [] [] [] 0) True s;
       if at_response_error err r then Some (err, r, s) else qicsgp_query p s }
     else Some (err, r, s) }"

text \<open>The search for the context among the lines: the IP type and the access point, if it is there.\<close>

fun cgdcont_loop :: "int \<Rightarrow> string list \<Rightarrow> int \<Rightarrow> cstr \<Rightarrow> cstr \<Rightarrow> (int \<times> cstr) option" where
  "cgdcont_loop want [] cid ipt old = Some (1, old)"
| "cgdcont_loop want (l # ls) cid ipt old = do {
     (n, st) \<leftarrow> at_tok_scanf (Some l) ''%d%s%s'';
     let cid = int_at st 0 cid;
     let ipt = str_at st 1 ipt;
     let old = str_at st 2 old;
     if n = 3 \<and> cid = want then do {
       t \<leftarrow> ipt;
       Some (if strcasecmp_eq t ''IPV4V6'' then 3 else if strcasecmp_eq t ''IPV6'' then 2 else 1, old) }
     else cgdcont_loop want ls cid ipt None }"

text \<open>\<open>strncpy\<close> into an array of 64 characters that is read as a string afterwards.\<close>

definition copy64 :: "cstr \<Rightarrow> string option" where
  "copy64 x = (if length (or_empty x) < 64 then Some (or_empty x) else None)"

definition store_old :: "PROFILE_T \<Rightarrow> int \<Rightarrow> cstr \<Rightarrow> cstr \<Rightarrow> cstr \<Rightarrow> int \<Rightarrow> PROFILE_T option" where
  "store_old p ipt a u w au = do {
     a \<leftarrow> copy64 a; u \<leftarrow> copy64 u; w \<leftarrow> copy64 w; _ \<leftarrow> ip_name ipt;
     Some (p\<lparr>old_apn := a, old_user := u, old_password := w, old_auth := au, old_iptype := ipt\<rparr>) }"

definition set_iptype :: "PROFILE_T \<Rightarrow> PROFILE_T" where
  "set_iptype p = p\<lparr>iptype := if enable_ipv4 p \<and> enable_ipv6 p then 3 else if enable_ipv6 p then 2 else 1\<rparr>"

text \<open>\<open>junk\<close> is what the uninitialised variable \<open>pdp\<close> holds.\<close>

definition requestGetProfile :: "int \<Rightarrow> PROFILE_T \<Rightarrow> atc \<Rightarrow> (int \<times> PROFILE_T \<times> atc) option" where
  "requestGetProfile junk p s = (let p = set_iptype p in do {
     (err, r, s) \<leftarrow> qicsgp_query p s;
     if \<not> at_response_error err r then do {
       l \<leftarrow> first_line r;
       (n, st) \<leftarrow> at_tok_scanf (Some l) ''%d%s%s%s%d'';
       p' \<leftarrow> store_old p (int_at st 0 1) (str_at st 1 (Some [])) (str_at st 2 (Some [])) (str_at st 3 (Some [])) (int_at st 4 0);
       Some (if n \<noteq> 4 \<or> junk \<noteq> pdp p then -1 else 0, p', s) }
     else do {
       (err, r, s) \<leftarrow> send_multiline ''AT+CGDCONT?'' ''+CGDCONT:'' True s;
       if at_response_error err r then do {
         p' \<leftarrow> store_old p 1 (Some []) (Some []) (Some []) 0;
         Some (-1, p', s) }
       else do {
         (ipt, a) \<leftarrow> cgdcont_loop (pdp p) (intermediates r) junk None (Some []);
         p' \<leftarrow> store_old p ipt a (Some []) (Some []) 0;
         Some (0, p', s) } } })"

text \<open>The registration line that belongs to the access technology, and the state in it.\<close>

definition reg_command :: "int \<Rightarrow> (string \<times> string) option" where
  "reg_command act =
     (if act \<in> {2, 4, 5, 6} then Some (''AT+CGREG?'', ''+CGREG:'')
      else if act \<in> {7, 13} then Some (''AT+CEREG?'', ''+CEREG:'')
      else if act \<in> {10, 11, 12} then Some (''AT+C5GREG?'', ''+C5GREG:'')
      else None)"

definition reg_scan :: "string \<Rightarrow> string \<Rightarrow> nat \<Rightarrow> int option option" where
  "reg_scan l fmt k = do {
     (n, st) \<leftarrow> at_tok_scanf (Some l) fmt;
     Some (if n \<noteq> k then None else Some (int_at st 1 0)) }"

definition reg_state :: "string \<Rightarrow> int option option" where
  "reg_state l =
     (let commas = at_tok_count (Some l) in
      if commas = 0 then (case at_tok_nextint (Some l) of (err, _, v) \<Rightarrow> Some (if err < 0 then None else v))
      else if commas = 1 then reg_scan l ''%d%d'' 2
      else if commas = 2 then reg_scan l ''%d%x%x'' 3
      else if commas = 3 then reg_scan l ''%d%d%x%x'' 4
      else if commas \<le> 7 then reg_scan l ''%d%d%x%x%d'' 5
      else Some None)"

definition cops_act :: "string list \<Rightarrow> int option option" where
  "cops_act ls = (case ls of
       [] \<Rightarrow> Some (Some (-1))
     | l # _ \<Rightarrow> do { (n, st) \<leftarrow> at_tok_scanf (Some l) ''%d%d%s%d''; Some (if n \<noteq> 4 then None else Some (int_at st 3 (-1))) })"

text \<open>The return value and the attached state.\<close>

definition requestRegistrationState :: "atc \<Rightarrow> (int \<times> byte \<times> atc) option" where
  "requestRegistrationState s = do {
     (err, r, s) \<leftarrow> send_multiline ''AT+COPS=3,0;+COPS?;+COPS=3,1;+COPS?;+COPS=3,2;+COPS?'' ''+COPS:'' True s;
     if at_response_error err r then Some (-1, 0, s)
     else do {
       act \<leftarrow> cops_act (intermediates r);
       case Option.bind act reg_command of
         None \<Rightarrow> Some (0, 0, s)
       | Some (c, pre) \<Rightarrow> do {
           (err, r, s) \<leftarrow> send_singleline c pre True s;
           if at_response_error err r then Some (0, 0, s)
           else case intermediates r of
             [] \<Rightarrow> Some (0, 0, s)
           | l # _ \<Rightarrow> do {
               state \<leftarrow> reg_state l;
               Some (0, if state = Some 1 \<or> state = Some 5 then 1 else 0, s) } } } }"

text \<open>
  The state of context \<open>want\<close> among the lines of \<open>+CGACT:\<close>; \<open>reset\<close> is the value that \<open>cid\<close> gets
  before every line, if it is reset at all.
\<close>

fun cgact_loop :: "int \<Rightarrow> int option \<Rightarrow> int \<Rightarrow> string list \<Rightarrow> int option" where
  "cgact_loop want reset cid [] = Some 0"
| "cgact_loop want reset cid (l # ls) = do {
     (n, st) \<leftarrow> at_tok_scanf (Some l) ''%d%d'';
     let cid = int_at st 0 (case reset of None \<Rightarrow> cid | Some v \<Rightarrow> v);
     if cid = want then Some (int_at st 1 0) else cgact_loop want reset cid ls }"

text \<open>The wait for the result of the call: at most fifteen queries, a second apart.\<close>

fun status_loop :: "nat \<Rightarrow> string \<Rightarrow> int \<Rightarrow> atc \<Rightarrow> (int \<times> bool \<times> atc) option" where
  "status_loop 0 c err s = Some (err, True, s)"
| "status_loop (Suc n) c err s = do {
     (err, r, s) \<leftarrow> send_singleline c ''+QNETDEVSTATUS'' True s;
     if err \<noteq> 0 then Some (err, False, s)
     else if \<not> at_response_error err r then Some (err, True, s)
     else status_loop n c err s }"

definition netdevctl :: "bool \<Rightarrow> int \<Rightarrow> int \<Rightarrow> string" where
  "netdevctl asr cid on =
     ''AT+QNETDEVCTL='' @ (if asr then show_int on @ '','' @ show_int cid else show_int cid @ '','' @ show_int on) @ '','' @ show_int on"

text \<open>
  Modems of the other style need the context activated first; the result is the error code and
  whether the set-up goes on.
\<close>

definition activate_context :: "int \<Rightarrow> atc \<Rightarrow> (int \<times> bool \<times> atc) option" where
  "activate_context cid s = do {
     (err, r, s) \<leftarrow> send_multiline ''AT+CGACT?'' ''+CGACT:'' True s;
     if at_response_error err r then Some (err, False, s)
     else do {
       state \<leftarrow> cgact_loop cid (Some 0) 0 (intermediates r);
       if state \<noteq> 0 then Some (err, True, s)
       else do {
         (err, r, s) \<leftarrow> send_command (''AT+CGACT=1,'' @ show_int cid) True s;
         Some (err, \<not> at_response_error err r, s) } } }"

definition requestSetupDataCall :: "PROFILE_T \<Rightarrow> atc \<Rightarrow> (int \<times> atc) option" where
  "requestSetupDataCall p s = do {
     let s = (if strStartsWith (BaseBandVersion p) ''RG801H'' \<or> strStartsWith (BaseBandVersion p) ''EC200H''
              then s\<lparr>ifconfig_up := Suc (ifconfig_up s)\<rparr> else s);
     (err, go, s) \<leftarrow> (if asr_style_atc s then activate_context (pdp p) s else Some (0, True, s));
     if \<not> go then Some (err, s)
     else do {
       (err, r, s) \<leftarrow> send_command (netdevctl (asr_style_atc s) (pdp p) 1) True s;
       if at_response_error err r then Some (err, s)
       else do {
         (err, go, s) \<leftarrow> (if asr_style_atc s then Some (err, True, s)
                        else status_loop 15 (''AT+QNETDEVSTATUS='' @ show_int (pdp p)) err s);
         Some (err, if go then send_event_to_main RIL_UNSOL_DATA_CALL_LIST_CHANGED s else s) } } }"

text \<open>
  \<open>sscanf\<close> with \<open>%d.%d.%d.%d\<close> and with \<open>%02X%02X%02X%02X\<close>: the numbers converted before the first
  mismatch. A decimal number beyond \<open>long\<close> saturates; a hexadecimal field has at most two characters.
\<close>

definition scan_d :: "string \<Rightarrow> (int \<times> string) option" where
  "scan_d s =
     (let t = dropWhile isspace s;
          neg = (case t of c # _ \<Rightarrow> c = CHR ''-'' | [] \<Rightarrow> False);
          u = (case t of c # r \<Rightarrow> if c = CHR ''-'' \<or> c = CHR ''+'' then r else t | [] \<Rightarrow> t);
          ds = takeWhile isdigit u;
          m = int (digits_val 10 0 ds)
      in if ds = [] then None
         else Some (to_int32 (if neg then max (- (2 ^ 63)) (- m) else min (2 ^ 63 - 1) m), drop (length ds) u))"

fun scan_dotted :: "nat \<Rightarrow> string \<Rightarrow> int list" where
  "scan_dotted 0 s = []"
| "scan_dotted (Suc n) s =
     (case scan_d s of
        None \<Rightarrow> []
      | Some (v, r) \<Rightarrow> v # (case r of c # r' \<Rightarrow> if c = CHR ''.'' then scan_dotted n r' else [] | [] \<Rightarrow> []))"

fun scan_hex :: "nat \<Rightarrow> string \<Rightarrow> int list" where
  "scan_hex 0 s = []"
| "scan_hex (Suc n) s = (case scan_X2 s of None \<Rightarrow> [] | Some (v, r) \<Rightarrow> v # scan_hex n r)"

text \<open>The address from its bytes; those that were not converted are 0.\<close>

definition pack_addr :: "int list \<Rightarrow> u32" where
  "pack_addr a =
     (let b = (\<lambda>i. if i < length a then (word_of_int (a ! i) :: u32) else 0)
      in b 0 OR push_bit 8 (b 1) OR push_bit 16 (b 2) OR push_bit 24 (b 3))"

definition parse_v4 :: "string \<Rightarrow> u32" where
  "parse_v4 x = pack_addr (if CHR ''.'' \<in> set x then scan_dotted 4 x
     else let h = scan_hex 4 x in rev (h @ replicate (4 - length h) 0))"

definition at_netdevstatus :: "int \<Rightarrow> atc \<Rightarrow> (int \<times> u32 \<times> atc) option" where
  "at_netdevstatus cid s = do {
     (err, r, s) \<leftarrow> send_singleline (''AT+QNETDEVSTATUS='' @ show_int cid) ''+QNETDEVSTATUS'' True s;
     if at_response_error err r then Some (0, 0, s)
     else case intermediates r of
       [] \<Rightarrow> Some (0, 0, s)
     | l # _ \<Rightarrow> do {
         (n, st) \<leftarrow> at_tok_scanf (Some l) ''%s%s%s%s%s%s%s%s%s%s'';
         Some (0, if 0 < n then (case str_at st 0 None of None \<Rightarrow> 0 | Some x \<Rightarrow> if x = [] then 0 else parse_v4 x) else 0, s) } }"

text \<open>The lines of \<open>+QNETDEVCTL:\<close>, on \<open>bind\<close>, \<open>cid\<close> and \<open>state\<close>.\<close>

fun netdevctl_loop :: "int \<Rightarrow> string list \<Rightarrow> int \<times> int \<times> int \<Rightarrow> (int \<times> int \<times> int) option" where
  "netdevctl_loop want [] x = Some x"
| "netdevctl_loop want (l # ls) (bnd, cid, state) = do {
     (n, st) \<leftarrow> at_tok_scanf (Some l) ''%d%d%d%d'';
     let bnd = int_at st 0 bnd;
     let cid = int_at st 1 cid;
     let state = int_at st 3 state;
     netdevctl_loop want ls (if n = 4 \<and> cid = want \<and> bnd \<noteq> 1 then 0 else bnd, cid, state) }"

text \<open>The connection status; \<open>junk\<close> is what the uninitialised variable \<open>cid\<close> holds.\<close>

definition requestQueryDataCall :: "int \<Rightarrow> atc \<Rightarrow> (int \<times> byte \<times> atc) option" where
  "requestQueryDataCall junk s =
     (if \<not> asr_style_atc s then do {
        (err, v4Addr, s) \<leftarrow> at_netdevstatus (s_pdp s) s;
        Some (err, if err = 0 \<and> v4Addr \<noteq> 0 then QWDS_PKT_DATA_CONNECTED else QWDS_PKT_DATA_DISCONNECTED, s) }
      else do {
        (err, r, s) \<leftarrow> send_multiline ''AT+QNETDEVCTL?'' ''+QNETDEVCTL:'' True s;
        if at_response_error err r then Some (0, QWDS_PKT_DATA_DISCONNECTED, s)
        else do {
          (bnd, cid, state) \<leftarrow> netdevctl_loop (s_pdp s) (intermediates r) (0, junk, 0);
          if bnd = 0 \<or> state = 0 then Some (0, QWDS_PKT_DATA_DISCONNECTED, s)
          else do {
            (err, r, s) \<leftarrow> send_multiline ''AT+CGACT?'' ''+CGACT:'' True s;
            if at_response_error err r then Some (0, QWDS_PKT_DATA_DISCONNECTED, s)
            else if intermediates r = [] then Some (0, QWDS_PKT_DATA_CONNECTED, s)
            else do {
              state \<leftarrow> cgact_loop (s_pdp s) None cid (intermediates r);
              Some (0, if state \<noteq> 0 then QWDS_PKT_DATA_CONNECTED else QWDS_PKT_DATA_DISCONNECTED, s) } } } })"

definition requestDeactivateDefaultPDP :: "PROFILE_T \<Rightarrow> atc \<Rightarrow> (int \<times> atc) option" where
  "requestDeactivateDefaultPDP p s = do {
     (_, _, s) \<leftarrow> send_command (netdevctl (asr_style_atc s) (pdp p) 0) False s;
     Some (0, s) }"

fun cgpaddr_loop :: "int \<Rightarrow> string list \<Rightarrow> int \<Rightarrow> u32 option" where
  "cgpaddr_loop want [] cid = Some 0"
| "cgpaddr_loop want (l # ls) cid = do {
     (n, st) \<leftarrow> at_tok_scanf (Some l) ''%d%s%s'';
     let cid = int_at st 0 cid;
     case str_at st 1 None of
       Some x \<Rightarrow> if n < 2 \<or> cid \<noteq> want then cgpaddr_loop want ls cid else Some (pack_addr (scan_dotted 4 x))
     | None \<Rightarrow> cgpaddr_loop want ls cid }"

definition requestGetIPAddress :: "PROFILE_T \<Rightarrow> atc \<Rightarrow> (int \<times> PROFILE_T \<times> atc) option" where
  "requestGetIPAddress p s = do {
     (v4Addr, s) \<leftarrow>
       (if \<not> asr_style_atc s then do { (_, v, s) \<leftarrow> at_netdevstatus (pdp p) s; Some (v, s) }
        else do {
          (err, r, s) \<leftarrow> send_singleline (''AT+CGPADDR='' @ show_int (pdp p)) ''+CGPADDR:'' True s;
          if at_response_error err r then Some (0, s)
          else do { v \<leftarrow> cgpaddr_loop (pdp p) (intermediates r) (pdp p); Some (v, s) } });
     Some (if v4Addr \<noteq> 0 then 0 else -1,
           if v4Addr \<noteq> 0 \<and> v4_Address (ipv4 p) \<noteq> v4Addr then p\<lparr>ipv4 := (ipv4 p)\<lparr>v4_Address := v4Addr\<rparr>\<rparr> else p, s) }"

text \<open>
  The serving cell's values are only printed, and not even that unless \<open>verbose\<close> is set; what
  remains is the search for a non-standalone cell.
\<close>

fun qeng_loop :: "string list \<Rightarrow> bool \<Rightarrow> bool option" where
  "qeng_loop [] nsa = Some nsa"
| "qeng_loop (l # ls) nsa = do {
     (n, st) \<leftarrow> at_tok_scanf (Some l) ''%s%s'';
     if n \<noteq> 2 then qeng_loop ls nsa
     else do {
       type \<leftarrow> str_at st 0 None;
       if type \<noteq> ''servingcell'' then qeng_loop ls nsa
       else do {
         state \<leftarrow> str_at st 1 None;
         if state = ''SEARCH'' \<or> state = ''LIMSRV'' then qeng_loop ls nsa
         else if state = ''NOCONN'' \<or> state = ''CONNECT'' then do {
           (n, st) \<leftarrow> at_tok_scanf (Some l) ''%s%s%s'';
           if n \<noteq> 3 then qeng_loop ls nsa
           else do { rat \<leftarrow> str_at st 2 None; qeng_loop ls (nsa \<or> rat = ''NR5G-NSA'') } }
         else qeng_loop ls (nsa \<or> state = ''NR5G-NSA'') } } }"

definition requestGetSignalInfo :: "atc \<Rightarrow> (int \<times> atc) option" where
  "requestGetSignalInfo s = do {
     (err, r, s) \<leftarrow> send_singleline ''at+cops?'' ''+COPS:'' True s;
     if at_response_error err r then Some (-1, s)
     else case intermediates r of
       [] \<Rightarrow> Some (-1, s)
     | l # _ \<Rightarrow> do {
         (n, st) \<leftarrow> at_tok_scanf (Some l) ''%d%d%s%d'';
         if n \<noteq> 4 then Some (0, s)
         else do {
           (err, r, s) \<leftarrow> send_multiline (''at+qeng='' @ dq ''servingcell'') ''+QENG:'' True s;
           if at_response_error err r then Some (0, s)
           else do {
             nsa \<leftarrow> qeng_loop (intermediates r) False;
             if nsa then do { (_, _, s) \<leftarrow> send_multiline ''at+qendc'' ''+QENDC:'' True s; Some (0, s) }
             else Some (0, s) } } } }"

text \<open>The two identities are only printed.\<close>

definition requestGetICCID :: "atc \<Rightarrow> (int \<times> atc) option" where
  "requestGetICCID s = do {
     (err, r, s) \<leftarrow> send_singleline ''AT+QCCID'' ''+QCCID:'' True s;
     if at_response_error err r then Some (-1, s)
     else case intermediates r of
       [] \<Rightarrow> Some (-1, s)
     | l # _ \<Rightarrow> do {
         (n, st) \<leftarrow> at_tok_scanf (Some l) ''%s'';
         if n \<noteq> 1 then Some (-1, s)
         else case store_at st 0 of
           StStr x \<Rightarrow> Some (if or_empty x = [] then -1 else 0, s)
         | _ \<Rightarrow> None } }"

definition requestGetIMSI :: "atc \<Rightarrow> (int \<times> atc) option" where
  "requestGetIMSI s = do {
     (err, r, s) \<leftarrow> send_numeric ''AT+CIMI'' True s;
     Some (if at_response_error err r \<or> intermediates r = [] then -1 else 0, s) }"

section \<open>The channel between requests\<close>

text \<open>No command is pending: what every request starts from and leaves.\<close>

definition idle :: "atc \<Rightarrow> bool" where
  "idle s \<longleftrightarrow> sp_response (chan s) = None"

lemma wake_idle:
  assumes "sp_response c = None"
  shows "\<exists>c'. wake_step w c = Some c' \<and> sp_response c' = None"
  using assms by (cases w) (auto simp: processLine_def at_close_def)

lemma run_wakes_idle: "sp_response c = None \<Longrightarrow> \<exists>c'. run_wakes ws c = Some c' \<and> sp_response c' = None"
proof (induction ws arbitrary: c)
  case (Cons w ws)
  then obtain d where "wake_step w c = Some d" "sp_response d = None" using wake_idle by blast
  with Cons.IH [of d] show ?case by simp
qed simp

text \<open>What the commands leave alone.\<close>

definition same_conf :: "atc \<Rightarrow> atc \<Rightarrow> bool" where
  "same_conf s t \<longleftrightarrow> asr_style_atc t = asr_style_atc s \<and> s_pdp t = s_pdp s \<and> ifconfig_up t = ifconfig_up s \<and>
     g_donot_exit_when_modem_hangup t = g_donot_exit_when_modem_hangup s"

lemma set_chan_simps [simp]:
  "chan (set_chan c s) = c" "feed (set_chan c s) = feed s" "asr_style_atc (set_chan c s) = asr_style_atc s" "s_pdp (set_chan c s) = s_pdp s"
  "ifconfig_up (set_chan c s) = ifconfig_up s" "g_donot_exit_when_modem_hangup (set_chan c s) = g_donot_exit_when_modem_hangup s"
  by (simp_all add: set_chan_def)

text \<open>A response without error has a final line; one to a single-line command also has a line.\<close>

definition good_response :: "bool \<Rightarrow> int \<Rightarrow> ATResponse option \<Rightarrow> bool" where
  "good_response lined err r \<longleftrightarrow> (lined \<and> \<not> at_response_error err r \<longrightarrow> intermediates r \<noteq> [])"

definition counted :: "at_state \<Rightarrow> bool" where
  "counted c \<longleftrightarrow> (\<forall>r. sp_response c = Some r \<longrightarrow> 0 \<le> success r)"

lemma processLine_counted:
  assumes "counted c" "processLine l c = Some c'"
  shows "counted c'"
proof (cases "sp_response c")
  case (Some r)
  then have "0 \<le> success r" using assms(1) by (simp add: counted_def)
  with Some assms(2) show ?thesis
    by (auto simp: processLine_def counted_def handleFinalResponse_def addIntermediate_def
        split: if_splits ATCommandType.splits option.splits)
qed (use assms in \<open>auto simp: processLine_def counted_def\<close>)

lemma wake_counted:
  assumes "counted c" "wake_step w c = Some c'"
  shows "counted c'"
  using assms by (cases w) (auto simp: processLine_counted, auto simp: counted_def at_close_def)

lemma wait_counted: "wait_loop evs c = Some (b, c') \<Longrightarrow> counted c \<Longrightarrow> counted c'"
proof (induction evs arbitrary: c)
  case (Cons e es)
  show ?case
  proof (cases "sp_response c = None \<or> cmd_done c")
    case False
    then obtain d where "wake_step e c = Some d" "wait_loop es d = Some (b, c')" using Cons.prems(1) by (auto split: option.splits)
    then show ?thesis using Cons.IH wake_counted Cons.prems(2) by blast
  qed (use Cons.prems in \<open>auto split: if_splits\<close>)
qed (auto split: if_splits)

lemma full_counted:
  assumes "at_send_command_full False cmd ty pre None want evs c = Some (err, Some r, c')"
  shows "0 \<le> success r"
proof -
  from assms obtain d where "at_send_command_full_nolock cmd ty pre None want evs c = Some (err, Some r, d)"
    by (auto simp: at_send_command_full_def split: option.splits)
  then obtain c1 c2 x where "wait_loop evs (c1\<lparr>sp_response := Some at_response_new\<rparr>) = Some (True, c2)" "sp_response c2 = Some x" "r = reverseIntermediates x"
    by (auto simp: at_send_command_full_nolock_def Let_def split: if_splits prod.splits option.splits bool.splits)
  moreover have "counted (c1\<lparr>sp_response := Some at_response_new\<rparr>)" by (simp add: counted_def at_response_new_def)
  ultimately have "counted c2" "sp_response c2 = Some x" using wait_counted by blast+
  then show ?thesis using \<open>r = reverseIntermediates x\<close> by (simp add: counted_def reverseIntermediates_def)
qed

lemma full_defined:
  assumes "prefix_given ty pre" "sp_response c = None"
  shows "\<exists>err r c'. at_send_command_full False cmd ty pre None want evs c = Some (err, r, c') \<and> sp_response c' = None"
proof -
  from send_full_total [OF assms] obtain err r c' where
    "at_send_command_full_nolock cmd ty pre None want evs c = Some (err, r, c')" "sp_response c' = None" by blast
  then show ?thesis by (simp add: at_send_command_full_def)
qed

lemma singleline_defined:
  assumes "prefix_given ty pre" "sp_response c = None"
  shows "\<exists>err r c'. map_option require_intermediate (at_send_command_full False cmd ty pre None want evs c) = Some (err, r, c') \<and>
     sp_response c' = None \<and> good_response True err r"
proof -
  from full_defined [OF assms] obtain err r c' where r: "at_send_command_full False cmd ty pre None want evs c = Some (err, r, c')" "sp_response c' = None"
    by blast
  have "0 \<le> success x" if "r = Some x" for x using full_counted r(1) that by blast
  with r show ?thesis
    by (cases r) (auto simp: require_intermediate_def good_response_def at_response_error_def at_errors)
qed

lemma command_defined:
  assumes "idle s" "\<And>evs c. sp_response c = None \<Longrightarrow> \<exists>err r c'. f evs c = Some (err, r, c') \<and> sp_response c' = None \<and> P err r"
  shows "\<exists>err r s'. command f s = Some (err, r, s') \<and> idle s' \<and> P err r \<and> same_conf s s' \<and> feed s' = tl (feed s)"
proof -
  obtain c where c: "run_wakes (fst (next_feed s)) (chan s) = Some c" "sp_response c = None"
    using run_wakes_idle assms(1) by (auto simp: idle_def)
  obtain err r c' where "f (snd (next_feed s)) c = Some (err, r, c')" "sp_response c' = None" "P err r" using assms(2) [OF c(2)] by blast
  with c(1) show ?thesis by (simp add: command_def idle_def same_conf_def)
qed

lemma send_command_defined:
  assumes "idle s"
  shows "\<exists>err r s'. send_command c want s = Some (err, r, s') \<and> idle s' \<and> good_response False err r \<and> same_conf s s' \<and> feed s' = tl (feed s)"
  unfolding send_command_def at_send_command_def
  by (rule command_defined [OF assms]) (simp add: good_response_def full_defined prefix_given_def)

lemma send_multiline_defined:
  assumes "idle s"
  shows "\<exists>err r s'. send_multiline c pre want s = Some (err, r, s') \<and> idle s' \<and> good_response False err r \<and> same_conf s s' \<and> feed s' = tl (feed s)"
  unfolding send_multiline_def at_send_command_multiline_def
  by (rule command_defined [OF assms]) (simp add: good_response_def full_defined prefix_given_def)

lemma send_singleline_defined:
  assumes "idle s"
  shows "\<exists>err r s'. send_singleline c pre want s = Some (err, r, s') \<and> idle s' \<and> good_response True err r \<and> same_conf s s' \<and> feed s' = tl (feed s)"
  unfolding send_singleline_def at_send_command_singleline_def
  by (rule command_defined [OF assms], rule singleline_defined) (simp_all add: prefix_given_def)

lemma send_numeric_defined:
  assumes "idle s"
  shows "\<exists>err r s'. send_numeric c want s = Some (err, r, s') \<and> idle s' \<and> good_response True err r \<and> same_conf s s' \<and> feed s' = tl (feed s)"
  unfolding send_numeric_def at_send_command_numeric_def
  by (rule command_defined [OF assms], rule singleline_defined) (simp_all add: prefix_given_def)

text \<open>The same as rules for a property \<open>Q\<close> of the rest of a request.\<close>

lemma send_command_bind:
  assumes "idle s" "\<And>err r s'. idle s' \<Longrightarrow> same_conf s s' \<Longrightarrow> Q (k (err, r, s'))"
  shows "Q (Option.bind (send_command c want s) k)"
  using send_command_defined [OF assms(1), of c want] assms(2) by force

lemma send_multiline_bind:
  assumes "idle s" "\<And>err r s'. idle s' \<Longrightarrow> same_conf s s' \<Longrightarrow> Q (k (err, r, s'))"
  shows "Q (Option.bind (send_multiline c pre want s) k)"
  using send_multiline_defined [OF assms(1), of c pre want] assms(2) by force

lemma send_singleline_bind:
  assumes "idle s" "\<And>err r s'. idle s' \<Longrightarrow> same_conf s s' \<Longrightarrow> good_response True err r \<Longrightarrow> Q (k (err, r, s'))"
  shows "Q (Option.bind (send_singleline c pre want s) k)"
  using send_singleline_defined [OF assms(1), of c pre want] assms(2) by force

lemma send_numeric_bind:
  assumes "idle s" "\<And>err r s'. idle s' \<Longrightarrow> same_conf s s' \<Longrightarrow> good_response True err r \<Longrightarrow> Q (k (err, r, s'))"
  shows "Q (Option.bind (send_numeric c want s) k)"
  using send_numeric_defined [OF assms(1), of c want] assms(2) by force

lemma handshake_idle:
  "sp_response c = None \<Longrightarrow> \<exists>err' c'. handshake_loop n evss err c = Some (err', c') \<and> sp_response c' = None"
proof (induction n arbitrary: evss err c)
  case (Suc n)
  have p: "prefix_given NO_RESULT None" by (simp add: prefix_given_def)
  obtain err1 r c1 where "at_send_command_full_nolock (Some ''ATE0Q0V1'') NO_RESULT None None False
      (case evss of [] \<Rightarrow> [] | evs # _ \<Rightarrow> evs) c = Some (err1, r, c1)" "sp_response c1 = None"
    using send_full_total [OF p Suc.prems] by blast
  then show ?case using Suc.IH [of c1] by simp
qed simp

lemma handshake_bind:
  assumes "idle s" "\<And>err s'. idle s' \<Longrightarrow> Q (k (err, s'))"
  shows "Q (Option.bind (handshake s) k)"
proof -
  obtain c where c: "run_wakes (fst (next_feed s)) (chan s) = Some c" "sp_response c = None"
    using run_wakes_idle assms(1) by (auto simp: idle_def)
  obtain err c' where h: "handshake_loop 8 (map snd (take 8 (feed s))) 0 c = Some (err, c')" "sp_response c' = None"
    using handshake_idle [OF c(2)] by blast
  with c have "handshake s = Some (err, set_chan c' (s\<lparr>feed := drop 8 (feed s)\<rparr>))" by (simp add: handshake_def at_handshake_def)
  then show ?thesis using assms(2) h(2) by (simp add: idle_def)
qed

text \<open>Every \<open>%\<close> of a format has its conversion: the scan is defined.\<close>

fun fmt_ok :: "string \<Rightarrow> bool" where
  "fmt_ok [] = True"
| "fmt_ok (p # ps) = (if p = CHR '','' \<or> p = CHR '' '' then fmt_ok ps else if p \<noteq> CHR 0x25 then True
     else case ps of [] \<Rightarrow> False | q # qs \<Rightarrow> fmt_ok qs)"

lemma scan_loop_defined: "fmt_ok fmt \<Longrightarrow> scan_loop fmt line n sts \<noteq> None"
  by (induction fmt line n sts rule: scan_loop.induct) (auto split: list.splits prod.splits simp del: scan_conv.simps)

lemma at_tok_scanf_bind:
  assumes "fmt_ok fmt" "\<And>n st. Q (k (n, st))"
  shows "Q (Option.bind (at_tok_scanf l fmt) k)"
proof -
  have "at_tok_scanf l fmt \<noteq> None" using scan_loop_defined [OF assms(1)]
    by (auto simp: at_tok_scanf_def split: option.split prod.split simp del: at_tok_start.simps)
  then show ?thesis using assms(2) by fastforce
qed

lemma first_line_bind:
  assumes "good_response True err r" "\<not> at_response_error err r" "\<And>l. Q (k l)"
  shows "Q (Option.bind (first_line r) k)"
  using assms by (cases r) (auto simp: good_response_def split: list.split)

text \<open>The contract of a request: it is defined and leaves the channel idle.\<close>

definition fine2 :: "('a \<times> atc) option \<Rightarrow> bool" where
  "fine2 m \<longleftrightarrow> (\<exists>a s. m = Some (a, s) \<and> idle s)"

definition fine3 :: "('a \<times> 'b \<times> atc) option \<Rightarrow> bool" where
  "fine3 m \<longleftrightarrow> (\<exists>a b s. m = Some (a, b, s) \<and> idle s)"

lemma fine_Some [simp]: "fine2 (Some x) \<longleftrightarrow> idle (snd x)" "fine3 (Some y) \<longleftrightarrow> idle (snd (snd y))"
  by (cases x; simp add: fine2_def) (cases y; simp add: fine3_def)

lemma idle_fields [simp]:
  "idle (s\<lparr>s_pdp := v\<rparr>) = idle s" "idle (s\<lparr>asr_style_atc := b\<rparr>) = idle s" "idle (s\<lparr>g_donot_exit_when_modem_hangup := b\<rparr>) = idle s"
  "idle (s\<lparr>ifconfig_up := n\<rparr>) = idle s" "idle (send_event_to_main e s) = idle s"
  by (simp_all add: idle_def send_event_to_main_def)

lemmas send_binds = send_command_bind send_multiline_bind send_singleline_bind send_numeric_bind

lemma fine_bind:
  assumes "fine2 m" "\<And>a s. idle s \<Longrightarrow> Q (k (a, s))"
  shows "Q (Option.bind m k)"
  using assms by (auto simp: fine2_def)

lemma fine3_bind:
  assumes "fine3 m" "\<And>a b s. idle s \<Longrightarrow> Q (k (a, b, s))"
  shows "Q (Option.bind m k)"
  using assms by (auto simp: fine3_def)

lemma if_rule: "(b \<Longrightarrow> Q x) \<Longrightarrow> (\<not> b \<Longrightarrow> Q y) \<Longrightarrow> Q (if b then x else y)"
  by simp

lemma probe_style_fine: "idle s \<Longrightarrow> fine2 (probe_style s)"
  unfolding probe_style_def by (rule send_singleline_bind) simp_all

lemma set_nat_defined: "idle s \<Longrightarrow> \<exists>t. set_nat v s = Some t \<and> idle t"
  unfolding set_nat_def
  by (rule send_command_bind, assumption) (auto intro: send_command_bind [where Q = "\<lambda>m. \<exists>t. m = Some t \<and> idle t"])

lemma atc_init_fine: "idle s \<Longrightarrow> fine2 (atc_init p s)"
proof (cases "proxy p = []")
  case True
  assume s: "idle s"
  have tail: "fine2 (do {
            l \<leftarrow> first_line r;
            (n, st) \<leftarrow> at_tok_scanf (Some l) ''%s%d'';
            let new_nat = (if asr_style_atc s then 1 else 0);
            s \<leftarrow> (if n = 2 \<and> int_at st 1 0 \<noteq> new_nat then set_nat new_nat s else Some s);
            Some (0 :: int, s) })" if "idle s" "good_response True err r" "\<not> at_response_error err r" for err r s
  proof -
    have h: "fine2 (Option.bind (if b then set_nat v s else Some s) (\<lambda>s. Some (0 :: int, s)))" for b v
      using set_nat_defined [OF that(1), of v] that(1) by (cases b) auto
    show ?thesis
      by (rule first_line_bind [OF that(2,3)], rule at_tok_scanf_bind) (simp, simp only: prod.case Let_def h)
  qed
  show ?thesis
    unfolding atc_init_def if_not_P [OF iffD2 [OF not_not True]]
    apply (rule handshake_bind [OF s], simp only: prod.case)
    apply (rule if_rule, simp)
    apply (rule send_singleline_bind, simp, simp only: prod.case)
    apply (rule send_multiline_bind, assumption, simp only: prod.case)
    apply (rule send_command_bind, assumption, simp only: prod.case)
    apply (rule send_command_bind, assumption, simp only: prod.case)
    apply (rule send_command_bind, assumption, simp only: prod.case)
    apply (rule fine_bind [OF probe_style_fine], assumption, simp only: prod.case)
    apply (rule send_singleline_bind, assumption, simp only: prod.case)
    apply (rule if_rule, simp)
    by (rule tail)
qed (simp add: atc_init_def probe_style_fine)

lemma requestBaseBandVersion_fine: "idle s \<Longrightarrow> fine3 (requestBaseBandVersion p s)"
  unfolding requestBaseBandVersion_def by (rule send_multiline_bind) (auto split: list.split)

lemma nextstr_token:
  assumes "at_tok_start (Some l) = (err, cur)" "\<not> err < 0" "at_tok_nextstr cur = (err', cur', x)"
  shows "x \<noteq> None"
proof -
  obtain t where "cur = Some t" using assms(1,2) by (auto split: option.splits)
  then show ?thesis using assms(3) nextTok_token [of t] by (auto simp: at_tok_nextstr_def split: prod.splits)
qed

lemma requestGetSIMStatus_fine: "idle s \<Longrightarrow> fine3 (requestGetSIMStatus old s)"
  unfolding requestGetSIMStatus_def
  apply (rule send_singleline_bind, assumption, simp only: prod.case)
  apply (rule if_rule, simp)
  unfolding Let_def
  apply (rule if_rule, simp)
  apply (rule first_line_bind, assumption+)
  apply (auto split: prod.splits simp del: at_tok_start.simps dest: nextstr_token)
  done

lemma requestEnterSimPin_fine: "idle s \<Longrightarrow> fine2 (requestEnterSimPin pin s)"
  unfolding requestEnterSimPin_def by (rule send_command_bind) simp_all

lemma requestSetProfile_fine:
  assumes "idle s" "0 \<le> iptype p" "iptype p < 4"
  shows "fine2 (requestSetProfile p s)"
proof -
  obtain x where x: "ip_name (iptype p) = Some x" using assms(2,3) by (simp add: ip_name_def)
  show ?thesis
    unfolding requestSetProfile_def x Option.bind.simps(2)
    apply (rule if_rule, simp add: assms(1))
    apply (rule send_command_bind [OF assms(1)], simp only: prod.case)
    apply (rule if_rule)
     apply (rule send_command_bind, assumption)
    by simp_all
qed

lemma status_loop_fine: "idle s \<Longrightarrow> fine3 (status_loop n c err s)"
proof (induction n arbitrary: s err)
  case (Suc n)
  show ?case
    unfolding status_loop.simps by (rule send_singleline_bind [OF Suc.prems]) (auto intro: Suc.IH)
qed simp

lemma cgact_loop_defined: "\<exists>v. cgact_loop want reset cid ls = Some v"
proof (induction ls arbitrary: cid)
  case (Cons l ls)
  show ?case
    unfolding cgact_loop.simps
    by (rule at_tok_scanf_bind [where Q = "\<lambda>m. \<exists>v. m = Some v"]) (simp_all add: Cons.IH Let_def)
qed simp

lemma netdevctl_loop_defined: "\<exists>a b c. netdevctl_loop want ls x = Some (a, b, c)"
proof (induction ls arbitrary: x)
  case (Cons l ls)
  obtain a b c where "x = (a, b, c)" by (cases x)
  then show ?case
    by (simp only: netdevctl_loop.simps) (rule at_tok_scanf_bind [where Q = "\<lambda>m. \<exists>a b c. m = Some (a, b, c)"], simp_all add: Cons.IH Let_def)
qed auto

lemma cgpaddr_loop_defined: "\<exists>v. cgpaddr_loop want ls cid = Some v"
proof (induction ls arbitrary: cid)
  case (Cons l ls)
  show ?case
    unfolding cgpaddr_loop.simps
    by (rule at_tok_scanf_bind [where Q = "\<lambda>m. \<exists>v. m = Some v"]) (simp_all add: Cons.IH Let_def split: option.split)
qed simp

lemma activate_context_fine: "idle s \<Longrightarrow> fine3 (activate_context cid s)"
  unfolding activate_context_def
  apply (rule send_multiline_bind, assumption, simp only: prod.case)
  apply (rule if_rule, simp)
  subgoal for err r s'
    using cgact_loop_defined [of cid "Some 0" 0 "intermediates r"]
    by (auto intro!: send_command_bind [where Q = fine3])
  done

lemma requestSetupDataCall_fine: "idle s \<Longrightarrow> fine2 (requestSetupDataCall p s)"
proof -
  assume s: "idle s"
  define t where "t = (if strStartsWith (BaseBandVersion p) ''RG801H'' \<or> strStartsWith (BaseBandVersion p) ''EC200H''
    then s\<lparr>ifconfig_up := Suc (ifconfig_up s)\<rparr> else s)"
  have t: "idle t" using s by (simp add: t_def)
  then have a: "fine3 (if asr_style_atc t then activate_context (pdp p) t else Some (0, True, t))" by (simp add: activate_context_fine)
  have b: "fine3 (if asr_style_atc u then Some (err, True, u) else status_loop 15 c err u)" if "idle u" for u err c
    using that by (simp add: status_loop_fine)
  show ?thesis
    unfolding requestSetupDataCall_def Let_def t_def [symmetric]
    apply (rule fine3_bind [OF a], simp only: prod.case)
    apply (rule if_rule, simp)
    apply (rule send_command_bind, assumption, simp only: prod.case)
    apply (rule if_rule, simp)
    by (rule fine3_bind [OF b]) simp_all
qed

lemma at_netdevstatus_fine: "idle s \<Longrightarrow> fine3 (at_netdevstatus cid s)"
  unfolding at_netdevstatus_def
  by (rule send_singleline_bind, assumption) (auto split: list.split intro!: at_tok_scanf_bind [where Q = fine3])

lemma requestQueryDataCall_fine: "idle s \<Longrightarrow> fine3 (requestQueryDataCall junk s)"
  unfolding requestQueryDataCall_def
  apply (rule if_rule)
   apply (rule fine3_bind [OF at_netdevstatus_fine], assumption, simp)
  apply (rule send_multiline_bind, assumption, simp only: prod.case)
  apply (rule if_rule, simp)
  subgoal for err r s'
    using netdevctl_loop_defined [of "s_pdp s'" "intermediates r" "(0, junk, 0)"]
    apply (elim exE)
    apply (simp only: Option.bind.simps(2) prod.case)
    apply (rule if_rule, simp)
    apply (rule send_multiline_bind, assumption, simp only: prod.case)
    apply (rule if_rule, simp)
    apply (rule if_rule, simp)
    subgoal for a cid c err r s
      using cgact_loop_defined [of "s_pdp s" None cid "intermediates r"] by auto
    done
  done

lemma requestDeactivateDefaultPDP_fine: "idle s \<Longrightarrow> fine2 (requestDeactivateDefaultPDP p s)"
  unfolding requestDeactivateDefaultPDP_def by (rule send_command_bind) simp_all

lemma requestGetIPAddress_fine: "idle s \<Longrightarrow> fine3 (requestGetIPAddress p s)"
proof -
  assume s: "idle s"
  have "fine2 (if \<not> asr_style_atc s then do { (_, v, s) \<leftarrow> at_netdevstatus (pdp p) s; Some (v, s) }
        else do {
          (err, r, s) \<leftarrow> send_singleline (''AT+CGPADDR='' @ show_int (pdp p)) ''+CGPADDR:'' True s;
          if at_response_error err r then Some (0, s)
          else do { v \<leftarrow> cgpaddr_loop (pdp p) (intermediates r) (pdp p); Some (v, s) } })"
    apply (rule if_rule)
     apply (rule fine3_bind [OF at_netdevstatus_fine [OF s]], simp)
    apply (rule send_singleline_bind [OF s], simp only: prod.case)
    subgoal for err r s' using cgpaddr_loop_defined [of "pdp p" "intermediates r" "pdp p"] by auto
    done
  then show ?thesis unfolding requestGetIPAddress_def by (rule fine_bind) simp
qed

lemma requestGetIMSI_fine: "idle s \<Longrightarrow> fine2 (requestGetIMSI s)"
  unfolding requestGetIMSI_def by (rule send_numeric_bind) simp_all

lemma requestRegistrationState_fine: "idle s \<Longrightarrow> fine3 (requestRegistrationState s)"
proof -
  assume s: "idle s"
  have act: "\<exists>a. cops_act ls = Some a" for ls
    unfolding cops_act_def
    by (cases ls) (auto intro: at_tok_scanf_bind [where Q = "\<lambda>m. \<exists>a. m = Some a"])
  have scan: "fmt_ok fmt \<Longrightarrow> \<exists>a. reg_scan l fmt k = Some a" for l fmt k
    unfolding reg_scan_def by (rule at_tok_scanf_bind [where Q = "\<lambda>m. \<exists>a. m = Some a"]) auto
  have reg: "\<exists>a. reg_state l = Some a" for l
    by (auto simp: reg_state_def Let_def scan split: prod.split)
  show ?thesis
    unfolding requestRegistrationState_def
    apply (rule send_multiline_bind [OF s], simp only: prod.case)
    apply (rule if_rule, simp)
    subgoal for err r s'
    proof -
      assume i: "idle s'"
      obtain a where a: "cops_act (intermediates r) = Some a" using act by blast
      show ?thesis
      proof (cases "Option.bind a reg_command")
        case (Some x)
        obtain c pre where x: "x = (c, pre)" by (cases x)
        have k: "fine3 (case intermediates r of [] \<Rightarrow> Some (0 :: int, 0 :: byte, s')
           | l # _ \<Rightarrow> do { state \<leftarrow> reg_state l; Some (0, if state = Some 1 \<or> state = Some 5 then 1 else 0, s') })" if "idle s'" for r s'
        proof (cases "intermediates r")
          case (Cons l ls)
          obtain b where "reg_state l = Some b" using reg by blast
          with Cons that show ?thesis by simp
        qed (use that in simp)
        show ?thesis
          unfolding a Option.bind.simps(2) Some option.case x prod.case
          apply (rule send_singleline_bind [OF i], simp only: prod.case)
          apply (rule if_rule, simp)
          by (rule k)
      qed (use a i in simp)
    qed
    done
qed

lemma silent_singleline:
  assumes "idle s" "feed s = []"
  shows "\<exists>err s'. send_singleline c pre True s = Some (err, None, s') \<and> err \<noteq> AT_ERROR_INVALID_RESPONSE"
proof -
  obtain err c1 where w: "writeline c (chan s) = (err, c1)" by (cases "writeline c (chan s)")
  have e: "err \<noteq> AT_ERROR_INVALID_RESPONSE" "s_readerClosed c1 \<longrightarrow> err < 0"
    using w writeline_fields(4) [OF w] by (auto simp: writeline_def at_errors split: if_splits prod.splits)
  have "cmd_done (c1\<lparr>s_type := SINGLELINE, s_responsePrefix := Some pre, s_smsPDU := None, sp_response := Some at_response_new\<rparr>) \<longleftrightarrow> s_readerClosed c1"
    by (simp add: cmd_done_def at_response_new_def)
  then have "\<exists>err r c'. at_send_command_full False (Some c) SINGLELINE (Some pre) None True [] (chan s) = Some (err, None, c') \<and> err \<noteq> AT_ERROR_INVALID_RESPONSE"
    using assms(1) w e by (auto simp: at_send_command_full_def at_send_command_full_nolock_def idle_def at_errors)
  then show ?thesis
    by (auto simp: send_singleline_def command_def next_feed_def assms(2) at_send_command_singleline_def require_intermediate_def)
qed

text \<open>The loop that sets an empty context and asks again ends.\<close>

lemma qicsgp_query_ends:
  "idle s \<Longrightarrow> \<exists>err r s'. qicsgp_query p s = Some (err, r, s') \<and> idle s' \<and> good_response True err r"
proof (induction "length (feed s)" arbitrary: s rule: less_induct)
  case less
  obtain err r s1 where q: "send_singleline (''AT+QICSGP='' @ show_int (pdp p)) ''+QICSGP:'' True s = Some (err, r, s1)" "idle s1" "good_response True err r" "feed s1 = tl (feed s)"
    using send_singleline_defined [OF less.prems] by blast
  show ?case
  proof (cases "err = AT_ERROR_INVALID_RESPONSE \<and> r = None")
    case True
    then have "feed s \<noteq> []" using silent_singleline [OF less.prems, of "''AT+QICSGP='' @ show_int (pdp p)" "''+QICSGP:''"] q(1) by auto
    obtain e2 r2 s2 where c: "send_command (qicsgp_set (pdp p) (iptype p) [] [] [] 0) True s1 = Some (e2, r2, s2)" "idle s2" "feed s2 = tl (feed s1)"
      using send_command_defined [OF q(2)] by blast
    have "length (feed s2) < length (feed s)" using \<open>feed s \<noteq> []\<close> q(4) c(3) by (cases "feed s") (auto simp: less_Suc_eq_le)
    from less.hyps [OF this c(2)] True q c show ?thesis
      by (cases "at_response_error e2 r2") (subst qicsgp_query.simps, simp add: good_response_def)+
  next
    case False
    with q show ?thesis by (subst qicsgp_query.simps) (auto simp del: de_Morgan_conj)
  qed
qed

section \<open>Runs of the back-end\<close>

datatype atc_request =
    AInit | ABaseBandVersion | ASimStatus SIM_Status | AEnterPin string | ASetProfile | AGetProfile int | ARegistration
  | ASetup | AQuery int | ADeactivate | AGetIP | ASignal | AICCID | AIMSI

definition ret3 :: "(int \<times> 'b \<times> atc) option \<Rightarrow> (int \<times> atc) option" where
  "ret3 m = map_option (\<lambda>(a, b, s). (a, s)) m"

fun atc_run :: "atc_request \<Rightarrow> PROFILE_T \<Rightarrow> atc \<Rightarrow> (int \<times> atc) option" where
  "atc_run AInit p s = atc_init p s"
| "atc_run ABaseBandVersion p s = ret3 (requestBaseBandVersion p s)"
| "atc_run (ASimStatus old) p s = ret3 (requestGetSIMStatus old s)"
| "atc_run (AEnterPin pin) p s = requestEnterSimPin pin s"
| "atc_run ASetProfile p s = requestSetProfile p s"
| "atc_run (AGetProfile junk) p s = ret3 (requestGetProfile junk p s)"
| "atc_run ARegistration p s = ret3 (requestRegistrationState s)"
| "atc_run ASetup p s = requestSetupDataCall p s"
| "atc_run (AQuery junk) p s = ret3 (requestQueryDataCall junk s)"
| "atc_run ADeactivate p s = requestDeactivateDefaultPDP p s"
| "atc_run AGetIP p s = ret3 (requestGetIPAddress p s)"
| "atc_run ASignal p s = requestGetSignalInfo s"
| "atc_run AICCID p s = requestGetICCID s"
| "atc_run AIMSI p s = requestGetIMSI s"

text \<open>The requests that use a pointer a scan may not have set, or an array a string may not fit.\<close>

fun trusts_answer :: "atc_request \<Rightarrow> bool" where
  "trusts_answer (AGetProfile junk) = True"
| "trusts_answer ASignal = True"
| "trusts_answer AICCID = True"
| "trusts_answer x = False"

lemma ret3_fine: "fine3 m \<Longrightarrow> fine2 (ret3 m)"
  by (auto simp: fine3_def fine2_def ret3_def)

lemma atc_run_fine:
  assumes "idle s" "\<not> trusts_answer x" "0 \<le> iptype p" "iptype p < 4"
  shows "fine2 (atc_run x p s)"
  using assms
  by (cases x)
    (simp_all add: ret3_fine atc_init_fine requestBaseBandVersion_fine requestGetSIMStatus_fine requestEnterSimPin_fine requestSetProfile_fine
      requestRegistrationState_fine requestSetupDataCall_fine requestQueryDataCall_fine requestDeactivateDefaultPDP_fine requestGetIPAddress_fine
      requestGetIMSI_fine)

text \<open>The others leave the channel idle when they return.\<close>

definition idle_after :: "('a \<times> atc) option \<Rightarrow> bool" where
  "idle_after m \<longleftrightarrow> (\<forall>a t. m = Some (a, t) \<longrightarrow> idle t)"

lemma idle_after_simps [simp]: "idle_after None" "idle_after (Some (a, t)) \<longleftrightarrow> idle t"
  by (simp_all add: idle_after_def)

lemma idle_after_bind: "(\<And>x. m = Some x \<Longrightarrow> idle_after (k x)) \<Longrightarrow> idle_after (Option.bind m k)"
  by (cases m) auto

lemma idle_after_SetProfile: "idle s \<Longrightarrow> idle_after (requestSetProfile p s)"
  unfolding requestSetProfile_def
  apply (rule idle_after_bind, rule if_rule, simp)
  apply (rule send_command_bind, assumption, simp only: prod.case)
  apply (rule if_rule)
   apply (rule send_command_bind, assumption)
  by simp_all

lemma idle_after_GetProfile: "idle s \<Longrightarrow> idle_after (ret3 (requestGetProfile junk p s))"
proof -
  assume s: "idle s"
  have "\<forall>a b t. requestGetProfile junk p s = Some (a, b, t) \<longrightarrow> idle t"
  proof (intro allI impI)
    fix a b t
    assume r: "requestGetProfile junk p s = Some (a, b, t)"
    obtain err x s1 where q: "qicsgp_query (set_iptype p) s = Some (err, x, s1)" "idle s1" using qicsgp_query_ends [OF s] by blast
    obtain err2 x2 s2 where m: "send_multiline ''AT+CGDCONT?'' ''+CGDCONT:'' True s1 = Some (err2, x2, s2)" "idle s2"
      using send_multiline_defined [OF q(2)] by blast
    from r q m show "idle t"
      by (auto simp: requestGetProfile_def Let_def split: if_splits bind_splits)
  qed
  then show ?thesis by (auto simp: idle_after_def ret3_def)
qed

lemma idle_after_Signal: "idle s \<Longrightarrow> idle_after (requestGetSignalInfo s)"
  unfolding requestGetSignalInfo_def
  apply (rule send_singleline_bind, assumption, simp only: prod.case)
  apply (rule if_rule, simp)
  subgoal for err r s'
    apply (cases "intermediates r", simp, simp only: list.case)
    apply (rule at_tok_scanf_bind, simp, simp only: prod.case)
    apply (rule if_rule, simp)
    apply (rule send_multiline_bind, assumption, simp only: prod.case)
    apply (rule if_rule, simp)
    apply (rule idle_after_bind, rule if_rule)
     apply (rule send_multiline_bind, assumption)
    by simp_all
  done

lemma idle_after_ICCID: "idle s \<Longrightarrow> idle_after (requestGetICCID s)"
  unfolding requestGetICCID_def
  apply (rule send_singleline_bind, assumption, simp only: prod.case)
  apply (rule if_rule, simp)
  subgoal for err r s'
    apply (cases "intermediates r", simp, simp only: list.case)
    apply (rule at_tok_scanf_bind, simp, simp only: prod.case)
    apply (rule if_rule)
    by (simp_all split: store.split)
  done

lemma fine_idle_after: "fine2 m \<Longrightarrow> idle_after m"
  by (auto simp: fine2_def idle_after_def)

lemma atc_run_idle:
  assumes "idle s" "atc_run x p s = Some (ret, t)"
  shows "idle t"
proof -
  have "idle_after (atc_run x p s)"
    using assms(1)
    by (cases x)
      (simp_all add: fine_idle_after ret3_fine atc_init_fine requestBaseBandVersion_fine requestGetSIMStatus_fine requestEnterSimPin_fine
        requestRegistrationState_fine requestSetupDataCall_fine requestQueryDataCall_fine requestDeactivateDefaultPDP_fine requestGetIPAddress_fine
        requestGetIMSI_fine idle_after_SetProfile idle_after_GetProfile idle_after_Signal idle_after_ICCID)
  with assms(2) show ?thesis by (simp add: idle_after_def)
qed

text \<open>The reader thread opens the channel; then requests, lines between them, and its end, in any order.\<close>

inductive atc_step :: "atc \<Rightarrow> atc \<Rightarrow> bool" where
  request: "atc_run x p s = Some (ret, t) \<Longrightarrow> atc_step s t"
| wakes: "run_wakes ws (chan s) = Some c \<Longrightarrow> atc_step s (set_chan c s)"
| opened: "atc_read_start fd ok s = (go, t) \<Longrightarrow> atc_step s t"
| quits: "atc_step s (atc_read_quit s)"
| modem: "atc_step s (s\<lparr>feed := fs\<rparr>)"

lemma atc_step_idle: "atc_step s t \<Longrightarrow> idle s \<Longrightarrow> idle t"
proof (induction rule: atc_step.induct)
  case (wakes ws s c)
  then show ?case using run_wakes_idle [of "chan s" ws] by (auto simp: idle_def)
next
  case (opened fd ok s go t)
  then show ?case
    by (auto simp: atc_read_start_def idle_def at_open_def at_set_on_timeout_def at_set_on_reader_closed_def send_event_to_main_def Let_def split: if_splits)
qed (auto simp: atc_run_idle, auto simp: atc_read_quit_def idle_def at_close_def send_event_to_main_def)

interpretation atc: inv_system idle atc_step idle
  by unfold_locales (auto intro: atc_step_idle)

section \<open>A modem that answers\<close>

text \<open>A channel on which commands can be sent, and the text that has been sent.\<close>

definition ready :: "at_state \<Rightarrow> bool" where
  "ready c \<longleftrightarrow> sp_response c = None \<and> 0 \<le> s_fd c \<and> \<not> s_readerClosed c \<and> s_unsolHandler c \<and> s_raw_data c = None \<and> wr c = [] \<and>
     \<not> s_atc_proxy c"

fun sent_text :: "at_event list \<Rightarrow> string" where
  "sent_text [] = []"
| "sent_text (Sent x # es) = x @ sent_text es"
| "sent_text (_ # es) = sent_text es"

lemma sent_text_append [simp]: "sent_text (xs @ ys) = sent_text xs @ sent_text ys"
  by (induction xs rule: sent_text.induct) simp_all

lemma write_loop_ready: "write_loop [] d sent = (True, sent @ d, [])"
  by (cases d) simp_all

lemma ready_writeline:
  assumes "ready c"
  shows "\<exists>c'. writeline cmd c = (0, c') \<and> ready c' \<and> sent_text (out c') = sent_text (out c) @ cmd @ [CHR 0x0D]"
  using assms by (auto simp: writeline_def do_write_def ready_def write_loop_ready emit_def)

text \<open>A command of a type and prefix waits, with these lines collected so far, the last one first.\<close>

definition waiting :: "ATCommandType \<Rightarrow> cstr \<Rightarrow> string list \<Rightarrow> at_state \<Rightarrow> bool" where
  "waiting ty pre ints c \<longleftrightarrow> ready (c\<lparr>sp_response := None\<rparr>) \<and> s_type c = ty \<and> s_responsePrefix c = pre \<and> s_smsPDU c = None \<and>
     sp_response c = Some (at_response_new\<lparr>p_intermediates := ints\<rparr>)"

definition pick :: "ATCommandType \<Rightarrow> cstr \<Rightarrow> string \<Rightarrow> string list \<Rightarrow> string list" where
  "pick ty pre l ints = (if line_matches ty pre l \<and> (ty = MULTILINE \<or> ints = []) then l # ints else ints)"

text \<open>The lines of an answer that become the response.\<close>

definition picked :: "ATCommandType \<Rightarrow> cstr \<Rightarrow> string list \<Rightarrow> string list" where
  "picked ty pre ls = rev (fold (pick ty pre) ls [])"

lemma waiting_line:
  assumes "waiting ty pre ints c" "prefix_given ty pre" "plain_line l"
  shows "\<exists>c'. processLine l c = Some c' \<and> waiting ty pre (pick ty pre l ints) c' \<and> sent_text (out c') = sent_text (out c)"
proof -
  have n: "\<not> cmd_done c" "l \<noteq> ''CONNECT''" using assms connect_final by (auto simp: waiting_def cmd_done_def ready_def at_response_new_def plain_line_def)
  from assms n(2) show ?thesis
    by (cases ty)
      (auto simp: processLine_def waiting_def ready_def plain_line_def pick_def line_matches_def addIntermediate_def handleUnsolicited_def
        emit_def at_response_new_def prefix_given_def)
qed

lemma waiting_lines:
  assumes "waiting ty pre ints c" "prefix_given ty pre" "\<forall>l \<in> set ls. plain_line l"
  shows "\<exists>c'. (\<forall>evs. wait_loop (map WLine ls @ evs) c = wait_loop evs c') \<and> waiting ty pre (fold (pick ty pre) ls ints) c' \<and>
     sent_text (out c') = sent_text (out c)"
  using assms(1,3)
proof (induction ls arbitrary: ints c)
  case (Cons l ls)
  obtain d where d: "processLine l c = Some d" "waiting ty pre (pick ty pre l ints) d" "sent_text (out d) = sent_text (out c)"
    using waiting_line [OF Cons.prems(1) assms(2)] Cons.prems(2) by auto
  have n: "sp_response c \<noteq> None" "\<not> cmd_done c" using Cons.prems(1) by (auto simp: waiting_def cmd_done_def ready_def at_response_new_def)
  then have "wait_loop (map WLine (l # ls) @ evs) c = wait_loop (map WLine ls @ evs) d" for evs using d(1) by (simp only: list.map append_Cons wait_loop_Cons if_False option.case wake_step.simps)
  with Cons.IH [OF d(2)] Cons.prems(2) d(3) show ?case by simp
qed auto

definition final_line :: "bool \<Rightarrow> string \<Rightarrow> bool" where
  "final_line ok f \<longleftrightarrow> (if ok then isFinalResponseSuccess f else isFinalResponseError f \<and> \<not> isFinalResponseSuccess f)"

definition response :: "bool \<Rightarrow> string \<Rightarrow> string list \<Rightarrow> ATResponse" where
  "response ok f xs = \<lparr>success = (if ok then 1 else 0), finalResponse = Some f, p_intermediates = xs\<rparr>"

lemma ready_answer:
  assumes "ready c" "prefix_given ty pre" "\<forall>l \<in> set ls. plain_line l" "final_line ok f"
  shows "\<exists>c'. at_send_command_full False (Some cmd) ty pre None want (map WLine ls @ WLine f # evs) c =
       Some (0, if want then Some (response ok f (picked ty pre ls)) else None, c') \<and>
     ready c' \<and> sent_text (out c') = sent_text (out c) @ cmd @ [CHR 0x0D]"
proof -
  obtain c1 where w: "writeline cmd c = (0, c1)" "ready c1" "sent_text (out c1) = sent_text (out c) @ cmd @ [CHR 0x0D]"
    using ready_writeline [OF assms(1)] by blast
  let ?c0 = "c1\<lparr>s_type := ty, s_responsePrefix := pre, s_smsPDU := None, sp_response := Some at_response_new\<rparr>"
  have "waiting ty pre [] ?c0" using w(2) by (simp add: waiting_def ready_def at_response_new_def)
  from waiting_lines [OF this assms(2,3)] obtain c2 where
    c2: "\<And>evs. wait_loop (map WLine ls @ evs) ?c0 = wait_loop evs c2" "waiting ty pre (fold (pick ty pre) ls []) c2" "sent_text (out c2) = sent_text (out c1)"
    by auto
  let ?r = "at_response_new\<lparr>p_intermediates := fold (pick ty pre) ls []\<rparr>"
  let ?c3 = "handleFinalResponse f (?r\<lparr>success := if ok then 1 else 0\<rparr>) c2"
  have "processLine f c2 = Some ?c3"
    using c2(2) assms(4) by (auto simp: processLine_def waiting_def ready_def final_line_def)
  moreover have "sp_response c2 \<noteq> None" "\<not> cmd_done c2" "sp_response ?c3 \<noteq> None" "cmd_done ?c3"
    using c2(2) by (auto simp: waiting_def cmd_done_def ready_def at_response_new_def handleFinalResponse_def)
  ultimately have "wait_loop (WLine f # evs) c2 = Some (True, ?c3)"
    using wait_loop_done [of ?c3 evs] by simp
  then have wl: "wait_loop (map WLine ls @ WLine f # evs) ?c0 = Some (True, ?c3)" using c2(1) by simp
  have r3: "ready (?c3\<lparr>sp_response := None, s_responsePrefix := None, s_smsPDU := None\<rparr>)" "\<not> s_readerClosed ?c3"
    "sent_text (out ?c3) = sent_text (out c) @ cmd @ [CHR 0x0D]"
    using c2(2,3) w(3) by (simp_all add: waiting_def ready_def handleFinalResponse_def emit_def)
  have "at_send_command_full False (Some cmd) ty pre None want (map WLine ls @ WLine f # evs) c =
      Some (0, if want then Some (response ok f (picked ty pre ls)) else None, ?c3\<lparr>sp_response := None, s_responsePrefix := None, s_smsPDU := None\<rparr>)"
    using assms(1) w(1) wl r3(2)
    by (simp add: at_send_command_full_def at_send_command_full_nolock_def ready_def Let_def clearPendingCommand_def at_errors
        reverseIntermediates_def rev_loop_rev response_def picked_def handleFinalResponse_def at_response_new_def)
  then show ?thesis using r3 by (intro exI [of _ "?c3\<lparr>sp_response := None, s_responsePrefix := None, s_smsPDU := None\<rparr>"]) simp
qed

text \<open>
  The reader's part in the exchange of a command: any lines before it, then the answer, with the
  lines \<open>xs\<close> that the command asked for among the others, and a final line.
\<close>

definition answers :: "ATCommandType \<Rightarrow> cstr \<Rightarrow> bool \<Rightarrow> string list \<Rightarrow> wake list \<times> wake list \<Rightarrow> bool" where
  "answers ty pre ok xs x \<longleftrightarrow> (\<exists>bs ls f evs. x = (map WLine bs, map WLine ls @ WLine f # evs) \<and> (\<forall>l \<in> set ls. plain_line l) \<and>
     final_line ok f \<and> picked ty pre ls = xs)"

text \<open>The state after it.\<close>

definition after :: "atc \<Rightarrow> string \<Rightarrow> atc \<Rightarrow> bool" where
  "after s cmd t \<longleftrightarrow> ready (chan t) \<and> same_conf s t \<and> feed t = tl (feed s) \<and>
     sent_text (out (chan t)) = sent_text (out (chan s)) @ cmd @ [CHR 0x0D]"

lemma run_lines_ready:
  "ready c \<Longrightarrow> \<exists>c'. run_wakes (map WLine bs) c = Some c' \<and> ready c' \<and> sent_text (out c') = sent_text (out c)"
proof (induction bs arbitrary: c)
  case (Cons b bs)
  have "processLine b c = Some (emit (Unsolicited b None) c)" using Cons.prems by (simp add: processLine_def handleUnsolicited_def ready_def)
  moreover have "ready (emit (Unsolicited b None) c)" using Cons.prems by (simp add: ready_def emit_def)
  ultimately show ?case using Cons.IH [of "emit (Unsolicited b None) c"] by simp
qed simp

lemma full_answered:
  assumes "ready (chan s)" "feed s = x # fs" "answers ty pre ok xs x" "prefix_given ty pre"
  shows "\<exists>f t. command (at_send_command_full False (Some cmd) ty pre None want) s =
      Some (0, if want then Some (response ok f xs) else None, t) \<and> after s cmd t"
proof -
  obtain bs ls f evs where x: "x = (map WLine bs, map WLine ls @ WLine f # evs)" "\<forall>l \<in> set ls. plain_line l" "final_line ok f" "picked ty pre ls = xs"
    using assms(3) by (auto simp: answers_def)
  obtain c where c: "run_wakes (map WLine bs) (chan s) = Some c" "ready c" "sent_text (out c) = sent_text (out (chan s))"
    using run_lines_ready [OF assms(1)] by blast
  obtain d where "at_send_command_full False (Some cmd) ty pre None want (map WLine ls @ WLine f # evs) c =
       Some (0, if want then Some (response ok f xs) else None, d)" "ready d" "sent_text (out d) = sent_text (out c) @ cmd @ [CHR 0x0D]"
    using ready_answer [OF c(2) assms(4) x(2,3)] x(4) by blast
  with c x(1) assms(2) show ?thesis
    by (auto simp: command_def next_feed_def after_def same_conf_def)
qed

lemma command_map:
  "command (\<lambda>evs c. map_option require_intermediate (f evs c)) s =
     map_option (\<lambda>(err, r, t). (fst (require_intermediate (err, r, chan t)), fst (snd (require_intermediate (err, r, chan t))), t)) (command f s)"
  by (auto simp: command_def require_intermediate_def split: bind_splits option.splits)

lemma singleline_answered:
  assumes "ready (chan s)" "feed s = x # fs" "answers SINGLELINE (Some pre) ok xs x" "ok \<longrightarrow> xs \<noteq> []"
  shows "\<exists>f t. send_singleline cmd pre True s = Some (0, Some (response ok f xs), t) \<and> after s cmd t"
proof -
  have p: "prefix_given SINGLELINE (Some pre)" by (simp add: prefix_given_def)
  obtain f t where "command (at_send_command_full False (Some cmd) SINGLELINE (Some pre) None True) s = Some (0, Some (response ok f xs), t)" "after s cmd t"
    using full_answered [OF assms(1-3) p, of cmd True] by auto
  then show ?thesis
    using assms(4) by (auto simp: send_singleline_def at_send_command_singleline_def [abs_def] command_map require_intermediate_def response_def)
qed

lemma multiline_answered:
  assumes "ready (chan s)" "feed s = x # fs" "answers MULTILINE (Some pre) ok xs x"
  shows "\<exists>f t. send_multiline cmd pre True s = Some (0, Some (response ok f xs), t) \<and> after s cmd t"
proof -
  have p: "prefix_given MULTILINE (Some pre)" by (simp add: prefix_given_def)
  show ?thesis using full_answered [OF assms p, of cmd True] by (simp add: send_multiline_def at_send_command_multiline_def [abs_def])
qed

lemma command_answered:
  assumes "ready (chan s)" "feed s = x # fs" "answers NO_RESULT None ok xs x"
  shows "\<exists>f t. send_command cmd want s = Some (0, if want then Some (response ok f xs) else None, t) \<and> after s cmd t"
proof -
  have p: "prefix_given NO_RESULT None" by (simp add: prefix_given_def)
  show ?thesis using full_answered [OF assms p, of cmd want] by (simp add: send_command_def at_send_command_def [abs_def])
qed

lemma response_error [simp]: "at_response_error err (Some (response ok f xs)) \<longleftrightarrow> err \<noteq> 0 \<or> \<not> ok"
  by (simp add: at_response_error_def response_def)

lemma response_lines [simp]: "intermediates (Some (response ok f xs)) = xs" "first_line (Some (response ok f (l # ls))) = Some l"
  by (simp_all add: response_def)

lemma picked_multiline: "picked MULTILINE (Some pre) ls = filter (\<lambda>l. strStartsWith l pre) ls"
proof -
  have "fold (pick MULTILINE (Some pre)) ls acc = rev (filter (\<lambda>l. strStartsWith l pre) ls) @ acc" for acc
    by (induction ls arbitrary: acc) (auto simp: pick_def line_matches_def)
  then show ?thesis by (simp add: picked_def)
qed

lemma picked_no_result [simp]: "picked NO_RESULT pre ls = []"
proof -
  have "fold (pick NO_RESULT pre) ls [] = []" by (induction ls) (auto simp: pick_def line_matches_def)
  then show ?thesis by (simp add: picked_def)
qed

section \<open>Addresses\<close>

definition dotted :: "byte \<Rightarrow> byte \<Rightarrow> byte \<Rightarrow> byte \<Rightarrow> string" where
  "dotted a b c d = show_nat (unat a) @ ''.'' @ show_nat (unat b) @ ''.'' @ show_nat (unat c) @ ''.'' @ show_nat (unat d)"

definition hex_digit :: "nat \<Rightarrow> char" where
  "hex_digit n = (if n < 10 then char_of (48 + n) else char_of (55 + n))"

definition hex2 :: "byte \<Rightarrow> string" where
  "hex2 b = [hex_digit (unat b div 16), hex_digit (unat b mod 16)]"

lemma is_dec_isdigit: "is_dec c \<Longrightarrow> isdigit c"
  by (auto simp: is_dec_def isdigit_def of_char_digit_char)

lemma digit_not_space: "isdigit c \<Longrightarrow> \<not> isspace c \<and> c \<noteq> CHR ''-'' \<and> c \<noteq> CHR ''+'' \<and> c \<noteq> CHR ''.'' \<and> c \<noteq> CHR '','' \<and> c \<noteq> CHR 0x22"
  by (auto simp: isdigit_def isspace_def)

lemma scan_d_show_nat:
  assumes "n < 256" "r = [] \<or> \<not> isdigit (hd r)"
  shows "scan_d (show_nat n @ r) = Some (int n, r)"
proof -
  obtain c cs where cs: "show_nat n = c # cs" "is_dec c" using show_nat_Cons by blast
  have all: "\<forall>c \<in> set (show_nat n). isdigit c" using show_nat_dec is_dec_isdigit by blast
  have "takeWhile isdigit (show_nat n @ r) = show_nat n" using all assms(2) by (cases r) (auto simp: takeWhile_append2)
  moreover have "\<not> isspace c" "c \<noteq> CHR ''-''" "c \<noteq> CHR ''+''" using digit_not_space is_dec_isdigit cs(2) by blast+
  ultimately show ?thesis
    using assms(1) digits_val_show_nat [of n] cs(1)
    by (simp add: scan_d_def Let_def to_int32_id)
qed

lemma scan_dotted_dotted: "scan_dotted 4 (dotted a b c d) = [int (unat a), int (unat b), int (unat c), int (unat d)]"
proof -
  have dot: "\<not> isdigit (CHR ''.'')" by (simp add: isdigit_def)
  have s: "scan_dotted (Suc n) (show_nat (unat x) @ CHR ''.'' # r) = int (unat x) # scan_dotted n r" for n r and x :: byte
    using scan_d_show_nat [of "unat x" "CHR ''.'' # r"] dot by simp
  have e: "scan_dotted (Suc 0) (show_nat (unat x)) = [int (unat x)]" for x :: byte
    using scan_d_show_nat [of "unat x" "[]"] by simp
  show ?thesis
    unfolding dotted_def using s e by (simp add: eval_nat_numeral)
qed

lemma digit_val_hex: "n < 16 \<Longrightarrow> digit_val (hex_digit n) = n"
  by (auto simp: digit_val_def hex_digit_def Let_def of_char_of)

lemma hex_digit_char: "n < 16 \<Longrightarrow> \<not> isspace (hex_digit n) \<and> hex_digit n \<noteq> CHR ''x'' \<and> hex_digit n \<noteq> CHR ''X'' \<and> hex_digit n \<noteq> CHR ''.'' \<and>
    hex_digit n \<noteq> CHR '','' \<and> hex_digit n \<noteq> CHR 0x22"
proof -
  assume "n < 16"
  then have "(of_char (hex_digit n) :: nat) = (if n < 10 then 48 + n else 55 + n)" by (simp add: hex_digit_def of_char_of)
  with \<open>n < 16\<close> have ne: "hex_digit n \<noteq> c" if "(of_char c :: nat) < 48 \<or> 70 < (of_char c :: nat)" for c
    using that by (auto split: if_splits)
  show ?thesis using ne \<open>of_char (hex_digit n) = _\<close> by (auto simp: isspace_def)
qed

lemma scan_X2_hex2: "scan_X2 (hex2 b @ r) = Some (int (unat b), r)"
proof -
  have n: "unat b div 16 < 16" "unat b mod 16 < 16" using unat_byte_less [of b] by (simp_all add: less_mult_imp_div_less)
  show ?thesis using n hex_digit_char [OF n(1)] hex_digit_char [OF n(2)] by (simp add: scan_X2_def hex2_def digit_val_hex)
qed

lemma scan_hex_hex2: "scan_hex 4 (hex2 d @ hex2 c @ hex2 b @ hex2 a) = [int (unat d), int (unat c), int (unat b), int (unat a)]"
  using scan_X2_hex2 [of a "[]"] by (simp add: eval_nat_numeral scan_X2_hex2)

lemma pack_addr_bytes: "pack_addr [int (unat a), int (unat b), int (unat c), int (unat d)] = le32_of a b c d"
proof -
  have b: "\<not> bit (x :: byte) n" if "8 \<le> n" for x n using that bit_imp_le_length [of x n] by auto
  have "ucast a OR push_bit 8 (ucast b) OR push_bit 16 (ucast c) OR push_bit 24 (ucast d :: u32) =
      ucast a + (push_bit 8 (ucast b) + (push_bit 16 (ucast c) + push_bit 24 (ucast d)))"
    by (subst disjunctive_add; (auto simp: bit_simps b)?)+
  then show ?thesis by (simp add: pack_addr_def le32_of_def push_bit_eq_mult eval_nat_numeral mult.commute)
qed

lemma parse_v4_text:
  "parse_v4 (dotted a b c d) = le32_of a b c d" "parse_v4 (hex2 d @ hex2 c @ hex2 b @ hex2 a) = le32_of a b c d"
proof -
  have "CHR ''.'' \<in> set (dotted a b c d)" by (simp add: dotted_def)
  then show "parse_v4 (dotted a b c d) = le32_of a b c d" by (simp add: parse_v4_def scan_dotted_dotted pack_addr_bytes [simplified])
  have "CHR ''.'' \<notin> set (hex2 x)" for x :: byte using hex_digit_char [of "unat x div 16"] hex_digit_char [of "unat x mod 16"] unat_byte_less [of x]
    by (auto simp: hex2_def less_mult_imp_div_less)
  then show "parse_v4 (hex2 d @ hex2 c @ hex2 b @ hex2 a) = le32_of a b c d"
    by (simp add: parse_v4_def scan_hex_hex2 Let_def pack_addr_bytes [simplified])
qed

section \<open>Scanned lines\<close>

lemma scan_loop_extends: "scan_loop fmt l n sts = Some (n', sts') \<Longrightarrow> n \<le> n' \<and> prefix sts sts'"
proof (induction fmt l n sts rule: scan_loop.induct)
  case (2 p ps line n sts)
  then show ?case
    by (auto split: if_splits list.splits prod.splits simp del: scan_conv.simps dest!: append_prefixD) (fastforce dest: append_prefixD)+
qed simp

lemma scanf_first_str:
  assumes "CHR '':'' \<notin> set pre" "t \<noteq> []" "\<not> is_dash_field (Some t)" "nextTok (Some t) = (Some x, cur)" "fmt_ok fmt" "length (pre @ '':'' @ t) \<le> 1023"
  shows "\<exists>n st. at_tok_scanf (Some (pre @ '':'' @ t)) (''%s'' @ fmt) = Some (n, st) \<and> 0 < n \<and> (\<forall>v. str_at st 0 v = Some x)"
proof -
  obtain n st where r: "scan_loop fmt cur 1 [StStr (Some x)] = Some (n, st)" using scan_loop_defined [OF assms(5)] by (metis option.exhaust prod.exhaust)
  from scan_loop_extends [OF this] obtain st' where st: "1 \<le> n" "st = StStr (Some x) # st'" by (auto simp: prefix_def)
  have "at_tok_start (Some (pre @ '':'' @ t)) = (0, Some t)" using assms(1) by (simp add: strchr_colon)
  moreover have "scan_loop (''%s'' @ fmt) (Some t) 0 [] = Some (n, st)"
    using assms(2-4) r by (simp add: at_tok_hasmore_def at_tok_nextstr_def)
  ultimately have "at_tok_scanf (Some (pre @ '':'' @ t)) (''%s'' @ fmt) = Some (n, st)"
    using assms(6) by (simp add: at_tok_scanf_def del: at_tok_start.simps)
  then show ?thesis using st by (auto simp: str_at_def store_at_def)
qed

lemma int_fmt_commas: "scan_loop (int_fmt k) l n sts = scan_loop (concat (replicate k ''%d'')) l n sts"
proof (induction k arbitrary: l n sts rule: int_fmt.induct)
  case (3 k)
  then show ?case by (simp add: case_prod_beta)
qed simp_all

text \<open>A line with a prefix and these numbers.\<close>

definition num_line :: "string \<Rightarrow> int list \<Rightarrow> string" where
  "num_line pre is = pre @ '': '' @ int_fields is"

lemma scanf_numbers:
  assumes "CHR '':'' \<notin> set pre" "is \<noteq> []" "\<forall>i \<in> set is. in_int32 i" "length (num_line pre is) \<le> 1023"
  shows "at_tok_scanf (Some (num_line pre is)) (concat (replicate (length is) ''%d'')) = Some (length is, map StInt is)"
proof -
  have w: "\<forall>c \<in> set '' ''. isspace c" by (simp add: isspace_def)
  have "at_tok_start (Some (num_line pre is)) = (0, Some ('' '' @ int_fields is))" using assms(1) by (simp add: num_line_def strchr_colon)
  moreover have "scan_loop (concat (replicate (length is) ''%d'')) (Some ('' '' @ int_fields is)) 0 [] = Some (length is, map StInt is)"
    using scan_loop_ints [OF assms(2,3) w, of 0 "[]"] by (simp only: int_fmt_commas) simp
  ultimately show ?thesis using assms(4) by (simp add: at_tok_scanf_def del: at_tok_start.simps)
qed

section \<open>Properties\<close>

text \<open>
  C13. Whatever the modem sends, and however the requests, the reader thread and the lines that
  arrive between them follow each other, no command is ever left pending on the channel, and
  every request but the three that trust the modem's text returns: none dereferences a missing
  response or line, and none waits for ever.
\<close>

theorem atc_requests_defined:
  assumes "idle s" "atc_step\<^sup>*\<^sup>* s t"
  shows "sp_response (chan t) = None \<and>
     (\<forall>x p. \<not> trusts_answer x \<and> iptype p \<in> {0, 1, 2, 3} \<longrightarrow> (\<exists>ret u. atc_run x p t = Some (ret, u) \<and> sp_response (chan u) = None))"
proof -
  have "idle t" using atc.reach_inv assms by blast
  moreover have "\<exists>ret u. atc_run x p t = Some (ret, u) \<and> sp_response (chan u) = None"
    if "\<not> trusts_answer x" "iptype p \<in> {0, 1, 2, 3}" for x p
    using atc_run_fine [OF \<open>idle t\<close> that(1), of p] that(2) by (auto simp: fine2_def idle_def)
  ultimately show ?thesis by (auto simp: idle_def)
qed

definition sample_atc :: atc where
  "sample_atc = \<lparr>chan = demo_state\<lparr>wr := []\<rparr>, asr_style_atc = False, s_pdp = 1, g_donot_exit_when_modem_hangup = False, feed = [],
     main_queue = [], ifconfig_up = 0\<rparr>"

lemma atc_requests_defined_witness:
  "\<exists>t ret u. atc_step\<^sup>*\<^sup>* sample_atc t \<and> s_readerClosed (chan t) \<and> atc_run ASetup (QmiMsg.sample_profile\<lparr>iptype := 1\<rparr>) t = Some (ret, u)"
proof -
  have i: "idle sample_atc" by (simp add: idle_def sample_atc_def demo_state_def)
  have r: "atc_step\<^sup>*\<^sup>* sample_atc (atc_read_quit sample_atc)" by (blast intro: atc_step.quits)
  have "s_readerClosed (chan (atc_read_quit sample_atc))" by (simp add: atc_read_quit_def at_close_def send_event_to_main_def)
  moreover have "\<not> trusts_answer ASetup \<and> iptype (QmiMsg.sample_profile\<lparr>iptype := 1\<rparr>) \<in> {0, 1, 2, 3}" by simp
  ultimately show ?thesis using atc_requests_defined [OF i r] r by blast
qed

text \<open>
  The SIM status that the modem's answer to \<open>AT+CPIN?\<close> gives: ready, PIN or PUK required,
  absent for every other text. For \<open>PH-NET PIN\<close> the function returns the number of the status
  instead of storing it. A refused command means not ready, whatever the error: the case for
  \<open>+CME ERROR: 10\<close>, no SIM inserted, is never reached.
\<close>

theorem atc_sim_status:
  assumes "ready (chan s)" "feed s = x # fs"
  shows "(field_ok (Plain w) \<and> answers SINGLELINE (Some ''+CPIN:'') True [''+CPIN: '' @ w] x \<longrightarrow>
       (\<exists>t. requestGetSIMStatus old s =
          Some (if w = ''PH-NET PIN'' then 5 else 0,
            case map_of [(''READY'', SIM_READY), (''SIM PIN'', SIM_PIN), (''SIM PUK'', SIM_PUK), (''PH-NET PIN'', old)] w of
              Some v \<Rightarrow> v | None \<Rightarrow> SIM_ABSENT, t) \<and> after s ''AT+CPIN?'' t)) \<and>
     (answers SINGLELINE (Some ''+CPIN:'') False xs x \<longrightarrow>
       (\<exists>t. requestGetSIMStatus old s = Some (0, SIM_NOT_READY, t) \<and> after s ''AT+CPIN?'' t))"
proof (intro conjI impI; (elim conjE)?)
  assume f: "field_ok (Plain w)" and a: "answers SINGLELINE (Some ''+CPIN:'') True [''+CPIN: '' @ w] x"
  define l where "l = ''+CPIN: '' @ w"
  define u where "u = '' '' @ w"
  obtain g t where r: "send_singleline ''AT+CPIN?'' ''+CPIN:'' True s = Some (0, Some (response True g [l]), t)" "after s ''AT+CPIN?'' t"
    using singleline_answered [OF assms a [folded l_def], of "''AT+CPIN?''"] by blast
  have c: "at_get_cme_error (Some (response True g [l])) = CME_SUCCESS" by (simp add: at_get_cme_error_def response_def CME_SUCCESS_def)
  have st: "at_tok_start (Some l) = (0, Some u)" by (simp add: l_def u_def)
  have "nextTok (Some u) = nextTok (Some w)" unfolding u_def by (rule nextTok_skip_ws) (simp add: isspace_def)
  then have "fst (nextTok (Some u)) = Some w" using nextTok_field_last [OF f] by simp
  then obtain cur where n: "at_tok_nextstr (Some u) = (0, cur, Some w)" by (cases "nextTok (Some u)") (simp add: at_tok_nextstr_def)
  have q: "requestGetSIMStatus old s = (case cpin_status old w of (ret, st) \<Rightarrow> Some (ret, st, t))"
    unfolding requestGetSIMStatus_def r(1) by (simp add: c st n Let_def del: at_tok_start.simps first_line.simps)
  have cp: "cpin_status old w = (if w = ''PH-NET PIN'' then 5 else 0,
      case map_of [(''READY'', SIM_READY), (''SIM PIN'', SIM_PIN), (''SIM PUK'', SIM_PUK), (''PH-NET PIN'', old)] w of Some v \<Rightarrow> v | None \<Rightarrow> SIM_ABSENT)"
    by (simp add: cpin_status_def)
  show "\<exists>t. requestGetSIMStatus old s =
          Some (if w = ''PH-NET PIN'' then 5 else 0,
            case map_of [(''READY'', SIM_READY), (''SIM PIN'', SIM_PIN), (''SIM PUK'', SIM_PUK), (''PH-NET PIN'', old)] w of
              Some v \<Rightarrow> v | None \<Rightarrow> SIM_ABSENT, t) \<and> after s ''AT+CPIN?'' t"
    using r(2) q cp by (simp only: prod.case) blast
next
  assume a: "answers SINGLELINE (Some ''+CPIN:'') False xs x"
  then show "\<exists>t. requestGetSIMStatus old s = Some (0, SIM_NOT_READY, t) \<and> after s ''AT+CPIN?'' t"
    using singleline_answered [OF assms a, of "''AT+CPIN?''"] by (auto simp: requestGetSIMStatus_def)
qed

text \<open>Answers of one line, or of none, and a final line.\<close>

definition reply :: "string list \<Rightarrow> string \<Rightarrow> wake list \<times> wake list" where
  "reply ls f = ([], map WLine ls @ [WLine f])"

lemmas plain_eval = plain_line_def isFinalResponseSuccess_def isFinalResponseError_def s_finalResponsesSuccess_def s_finalResponsesError_def final_line_def

lemma reply_answers:
  assumes "\<forall>l \<in> set ls. plain_line l" "final_line ok f" "picked ty pre ls = xs"
  shows "answers ty pre ok xs (reply ls f)"
  unfolding answers_def reply_def
  by (rule exI [of _ "[]"], rule exI [of _ ls], rule exI [of _ f], rule exI [of _ "[]"]) (use assms in simp)

lemma atc_sim_status_witness:
  "(\<exists>t. requestGetSIMStatus SIM_NOT_READY (sample_atc\<lparr>feed := [reply [''RING'', ''+CPIN: SIM PIN''] ''OK'']\<rparr>) = Some (0, SIM_PIN, t)) \<and>
   (\<exists>t. requestGetSIMStatus SIM_READY (sample_atc\<lparr>feed := [reply [] ''+CME ERROR: 10'']\<rparr>) = Some (0, SIM_NOT_READY, t))"
proof -
  let ?x = "reply [''RING'', ''+CPIN: '' @ ''SIM PIN''] ''OK''" and ?y = "reply [] ''+CME ERROR: 10''"
  have f: "field_ok (Plain ''SIM PIN'')" by (simp add: isspace_def)
  have p: "picked SINGLELINE (Some ''+CPIN:'') [''RING'', ''+CPIN: '' @ ''SIM PIN''] = [''+CPIN: '' @ ''SIM PIN'']"
    "picked SINGLELINE (Some ''+CPIN:'') [] = []"
    by (simp_all add: picked_def pick_def line_matches_def)
  have x: "answers SINGLELINE (Some ''+CPIN:'') True [''+CPIN: '' @ ''SIM PIN''] ?x"
    by (rule reply_answers [OF _ _ p(1)]) (simp_all add: plain_eval)
  have y: "answers SINGLELINE (Some ''+CPIN:'') False [] ?y"
    by (rule reply_answers [OF _ _ p(2)]) (simp_all add: plain_eval)
  have r: "ready (chan (sample_atc\<lparr>feed := fs\<rparr>))" for fs by (simp add: ready_def sample_atc_def demo_state_def)
  show ?thesis
    using atc_sim_status [OF r, of _ ?x "[]" "''SIM PIN''" SIM_NOT_READY "[]"] atc_sim_status [OF r, of _ ?y "[]" "[]" SIM_READY "[]"] f x y
    by fastforce
qed

lemma address_text:
  assumes "w \<in> {dotted a b c d, hex2 d @ hex2 c @ hex2 b @ hex2 a}"
  shows "w \<noteq> [] \<and> \<not> isspace (hd w) \<and> hd w \<noteq> CHR 0x22 \<and> CHR '','' \<notin> set w \<and> length w \<le> 100"
proof -
  have n: "show_nat (unat x) \<noteq> [] \<and> isdigit (hd (show_nat (unat x))) \<and> CHR '','' \<notin> set (show_nat (unat x)) \<and> length (show_nat (unat x)) \<le> 3" for x :: byte
  proof -
    have all: "\<forall>c \<in> set (show_nat (unat x)). isdigit c" using show_nat_dec is_dec_isdigit by blast
    have "length (show_nat (unat x)) \<le> 3" 
    proof -
      have "unat x div 10 div 10 < 10" using unat_byte_less [of x] by linarith
      then show ?thesis by (simp add: show_nat.simps [of "unat x"] show_nat.simps [of "unat x div 10"] show_nat.simps [of "unat x div 10 div 10"])
    qed
    with all digit_not_space show ?thesis by (auto dest: list.set_sel(1))
  qed
  have h: "\<not> isspace (hex_digit (unat x div 16)) \<and> hex_digit (unat x div 16) \<noteq> CHR 0x22 \<and> CHR '','' \<notin> set (hex2 x)" for x :: byte
    using hex_digit_char [of "unat x div 16"] hex_digit_char [of "unat x mod 16"] unat_byte_less [of x] by (auto simp: hex2_def less_mult_imp_div_less)
  consider "w = dotted a b c d" | "w = hex2 d @ hex2 c @ hex2 b @ hex2 a" using assms by blast
  then show ?thesis
  proof cases
    case 1
    have "length (dotted a b c d) \<le> 15" using n [of a] n [of b] n [of c] n [of d] by (simp add: dotted_def)
    then show ?thesis using 1 n digit_not_space [of "hd (show_nat (unat a))"] by (auto simp: dotted_def hd_append)
  next
    case 2
    then show ?thesis using h by (simp add: hex2_def)
  qed
qed

lemma nextTok_first:
  assumes "w \<noteq> []" "\<not> isspace (hd w)" "hd w \<noteq> CHR 0x22" "CHR '','' \<notin> set w" "rest = [] \<or> hd rest = CHR '',''"
  shows "\<exists>cur. nextTok (Some ('' '' @ w @ rest)) = (Some w, cur)"
proof -
  obtain c cs where t: "w = c # cs" using assms(1) by (cases w) auto
  have sp: "isspace (CHR '' '')" by (simp add: isspace_def)
  obtain r where "rest = [] \<or> rest = CHR '','' # r" using assms(5) by (cases rest) auto
  then have "takeWhile (\<lambda>c. c \<noteq> CHR '','') (w @ rest) = w" using assms(4) by (auto simp: sep_simps)
  then show ?thesis using assms t sp by (simp add: nextTok_Some)
qed

text \<open>
  C27. Round trip of the address: when the modem reports the call's address, in dotted decimal or
  as eight hexadecimal digits with the last byte first, and whatever fields follow it, then exactly
  its four bytes are stored in the profile and the call counts as connected. (An address of
  zeros means that there is none.)
\<close>

theorem atc_address_roundtrip:
  assumes "ready (chan s)" "feed s = x # fs" "\<not> asr_style_atc s" "s_pdp s = pdp p" "le32_of a b c d \<noteq> 0"
    and "w \<in> {dotted a b c d, hex2 d @ hex2 c @ hex2 b @ hex2 a}" "rest = [] \<or> hd rest = CHR '',''" "length rest \<le> 900"
    and "answers SINGLELINE (Some ''+QNETDEVSTATUS'') True [''+QNETDEVSTATUS: '' @ w @ rest] x"
  shows "(\<exists>p' t. requestGetIPAddress p s = Some (0, p', t) \<and> v4_Address (ipv4 p') = le32_of a b c d) \<and>
     (\<exists>t. requestQueryDataCall junk s = Some (0, QWDS_PKT_DATA_CONNECTED, t))"
proof -
  have w: "w \<noteq> []" "\<not> isspace (hd w)" "hd w \<noteq> CHR 0x22" "CHR '','' \<notin> set w" "parse_v4 w = le32_of a b c d" "length w \<le> 100"
    using assms(6) address_text [OF assms(6)] parse_v4_text by auto
  obtain g t where r: "send_singleline (''AT+QNETDEVSTATUS='' @ show_int (pdp p)) ''+QNETDEVSTATUS'' True s =
      Some (0, Some (response True g [''+QNETDEVSTATUS: '' @ w @ rest]), t)"
    using singleline_answered [OF assms(1,2,9)] by fastforce
  obtain cur where tok: "nextTok (Some ('' '' @ w @ rest)) = (Some w, cur)" using nextTok_first [OF w(1-4) assms(7)] by blast
  have "\<exists>n st. at_tok_scanf (Some (''+QNETDEVSTATUS'' @ '':'' @ '' '' @ w @ rest)) (''%s'' @ ''%s%s%s%s%s%s%s%s%s'') = Some (n, st) \<and> 0 < n \<and> (\<forall>v. str_at st 0 v = Some w)"
    using assms(8) w(6) tok by (intro scanf_first_str) (simp_all add: is_dash_field_def split: list.split)
  then obtain n st where sc: "at_tok_scanf (Some (''+QNETDEVSTATUS: '' @ w @ rest)) ''%s%s%s%s%s%s%s%s%s%s'' = Some (n, st)" "0 < n" "\<And>v. str_at st 0 v = Some w"
    by auto
  have "at_netdevstatus (pdp p) s = Some (0, le32_of a b c d, t)"
    unfolding at_netdevstatus_def r using sc w(1,5) by (simp del: intermediates.simps)
  then show ?thesis using assms(3-5)
    by (auto simp: requestGetIPAddress_def requestQueryDataCall_def)
qed

lemma atc_address_roundtrip_witness:
  "(\<exists>p' t. requestGetIPAddress QmiMsg.sample_profile (sample_atc\<lparr>feed := [reply [''+QNETDEVSTATUS: 0A000102,FF000000''] ''OK'']\<rparr>) = Some (0, p', t) \<and>
     v4_Address (ipv4 p') = le32_of 2 1 0 10)"
proof -
  let ?l = "''+QNETDEVSTATUS: '' @ (hex2 10 @ hex2 0 @ hex2 1 @ hex2 2) @ '',FF000000''"
  have l: "?l = ''+QNETDEVSTATUS: 0A000102,FF000000''" by code_simp
  have a: "answers SINGLELINE (Some ''+QNETDEVSTATUS'') True [?l] (reply [''+QNETDEVSTATUS: 0A000102,FF000000''] ''OK'')"
    unfolding l by (rule reply_answers) (simp_all add: plain_eval picked_def pick_def line_matches_def)
  have z: "le32_of 2 1 0 10 \<noteq> 0" by code_simp
  let ?s = "sample_atc\<lparr>feed := [reply [''+QNETDEVSTATUS: 0A000102,FF000000''] ''OK'']\<rparr>"
  have s: "ready (chan ?s)" "feed ?s = reply [''+QNETDEVSTATUS: 0A000102,FF000000''] ''OK'' # []" "\<not> asr_style_atc ?s" "s_pdp ?s = pdp QmiMsg.sample_profile"
    by (simp_all add: ready_def sample_atc_def demo_state_def QmiMsg.sample_profile_def)
  have t: "hex2 10 @ hex2 0 @ hex2 1 @ hex2 2 \<in> {dotted 2 1 0 10, hex2 10 @ hex2 0 @ hex2 1 @ hex2 2}" by simp
  show ?thesis using atc_address_roundtrip [OF s z t _ _ a] by simp
qed

text \<open>What the lines of \<open>AT+QNETDEVCTL?\<close> leave in \<open>bind\<close>, \<open>cid\<close> and \<open>state\<close>.\<close>

definition ctl_line :: "int \<times> int \<times> int \<times> int \<Rightarrow> string" where
  "ctl_line c = (case c of (op, cid, urc, state) \<Rightarrow> num_line ''+QNETDEVCTL'' [op, cid, urc, state])"

definition ctl_ok :: "int \<times> int \<times> int \<times> int \<Rightarrow> bool" where
  "ctl_ok c = (case c of (op, cid, urc, state) \<Rightarrow> in_int32 op \<and> in_int32 cid \<and> in_int32 urc \<and> in_int32 state \<and> length (ctl_line c) \<le> 1023)"

lemma scan_ctl_line:
  assumes "ctl_ok (op, cid, urc, state)"
  shows "at_tok_scanf (Some (ctl_line (op, cid, urc, state))) ''%d%d%d%d'' = Some (4, map StInt [op, cid, urc, state])"
proof -
  have "at_tok_scanf (Some (num_line ''+QNETDEVCTL'' [op, cid, urc, state])) (concat (replicate (length [op, cid, urc, state]) ''%d'')) =
      Some (length [op, cid, urc, state], map StInt [op, cid, urc, state])"
    using assms by (intro scanf_numbers) (auto simp: ctl_ok_def ctl_line_def)
  then show ?thesis by (simp add: ctl_line_def eval_nat_numeral)
qed

lemma netdevctl_loop_last:
  assumes "\<forall>c \<in> set cs. ctl_ok c" "cs \<noteq> []" "last cs = (op, cid, urc, state)"
  shows "netdevctl_loop want (map ctl_line cs) x = Some (if cid = want \<and> op \<noteq> 1 then 0 else op, cid, state)"
  using assms
proof (induction cs arbitrary: x)
  case (Cons c cs)
  obtain o1 c1 u1 s1 where c: "c = (o1, c1, u1, s1)" by (cases c)
  obtain b0 c0 s0 where x: "x = (b0, c0, s0)" by (cases x)
  note sc = scan_ctl_line [of o1 c1 u1 s1]
  have step: "netdevctl_loop want (map ctl_line (c # cs)) x = netdevctl_loop want (map ctl_line cs) (if c1 = want \<and> o1 \<noteq> 1 then 0 else o1, c1, s1)"
    using sc Cons.prems(1) unfolding c x by (simp add: Let_def int_at_def store_at_def)
  show ?case
  proof (cases "cs = []")
    case True
    then show ?thesis using step Cons.prems(3) c by simp
  next
    case False
    then show ?thesis using Cons.IH [OF _ False] Cons.prems unfolding step by simp
  qed
qed simp

text \<open>
  On modems of the other style the state of the call is taken from the last line of the
  modem's list, whatever context it is about: when the last line is of a context without a
  connection, a call that is up counts as down, and the context's own state is not even asked for.
\<close>

theorem atc_query_last_line:
  assumes "ready (chan s)" "feed s = x # fs" "asr_style_atc s" "\<forall>c \<in> set cs. ctl_ok c" "cs \<noteq> []" "last cs = (op, cid, urc, state)"
    and "answers MULTILINE (Some ''+QNETDEVCTL:'') True (map ctl_line cs) x" "state = 0 \<or> op = 0"
  shows "\<exists>t. requestQueryDataCall junk s = Some (0, QWDS_PKT_DATA_DISCONNECTED, t) \<and> after s ''AT+QNETDEVCTL?'' t"
proof -
  obtain g t where r: "send_multiline ''AT+QNETDEVCTL?'' ''+QNETDEVCTL:'' True s = Some (0, Some (response True g (map ctl_line cs)), t)" "after s ''AT+QNETDEVCTL?'' t"
    using multiline_answered [OF assms(1,2,7)] by blast
  have l: "netdevctl_loop (s_pdp t) (map ctl_line cs) (0, junk, 0) = Some (if cid = s_pdp t \<and> op \<noteq> 1 then 0 else op, cid, state)"
    by (rule netdevctl_loop_last [OF assms(4-6)])
  show ?thesis using r(2) assms(3,8) unfolding requestQueryDataCall_def by (auto simp: r(1) l simp del: intermediates.simps)
qed

lemma atc_query_last_line_witness:
  "\<exists>t. requestQueryDataCall 0 (sample_atc\<lparr>feed := [reply [''+QNETDEVCTL: 1,1,1,1'', ''+QNETDEVCTL: 1,2,1,0''] ''OK''], asr_style_atc := True\<rparr>)
     = Some (0, QWDS_PKT_DATA_DISCONNECTED, t)"
proof -
  let ?x = "reply [''+QNETDEVCTL: 1,1,1,1'', ''+QNETDEVCTL: 1,2,1,0''] ''OK''" and ?cs = "[(1, 1, 1, 1), (1, 2, 1, 0)]"
  have l: "map ctl_line ?cs = [''+QNETDEVCTL: 1,1,1,1'', ''+QNETDEVCTL: 1,2,1,0'']"
    by (simp add: ctl_line_def num_line_def show_int_def show_nat.simps digit_char_def) code_simp
  have a: "answers MULTILINE (Some ''+QNETDEVCTL:'') True (map ctl_line ?cs) ?x"
    unfolding l by (rule reply_answers) (simp_all add: plain_eval picked_multiline)
  have c: "\<forall>c \<in> set ?cs. ctl_ok c" using l by (simp add: ctl_ok_def in_int32_def)
  let ?s = "sample_atc\<lparr>feed := [?x], asr_style_atc := True\<rparr>"
  have s: "ready (chan ?s)" "feed ?s = ?x # []" "asr_style_atc ?s" by (simp_all add: ready_def sample_atc_def demo_state_def)
  show ?thesis using atc_query_last_line [OF s c _ _ a, where op = 1 and cid = 2 and urc = 1 and state = 0 and junk = 0] by auto
qed

text \<open>
  Setting a call up: the command goes out with the context's number, and when the modem
  accepts it and reports the device's state, the main thread is told to check the call. When the
  modem refuses the command, the request still returns 0, success, and nobody is told.
\<close>

theorem atc_setup_call:
  assumes "ready (chan s)" "feed s = x # y # fs" "\<not> asr_style_atc s"
  shows "(answers NO_RESULT None True [] x \<and> answers SINGLELINE (Some ''+QNETDEVSTATUS'') True (l # ls) y \<longrightarrow>
       (\<exists>t. requestSetupDataCall p s = Some (0, t) \<and> feed t = fs \<and> last (main_queue t) = RIL_UNSOL_DATA_CALL_LIST_CHANGED \<and>
          sent_text (out (chan t)) = sent_text (out (chan s)) @ ''AT+QNETDEVCTL='' @ show_int (pdp p) @ '',1,1'' @ [CHR 0x0D] @
            ''AT+QNETDEVSTATUS='' @ show_int (pdp p) @ [CHR 0x0D])) \<and>
     (answers NO_RESULT None False [] x \<longrightarrow> (\<exists>t. requestSetupDataCall p s = Some (0, t) \<and> feed t = y # fs))"
proof -
  define u where "u = (if strStartsWith (BaseBandVersion p) ''RG801H'' \<or> strStartsWith (BaseBandVersion p) ''EC200H''
    then s\<lparr>ifconfig_up := Suc (ifconfig_up s)\<rparr> else s)"
  have u: "ready (chan u)" "feed u = x # y # fs" "\<not> asr_style_atc u" "out (chan u) = out (chan s)" using assms by (simp_all add: u_def)
  have one: "show_int 1 = ''1''" by code_simp
  have def: "requestSetupDataCall p s = do {
       (err, r, s) \<leftarrow> send_command (netdevctl False (pdp p) 1) True u;
       if at_response_error err r then Some (err, s)
       else do {
         (err, go, s) \<leftarrow> (if asr_style_atc s then Some (err, True, s) else status_loop 15 (''AT+QNETDEVSTATUS='' @ show_int (pdp p)) err s);
         Some (err, if go then send_event_to_main RIL_UNSOL_DATA_CALL_LIST_CHANGED s else s) } }"
    unfolding requestSetupDataCall_def Let_def u_def [symmetric] using u(3) by simp
  have "\<exists>t. requestSetupDataCall p s = Some (0, t) \<and> feed t = y # fs" if a: "answers NO_RESULT None False [] x"
    using command_answered [OF u(1,2) a, of "netdevctl False (pdp p) 1" True] u(2) unfolding def by (auto simp: after_def)
  moreover have "\<exists>t. requestSetupDataCall p s = Some (0, t) \<and> feed t = fs \<and> last (main_queue t) = RIL_UNSOL_DATA_CALL_LIST_CHANGED \<and>
          sent_text (out (chan t)) = sent_text (out (chan s)) @ ''AT+QNETDEVCTL='' @ show_int (pdp p) @ '',1,1'' @ [CHR 0x0D] @
            ''AT+QNETDEVSTATUS='' @ show_int (pdp p) @ [CHR 0x0D]"
    if a: "answers NO_RESULT None True [] x" and b: "answers SINGLELINE (Some ''+QNETDEVSTATUS'') True (l # ls) y"
  proof -
    obtain f v where v: "send_command (netdevctl False (pdp p) 1) True u = Some (0, Some (response True f []), v)" "after u (netdevctl False (pdp p) 1) v"
      using command_answered [OF u(1,2) a, of "netdevctl False (pdp p) 1" True] by auto
    then have w: "ready (chan v)" "feed v = y # fs" "\<not> asr_style_atc v" using u by (auto simp: after_def same_conf_def)
    let ?q = "''AT+QNETDEVSTATUS='' @ show_int (pdp p)"
    obtain g t where t: "send_singleline ?q ''+QNETDEVSTATUS'' True v = Some (0, Some (response True g (l # ls)), t)" "after v ?q t"
      using singleline_answered [OF w(1,2) b, of ?q] by auto
    have "status_loop 15 ?q 0 v = Some (0, True, t)"
      using t(1) by (simp add: eval_nat_numeral)
    then have "requestSetupDataCall p s = Some (0, send_event_to_main RIL_UNSOL_DATA_CALL_LIST_CHANGED t)" unfolding def using v(1) w(3) by simp
    moreover have "feed t = fs" "sent_text (out (chan t)) = sent_text (out (chan s)) @ netdevctl False (pdp p) 1 @ [CHR 0x0D] @ ?q @ [CHR 0x0D]"
      using v(2) t(2) u(2,4) by (simp_all add: after_def)
    ultimately show ?thesis by (simp add: send_event_to_main_def netdevctl_def one)
  qed
  ultimately show ?thesis by blast
qed

lemma atc_setup_call_witness:
  "(\<exists>t. requestSetupDataCall QmiMsg.sample_profile (sample_atc\<lparr>feed := [reply [] ''OK'', reply [''+QNETDEVSTATUS: 1''] ''OK'']\<rparr>) = Some (0, t) \<and>
     last (main_queue t) = RIL_UNSOL_DATA_CALL_LIST_CHANGED) \<and>
   (\<exists>t. requestSetupDataCall QmiMsg.sample_profile (sample_atc\<lparr>feed := [reply [] ''ERROR'', reply [] ''OK'']\<rparr>) = Some (0, t))"
proof -
  have r: "ready (chan (sample_atc\<lparr>feed := fs\<rparr>))" "\<not> asr_style_atc (sample_atc\<lparr>feed := fs\<rparr>)" for fs by (simp_all add: ready_def sample_atc_def demo_state_def)
  have a: "answers NO_RESULT None True [] (reply [] ''OK'')" "answers NO_RESULT None False [] (reply [] ''ERROR'')"
    by (rule reply_answers; simp add: plain_eval)+
  have b: "answers SINGLELINE (Some ''+QNETDEVSTATUS'') True [''+QNETDEVSTATUS: 1''] (reply [''+QNETDEVSTATUS: 1''] ''OK'')"
    by (rule reply_answers) (simp_all add: plain_eval picked_def pick_def line_matches_def)
  let ?s = "sample_atc\<lparr>feed := [reply [] ''OK'', reply [''+QNETDEVSTATUS: 1''] ''OK'']\<rparr>"
  let ?t = "sample_atc\<lparr>feed := [reply [] ''ERROR'', reply [] ''OK'']\<rparr>"
  have f: "feed ?s = reply [] ''OK'' # reply [''+QNETDEVSTATUS: 1''] ''OK'' # []" "feed ?t = reply [] ''ERROR'' # reply [] ''OK'' # []" by simp_all
  show ?thesis
    using atc_setup_call [OF r(1) f(1) r(2)] atc_setup_call [OF r(1) f(2) r(2)] a b by blast
qed

text \<open>
  Entering the PIN always reports a failure: the command is sent without a place for the
  response, whose absence is then taken for an error.
\<close>

lemma atc_enter_pin_fails:
  assumes "idle s"
  shows "\<exists>t. requestEnterSimPin pin s = Some (-1, t) \<and> idle t"
proof -
  obtain err r t where "send_command (''AT+CPIN='' @ pin) False s = Some (err, r, t)" "idle t" using send_command_defined [OF assms] by blast
  then show ?thesis by (simp add: requestEnterSimPin_def at_response_error_def)
qed

text \<open>A profile that the modem already has is not sent again.\<close>

lemma atc_profile_kept:
  assumes "old_apn p = or_empty (apn p)" "old_user p = or_empty (user p)" "old_password p = or_empty (password p)"
    and "old_iptype p = iptype p" "old_auth p = auth p" "0 \<le> iptype p" "iptype p < 4"
  shows "requestSetProfile p s = Some (0, s)"
  using assms by (simp add: requestSetProfile_def same_profile_def ip_name_def)

end
