(* ===== verification/QList.thy ===== *)
theory QList
  imports Prelude
begin

text \<open>
  The intrusive doubly linked list of \<^verbatim>\<open>quectel_cm_5G/src/qlist.h\<close>, on an explicit
  store of nodes, and its refinement to HOL lists. The proxies keep their connections,
  clients and queued messages in such lists; the locale \<open>list_store\<close> is the interface
  they rely on, and its interpretation on the pointer operations justifies that the
  proxy models use HOL lists.
\<close>

section \<open>The pointer operations\<close>

type_synonym addr = nat

record qlistnode =
  nxt :: addr
  prv :: addr

type_synonym qstore = "addr \<Rightarrow> qlistnode"

definition qlist_init :: "addr \<Rightarrow> qstore \<Rightarrow> qstore" where
  "qlist_init node st = st(node := \<lparr>nxt = node, prv = node\<rparr>)"

definition set_nxt :: "addr \<Rightarrow> addr \<Rightarrow> qstore \<Rightarrow> qstore" where
  "set_nxt a v st = st(a := (st a)\<lparr>nxt := v\<rparr>)"

definition set_prv :: "addr \<Rightarrow> addr \<Rightarrow> qstore \<Rightarrow> qstore" where
  "set_prv a v st = st(a := (st a)\<lparr>prv := v\<rparr>)"

definition qlist_add_tail :: "addr \<Rightarrow> addr \<Rightarrow> qstore \<Rightarrow> qstore" where
  "qlist_add_tail head item st =
     (let st1 = set_nxt item head st;
          st2 = set_prv item (prv (st1 head)) st1;
          st3 = set_nxt (prv (st2 head)) item st2
      in set_prv head item st3)"

definition qlist_remove :: "addr \<Rightarrow> qstore \<Rightarrow> qstore" where
  "qlist_remove item st =
     (let st1 = set_prv (nxt (st item)) (prv (st item)) st
      in set_nxt (prv (st1 item)) (nxt (st1 item)) st1)"

definition qlist_empty :: "addr \<Rightarrow> qstore \<Rightarrow> bool" where
  "qlist_empty list st \<longleftrightarrow> list = nxt (st list)"

definition qlist_head :: "addr \<Rightarrow> qstore \<Rightarrow> addr" where
  "qlist_head list st = nxt (st list)"

definition qlist_tail :: "addr \<Rightarrow> qstore \<Rightarrow> addr" where
  "qlist_tail list st = prv (st list)"

text \<open>\<open>qlist_for_each\<close>: the nodes visited from \<open>node\<close> on, with fuel for the walk.\<close>

fun qlist_for_each :: "nat \<Rightarrow> addr \<Rightarrow> addr \<Rightarrow> qstore \<Rightarrow> addr list option" where
  "qlist_for_each 0 node list st = (if node = list then Some [] else None)"
| "qlist_for_each (Suc n) node list st =
     (if node = list then Some []
      else map_option ((#) node) (qlist_for_each n (nxt (st node)) list st))"

section \<open>The list a ring represents\<close>

fun chain :: "qstore \<Rightarrow> addr list \<Rightarrow> bool" where
  "chain st (x # y # r) \<longleftrightarrow> nxt (st x) = y \<and> prv (st y) = x \<and> chain st (y # r)"
| "chain st _ \<longleftrightarrow> True"

definition is_qlist :: "addr \<Rightarrow> qstore \<Rightarrow> addr list \<Rightarrow> bool" where
  "is_qlist h st xs \<longleftrightarrow> distinct (h # xs) \<and> chain st (h # xs @ [h])"

lemma chain_append: "chain st (xs @ y # zs) \<longleftrightarrow> chain st (xs @ [y]) \<and> chain st (y # zs)"
proof (induction xs rule: induct_list012)
  case (2 v)
  then show ?case by (cases zs) auto
qed auto

text \<open>Splitting a ring at its last element.\<close>

lemma chain_last: "chain st (h # xs @ l) \<longleftrightarrow> chain st (h # xs) \<and> chain st (last (h # xs) # l)"
proof -
  obtain u p where up: "h # xs = u @ [p]" by (metis list.simps(3) rev_exhaust)
  have "h # xs @ l = u @ p # l" using up by (metis append.assoc append_Cons append_Nil)
  moreover have "last (h # xs) = p" using up by (metis last_snoc)
  ultimately show ?thesis using chain_append [of st u p l] up by metis
qed

lemma butlast_neq_last: "distinct (h # xs) \<Longrightarrow> a \<in> set (butlast (h # xs)) \<Longrightarrow> a \<noteq> last (h # xs)"
  by (metis append_butlast_last_id distinct_append disjoint_insert(1) list.set(2) list.simps(3))

lemma chain_cong:
  assumes "\<And>a. a \<in> set (butlast l) \<Longrightarrow> nxt (st' a) = nxt (st a)"
    and "\<And>a. a \<in> set (tl l) \<Longrightarrow> prv (st' a) = prv (st a)"
  shows "chain st' l = chain st l"
  using assms by (induction st l rule: chain.induct) auto

lemma node_update_simps [simp]:
  "nxt (set_nxt a v st b) = (if b = a then v else nxt (st b))"
  "prv (set_nxt a v st b) = prv (st b)"
  "prv (set_prv a v st b) = (if b = a then v else prv (st b))"
  "nxt (set_prv a v st b) = nxt (st b)"
  by (simp_all add: set_nxt_def set_prv_def)

lemma ring_ends:
  assumes "chain st (h # xs @ [h])"
  shows "prv (st h) = last (h # xs)" and "nxt (st h) = hd (xs @ [h])"
proof -
  show "prv (st h) = last (h # xs)"
    using assms chain_last [of st h xs "[h]"] by (simp del: last.simps)
  show "nxt (st h) = hd (xs @ [h])"
    using assms by (cases xs) auto
qed

lemma is_qlist_init: "is_qlist h (qlist_init h st) []"
  by (simp add: is_qlist_def qlist_init_def)

lemma is_qlist_add_tail:
  assumes "is_qlist h st xs" and "i \<noteq> h" and "i \<notin> set xs"
  shows "is_qlist h (qlist_add_tail h i st) (xs @ [i])"
proof -
  let ?st = "qlist_add_tail h i st" and ?l = "last (h # xs)"
  have ch: "chain st (h # xs @ [h])" and dist: "distinct (h # xs)"
    using assms(1) by (auto simp: is_qlist_def)
  note l = ring_ends(1) [OF ch]
  have li: "?l \<noteq> i" using assms(2,3) by (metis last_in_set list.simps(3) set_ConsD)
  have upd: "nxt (?st a) = (if a = ?l then i else if a = i then h else nxt (st a))"
    "prv (?st a) = (if a = h then i else if a = i then ?l else prv (st a))" for a
    using l li assms(2) by (auto simp: qlist_add_tail_def Let_def)
  have "chain st (h # xs)"
    using ch chain_last [of st h xs "[h]"] by blast
  moreover have "chain ?st (h # xs) = chain st (h # xs)"
  proof (rule chain_cong)
    fix a assume a: "a \<in> set (butlast (h # xs))"
    have "a \<noteq> ?l" by (rule butlast_neq_last [OF dist a])
    moreover have "a \<noteq> i" using a assms(2,3) by (auto dest: in_set_butlastD split: if_splits)
    ultimately show "nxt (?st a) = nxt (st a)" by (simp add: upd)
  next
    fix a assume "a \<in> set (tl (h # xs))"
    then show "prv (?st a) = prv (st a)" using dist assms(3) by (auto simp: upd)
  qed
  ultimately have c1: "chain ?st (h # xs)" by simp
  have c2: "chain ?st [?l, i, h]" using li assms(2) by (auto simp: upd)
  have "chain ?st (h # xs @ [i, h])"
    using c1 c2 chain_last [of ?st h xs "[i, h]"] by blast
  then show ?thesis using dist assms(2,3) by (simp add: is_qlist_def)
qed

lemma is_qlist_remove:
  assumes "is_qlist h st (as @ i # bs)"
  shows "is_qlist h (qlist_remove i st) (as @ bs)"
proof -
  let ?st = "qlist_remove i st" and ?p = "last (h # as)" and ?n = "hd (bs @ [h])"
  have ch: "chain st (h # as @ i # bs @ [h])" and dist: "distinct (h # as @ i # bs)"
    using assms by (auto simp: is_qlist_def)
  have ca: "chain st (h # as @ [i])" and cb: "chain st (i # bs @ [h])"
    using ch chain_append [of st "h # as" i "bs @ [h]"] by auto
  have p: "prv (st i) = ?p" and cha: "chain st (h # as)"
    using ca chain_last [of st h as "[i]"] by (simp_all del: last.simps)
  have n: "nxt (st i) = ?n" and chb: "chain st (bs @ [h])"
    using cb by (cases bs; simp)+
  have pn: "?p \<in> set (h # as)" "?n \<in> set (h # bs)"
    by (metis last_in_set list.simps(3)) (cases bs; simp)
  have upd: "nxt (?st a) = (if a = ?p then ?n else nxt (st a))"
    "prv (?st a) = (if a = ?n then ?p else prv (st a))" for a
  proof -
    have "?n \<noteq> i" using pn(2) dist by auto
    then show "nxt (?st a) = (if a = ?p then ?n else nxt (st a))"
      "prv (?st a) = (if a = ?n then ?p else prv (st a))"
      using p n by (auto simp: qlist_remove_def Let_def)
  qed
  have "chain ?st (h # as) = chain st (h # as)"
  proof (rule chain_cong)
    fix a assume a: "a \<in> set (butlast (h # as))"
    have "distinct (h # as)" using dist by auto
    then have "a \<noteq> ?p" using a by (rule butlast_neq_last)
    then show "nxt (?st a) = nxt (st a)" by (simp add: upd)
  next
    fix a assume "a \<in> set (tl (h # as))"
    then have "a \<noteq> ?n" using dist pn(2) by auto
    then show "prv (?st a) = prv (st a)" by (simp add: upd)
  qed
  moreover have "chain ?st (bs @ [h]) = chain st (bs @ [h])"
  proof (rule chain_cong)
    fix a assume "a \<in> set (butlast (bs @ [h]))"
    then have "a \<noteq> ?p" using dist pn(1) by auto
    then show "nxt (?st a) = nxt (st a)" by (simp add: upd)
  next
    fix a assume a: "a \<in> set (tl (bs @ [h]))"
    have "a \<noteq> ?n" using a dist by (cases bs) auto
    then show "prv (?st a) = prv (st a)" by (simp add: upd)
  qed
  ultimately have c: "chain ?st (h # as)" "chain ?st (bs @ [h])"
    using cha chb by auto
  obtain n' rs where rs: "bs @ [h] = n' # rs" by (cases bs) auto
  then have n': "?n = n'" by simp
  have "nxt (?st ?p) = ?n" "prv (?st ?n) = ?p" by (simp_all only: upd) simp_all
  then have "chain ?st (?p # bs @ [h])"
    using c(2) unfolding n' unfolding rs by (simp only: chain.simps simp_thms)
  then have "chain ?st (h # as @ (bs @ [h]))"
    using c(1) chain_last [of ?st h as "bs @ [h]"] by blast
  then show ?thesis using dist by (simp add: is_qlist_def)
qed

lemma walk_chain:
  assumes "chain st (xs @ [h])" and "h \<notin> set xs"
  shows "qlist_for_each (length xs) (hd (xs @ [h])) h st = Some xs"
  using assms
proof (induction xs)
  case (Cons x xs)
  have "nxt (st x) = hd (xs @ [h])" "chain st (xs @ [h])"
    using Cons.prems(1) by (cases xs; simp)+
  with Cons show ?case by simp
qed simp

lemma is_qlist_for_each:
  assumes "is_qlist h st xs"
  shows "qlist_for_each (length xs) (qlist_head h st) h st = Some xs"
proof -
  have "chain st (xs @ [h])" "nxt (st h) = hd (xs @ [h])"
    using assms ring_ends(2) by (auto simp: is_qlist_def) (cases xs; simp)
  with walk_chain [of st xs h] assms show ?thesis
    by (simp add: qlist_head_def is_qlist_def)
qed

lemma is_qlist_empty: "is_qlist h st xs \<Longrightarrow> qlist_empty h st \<longleftrightarrow> xs = []"
  by (cases xs) (auto simp: is_qlist_def qlist_empty_def)

lemma is_qlist_headtail:
  assumes "is_qlist h st xs" and "xs \<noteq> []"
  shows "qlist_head h st = hd xs" and "qlist_tail h st = last xs"
  using assms ring_ends [of st h xs] by (auto simp: is_qlist_def qlist_head_def qlist_tail_def)

section \<open>The interface\<close>

text \<open>
  What the proxies use of a list: \<open>rep s xs\<close> says that the store \<open>s\<close> represents the list
  \<open>xs\<close> of items; items are added at the tail and removed at any place.
\<close>

locale list_store =
  fixes rep :: "'s \<Rightarrow> 'i list \<Rightarrow> bool"
    and fresh :: "'i \<Rightarrow> bool"
    and init :: "'s \<Rightarrow> 's"
    and add_tail :: "'i \<Rightarrow> 's \<Rightarrow> 's"
    and remove :: "'i \<Rightarrow> 's \<Rightarrow> 's"
    and is_empty :: "'s \<Rightarrow> bool"
    and head :: "'s \<Rightarrow> 'i"
  assumes rep_init: "rep (init s) []"
    and rep_add: "rep s xs \<Longrightarrow> fresh i \<Longrightarrow> i \<notin> set xs \<Longrightarrow> rep (add_tail i s) (xs @ [i])"
    and rep_remove: "rep s (as @ i # bs) \<Longrightarrow> rep (remove i s) (as @ bs)"
    and rep_empty: "rep s xs \<Longrightarrow> is_empty s \<longleftrightarrow> xs = []"
    and rep_head: "rep s xs \<Longrightarrow> xs \<noteq> [] \<Longrightarrow> head s = hd xs"
begin

lemma rep_add_all:
  "rep s xs \<Longrightarrow> \<forall>i \<in> set is. fresh i \<Longrightarrow> distinct is \<Longrightarrow> set is \<inter> set xs = {} \<Longrightarrow>
   rep (fold add_tail is s) (xs @ is)"
proof (induction "is" arbitrary: s xs)
  case (Cons i "is")
  have "rep (add_tail i s) (xs @ [i])" using Cons.prems by (auto intro: rep_add)
  from Cons.IH [OF this] Cons.prems show ?case by auto
qed simp

text \<open>Taking the head until the list is empty gives the items in the order they were added.\<close>

lemma fifo:
  "rep s (x # xs) \<Longrightarrow> \<not> is_empty s \<and> head s = x \<and> rep (remove (head s) s) xs"
  using rep_empty [of s "x # xs"] rep_head [of s "x # xs"] rep_remove [of s "[]" x xs] by simp

end

interpretation qlist: list_store "is_qlist h" "\<lambda>i. i \<noteq> h" "qlist_init h" "qlist_add_tail h" "qlist_remove"
    "qlist_empty h" "qlist_head h" for h
  by unfold_locales
    (auto simp: is_qlist_init is_qlist_add_tail is_qlist_remove is_qlist_empty is_qlist_headtail(1))

section \<open>Properties\<close>

text \<open>
  The intrusive list is a correct first-in first-out queue: starting from \<open>qlist_init\<close>,
  adding distinct nodes (different from the list head) with \<open>qlist_add_tail\<close> and then removing
  any one of them with \<open>qlist_remove\<close>, a \<open>qlist_for_each\<close> walk terminates and visits exactly
  the remaining nodes in the order of insertion, whatever the links of the nodes and of the rest
  of the store were before.
\<close>

theorem qlist_fifo:
  assumes "distinct (h # as @ i # bs)"
  shows "let st1 = qlist_remove i (fold (qlist_add_tail h) (as @ i # bs) (qlist_init h st))
     in qlist_for_each (length (as @ bs)) (qlist_head h st1) h st1 = Some (as @ bs)
        \<and> (qlist_empty h st1 \<longleftrightarrow> as @ bs = [])"
proof -
  let ?st0 = "fold (qlist_add_tail h) (as @ i # bs) (qlist_init h st)"
  have "is_qlist h ?st0 ([] @ (as @ i # bs))"
    by (rule qlist.rep_add_all [OF qlist.rep_init]) (use assms in auto)
  then have "is_qlist h ?st0 (as @ i # bs)" by simp
  from qlist.rep_remove [OF this] show ?thesis
    unfolding Let_def using is_qlist_for_each is_qlist_empty by blast
qed

theorem qlist_fifo_witness:
  "let st1 = qlist_remove 2 (fold (qlist_add_tail 9) ([1] @ 2 # [3]) (qlist_init 9 (\<lambda>_. \<lparr>nxt = 0, prv = 0\<rparr>)))
   in qlist_for_each (length ([1] @ [3::nat])) (qlist_head 9 st1) 9 st1 = Some ([1] @ [3])
      \<and> (qlist_empty 9 st1 \<longleftrightarrow> [1] @ [3::nat] = [])"
  by (rule qlist_fifo) simp

end
