(* ===== verification/QmiProxy.thy ===== *)
theory QmiProxy
  imports QList
begin

text \<open>
  The QMI proxy daemon, \<^verbatim>\<open>quectel_cm_5G/src/quectel-qmi-proxy.c\<close>: it shares one
  \<open>/dev/cdc-wdm\<close> device between local clients. Service messages are routed by the client
  ids the modem hands out; control (CTL) messages have no client id, so they are sent to the
  modem one at a time from a queue and a response goes to the client at the queue's head.

  Messages are byte lists in the layout of \<open>QCQMI_HDR\<close> and \<open>QCQMICTL_MSG_HDR\<close>. The lists
  \<open>qmi_proxy_connection\<close>, \<open>client_qnode\<close> and \<open>qmi_proxy_ctl_msg\<close> are HOL lists, as theory
  \<open>QList\<close> justifies. \<open>ready fd\<close> says whether \<open>poll\<close> reports \<open>fd\<close> writable; a write to
  a writable descriptor transfers the whole message. What the proxy sends or closes is
  appended to \<open>pout\<close>.
\<close>

section \<open>Messages\<close>

abbreviation QMUX_TYPE_CTL :: byte where "QMUX_TYPE_CTL \<equiv> 0x00"
abbreviation QMICTL_CTL_FLAG_RSP :: byte where "QMICTL_CTL_FLAG_RSP \<equiv> 0x01"
abbreviation QMICTL_GET_CLIENT_ID_RESP :: u16 where "QMICTL_GET_CLIENT_ID_RESP \<equiv> 0x0022"
abbreviation QMICTL_RELEASE_CLIENT_ID_RESP :: u16 where "QMICTL_RELEASE_CLIENT_ID_RESP \<equiv> 0x0023"
abbreviation QMICTL_REVOKE_CLIENT_ID_IND :: u16 where "QMICTL_REVOKE_CLIENT_ID_IND \<equiv> 0x0024"
abbreviation QMICTL_SYNC_REQ :: u16 where "QMICTL_SYNC_REQ \<equiv> 0x0027"

definition hdr_Length :: "byte list \<Rightarrow> nat" where "hdr_Length q = unat (fld16 q 1)"
definition hdr_QMIType :: "byte list \<Rightarrow> byte" where "hdr_QMIType q = fld8 q 4"
definition hdr_ClientId :: "byte list \<Rightarrow> byte" where "hdr_ClientId q = fld8 q 5"
definition ctl_CtlFlags :: "byte list \<Rightarrow> byte" where "ctl_CtlFlags q = fld8 q 6"
definition ctl_QMICTLType :: "byte list \<Rightarrow> u16" where "ctl_QMICTLType q = fld16 q 8"
definition rsp_QMIResult :: "byte list \<Rightarrow> u16" where "rsp_QMIResult q = fld16 q 15"
definition rsp_QMIError :: "byte list \<Rightarrow> u16" where "rsp_QMIError q = fld16 q 17"
definition rsp_QMIType :: "byte list \<Rightarrow> byte" where "rsp_QMIType q = fld8 q 22"
definition rsp_ClientId :: "byte list \<Rightarrow> byte" where "rsp_ClientId q = fld8 q 23"

section \<open>State\<close>

record QMI_PROXY_CLINET =
  c_QMIType :: byte
  c_ClientId :: byte

record QMI_PROXY_CONNECTION =
  ClientFd :: int
  clients :: "QMI_PROXY_CLINET list"

record QMI_PROXY_MSG =
  m_ClientFd :: int
  m_qmi :: "byte list"

datatype px_event = ToDev "byte list" | ToClient int "byte list" | CloseFd int

record proxy =
  cdc_wdm_fd :: int
  qmi_proxy_server_fd :: int
  qmi_proxy_connection :: "QMI_PROXY_CONNECTION list"
  qmi_proxy_ctl_msg :: "QMI_PROXY_MSG list"
  modem_reset_flag :: bool
  qmi_sync_done :: bool
  qmi_buf :: "byte list"
  ready :: "int \<Rightarrow> bool"
  pout :: "px_event list"

definition px_emit :: "px_event \<Rightarrow> proxy \<Rightarrow> proxy" where
  "px_emit e p = p\<lparr>pout := pout p @ [e]\<rparr>"

section \<open>Sending\<close>

text \<open>Both return the result of the last system call.\<close>

definition send_qmi_to_cdc_wdm :: "byte list \<Rightarrow> proxy \<Rightarrow> int \<times> proxy" where
  "send_qmi_to_cdc_wdm q p =
     (if ready p (cdc_wdm_fd p)
      then (int (hdr_Length q + 1), px_emit (ToDev (take (hdr_Length q + 1) q)) p)
      else (0, p))"

definition send_qmi_to_client :: "byte list \<Rightarrow> int \<Rightarrow> proxy \<Rightarrow> int \<times> proxy" where
  "send_qmi_to_client q fd p =
     (if ready p fd
      then (int (hdr_Length q + 1), px_emit (ToClient fd (take (hdr_Length q + 1) q)) p)
      else (0, p))"

section \<open>Connections\<close>

definition accept_qmi_connection :: "int \<Rightarrow> proxy \<Rightarrow> proxy" where
  "accept_qmi_connection clientfd p =
     p\<lparr>qmi_proxy_connection := qmi_proxy_connection p @ [\<lparr>ClientFd = clientfd, clients = []\<rparr>]\<rparr>"

text \<open>Removing the first element that satisfies a condition (a \<open>for_each\<close> that breaks).\<close>

fun remove_first :: "('a \<Rightarrow> bool) \<Rightarrow> 'a list \<Rightarrow> 'a list" where
  "remove_first P [] = []"
| "remove_first P (x # xs) = (if P x then xs else x # remove_first P xs)"

definition cleanup_qmi_connection :: "int \<Rightarrow> proxy \<Rightarrow> proxy" where
  "cleanup_qmi_connection clientfd p =
     (if list_ex (\<lambda>c. ClientFd c = clientfd) (qmi_proxy_connection p)
      then px_emit (CloseFd clientfd)
        (p\<lparr>qmi_proxy_ctl_msg := remove_first (\<lambda>m. m_ClientFd m = clientfd) (qmi_proxy_ctl_msg p),
           qmi_proxy_connection :=
             remove_first (\<lambda>c. ClientFd c = clientfd) (qmi_proxy_connection p)\<rparr>)
      else p)"

definition get_client_id :: "byte list \<Rightarrow> QMI_PROXY_CONNECTION \<Rightarrow> QMI_PROXY_CONNECTION" where
  "get_client_id q con =
     (if rsp_QMIResult q = 0 \<and> rsp_QMIError q = 0
      then con\<lparr>clients := clients con @ [\<lparr>c_QMIType = rsp_QMIType q, c_ClientId = rsp_ClientId q\<rparr>]\<rparr>
      else con)"

definition release_client_id :: "byte list \<Rightarrow> QMI_PROXY_CONNECTION \<Rightarrow> QMI_PROXY_CONNECTION" where
  "release_client_id q con =
     (if rsp_QMIResult q = 0 \<and> rsp_QMIError q = 0
      then con\<lparr>clients := remove_first
                 (\<lambda>c. rsp_QMIType q = c_QMIType c \<and> rsp_ClientId q = c_ClientId c) (clients con)\<rparr>
      else con)"

section \<open>Messages from the device\<close>

text \<open>
  What a CTL response does to the connection it is delivered to, and whether it announces a
  modem reset.
\<close>

definition ctl_rsp_update :: "byte list \<Rightarrow> QMI_PROXY_CONNECTION \<Rightarrow> QMI_PROXY_CONNECTION" where
  "ctl_rsp_update q con =
     (if ctl_QMICTLType q = QMICTL_GET_CLIENT_ID_RESP then get_client_id q con
      else if ctl_QMICTLType q = QMICTL_RELEASE_CLIENT_ID_RESP
           \<or> ctl_QMICTLType q = QMICTL_REVOKE_CLIENT_ID_IND then release_client_id q con
      else con)"

text \<open>The \<open>for_each\<close> over the connections for a CTL response; \<open>fd\<close> is the head's client.\<close>

fun ctl_rsp_loop :: "byte list \<Rightarrow> int \<Rightarrow> QMI_PROXY_CONNECTION list \<Rightarrow> proxy
    \<Rightarrow> QMI_PROXY_CONNECTION list \<times> proxy" where
  "ctl_rsp_loop q fd [] p = ([], p)"
| "ctl_rsp_loop q fd (con # cons) p =
     (if ClientFd con = fd then
        (let p1 = snd (send_qmi_to_client q fd p);
             p2 = (if ctl_QMICTLType q = QMICTL_REVOKE_CLIENT_ID_IND
                   then p1\<lparr>modem_reset_flag := True\<rparr> else p1);
             (cons', p3) = ctl_rsp_loop q fd cons p2
         in (ctl_rsp_update q con # cons', p3))
      else
        (let (cons', p1) = ctl_rsp_loop q fd cons p in (con # cons', p1)))"

text \<open>The \<open>for_each\<close> that sends the next queued CTL message.\<close>

fun ctl_next_loop :: "QMI_PROXY_MSG \<Rightarrow> QMI_PROXY_CONNECTION list \<Rightarrow> proxy \<Rightarrow> proxy" where
  "ctl_next_loop m [] p = p"
| "ctl_next_loop m (con # cons) p =
     ctl_next_loop m cons
       (if ClientFd con = m_ClientFd m then snd (send_qmi_to_cdc_wdm (m_qmi m) p) else p)"

text \<open>The two nested loops for a service message.\<close>

fun svc_clients_loop :: "byte list \<Rightarrow> int \<Rightarrow> QMI_PROXY_CLINET list \<Rightarrow> proxy \<Rightarrow> proxy" where
  "svc_clients_loop q fd [] p = p"
| "svc_clients_loop q fd (c # cs) p =
     svc_clients_loop q fd cs
       (if hdr_QMIType q = c_QMIType c \<and> (hdr_ClientId q = 0 \<or> hdr_ClientId q = c_ClientId c)
        then snd (send_qmi_to_client q fd p) else p)"

fun svc_loop :: "byte list \<Rightarrow> QMI_PROXY_CONNECTION list \<Rightarrow> proxy \<Rightarrow> proxy" where
  "svc_loop q [] p = p"
| "svc_loop q (con # cons) p = svc_loop q cons (svc_clients_loop q (ClientFd con) (clients con) p)"

definition ctl_rsp :: "byte list \<Rightarrow> proxy \<Rightarrow> proxy" where
  "ctl_rsp q p =
     (case qmi_proxy_ctl_msg p of
        [] \<Rightarrow> p
      | m # ms \<Rightarrow>
          (let (cons, p1) = ctl_rsp_loop q (m_ClientFd m) (qmi_proxy_connection p) p
           in p1\<lparr>qmi_proxy_connection := cons, qmi_proxy_ctl_msg := ms\<rparr>))"

definition ctl_send_next :: "proxy \<Rightarrow> proxy" where
  "ctl_send_next p =
     (case qmi_proxy_ctl_msg p of
        [] \<Rightarrow> p
      | m # _ \<Rightarrow> ctl_next_loop m (qmi_proxy_connection p) p)"

definition recv_qmi_from_dev :: "byte list \<Rightarrow> proxy \<Rightarrow> proxy" where
  "recv_qmi_from_dev q p =
     (if qmi_proxy_server_fd p = -1 then p\<lparr>qmi_sync_done := True\<rparr>
      else if hdr_QMIType q = QMUX_TYPE_CTL then
        ctl_send_next (if ctl_CtlFlags q = QMICTL_CTL_FLAG_RSP then ctl_rsp q p else p)
      else svc_loop q (qmi_proxy_connection p) p)"

section \<open>Messages from a client\<close>

definition recv_qmi_from_client :: "byte list \<Rightarrow> nat \<Rightarrow> int \<Rightarrow> proxy \<Rightarrow> proxy" where
  "recv_qmi_from_client q sz clientfd p =
     (if qmi_proxy_server_fd p \<le> 0 then snd (send_qmi_to_cdc_wdm q p)
      else if hdr_QMIType q = QMUX_TYPE_CTL then
        (if ctl_QMICTLType q = QMICTL_SYNC_REQ then p
         else
           (let p1 = (if qmi_proxy_ctl_msg p = [] then snd (send_qmi_to_cdc_wdm q p) else p)
            in p1\<lparr>qmi_proxy_ctl_msg := qmi_proxy_ctl_msg p1
                    @ [\<lparr>m_ClientFd = clientfd, m_qmi = take sz q\<rparr>]\<rparr>))
      else snd (send_qmi_to_cdc_wdm q p))"

section \<open>Start up and the poll loop\<close>

definition sync_req :: "nat \<Rightarrow> byte list" where
  "sync_req i = [0x01] @ le16_bytes 11 @ [0x00, 0x00, 0x00, 0x00, word_of_nat (i + 1)]
     @ le16_bytes QMICTL_SYNC_REQ @ le16_bytes 0"

text \<open>
  \<open>qmi_proxy_init\<close>; \<open>dones\<close> tells for each round whether the loop thread has seen the
  answer (\<open>qmi_sync_done\<close>) after the second of sleep.
\<close>

fun sync_loop :: "nat \<Rightarrow> nat \<Rightarrow> bool list \<Rightarrow> proxy \<Rightarrow> proxy" where
  "sync_loop 0 i dones p = p"
| "sync_loop (Suc n) i dones p =
     (case send_qmi_to_cdc_wdm (sync_req i) p of (ret, p1) \<Rightarrow>
        if ret \<le> 0 then p1
        else if dones \<noteq> [] \<and> hd dones then p1\<lparr>qmi_sync_done := True\<rparr>
        else sync_loop n (Suc i) (tl dones) p1)"

definition qmi_proxy_init :: "bool list \<Rightarrow> proxy \<Rightarrow> int \<times> proxy" where
  "qmi_proxy_init dones p =
     (let p1 = sync_loop 10 0 dones (p\<lparr>qmi_sync_done := False\<rparr>)
      in (if qmi_sync_done p1 then 0 else -1, p1))"

text \<open>
  One entry of the \<open>pollfds\<close> array after \<open>poll\<close>: the descriptor, whether an error bit or
  \<open>POLLIN\<close> is set, what \<open>accept\<close> or \<open>read\<close> gives (an empty list for a result
  \<open>\<le> 0\<close>).
\<close>

record pollev =
  ev_fd :: int
  ev_err :: bool
  ev_in :: bool
  ev_newfd :: int
  ev_data :: "byte list"

datatype ctrl = Next | LeaveFor | Exit

definition handle_pollev :: "pollev \<Rightarrow> proxy \<Rightarrow> ctrl \<times> proxy" where
  "handle_pollev e p =
     (let fd = ev_fd e in
      if ev_err e then
        (if fd = cdc_wdm_fd p then (Exit, p)
         else if fd = qmi_proxy_server_fd p then (Next, p)
         else (Next, cleanup_qmi_connection fd p))
      else if \<not> ev_in e then (Next, p)
      else if fd = qmi_proxy_server_fd p then (Next, accept_qmi_connection (ev_newfd e) p)
      else
        (let q = take 4096 (ev_data e);
             p1 = p\<lparr>qmi_buf := q @ drop (length q) (qmi_buf p)\<rparr>
         in if fd = cdc_wdm_fd p then
              (if q = [] then (Exit, p)
               else if length q \<noteq> hdr_Length (qmi_buf p1) + 1 then (Next, p1)
               else
                 (let p2 = recv_qmi_from_dev (qmi_buf p1) p1
                  in (if modem_reset_flag p2 then Exit else Next, p2)))
            else
              (if q = [] then (LeaveFor, cleanup_qmi_connection fd p)
               else if length q \<noteq> hdr_Length (qmi_buf p1) + 1 then (Next, p1)
               else (Next, recv_qmi_from_client (qmi_buf p1) (length q) fd p1))))"

fun poll_round :: "pollev list \<Rightarrow> proxy \<Rightarrow> bool \<times> proxy" where
  "poll_round [] p = (True, p)"
| "poll_round (e # es) p =
     (case handle_pollev e p of
        (Next, p1) \<Rightarrow> poll_round es p1
      | (LeaveFor, p1) \<Rightarrow> (True, p1)
      | (Exit, p1) \<Rightarrow> (False, p1))"

text \<open>The exit path closes every connection.\<close>

function proxy_exit :: "proxy \<Rightarrow> proxy" where
  "proxy_exit p =
     (case qmi_proxy_connection p of
        [] \<Rightarrow> p
      | con # _ \<Rightarrow> proxy_exit (cleanup_qmi_connection (ClientFd con) p))"
  by pat_completeness auto
termination
  by (relation "measure (\<lambda>p. length (qmi_proxy_connection p))")
    (auto simp: cleanup_qmi_connection_def px_emit_def)

declare proxy_exit.simps [simp del]

text \<open>
  \<open>qmi_proxy_loop\<close> on the results of successive \<open>poll\<close> calls; it is left, after the
  last of them, because \<open>qmi_proxy_quit\<close> is set.
\<close>

fun proxy_rounds :: "pollev list list \<Rightarrow> proxy \<Rightarrow> proxy" where
  "proxy_rounds [] p = proxy_exit p"
| "proxy_rounds (es # ess) p =
     (case poll_round es p of
        (True, p1) \<Rightarrow> proxy_rounds ess p1
      | (False, p1) \<Rightarrow> proxy_exit p1)"

definition qmi_proxy_loop :: "pollev list list \<Rightarrow> proxy \<Rightarrow> proxy" where
  "qmi_proxy_loop ess p =
     proxy_rounds ess (p\<lparr>qmi_proxy_connection := [], qmi_proxy_ctl_msg := []\<rparr>)"


section \<open>Lemmas\<close>

lemma px_emit_fields [simp]:
  "cdc_wdm_fd (px_emit e p) = cdc_wdm_fd p"
  "qmi_proxy_server_fd (px_emit e p) = qmi_proxy_server_fd p"
  "qmi_proxy_connection (px_emit e p) = qmi_proxy_connection p"
  "qmi_proxy_ctl_msg (px_emit e p) = qmi_proxy_ctl_msg p"
  "modem_reset_flag (px_emit e p) = modem_reset_flag p"
  "ready (px_emit e p) = ready p" "pout (px_emit e p) = pout p @ [e]"
  by (simp_all add: px_emit_def)

lemma ctl_rsp_update_fd [simp]: "ClientFd (ctl_rsp_update q con) = ClientFd con"
  by (simp add: ctl_rsp_update_def get_client_id_def release_client_id_def)

lemma remove_first_keeps:
  "x \<in> f ` set xs \<Longrightarrow> x \<noteq> a \<Longrightarrow> x \<in> f ` set (remove_first (\<lambda>c. f c = a) xs)"
  by (induction xs) auto

lemma remove_first_subset: "set (remove_first P xs) \<subseteq> set xs"
  by (induction xs) auto

lemma remove_first_distinct: "distinct (map f xs) \<Longrightarrow> distinct (map f (remove_first P xs))"
  using remove_first_subset by (induction xs) fastforce+

definition con_fds :: "proxy \<Rightarrow> int list" where
  "con_fds p = map ClientFd (qmi_proxy_connection p)"

lemma ctl_rsp_loop_absent:
  "fd \<notin> set (map ClientFd cons) \<Longrightarrow> ctl_rsp_loop q fd cons p = (cons, p)"
  by (induction cons arbitrary: p) auto

lemma ctl_rsp_loop_present:
  assumes "fd \<in> set (map ClientFd cons)" and "distinct (map ClientFd cons)" and "ready p fd"
  shows "ctl_rsp_loop q fd cons p =
     (map (\<lambda>con. if ClientFd con = fd then ctl_rsp_update q con else con) cons,
      p\<lparr>pout := pout p @ [ToClient fd (take (hdr_Length q + 1) q)],
        modem_reset_flag := modem_reset_flag p \<or> ctl_QMICTLType q = QMICTL_REVOKE_CLIENT_ID_IND\<rparr>)"
  using assms
proof (induction cons)
  case (Cons con cons)
  show ?case
  proof (cases "ClientFd con = fd")
    case True
    then have abs: "fd \<notin> set (map ClientFd cons)" using Cons.prems(2) by auto
    have "map (\<lambda>con. if ClientFd con = fd then ctl_rsp_update q con else con) cons = cons"
      using abs by (intro map_idI) auto
    with True Cons.prems(3) show ?thesis
      by (cases p) (simp add: ctl_rsp_loop_absent [OF abs] send_qmi_to_client_def px_emit_def Let_def)
  next
    case False
    with Cons show ?thesis by simp
  qed
qed simp

lemma ctl_next_loop_absent:
  "m_ClientFd m \<notin> set (map ClientFd cons) \<Longrightarrow> ctl_next_loop m cons p = p"
  by (induction cons arbitrary: p) auto

lemma ctl_next_loop_present:
  assumes "m_ClientFd m \<in> set (map ClientFd cons)" and "distinct (map ClientFd cons)"
    and "ready p (cdc_wdm_fd p)"
  shows "ctl_next_loop m cons p = px_emit (ToDev (take (hdr_Length (m_qmi m) + 1) (m_qmi m))) p"
  using assms
proof (induction cons arbitrary: p)
  case (Cons con cons)
  then show ?case
    by (cases "ClientFd con = m_ClientFd m")
      (auto simp: ctl_next_loop_absent send_qmi_to_cdc_wdm_def)
qed simp

subsection \<open>CTL traffic between connected clients and the modem\<close>

datatype ctl_op = Req int "byte list" | Rsp "byte list"

fun ctl_step :: "ctl_op \<Rightarrow> proxy \<Rightarrow> proxy" where
  "ctl_step (Req fd q) p = recv_qmi_from_client q (length q) fd p"
| "ctl_step (Rsp q) p = recv_qmi_from_dev q p"

definition reqs :: "ctl_op list \<Rightarrow> (int \<times> byte list) list" where
  "reqs ops = concat (map (\<lambda>x. case x of Req fd q \<Rightarrow> [(fd, q)] | Rsp q \<Rightarrow> []) ops)"

definition rsps :: "ctl_op list \<Rightarrow> byte list list" where
  "rsps ops = concat (map (\<lambda>x. case x of Req fd q \<Rightarrow> [] | Rsp q \<Rightarrow> [q]) ops)"

definition to_dev :: "proxy \<Rightarrow> byte list list" where
  "to_dev p = concat (map (\<lambda>e. case e of ToDev q \<Rightarrow> [q] | _ \<Rightarrow> []) (pout p))"

definition to_clients :: "proxy \<Rightarrow> (int \<times> byte list) list" where
  "to_clients p = concat (map (\<lambda>e. case e of ToClient fd q \<Rightarrow> [(fd, q)] | _ \<Rightarrow> []) (pout p))"

definition ctl_req_ok :: "byte list \<Rightarrow> bool" where
  "ctl_req_ok q \<longleftrightarrow> hdr_QMIType q = QMUX_TYPE_CTL \<and> ctl_QMICTLType q \<noteq> QMICTL_SYNC_REQ
     \<and> length q = hdr_Length q + 1"

definition ctl_rsp_ok :: "byte list \<Rightarrow> bool" where
  "ctl_rsp_ok q \<longleftrightarrow> hdr_QMIType q = QMUX_TYPE_CTL \<and> ctl_CtlFlags q = QMICTL_CTL_FLAG_RSP
     \<and> length q = hdr_Length q + 1"

text \<open>The modem answers only requests: \<open>n\<close> requests are waiting for an answer.\<close>

fun ctl_ops_ok :: "int list \<Rightarrow> nat \<Rightarrow> ctl_op list \<Rightarrow> bool" where
  "ctl_ops_ok fds n [] \<longleftrightarrow> True"
| "ctl_ops_ok fds n (Req fd q # ops) \<longleftrightarrow> fd \<in> set fds \<and> ctl_req_ok q \<and> ctl_ops_ok fds (Suc n) ops"
| "ctl_ops_ok fds n (Rsp q # ops) \<longleftrightarrow> 0 < n \<and> ctl_rsp_ok q \<and> ctl_ops_ok fds (n - 1) ops"

text \<open>
  The state after the requests \<open>R\<close> and the responses \<open>S\<close>: the queue holds the requests
  without a response; the modem has got every answered request and the next one; every
  response went to the sender of the request with the same number.
\<close>

definition fifo_inv :: "int list \<Rightarrow> (int \<times> byte list) list \<Rightarrow> byte list list \<Rightarrow> proxy \<Rightarrow> bool" where
  "fifo_inv fds R S p \<longleftrightarrow>
     qmi_proxy_server_fd p > 0 \<and> (\<forall>fd. ready p fd) \<and> con_fds p = fds \<and> distinct fds
     \<and> fst ` set R \<subseteq> set fds \<and> (\<forall>(fd, q) \<in> set R. length q = hdr_Length q + 1)
     \<and> length S \<le> length R
     \<and> qmi_proxy_ctl_msg p = map (\<lambda>(fd, q). \<lparr>m_ClientFd = fd, m_qmi = q\<rparr>) (drop (length S) R)
     \<and> to_dev p = take (length S + 1) (map snd R)
     \<and> to_clients p = zip (map fst R) S"

lemma fifo_inv_req [inv_intros]:
  assumes "fifo_inv fds R S p" and "fd \<in> set fds" and "ctl_req_ok q"
  shows "fifo_inv fds (R @ [(fd, q)]) S (ctl_step (Req fd q) p)"
proof -
  note inv = assms(1) [unfolded fifo_inv_def]
  have q: "take (hdr_Length q + 1) q = q" using assms(3) by (simp add: ctl_req_ok_def)
  show ?thesis
  proof (cases "length S = length R")
    case True
    then have "qmi_proxy_ctl_msg p = []" "to_dev p = map snd R" using inv by simp_all
    with True inv assms(2,3) q show ?thesis
      by (auto simp: fifo_inv_def recv_qmi_from_client_def ctl_req_ok_def send_qmi_to_cdc_wdm_def
          Let_def to_dev_def to_clients_def con_fds_def px_emit_def zip_append1)
  next
    case False
    then have "length S < length R" using inv by simp
    with inv assms(2,3) show ?thesis
      by (auto simp: fifo_inv_def recv_qmi_from_client_def ctl_req_ok_def
          Let_def to_dev_def to_clients_def con_fds_def zip_append1)
  qed
qed

lemma ctl_rsp_present:
  assumes "qmi_proxy_ctl_msg p = m # ms" and "m_ClientFd m \<in> set (con_fds p)" and "distinct (con_fds p)"
    and "\<forall>fd. ready p fd" and "length q = hdr_Length q + 1"
  shows "\<exists>p'. ctl_rsp q p = p' \<and> qmi_proxy_ctl_msg p' = ms \<and> con_fds p' = con_fds p
     \<and> pout p' = pout p @ [ToClient (m_ClientFd m) q] \<and> ready p' = ready p
     \<and> qmi_proxy_server_fd p' = qmi_proxy_server_fd p \<and> cdc_wdm_fd p' = cdc_wdm_fd p"
  using assms
  by (auto simp: ctl_rsp_def ctl_rsp_loop_present con_fds_def Let_def)

lemma ctl_send_next_present:
  assumes "qmi_proxy_ctl_msg p = m # ms" and "m_ClientFd m \<in> set (con_fds p)" and "distinct (con_fds p)"
    and "\<forall>fd. ready p fd" and "length (m_qmi m) = hdr_Length (m_qmi m) + 1"
  shows "ctl_send_next p = px_emit (ToDev (m_qmi m)) p"
  using assms ctl_next_loop_present [of m "qmi_proxy_connection p" p]
  by (simp add: ctl_send_next_def con_fds_def)

lemma fifo_inv_rsp [inv_intros]:
  assumes inv: "fifo_inv fds R S p" and "ctl_rsp_ok q" and "length S < length R"
  shows "fifo_inv fds R (S @ [q]) (ctl_step (Rsp q) p)"
proof -
  note inv = inv [unfolded fifo_inv_def]
  obtain fd0 q0 where m: "R ! length S = (fd0, q0)" by (cases "R ! length S")
  have fd0: "fd0 \<in> set fds" using inv m nth_mem [OF assms(3)] by force
  let ?ms = "map (\<lambda>(fd, q). \<lparr>m_ClientFd = fd, m_qmi = q\<rparr>) (drop (Suc (length S)) R)"
  have "qmi_proxy_ctl_msg p = \<lparr>m_ClientFd = fd0, m_qmi = q0\<rparr> # ?ms"
    using inv m assms(3) by (simp flip: Cons_nth_drop_Suc)
  from ctl_rsp_present [OF this, of q] obtain p' where p': "ctl_rsp q p = p'"
    "qmi_proxy_ctl_msg p' = ?ms" "con_fds p' = fds" "pout p' = pout p @ [ToClient fd0 q]"
    "ready p' = ready p" "qmi_proxy_server_fd p' = qmi_proxy_server_fd p"
    using inv fd0 assms(2) by (auto simp: ctl_rsp_ok_def)
  have dev: "ctl_step (Rsp q) p = ctl_send_next p'"
    using inv assms(2) p'(1) by (simp add: recv_qmi_from_dev_def ctl_rsp_ok_def)
  have cl: "to_clients p @ [(fd0, q)] = zip (map fst R) (S @ [q])"
    using inv m assms(3) by (simp add: zip_append2 zip_take_length drop_map flip: Cons_nth_drop_Suc)
  show ?thesis
  proof (cases "Suc (length S) < length R")
    case False
    then have "?ms = []" "to_dev p = map snd R" using inv assms(3) by simp_all
    with p' inv dev cl assms(3) show ?thesis
      by (simp add: fifo_inv_def ctl_send_next_def to_dev_def to_clients_def)
  next
    case True
    obtain fd1 q1 where m1: "R ! Suc (length S) = (fd1, q1)" by (cases "R ! Suc (length S)")
    have fd1: "fd1 \<in> set fds" "length q1 = hdr_Length q1 + 1"
      using inv m1 nth_mem [OF True] by force+
    have "ctl_send_next p' = px_emit (ToDev q1) p'"
    proof (subst ctl_send_next_present)
      show "qmi_proxy_ctl_msg p' = \<lparr>m_ClientFd = fd1, m_qmi = q1\<rparr>
          # map (\<lambda>(fd, q). \<lparr>m_ClientFd = fd, m_qmi = q\<rparr>) (drop (Suc (Suc (length S))) R)"
        using p'(2) m1 True by (simp flip: Cons_nth_drop_Suc)
    qed (use p' inv fd1 in auto)
    moreover have "to_dev p @ [q1] = take (length S + 2) (map snd R)"
      using inv m1 True by (simp add: take_Suc_conv_app_nth)
    ultimately show ?thesis
      using p' inv dev cl True
      by (simp add: fifo_inv_def to_dev_def to_clients_def con_fds_def)
  qed
qed

lemma fifo_inv_run:
  assumes "fifo_inv fds R S p" and "ctl_ops_ok fds (length R - length S) ops"
  shows "fifo_inv fds (R @ reqs ops) (S @ rsps ops) (fold ctl_step ops p)"
  using assms
proof (induction fds "length R - length S" ops arbitrary: R S p rule: ctl_ops_ok.induct)
  case (1 fds)
  then show ?case by (simp add: reqs_def rsps_def)
next
  case (2 fds fd q ops)
  have le: "length S \<le> length R" using "2.prems"(1) by (simp add: fifo_inv_def)
  have "fifo_inv fds ((R @ [(fd, q)]) @ reqs ops) (S @ rsps ops) (fold ctl_step ops (ctl_step (Req fd q) p))"
    by (rule "2.hyps") (use "2.prems" le in \<open>auto intro: fifo_inv_req simp: Suc_diff_le simp del: ctl_step.simps\<close>)
  then show ?case by (simp add: reqs_def rsps_def)
next
  case (3 fds q ops)
  have lt: "length S < length R" using "3.prems"(2) by simp
  have "fifo_inv fds (R @ reqs ops) ((S @ [q]) @ rsps ops) (fold ctl_step ops (ctl_step (Rsp q) p))"
    by (rule "3.hyps") (use "3.prems" lt in \<open>auto intro: fifo_inv_rsp simp del: ctl_step.simps\<close>)
  then show ?case by (simp add: reqs_def rsps_def)
qed


subsection \<open>Service messages\<close>

definition svc_match :: "byte list \<Rightarrow> QMI_PROXY_CLINET \<Rightarrow> bool" where
  "svc_match q c \<longleftrightarrow>
     hdr_QMIType q = c_QMIType c \<and> (hdr_ClientId q = 0 \<or> hdr_ClientId q = c_ClientId c)"

lemma svc_clients_loop_eq:
  "\<forall>fd. ready p fd \<Longrightarrow> svc_clients_loop q fd cs p =
     p\<lparr>pout := pout p @ map (\<lambda>c. ToClient fd (take (hdr_Length q + 1) q)) (filter (svc_match q) cs)\<rparr>"
proof (induction cs arbitrary: p)
  case (Cons c cs)
  then show ?case
    by (auto simp: send_qmi_to_client_def px_emit_def svc_match_def)
qed simp

lemma svc_loop_eq:
  "\<forall>fd. ready p fd \<Longrightarrow> svc_loop q cons p =
     p\<lparr>pout := pout p @ concat (map (\<lambda>con. map (\<lambda>c. ToClient (ClientFd con) (take (hdr_Length q + 1) q))
                                          (filter (svc_match q) (clients con))) cons)\<rparr>"
  by (induction cons arbitrary: p) (simp_all add: svc_clients_loop_eq)

section \<open>Properties\<close>

text \<open>
  C11. The proxy serialises the CTL traffic of its clients. For every interleaving of well-formed
  CTL requests of connected clients and CTL responses of the modem in which the modem answers
  requests only: the modem receives the requests in the order the clients sent them, and never more
  than one that it has not answered (the answered ones and the next); the \<open>n\<close>-th response goes to
  the client that sent the \<open>n\<close>-th request, and to no other; and the queue holds exactly the
  requests without a response.
\<close>

theorem ctl_traffic_fifo:
  assumes "qmi_proxy_server_fd p > 0" and "\<forall>fd. ready p fd" and "distinct (con_fds p)"
    and "qmi_proxy_ctl_msg p = []" and "pout p = []" and "ctl_ops_ok (con_fds p) 0 ops"
  shows "let p' = fold ctl_step ops p in
     to_dev p' = take (length (rsps ops) + 1) (map snd (reqs ops))
     \<and> to_clients p' = zip (map fst (reqs ops)) (rsps ops)
     \<and> map m_qmi (qmi_proxy_ctl_msg p') = map snd (drop (length (rsps ops)) (reqs ops))
     \<and> length (rsps ops) \<le> length (reqs ops)"
proof -
  have "fifo_inv (con_fds p) [] [] p"
    using assms by (simp add: fifo_inv_def to_dev_def to_clients_def)
  from fifo_inv_run [OF this, of ops] assms(6)
  have "fifo_inv (con_fds p) (reqs ops) (rsps ops) (fold ctl_step ops p)" by simp
  then show ?thesis
    by (simp add: fifo_inv_def Let_def comp_def case_prod_beta)
qed

definition demo_proxy :: proxy where
  "demo_proxy = \<lparr>cdc_wdm_fd = 4, qmi_proxy_server_fd = 5,
     qmi_proxy_connection = [\<lparr>ClientFd = 7, clients = []\<rparr>, \<lparr>ClientFd = 8, clients = []\<rparr>],
     qmi_proxy_ctl_msg = [], modem_reset_flag = False, qmi_sync_done = True,
     qmi_buf = [], ready = (\<lambda>_. True), pout = []\<rparr>"

text \<open>A CTL message with flags \<open>f\<close>, transaction \<open>t\<close> and type \<open>ty\<close>, without TLVs.\<close>

definition ctl_msg :: "byte \<Rightarrow> byte \<Rightarrow> u16 \<Rightarrow> byte list" where
  "ctl_msg f t ty = [0x01] @ le16_bytes 11 @ [0x00, 0x00, 0x00, f, t] @ le16_bytes ty @ le16_bytes 0"

lemmas qmi_fields = hdr_Length_def hdr_QMIType_def hdr_ClientId_def ctl_CtlFlags_def ctl_QMICTLType_def
  rsp_QMIResult_def rsp_QMIError_def rsp_QMIType_def rsp_ClientId_def

lemma ctl_msg_fields [simp]:
  "length (ctl_msg f t ty) = 12" "hdr_Length (ctl_msg f t ty) = 11" "hdr_QMIType (ctl_msg f t ty) = 0"
  "ctl_CtlFlags (ctl_msg f t ty) = f" "ctl_QMICTLType (ctl_msg f t ty) = ty"
  by (simp_all add: ctl_msg_def qmi_fields fld16_def fld8_def le16_bytes_def le16_of_le16_bytes)
    (simp add: le16_of_def)

theorem ctl_traffic_fifo_witness:
  "let ops = [Req 7 (ctl_msg 0 1 0x22), Req 8 (ctl_msg 0 2 0x21), Rsp (ctl_msg 1 1 0x20)];
       p' = fold ctl_step ops demo_proxy
   in to_dev p' = [ctl_msg 0 1 0x22, ctl_msg 0 2 0x21] \<and> to_clients p' = [(7, ctl_msg 1 1 0x20)]"
proof -
  let ?ops = "[Req 7 (ctl_msg 0 1 0x22), Req 8 (ctl_msg 0 2 0x21), Rsp (ctl_msg 1 1 0x20)]"
  have "ctl_ops_ok (con_fds demo_proxy) 0 ?ops"
    by (simp add: con_fds_def demo_proxy_def ctl_req_ok_def ctl_rsp_ok_def)
  from ctl_traffic_fifo [OF _ _ _ _ _ this]
  show ?thesis
    by (simp add: demo_proxy_def con_fds_def reqs_def rsps_def Let_def)
qed

text \<open>
  Routing of service messages: a message of the modem that is not a CTL message is written, once
  for every registered client of its service type whose client id is the message's (or to every
  client of the service when the message's client id is 0, a broadcast), to that client's connection,
  in the order of the connections, and nothing else is sent; the tables do not change.
\<close>

theorem service_message_routing:
  assumes "qmi_proxy_server_fd p \<noteq> -1" and "hdr_QMIType q \<noteq> QMUX_TYPE_CTL" and "\<forall>fd. ready p fd"
  shows "recv_qmi_from_dev q p = p\<lparr>pout := pout p @
     [ToClient (ClientFd con) (take (hdr_Length q + 1) q).
        con \<leftarrow> qmi_proxy_connection p, c \<leftarrow> clients con, svc_match q c]\<rparr>"
proof -
  have "concat (map (\<lambda>c. if svc_match q c then [f] else []) cs) = map (\<lambda>_. f) (filter (svc_match q) cs)"
    for f :: px_event and cs by (induction cs) auto
  then show ?thesis
    using assms by (simp add: recv_qmi_from_dev_def svc_loop_eq)
qed

theorem service_message_routing_witness:
  "let con = (\<lambda>fd i. \<lparr>ClientFd = fd, clients = [\<lparr>c_QMIType = 1, c_ClientId = i\<rparr>]\<rparr>);
       q = [0x01, 0x05, 0x00, 0x80, 0x01, 0x02];
       p = demo_proxy\<lparr>qmi_proxy_connection := [con 7 1, con 8 2]\<rparr>
   in recv_qmi_from_dev q p = p\<lparr>pout := [ToClient 8 q]\<rparr>"
proof -
  have q: "hdr_QMIType [0x01, 0x05, 0x00, 0x80, 0x01, 0x02] = 1" "hdr_Length [0x01, 0x05, 0x00, 0x80, 0x01, 0x02] = 5"
    "hdr_ClientId [0x01, 0x05, 0x00, 0x80, 0x01, 0x02] = 2"
    by (simp_all add: qmi_fields fld16_def fld8_def le16_of_def)
  then show ?thesis
    unfolding Let_def
    by (subst service_message_routing) (simp_all add: demo_proxy_def svc_match_def)
qed

text \<open>
  A client that disconnects while its CTL request is at the modem: \<open>cleanup_qmi_connection\<close> drops
  the request from the queue's head without waiting for the answer. When the answer comes, it is
  delivered to the next client in the queue, whose own request is removed although it was never sent
  to the modem.
\<close>

theorem ctl_answer_misdelivered:
  assumes "qmi_proxy_server_fd p > 0" and "\<forall>fd. ready p fd" and "distinct (con_fds p)"
    and "qmi_proxy_ctl_msg p = [mA, mB]" and "m_ClientFd mA \<noteq> m_ClientFd mB"
    and "m_ClientFd mA \<in> set (con_fds p)" and "m_ClientFd mB \<in> set (con_fds p)" and "ctl_rsp_ok r"
  shows "let p' = recv_qmi_from_dev r (cleanup_qmi_connection (m_ClientFd mA) p) in
     to_clients p' = to_clients p @ [(m_ClientFd mB, r)]
     \<and> to_dev p' = to_dev p \<and> qmi_proxy_ctl_msg p' = []"
proof -
  let ?p1 = "cleanup_qmi_connection (m_ClientFd mA) p"
  have ex: "list_ex (\<lambda>c. ClientFd c = m_ClientFd mA) (qmi_proxy_connection p)"
    using assms(6) by (auto simp: list_ex_iff con_fds_def)
  have p1: "qmi_proxy_ctl_msg ?p1 = [mB]" "ready ?p1 = ready p" "qmi_proxy_server_fd ?p1 = qmi_proxy_server_fd p"
    "pout ?p1 = pout p @ [CloseFd (m_ClientFd mA)]" "m_ClientFd mB \<in> set (con_fds ?p1)" "distinct (con_fds ?p1)"
    using ex assms(3,4,5,7) remove_first_keeps [of "m_ClientFd mB" ClientFd "qmi_proxy_connection p" "m_ClientFd mA"]
    by (simp_all add: cleanup_qmi_connection_def con_fds_def remove_first_distinct)
  from ctl_rsp_present [OF p1(1,5,6), of r] obtain p2 where "ctl_rsp r ?p1 = p2" "qmi_proxy_ctl_msg p2 = []"
    "pout p2 = pout ?p1 @ [ToClient (m_ClientFd mB) r]"
    using p1(2) assms(2,8) by (auto simp: ctl_rsp_ok_def)
  with p1 assms(1,8) show ?thesis
    by (simp add: recv_qmi_from_dev_def ctl_rsp_ok_def Let_def ctl_send_next_def to_dev_def to_clients_def)
qed

theorem ctl_answer_misdelivered_witness:
  "let p = demo_proxy\<lparr>qmi_proxy_ctl_msg := [\<lparr>m_ClientFd = 7, m_qmi = ctl_msg 0 1 0x22\<rparr>,
                                            \<lparr>m_ClientFd = 8, m_qmi = ctl_msg 0 2 0x21\<rparr>]\<rparr>;
       p' = recv_qmi_from_dev (ctl_msg 1 1 0x22) (cleanup_qmi_connection 7 p)
   in to_clients p' = [(8, ctl_msg 1 1 0x22)] \<and> to_dev p' = [] \<and> qmi_proxy_ctl_msg p' = []"
  using ctl_answer_misdelivered [of "demo_proxy\<lparr>qmi_proxy_ctl_msg :=
      [\<lparr>m_ClientFd = 7, m_qmi = ctl_msg 0 1 0x22\<rparr>, \<lparr>m_ClientFd = 8, m_qmi = ctl_msg 0 2 0x21\<rparr>]\<rparr>"
      "\<lparr>m_ClientFd = 7, m_qmi = ctl_msg 0 1 0x22\<rparr>" "\<lparr>m_ClientFd = 8, m_qmi = ctl_msg 0 2 0x21\<rparr>" "ctl_msg 1 1 0x22"]
  by (simp add: demo_proxy_def con_fds_def ctl_rsp_ok_def to_dev_def to_clients_def Let_def)

text \<open>
  A client that disconnects with three CTL requests queued blocks the CTL service for good:
  \<open>cleanup_qmi_connection\<close> removes only one of them, the answer to the first removes the second, and
  the third stays at the head although its connection is gone, so it is never sent. From then on no CTL
  request of any other client reaches the modem: the modem has answered everything it got, and the
  proxy still waits.
\<close>

lemma ctl_queue_waits:
  assumes "\<forall>x \<in> set ops. case x of Req fd q \<Rightarrow> ctl_req_ok q | Rsp q \<Rightarrow> False"
    and "qmi_proxy_ctl_msg p \<noteq> []" and "qmi_proxy_server_fd p > 0"
  shows "to_dev (fold ctl_step ops p) = to_dev p"
  using assms
proof (induction ops arbitrary: p)
  case (Cons x ops)
  then obtain fd q where x: "x = Req fd q" "ctl_req_ok q" by (cases x) auto
  let ?p1 = "ctl_step x p"
  have "qmi_proxy_ctl_msg ?p1 \<noteq> []" "qmi_proxy_server_fd ?p1 > 0" "to_dev ?p1 = to_dev p"
    using x Cons.prems by (simp_all add: recv_qmi_from_client_def ctl_req_ok_def Let_def to_dev_def)
  then show ?case using Cons.IH [of ?p1] Cons.prems by simp
qed simp

theorem ctl_queue_stuck:
  assumes "\<forall>x \<in> set ops. case x of Req fd q \<Rightarrow> ctl_req_ok q | Rsp q \<Rightarrow> False"
  shows "let m = (\<lambda>t. ctl_msg 0 t 0x22);
             p1 = fold ctl_step [Req 7 (m 1), Req 7 (m 2), Req 7 (m 3)] demo_proxy;
             p2 = recv_qmi_from_dev (ctl_msg 1 1 0x22) (cleanup_qmi_connection 7 p1)
         in to_dev (fold ctl_step ops p2) = [m 1]"
proof -
  let ?m = "\<lambda>t. ctl_msg 0 t 0x22"
  let ?p1 = "fold ctl_step [Req 7 (?m 1), Req 7 (?m 2), Req 7 (?m 3)] demo_proxy"
  let ?p2 = "recv_qmi_from_dev (ctl_msg 1 1 0x22) (cleanup_qmi_connection 7 ?p1)"
  have p2: "qmi_proxy_ctl_msg ?p2 = [\<lparr>m_ClientFd = 7, m_qmi = ?m 3\<rparr>]" "qmi_proxy_server_fd ?p2 = 5"
    "to_dev ?p2 = [?m 1]"
    by (simp_all add: demo_proxy_def recv_qmi_from_client_def recv_qmi_from_dev_def cleanup_qmi_connection_def
        send_qmi_to_cdc_wdm_def ctl_rsp_def ctl_send_next_def px_emit_def to_dev_def Let_def)
  show ?thesis
    unfolding Let_def using ctl_queue_waits [OF assms, of ?p2] p2 by simp
qed

theorem ctl_queue_stuck_witness:
  "let m = (\<lambda>t. ctl_msg 0 t 0x22);
       p1 = fold ctl_step [Req 7 (m 1), Req 7 (m 2), Req 7 (m 3)] demo_proxy;
       p2 = recv_qmi_from_dev (ctl_msg 1 1 0x22) (cleanup_qmi_connection 7 p1)
   in to_dev (fold ctl_step [Req 8 (ctl_msg 0 9 0x21)] p2) = [m 1]"
  by (rule ctl_queue_stuck) (simp add: ctl_req_ok_def)

text \<open>
  The modem-reset announcement is not recognised: \<open>MPQCTL.h\<close> defines
  \<open>QMICTL_REVOKE_CLIENT_ID_IND\<close> as an indication (control flags \<open>0x02\<close>), but the source looks
  for it among the responses (control flags \<open>0x01\<close>). No CTL message that is not a response sets
  \<open>modem_reset_flag\<close> or changes the client tables.
\<close>

theorem revoke_indication_ignored:
  assumes "hdr_QMIType q = QMUX_TYPE_CTL" and "ctl_CtlFlags q = 0x02"
  shows "modem_reset_flag (recv_qmi_from_dev q p) = modem_reset_flag p
     \<and> qmi_proxy_connection (recv_qmi_from_dev q p) = qmi_proxy_connection p"
proof -
  have "modem_reset_flag (ctl_next_loop m cons p) = modem_reset_flag p
      \<and> qmi_proxy_connection (ctl_next_loop m cons p) = qmi_proxy_connection p" for m cons p
    by (induction cons arbitrary: p) (auto simp: send_qmi_to_cdc_wdm_def)
  then show ?thesis
    using assms by (auto simp: recv_qmi_from_dev_def ctl_send_next_def split: list.split)
qed

theorem revoke_indication_ignored_witness:
  "\<not> modem_reset_flag (recv_qmi_from_dev (ctl_msg 0x02 0 QMICTL_REVOKE_CLIENT_ID_IND) demo_proxy)"
  using revoke_indication_ignored [of "ctl_msg 0x02 0 QMICTL_REVOKE_CLIENT_ID_IND" demo_proxy]
  by (simp add: demo_proxy_def)

text \<open>
  Leaving the poll loop always terminates with no connection left, and closes every client
  descriptor exactly once, in the order of the connections.
\<close>

theorem proxy_exit_closes_all:
  "qmi_proxy_connection (proxy_exit p) = []
   \<and> pout (proxy_exit p) = pout p @ map CloseFd (con_fds p)"
proof (induction p rule: proxy_exit.induct)
  case (1 p)
  show ?case
  proof (cases "qmi_proxy_connection p")
    case Nil
    then show ?thesis by (simp add: proxy_exit.simps [of p] con_fds_def)
  next
    case (Cons con cons)
    let ?p1 = "cleanup_qmi_connection (ClientFd con) p"
    have "qmi_proxy_connection ?p1 = cons" "pout ?p1 = pout p @ [CloseFd (ClientFd con)]"
      using Cons by (simp_all add: cleanup_qmi_connection_def)
    with "1.IH" [OF Cons] Cons show ?thesis
      by (simp add: proxy_exit.simps [of p] con_fds_def)
  qed
qed

end
