(* ===== verification/Qmap.thy ===== *)
theory Qmap
  imports Prelude
begin

text \<open>
  The QMAP data path of the USB driver \<open>qmi_wwan_q.c\<close>: the socket buffer operations it
  uses, the QMAP v1 and v5 headers and the functions that add them, the decoder of an
  aggregated downlink frame, and the transmit and receive fixups of the network devices.
  The configuration is the one of the firmware: \<open>QUECTEL_WWAN_QMAP\<close> 4, the bridge module
  present (\<open>QUECTEL_BRIDGE_MODE\<close>), no \<open>CONFIG_BRIDGE_LAN\<close>, no NSS offload, a kernel later
  than 5.18. A kernel panic of a buffer primitive is \<open>None\<close>; a read past the end of a buffer
  is the outcome \<open>DecFault\<close>.
\<close>

section \<open>Socket buffers\<close>

text \<open>
  A socket buffer is its head room, its data and the current bytes of its tail room: the
  tail room is not cleared, so bytes that \<open>__skb_put\<close> exposes are whatever was there.
\<close>

record skb =
  s_headroom :: nat
  s_data :: "byte list"
  s_tail :: "byte list"
  s_protocol :: u16

definition skb_tailroom :: "skb \<Rightarrow> nat" where
  "skb_tailroom s = length (s_tail s)"

definition skb_put_raw :: "nat \<Rightarrow> skb \<Rightarrow> skb" where
  "skb_put_raw n s = s\<lparr>s_data := s_data s @ take n (s_tail s), s_tail := drop n (s_tail s)\<rparr>"

definition skb_push :: "byte list \<Rightarrow> skb \<Rightarrow> skb option" where
  "skb_push hdr s = (if s_headroom s < length hdr then None
     else Some (s\<lparr>s_headroom := s_headroom s - length hdr, s_data := hdr @ s_data s\<rparr>))"
  \<comment> \<open>\<open>skb_under_panic\<close> without head room; the callers overwrite every pushed byte\<close>

definition skb_pull :: "nat \<Rightarrow> skb \<Rightarrow> skb option" where
  "skb_pull n s = (if length (s_data s) < n then None
     else Some (s\<lparr>s_headroom := s_headroom s + n, s_data := drop n (s_data s)\<rparr>))"
  \<comment> \<open>\<open>NULL\<close>, and an unchanged buffer, when it is shorter\<close>

section \<open>Constants and structures\<close>

definition ETH_HLEN :: nat where "ETH_HLEN = 14"

definition ETH_P_IP :: u16 where "ETH_P_IP = 0x0800"
definition ETH_P_ARP :: u16 where "ETH_P_ARP = 0x0806"
definition ETH_P_IPV6 :: u16 where "ETH_P_IPV6 = 0x86DD"
definition ETH_P_MAP :: u16 where "ETH_P_MAP = 0xDA1A"

definition QUECTEL_WWAN_QMAP :: u32 where "QUECTEL_WWAN_QMAP = 4"
definition QUECTEL_QMAP_MUX_ID :: byte where "QUECTEL_QMAP_MUX_ID = 0x81"

definition default_modem_addr :: "byte list" where
  "default_modem_addr = [0x02, 0x50, 0xf3, 0, 0, 0]"

text \<open>A network device: the fields of \<open>struct net_device\<close> the driver reads or sets.\<close>

record net_device =
  nd_mtu :: u32
  nd_ether :: bool            \<comment> \<open>\<open>type == ARPHRD_ETHER\<close>\<close>
  nd_hard_header_len :: u32
  nd_addr :: "byte list"
  nd_up :: bool               \<comment> \<open>\<open>flags & IFF_UP\<close>\<close>
  nd_carrier :: bool          \<comment> \<open>\<open>netif_carrier_ok\<close>\<close>
  nd_stopped :: bool          \<comment> \<open>\<open>netif_queue_stopped\<close>\<close>

record tx_agg_ctx =
  ul_data_aggregation_max_datagrams :: u32
  ul_data_aggregation_max_size :: u32
  dl_minimum_padding :: u32

text \<open>
  The private data of a multiplexed device. The aggregation buffer is the bytes collected so
  far and the tail room left behind them.
\<close>

record qmap_priv =
  offset_id :: byte
  mux_id :: byte
  qmap_version :: byte
  link_state :: byte
  agg_skb :: "(byte list \<times> nat) option"
  agg_count :: u32
  agg_time :: int             \<comment> \<open>nanoseconds\<close>
  agg_hrtimer :: bool         \<comment> \<open>\<open>hrtimer_is_queued\<close>\<close>
  agg_wq :: bool              \<comment> \<open>the flush work is pending\<close>
  bridge_mode :: u32
  bridge_ipv4 :: u32
  bridge_mac :: "byte list"
  tx_packets :: nat
  tx_bytes :: nat
  tx_errors :: nat

text \<open>
  An entry of \<open>mpQmapNetDev\<close>: null, the USB device itself (\<open>qmap_mode\<close> 1 without
  \<open>rmnet_usb\<close>), or a registered sub-device with its private data.
\<close>

datatype slot = NoDev | RealDev | SubDev net_device qmap_priv

record sQmiWwanQmap =
  q_net :: net_device                  \<comment> \<open>\<open>mpNetDev->net\<close>\<close>
  q_noarp :: bool                      \<comment> \<open>\<open>driver_info->flags & FLAG_NOARP\<close>\<close>
  q_mpQmapNetDev :: "slot list"
  q_link_state :: u32
  q_qmap_mode :: u32
  q_qmap_size :: u32
  q_qmap_version :: u32
  q_tx_ctx :: tx_agg_ctx
  q_bridge_mode :: u32
  q_bridge_ipv4 :: u32
  q_bridge_mac :: "byte list"
  q_use_rmnet_usb :: bool

definition slot_net :: "sQmiWwanQmap \<Rightarrow> slot \<Rightarrow> net_device option" where
  "slot_net q sl = (case sl of NoDev \<Rightarrow> None | RealDev \<Rightarrow> Some (q_net q) | SubDev n p \<Rightarrow> Some n)"

section \<open>Headers\<close>

text \<open>The first byte of \<open>struct rmnet_map_header\<close>, with little-endian bit fields.\<close>

definition mh_pad_len :: "byte \<Rightarrow> byte" where "mh_pad_len b = b AND 0x3F"
definition mh_next_hdr :: "byte \<Rightarrow> bool" where "mh_next_hdr b = (b AND 0x40 \<noteq> 0)"
definition mh_cd_bit :: "byte \<Rightarrow> bool" where "mh_cd_bit b = (b AND 0x80 \<noteq> 0)"

definition qmap_pad :: "skb \<Rightarrow> nat" where
  "qmap_pad s = (let pad = length (s_data s) mod 4 in
     if pad = 0 then 0
     else let pad' = 4 - pad in if skb_tailroom s < pad' then 0 else pad')"

definition qhdr_bytes :: "nat \<Rightarrow> byte \<Rightarrow> nat \<Rightarrow> byte list" where
  "qhdr_bytes pad mux len = [of_nat pad, mux] @ be16_bytes (of_nat len)"

definition qhdr_v5_bytes :: "nat \<Rightarrow> byte \<Rightarrow> nat \<Rightarrow> byte list" where
  "qhdr_v5_bytes pad mux len =
     [(of_nat pad AND 0x3F) OR 0x40, mux] @ be16_bytes (of_nat len) @ [0x04, 0, 0, 0]"

definition add_qhdr :: "skb \<Rightarrow> byte \<Rightarrow> skb option" where
  "add_qhdr s mux = (let pad = qmap_pad s; s1 = skb_put_raw pad s in
     skb_push (qhdr_bytes pad mux (length (s_data s1))) s1)"

definition add_qhdr_v5 :: "skb \<Rightarrow> byte \<Rightarrow> skb option" where
  "add_qhdr_v5 s mux = (let map_datalen = length (s_data s); padding = qmap_pad s;
       s1 = skb_put_raw padding s in
     skb_push (qhdr_v5_bytes padding mux (map_datalen + padding)) s1)"

section \<open>Ethernet bridge mode\<close>

text \<open>
  \<open>bridge_mode_rx_fixup\<close> chooses the destination address. \<open>netdev_priv\<close> of the device is
  read as a \<open>qmap_priv\<close> in the multiplexed modes, which only a sub-device has.
\<close>

definition bridge_mode_rx_fixup :: "sQmiWwanQmap \<Rightarrow> slot \<Rightarrow> byte list option" where
  "bridge_mode_rx_fixup q sl =
     (if q_qmap_mode q > 1 \<or> q_use_rmnet_usb q then
        (case sl of SubDev n p \<Rightarrow> Some (if bridge_mode p \<noteq> 0 then bridge_mac p else nd_addr n)
         | _ \<Rightarrow> None)
      else (case slot_net q sl of None \<Rightarrow> None
         | Some n \<Rightarrow> Some (if q_bridge_mode q \<noteq> 0 then q_bridge_mac q else nd_addr n)))"

section \<open>The downlink decoder\<close>

record rxpkt =
  rx_dev :: nat          \<comment> \<open>index of the device in \<open>mpQmapNetDev\<close>\<close>
  rx_protocol :: u16
  rx_data :: "byte list"

datatype dec_step = DecStop | DecFault | DecSkip nat | DecDeliver rxpkt nat

definition dl_min_padding :: "sQmiWwanQmap \<Rightarrow> u32" where
  "dl_min_padding q = (if q_qmap_version q = 9 then dl_minimum_padding (q_tx_ctx q) else 0)"

definition ip_protocol_of :: "byte \<Rightarrow> u16 option" where
  "ip_protocol_of b = (if b AND 0xf0 = 0x40 then Some ETH_P_IP
     else if b AND 0xf0 = 0x60 then Some ETH_P_IPV6 else None)"

definition rx_frame :: "sQmiWwanQmap \<Rightarrow> slot \<Rightarrow> net_device \<Rightarrow> u16 \<Rightarrow> byte list \<Rightarrow> byte list option" where
  "rx_frame q sl n proto payload =
     (if nd_ether n then
        (case bridge_mode_rx_fixup q sl of None \<Rightarrow> None
         | Some dst \<Rightarrow> Some (dst @ default_modem_addr @ be16_bytes proto @ payload))
      else Some payload)"

text \<open>One turn of the loop of \<open>qmap_packet_decode\<close>, on the bytes \<open>d\<close> left in \<open>skb_in\<close>.\<close>

definition qmap_decode_step :: "sQmiWwanQmap \<Rightarrow> bool \<Rightarrow> byte list \<Rightarrow> dec_step" where
  "qmap_decode_step q alloc_ok d =
     (let h0 = fld8 d 0;
          hdr_size = (if mh_next_hdr h0 then 8 else 4);
          pkt_len = unat (be16_of (fld8 d 2) (fld8 d 3));
          skb_len = (of_nat pkt_len - ucast (mh_pad_len h0)) - dl_min_padding q :: u32;
          mux = (ucast (fld8 d 1) - ucast QUECTEL_QMAP_MUX_ID) :: u32
      in if q_qmap_mode q \<le> mux then DecStop
         else if length (q_mpQmapNetDev q) \<le> unat mux then DecFault
         else let sl = q_mpQmapNetDev q ! unat mux in
         case slot_net q sl of
           None \<Rightarrow> DecSkip (pkt_len + hdr_size)
         | Some n \<Rightarrow>
             if nd_mtu n < skb_len then DecStop
             else if length d < pkt_len + hdr_size then DecStop
             else if mh_cd_bit h0 then DecSkip (pkt_len + hdr_size)
             else if length d \<le> hdr_size then DecFault
             else case ip_protocol_of (fld8 d hdr_size) of
               None \<Rightarrow> DecStop
             | Some proto \<Rightarrow>
                 if \<not> alloc_ok then DecStop
                 else if length d < hdr_size + unat skb_len then DecFault
                 else case rx_frame q sl n proto (take (unat skb_len) (drop hdr_size d)) of
                   None \<Rightarrow> DecFault
                 | Some f \<Rightarrow> DecDeliver \<lparr>rx_dev = unat mux, rx_protocol = proto, rx_data = f\<rparr>
                     (pkt_len + hdr_size))"

text \<open>
  The loop: \<open>alloc i\<close> says whether the \<open>i\<close>-th allocation succeeds. The result is the chain
  of packets and whether the decoder read past the buffer; \<open>None\<close> is a loop that never ends.
\<close>

definition pull_in :: "nat \<Rightarrow> byte list \<Rightarrow> byte list" where
  "pull_in n d = (if length d < n then d else drop n d)"

partial_function (option) qmap_packet_decode ::
  "sQmiWwanQmap \<Rightarrow> (nat \<Rightarrow> bool) \<Rightarrow> byte list \<Rightarrow> (bool \<times> rxpkt list) option" where
  "qmap_packet_decode q alloc d =
     (if length d > 4 then
        (case qmap_decode_step q (alloc 0) d of
           DecStop \<Rightarrow> Some (False, [])
         | DecFault \<Rightarrow> Some (True, [])
         | DecSkip n \<Rightarrow> qmap_packet_decode q (\<lambda>i. alloc (Suc i)) (pull_in n d)
         | DecDeliver p n \<Rightarrow>
             Option.bind (qmap_packet_decode q (\<lambda>i. alloc (Suc i)) (pull_in n d))
               (\<lambda>r. Some (fst r, p # snd r)))
      else Some (False, []))"

section \<open>Receive fixups\<close>

datatype rx_fixup = RxDrop | RxFault | RxKeep skb

definition is_multicast_ether_addr :: "byte list \<Rightarrow> bool" where
  "is_multicast_ether_addr a = (fld8 a 0 AND 1 \<noteq> 0)"

definition fix_dest :: "sQmiWwanQmap \<Rightarrow> skb \<Rightarrow> rx_fixup" where
  "fix_dest q s = (case bridge_mode_rx_fixup q RealDev of None \<Rightarrow> RxFault
     | Some dst \<Rightarrow> RxKeep (s\<lparr>s_data := dst @ drop 6 (s_data s)\<rparr>))"

definition rx_add_header :: "sQmiWwanQmap \<Rightarrow> u16 \<Rightarrow> skb \<Rightarrow> rx_fixup" where
  "rx_add_header q proto s =
     (if s_headroom s < ETH_HLEN then RxDrop
      else case skb_push (replicate 6 0 @ default_modem_addr @ be16_bytes proto) s of
          None \<Rightarrow> RxFault
        | Some s' \<Rightarrow> fix_dest q s')"

definition qmi_wwan_rx_fixup :: "sQmiWwanQmap \<Rightarrow> skb \<Rightarrow> rx_fixup" where
  "qmi_wwan_rx_fixup q s =
     (if length (s_data s) < unat (nd_hard_header_len (q_net q)) then RxDrop
      else if s_data s = [] then RxFault
      else let t = fld8 (s_data s) 0 AND 0xf0 in
        if t = 0x40 then rx_add_header q ETH_P_IP s
        else if t = 0x60 then rx_add_header q ETH_P_IPV6 s
        else if t = 0x00 then
          (if is_multicast_ether_addr (s_data s) then RxKeep s else fix_dest q s)
        else RxKeep s)"

text \<open>
  \<open>qmap_qmi_wwan_rx_fixup\<close>: without QMAP the plain fixup, otherwise every decoded packet is
  handed to \<open>usbnet_skb_return\<close> when its device is the USB device itself.
\<close>

datatype rx_result = RxPlain rx_fixup | RxQmap bool "rxpkt list"

definition qmap_qmi_wwan_rx_fixup :: "sQmiWwanQmap \<Rightarrow> (nat \<Rightarrow> bool) \<Rightarrow> skb \<Rightarrow> rx_result option" where
  "qmap_qmi_wwan_rx_fixup q alloc s =
     (if q_qmap_mode q = 0 then Some (RxPlain (qmi_wwan_rx_fixup q s))
      else map_option (\<lambda>(fault, chain).
             RxQmap fault (map (rx_protocol_update (\<lambda>_. 0))
               (filter (\<lambda>p. q_mpQmapNetDev q ! rx_dev p = RealDev) chain)))
           (qmap_packet_decode q alloc (s_data s)))"

text \<open>
  \<open>rmnet_usb_rx_fixup\<close> wraps the whole frame for the receive handler, which decodes it and
  delivers each packet, its Ethernet header removed, to its sub-device.
\<close>

definition rmnet_usb_rx_fixup :: "sQmiWwanQmap \<Rightarrow> skb \<Rightarrow> (bool \<times> skb) option" where
  "rmnet_usb_rx_fixup q s =
     (if nd_ether (q_net q) \<and> ETH_HLEN \<le> s_headroom s then
        map_option (Pair True)
          (skb_push (nd_addr (q_net q) @ default_modem_addr @ be16_bytes ETH_P_MAP) s)
      else Some (False, s))"

datatype rx_handler_result = RX_HANDLER_PASS | RX_HANDLER_CONSUMED bool "rxpkt list"

definition rmnet_usb_rx_handler ::
  "sQmiWwanQmap \<Rightarrow> (nat \<Rightarrow> bool) \<Rightarrow> bool \<Rightarrow> skb \<Rightarrow> rx_handler_result option" where
  "rmnet_usb_rx_handler q alloc loopback s =
     (if loopback then Some RX_HANDLER_PASS
      else if s_protocol s \<noteq> ETH_P_MAP then Some RX_HANDLER_PASS
      else map_option (\<lambda>(fault, chain). RX_HANDLER_CONSUMED fault (map (\<lambda>p.
             case slot_net q (q_mpQmapNetDev q ! rx_dev p) of
               Some n \<Rightarrow> if nd_ether n then p\<lparr>rx_data := drop ETH_HLEN (rx_data p)\<rparr> else p
             | None \<Rightarrow> p) chain))
           (qmap_packet_decode q alloc (s_data s)))"

section \<open>Hardware addresses\<close>

definition possibly_iphdr :: "byte list \<Rightarrow> bool" where
  "possibly_iphdr a = (fld8 a 0 AND 0xd0 = 0x40)"

definition EADDRNOTAVAIL :: int where "EADDRNOTAVAIL = 99"

text \<open>\<open>prepare\<close> is the result of \<open>eth_prepare_mac_addr_change\<close>.\<close>

definition qmi_wwan_mac_addr :: "int \<Rightarrow> net_device \<Rightarrow> byte list \<Rightarrow> int \<times> net_device" where
  "qmi_wwan_mac_addr prepare n a =
     (if prepare < 0 then (prepare, n)
      else if possibly_iphdr a then (- EADDRNOTAVAIL, n)
      else (0, n\<lparr>nd_addr := a\<rparr>))"

definition bind_fix_addr :: "byte list \<Rightarrow> byte list \<Rightarrow> byte list" where
  "bind_fix_addr random_addr a0 =
     (let a = if a0 = default_modem_addr then random_addr else a0 in
      if possibly_iphdr a then ((fld8 a 0 OR 0x02) AND 0xbf) # tl a else a)"

section \<open>Transmit fixups\<close>

text \<open>
  An Ethernet frame as the stack hands it over: the network header is 14 bytes into it. The
  arguments of the kernel's \<open>arp_create\<close> stand for the reply it builds.
\<close>

record arp_args =
  aa_dest_ip :: "byte list"
  aa_src_ip :: "byte list"
  aa_dest_hw :: "byte list"
  aa_src_hw :: "byte list"
  aa_target_hw :: "byte list"

definition bytes_at :: "byte list \<Rightarrow> nat \<Rightarrow> nat \<Rightarrow> byte list" where
  "bytes_at d off n = map (\<lambda>i. fld8 d (off + i)) [0..<n]"

definition h_proto :: "byte list \<Rightarrow> u16" where "h_proto d = be16_of (fld8 d 12) (fld8 d 13)"
definition h_source :: "byte list \<Rightarrow> byte list" where "h_source d = bytes_at d 6 6"

definition ipv4_octets :: "u32 \<Rightarrow> byte list" where
  "ipv4_octets w = [ucast (drop_bit 24 w), ucast (drop_bit 16 w), ucast (drop_bit 8 w), ucast w]"

definition bridge_arp_reply :: "byte list \<Rightarrow> u32 \<Rightarrow> bool \<times> arp_args option" where
  "bridge_arp_reply d ipv4w =
     (let ipv4 = ipv4_octets ipv4w in
      if be16_of (fld8 d 14) (fld8 d 15) = 1 \<and> be16_of (fld8 d 16) (fld8 d 17) = ETH_P_IP
         \<and> be16_of (fld8 d 20) (fld8 d 21) = 1 \<and> fld8 d 18 = 6 \<and> fld8 d 19 = 4 then
        let sha = bytes_at d 22 6; sip = bytes_at d 28 4; tip = bytes_at d 38 4 in
        (True, if tip ! 0 = ipv4 ! 0 \<and> tip ! 1 = ipv4 ! 1 \<and> tip ! 2 AND 0xFC = ipv4 ! 2 AND 0xFC
                  \<and> tip ! 3 \<noteq> ipv4 ! 3
               then Some \<lparr>aa_dest_ip = sip, aa_src_ip = tip, aa_dest_hw = sha,
                          aa_src_hw = default_modem_addr, aa_target_hw = sha\<rparr>
               else None)
      else (False, None))"

text \<open>The result: whether the frame goes on, the learned address, and an ARP reply.\<close>

definition bridge_mode_tx_fixup ::
  "byte list \<Rightarrow> u32 \<Rightarrow> byte list \<Rightarrow> bool \<times> byte list \<times> arp_args option" where
  "bridge_mode_tx_fixup d ipv4 mac =
     (if h_proto d = ETH_P_ARP then
        (False, mac, if ipv4 \<noteq> 0 then snd (bridge_arp_reply d ipv4) else None)
      else let mac' = (if h_proto d = ETH_P_IP \<and> fld8 d 23 = 17 \<and> bytes_at d 26 4 = [0, 0, 0, 0]
                          \<and> bytes_at d 30 4 = [255, 255, 255, 255]
                       then h_source d else mac) in
        (h_source d = mac', mac', None))"

datatype tx_fixup = TxPanic | TxDrop | TxSend skb

text \<open>The driver state after the call, the ARP reply handed to the stack, and the frame's fate.\<close>

definition qmi_wwan_tx_fixup :: "sQmiWwanQmap \<Rightarrow> skb \<Rightarrow> sQmiWwanQmap \<times> arp_args option \<times> tx_fixup" where
  "qmi_wwan_tx_fixup q s =
     (if \<not> q_noarp q then (q, None, TxSend s)
      else if nd_hard_header_len (q_net q) = 0 then (q, None, TxSend s)
      else let (pass, mac, reply) = (if q_bridge_mode q \<noteq> 0
                 then bridge_mode_tx_fixup (s_data s) (q_bridge_ipv4 q) (q_bridge_mac q)
                 else (True, q_bridge_mac q, None));
               q' = q\<lparr>q_bridge_mac := mac\<rparr> in
        (q', reply,
         if \<not> pass then TxDrop
         else case skb_pull ETH_HLEN s of Some s' \<Rightarrow> TxSend s' | None \<Rightarrow> TxDrop))"

definition qmap_qmi_wwan_tx_fixup :: "sQmiWwanQmap \<Rightarrow> skb \<Rightarrow> sQmiWwanQmap \<times> arp_args option \<times> tx_fixup" where
  "qmap_qmi_wwan_tx_fixup q s =
     (if q_qmap_mode q \<noteq> 0 \<and> q_link_state q = 0 then (q, None, TxDrop)
      else if q_qmap_mode q = 0 then qmi_wwan_tx_fixup q s
      else if q_qmap_mode q > 1 then (q, None, TxSend s)
      else case qmi_wwan_tx_fixup q s of
          (q', reply, TxSend s') \<Rightarrow>
            (q', reply, case (if q_qmap_version q = 5 then add_qhdr s' QUECTEL_QMAP_MUX_ID
                              else add_qhdr_v5 s' QUECTEL_QMAP_MUX_ID) of
              None \<Rightarrow> TxPanic | Some s'' \<Rightarrow> TxSend s'')
        | r \<Rightarrow> r)"

definition rmnet_usb_tx_fixup :: "skb \<Rightarrow> tx_fixup" where
  "rmnet_usb_tx_fixup s = (if s_protocol s \<noteq> ETH_P_MAP then TxDrop else TxSend s)"

section \<open>Frames the modem sends\<close>

text \<open>
  A well-formed device table: four entries, at most four of them used, and, in the
  multiplexed modes, only sub-devices in use.
\<close>

definition qmap_wf :: "sQmiWwanQmap \<Rightarrow> bool" where
  "qmap_wf q \<longleftrightarrow> length (q_mpQmapNetDev q) = 4 \<and> q_qmap_mode q \<le> QUECTEL_WWAN_QMAP \<and>
     (q_qmap_mode q > 1 \<or> q_use_rmnet_usb q \<longrightarrow> RealDev \<notin> set (q_mpQmapNetDev q))"

text \<open>
  A packet of a frame: the index of its device, its bytes and the padding behind them. The
  header counts the padding beyond the fixed downlink padding.
\<close>

type_synonym qpkt = "nat \<times> byte list \<times> byte list"

definition qmap_enc :: "sQmiWwanQmap \<Rightarrow> bool \<Rightarrow> qpkt \<Rightarrow> byte list" where
  "qmap_enc q v5 = (\<lambda>(i, p, pd).
     (if v5 then qhdr_v5_bytes else qhdr_bytes) (length pd - unat (dl_min_padding q))
        (QUECTEL_QMAP_MUX_ID + of_nat i) (length p + length pd) @ p @ pd)"

definition qmap_ok :: "sQmiWwanQmap \<Rightarrow> qpkt \<Rightarrow> bool" where
  "qmap_ok q = (\<lambda>(i, p, pd). qmap_wf q \<and> i < unat (q_qmap_mode q) \<and>
     (case slot_net q (q_mpQmapNetDev q ! i) of None \<Rightarrow> False | Some n \<Rightarrow> length p \<le> unat (nd_mtu n)) \<and>
     p \<noteq> [] \<and> ip_protocol_of (hd p) \<noteq> None \<and> length p + length pd < 65536 \<and>
     unat (dl_min_padding q) \<le> length pd \<and> length pd - unat (dl_min_padding q) < 64)"

definition qmap_view :: "sQmiWwanQmap \<Rightarrow> qpkt \<Rightarrow> rxpkt" where
  "qmap_view q = (\<lambda>(i, p, pd).
     let sl = q_mpQmapNetDev q ! i; n = the (slot_net q sl); proto = the (ip_protocol_of (hd p)) in
     \<lparr>rx_dev = i, rx_protocol = proto, rx_data = the (rx_frame q sl n proto p)\<rparr>)"

definition qmap_dec1 :: "sQmiWwanQmap \<Rightarrow> byte list \<Rightarrow> (rxpkt \<times> byte list) option" where
  "qmap_dec1 q d = (if length d > 4 then
      (case qmap_decode_step q True d of DecDeliver p n \<Rightarrow> Some (p, pull_in n d) | _ \<Rightarrow> None)
    else None)"

definition qmap_run :: "sQmiWwanQmap \<Rightarrow> byte list \<Rightarrow> rxpkt list option" where
  "qmap_run q d = (case qmap_packet_decode q (\<lambda>_. True) d of
       Some (False, chain) \<Rightarrow> Some chain | _ \<Rightarrow> None)"

section \<open>Header lemmas\<close>

lemma mh_v1_all:
  "list_all (\<lambda>k. mh_pad_len (of_nat k) = of_nat k \<and> \<not> mh_next_hdr (of_nat k) \<and> \<not> mh_cd_bit (of_nat k)) [0..<64]"
  by code_simp

lemma mh_v5_all:
  "list_all (\<lambda>k. mh_pad_len ((of_nat k AND 0x3F) OR 0x40) = of_nat k \<and> mh_next_hdr ((of_nat k AND 0x3F) OR 0x40)
     \<and> \<not> mh_cd_bit ((of_nat k AND 0x3F) OR 0x40)) [0..<64]"
  by code_simp

lemma mh_v1 [simp]:
  assumes "k < 64"
  shows "mh_pad_len (of_nat k) = of_nat k" "\<not> mh_next_hdr (of_nat k)" "\<not> mh_cd_bit (of_nat k)"
  using mh_v1_all assms by (simp_all add: list_all_iff)

lemma mh_v5 [simp]:
  assumes "k < 64"
  shows "mh_pad_len ((of_nat k AND 0x3F) OR 0x40) = of_nat k" "mh_next_hdr ((of_nat k AND 0x3F) OR 0x40)"
    "\<not> mh_cd_bit ((of_nat k AND 0x3F) OR 0x40)"
  using mh_v5_all assms by (simp_all add: list_all_iff)

lemma mux_index:
  assumes "i < 4"
  shows "(ucast (QUECTEL_QMAP_MUX_ID + of_nat i) - ucast QUECTEL_QMAP_MUX_ID :: u32) = of_nat i"
proof -
  have "i = 0 \<or> i = 1 \<or> i = 2 \<or> i = 3" using assms by linarith
  then show ?thesis by (elim disjE) (simp_all add: QUECTEL_QMAP_MUX_ID_def)
qed

lemma skb_len_word:
  assumes "a + b < 65536" "unat k \<le> b" "b - unat k < 64"
  shows "of_nat (a + b) - ucast (of_nat (b - unat k) :: byte) - k = (of_nat a :: u32)"
proof -
  define m where "m = b - unat k"
  have m: "m < 64" "b = m + unat k" using assms by (auto simp: m_def)
  have "unat (of_nat m :: byte) = m" using m(1) by (simp add: unat_of_nat take_bit_nat_eq_self)
  then have "(ucast (of_nat m :: byte) :: u32) = of_nat m"
    using m(1) by (simp add: word_unat_eq_iff unat_ucast_widen unat_of_nat take_bit_nat_eq_self)
  then show ?thesis by (simp add: m(2))
qed


lemma fld8_hdrs [simp]:
  "fld8 (qhdr_bytes k m l @ r) 0 = of_nat k"
  "fld8 (qhdr_bytes k m l @ r) (Suc 0) = m"
  "be16_of (fld8 (qhdr_bytes k m l @ r) 2) (fld8 (qhdr_bytes k m l @ r) 3) = of_nat l"
  "fld8 (qhdr_v5_bytes k m l @ r) 0 = (of_nat k AND 0x3F) OR 0x40"
  "fld8 (qhdr_v5_bytes k m l @ r) (Suc 0) = m"
  "be16_of (fld8 (qhdr_v5_bytes k m l @ r) 2) (fld8 (qhdr_v5_bytes k m l @ r) 3) = of_nat l"
  by (simp_all add: qhdr_bytes_def qhdr_v5_bytes_def fld8_def be16_bytes_def be16_of_be16_bytes)

lemma length_hdrs [simp]: "length (qhdr_bytes k m l) = 4" "length (qhdr_v5_bytes k m l) = 8"
  by (simp_all add: qhdr_bytes_def qhdr_v5_bytes_def)

lemma fld8_payload [simp]:
  "p \<noteq> [] \<Longrightarrow> fld8 (qhdr_bytes k m l @ p @ r) 4 = hd p"
  "p \<noteq> [] \<Longrightarrow> fld8 (qhdr_v5_bytes k m l @ p @ r) 8 = hd p"
  by (simp_all add: fld8_def hd_conv_nth nth_append)

lemma rx_frame_wf:
  assumes "qmap_wf q" "i < unat (q_qmap_mode q)" "slot_net q (q_mpQmapNetDev q ! i) = Some n"
  shows "rx_frame q (q_mpQmapNetDev q ! i) n proto p \<noteq> None"
proof -
  have "i < 4" using assms(1,2) by (simp add: qmap_wf_def QUECTEL_WWAN_QMAP_def word_le_nat_alt)
  then have "q_mpQmapNetDev q ! i \<in> set (q_mpQmapNetDev q)"
    using assms(1) by (simp add: qmap_wf_def)
  then show ?thesis
    using assms by (auto simp: rx_frame_def bridge_mode_rx_fixup_def qmap_wf_def slot_net_def split: slot.splits)
qed

text \<open>The decoder's turn on an encoded packet, whatever follows it.\<close>

lemma qmap_decode_step_enc:
  assumes ok: "qmap_ok q x"
  shows "qmap_decode_step q True (qmap_enc q v5 x @ rest) = DecDeliver (qmap_view q x) (length (qmap_enc q v5 x))"
proof -
  obtain i p pd where x: "x = (i, p, pd)" by (cases x) auto
  define k where "k = length pd - unat (dl_min_padding q)"
  define l where "l = length p + length pd"
  from ok x obtain n proto where f: "qmap_wf q" "i < unat (q_qmap_mode q)"
      "slot_net q (q_mpQmapNetDev q ! i) = Some n" "length p \<le> unat (nd_mtu n)" "p \<noteq> []"
      "ip_protocol_of (hd p) = Some proto" "l < 65536" "unat (dl_min_padding q) \<le> length pd" "k < 64"
    by (auto simp: qmap_ok_def k_def l_def split: option.splits)
  have i4: "i < 4" and len4: "length (q_mpQmapNetDev q) = 4"
    using f(1,2) by (simp_all add: qmap_wf_def QUECTEL_WWAN_QMAP_def word_le_nat_alt)
  have ul: "unat (of_nat l :: u16) = l" using f(7) by (simp add: unat_of_nat take_bit_nat_eq_self)
  have ui: "unat (of_nat i :: u32) = i" using i4 by (simp add: unat_of_nat take_bit_nat_eq_self)
  have up: "unat (of_nat (length p) :: u32) = length p"
    using f(7) by (simp add: l_def unat_of_nat take_bit_nat_eq_self)
  have w: "of_nat l - ucast (of_nat k :: byte) - dl_min_padding q = (of_nat (length p) :: u32)"
    using skb_len_word [of "length p" "length pd" "dl_min_padding q"] f(7,8,9)
    by (simp add: l_def k_def)
  obtain fr where fr: "rx_frame q (q_mpQmapNetDev q ! i) n proto p = Some fr"
    using rx_frame_wf [OF f(1-3)] by blast
  have mode: "\<not> q_qmap_mode q \<le> of_nat i" using f(2) ui by (simp add: word_le_nat_alt)
  have mtu: "\<not> nd_mtu n < of_nat (length p)" using f(4) up by (simp add: word_less_nat_alt)
  have ll: "length p + length pd = l" "\<not> length p + (length pd + length rest) < l"
    by (simp_all add: l_def)
  show ?thesis
    using f mode mtu ul ui up w fr i4
    by (cases v5) (simp_all add: x qmap_enc_def qmap_decode_step_def Let_def mux_index len4
        k_def [symmetric] ll qmap_view_def le_diff_conv word_less_nat_alt
        del: fld8_append1 fld8_append2)
qed


section \<open>Decoding an aggregated frame\<close>

lemma qmap_enc_length: "4 < length (qmap_enc q v5 x)" if "qmap_ok q x"
  using that by (cases x) (auto simp: qmap_enc_def qmap_ok_def)

lemma qmap_dec1_enc: "qmap_ok q x \<Longrightarrow> qmap_dec1 q (qmap_enc q v5 x @ rest) = Some (qmap_view q x, rest)"
  using qmap_decode_step_enc [of q x v5 rest] qmap_enc_length [of q x v5]
  by (simp add: qmap_dec1_def pull_in_def)

lemma qmap_run_step: "qmap_dec1 q d = Some (y, rest) \<Longrightarrow> qmap_run q d = map_option ((#) y) (qmap_run q rest)"
  by (subst (1) qmap_run_def, subst qmap_packet_decode.simps)
    (auto simp: qmap_dec1_def qmap_run_def map_option_case Option.bind_def
      split: if_splits dec_step.splits option.splits bool.splits)

interpretation qmap_frames: framing "qmap_enc q v5" "qmap_ok q" "qmap_view q" "qmap_dec1 q" "qmap_run q"
  for q v5
proof (unfold_locales)
  show "qmap_run q [] = Some []"
    by (simp add: qmap_run_def qmap_packet_decode.simps)
qed (auto intro: qmap_dec1_enc qmap_run_step)


lemma decode_concat:
  "list_all (qmap_ok q) xs \<Longrightarrow>
   qmap_packet_decode q (\<lambda>_. True) (concat (map (qmap_enc q v5) xs)) = Some (False, map (qmap_view q) xs)"
  using qmap_frames.run_concat [of q xs v5]
  by (auto simp: qmap_run_def split: option.splits bool.splits)

section \<open>Termination of the decoder\<close>

definition all_registered :: "sQmiWwanQmap \<Rightarrow> bool" where
  "all_registered q = list_all (\<lambda>i. q_mpQmapNetDev q ! i \<noteq> NoDev) [0..<unat (q_qmap_mode q)]"

lemma decode_step_pull:
  assumes "all_registered q" "4 < length d"
  shows "qmap_decode_step q a d = DecSkip n \<Longrightarrow> 4 \<le> n \<and> n \<le> length d"
    and "qmap_decode_step q a d = DecDeliver p n \<Longrightarrow> 4 \<le> n \<and> n \<le> length d"
  using assms
  by (auto simp: qmap_decode_step_def Let_def slot_net_def all_registered_def list_all_iff
      word_le_nat_alt not_le split: if_splits option.splits slot.splits)

text \<open>
  A packet for an unregistered device that claims more bytes than the frame has is never
  taken off the frame: the loop does not end.
\<close>

definition stuck_packet :: "sQmiWwanQmap \<Rightarrow> byte list \<Rightarrow> bool" where
  "stuck_packet q d \<longleftrightarrow> 4 < length d \<and>
     (case qmap_decode_step q True d of DecSkip n \<Rightarrow> length d < n | _ \<Rightarrow> False)"

lemma decode_step_skip_alloc: "qmap_decode_step q a d = DecSkip n \<Longrightarrow> qmap_decode_step q b d = DecSkip n"
  by (auto simp: qmap_decode_step_def Let_def split: if_splits option.splits)

lemma decode_stuck:
  assumes "qmap_packet_decode q alloc d = Some r"
  shows "\<not> stuck_packet q d"
  using assms
proof (rule qmap_packet_decode.raw_induct [rotated])
  fix rec q alloc d r
  assume IH: "\<And>q alloc d r. rec q alloc d = Some r \<Longrightarrow> \<not> stuck_packet q d"
    and body: "(if length d > 4 then
        (case qmap_decode_step q (alloc 0) d of
           DecStop \<Rightarrow> Some (False, [])
         | DecFault \<Rightarrow> Some (True, [])
         | DecSkip n \<Rightarrow> rec q (\<lambda>i. alloc (Suc i)) (pull_in n d)
         | DecDeliver p n \<Rightarrow>
             Option.bind (rec q (\<lambda>i. alloc (Suc i)) (pull_in n d))
               (\<lambda>r. Some (fst r, p # snd r)))
      else Some (False, [])) = Some r"
  show "\<not> stuck_packet q d"
  proof
    assume s: "stuck_packet q d"
    then obtain n where n: "qmap_decode_step q True d = DecSkip n" "length d < n" "4 < length d"
      by (auto simp: stuck_packet_def split: dec_step.splits)
    have "rec q (\<lambda>i. alloc (Suc i)) d = Some r"
      using body n decode_step_skip_alloc [OF n(1), of "alloc 0"] by (simp add: pull_in_def)
    then show False using IH s by blast
  qed
qed


section \<open>What the decoder reads\<close>

text \<open>
  Sizes the rest of the system guarantees: an MTU below \<open>2 ^ 31\<close> and a fixed padding below \<open>2 ^ 30\<close>,
  so that a negative packet size, compared as unsigned, is larger than every MTU.
\<close>

definition sane_sizes :: "sQmiWwanQmap \<Rightarrow> bool" where
  "sane_sizes q \<longleftrightarrow> unat (dl_min_padding q) < 1073741824 \<and>
     list_all (\<lambda>sl. case slot_net q sl of None \<Rightarrow> True | Some n \<Rightarrow> unat (nd_mtu n) < 2147483648) (q_mpQmapNetDev q)"

lemma unat_sub_no_borrow:
  fixes a b c :: u32
  assumes "unat a < 65536" "unat b < 65536" "unat c < 1073741824" "unat (a - b - c) < 2147483648"
  shows "unat (a - b - c) \<le> unat a"
proof -
  define x where "x = uint a - uint b - uint c"
  have e: "uint (a - b - c) = x mod 4294967296"
    by (simp only: uint_word_ariths mod_diff_left_eq x_def) simp
  have bounds: "uint a < 65536" "uint b < 65536" "uint c < 1073741824" "uint (a - b - c) < 2147483648"
      "0 \<le> uint a" "0 \<le> uint b" "0 \<le> uint c"
    using assms by (simp_all only: unat_eq_nat_uint nat_less_iff uint_ge_0)
  have "uint (a - b - c) \<le> uint a"
  proof (cases "x < 0")
    case True
    have "x mod 4294967296 = (x + 4294967296) mod 4294967296" by simp
    also have "\<dots> = x + 4294967296"
      using bounds True unfolding x_def by (intro mod_pos_pos_trivial) linarith+
    finally show ?thesis using e bounds x_def by linarith
  next
    case False
    then have "x mod 4294967296 = x"
      using bounds unfolding x_def by (intro mod_pos_pos_trivial) linarith+
    then show ?thesis using e bounds x_def by linarith
  qed
  then show ?thesis by (simp only: unat_eq_nat_uint nat_mono)
qed


lemma skb_len_le:
  assumes "sane_sizes q" "sl \<in> set (q_mpQmapNetDev q)" "slot_net q sl = Some n"
    and "\<not> nd_mtu n < (ucast (w :: u16) - ucast (mh_pad_len h)) - dl_min_padding q"
  shows "unat ((ucast w - ucast (mh_pad_len h)) - dl_min_padding q) \<le> unat w"
proof -
  have w: "unat (ucast w :: u32) = unat w"
    by (simp add: unat_ucast_widen)
  have h: "unat (ucast (mh_pad_len h) :: u32) < 65536"
  proof -
    have "unat (ucast (mh_pad_len h) :: u32) = unat (mh_pad_len h)" by (rule unat_ucast_widen) simp
    then show ?thesis using unat_byte_less [of "mh_pad_len h"] by linarith
  qed
  have "unat (nd_mtu n) < 2147483648" "unat (dl_min_padding q) < 1073741824"
    using assms(1-3) by (auto simp: sane_sizes_def list_all_iff)
  then show ?thesis
    using unat_sub_no_borrow [of "ucast w" "ucast (mh_pad_len h)" "dl_min_padding q"] assms(4) w h
    by (simp add: word_less_nat_alt not_less)
qed

definition empty_v5_tail :: "byte list \<Rightarrow> bool" where
  "empty_v5_tail d \<longleftrightarrow> length d = 8 \<and> mh_next_hdr (fld8 d 0) \<and> be16_of (fld8 d 2) (fld8 d 3) = 0"

lemma decode_step_fault:
  assumes wf: "qmap_wf q" and sane: "sane_sizes q" and len: "4 < length d"
    and f: "qmap_decode_step q a d = DecFault"
  shows "empty_v5_tail d"
proof -
  define m where "m = (ucast (fld8 d (Suc 0)) - ucast QUECTEL_QMAP_MUX_ID :: u32)"
  define sl where "sl = q_mpQmapNetDev q ! unat m"
  define w where "w = be16_of (fld8 d 2) (fld8 d 3)"
  define sz where "sz = (ucast w - ucast (mh_pad_len (fld8 d 0))) - dl_min_padding q"
  note defs = m_def [symmetric] w_def [symmetric] sl_def [symmetric] sz_def [symmetric]
  have m: "unat m < 4 \<and> length (q_mpQmapNetDev q) = 4" if "\<not> q_qmap_mode q \<le> m"
    using wf that by (auto simp: qmap_wf_def QUECTEL_WWAN_QMAP_def word_le_nat_alt)
  have mode: "\<not> q_qmap_mode q \<le> m" using f by (auto simp: qmap_decode_step_def Let_def defs)
  have sl: "sl \<in> set (q_mpQmapNetDev q)" using m [OF mode] by (simp add: sl_def)
  from f obtain n where n: "slot_net q sl = Some n" "\<not> nd_mtu n < sz"
    using m [OF mode] by (auto simp: qmap_decode_step_def Let_def defs split: if_splits option.splits)
  have le: "unat sz \<le> unat w" using skb_len_le [OF sane sl n(1)] n(2) by (simp add: sz_def)
  define g where "g proto p = the (rx_frame q sl n proto p)" for proto p
  have rx: "rx_frame q sl n proto p = Some (g proto p)" for proto p
    using rx_frame_wf [OF wf, of "unat m" n proto p] n(1) mode
    by (simp add: sl_def [symmetric] g_def word_le_nat_alt)
  have w0: "w = 0" if "unat w = 0" using that by (simp add: unat_eq_zero)
  show ?thesis
    using f le n m [OF mode] len mode
    by (auto simp: qmap_decode_step_def Let_def defs rx empty_v5_tail_def intro!: w0
        split: if_splits option.splits)
qed


text \<open>
  What a delivered packet is made of: a block of the frame no longer than the MTU of the
  device it goes to, behind that device's Ethernet header.
\<close>

definition delivered_from :: "sQmiWwanQmap \<Rightarrow> byte list \<Rightarrow> rxpkt \<Rightarrow> bool" where
  "delivered_from q d p \<longleftrightarrow> rx_dev p < unat (q_qmap_mode q) \<and>
     (\<exists>k l n. k + l \<le> length d \<and> slot_net q (q_mpQmapNetDev q ! rx_dev p) = Some n \<and> l \<le> unat (nd_mtu n) \<and>
        rx_frame q (q_mpQmapNetDev q ! rx_dev p) n (rx_protocol p) (take l (drop k d)) = Some (rx_data p))"

lemma delivered_from_drop: "delivered_from q (drop m d) p \<Longrightarrow> delivered_from q d p"
proof -
  assume "delivered_from q (drop m d) p"
  then obtain k l n where a: "rx_dev p < unat (q_qmap_mode q)" "k + l \<le> length d - m"
      "slot_net q (q_mpQmapNetDev q ! rx_dev p) = Some n" "l \<le> unat (nd_mtu n)"
      "rx_frame q (q_mpQmapNetDev q ! rx_dev p) n (rx_protocol p) (take l (drop k (drop m d))) = Some (rx_data p)"
    by (auto simp: delivered_from_def)
  show ?thesis
  proof (cases "l = 0")
    case True
    then show ?thesis using a by (auto simp: delivered_from_def intro!: exI [of _ 0])
  next
    case False
    then show ?thesis
      using a unfolding delivered_from_def
      by (intro conjI exI [of _ "k + m"] exI [of _ l] exI [of _ n]) (simp_all add: ac_simps)
  qed
qed

lemma decode_step_deliver:
  assumes "qmap_decode_step q a d = DecDeliver p n"
  shows "delivered_from q d p \<and> 4 \<le> n \<and> n \<le> length d"
proof -
  define m where "m = (ucast (fld8 d (Suc 0)) - ucast QUECTEL_QMAP_MUX_ID :: u32)"
  define sl where "sl = q_mpQmapNetDev q ! unat m"
  define w where "w = be16_of (fld8 d 2) (fld8 d 3)"
  define sz where "sz = (ucast w - ucast (mh_pad_len (fld8 d 0))) - dl_min_padding q"
  define hs :: nat where "hs = (if mh_next_hdr (fld8 d 0) then 8 else 4)"
  note defs = m_def [symmetric] w_def [symmetric] sl_def [symmetric] sz_def [symmetric]
  obtain dev where dev: "\<not> q_qmap_mode q \<le> m" "slot_net q sl = Some dev" "\<not> nd_mtu dev < sz"
      "\<not> length d < unat w + hs" "\<not> length d < hs + unat sz" "n = unat w + hs" "rx_dev p = unat m"
      "rx_frame q sl dev (rx_protocol p) (take (unat sz) (drop hs d)) = Some (rx_data p)"
    using assms by (auto simp: qmap_decode_step_def Let_def defs hs_def split: if_split_asm option.split_asm)
  have "4 \<le> hs" by (simp add: hs_def)
  moreover have "delivered_from q d p"
    using dev unfolding delivered_from_def sl_def
    by (intro conjI exI [of _ hs] exI [of _ "unat sz"] exI [of _ dev])
      (simp_all add: word_le_nat_alt word_less_nat_alt)
  ultimately show ?thesis using dev by simp
qed

lemma empty_v5_tail_drop: "\<exists>k. empty_v5_tail (drop k (drop m d)) \<Longrightarrow> \<exists>k. empty_v5_tail (drop k d)"
  by (metis drop_drop)

lemma decode_spec:
  assumes "qmap_wf q" "sane_sizes q" "all_registered q"
  shows "case qmap_packet_decode q alloc d of None \<Rightarrow> False
     | Some (fault, chain) \<Rightarrow> list_all (delivered_from q d) chain \<and> 4 * length chain \<le> length d \<and>
         (fault \<longrightarrow> (\<exists>k. empty_v5_tail (drop k d)))"
proof (induction "length d" arbitrary: d alloc rule: less_induct)
  case less
  note reg = assms(3)
  let ?next = "\<lambda>n. qmap_packet_decode q (\<lambda>i. alloc (Suc i)) (drop n d)"
  show ?case
  proof (cases "4 < length d")
    case True
    have IH: "\<exists>fault chain. ?next n = Some (fault, chain) \<and> list_all (delivered_from q d) chain
        \<and> 4 * length chain + n \<le> length d \<and> (fault \<longrightarrow> (\<exists>k. empty_v5_tail (drop k d)))"
      if "4 \<le> n" "n \<le> length d" for n
    proof -
      have "length (drop n d) < length d" using that True by simp
      note less.hyps [OF this, of "\<lambda>i. alloc (Suc i)"]
      then obtain fault chain where r: "?next n = Some (fault, chain)" "list_all (delivered_from q (drop n d)) chain"
          "4 * length chain \<le> length d - n" "fault \<longrightarrow> (\<exists>k. empty_v5_tail (drop k (drop n d)))"
        by (auto split: option.splits)
      moreover have "list_all (delivered_from q d) chain"
        using r(2) by (rule list.pred_mono_strong) (rule delivered_from_drop)
      moreover have "4 * length chain + n \<le> length d" using r(3) that by linarith
      ultimately show ?thesis using empty_v5_tail_drop by blast
    qed
    show ?thesis
    proof (cases "qmap_decode_step q (alloc 0) d")
      case DecFault
      then have "empty_v5_tail d" using decode_step_fault assms True by blast
      then have "\<exists>k. empty_v5_tail (drop k d)" by (metis drop0)
      with DecFault True show ?thesis by (subst qmap_packet_decode.simps) simp
    next
      case (DecSkip n)
      have "4 \<le> n \<and> n \<le> length d" using decode_step_pull(1) [OF reg True DecSkip] .
      with IH [of n] DecSkip True show ?thesis
        by (subst qmap_packet_decode.simps) (auto simp: pull_in_def)
    next
      case (DecDeliver p n)
      note n = decode_step_deliver [OF DecDeliver]
      with IH [of n] DecDeliver True show ?thesis
        by (subst qmap_packet_decode.simps) (auto simp: pull_in_def)
    qed (subst qmap_packet_decode.simps, simp add: True)
  qed (subst qmap_packet_decode.simps, simp)
qed


section \<open>Headers the driver adds\<close>

lemma qmap_pad_le: "qmap_pad s \<le> 3 \<and> qmap_pad s \<le> length (s_tail s)"
proof -
  have "4 - length (s_data s) mod 4 \<le> 3" if "length (s_data s) mod 4 \<noteq> 0" using that by linarith
  then show ?thesis by (auto simp: qmap_pad_def Let_def skb_tailroom_def)
qed

text \<open>Adding a header panics exactly without head room; otherwise it yields the encoding above.\<close>

definition add_hdr :: "bool \<Rightarrow> skb \<Rightarrow> byte \<Rightarrow> skb option" where
  "add_hdr v5 = (if v5 then add_qhdr_v5 else add_qhdr)"

lemma add_hdr_data:
  assumes "dl_min_padding q = 0" "add_hdr v5 s (QUECTEL_QMAP_MUX_ID + of_nat i) = Some s'"
  shows "s_data s' = qmap_enc q v5 (i, s_data s, take (qmap_pad s) (s_tail s))"
  using assms qmap_pad_le [of s]
  by (auto simp: add_hdr_def add_qhdr_def add_qhdr_v5_def Let_def skb_push_def skb_put_raw_def qmap_enc_def
      min_absorb2 split: if_splits)

lemma add_hdr_panics: "add_hdr v5 s mux = None \<longleftrightarrow> s_headroom s < (if v5 then 8 else 4)"
  by (simp add: add_hdr_def add_qhdr_def add_qhdr_v5_def Let_def skb_push_def skb_put_raw_def)

lemma add_hdr_aligned:
  assumes "add_hdr v5 s mux = Some s'" "3 \<le> skb_tailroom s"
  shows "length (s_data s') mod 4 = 0"
proof -
  define r where "r = length (s_data s) mod 4"
  define l where "l = length (s_data s) div 4"
  have len: "length (s_data s) = 4 * l + r" "r < 4" by (simp_all add: r_def l_def)
  have "length (s_data s') = length (s_data s) + qmap_pad s + (if v5 then 8 else 4)"
    using assms(1) qmap_pad_le [of s]
    by (auto simp: add_hdr_def add_qhdr_def add_qhdr_v5_def Let_def skb_push_def skb_put_raw_def min_absorb2
        split: if_splits)
  moreover have "qmap_pad s = (if r = 0 then 0 else 4 - r)"
    using assms(2) len(2) by (auto simp: qmap_pad_def Let_def r_def [symmetric])
  ultimately show ?thesis using len by (auto split: if_splits)
qed

section \<open>Addresses and IP headers\<close>

lemma iphdr_nibble_all:
  "list_all (\<lambda>k. (of_nat k AND (0xd0 :: byte) = 0x40) = (of_nat k AND (0xf0 :: byte) = 0x40 \<or> of_nat k AND (0xf0 :: byte) = 0x60))
     [0..<256]"
  by code_simp

lemma possibly_iphdr_iff: "possibly_iphdr a \<longleftrightarrow> ip_protocol_of (fld8 a 0) \<noteq> None"
proof -
  have "unat (fld8 a 0) \<in> set [0..<256]" by simp
  from bspec [OF iphdr_nibble_all [unfolded list_all_iff] this]
  have "(fld8 a 0 AND 0xd0 = 0x40) = (fld8 a 0 AND 0xf0 = 0x40 \<or> fld8 a 0 AND 0xf0 = 0x60)"
    by simp
  then show ?thesis by (simp add: possibly_iphdr_def ip_protocol_of_def)
qed

lemma bind_fix_addr_ok: "a \<noteq> [] \<Longrightarrow> random \<noteq> [] \<Longrightarrow> \<not> possibly_iphdr (bind_fix_addr random a)"
proof -
  have "((b OR 0x02) AND 0xbf) AND 0xd0 \<noteq> (0x40 :: byte)" for b
  proof
    assume "((b OR 0x02) AND 0xbf) AND 0xd0 = (0x40 :: byte)"
    then have "bit (((b OR 0x02) AND 0xbf) AND 0xd0) 6 = bit (0x40 :: byte) 6" by simp
    then show False by (simp add: bit_simps)
  qed
  then show ?thesis by (simp add: bind_fix_addr_def Let_def possibly_iphdr_def fld8_def)
qed

lemma rx_fixup_ip:
  assumes "ip_protocol_of (fld8 (s_data s) 0) = Some proto" "s_data s \<noteq> []" "ETH_HLEN \<le> s_headroom s"
    and "unat (nd_hard_header_len (q_net q)) \<le> length (s_data s)"
  shows "qmi_wwan_rx_fixup q s = rx_add_header q proto s"
  using assms by (auto simp: qmi_wwan_rx_fixup_def Let_def ip_protocol_of_def split: if_splits)

section \<open>Bridging one client\<close>

definition dhcp_broadcast :: "byte list \<Rightarrow> bool" where
  "dhcp_broadcast d \<longleftrightarrow> h_proto d = ETH_P_IP \<and> fld8 d 23 = 17 \<and> bytes_at d 26 4 = [0, 0, 0, 0]
     \<and> bytes_at d 30 4 = [255, 255, 255, 255]"

fun bridge_run :: "u32 \<Rightarrow> byte list \<Rightarrow> byte list list \<Rightarrow> byte list list" where
  "bridge_run ipv4 mac [] = []"
| "bridge_run ipv4 mac (d # ds) = (case bridge_mode_tx_fixup d ipv4 mac of
     (pass, mac', reply) \<Rightarrow> (if pass then [d] else []) @ bridge_run ipv4 mac' ds)"

lemma bridge_run_filter:
  "list_all (\<lambda>d. dhcp_broadcast d \<longrightarrow> h_source d = mac) ds \<Longrightarrow>
   bridge_run ipv4 mac ds = filter (\<lambda>d. h_proto d \<noteq> ETH_P_ARP \<and> h_source d = mac) ds"
proof (induction ds)
  case (Cons d ds)
  then show ?case
    by (cases "dhcp_broadcast d") (auto simp: bridge_mode_tx_fixup_def dhcp_broadcast_def Let_def)
qed simp

section \<open>Properties\<close>

text \<open>
  C4. Whatever sequence of packets the modem aggregates into a frame, with QMAP v1 or v5
  headers, the decoder delivers exactly those packets, in order, each to the device of its
  multiplexer id behind that device's Ethernet header, and without its padding.
\<close>

theorem qmap_decode_roundtrip:
  assumes "list_all (qmap_ok q) xs"
  shows "qmap_packet_decode q (\<lambda>_. True) (concat (map (qmap_enc q v5) xs)) = Some (False, map (qmap_view q) xs)"
  using assms by (rule decode_concat)

definition sample_net :: net_device where
  "sample_net = \<lparr>nd_mtu = 1500, nd_ether = True, nd_hard_header_len = 14, nd_addr = [2, 1, 2, 3, 4, 5],
     nd_up = True, nd_carrier = True, nd_stopped = False\<rparr>"

definition sample_priv :: "byte \<Rightarrow> qmap_priv" where
  "sample_priv i = \<lparr>offset_id = i, mux_id = QUECTEL_QMAP_MUX_ID + i, qmap_version = 9, link_state = 1,
     agg_skb = None, agg_count = 0, agg_time = 0, agg_hrtimer = False, agg_wq = False, bridge_mode = 0, bridge_ipv4 = 0,
     bridge_mac = replicate 6 0, tx_packets = 0, tx_bytes = 0, tx_errors = 0\<rparr>"

definition sample_dev :: sQmiWwanQmap where
  "sample_dev = \<lparr>q_net = sample_net, q_noarp = True,
     q_mpQmapNetDev = [SubDev sample_net (sample_priv 0), SubDev sample_net (sample_priv 1), NoDev, NoDev],
     q_link_state = 3, q_qmap_mode = 2, q_qmap_size = 31744, q_qmap_version = 9,
     q_tx_ctx = \<lparr>ul_data_aggregation_max_datagrams = 11, ul_data_aggregation_max_size = 8192,
       dl_minimum_padding = 0\<rparr>,
     q_bridge_mode = 0, q_bridge_ipv4 = 0, q_bridge_mac = replicate 6 0, q_use_rmnet_usb = True\<rparr>"

lemmas sample_simps = sample_dev_def sample_net_def sample_priv_def slot_net_def dl_min_padding_def

theorem qmap_decode_roundtrip_witness:
  "let xs = [(0, [0x45, 1, 2], [0]), (1, [0x60, 7], [9, 9])] in
   list_all (qmap_ok sample_dev) xs \<and>
   qmap_packet_decode sample_dev (\<lambda>_. True) (concat (map (qmap_enc sample_dev True) xs))
     = Some (False, map (qmap_view sample_dev) xs)"
proof -
  have "list_all (qmap_ok sample_dev) [(0, [0x45, 1, 2], [0]), (1, [0x60, 7], [9, 9])]"
    by (simp add: qmap_ok_def qmap_wf_def sample_simps ip_protocol_of_def QUECTEL_WWAN_QMAP_def)
  from qmap_decode_roundtrip [OF this, of True] this show ?thesis by (simp only: Let_def simp_thms)
qed

text \<open>
  C30. On any bytes at all the decoder ends, provided every multiplexed device is registered
  (and its sizes are below the signed range): every delivered packet is a block of the frame
  no longer than its device's MTU, there are at most a quarter as many packets as bytes, and a
  read past the frame happens only for an empty v5 packet that ends it.
\<close>

theorem qmap_decode_any_bytes:
  assumes "qmap_wf q" "sane_sizes q" "all_registered q"
  shows "\<exists>fault chain. qmap_packet_decode q alloc d = Some (fault, chain) \<and>
     list_all (delivered_from q d) chain \<and> 4 * length chain \<le> length d \<and>
     (fault \<longrightarrow> (\<exists>k. empty_v5_tail (drop k d)))"
  using decode_spec [OF assms, where alloc = alloc and d = d] by (auto split: option.splits)

theorem qmap_decode_any_bytes_witness:
  "\<exists>fault chain. qmap_packet_decode sample_dev (\<lambda>_. True) [0x40, 0x81, 0, 0, 4, 0, 0, 0] = Some (fault, chain) \<and>
     list_all (delivered_from sample_dev [0x40, 0x81, 0, 0, 4, 0, 0, 0]) chain \<and>
     4 * length chain \<le> length [0x40, 0x81, 0, 0, 4, 0, 0, 0 :: byte] \<and>
     (fault \<longrightarrow> (\<exists>k. empty_v5_tail (drop k [0x40, 0x81, 0, 0, 4, 0, 0, 0])))"
proof -
  have "qmap_wf sample_dev" by code_simp
  moreover have "sane_sizes sample_dev" by (simp add: sane_sizes_def sample_simps)
  moreover have "all_registered sample_dev" by code_simp
  ultimately show ?thesis by (rule qmap_decode_any_bytes)
qed




text \<open>
  The receive fixup adds an Ethernet header exactly when one is missing: a raw IP packet
  gets the device's address, the modem's address and its protocol in front, and a frame that
  already carries the device's address, any address the driver accepts with
  \<open>qmi_wwan_mac_addr\<close>, passes unchanged.
\<close>

theorem rx_fixup_header_iff_missing:
  assumes "qmi_wwan_mac_addr prepare n a = (0, q_net q)" "length a = 6"
    and "q_qmap_mode q = 0" "\<not> q_use_rmnet_usb q" "q_bridge_mode q = 0"
    and "unat (nd_hard_header_len (q_net q)) \<le> length (s_data s)" "ETH_HLEN \<le> s_headroom s" "s_data s \<noteq> []"
  shows "case ip_protocol_of (fld8 (s_data s) 0) of
      Some proto \<Rightarrow> (case qmi_wwan_rx_fixup q s of
           RxKeep s' \<Rightarrow> s_data s' = a @ default_modem_addr @ be16_bytes proto @ s_data s
         | _ \<Rightarrow> False)
    | None \<Rightarrow> take 6 (s_data s) = a \<longrightarrow> qmi_wwan_rx_fixup q s = RxKeep s"
proof -
  have a: "nd_addr (q_net q) = a" "\<not> possibly_iphdr a"
    using assms(1) by (auto simp: qmi_wwan_mac_addr_def EADDRNOTAVAIL_def split: if_splits
        dest!: arg_cong [where f = nd_addr])
  show ?thesis
  proof (cases "ip_protocol_of (fld8 (s_data s) 0)")
    case None
    have "qmi_wwan_rx_fixup q s = RxKeep s" if t: "take 6 (s_data s) = a"
    proof -
      have "a @ drop 6 (s_data s) = s_data s" using t append_take_drop_id by metis
      then have "s\<lparr>s_data := a @ drop 6 (s_data s)\<rparr> = s" by simp
      then show ?thesis
        using None assms a
        by (auto simp: qmi_wwan_rx_fixup_def Let_def ip_protocol_of_def fix_dest_def
            bridge_mode_rx_fixup_def slot_net_def split: if_splits)
    qed
    with None show ?thesis by simp
  next
    case (Some proto)
    then show ?thesis
      using rx_fixup_ip [OF Some assms(8,7,6)] assms a
      by (simp add: rx_add_header_def fix_dest_def skb_push_def bridge_mode_rx_fixup_def slot_net_def
          ETH_HLEN_def default_modem_addr_def)
  qed
qed

definition sample_plain :: sQmiWwanQmap where
  "sample_plain = sample_dev\<lparr>q_qmap_mode := 0, q_use_rmnet_usb := False\<rparr>"

theorem rx_fixup_header_iff_missing_witness:
  "case qmi_wwan_rx_fixup sample_plain \<lparr>s_headroom = 32, s_data = replicate 20 0x45, s_tail = [], s_protocol = 0\<rparr> of
      RxKeep s' \<Rightarrow> s_data s' = [2, 1, 2, 3, 4, 5] @ default_modem_addr @ be16_bytes ETH_P_IP @ replicate 20 0x45
    | _ \<Rightarrow> False"
proof -
  let ?s = "\<lparr>s_headroom = 32, s_data = replicate 20 0x45, s_tail = [], s_protocol = 0\<rparr>"
  have "qmi_wwan_mac_addr 0 sample_net [2, 1, 2, 3, 4, 5] = (0, q_net sample_plain)" by code_simp
  moreover have "length [2, 1, 2, 3, 4, 5 :: byte] = 6" by simp
  moreover have "q_qmap_mode sample_plain = 0" "\<not> q_use_rmnet_usb sample_plain" "q_bridge_mode sample_plain = 0"
    "unat (nd_hard_header_len (q_net sample_plain)) \<le> length (s_data ?s)"
    by (simp_all add: sample_plain_def sample_simps)
  moreover have "ETH_HLEN \<le> s_headroom ?s" "s_data ?s \<noteq> []" by (simp_all add: ETH_HLEN_def)
  ultimately have r: "case ip_protocol_of (fld8 (s_data ?s) 0) of
      Some proto \<Rightarrow> (case qmi_wwan_rx_fixup sample_plain ?s of
           RxKeep s' \<Rightarrow> s_data s' = [2, 1, 2, 3, 4, 5] @ default_modem_addr @ be16_bytes proto @ s_data ?s
         | _ \<Rightarrow> False)
    | None \<Rightarrow> take 6 (s_data ?s) = [2, 1, 2, 3, 4, 5] \<longrightarrow> qmi_wwan_rx_fixup sample_plain ?s = RxKeep ?s"
    by (rule rx_fixup_header_iff_missing)
  have "ip_protocol_of (fld8 (s_data ?s) 0) = Some ETH_P_IP" by code_simp
  with r show ?thesis by (simp only: option.case skb.simps)
qed

text \<open>
  In bridge mode one client uses the link: until another client broadcasts a DHCP
  request, exactly the frames of the client whose address was learned go out, ARP excepted.
\<close>

theorem bridge_single_client:
  assumes "list_all (\<lambda>d. dhcp_broadcast d \<longrightarrow> h_source d = mac) ds"
  shows "bridge_run ipv4 mac ds = filter (\<lambda>d. h_proto d \<noteq> ETH_P_ARP \<and> h_source d = mac) ds"
  using assms by (rule bridge_run_filter)

theorem bridge_single_client_witness:
  "bridge_run 0 [1, 1, 1, 1, 1, 1] [replicate 12 1 @ [8, 0, 0x45], replicate 12 1 @ [8, 6], replicate 12 2 @ [8, 0]]
     = [replicate 12 1 @ [8, 0, 0x45]]"
proof -
  have "list_all (\<lambda>d. dhcp_broadcast d \<longrightarrow> h_source d = [1, 1, 1, 1, 1, 1])
      [replicate 12 1 @ [8, 0, 0x45], replicate 12 1 @ [8, 6], replicate 12 2 @ [8, 0]]"
    by code_simp
  note run = bridge_single_client [OF this, of 0]
  have "filter (\<lambda>d. h_proto d \<noteq> ETH_P_ARP \<and> h_source d = [1, 1, 1, 1, 1, 1])
      [replicate 12 1 @ [8, 0, 0x45], replicate 12 1 @ [8, 6], replicate 12 2 @ [8, 0]]
      = [replicate 12 1 @ [8, 0, 0x45]]"
    by code_simp
  with run show ?thesis by (rule trans)
qed

end
