(* ===== verification/RmnetUsb.thy ===== *)
theory RmnetUsb
  imports Qmap
begin

text \<open>
  The multiplexed network devices of \<open>qmi_wwan_q.c\<close>: transmission with uplink aggregation
  (\<open>rmnet_vnd_start_xmit\<close>, \<open>rmnet_usb_tx_agg\<close>, the flush timer and its work), opening and
  closing, the link state attribute, registration and removal. The kernel's answers are
  arguments: the clock, the result of each allocation and of each \<open>dev_queue_xmit\<close>, and the
  tail room \<open>room n\<close> of a buffer allocated for \<open>n\<close> bytes. \<open>None\<close> is a kernel panic.
\<close>

section \<open>Uplink aggregation\<close>

definition psh :: "byte list \<Rightarrow> nat \<Rightarrow> bool" where
  "psh d tcp = (fld8 d (tcp + 13) AND 0x08 \<noteq> 0)"

definition rmnet_usb_tx_agg_skip :: "skb \<Rightarrow> nat \<Rightarrow> bool" where
  "rmnet_usb_tx_agg_skip s off =
     (let d = s_data s in
      if s_protocol s = ETH_P_IP then
        (if fld8 d (off + 9) = 6 then psh d (off + 20) else fld8 d (off + 9) = 1)
      else if s_protocol s = ETH_P_IPV6 then
        (if fld8 d (off + 6) = 6 then psh d (off + 40)
         else if fld8 d (off + 6) = 58 then True
         else fld8 d (off + 6) = 44 \<and> fld8 d (off + 40) = 58)
      else False)"

definition agg_time_limit :: int where "agg_time_limit = 1000000"
definition agg_bypass_time :: int where "agg_bypass_time = 10000000"

text \<open>\<open>diff.tv_sec > 0 || diff.tv_nsec > limit\<close> for the normalised difference of two times.\<close>

definition elapsed :: "int \<Rightarrow> int \<Rightarrow> int \<Rightarrow> bool" where
  "elapsed now t limit = ((now - t) div 1000000000 > 0 \<or> (now - t) mod 1000000000 > limit)"

definition agg_skip_now :: "bool \<Rightarrow> skb \<Rightarrow> bool" where
  "agg_skip_now xmit_more s = (\<not> xmit_more \<and>
     rmnet_usb_tx_agg_skip s (if mh_next_hdr (fld8 (s_data s) 0) then 8 else 4))"

record tx_env =
  e_xmit_more :: bool
  e_now :: "nat \<Rightarrow> int"        \<comment> \<open>the clock, read once a pass\<close>
  e_alloc :: bool              \<comment> \<open>\<open>alloc_skb\<close> succeeds\<close>
  e_err :: "nat \<Rightarrow> bool"       \<comment> \<open>\<open>dev_queue_xmit\<close> of a pass fails\<close>

text \<open>
  One pass from the label \<open>new_packet\<close>: the new state, the packet if it is still to be
  queued, and the frame to transmit.
\<close>

definition agg_append ::
  "tx_agg_ctx \<Rightarrow> tx_env \<Rightarrow> int \<Rightarrow> qmap_priv \<Rightarrow> byte list \<Rightarrow> nat \<Rightarrow> skb
     \<Rightarrow> (qmap_priv \<times> skb option \<times> byte list option) option" where
  "agg_append ctx e now p buf tail s =
     (let len = length (s_data s) in
      if (of_nat (length buf + len) :: u32) < ul_data_aggregation_max_size ctx then
        if tail < len then None
        else let buf' = buf @ s_data s; cnt = agg_count p + 1 in
          if elapsed now (agg_time p) agg_time_limit \<or> cnt = ul_data_aggregation_max_datagrams ctx
             \<or> agg_skip_now (e_xmit_more e) s
          then Some (p\<lparr>agg_skb := None, agg_count := 0, agg_time := now\<rparr>, None, Some buf')
          else Some (p\<lparr>agg_skb := Some (buf', tail - len), agg_count := cnt\<rparr>, None, None)
      else Some (p\<lparr>agg_skb := None, agg_count := 0, agg_time := now\<rparr>, Some s, Some buf))"

definition agg_start ::
  "(nat \<Rightarrow> nat) \<Rightarrow> tx_agg_ctx \<Rightarrow> tx_env \<Rightarrow> int \<Rightarrow> qmap_priv \<Rightarrow> skb
     \<Rightarrow> (qmap_priv \<times> skb option \<times> byte list option) option" where
  "agg_start room ctx e now p s =
     (let len = length (s_data s); tail = room (unat (ul_data_aggregation_max_size ctx)) in
      if elapsed now (agg_time p) agg_bypass_time \<or> agg_skip_now (e_xmit_more e) s \<or> \<not> e_alloc e then
        Some (p\<lparr>agg_time := now\<rparr>, None, Some (s_data s))
      else if tail < len then None
      else Some (p\<lparr>agg_skb := Some (s_data s, tail - len), agg_count := agg_count p + 1\<rparr>, None, None))"

definition agg_pass ::
  "(nat \<Rightarrow> nat) \<Rightarrow> tx_agg_ctx \<Rightarrow> tx_env \<Rightarrow> nat \<Rightarrow> qmap_priv \<Rightarrow> skb
     \<Rightarrow> (qmap_priv \<times> skb option \<times> byte list option) option" where
  "agg_pass room ctx e k p s =
     (case agg_skb p of
        Some (buf, tail) \<Rightarrow> agg_append ctx e (e_now e k) p buf tail s
      | None \<Rightarrow> agg_start room ctx e (e_now e k) p s)"

definition xmit_account :: "bool \<Rightarrow> byte list option \<Rightarrow> qmap_priv \<Rightarrow> qmap_priv" where
  "xmit_account err sent p = (if sent \<noteq> None \<and> err then p\<lparr>tx_errors := tx_errors p + 1\<rparr> else p)"

lemma xmit_account_agg [simp]:
  "agg_skb (xmit_account err sent p) = agg_skb p" "agg_count (xmit_account err sent p) = agg_count p"
  "agg_hrtimer (xmit_account err sent p) = agg_hrtimer p" "agg_wq (xmit_account err sent p) = agg_wq p"
  by (simp_all add: xmit_account_def)

lemma agg_pass_again:
  "agg_pass room ctx e k p s = Some (p', Some s', sent) \<Longrightarrow> agg_skb p \<noteq> None \<and> agg_skb p' = None \<and> s' = s"
  by (auto simp: agg_pass_def agg_append_def agg_start_def Let_def split: option.splits if_splits)

function agg_loop ::
  "(nat \<Rightarrow> nat) \<Rightarrow> tx_agg_ctx \<Rightarrow> tx_env \<Rightarrow> nat \<Rightarrow> qmap_priv \<Rightarrow> skb \<Rightarrow> (qmap_priv \<times> byte list list) option" where
  "agg_loop room ctx e k p s =
     (case agg_pass room ctx e k p s of
        None \<Rightarrow> None
      | Some (p1, left, sent) \<Rightarrow>
          let p2 = xmit_account (e_err e k) sent p1;
              out = (case sent of None \<Rightarrow> [] | Some f \<Rightarrow> [f]) in
          (case left of
             None \<Rightarrow> Some (p2, out)
           | Some s1 \<Rightarrow> (case agg_loop room ctx e (Suc k) p2 s1 of
                 None \<Rightarrow> None | Some (p3, out') \<Rightarrow> Some (p3, out @ out'))))"
  by pat_completeness auto
termination
  by (relation "measure (\<lambda>(room, ctx, e, k, p, s). if agg_skb p = None then 0 else 1)")
    (auto dest: agg_pass_again)

declare agg_loop.simps [simp del]

definition rmnet_vnd_update_tx_stats :: "qmap_priv \<Rightarrow> nat \<Rightarrow> nat \<Rightarrow> qmap_priv" where
  "rmnet_vnd_update_tx_stats p packets bytes =
     p\<lparr>tx_packets := tx_packets p + packets, tx_bytes := tx_bytes p + bytes\<rparr>"

definition rmnet_usb_tx_agg ::
  "(nat \<Rightarrow> nat) \<Rightarrow> tx_agg_ctx \<Rightarrow> tx_env \<Rightarrow> qmap_priv \<Rightarrow> skb \<Rightarrow> (qmap_priv \<times> byte list list) option" where
  "rmnet_usb_tx_agg room ctx e p0 s =
     (let p = rmnet_vnd_update_tx_stats p0 1 (length (s_data s)) in
      if ul_data_aggregation_max_datagrams ctx = 1 then
        Some (xmit_account (e_err e 0) (Some (s_data s)) p, [s_data s])
      else case agg_loop room ctx e 0 p s of
          None \<Rightarrow> None
        | Some (p', out) \<Rightarrow>
            Some (if agg_skb p' \<noteq> None then p'\<lparr>agg_hrtimer := True\<rparr> else p', out))"

definition rmnet_usb_tx_agg_timer_cb :: "qmap_priv \<Rightarrow> qmap_priv" where
  "rmnet_usb_tx_agg_timer_cb p = p\<lparr>agg_hrtimer := False, agg_wq := True\<rparr>"

definition rmnet_usb_tx_agg_work :: "int \<Rightarrow> bool \<Rightarrow> qmap_priv \<Rightarrow> qmap_priv \<times> byte list list" where
  "rmnet_usb_tx_agg_work now err p0 =
     (let p = p0\<lparr>agg_wq := False\<rparr> in
      case agg_skb p of
        None \<Rightarrow> (p, [])
      | Some (buf, tail) \<Rightarrow>
          (xmit_account err (Some buf) (p\<lparr>agg_skb := None, agg_count := 0, agg_time := now\<rparr>), [buf]))"

text \<open>
  \<open>rmnet_vnd_start_xmit\<close>: the device and its private data after the call, the result for the
  stack, an ARP reply and the frames handed to the USB device.
\<close>

datatype netdev_tx = NETDEV_TX_OK | NETDEV_TX_BUSY

record xmit_result =
  x_net :: net_device
  x_priv :: qmap_priv
  x_ret :: netdev_tx
  x_arp :: "arp_args option"
  x_frames :: "byte list list"

definition xmit_strip :: "net_device \<Rightarrow> qmap_priv \<Rightarrow> skb \<Rightarrow> qmap_priv \<times> arp_args option \<times> skb option" where
  "xmit_strip n p s =
     (if nd_ether n then
        let (pass, mac, reply) = (if bridge_mode p \<noteq> 0
              then bridge_mode_tx_fixup (s_data s) (bridge_ipv4 p) (bridge_mac p)
              else (True, bridge_mac p, None))
        in (p\<lparr>bridge_mac := mac\<rparr>, reply, if pass then skb_pull ETH_HLEN s else None)
      else (p, None, Some s))"

definition rmnet_vnd_start_xmit ::
  "(nat \<Rightarrow> nat) \<Rightarrow> tx_agg_ctx \<Rightarrow> tx_env \<Rightarrow> net_device \<Rightarrow> net_device \<Rightarrow> qmap_priv \<Rightarrow> skb \<Rightarrow> xmit_result option" where
  "rmnet_vnd_start_xmit room ctx e real n p s =
     (if nd_stopped real then
        Some \<lparr>x_net = n\<lparr>nd_stopped := True\<rparr>, x_priv = p, x_ret = NETDEV_TX_BUSY, x_arp = None, x_frames = []\<rparr>
      else let (p1, reply, stripped) = xmit_strip n p s;
               dropped = Some \<lparr>x_net = n, x_priv = p1, x_ret = NETDEV_TX_OK, x_arp = reply, x_frames = []\<rparr> in
        case stripped of
          None \<Rightarrow> dropped
        | Some s1 \<Rightarrow>
            if qmap_version p1 \<noteq> 5 \<and> qmap_version p1 \<noteq> 9 then dropped
            else case (if qmap_version p1 = 5 then add_qhdr s1 (mux_id p1) else add_qhdr_v5 s1 (mux_id p1)) of
                None \<Rightarrow> None
              | Some s2 \<Rightarrow> (case rmnet_usb_tx_agg room ctx e p1 s2 of
                    None \<Rightarrow> None
                  | Some (p2, out) \<Rightarrow>
                      Some \<lparr>x_net = n, x_priv = p2, x_ret = NETDEV_TX_OK, x_arp = reply, x_frames = out\<rparr>))"

section \<open>Settings\<close>

record QMAP_SETTING =
  qs_size :: u32
  qs_max_datagrams :: u32
  qs_max_size :: u32
  qs_dl_minimum_padding :: u32

definition EOPNOTSUPP :: int where "EOPNOTSUPP = 95"

definition qma_setting_store :: "u32 \<Rightarrow> QMAP_SETTING \<Rightarrow> tx_agg_ctx \<Rightarrow> int \<times> tx_agg_ctx" where
  "qma_setting_store len st ctx =
     (if qs_size st \<noteq> len then (- EOPNOTSUPP, ctx)
      else (0, if ul_data_aggregation_max_datagrams ctx = 1 \<and> 1 < qs_max_datagrams st then
                 \<lparr>ul_data_aggregation_max_datagrams = qs_max_datagrams st,
                  ul_data_aggregation_max_size = qs_max_size st,
                  dl_minimum_padding = qs_dl_minimum_padding st\<rparr>
               else ctx))"

section \<open>The transmit side as a transition system\<close>

text \<open>
  What can happen to one sub-device: the stack transmits, its timer expires, its work runs,
  the settings are stored. The machine state is the aggregation settings and the private data.
\<close>

datatype tx_event =
    EvXmit tx_env skb
  | EvTimer
  | EvWork int bool
  | EvSetting u32 QMAP_SETTING

fun tx_apply :: "(nat \<Rightarrow> nat) \<Rightarrow> tx_agg_ctx \<times> qmap_priv \<Rightarrow> tx_event
     \<Rightarrow> ((tx_agg_ctx \<times> qmap_priv) \<times> byte list list) option" where
  "tx_apply room (ctx, p) (EvXmit e s) =
     (case rmnet_usb_tx_agg room ctx e p s of None \<Rightarrow> None | Some (p', out) \<Rightarrow> Some ((ctx, p'), out))"
| "tx_apply room (ctx, p) EvTimer =
     Some ((ctx, if agg_hrtimer p then rmnet_usb_tx_agg_timer_cb p else p), [])"
| "tx_apply room (ctx, p) (EvWork now err) =
     Some (if agg_wq p then let (p', out) = rmnet_usb_tx_agg_work now err p in ((ctx, p'), out)
           else ((ctx, p), []))"
| "tx_apply room (ctx, p) (EvSetting len st) = Some ((snd (qma_setting_store len st ctx), p), [])"

fun tx_run :: "(nat \<Rightarrow> nat) \<Rightarrow> tx_agg_ctx \<times> qmap_priv \<Rightarrow> tx_event list
     \<Rightarrow> ((tx_agg_ctx \<times> qmap_priv) \<times> byte list list) option" where
  "tx_run room st [] = Some (st, [])"
| "tx_run room st (ev # evs) =
     (case tx_apply room st ev of
        None \<Rightarrow> None
      | Some (st', out) \<Rightarrow> (case tx_run room st' evs of
            None \<Rightarrow> None | Some (st'', out') \<Rightarrow> Some (st'', out @ out')))"

inductive tx_step :: "(nat \<Rightarrow> nat) \<Rightarrow> tx_agg_ctx \<times> qmap_priv \<Rightarrow> tx_agg_ctx \<times> qmap_priv \<Rightarrow> bool" for room where
  "tx_apply room st ev = Some (st', out) \<Longrightarrow> tx_step room st st'"

text \<open>Registration leaves the aggregation empty, with the settings of \<open>qmi_wwan_bind\<close>.\<close>

definition tx_init :: "tx_agg_ctx \<times> qmap_priv \<Rightarrow> bool" where
  "tx_init = (\<lambda>(ctx, p). ul_data_aggregation_max_datagrams ctx = 1 \<and> ul_data_aggregation_max_size ctx = 1500
     \<and> agg_skb p = None \<and> agg_count p = 0 \<and> \<not> agg_hrtimer p \<and> \<not> agg_wq p)"

section \<open>Frames are groups of packets\<close>

text \<open>
  The aggregation buffer as the list of packets it was filled with, and what makes a group of
  packets a frame the settings allow.
\<close>

definition frame_ok :: "tx_agg_ctx \<Rightarrow> byte list list \<Rightarrow> bool" where
  "frame_ok ctx g \<longleftrightarrow> length g = 1 \<or>
     (2 \<le> length g \<and> length g \<le> unat (ul_data_aggregation_max_datagrams ctx) \<and>
      (of_nat (length (concat g)) :: u32) < ul_data_aggregation_max_size ctx)"

definition agg_holds :: "tx_agg_ctx \<Rightarrow> qmap_priv \<Rightarrow> byte list list \<Rightarrow> bool" where
  "agg_holds ctx p cs \<longleftrightarrow>
     (case agg_skb p of
        None \<Rightarrow> cs = [] \<and> agg_count p = 0
      | Some (buf, tail) \<Rightarrow> frame_ok ctx cs \<and> buf = concat cs \<and> unat (agg_count p) = length cs
          \<and> length cs < unat (ul_data_aggregation_max_datagrams ctx))"

lemma unat_Suc_less: "unat (a :: u32) < unat (b :: u32) \<Longrightarrow> unat (a + 1) = Suc (unat a)"
proof -
  assume "unat a < unat b"
  then have "Suc (unat a) < 4294967296" using unat_u32_less [of b] by linarith
  then show ?thesis by (simp add: unat_word_ariths)
qed

lemma agg_holds_cong [simp]:
  "agg_holds ctx (xmit_account err sent p) cs = agg_holds ctx p cs"
  "agg_holds ctx (rmnet_vnd_update_tx_stats p a b) cs = agg_holds ctx p cs"
  "agg_holds ctx (p\<lparr>agg_hrtimer := x\<rparr>) cs = agg_holds ctx p cs"
  "agg_holds ctx (p\<lparr>agg_wq := y\<rparr>) cs = agg_holds ctx p cs"
  by (auto simp: agg_holds_def rmnet_vnd_update_tx_stats_def split: option.splits)

definition opt_list :: "'a option \<Rightarrow> 'a list" where
  "opt_list x = (case x of None \<Rightarrow> [] | Some y \<Rightarrow> [y])"

lemma frame_ok_snoc:
  assumes "frame_ok ctx cs" "length cs < unat (ul_data_aggregation_max_datagrams ctx)"
    and "(of_nat (length (concat cs) + length c) :: u32) < ul_data_aggregation_max_size ctx"
  shows "frame_ok ctx (cs @ [c])"
  using assms by (auto simp: frame_ok_def)

lemma agg_append_groups:
  assumes h: "agg_skb p = Some (buf, tail)" "agg_holds ctx p cs"
    and r: "agg_append ctx e now p buf tail s = Some (p', left, sent)"
  shows "\<exists>gs cs'. opt_list sent = map concat gs \<and> list_all (frame_ok ctx) gs \<and> agg_holds ctx p' cs' \<and>
     concat gs @ cs' @ map s_data (opt_list left) = cs @ [s_data s]"
proof -
  have cs: "frame_ok ctx cs" "buf = concat cs" "unat (agg_count p) = length cs"
      "length cs < unat (ul_data_aggregation_max_datagrams ctx)"
    using h by (auto simp: agg_holds_def)
  have cnt: "unat (agg_count p + 1) = Suc (length cs)"
    using cs(3,4) unat_Suc_less by metis
  let ?fits = "(of_nat (length buf + length (s_data s)) :: u32) < ul_data_aggregation_max_size ctx"
  let ?send = "elapsed now (agg_time p) agg_time_limit \<or> agg_count p + 1 = ul_data_aggregation_max_datagrams ctx
             \<or> agg_skip_now (e_xmit_more e) s"
  consider (full) "\<not> ?fits" "p' = p\<lparr>agg_skb := None, agg_count := 0, agg_time := now\<rparr>" "left = Some s" "sent = Some buf"
    | (send) ?fits ?send "p' = p\<lparr>agg_skb := None, agg_count := 0, agg_time := now\<rparr>" "left = None"
        "sent = Some (buf @ s_data s)"
    | (keep) ?fits "\<not> ?send" "left = None" "sent = None"
        "p' = p\<lparr>agg_skb := Some (buf @ s_data s, tail - length (s_data s)), agg_count := agg_count p + 1\<rparr>"
    using r by (auto simp: agg_append_def Let_def split: if_splits)
  then show ?thesis
  proof cases
    case full
    then show ?thesis
      using cs by (intro exI [of _ "[cs]"] exI [of _ "[]"]) (simp add: opt_list_def agg_holds_def)
  next
    case send
    then show ?thesis
      using cs frame_ok_snoc [OF cs(1,4), of "s_data s"]
      by (intro exI [of _ "[cs @ [s_data s]]"] exI [of _ "[]"]) (simp add: opt_list_def agg_holds_def)
  next
    case keep
    have "Suc (length cs) \<noteq> unat (ul_data_aggregation_max_datagrams ctx)"
      using keep(2) cnt by (metis word_unat_eq_iff)
    then show ?thesis
      using keep cs cnt frame_ok_snoc [OF cs(1,4), of "s_data s"]
      by (intro exI [of _ "[]"] exI [of _ "cs @ [s_data s]"]) (simp add: opt_list_def agg_holds_def)
  qed
qed

lemma agg_start_groups:
  assumes h: "agg_skb p = None" "agg_holds ctx p cs" "1 < ul_data_aggregation_max_datagrams ctx"
    and r: "agg_start room ctx e now p s = Some (p', left, sent)"
  shows "\<exists>gs cs'. opt_list sent = map concat gs \<and> list_all (frame_ok ctx) gs \<and> agg_holds ctx p' cs' \<and>
     concat gs @ cs' @ map s_data (opt_list left) = cs @ [s_data s]"
proof -
  have cs: "cs = []" "agg_count p = 0" using h by (auto simp: agg_holds_def)
  consider (send) "p' = p\<lparr>agg_time := now\<rparr>" "left = None" "sent = Some (s_data s)"
    | (keep) t where "left = None" "sent = None" "p' = p\<lparr>agg_skb := Some (s_data s, t), agg_count := agg_count p + 1\<rparr>"
    using r by (auto simp: agg_start_def Let_def split: if_splits)
  then show ?thesis
  proof cases
    case send
    then show ?thesis
      using cs h by (intro exI [of _ "[[s_data s]]"] exI [of _ "[]"]) (simp add: opt_list_def agg_holds_def frame_ok_def)
  next
    case keep
    then show ?thesis
      using cs h by (intro exI [of _ "[]"] exI [of _ "[s_data s]"])
        (simp add: opt_list_def agg_holds_def frame_ok_def word_less_nat_alt)
  qed
qed

lemma agg_loop_groups:
  "agg_loop room ctx e k p s = Some (p', out) \<Longrightarrow> agg_holds ctx p cs \<Longrightarrow> 1 < ul_data_aggregation_max_datagrams ctx \<Longrightarrow>
   \<exists>gs cs'. out = map concat gs \<and> list_all (frame_ok ctx) gs \<and> agg_holds ctx p' cs' \<and> concat gs @ cs' = cs @ [s_data s]"
proof (induction room ctx e k p s arbitrary: p' out cs rule: agg_loop.induct)
  case (1 room ctx e k p s)
  from 1(2) obtain p1 left sent where pass: "agg_pass room ctx e k p s = Some (p1, left, sent)"
    by (subst (asm) agg_loop.simps) (auto split: option.splits)
  obtain gs cs1 where g: "opt_list sent = map concat gs" "list_all (frame_ok ctx) gs" "agg_holds ctx p1 cs1"
      "concat gs @ cs1 @ map s_data (opt_list left) = cs @ [s_data s]"
    using pass agg_append_groups [OF _ 1(3)] agg_start_groups [OF _ 1(3,4)]
    by (auto simp: agg_pass_def split: option.splits prod.splits) blast+
  show ?case
  proof (cases left)
    case None
    then have "p' = xmit_account (e_err e k) sent p1" "out = opt_list sent"
      using 1(2) pass by (subst (asm) agg_loop.simps, auto simp: opt_list_def Let_def)+
    with g None show ?thesis by (auto simp: opt_list_def)
  next
    case (Some s1)
    then obtain out' where o: "agg_loop room ctx e (Suc k) (xmit_account (e_err e k) sent p1) s1 = Some (p', out')"
        "out = opt_list sent @ out'"
      using 1(2) pass by (subst (asm) agg_loop.simps) (auto simp: opt_list_def Let_def split: option.splits)
    have cs1: "s1 = s" "agg_holds ctx p1 cs1" using agg_pass_again [of room ctx e k p s p1 s1 sent] pass Some g by auto
    have "agg_holds ctx (xmit_account (e_err e k) sent p1) cs1" using g(3) by simp
    from 1(1) [OF pass refl refl refl refl Some o(1) this 1(4)]
    obtain gs' cs' where g': "out' = map concat gs'" "list_all (frame_ok ctx) gs'" "agg_holds ctx p' cs'"
        "concat gs' @ cs' = cs1 @ [s_data s1]"
      by blast
    show ?thesis
      using o(2) g g' Some cs1 by (intro exI [of _ "gs @ gs'"] exI [of _ cs']) (auto simp: opt_list_def)
  qed
qed


lemma rmnet_usb_tx_agg_groups:
  assumes "rmnet_usb_tx_agg room ctx e p s = Some (p', out)" "agg_holds ctx p cs"
    and "1 \<le> ul_data_aggregation_max_datagrams ctx"
  shows "\<exists>gs cs'. out = map concat gs \<and> list_all (frame_ok ctx) gs \<and> agg_holds ctx p' cs' \<and>
     concat gs @ cs' = cs @ [s_data s]"
proof (cases "ul_data_aggregation_max_datagrams ctx = 1")
  case True
  then have cs: "cs = []" using assms(2) by (auto simp: agg_holds_def frame_ok_def split: option.splits)
  show ?thesis
    using True assms cs
    by (intro exI [of _ "[[s_data s]]"] exI [of _ "[]"]) (auto simp: rmnet_usb_tx_agg_def Let_def frame_ok_def)
next
  case False
  then have "1 < ul_data_aggregation_max_datagrams ctx" using assms(3) by (simp add: order_le_less)
  moreover obtain p1 where l: "agg_loop room ctx e 0 (rmnet_vnd_update_tx_stats p 1 (length (s_data s))) s = Some (p1, out)"
      "p' = (if agg_skb p1 \<noteq> None then p1\<lparr>agg_hrtimer := True\<rparr> else p1)"
    using assms(1) False by (auto simp: rmnet_usb_tx_agg_def Let_def split: option.splits)
  ultimately show ?thesis
    using agg_loop_groups [OF l(1), of cs] assms(2) by (auto simp: l(2))
qed

lemma frame_ok_settings:
  "frame_ok ctx g \<Longrightarrow> frame_ok (snd (qma_setting_store len st ctx)) g"
  by (auto simp: qma_setting_store_def frame_ok_def)

lemma qma_setting_store_pos:
  "1 \<le> ul_data_aggregation_max_datagrams ctx \<Longrightarrow>
   1 \<le> ul_data_aggregation_max_datagrams (snd (qma_setting_store len st ctx))"
  by (auto simp: qma_setting_store_def)

lemma agg_holds_settings:
  "agg_holds ctx p cs \<Longrightarrow> agg_holds (snd (qma_setting_store len st ctx)) p cs"
  by (auto simp: qma_setting_store_def agg_holds_def frame_ok_def split: option.splits)

definition xmitted :: "tx_event list \<Rightarrow> byte list list" where
  "xmitted evs = concat (map (\<lambda>ev. case ev of EvXmit e s \<Rightarrow> [s_data s] | _ \<Rightarrow> []) evs)"

lemma tx_apply_groups:
  assumes "tx_apply room (ctx, p) ev = Some ((ctx', p'), out)" "agg_holds ctx p cs"
    and "1 \<le> ul_data_aggregation_max_datagrams ctx"
  shows "\<exists>gs cs'. out = map concat gs \<and> list_all (frame_ok ctx) gs \<and> agg_holds ctx' p' cs' \<and>
     concat gs @ cs' = cs @ xmitted [ev] \<and> 1 \<le> ul_data_aggregation_max_datagrams ctx'"
proof (cases ev)
  case (EvXmit e s)
  then show ?thesis
    using assms rmnet_usb_tx_agg_groups [of room ctx e p s p' out cs]
    by (auto simp: xmitted_def split: option.splits)
next
  case EvTimer
  then show ?thesis
    using assms by (intro exI [of _ "[]"] exI [of _ cs])
      (auto simp: xmitted_def rmnet_usb_tx_agg_timer_cb_def)
next
  case (EvWork now err)
  show ?thesis
  proof (cases "agg_wq p \<and> agg_skb p \<noteq> None")
    case True
    then show ?thesis
      using assms EvWork by (intro exI [of _ "[cs]"] exI [of _ "[]"])
        (auto simp: xmitted_def rmnet_usb_tx_agg_work_def agg_holds_def Let_def split: option.splits)
  next
    case False
    then show ?thesis
      using assms EvWork by (intro exI [of _ "[]"] exI [of _ cs])
        (auto simp: xmitted_def rmnet_usb_tx_agg_work_def Let_def split: if_splits option.splits)
  qed
next
  case (EvSetting len st)
  then show ?thesis
    using assms agg_holds_settings [of ctx p cs len st] qma_setting_store_pos [of ctx len st]
    by (intro exI [of _ "[]"] exI [of _ cs]) (auto simp: xmitted_def)
qed

lemma tx_apply_frame_ok:
  "tx_apply room (ctx, p) ev = Some ((ctx', p'), out) \<Longrightarrow> frame_ok ctx g \<Longrightarrow> frame_ok ctx' g"
  by (cases ev) (auto simp: frame_ok_settings Let_def split: option.splits if_splits prod.splits)

lemma tx_run_frame_ok:
  "tx_run room st evs = Some (st', out) \<Longrightarrow> frame_ok (fst st) g \<Longrightarrow> frame_ok (fst st') g"
proof (induction evs arbitrary: st out)
  case (Cons ev evs)
  then show ?case
    by (cases st) (auto split: option.splits, blast intro: tx_apply_frame_ok)
qed simp

lemma tx_run_groups:
  "tx_run room st evs = Some ((ctx', p'), out) \<Longrightarrow> agg_holds (fst st) (snd st) cs \<Longrightarrow>
   1 \<le> ul_data_aggregation_max_datagrams (fst st) \<Longrightarrow>
   \<exists>gs cs'. out = map concat gs \<and> list_all (frame_ok ctx') gs \<and> agg_holds ctx' p' cs' \<and>
     concat gs @ cs' = cs @ xmitted evs"
proof (induction evs arbitrary: st cs out)
  case Nil
  then show ?case by (intro exI [of _ "[]"] exI [of _ cs]) (auto simp: xmitted_def)
next
  case (Cons ev evs)
  then obtain ctx1 p1 out1 out2 where a: "tx_apply room (fst st, snd st) ev = Some ((ctx1, p1), out1)"
      "tx_run room (ctx1, p1) evs = Some ((ctx', p'), out2)" "out = out1 @ out2"
    by (auto split: option.splits)
  from tx_apply_groups [OF a(1) Cons.prems(2,3)] obtain gs1 cs1 where g1: "out1 = map concat gs1"
      "list_all (frame_ok (fst st)) gs1" "agg_holds ctx1 p1 cs1" "concat gs1 @ cs1 = cs @ xmitted [ev]"
      "1 \<le> ul_data_aggregation_max_datagrams ctx1"
    by blast
  obtain gs2 cs2 where g2: "out2 = map concat gs2" "list_all (frame_ok ctx') gs2" "agg_holds ctx' p' cs2"
      "concat gs2 @ cs2 = cs1 @ xmitted evs"
    using Cons.IH [OF a(2), of cs1] g1 by auto
  have "frame_ok (fst st) g \<Longrightarrow> frame_ok ctx' g" for g
    using tx_apply_frame_ok [OF a(1)] tx_run_frame_ok [OF a(2)] by simp
  then have ok: "list_all (frame_ok ctx') (gs1 @ gs2)"
    using g1(2) g2(2) by (auto simp: list_all_iff)
  have "concat (gs1 @ gs2) @ cs2 = (concat gs1 @ cs1) @ xmitted evs" using g2(4) by simp
  also have "\<dots> = cs @ xmitted (ev # evs)" using g1(4) by (simp add: xmitted_def)
  finally show ?case
    using a(3) g1(1) g2(1,3) ok by (intro exI [of _ "gs1 @ gs2"] exI [of _ cs2]) simp
qed

section \<open>The invariant\<close>

text \<open>
  The invariant: the buffer is a frame the settings allow with room for another datagram, and
  while it waits its flush timer runs or its flush work is pending.
\<close>

definition tx_inv :: "tx_agg_ctx \<times> qmap_priv \<Rightarrow> bool" where
  "tx_inv = (\<lambda>(ctx, p). 1 \<le> ul_data_aggregation_max_datagrams ctx \<and> (\<exists>cs. agg_holds ctx p cs) \<and>
     (agg_skb p \<noteq> None \<longrightarrow> agg_hrtimer p \<or> agg_wq p))"

lemma rmnet_usb_tx_agg_timer:
  assumes "rmnet_usb_tx_agg room ctx e p s = Some (p', out)"
    and "1 \<le> ul_data_aggregation_max_datagrams ctx" "agg_holds ctx p cs"
  shows "agg_skb p' \<noteq> None \<longrightarrow> agg_hrtimer p'"
proof (cases "ul_data_aggregation_max_datagrams ctx = 1")
  case True
  then have "agg_skb p = None" using assms(3) by (auto simp: agg_holds_def frame_ok_def split: option.splits)
  then show ?thesis using True assms(1) by (auto simp: rmnet_usb_tx_agg_def Let_def rmnet_vnd_update_tx_stats_def)
next
  case False
  then show ?thesis using assms(1) by (auto simp: rmnet_usb_tx_agg_def Let_def split: option.splits if_splits)
qed

lemma tx_apply_timer:
  assumes "tx_apply room (ctx, p) ev = Some ((ctx', p'), out)" "tx_inv (ctx, p)"
  shows "agg_skb p' \<noteq> None \<longrightarrow> agg_hrtimer p' \<or> agg_wq p'"
proof (cases ev)
  case (EvXmit e s)
  then show ?thesis
    using assms rmnet_usb_tx_agg_timer [of room ctx e p s p' out] by (auto simp: tx_inv_def split: option.splits)
qed (use assms in \<open>auto simp: tx_inv_def rmnet_usb_tx_agg_timer_cb_def rmnet_usb_tx_agg_work_def Let_def
      split: if_splits option.splits\<close>)

interpretation tx: inv_system tx_init "tx_step room" tx_inv for room
proof unfold_locales
  fix s
  show "tx_init s \<Longrightarrow> tx_inv s"
    by (auto simp: tx_init_def tx_inv_def agg_holds_def)
next
  fix s t
  assume "tx_step room s t" and inv: "tx_inv s"
  then obtain ev out where a: "tx_apply room (fst s, snd s) ev = Some ((fst t, snd t), out)"
    by (auto elim: tx_step.cases)
  then show "tx_inv t"
    using tx_apply_groups [OF a] tx_apply_timer [OF a] inv by (auto simp: tx_inv_def split: prod.splits) blast+
qed


section \<open>Room in the aggregation buffer\<close>

definition buf_room :: "(nat \<Rightarrow> nat) \<Rightarrow> tx_agg_ctx \<Rightarrow> qmap_priv \<Rightarrow> bool" where
  "buf_room room ctx p \<longleftrightarrow> (case agg_skb p of None \<Rightarrow> True
     | Some (buf, tail) \<Rightarrow> length buf + tail = room (unat (ul_data_aggregation_max_size ctx)))"

lemma buf_room_cong [simp]:
  "buf_room room ctx (xmit_account err sent p) = buf_room room ctx p"
  "buf_room room ctx (rmnet_vnd_update_tx_stats p a b) = buf_room room ctx p"
  "buf_room room ctx (p\<lparr>agg_hrtimer := x\<rparr>) = buf_room room ctx p"
  by (auto simp: buf_room_def rmnet_vnd_update_tx_stats_def split: option.splits)

lemma agg_pass_room:
  assumes "buf_room room ctx p" "length (s_data s) \<le> unat (ul_data_aggregation_max_size ctx)"
    and m: "m = unat (ul_data_aggregation_max_size ctx)" "m \<le> room m" "room m + m < 4294967296"
  shows "\<exists>p' left sent. agg_pass room ctx e k p s = Some (p', left, sent) \<and> buf_room room ctx p'"
proof (cases "agg_skb p")
  case None
  then show ?thesis
    using assms by (auto simp: agg_pass_def agg_start_def Let_def buf_room_def)
next
  case (Some bt)
  obtain buf tail where bt: "bt = (buf, tail)" by (cases bt)
  have len: "length buf + tail = room m" using assms Some bt by (simp add: buf_room_def)
  have "unat (of_nat (length buf + length (s_data s)) :: u32) = length buf + length (s_data s)"
    using len assms(2) m by (intro unat_of_nat_u32) linarith
  then have "length (s_data s) \<le> tail"
    if "(of_nat (length buf + length (s_data s)) :: u32) < ul_data_aggregation_max_size ctx"
    using that len m by (simp add: word_less_nat_alt del: of_nat_add)
  then show ?thesis
    using Some bt len m(1) by (auto simp: agg_pass_def agg_append_def Let_def buf_room_def)
qed

lemma agg_loop_room:
  "buf_room room ctx p \<Longrightarrow> length (s_data s) \<le> unat (ul_data_aggregation_max_size ctx) \<Longrightarrow>
   m = unat (ul_data_aggregation_max_size ctx) \<Longrightarrow> m \<le> room m \<Longrightarrow> room m + m < 4294967296 \<Longrightarrow>
   \<exists>p' out. agg_loop room ctx e k p s = Some (p', out) \<and> buf_room room ctx p'"
proof (induction room ctx e k p s rule: agg_loop.induct)
  case (1 room ctx e k p s)
  obtain p1 left sent where pass: "agg_pass room ctx e k p s = Some (p1, left, sent)" "buf_room room ctx p1"
    using agg_pass_room [OF 1(2-6)] by blast
  show ?case
  proof (cases left)
    case None
    with pass show ?thesis by (subst agg_loop.simps) (simp add: Let_def)
  next
    case (Some s1)
    then have "s1 = s" using agg_pass_again pass by blast
    with 1(1) [OF pass(1) refl refl refl refl Some] 1(3-6) pass(2)
    obtain p3 out where "agg_loop room ctx e (Suc k) (xmit_account (e_err e k) sent p1) s1 = Some (p3, out)"
        "buf_room room ctx p3" by auto
    with Some pass(1) show ?thesis by (subst agg_loop.simps) (simp add: Let_def)
  qed
qed

lemma rmnet_usb_tx_agg_room:
  assumes "buf_room room ctx p" "length (s_data s) \<le> unat (ul_data_aggregation_max_size ctx)"
    and "m = unat (ul_data_aggregation_max_size ctx)" "m \<le> room m" "room m + m < 4294967296"
  shows "\<exists>p' out. rmnet_usb_tx_agg room ctx e p s = Some (p', out) \<and> buf_room room ctx p'"
proof -
  let ?p = "rmnet_vnd_update_tx_stats p 1 (length (s_data s))"
  obtain p' out where "agg_loop room ctx e 0 ?p s = Some (p', out)" "buf_room room ctx p'"
    using agg_loop_room [of room ctx ?p s m e 0] assms by auto
  then show ?thesis using assms(1) by (auto simp: rmnet_usb_tx_agg_def Let_def)
qed

section \<open>The sub-device from the stack to the USB device\<close>

datatype vnd_event = VXmit tx_env skb | VTimer | VWork int bool

text \<open>A run of one sub-device: what the stack hands over, with the flush timer in between.\<close>

fun vnd_apply :: "(nat \<Rightarrow> nat) \<Rightarrow> tx_agg_ctx \<Rightarrow> net_device \<Rightarrow> net_device \<times> qmap_priv \<Rightarrow> vnd_event
     \<Rightarrow> ((net_device \<times> qmap_priv) \<times> byte list list) option" where
  "vnd_apply room ctx real (n, p) (VXmit e s) =
     map_option (\<lambda>r. ((x_net r, x_priv r), x_frames r)) (rmnet_vnd_start_xmit room ctx e real n p s)"
| "vnd_apply room ctx real (n, p) VTimer =
     map_option (\<lambda>((c, p'), out). ((n, p'), out)) (tx_apply room (ctx, p) EvTimer)"
| "vnd_apply room ctx real (n, p) (VWork now err) =
     map_option (\<lambda>((c, p'), out). ((n, p'), out)) (tx_apply room (ctx, p) (EvWork now err))"

fun vnd_run :: "(nat \<Rightarrow> nat) \<Rightarrow> tx_agg_ctx \<Rightarrow> net_device \<Rightarrow> net_device \<times> qmap_priv \<Rightarrow> vnd_event list
     \<Rightarrow> ((net_device \<times> qmap_priv) \<times> byte list list) option" where
  "vnd_run room ctx real st [] = Some (st, [])"
| "vnd_run room ctx real st (ev # evs) =
     (case vnd_apply room ctx real st ev of
        None \<Rightarrow> None
      | Some (st', out) \<Rightarrow> (case vnd_run room ctx real st' evs of
            None \<Rightarrow> None | Some (st'', out') \<Rightarrow> Some (st'', out @ out')))"

definition stripped :: "skb \<Rightarrow> skb" where
  "stripped s = s\<lparr>s_headroom := s_headroom s + ETH_HLEN, s_data := drop ETH_HLEN (s_data s)\<rparr>"

definition vnd_packet :: "nat \<Rightarrow> skb \<Rightarrow> qpkt" where
  "vnd_packet i s = (i, s_data (stripped s), take (qmap_pad (stripped s)) (s_tail s))"

definition vnd_packets :: "nat \<Rightarrow> vnd_event list \<Rightarrow> qpkt list" where
  "vnd_packets i evs = concat (map (\<lambda>ev. case ev of VXmit e s \<Rightarrow> [vnd_packet i s] | _ \<Rightarrow> []) evs)"

definition vnd_ready :: "nat \<Rightarrow> bool \<Rightarrow> net_device \<times> qmap_priv \<Rightarrow> bool" where
  "vnd_ready i v5 = (\<lambda>(n, p). nd_ether n \<and> bridge_mode p = 0 \<and> qmap_version p = (if v5 then 9 else 5) \<and>
     mux_id p = QUECTEL_QMAP_MUX_ID + of_nat i)"


lemma agg_loop_ident:
  "agg_loop room ctx e k p s = Some (p', out) \<Longrightarrow>
   bridge_mode p' = bridge_mode p \<and> qmap_version p' = qmap_version p \<and> mux_id p' = mux_id p"
proof (induction room ctx e k p s arbitrary: p' out rule: agg_loop.induct)
  case (1 room ctx e k p s)
  from 1(2) obtain p1 left sent where pass: "agg_pass room ctx e k p s = Some (p1, left, sent)"
    by (subst (asm) agg_loop.simps) (auto split: option.splits)
  then have "bridge_mode p1 = bridge_mode p \<and> qmap_version p1 = qmap_version p \<and> mux_id p1 = mux_id p"
    by (auto simp: agg_pass_def agg_append_def agg_start_def Let_def split: option.splits if_splits)
  moreover have "case left of None \<Rightarrow> p' = xmit_account (e_err e k) sent p1
      | Some s1 \<Rightarrow> \<exists>out'. agg_loop room ctx e (Suc k) (xmit_account (e_err e k) sent p1) s1 = Some (p', out')"
    using 1(2) pass by (subst (asm) agg_loop.simps) (auto simp: Let_def split: option.splits)
  ultimately show ?case
    using 1(1) [OF pass refl refl refl refl] by (auto simp: xmit_account_def split: option.splits if_splits)
qed

lemma vnd_ready_tx_agg:
  assumes "rmnet_usb_tx_agg room ctx e p s = Some (p', out)" "vnd_ready i v5 (n, p)"
  shows "vnd_ready i v5 (n, p')"
proof (cases "ul_data_aggregation_max_datagrams ctx = 1")
  case True
  then show ?thesis using assms
    by (auto simp: rmnet_usb_tx_agg_def Let_def vnd_ready_def xmit_account_def rmnet_vnd_update_tx_stats_def split: if_splits)
next
  case False
  then obtain p1 where "agg_loop room ctx e 0 (rmnet_vnd_update_tx_stats p 1 (length (s_data s))) s = Some (p1, out)"
      "p' = (if agg_skb p1 \<noteq> None then p1\<lparr>agg_hrtimer := True\<rparr> else p1)"
    using assms(1) by (auto simp: rmnet_usb_tx_agg_def Let_def split: option.splits)
  then show ?thesis
    using agg_loop_ident [of room ctx e 0 "rmnet_vnd_update_tx_stats p 1 (length (s_data s))" s p1 out] assms(2)
    by (auto simp: vnd_ready_def rmnet_vnd_update_tx_stats_def)
qed

lemma start_xmit_agg:
  assumes "vnd_ready i v5 (n, p)" "\<not> nd_stopped real" "ETH_HLEN \<le> length (s_data s)"
    and "dl_min_padding q = 0" "rmnet_vnd_start_xmit room ctx e real n p s = Some r"
  shows "\<exists>s2. s_data s2 = qmap_enc q v5 (vnd_packet i s) \<and>
     rmnet_usb_tx_agg room ctx e p s2 = Some (x_priv r, x_frames r) \<and> x_net r = n"
proof -
  have strip: "xmit_strip n p s = (p, None, Some (stripped s))"
    using assms(1,3) by (simp add: xmit_strip_def vnd_ready_def skb_pull_def stripped_def)
  have hdr: "(if qmap_version p = 5 then add_qhdr (stripped s) (mux_id p) else add_qhdr_v5 (stripped s) (mux_id p))
      = add_hdr v5 (stripped s) (QUECTEL_QMAP_MUX_ID + of_nat i)" and v: "qmap_version p = 5 \<or> qmap_version p = 9"
    using assms(1) by (auto simp: vnd_ready_def add_hdr_def)
  obtain s2 where s2: "add_hdr v5 (stripped s) (QUECTEL_QMAP_MUX_ID + of_nat i) = Some s2"
      "rmnet_usb_tx_agg room ctx e p s2 = Some (x_priv r, x_frames r)" "x_net r = n"
    using assms(2,5) strip v hdr
    by (cases "add_hdr v5 (stripped s) (QUECTEL_QMAP_MUX_ID + of_nat i)")
      (auto simp: rmnet_vnd_start_xmit_def split: option.splits if_splits)
  have "s_data s2 = qmap_enc q v5 (vnd_packet i s)"
    using add_hdr_data [OF assms(4) s2(1)] by (simp add: vnd_packet_def stripped_def)
  with s2 show ?thesis by blast
qed

lemma vnd_apply_tx:
  assumes "vnd_apply room ctx real (n, p) ev = Some ((n', p'), out)" "vnd_ready i v5 (n, p)" "\<not> nd_stopped real"
    and "case ev of VXmit e s \<Rightarrow> ETH_HLEN \<le> length (s_data s) | _ \<Rightarrow> True" "dl_min_padding q = 0"
  shows "\<exists>ev'. tx_apply room (ctx, p) ev' = Some ((ctx, p'), out) \<and>
     xmitted [ev'] = map (qmap_enc q v5) (vnd_packets i [ev]) \<and> vnd_ready i v5 (n', p')"
proof (cases ev)
  case (VXmit e s)
  then obtain r where r: "rmnet_vnd_start_xmit room ctx e real n p s = Some r" "n' = x_net r" "p' = x_priv r" "out = x_frames r"
    using assms(1) by auto
  from start_xmit_agg [OF assms(2,3) _ assms(5) r(1)] assms(4) VXmit obtain s2 where
    s2: "s_data s2 = qmap_enc q v5 (vnd_packet i s)" "rmnet_usb_tx_agg room ctx e p s2 = Some (p', out)" "n' = n"
    using r by auto
  then show ?thesis
    using vnd_ready_tx_agg [OF s2(2) assms(2)] VXmit
    by (intro exI [of _ "EvXmit e s2"]) (simp add: xmitted_def vnd_packets_def)
next
  case VTimer
  then show ?thesis
    using assms(1,2) by (intro exI [of _ EvTimer])
      (auto simp: xmitted_def vnd_packets_def vnd_ready_def rmnet_usb_tx_agg_timer_cb_def)
next
  case (VWork now err)
  then show ?thesis
    using assms(1,2) by (intro exI [of _ "EvWork now err"])
      (auto simp: xmitted_def vnd_packets_def vnd_ready_def rmnet_usb_tx_agg_work_def Let_def xmit_account_def
        split: if_splits option.splits)
qed

lemma vnd_run_tx:
  "vnd_run room ctx real (n, p) evs = Some ((n', p'), out) \<Longrightarrow> vnd_ready i v5 (n, p) \<Longrightarrow>
   list_all (\<lambda>ev. case ev of VXmit e s \<Rightarrow> ETH_HLEN \<le> length (s_data s) | _ \<Rightarrow> True) evs \<Longrightarrow>
   \<not> nd_stopped real \<Longrightarrow> dl_min_padding q = 0 \<Longrightarrow>
   \<exists>evs'. tx_run room (ctx, p) evs' = Some ((ctx, p'), out) \<and> xmitted evs' = map (qmap_enc q v5) (vnd_packets i evs)"
proof (induction evs arbitrary: n p out)
  case Nil
  then show ?case by (intro exI [of _ "[]"]) (simp add: xmitted_def vnd_packets_def)
next
  case (Cons ev evs)
  then obtain n1 p1 out1 out2 where a: "vnd_apply room ctx real (n, p) ev = Some ((n1, p1), out1)"
      "vnd_run room ctx real (n1, p1) evs = Some ((n', p'), out2)" "out = out1 @ out2"
    by (auto split: option.splits)
  obtain ev' where e: "tx_apply room (ctx, p) ev' = Some ((ctx, p1), out1)"
      "xmitted [ev'] = map (qmap_enc q v5) (vnd_packets i [ev])" "vnd_ready i v5 (n1, p1)"
    using vnd_apply_tx [OF a(1) Cons.prems(2,4) _ Cons.prems(5)] Cons.prems(3) by auto
  obtain evs' where es: "tx_run room (ctx, p1) evs' = Some ((ctx, p'), out2)"
      "xmitted evs' = map (qmap_enc q v5) (vnd_packets i evs)"
    using Cons.IH [OF a(2) e(3)] Cons.prems by auto
  have "xmitted (ev' # evs') = xmitted [ev'] @ xmitted evs'" "vnd_packets i (ev # evs) = vnd_packets i [ev] @ vnd_packets i evs"
    by (simp_all add: xmitted_def vnd_packets_def)
  then show ?case
    using e es a(3) by (intro exI [of _ "ev' # evs'"]) simp
qed


section \<open>Properties of transmission\<close>

text \<open>
  C3. The uplink of a sub-device, end to end: whatever the stack transmits, with the flush
  timer and its work running at any point between, the frames given to the USB device decode
  to the transmitted IP packets, none lost, repeated or reordered; the packets not yet in a
  frame are the last ones, and there are none when the aggregation buffer is empty. Each
  frame is one packet, or respects the modem's limits on datagrams and bytes.
\<close>

theorem uplink_end_to_end:
  assumes run: "vnd_run room ctx real (n, p) evs = Some ((n', p'), out)"
    and "vnd_ready i v5 (n, p)" "\<not> nd_stopped real" "agg_skb p = None" "agg_count p = 0"
    and "1 \<le> ul_data_aggregation_max_datagrams ctx" "dl_min_padding q = 0"
    and eth: "list_all (\<lambda>ev. case ev of VXmit e s \<Rightarrow> ETH_HLEN \<le> length (s_data s) | _ \<Rightarrow> True) evs"
    and ok: "list_all (qmap_ok q) (vnd_packets i evs)"
  shows "\<exists>groups rest. vnd_packets i evs = concat groups @ rest \<and> (agg_skb p' = None \<longrightarrow> rest = []) \<and>
     list_all (\<lambda>g. frame_ok ctx (map (qmap_enc q v5) g)) groups \<and>
     map (qmap_packet_decode q (\<lambda>_. True)) out = map (\<lambda>g. Some (False, map (qmap_view q) g)) groups"
proof -
  obtain evs' where es: "tx_run room (ctx, p) evs' = Some ((ctx, p'), out)"
      "xmitted evs' = map (qmap_enc q v5) (vnd_packets i evs)"
    using vnd_run_tx [OF run assms(2) eth assms(3,7)] by blast
  have "agg_holds ctx p []" using assms(4,5) by (simp add: agg_holds_def)
  then obtain gs cs where g: "out = map concat gs" "list_all (frame_ok ctx) gs" "agg_holds ctx p' cs"
      "concat gs @ cs = map (qmap_enc q v5) (vnd_packets i evs)"
    using tx_run_groups [OF es(1), of "[]"] assms(6) es(2) by auto
  obtain groups rest where gr: "vnd_packets i evs = concat groups @ rest" "gs = map (map (qmap_enc q v5)) groups"
    using map_eq_concat_append [OF g(4) [symmetric]] by blast
  have rest: "agg_skb p' = None \<longrightarrow> rest = []"
    using g(3,4) gr by (auto simp: agg_holds_def map_concat)
  have "list_all (qmap_ok q) g" if "g \<in> set groups" for g
    using ok gr(1) that by (auto simp: list_all_iff)
  then have "map (qmap_packet_decode q (\<lambda>_. True)) out = map (\<lambda>g. Some (False, map (qmap_view q) g)) groups"
    unfolding g(1) gr(2) by (auto intro!: decode_concat)
  then show ?thesis
    using gr rest g(2) by (intro exI [of _ groups] exI [of _ rest]) (simp add: list_all_iff)
qed


definition sample_env :: tx_env where
  "sample_env = \<lparr>e_xmit_more = False, e_now = (\<lambda>_. 5), e_alloc = True, e_err = (\<lambda>_. False)\<rparr>"

definition sample_ctx :: tx_agg_ctx where
  "sample_ctx = \<lparr>ul_data_aggregation_max_datagrams = 4, ul_data_aggregation_max_size = 64, dl_minimum_padding = 0\<rparr>"

definition sample_skb :: "byte list \<Rightarrow> skb" where
  "sample_skb d = \<lparr>s_headroom = 2, s_data = replicate 14 0 @ d, s_tail = [7, 7, 7], s_protocol = ETH_P_IP\<rparr>"

definition sample_events :: "vnd_event list" where
  "sample_events = [VXmit sample_env (sample_skb [0x45, 1, 2]), VXmit sample_env (sample_skb [0x45, 9]), VTimer, VWork 9 False,
     VXmit sample_env (sample_skb [0x60])]"

theorem uplink_end_to_end_witness:
  "\<exists>n' p' out groups rest.
     vnd_run id sample_ctx sample_net (sample_net, sample_priv 0) sample_events = Some ((n', p'), out) \<and>
     vnd_packets 0 sample_events = concat groups @ rest \<and> (agg_skb p' = None \<longrightarrow> rest = []) \<and>
     list_all (\<lambda>g. frame_ok sample_ctx (map (qmap_enc sample_dev True) g)) groups \<and>
     map (qmap_packet_decode sample_dev (\<lambda>_. True)) out = map (\<lambda>g. Some (False, map (qmap_view sample_dev) g)) groups"
proof -
  have "case vnd_run id sample_ctx sample_net (sample_net, sample_priv 0) sample_events of None \<Rightarrow> False | Some _ \<Rightarrow> True"
    by code_simp
  then obtain n' p' out where run: "vnd_run id sample_ctx sample_net (sample_net, sample_priv 0) sample_events = Some ((n', p'), out)"
    by (auto split: option.splits)
  have "vnd_ready 0 True (sample_net, sample_priv 0)" "\<not> nd_stopped sample_net" "agg_skb (sample_priv 0) = None"
      "agg_count (sample_priv 0) = 0" "1 \<le> ul_data_aggregation_max_datagrams sample_ctx" "dl_min_padding sample_dev = 0"
    by (simp_all add: vnd_ready_def sample_ctx_def sample_simps)
  moreover have "list_all (\<lambda>ev. case ev of VXmit e s \<Rightarrow> ETH_HLEN \<le> length (s_data s) | _ \<Rightarrow> True) sample_events"
    by code_simp
  moreover have "vnd_packets 0 sample_events = [(0, [0x45, 1, 2], [7]), (0, [0x45, 9], [7, 7]), (0, [0x60], [7, 7, 7])]"
    by code_simp
  then have "list_all (qmap_ok sample_dev) (vnd_packets 0 sample_events)"
    by (simp add: qmap_ok_def qmap_wf_def sample_simps ip_protocol_of_def QUECTEL_WWAN_QMAP_def)
  ultimately have "\<exists>groups rest. vnd_packets 0 sample_events = concat groups @ rest \<and> (agg_skb p' = None \<longrightarrow> rest = []) \<and>
     list_all (\<lambda>g. frame_ok sample_ctx (map (qmap_enc sample_dev True) g)) groups \<and>
     map (qmap_packet_decode sample_dev (\<lambda>_. True)) out = map (\<lambda>g. Some (False, map (qmap_view sample_dev) g)) groups"
    by (rule uplink_end_to_end [OF run])
  with run show ?thesis by (intro exI [of _ n'] exI [of _ p'] exI [of _ out]) simp
qed

text \<open>
  C31. No packet waits forever: in every state a sub-device can reach, a non-empty aggregation
  buffer has its flush timer running or its flush work pending, and once both have run, the
  buffer has been handed to the USB device.
\<close>

theorem aggregation_flushes:
  assumes "tx_init s" "(tx_step room)\<^sup>*\<^sup>* s (ctx, p)" "agg_skb p = Some (buf, tail)"
  shows "(agg_hrtimer p \<or> agg_wq p) \<and> agg_count p < ul_data_aggregation_max_datagrams ctx \<and>
     (case tx_run room (ctx, p) [EvTimer, EvWork now err] of
        None \<Rightarrow> False
      | Some ((ctx', p'), out) \<Rightarrow> agg_skb p' = None \<and> out = [buf])"
proof -
  have inv: "tx_inv (ctx, p)" using tx.reach_inv [OF assms(1,2)] .
  then have "agg_hrtimer p \<or> agg_wq p" using assms(3) by (auto simp: tx_inv_def)
  moreover have "agg_count p < ul_data_aggregation_max_datagrams ctx"
    using inv assms(3) by (auto simp: tx_inv_def agg_holds_def word_less_nat_alt)
  ultimately show ?thesis
    using assms(3) by (auto simp: rmnet_usb_tx_agg_timer_cb_def rmnet_usb_tx_agg_work_def Let_def)
qed

definition sample_start :: "tx_agg_ctx \<times> qmap_priv" where
  "sample_start = (\<lparr>ul_data_aggregation_max_datagrams = 1, ul_data_aggregation_max_size = 1500, dl_minimum_padding = 0\<rparr>,
     sample_priv 0)"

definition sample_setting :: QMAP_SETTING where
  "sample_setting = \<lparr>qs_size = 32, qs_max_datagrams = 4, qs_max_size = 64, qs_dl_minimum_padding = 0\<rparr>"

theorem aggregation_flushes_witness:
  "\<exists>p tail. (tx_step id)\<^sup>*\<^sup>* sample_start (sample_ctx, p) \<and> agg_skb p = Some ([1, 2, 3], tail) \<and>
     (agg_hrtimer p \<or> agg_wq p)"
proof -
  let ?ev = "EvXmit sample_env \<lparr>s_headroom = 0, s_data = [1, 2, 3], s_tail = [], s_protocol = 0\<rparr>"
  define p where "p = (sample_priv 0)\<lparr>agg_skb := Some ([1, 2, 3], 61), agg_count := 1, agg_hrtimer := True,
      tx_packets := 1, tx_bytes := 3\<rparr>"
  have "tx_apply id sample_start (EvSetting 32 sample_setting) = Some ((sample_ctx, sample_priv 0), [])" by code_simp
  then have s1: "tx_step id sample_start (sample_ctx, sample_priv 0)" by (rule tx_step.intros)
  have "tx_apply id (sample_ctx, sample_priv 0) ?ev = Some ((sample_ctx, p), [])" unfolding p_def by code_simp
  then have "tx_step id (sample_ctx, sample_priv 0) (sample_ctx, p)" by (rule tx_step.intros)
  with s1 have reach: "(tx_step id)\<^sup>*\<^sup>* sample_start (sample_ctx, p)" by (meson converse_rtranclp_into_rtranclp r_into_rtranclp)
  moreover have init: "tx_init sample_start" by (simp add: tx_init_def sample_start_def sample_priv_def)
  moreover have skb: "agg_skb p = Some ([1, 2, 3], 61)" by (simp add: p_def)
  ultimately show ?thesis using aggregation_flushes [OF init reach skb] by blast
qed

text \<open>
  Transmission never panics when no framed packet is larger than the aggregation size
  the modem announced (an allocation of that size then has room for every buffer it holds):
  the whole loop ends, whatever the clock, the allocator and the queue answer.
\<close>

theorem aggregation_never_panics:
  assumes "buf_room room ctx p" "length (s_data s) \<le> unat (ul_data_aggregation_max_size ctx)"
    and "unat (ul_data_aggregation_max_size ctx) \<le> room (unat (ul_data_aggregation_max_size ctx))"
    and "room (unat (ul_data_aggregation_max_size ctx)) + unat (ul_data_aggregation_max_size ctx) < 2 ^ 32"
  shows "\<exists>p' out. rmnet_usb_tx_agg room ctx e p s = Some (p', out) \<and> buf_room room ctx p'"
  using rmnet_usb_tx_agg_room [OF assms(1,2) refl assms(3)] assms(4) by simp

theorem aggregation_never_panics_witness:
  "\<exists>p' out. rmnet_usb_tx_agg id sample_ctx sample_env (sample_priv 0) (sample_skb [0x45]) = Some (p', out)
     \<and> buf_room id sample_ctx p'"
  by (rule aggregation_never_panics) (simp_all add: buf_room_def sample_priv_def sample_ctx_def sample_skb_def)

text \<open>
  A packet larger than the announced aggregation size does panic: the buffer allocated
  for that size is filled without a check.
\<close>

theorem aggregation_oversized_panics:
  assumes "1 < ul_data_aggregation_max_datagrams ctx" "agg_skb p = None" "e_alloc e"
    and "\<not> elapsed (e_now e 0) (agg_time p) agg_bypass_time" "\<not> agg_skip_now (e_xmit_more e) s"
    and "room (unat (ul_data_aggregation_max_size ctx)) < length (s_data s)"
  shows "rmnet_usb_tx_agg room ctx e p s = None"
proof -
  have "agg_pass room ctx e 0 (rmnet_vnd_update_tx_stats p 1 (length (s_data s))) s = None"
    using assms by (simp add: agg_pass_def agg_start_def Let_def rmnet_vnd_update_tx_stats_def)
  then show ?thesis using assms(1) by (auto simp: rmnet_usb_tx_agg_def Let_def agg_loop.simps)
qed

theorem aggregation_oversized_panics_witness:
  "rmnet_usb_tx_agg id sample_ctx sample_env (sample_priv 0) (sample_skb (replicate 60 2)) = None"
proof (rule aggregation_oversized_panics)
  show "\<not> elapsed (e_now sample_env 0) (agg_time (sample_priv 0)) agg_bypass_time" by code_simp
  show "\<not> agg_skip_now (e_xmit_more sample_env) (sample_skb (replicate 60 2))" by code_simp
qed (simp_all add: sample_ctx_def sample_priv_def sample_env_def sample_skb_def)

end
