(* ===== verification/QmapCtl.thy ===== *)
theory QmapCtl
  imports RmnetUsb
begin

text \<open>
  Control of the devices of \<open>qmi_wwan_q.c\<close>: the state \<open>qmi_wwan_bind\<close> sets up, registration
  and removal of the sub-devices, opening and closing them, the \<open>link_state\<close> attribute and the
  flow control between the USB device and its sub-devices. The numbers a user writes reach
  the driver through the kernel's \<open>simple_strtoul\<close>, an argument of the attribute's handler.
\<close>

section \<open>Binding\<close>

definition lte_a_product :: "u16 \<Rightarrow> bool" where
  "lte_a_product pid = (pid \<in> {0x0306, 0x030B, 0x0512, 0x0620, 0x0800, 0x0801})"

text \<open>
  The part of \<open>qmi_wwan_bind\<close> that fills \<open>sQmiWwanQmap\<close>, for module parameters \<open>mode\<close> and
  \<open>bridge\<close>, the flag, data word and product id of the device, its USB speed class and its
  network device. The first result is the module parameter \<open>qmap_mode\<close> afterwards.
\<close>

definition qmi_wwan_bind ::
  "u32 \<Rightarrow> u32 \<Rightarrow> bool \<Rightarrow> u32 \<Rightarrow> u16 \<Rightarrow> bool \<Rightarrow> net_device \<Rightarrow> u32 \<times> sQmiWwanQmap" where
  "qmi_wwan_bind mode bridge noarp data pid super n =
     (let mode0 = (if QUECTEL_WWAN_QMAP < mode then QUECTEL_WWAN_QMAP else mode);
          q0 = \<lparr>q_net = n, q_noarp = noarp, q_mpQmapNetDev = replicate 4 NoDev, q_link_state = 1,
                q_qmap_mode = 0, q_qmap_size = 0, q_qmap_version = 0,
                q_tx_ctx = \<lparr>ul_data_aggregation_max_datagrams = 0, ul_data_aggregation_max_size = 0, dl_minimum_padding = 0\<rparr>,
                q_bridge_mode = bridge, q_bridge_ipv4 = 0, q_bridge_mac = replicate 6 0, q_use_rmnet_usb = False\<rparr>
      in if \<not> noarp then (mode0, q0)
         else let version = drop_bit 8 data AND 0xFF; sz = data AND 0xFF;
                  lte_a = (lte_a_product pid \<or> 4096 < sz \<or> super);
                  qmode = (if lte_a \<and> mode0 = 0 then 1 else mode0)
              in (qmode,
                  if qmode = 0 then q0
                  else q0\<lparr>q_qmap_mode := qmode, q_qmap_version := version, q_qmap_size := sz * 1024,
                          q_link_state := (if lte_a then 0 else 1),
                          q_use_rmnet_usb := (qmode > 1 \<or> pid = 0x0800 \<or> pid = 0x0801),
                          q_tx_ctx := \<lparr>ul_data_aggregation_max_datagrams = 1, ul_data_aggregation_max_size = 1500,
                                       dl_minimum_padding = 0\<rparr>\<rparr>))"

section \<open>Registering sub-devices\<close>

text \<open>
  A new sub-device: Ethernet (\<open>rmnet_usb_ether_setup\<close>), with private data cleared by
  \<open>alloc_netdev\<close>. On the kernels modelled here the hardware address is set with
  \<open>eth_hw_addr_set(real_dev, qmap_net->dev_addr)\<close>.
\<close>

definition new_net :: net_device where
  "new_net = \<lparr>nd_mtu = 1500, nd_ether = True, nd_hard_header_len = 14, nd_addr = replicate 6 0,
     nd_up = False, nd_carrier = False, nd_stopped = False\<rparr>"

definition new_priv :: "sQmiWwanQmap \<Rightarrow> nat \<Rightarrow> int \<Rightarrow> qmap_priv" where
  "new_priv q i now = \<lparr>offset_id = of_nat i, mux_id = QUECTEL_QMAP_MUX_ID + of_nat i,
     qmap_version = ucast (q_qmap_version q), link_state = 0, agg_skb = None, agg_count = 0, agg_time = now,
     agg_hrtimer = False, agg_wq = False,
     bridge_mode = (if q_bridge_mode q AND push_bit i 1 \<noteq> 0 then 1 else 0), bridge_ipv4 = 0,
     bridge_mac = replicate 6 0, tx_packets = 0, tx_bytes = 0, tx_errors = 0\<rparr>"

datatype register_result = RegOk | RegNoMem | RegFail
  \<comment> \<open>\<open>alloc_netdev\<close> and \<open>register_netdev\<close>: both succeed, the first fails, the second fails\<close>

definition qmap_register_device :: "register_result \<Rightarrow> int \<Rightarrow> nat \<Rightarrow> sQmiWwanQmap \<Rightarrow> sQmiWwanQmap" where
  "qmap_register_device res now i q =
     (let q1 = q\<lparr>q_net := (q_net q)\<lparr>nd_addr := nd_addr new_net\<rparr>\<rparr> in
      case res of
        RegNoMem \<Rightarrow> q
      | RegFail \<Rightarrow> q1
      | RegOk \<Rightarrow> q1\<lparr>q_mpQmapNetDev := (q_mpQmapNetDev q1)[i := SubDev new_net (new_priv q i now)]\<rparr>)"

definition qmap_unregister_device :: "nat \<Rightarrow> sQmiWwanQmap \<Rightarrow> sQmiWwanQmap" where
  "qmap_unregister_device i q =
     (case q_mpQmapNetDev q ! i of
        SubDev n p \<Rightarrow> q\<lparr>q_mpQmapNetDev := (q_mpQmapNetDev q)[i := NoDev]\<rparr>
      | _ \<Rightarrow> q)"

text \<open>\<open>reg i\<close> is the outcome of registering sub-device \<open>i\<close>.\<close>

definition qmap_qmi_wwan_probe :: "(nat \<Rightarrow> register_result) \<Rightarrow> int \<Rightarrow> sQmiWwanQmap \<Rightarrow> sQmiWwanQmap" where
  "qmap_qmi_wwan_probe reg now q =
     (let q1 = (if q_qmap_mode q = 1 then
                  (if q_use_rmnet_usb q then qmap_register_device (reg 0) now 0 q
                   else q\<lparr>q_mpQmapNetDev := (q_mpQmapNetDev q)[0 := RealDev]\<rparr>)
                else if q_qmap_mode q > 1 then
                  fold (\<lambda>i. qmap_register_device (reg i) now i) [0..<unat (q_qmap_mode q)] q
                else q)
      in if q_link_state q1 = 0 then q1\<lparr>q_net := (q_net q1)\<lparr>nd_carrier := False\<rparr>\<rparr> else q1)"

definition qmap_qmi_wwan_disconnect :: "sQmiWwanQmap \<Rightarrow> sQmiWwanQmap" where
  "qmap_qmi_wwan_disconnect q =
     (let q1 = q\<lparr>q_link_state := 0\<rparr>;
          q2 = (if q_qmap_mode q1 > 1 then fold qmap_unregister_device [0..<unat (q_qmap_mode q1)] q1 else q1)
      in if q_use_rmnet_usb q2 then qmap_unregister_device 0 q2 else q2)"

section \<open>Opening, closing and the link state\<close>

definition ENETDOWN :: int where "ENETDOWN = 100"

definition qmap_open :: "nat \<Rightarrow> sQmiWwanQmap \<Rightarrow> int \<times> sQmiWwanQmap" where
  "qmap_open i q =
     (case q_mpQmapNetDev q ! i of
        SubDev n p \<Rightarrow>
          if \<not> nd_up (q_net q) then (- ENETDOWN, q)
          else if link_state p \<noteq> 0 then
            let n1 = n\<lparr>nd_carrier := True\<rparr>;
                n2 = (if nd_stopped n1 \<and> \<not> nd_stopped (q_net q) then n1\<lparr>nd_stopped := False\<rparr> else n1)
            in (0, q\<lparr>q_net := (q_net q)\<lparr>nd_carrier := True\<rparr>,
                     q_mpQmapNetDev := (q_mpQmapNetDev q)[i := SubDev n2 p]\<rparr>)
          else (0, q)
      | _ \<Rightarrow> (0, q))"

definition qmap_stop :: "nat \<Rightarrow> sQmiWwanQmap \<Rightarrow> int \<times> sQmiWwanQmap" where
  "qmap_stop i q =
     (case q_mpQmapNetDev q ! i of
        SubDev n p \<Rightarrow> (0, q\<lparr>q_mpQmapNetDev := (q_mpQmapNetDev q)[i := SubDev (n\<lparr>nd_carrier := False\<rparr>) p]\<rparr>)
      | _ \<Rightarrow> (0, q))"

definition qmi_wwan_open :: "int \<Rightarrow> sQmiWwanQmap \<Rightarrow> int \<times> sQmiWwanQmap" where
  "qmi_wwan_open usbnet_open q =
     (usbnet_open,
      if usbnet_open = 0 \<and> q_qmap_mode q = 1 \<and> q_link_state q \<noteq> 0
      then q\<lparr>q_net := (q_net q)\<lparr>nd_carrier := True\<rparr>\<rparr> else q)"

text \<open>The new value of the driver's link state and the sub-device it concerns, if it is accepted.\<close>

definition link_state_target :: "u32 \<Rightarrow> u32 \<Rightarrow> u32 \<Rightarrow> (u32 \<times> u32) option" where
  "link_state_target mode old ls =
     (if mode = 1 then Some (if ls \<noteq> 0 then 1 else 0, 0)
      else if mode > 1 then
        let off = (ls AND 0x7F) - 1 in
        if mode \<le> off then None
        else Some (if ls AND 0x80 \<noteq> 0 then old AND NOT (push_bit (unat off) 1) else old OR push_bit (unat off) 1, off)
      else Some (old, 0))"

definition sub_link :: "net_device \<Rightarrow> u32 \<Rightarrow> nat \<Rightarrow> slot \<Rightarrow> slot" where
  "sub_link real new i sl =
     (case sl of
        SubDev n p \<Rightarrow>
          let up = (new AND push_bit i 1 \<noteq> 0); p1 = p\<lparr>link_state := (if up then 1 else 0)\<rparr>;
              n1 = (if nd_up n then
                      (if up then n\<lparr>nd_carrier := True, nd_stopped := (nd_stopped n \<and> nd_stopped real)\<rparr>
                       else n\<lparr>nd_carrier := False\<rparr>)
                    else n)
          in SubDev n1 p1
      | _ \<Rightarrow> sl)"

definition link_state_set :: "u32 \<Rightarrow> sQmiWwanQmap \<Rightarrow> sQmiWwanQmap" where
  "link_state_set ls q =
     (case link_state_target (q_qmap_mode q) (q_link_state q) ls of
        None \<Rightarrow> q
      | Some (new, off) \<Rightarrow>
          if q_link_state q = new then q
          else let real = q_net q;
                   real1 = (if nd_up real then real\<lparr>nd_carrier := (new \<noteq> 0)\<rparr> else real)
               in q\<lparr>q_link_state := new, q_net := real1,
                    q_mpQmapNetDev := (q_mpQmapNetDev q)[unat off := sub_link real new (unat off) (q_mpQmapNetDev q ! unat off)]\<rparr>)"

definition link_state_store :: "(string \<Rightarrow> nat \<Rightarrow> u64) \<Rightarrow> string \<Rightarrow> nat \<Rightarrow> sQmiWwanQmap \<Rightarrow> nat \<times> sQmiWwanQmap" where
  "link_state_store simple_strtoul buf count q = (count, link_state_set (ucast (simple_strtoul buf 0)) q)"

section \<open>Flow control\<close>

definition map_subs :: "(net_device \<Rightarrow> net_device) \<Rightarrow> sQmiWwanQmap \<Rightarrow> sQmiWwanQmap" where
  "map_subs f q = fold (\<lambda>i q. case q_mpQmapNetDev q ! i of
       NoDev \<Rightarrow> q
     | RealDev \<Rightarrow> q\<lparr>q_net := f (q_net q)\<rparr>
     | SubDev n p \<Rightarrow> q\<lparr>q_mpQmapNetDev := (q_mpQmapNetDev q)[i := SubDev (f n) p]\<rparr>)
     [0..<unat (q_qmap_mode q)] q"

definition qmap_wake_queue :: "sQmiWwanQmap \<Rightarrow> sQmiWwanQmap" where
  "qmap_wake_queue q =
     (if \<not> q_use_rmnet_usb q then q
      else map_subs (\<lambda>n. if nd_carrier n \<and> nd_stopped n then n\<lparr>nd_stopped := False\<rparr> else n) q)"

text \<open>\<open>qmi_wwan_start_xmit\<close> after \<open>usbnet_start_xmit\<close>, which leaves the USB queue stopped or not.\<close>

definition qmi_wwan_start_xmit :: "bool \<Rightarrow> sQmiWwanQmap \<Rightarrow> sQmiWwanQmap" where
  "qmi_wwan_start_xmit stopped q =
     (let q1 = q\<lparr>q_net := (q_net q)\<lparr>nd_stopped := stopped\<rparr>\<rparr> in
      if stopped \<and> q_use_rmnet_usb q1 then map_subs (\<lambda>n. n\<lparr>nd_stopped := True\<rparr>) q1 else q1)"

definition usbnet_bh :: "bool \<Rightarrow> sQmiWwanQmap \<Rightarrow> sQmiWwanQmap" where
  "usbnet_bh stopped q =
     (let q1 = q\<lparr>q_net := (q_net q)\<lparr>nd_stopped := stopped\<rparr>\<rparr> in
      if \<not> nd_stopped (q_net q1) then qmap_wake_queue q1 else q1)"


section \<open>Attributes and ioctls\<close>

text \<open>
  The bridge attributes of the USB device and of a sub-device (\<open>is_qmap_netdev\<close>), and the
  private ioctls. The target is the USB device (\<open>None\<close>) or the sub-device of an index.
\<close>

definition set_bridge_mode :: "nat option \<Rightarrow> u32 \<Rightarrow> sQmiWwanQmap \<Rightarrow> sQmiWwanQmap" where
  "set_bridge_mode dev v q = (case dev of
     None \<Rightarrow> q\<lparr>q_bridge_mode := v\<rparr>
   | Some i \<Rightarrow> (case q_mpQmapNetDev q ! i of
         SubDev n p \<Rightarrow> q\<lparr>q_mpQmapNetDev := (q_mpQmapNetDev q)[i := SubDev n (p\<lparr>bridge_mode := v\<rparr>)]\<rparr> | _ \<Rightarrow> q))"

definition set_bridge_ipv4 :: "nat option \<Rightarrow> u32 \<Rightarrow> sQmiWwanQmap \<Rightarrow> sQmiWwanQmap" where
  "set_bridge_ipv4 dev v q = (case dev of
     None \<Rightarrow> q\<lparr>q_bridge_ipv4 := v\<rparr>
   | Some i \<Rightarrow> (case q_mpQmapNetDev q ! i of
         SubDev n p \<Rightarrow> q\<lparr>q_mpQmapNetDev := (q_mpQmapNetDev q)[i := SubDev n (p\<lparr>bridge_ipv4 := v\<rparr>)]\<rparr> | _ \<Rightarrow> q))"

definition attr_net :: "nat option \<Rightarrow> sQmiWwanQmap \<Rightarrow> net_device" where
  "attr_net dev q = (case dev of None \<Rightarrow> q_net q
     | Some i \<Rightarrow> (case q_mpQmapNetDev q ! i of SubDev n p \<Rightarrow> n | _ \<Rightarrow> q_net q))"

definition bridge_mode_store ::
  "(string \<Rightarrow> nat \<Rightarrow> u64) \<Rightarrow> nat option \<Rightarrow> string \<Rightarrow> nat \<Rightarrow> sQmiWwanQmap \<Rightarrow> nat \<times> sQmiWwanQmap" where
  "bridge_mode_store simple_strtoul dev buf count q =
     (count, if nd_ether (attr_net dev q) then set_bridge_mode dev (ucast (simple_strtoul buf 0)) q else q)"

definition bridge_mode_show :: "nat option \<Rightarrow> sQmiWwanQmap \<Rightarrow> u32" where
  "bridge_mode_show dev q = (case dev of None \<Rightarrow> q_bridge_mode q
     | Some i \<Rightarrow> (case q_mpQmapNetDev q ! i of SubDev n p \<Rightarrow> bridge_mode p | _ \<Rightarrow> 0))"

definition bridge_ipv4_store ::
  "(string \<Rightarrow> nat \<Rightarrow> u64) \<Rightarrow> nat option \<Rightarrow> string \<Rightarrow> nat \<Rightarrow> sQmiWwanQmap \<Rightarrow> nat \<times> sQmiWwanQmap" where
  "bridge_ipv4_store simple_strtoul dev buf count q = (count, set_bridge_ipv4 dev (ucast (simple_strtoul buf 16)) q)"

definition bridge_ipv4_show :: "nat option \<Rightarrow> sQmiWwanQmap \<Rightarrow> byte list" where
  "bridge_ipv4_show dev q = ipv4_octets (case dev of None \<Rightarrow> q_bridge_ipv4 q
     | Some i \<Rightarrow> (case q_mpQmapNetDev q ! i of SubDev n p \<Rightarrow> bridge_ipv4 p | _ \<Rightarrow> 0))"

datatype qmap_ioctl =
    IoctlLinkState u32 | IoctlSettings QMAP_SETTING | IoctlInfo | IoctlOther

text \<open>
  \<open>copy\<close> is what the copy from or to user space leaves uncopied; \<open>print\<close> is \<open>snprintf\<close> with
  \<open>%u\<close>; \<open>len\<close> is the size of the settings structure.
\<close>

definition qmap_ndo_do_ioctl ::
  "(string \<Rightarrow> nat \<Rightarrow> u64) \<Rightarrow> (u32 \<Rightarrow> string) \<Rightarrow> u32 \<Rightarrow> int \<Rightarrow> qmap_ioctl \<Rightarrow> sQmiWwanQmap \<Rightarrow> int \<times> sQmiWwanQmap" where
  "qmap_ndo_do_ioctl simple_strtoul print len copy cmd q =
     (case cmd of
        IoctlLinkState ls \<Rightarrow>
          (copy, if copy = 0 then snd (link_state_store simple_strtoul (print ls) (length (print ls)) q) else q)
      | IoctlSettings st \<Rightarrow>
          if copy \<noteq> 0 then (copy, q)
          else let (rc, ctx) = qma_setting_store len st (q_tx_ctx q) in (rc, q\<lparr>q_tx_ctx := ctx\<rparr>)
      | IoctlInfo \<Rightarrow> (if q_use_rmnet_usb q then copy else - EOPNOTSUPP, q)
      | IoctlOther \<Rightarrow> (- EOPNOTSUPP, q))"

section \<open>Power management\<close>

record pm_state =
  pmcount :: int
  needs_remote_wakeup :: bool

definition qmi_wwan_manage_power :: "bool \<Rightarrow> pm_state \<Rightarrow> pm_state" where
  "qmi_wwan_manage_power on s =
     (let c = (if on then pmcount s + 1 else pmcount s - 1) in
      if (on \<and> c = 1) \<or> (\<not> on \<and> c = 0) then s\<lparr>pmcount := c, needs_remote_wakeup := on\<rparr>
      else s\<lparr>pmcount := c\<rparr>)"

text \<open>
  Suspending and resuming: the answers of the two parts are arguments, the calls made to them
  are the second result; \<open>sub\<close> says that the subdriver takes part.
\<close>

datatype pm_call = UsbSuspend | SubSuspend | UsbResume | SubResume

definition qmi_wwan_suspend :: "bool \<Rightarrow> (pm_call \<Rightarrow> int) \<Rightarrow> int \<times> pm_call list" where
  "qmi_wwan_suspend sub res =
     (let r1 = res UsbSuspend in
      if r1 < 0 then (r1, [UsbSuspend])
      else let (ret, calls) = (if sub then (res SubSuspend, [UsbSuspend, SubSuspend]) else (r1, [UsbSuspend])) in
        if ret < 0 then (ret, calls @ [UsbResume]) else (ret, calls))"

definition qmi_wwan_resume :: "bool \<Rightarrow> (pm_call \<Rightarrow> int) \<Rightarrow> int \<times> pm_call list" where
  "qmi_wwan_resume callsub res =
     (let (r0, c0) = (if callsub then (res SubResume, [SubResume]) else (0, [])) in
      if r0 < 0 then (r0, c0)
      else let ret = res UsbResume; c1 = c0 @ [UsbResume] in
        if ret < 0 \<and> callsub then (ret, c1 @ [SubSuspend]) else (ret, c1))"

text \<open>A call that succeeds puts its part to sleep or wakes it.\<close>

definition pm_effect :: "(pm_call \<Rightarrow> int) \<Rightarrow> pm_call \<Rightarrow> bool \<times> bool \<Rightarrow> bool \<times> bool" where
  "pm_effect res c = (\<lambda>(usb, sub). if res c < 0 then (usb, sub) else (case c of
     UsbSuspend \<Rightarrow> (True, sub) | UsbResume \<Rightarrow> (False, sub)
   | SubSuspend \<Rightarrow> (usb, True) | SubResume \<Rightarrow> (usb, False)))"

section \<open>The device table after binding and probing\<close>

lemma register_fields [simp]:
  "q_qmap_mode (qmap_register_device r now i q) = q_qmap_mode q"
  "q_use_rmnet_usb (qmap_register_device r now i q) = q_use_rmnet_usb q"
  "q_link_state (qmap_register_device r now i q) = q_link_state q"
  "q_tx_ctx (qmap_register_device r now i q) = q_tx_ctx q"
  "q_qmap_version (qmap_register_device r now i q) = q_qmap_version q"
  "length (q_mpQmapNetDev (qmap_register_device r now i q)) = length (q_mpQmapNetDev q)"
  by (simp_all add: qmap_register_device_def Let_def split: register_result.splits)

lemma register_slot:
  "i < length (q_mpQmapNetDev q) \<Longrightarrow>
   q_mpQmapNetDev (qmap_register_device r now i q) ! j =
     (if j = i \<and> r = RegOk then SubDev new_net (new_priv q i now) else q_mpQmapNetDev q ! j)"
  by (auto simp: qmap_register_device_def Let_def nth_list_update split: register_result.splits)

lemma new_priv_version: "q_qmap_version q = q_qmap_version q' \<Longrightarrow> q_bridge_mode q = q_bridge_mode q' \<Longrightarrow> new_priv q i now = new_priv q' i now"
  by (simp add: new_priv_def)

lemma register_bridge [simp]: "q_bridge_mode (qmap_register_device r now i q) = q_bridge_mode q"
  by (simp add: qmap_register_device_def Let_def split: register_result.splits)

definition registered :: "(nat \<Rightarrow> register_result) \<Rightarrow> int \<Rightarrow> sQmiWwanQmap \<Rightarrow> nat \<Rightarrow> slot" where
  "registered reg now q j = (if reg j = RegOk then SubDev new_net (new_priv q j now) else q_mpQmapNetDev q ! j)"

lemma fold_register:
  assumes "m \<le> length (q_mpQmapNetDev q)"
  shows "let q' = fold (\<lambda>i. qmap_register_device (reg i) now i) [0..<m] q in
     q_qmap_mode q' = q_qmap_mode q \<and> q_use_rmnet_usb q' = q_use_rmnet_usb q \<and> q_link_state q' = q_link_state q \<and>
     q_tx_ctx q' = q_tx_ctx q \<and> q_qmap_version q' = q_qmap_version q \<and> q_bridge_mode q' = q_bridge_mode q \<and>
     length (q_mpQmapNetDev q') = length (q_mpQmapNetDev q) \<and>
     (\<forall>j. q_mpQmapNetDev q' ! j = (if j < m then registered reg now q j else q_mpQmapNetDev q ! j))"
  using assms
proof (induction m)
  case (Suc m)
  let ?q = "fold (\<lambda>i. qmap_register_device (reg i) now i) [0..<m] q"
  have IH: "q_qmap_version ?q = q_qmap_version q" "q_bridge_mode ?q = q_bridge_mode q"
      "length (q_mpQmapNetDev ?q) = length (q_mpQmapNetDev q)"
      "q_mpQmapNetDev ?q ! j = (if j < m then registered reg now q j else q_mpQmapNetDev q ! j)" for j
    using Suc by (simp_all add: Let_def)
  have "new_priv ?q m now = new_priv q m now" using IH by (intro new_priv_version) simp_all
  then have "q_mpQmapNetDev (qmap_register_device (reg m) now m ?q) ! j =
      (if j < Suc m then registered reg now q j else q_mpQmapNetDev q ! j)" for j
    using Suc.prems IH by (auto simp: register_slot registered_def less_Suc_eq)
  then show ?case using Suc by (simp add: Let_def)
qed simp


lemma bind_fields:
  assumes "snd (qmi_wwan_bind mode bridge noarp data pid super n) = q"
  shows "q_mpQmapNetDev q = replicate 4 NoDev" "q_qmap_mode q \<le> QUECTEL_WWAN_QMAP" "q_net q = n"
    "dl_minimum_padding (q_tx_ctx q) = 0" "q_qmap_mode q > 1 \<Longrightarrow> q_use_rmnet_usb q"
  using assms
  by (auto simp: qmi_wwan_bind_def Let_def QUECTEL_WWAN_QMAP_def split: if_splits)

lemma u32_cases: "(w :: u32) = 0 \<or> w = 1 \<or> 1 < w"
proof -
  have "unat w = 0 \<or> unat w = 1 \<or> 1 < unat w" by linarith
  then show ?thesis by (auto simp: word_less_nat_alt word_unat_eq_iff)
qed

lemma unat_mode_le: "m \<le> QUECTEL_WWAN_QMAP \<Longrightarrow> unat m \<le> 4"
  by (simp add: QUECTEL_WWAN_QMAP_def word_le_nat_alt)

definition probed_slot :: "(nat \<Rightarrow> register_result) \<Rightarrow> int \<Rightarrow> sQmiWwanQmap \<Rightarrow> nat \<Rightarrow> slot" where
  "probed_slot reg now q i =
       (if i < unat (q_qmap_mode q) then
          (if q_qmap_mode q = 1 \<and> \<not> q_use_rmnet_usb q then RealDev
           else if reg i = RegOk then SubDev new_net (new_priv q i now) else NoDev)
        else NoDev)"

lemma probe_slots:
  assumes "snd (qmi_wwan_bind mode bridge noarp data pid super n) = q" "q' = qmap_qmi_wwan_probe reg now q"
  shows "length (q_mpQmapNetDev q') = 4" "q_qmap_mode q' = q_qmap_mode q" "q_use_rmnet_usb q' = q_use_rmnet_usb q"
    "q_tx_ctx q' = q_tx_ctx q" "q_link_state q' = q_link_state q"
    "i < 4 \<Longrightarrow> q_mpQmapNetDev q' ! i = probed_slot reg now q i"
proof -
  note b = bind_fields [OF assms(1)]
  have m: "unat (q_qmap_mode q) \<le> length (q_mpQmapNetDev q)" using b(1,2) unat_mode_le by simp
  note f = fold_register [OF m, of reg now, unfolded Let_def]
  let ?P = "\<lambda>q'. length (q_mpQmapNetDev q') = 4 \<and> q_qmap_mode q' = q_qmap_mode q \<and> q_use_rmnet_usb q' = q_use_rmnet_usb q \<and>
    q_tx_ctx q' = q_tx_ctx q \<and> q_link_state q' = q_link_state q \<and>
    (\<forall>i<4. q_mpQmapNetDev q' ! i = probed_slot reg now q i)"
  define q1 where "q1 = (if q_qmap_mode q = 1 then
                  (if q_use_rmnet_usb q then qmap_register_device (reg 0) now 0 q
                   else q\<lparr>q_mpQmapNetDev := (q_mpQmapNetDev q)[0 := RealDev]\<rparr>)
                else if q_qmap_mode q > 1 then
                  fold (\<lambda>i. qmap_register_device (reg i) now i) [0..<unat (q_qmap_mode q)] q
                else q)"
  have "?P q1"
  proof (cases "q_qmap_mode q = 1")
    case True
    then show ?thesis
      by (auto simp: q1_def b(1) register_slot nth_list_update probed_slot_def)
  next
    case False
    then show ?thesis
      using u32_cases [of "q_qmap_mode q"] b(1) f by (auto simp: q1_def registered_def probed_slot_def)
  qed
  then have "?P q'"
    by (simp add: assms(2) qmap_qmi_wwan_probe_def Let_def q1_def [symmetric])
  then show "length (q_mpQmapNetDev q') = 4" "q_qmap_mode q' = q_qmap_mode q" "q_use_rmnet_usb q' = q_use_rmnet_usb q"
    "q_tx_ctx q' = q_tx_ctx q" "q_link_state q' = q_link_state q"
    "i < 4 \<Longrightarrow> q_mpQmapNetDev q' ! i = probed_slot reg now q i"
    by blast+
qed


lemma probe_ready:
  assumes "snd (qmi_wwan_bind mode bridge noarp data pid super n) = q" "unat (nd_mtu n) < 2147483648"
  shows "qmap_wf (qmap_qmi_wwan_probe reg now q)" "sane_sizes (qmap_qmi_wwan_probe reg now q)"
    "list_all (\<lambda>i. reg i = RegOk) [0..<unat (q_qmap_mode q)] \<Longrightarrow> all_registered (qmap_qmi_wwan_probe reg now q)"
proof -
  let ?q = "qmap_qmi_wwan_probe reg now q"
  note b = bind_fields [OF assms(1)] and sl = probe_slots [OF assms(1) refl, where reg = reg and now = now]
  have slots: "q_mpQmapNetDev ?q = map (probed_slot reg now q) [0..<4]"
    using sl(1,6) by (intro nth_equalityI) simp_all
  have mtu: "unat (nd_mtu (q_net ?q)) < 2147483648"
  proof -
    have "nd_mtu (q_net (qmap_register_device r t i q0)) = nd_mtu (q_net q0)" for r t i q0
      by (simp add: qmap_register_device_def Let_def split: register_result.splits)
    then have "nd_mtu (q_net (fold (\<lambda>i. qmap_register_device (reg i) now i) xs q0)) = nd_mtu (q_net q0)" for xs q0
      by (induction xs arbitrary: q0) simp_all
    then show ?thesis
      using assms(2) b(3) by (simp add: qmap_qmi_wwan_probe_def Let_def qmap_register_device_def split: register_result.splits)
  qed
  show "qmap_wf ?q"
    using sl b by (auto simp: qmap_wf_def slots probed_slot_def split: if_splits)
  have mtu_slot: "unat (nd_mtu m) < 2147483648" if "slot_net ?q (probed_slot reg now q i) = Some m" for i m
    using that mtu by (auto simp: probed_slot_def slot_net_def new_net_def split: if_splits)
  show "sane_sizes ?q"
    using mtu_slot sl(4) b(4)
    by (auto simp: sane_sizes_def slots list_all_iff dl_min_padding_def split: option.splits)
  assume reg: "list_all (\<lambda>i. reg i = RegOk) [0..<unat (q_qmap_mode q)]"
  have "unat (q_qmap_mode q) \<le> 4" using b(2) by (rule unat_mode_le)
  then show "all_registered ?q"
    using reg sl(2) by (auto simp: all_registered_def list_all_iff slots probed_slot_def)
qed

section \<open>The link state invariant\<close>

definition sub_consistent :: "u32 \<Rightarrow> nat \<Rightarrow> slot \<Rightarrow> bool" where
  "sub_consistent ls i sl = (case sl of
     SubDev n p \<Rightarrow> (link_state p \<noteq> 0) = bit ls i \<and> nd_carrier n = (nd_up n \<and> link_state p \<noteq> 0)
   | _ \<Rightarrow> True)"

definition link_inv :: "sQmiWwanQmap \<Rightarrow> bool" where
  "link_inv q \<longleftrightarrow> length (q_mpQmapNetDev q) = 4 \<and> q_qmap_mode q \<le> QUECTEL_WWAN_QMAP \<and>
     (\<forall>i < unat (q_qmap_mode q). sub_consistent (q_link_state q) i (q_mpQmapNetDev q ! i))"

definition sub_up :: "bool \<Rightarrow> nat \<Rightarrow> sQmiWwanQmap \<Rightarrow> sQmiWwanQmap" where
  "sub_up up i q = (case q_mpQmapNetDev q ! i of
     SubDev n p \<Rightarrow> q\<lparr>q_mpQmapNetDev := (q_mpQmapNetDev q)[i := SubDev (n\<lparr>nd_up := up\<rparr>) p]\<rparr> | _ \<Rightarrow> q)"

text \<open>
  What happens to the link state: the attribute is written, a sub-device is opened (the core
  sets \<open>IFF_UP\<close> once \<open>ndo_open\<close> succeeded) or closed, the USB device goes up or down, its queue
  is stopped or woken.
\<close>

inductive link_step :: "sQmiWwanQmap \<Rightarrow> sQmiWwanQmap \<Rightarrow> bool" where
  store: "link_step q (link_state_set ls q)"
| opened: "i < unat (q_qmap_mode q) \<Longrightarrow> qmap_open i q = (0, q') \<Longrightarrow> link_step q (sub_up True i q')"
| closed: "i < unat (q_qmap_mode q) \<Longrightarrow> link_step q (sub_up False i (snd (qmap_stop i q)))"
| real: "link_step q (q\<lparr>q_net := n\<rparr>)"

definition link_init :: "sQmiWwanQmap \<Rightarrow> bool" where
  "link_init q \<longleftrightarrow> length (q_mpQmapNetDev q) = 4 \<and> q_qmap_mode q \<le> QUECTEL_WWAN_QMAP \<and> q_link_state q = 0 \<and>
     list_all (\<lambda>sl. case sl of SubDev n p \<Rightarrow> link_state p = 0 \<and> \<not> nd_up n \<and> \<not> nd_carrier n | _ \<Rightarrow> True) (q_mpQmapNetDev q)"

lemma sub_link_consistent:
  "sub_consistent old i sl \<Longrightarrow> sub_consistent new i (sub_link real new i sl)"
  by (auto simp: sub_consistent_def sub_link_def Let_def bit_iff_and_push_bit_not_eq_0 split: slot.splits)

lemma link_target_bits:
  assumes "link_state_target mode old ls = Some (new, off)" "mode \<le> QUECTEL_WWAN_QMAP"
    and "i < unat mode" "i \<noteq> unat off"
  shows "bit new i = bit old i"
proof (cases "mode > 1")
  case True
  have "i < 32" using assms(2,3) unat_mode_le [of mode] by linarith
  then show ?thesis
    using assms True
    by (auto simp: link_state_target_def Let_def bit_simps split: if_splits)
next
  case False
  then show ?thesis using assms u32_cases [of mode] by (auto simp: link_state_target_def split: if_splits)
qed


lemma link_target_off:
  assumes "link_state_target mode old ls = Some (new, off)" "mode \<le> QUECTEL_WWAN_QMAP"
  shows "unat off < 4"
  using assms unat_mode_le [of mode]
  by (auto simp: link_state_target_def Let_def word_le_nat_alt split: if_splits)

lemma link_inv_store: "link_inv q \<Longrightarrow> link_inv (link_state_set ls q)"
proof (cases "link_state_target (q_qmap_mode q) (q_link_state q) ls")
  case (Some r)
  assume inv: "link_inv q"
  obtain new off where r: "r = (new, off)" by (cases r)
  note t = Some [unfolded r]
  have m: "q_qmap_mode q \<le> QUECTEL_WWAN_QMAP" "length (q_mpQmapNetDev q) = 4" using inv by (simp_all add: link_inv_def)
  note o = link_target_off [OF t m(1)]
  show ?thesis
  proof (cases "q_link_state q = new")
    case False
    have "sub_consistent new i ((q_mpQmapNetDev q)[unat off := sub_link (q_net q) new (unat off) (q_mpQmapNetDev q ! unat off)] ! i)"
      if "i < unat (q_qmap_mode q)" for i
    proof (cases "i = unat off")
      case True
      then show ?thesis
        using o m(2) that inv sub_link_consistent [of "q_link_state q" "unat off" "q_mpQmapNetDev q ! unat off"]
        by (simp add: link_inv_def)
    next
      case False
      then have "sub_consistent (q_link_state q) i (q_mpQmapNetDev q ! i)" using inv that by (simp add: link_inv_def)
      then show ?thesis
        using link_target_bits [OF t m(1) that False] False by (auto simp: sub_consistent_def split: slot.splits)
    qed
    then show ?thesis using False t m by (simp add: link_state_set_def link_inv_def Let_def)
  qed (use t inv in \<open>simp add: link_state_set_def\<close>)
qed (simp add: link_state_set_def)

lemma link_inv_slot:
  assumes "link_inv q" "sub_consistent (q_link_state q) i sl"
  shows "link_inv (q\<lparr>q_net := n, q_mpQmapNetDev := (q_mpQmapNetDev q)[i := sl]\<rparr>)"
proof -
  have "sub_consistent (q_link_state q) j ((q_mpQmapNetDev q)[i := sl] ! j)" if "j < unat (q_qmap_mode q)" for j
  proof (cases "i = j")
    case True
    then show ?thesis using assms that unat_mode_le [of "q_qmap_mode q"] by (simp add: link_inv_def)
  next
    case False
    then show ?thesis using assms that by (simp add: link_inv_def)
  qed
  then show ?thesis using assms by (simp add: link_inv_def)
qed

lemma link_inv_opened:
  assumes "link_inv q" "qmap_open i q = (0, q')" "i < unat (q_qmap_mode q)"
  shows "link_inv (sub_up True i q')"
proof (cases "q_mpQmapNetDev q ! i")
  case (SubDev n p)
  have c: "sub_consistent (q_link_state q) i (SubDev n p)" "i < length (q_mpQmapNetDev q)"
    using assms SubDev unat_mode_le [of "q_qmap_mode q"] by (auto simp: link_inv_def)
  let ?n = "(if link_state p \<noteq> 0 then
      (if nd_stopped n \<and> \<not> nd_stopped (q_net q) then n\<lparr>nd_carrier := True, nd_stopped := False\<rparr> else n\<lparr>nd_carrier := True\<rparr>)
      else n)\<lparr>nd_up := True\<rparr>"
  have "sub_up True i q' = q\<lparr>q_net := q_net q', q_mpQmapNetDev := (q_mpQmapNetDev q)[i := SubDev ?n p]\<rparr>"
    using assms(2) SubDev c(2)
    by (auto simp: sub_up_def qmap_open_def Let_def ENETDOWN_def split: if_splits)
  moreover have "sub_consistent (q_link_state q) i (SubDev ?n p)" using c(1) by (auto simp: sub_consistent_def)
  ultimately show ?thesis using link_inv_slot [OF assms(1)] by simp
qed (use assms in \<open>auto simp: sub_up_def qmap_open_def\<close>)

lemma link_inv_closed:
  assumes "link_inv q" "i < unat (q_qmap_mode q)"
  shows "link_inv (sub_up False i (snd (qmap_stop i q)))"
proof (cases "q_mpQmapNetDev q ! i")
  case (SubDev n p)
  have c: "sub_consistent (q_link_state q) i (SubDev n p)" "i < length (q_mpQmapNetDev q)"
    using assms SubDev unat_mode_le [of "q_qmap_mode q"] by (auto simp: link_inv_def)
  have "sub_up False i (snd (qmap_stop i q)) =
      q\<lparr>q_net := q_net q, q_mpQmapNetDev := (q_mpQmapNetDev q)[i := SubDev (n\<lparr>nd_carrier := False, nd_up := False\<rparr>) p]\<rparr>"
    using SubDev c(2) by (simp add: sub_up_def qmap_stop_def)
  moreover have "sub_consistent (q_link_state q) i (SubDev (n\<lparr>nd_carrier := False, nd_up := False\<rparr>) p)"
    using c(1) by (auto simp: sub_consistent_def)
  ultimately show ?thesis using link_inv_slot [OF assms(1)] by (simp only:)
qed (use assms in \<open>auto simp: sub_up_def qmap_stop_def\<close>)

interpretation lk: inv_system link_init link_step link_inv
proof unfold_locales
  fix q
  assume i: "link_init q"
  have "sub_consistent (q_link_state q) i (q_mpQmapNetDev q ! i)" if "i < unat (q_qmap_mode q)" for i
  proof -
    have "q_mpQmapNetDev q ! i \<in> set (q_mpQmapNetDev q)"
      using i that unat_mode_le [of "q_qmap_mode q"] by (simp add: link_init_def)
    then have "case q_mpQmapNetDev q ! i of SubDev n p \<Rightarrow> link_state p = 0 \<and> \<not> nd_up n \<and> \<not> nd_carrier n | _ \<Rightarrow> True"
      using i unfolding link_init_def list_all_iff by blast
    moreover have "q_link_state q = 0" using i by (simp add: link_init_def)
    ultimately show ?thesis by (simp add: sub_consistent_def split: slot.splits)
  qed
  with i show "link_inv q" by (simp add: link_init_def link_inv_def)
next
  fix s t
  assume "link_step s t" "link_inv s"
  then show "link_inv t"
  proof (cases rule: link_step.cases)
    case (real n)
    then show ?thesis using \<open>link_inv s\<close> by (simp add: link_inv_def)
  qed (simp_all add: link_inv_store link_inv_opened link_inv_closed)
qed


lemma link_state_set_new:
  "link_state_target (q_qmap_mode q) (q_link_state q) ls = Some (new, off) \<Longrightarrow> q_link_state (link_state_set ls q) = new"
  by (simp add: link_state_set_def Let_def)

lemma link_state_set_bits:
  assumes "link_inv q" "1 < q_qmap_mode q" "i < unat (q_qmap_mode q)"
  shows "bit (q_link_state (link_state_set (of_nat (Suc i)) q)) i"
    and "\<not> bit (q_link_state (link_state_set (of_nat (Suc i) OR 0x80) q)) i"
proof -
  have i: "i < 4" and m: "q_qmap_mode q \<le> QUECTEL_WWAN_QMAP"
    using assms unat_mode_le [of "q_qmap_mode q"] by (auto simp: link_inv_def)
  have mode: "q_qmap_mode q \<noteq> 1" "\<not> q_qmap_mode q \<le> of_nat i"
    using assms(2,3) i by (auto simp: word_le_nat_alt unat_of_nat_u32)
  have w: "((of_nat (Suc i) :: u32) AND 0x7F) - 1 = of_nat i" "((of_nat (Suc i) OR 0x80 :: u32) AND 0x7F) - 1 = of_nat i"
    "(of_nat (Suc i) :: u32) AND 0x80 = 0" "(of_nat (Suc i) OR 0x80 :: u32) AND 0x80 \<noteq> 0" "unat (of_nat i :: u32) = i"
  proof -
    have "i = 0 \<or> i = 1 \<or> i = 2 \<or> i = 3" using i by linarith
    then show "((of_nat (Suc i) :: u32) AND 0x7F) - 1 = of_nat i" "((of_nat (Suc i) OR 0x80 :: u32) AND 0x7F) - 1 = of_nat i"
      "(of_nat (Suc i) :: u32) AND 0x80 = 0" "(of_nat (Suc i) OR 0x80 :: u32) AND 0x80 \<noteq> 0" "unat (of_nat i :: u32) = i"
      by (elim disjE; simp)+
  qed
  have "link_state_target (q_qmap_mode q) (q_link_state q) (of_nat (Suc i)) =
      Some (q_link_state q OR push_bit i 1, of_nat i)"
    and "link_state_target (q_qmap_mode q) (q_link_state q) (of_nat (Suc i) OR 0x80) =
      Some (q_link_state q AND NOT (push_bit i 1), of_nat i)"
    using mode assms(2) by (simp_all add: link_state_target_def Let_def w del: of_nat_Suc)
  then show "bit (q_link_state (link_state_set (of_nat (Suc i)) q)) i"
    and "\<not> bit (q_link_state (link_state_set (of_nat (Suc i) OR 0x80) q)) i"
    using i by (simp_all only: link_state_set_new) (simp_all add: bit_simps)
qed

lemma link_state_set_shape:
  assumes "link_inv q" "i < unat (q_qmap_mode q)" "q_mpQmapNetDev q ! i = SubDev n p"
  shows "\<exists>n' p'. q_mpQmapNetDev (link_state_set ls q) ! i = SubDev n' p' \<and> nd_up n' = nd_up n"
    and "q_qmap_mode (link_state_set ls q) = q_qmap_mode q"
proof -
  have i: "i < length (q_mpQmapNetDev q)" using assms unat_mode_le [of "q_qmap_mode q"] by (auto simp: link_inv_def)
  then show "\<exists>n' p'. q_mpQmapNetDev (link_state_set ls q) ! i = SubDev n' p' \<and> nd_up n' = nd_up n"
  proof (cases "link_state_target (q_qmap_mode q) (q_link_state q) ls")
    case (Some r)
    obtain new off where r: "r = (new, off)" by (cases r)
    have "\<exists>n' p'. sub_link (q_net q) new i (SubDev n p) = SubDev n' p' \<and> nd_up n' = nd_up n"
      by (simp add: sub_link_def Let_def)
    then show ?thesis
      using Some r assms(3) i by (cases "i = unat off") (simp_all add: link_state_set_def Let_def)
  qed (use assms(3) in \<open>simp add: link_state_set_def\<close>)
  show "q_qmap_mode (link_state_set ls q) = q_qmap_mode q"
    by (simp add: link_state_set_def Let_def split: option.splits prod.splits)
qed

lemma slot_link:
  assumes "link_inv q" "i < unat (q_qmap_mode q)" "q_mpQmapNetDev q ! i = SubDev n p"
  shows "(link_state p \<noteq> 0) = bit (q_link_state q) i" "nd_carrier n = (nd_up n \<and> link_state p \<noteq> 0)"
  using assms by (auto simp: link_inv_def sub_consistent_def)

section \<open>Sub-devices in turn\<close>

definition sub_fun :: "(net_device \<Rightarrow> net_device) \<Rightarrow> slot \<Rightarrow> slot" where
  "sub_fun f sl = (case sl of SubDev n p \<Rightarrow> SubDev (f n) p | _ \<Rightarrow> sl)"

lemma map_subs_slots:
  assumes "RealDev \<notin> set (q_mpQmapNetDev q)" "unat (q_qmap_mode q) \<le> length (q_mpQmapNetDev q)"
  shows "map_subs f q = q\<lparr>q_mpQmapNetDev := map (sub_fun f) (take (unat (q_qmap_mode q)) (q_mpQmapNetDev q))
            @ drop (unat (q_qmap_mode q)) (q_mpQmapNetDev q)\<rparr>"
proof -
  let ?g = "\<lambda>i q. case q_mpQmapNetDev q ! i of
       NoDev \<Rightarrow> q
     | RealDev \<Rightarrow> q\<lparr>q_net := f (q_net q)\<rparr>
     | SubDev n p \<Rightarrow> q\<lparr>q_mpQmapNetDev := (q_mpQmapNetDev q)[i := SubDev (f n) p]\<rparr>"
  have "fold ?g [0..<m] q = q\<lparr>q_mpQmapNetDev := map (sub_fun f) (take m (q_mpQmapNetDev q)) @ drop m (q_mpQmapNetDev q)\<rparr>"
    if "m \<le> length (q_mpQmapNetDev q)" for m
    using that
  proof (induction m)
    case (Suc m)
    then have m: "m < length (q_mpQmapNetDev q)" by simp
    then have "q_mpQmapNetDev q ! m \<noteq> RealDev" using assms(1) nth_mem by metis
    moreover have "take (Suc m) (q_mpQmapNetDev q) = take m (q_mpQmapNetDev q) @ [q_mpQmapNetDev q ! m]"
      and "drop m (q_mpQmapNetDev q) = q_mpQmapNetDev q ! m # drop (Suc m) (q_mpQmapNetDev q)"
      using m by (simp_all add: take_Suc_conv_app_nth Cons_nth_drop_Suc)
    ultimately show ?case
      using Suc m by (auto simp: nth_append list_update_append sub_fun_def split: slot.splits)
  qed simp
  then show ?thesis using assms(2) by (simp add: map_subs_def)
qed

lemma map_subs_nth:
  assumes "qmap_wf q" "q_use_rmnet_usb q" "i < unat (q_qmap_mode q)"
  shows "q_mpQmapNetDev (map_subs f q) ! i = sub_fun f (q_mpQmapNetDev q ! i)"
proof -
  have "unat (q_qmap_mode q) \<le> length (q_mpQmapNetDev q)"
    using assms(1) unat_mode_le [of "q_qmap_mode q"] by (simp add: qmap_wf_def)
  then show ?thesis
    using assms by (simp add: map_subs_slots qmap_wf_def nth_append)
qed

lemma unregister_slots:
  "i < length (q_mpQmapNetDev q) \<Longrightarrow> q_mpQmapNetDev q ! i \<noteq> RealDev \<Longrightarrow>
   qmap_unregister_device i q = q\<lparr>q_mpQmapNetDev := (q_mpQmapNetDev q)[i := NoDev]\<rparr>"
  by (auto simp: qmap_unregister_device_def split: slot.splits)
    (metis list_update_id sQmiWwanQmap.surjective sQmiWwanQmap.update_convs(3))

lemma fold_unregister:
  assumes "RealDev \<notin> set (q_mpQmapNetDev q)" "m \<le> length (q_mpQmapNetDev q)"
  shows "fold qmap_unregister_device [0..<m] q =
     q\<lparr>q_mpQmapNetDev := replicate m NoDev @ drop m (q_mpQmapNetDev q)\<rparr>"
  using assms(2)
proof (induction m)
  case (Suc m)
  let ?q = "q\<lparr>q_mpQmapNetDev := replicate m NoDev @ drop m (q_mpQmapNetDev q)\<rparr>"
  have d: "drop m (q_mpQmapNetDev q) = q_mpQmapNetDev q ! m # drop (Suc m) (q_mpQmapNetDev q)"
    using Suc.prems by (simp add: Cons_nth_drop_Suc)
  have "q_mpQmapNetDev q ! m \<noteq> RealDev" using assms(1) Suc.prems nth_mem by (metis Suc_le_lessD)
  then have "qmap_unregister_device m ?q = ?q\<lparr>q_mpQmapNetDev := (q_mpQmapNetDev ?q)[m := NoDev]\<rparr>"
    using Suc.prems by (intro unregister_slots) (simp_all add: nth_append)
  moreover have "(replicate m NoDev @ drop m (q_mpQmapNetDev q))[m := NoDev] =
      replicate (Suc m) NoDev @ drop (Suc m) (q_mpQmapNetDev q)"
    unfolding d by (simp add: list_update_append replicate_append_same [symmetric])
  ultimately show ?case using Suc by simp
qed simp

section \<open>Properties of the device control\<close>

text \<open>
  A device that has been bound and probed, whatever the module parameters, the device
  data and the product, with all its sub-devices registered, decodes every possible downlink
  frame to its end and delivers only blocks of that frame.
\<close>

theorem probed_device_decodes:
  assumes "snd (qmi_wwan_bind mode bridge noarp data pid super n) = q" "unat (nd_mtu n) < 2 ^ 31"
    and "list_all (\<lambda>i. reg i = RegOk) [0..<unat (q_qmap_mode q)]" "q' = qmap_qmi_wwan_probe reg now q"
  shows "case qmap_packet_decode q' alloc d of None \<Rightarrow> False
     | Some (fault, chain) \<Rightarrow> list_all (delivered_from q' d) chain \<and> 4 * length chain \<le> length d"
  using decode_spec [where q = q' and alloc = alloc and d = d] probe_ready [OF assms(1), of reg now] assms(2-4)
  by (auto split: option.splits)

theorem probed_device_decodes_witness:
  "let q = snd (qmi_wwan_bind 2 0 True 0x091F 0x0800 True sample_net);
       q' = qmap_qmi_wwan_probe (\<lambda>_. RegOk) 0 q in
   case qmap_packet_decode q' (\<lambda>_. True) [1, 2, 3, 4, 5, 6] of None \<Rightarrow> False
     | Some (fault, chain) \<Rightarrow> list_all (delivered_from q' [1, 2, 3, 4, 5, 6]) chain \<and> 4 * length chain \<le> length [1, 2, 3, 4, 5, 6 :: byte]"
  unfolding Let_def
  by (rule probed_device_decodes [OF refl _ _ refl]) (simp_all add: sample_net_def list_all_iff)

text \<open>
  The link state attribute commands the sub-devices: in every state reached from a probed
  device with its links down, by writing the attribute, opening and closing sub-devices and
  changes of the USB device, each sub-device's flag is its bit of the driver's link state and
  it has a carrier exactly when it is open and its link is up; writing \<open>i + 1\<close> brings link
  \<open>i\<close> up and writing \<open>0x80 | (i + 1)\<close> takes it down.
\<close>

theorem link_state_commands:
  assumes "link_init q0" "link_step\<^sup>*\<^sup>* q0 q" "1 < q_qmap_mode q" "i < unat (q_qmap_mode q)"
    and "q_mpQmapNetDev q ! i = SubDev n p"
  shows "(link_state p \<noteq> 0) = bit (q_link_state q) i \<and> nd_carrier n = (nd_up n \<and> link_state p \<noteq> 0) \<and>
     (case q_mpQmapNetDev (link_state_set (of_nat (Suc i)) q) ! i of
        SubDev n' p' \<Rightarrow> link_state p' \<noteq> 0 \<and> nd_carrier n' = nd_up n | _ \<Rightarrow> False) \<and>
     (case q_mpQmapNetDev (link_state_set (of_nat (Suc i) OR 0x80) q) ! i of
        SubDev n' p' \<Rightarrow> link_state p' = 0 \<and> \<not> nd_carrier n' | _ \<Rightarrow> False)"
proof -
  have inv: "link_inv q" using lk.reach_inv [OF assms(1,2)] .
  note shape = link_state_set_shape [OF inv assms(4,5)] and bits = link_state_set_bits [OF inv assms(3,4)]
  obtain n1 p1 where up: "q_mpQmapNetDev (link_state_set (of_nat (Suc i)) q) ! i = SubDev n1 p1" "nd_up n1 = nd_up n"
    using shape(1) by blast
  obtain n2 p2 where down: "q_mpQmapNetDev (link_state_set (of_nat (Suc i) OR 0x80) q) ! i = SubDev n2 p2"
    using shape(1) by blast
  note up' = slot_link [OF link_inv_store [OF inv] _ up(1)] and down' = slot_link [OF link_inv_store [OF inv] _ down]
  show ?thesis
    using slot_link [OF inv assms(4,5)] up up' down down' bits shape(2) assms(4) by simp
qed

theorem link_state_commands_witness:
  "let q = qmap_qmi_wwan_probe (\<lambda>_. RegOk) 0 (snd (qmi_wwan_bind 2 0 True 0x091F 0x0800 True sample_net)) in
   link_init q \<and> (case q_mpQmapNetDev (link_state_set 2 q) ! 1 of
        SubDev n' p' \<Rightarrow> link_state p' \<noteq> 0 \<and> \<not> nd_carrier n' | _ \<Rightarrow> False)"
proof -
  let ?q = "qmap_qmi_wwan_probe (\<lambda>_. RegOk) 0 (snd (qmi_wwan_bind 2 0 True 0x091F 0x0800 True sample_net))"
  have init: "link_init ?q" by code_simp
  have mode: "1 < q_qmap_mode ?q" "1 < unat (q_qmap_mode ?q)" by code_simp+
  have slot: "q_mpQmapNetDev ?q ! 1 = SubDev new_net (new_priv ?q 1 0)" by code_simp
  show ?thesis
    using link_state_commands [OF init rtranclp.rtrancl_refl mode slot] init
    by (simp add: Let_def new_net_def numeral_2_eq_2 split: slot.splits)
qed


text \<open>
  On a module that is not LTE-A, in a multiplexed mode, the driver starts with link 0
  marked up while sub-device 0 is down; writing 1 then changes nothing, and sub-device 0 never
  gets its carrier from it.
\<close>

theorem first_link_up_lost:
  assumes "1 < mode" "\<not> lte_a_product pid"
    and "q = qmap_qmi_wwan_probe (\<lambda>_. RegOk) now (snd (qmi_wwan_bind mode bridge True data pid False n))"
  shows "q_link_state q = 1 \<and> link_state_set 1 q = q \<and>
     (case q_mpQmapNetDev q ! 0 of SubDev m p \<Rightarrow> link_state p = 0 \<and> \<not> nd_carrier m | _ \<Rightarrow> False)"
proof -
  define q1 where "q1 = snd (qmi_wwan_bind mode bridge True data pid False n)"
  have "unat (data AND 0xFF) < 4096"
    using and_mask_less' [of 8 data] by (simp add: mask_eq_exp_minus_1 word_less_nat_alt)
  then have "\<not> (4096 :: u32) < data AND 0xFF" by (simp add: word_less_nat_alt)
  then have q1: "q_link_state q1 = 1" "1 < q_qmap_mode q1" "q_use_rmnet_usb q1"
    using assms(1,2) by (auto simp: q1_def qmi_wwan_bind_def Let_def QUECTEL_WWAN_QMAP_def word_less_nat_alt)
  note sl = probe_slots [OF q1_def [symmetric] refl, where reg = "\<lambda>_. RegOk" and now = now]
  have q: "q = qmap_qmi_wwan_probe (\<lambda>_. RegOk) now q1" using assms(3) by (simp add: q1_def)
  have "0 < unat (q_qmap_mode q1)" using q1(2) by (simp add: word_less_nat_alt)
  then have slot: "q_mpQmapNetDev q ! 0 = SubDev new_net (new_priv q1 0 now)"
    using sl(6) [of 0] q1 by (simp add: q probed_slot_def)
  have "link_state_target (q_qmap_mode q) (q_link_state q) 1 = Some (1, 0)"
    using q1 sl by (auto simp: q link_state_target_def word_le_nat_alt word_less_nat_alt)
  then show ?thesis
    using slot q1 sl by (simp add: q link_state_set_def new_net_def new_priv_def)
qed

theorem first_link_up_lost_witness:
  "\<exists>q. q = qmap_qmi_wwan_probe (\<lambda>_. RegOk) 0 (snd (qmi_wwan_bind 2 0 True 0x0504 0x0125 False sample_net)) \<and>
     q_link_state q = 1 \<and> link_state_set 1 q = q \<and>
     (case q_mpQmapNetDev q ! 0 of SubDev m p \<Rightarrow> link_state p = 0 \<and> \<not> nd_carrier m | _ \<Rightarrow> False)"
proof -
  have "1 < (2 :: u32)" "\<not> lte_a_product 0x0125" by (simp_all add: lte_a_product_def)
  from first_link_up_lost [OF this refl] show ?thesis by blast
qed

text \<open>
  Registering a sub-device overwrites the hardware address of the USB device with the
  all-zero address of the new device (the arguments of \<open>eth_hw_addr_set\<close> are swapped), and the
  sub-device keeps that zero address.
\<close>

theorem register_clears_address:
  assumes "res \<noteq> RegNoMem" "i < length (q_mpQmapNetDev q)"
  shows "nd_addr (q_net (qmap_register_device res now i q)) = replicate 6 0 \<and>
     (res = RegOk \<longrightarrow> (case q_mpQmapNetDev (qmap_register_device res now i q) ! i of
        SubDev n p \<Rightarrow> nd_addr n = replicate 6 0 | _ \<Rightarrow> False))"
  using assms by (cases res) (simp_all add: qmap_register_device_def Let_def new_net_def)

theorem register_clears_address_witness:
  "nd_addr (q_net sample_dev) = [2, 1, 2, 3, 4, 5] \<and>
   nd_addr (q_net (qmap_register_device RegOk 0 2 sample_dev)) = replicate 6 0"
  using register_clears_address [of RegOk 2 sample_dev 0] by (simp add: sample_dev_def sample_net_def)

text \<open>
  Flow control reaches every sub-device: when a transmission stops the USB queue, all
  registered sub-devices are stopped, and when the queue runs again every sub-device that has
  a carrier is woken.
\<close>

theorem flow_control:
  assumes "qmap_wf q" "q_use_rmnet_usb q" "i < unat (q_qmap_mode q)"
    and "q_mpQmapNetDev q ! i = SubDev n p"
  shows "(case q_mpQmapNetDev (qmi_wwan_start_xmit True q) ! i of
        SubDev n' p' \<Rightarrow> n' = n\<lparr>nd_stopped := True\<rparr> \<and> p' = p | _ \<Rightarrow> False) \<and>
     (case q_mpQmapNetDev (usbnet_bh False (qmi_wwan_start_xmit True q)) ! i of
        SubDev n' p' \<Rightarrow> nd_stopped n' = (\<not> nd_carrier n) \<and> p' = p | _ \<Rightarrow> False)"
proof -
  define q1 where "q1 = q\<lparr>q_net := (q_net q)\<lparr>nd_stopped := True\<rparr>\<rparr>"
  have q1: "qmap_wf q1" "q_use_rmnet_usb q1" "i < unat (q_qmap_mode q1)" "q_mpQmapNetDev q1 ! i = SubDev n p"
    using assms by (simp_all add: q1_def qmap_wf_def)
  define q2 where "q2 = map_subs (\<lambda>n. n\<lparr>nd_stopped := True\<rparr>) q1"
  have x: "qmi_wwan_start_xmit True q = q2"
    using assms(2) by (simp add: qmi_wwan_start_xmit_def q1_def q2_def)
  have s2: "q_mpQmapNetDev q2 ! i = SubDev (n\<lparr>nd_stopped := True\<rparr>) p"
    using map_subs_nth [OF q1(1-3)] q1(4) by (simp add: q2_def sub_fun_def)
  have len: "unat (q_qmap_mode q1) \<le> length (q_mpQmapNetDev q1)"
    using q1(1) unat_mode_le [of "q_qmap_mode q1"] by (simp add: qmap_wf_def)
  have eq2: "q2 = q1\<lparr>q_mpQmapNetDev := map (sub_fun (\<lambda>n. n\<lparr>nd_stopped := True\<rparr>)) (take (unat (q_qmap_mode q1)) (q_mpQmapNetDev q1))
      @ drop (unat (q_qmap_mode q1)) (q_mpQmapNetDev q1)\<rparr>"
    unfolding q2_def using q1(1,2) len by (intro map_subs_slots) (simp_all add: qmap_wf_def)
  define q3 where "q3 = q2\<lparr>q_net := (q_net q2)\<lparr>nd_stopped := False\<rparr>\<rparr>"
  have "RealDev \<notin> set (q_mpQmapNetDev q2)"
    using q1(1,2) by (auto simp: eq2 qmap_wf_def sub_fun_def split: slot.splits dest: in_set_takeD in_set_dropD)
  then have q3: "qmap_wf q3" "q_use_rmnet_usb q3" "i < unat (q_qmap_mode q3)"
    using q1 len by (simp_all add: q3_def eq2 qmap_wf_def)
  have "q_mpQmapNetDev (qmap_wake_queue q3) ! i =
      sub_fun (\<lambda>n. if nd_carrier n \<and> nd_stopped n then n\<lparr>nd_stopped := False\<rparr> else n) (q_mpQmapNetDev q3 ! i)"
    using map_subs_nth [OF q3] q3(2) by (simp add: qmap_wake_queue_def)
  moreover have "usbnet_bh False q2 = qmap_wake_queue q3" by (simp add: usbnet_bh_def q3_def)
  ultimately show ?thesis using s2 by (simp add: x q3_def sub_fun_def)
qed

theorem flow_control_witness:
  "case q_mpQmapNetDev (usbnet_bh False (qmi_wwan_start_xmit True sample_dev)) ! 1 of
        SubDev n' p' \<Rightarrow> \<not> nd_stopped n' \<and> p' = sample_priv 1 | _ \<Rightarrow> False"
proof -
  have "qmap_wf sample_dev" "q_use_rmnet_usb sample_dev" "1 < unat (q_qmap_mode sample_dev)"
      "q_mpQmapNetDev sample_dev ! 1 = SubDev sample_net (sample_priv 1)"
    by (simp_all add: qmap_wf_def sample_dev_def QUECTEL_WWAN_QMAP_def)
  from flow_control [OF this] show ?thesis by (auto simp: sample_net_def split: slot.splits)
qed

text \<open>
  Disconnecting a multiplexed device removes every sub-device it uses and takes the link
  down.
\<close>

theorem disconnect_removes_all:
  assumes "qmap_wf q" "1 < q_qmap_mode q"
  shows "take (unat (q_qmap_mode q)) (q_mpQmapNetDev (qmap_qmi_wwan_disconnect q)) = replicate (unat (q_qmap_mode q)) NoDev \<and>
     q_link_state (qmap_qmi_wwan_disconnect q) = 0"
proof -
  define m where "m = unat (q_qmap_mode q)"
  define q1 where "q1 = q\<lparr>q_link_state := 0\<rparr>"
  have len: "m \<le> length (q_mpQmapNetDev q1)" "0 < m" and nr: "RealDev \<notin> set (q_mpQmapNetDev q1)"
    using assms unat_mode_le [of "q_qmap_mode q"] by (auto simp: q1_def m_def qmap_wf_def word_less_nat_alt)
  define q2 where "q2 = fold qmap_unregister_device [0..<m] q1"
  have q2: "q2 = q1\<lparr>q_mpQmapNetDev := replicate m NoDev @ drop m (q_mpQmapNetDev q1)\<rparr>"
    unfolding q2_def by (rule fold_unregister [OF nr len(1)])
  have "q_mpQmapNetDev q2 ! 0 = NoDev" using len(2) by (simp add: q2 nth_append)
  then have "qmap_unregister_device 0 q2 = q2" by (simp add: qmap_unregister_device_def)
  then have "qmap_qmi_wwan_disconnect q = q2"
    using assms(2) by (simp add: qmap_qmi_wwan_disconnect_def q1_def [symmetric] Let_def q2_def m_def)
      (simp add: q1_def)
  then show ?thesis using len by (simp add: q2 q1_def m_def)
qed

theorem disconnect_removes_all_witness:
  "take 2 (q_mpQmapNetDev (qmap_qmi_wwan_disconnect sample_dev)) = replicate 2 NoDev"
proof -
  have "qmap_wf sample_dev" "1 < q_qmap_mode sample_dev"
    by (simp_all add: qmap_wf_def sample_dev_def QUECTEL_WWAN_QMAP_def)
  moreover have "unat (q_qmap_mode sample_dev) = 2" by (simp add: sample_dev_def)
  ultimately show ?thesis using disconnect_removes_all [of sample_dev] by simp
qed


text \<open>
  The ioctl of the connection manager and the attribute agree: when \<open>simple_strtoul\<close>
  reads back what \<open>snprintf\<close> printed, the ioctl sets exactly the link state it is given; and
  the settings ioctl turns aggregation on once, never off or to another size.
\<close>

theorem ioctl_link_state:
  assumes "\<And>w. simple_strtoul (print w) 0 = ucast w"
  shows "qmap_ndo_do_ioctl simple_strtoul print len 0 (IoctlLinkState ls) q = (0, link_state_set ls q) \<and>
     (case qmap_ndo_do_ioctl simple_strtoul print len 0 (IoctlSettings st) q of
        (rc, q1) \<Rightarrow> (1 < ul_data_aggregation_max_datagrams (q_tx_ctx q1) \<longrightarrow>
           q_tx_ctx (snd (qmap_ndo_do_ioctl simple_strtoul print len 0 (IoctlSettings st') q1)) = q_tx_ctx q1))"
  using assms by (simp add: qmap_ndo_do_ioctl_def link_state_store_def qma_setting_store_def Let_def ucast_u64_u32)

theorem ioctl_link_state_witness:
  "\<exists>su pr. (\<forall>w. su (pr w) 0 = ucast w) \<and>
     qmap_ndo_do_ioctl su pr 32 0 (IoctlLinkState 2) sample_dev = (0, link_state_set 2 sample_dev)"
proof -
  define pr where "pr w = replicate (unat (w :: u32)) CHR ''1''" for w
  define su :: "string \<Rightarrow> nat \<Rightarrow> u64" where "su s b = of_nat (length s)" for s b
  have "su (pr w) 0 = ucast w" for w by (simp add: su_def pr_def)
  with ioctl_link_state [of su pr 32 2 sample_dev] show ?thesis by blast
qed

lemma manage_power_step:
  assumes "needs_remote_wakeup s = (0 < pmcount s)" "0 \<le> pmcount s" "0 \<le> pmcount s + (if on then 1 else - 1)"
  shows "pmcount (qmi_wwan_manage_power on s) = pmcount s + (if on then 1 else - 1)"
    "needs_remote_wakeup (qmi_wwan_manage_power on s) = (0 < pmcount (qmi_wwan_manage_power on s))"
  using assms by (auto simp: qmi_wwan_manage_power_def Let_def)

text \<open>
  Power: whatever sequence of requests the subdriver and the device make, as long as none
  is withdrawn that was not made, remote wakeup is wanted exactly while a request is held.
\<close>

theorem manage_power_counts:
  assumes "\<And>k. k \<le> length ons \<Longrightarrow> 0 \<le> sum_list (map (\<lambda>on. if on then 1 else - 1 :: int) (take k ons))"
  shows "let s = fold qmi_wwan_manage_power ons \<lparr>pmcount = 0, needs_remote_wakeup = False\<rparr> in
     pmcount s = sum_list (map (\<lambda>on. if on then 1 else - 1) ons) \<and> needs_remote_wakeup s = (0 < pmcount s)"
  using assms
proof (induction ons rule: rev_induct)
  case (snoc x ons)
  let ?s = "fold qmi_wwan_manage_power ons \<lparr>pmcount = 0, needs_remote_wakeup = False\<rparr>"
  let ?sum = "\<lambda>xs. sum_list (map (\<lambda>on. if on then 1 else - 1 :: int) xs)"
  have "0 \<le> ?sum (take k ons)" if "k \<le> length ons" for k
    using snoc.prems [of k] that by simp
  from snoc.IH [OF this] have IH: "pmcount ?s = ?sum ons" "needs_remote_wakeup ?s = (0 < pmcount ?s)"
    by (simp_all add: Let_def)
  moreover have "0 \<le> ?sum ons" using snoc.prems [of "length ons"] by simp
  moreover have "0 \<le> ?sum (ons @ [x])" using snoc.prems [of "length (ons @ [x])"] by simp
  ultimately show ?case using manage_power_step [of ?s x] by (simp add: Let_def)
qed simp

theorem manage_power_counts_witness:
  "needs_remote_wakeup (fold qmi_wwan_manage_power [True, True, False] \<lparr>pmcount = 0, needs_remote_wakeup = False\<rparr>)"
proof -
  have "0 \<le> sum_list (map (\<lambda>on. if on then 1 else - 1 :: int) (take k [True, True, False]))" if "k \<le> 3" for k
  proof -
    have "k = 0 \<or> k = 1 \<or> k = 2 \<or> k = 3" using that by linarith
    then show ?thesis by (elim disjE) simp_all
  qed
  with manage_power_counts [of "[True, True, False]"] show ?thesis by (simp add: Let_def)
qed

text \<open>
  Suspending is all or nothing: with the device awake, a suspend that fails leaves both
  parts awake (when the compensating resume works) and one that succeeds leaves both asleep;
  and a failing resume leaves the subdriver asleep again (when its suspend works).
\<close>

theorem suspend_resume_atomic:
  "(case qmi_wwan_suspend sub res of (ret, calls) \<Rightarrow>
      fold (pm_effect res) calls (False, False) =
        (if 0 \<le> ret then (True, sub) else (0 \<le> res UsbSuspend \<and> res UsbResume < 0, False))) \<and>
   (case qmi_wwan_resume sub res of (ret, calls) \<Rightarrow>
      fold (pm_effect res) calls (True, sub) =
        (if 0 \<le> ret then (False, False)
         else (True, sub \<and> (res SubResume < 0 \<or> 0 \<le> res SubSuspend))))"
  by (auto simp: qmi_wwan_suspend_def qmi_wwan_resume_def pm_effect_def Let_def)

end
