(* ===== verification/MhiRing.thy ===== *)
theory MhiRing
  imports Prelude
begin

text \<open>
  The transfer rings of the PCIe driver (\<open>quectel_MHI/src/core/mhi_main.c\<close>): ring pointers as
  byte addresses, and a channel with its two rings in step, the transfer ring of descriptors
  the device reads and the ring of buffer records the host keeps. Functions that queue a
  buffer, process a completion event and reset a channel return the calls they make to the
  rest of the driver as a list.
\<close>

section \<open>Rings\<close>

record mhi_ring =
  base :: nat
  rp :: nat
  wp :: nat
  el_size :: nat
  len :: nat
  elements :: nat
  iommu_base :: nat

definition mhi_add_ring_element :: "mhi_ring \<Rightarrow> mhi_ring" where
  "mhi_add_ring_element r =
     (let w = wp r + el_size r in r\<lparr>wp := (if base r + len r \<le> w then base r else w)\<rparr>)"

definition mhi_del_ring_element :: "mhi_ring \<Rightarrow> mhi_ring" where
  "mhi_del_ring_element r =
     (let p = rp r + el_size r in r\<lparr>rp := (if base r + len r \<le> p then base r else p)\<rparr>)"

definition get_nr_avail_ring_elements :: "mhi_ring \<Rightarrow> int" where
  "get_nr_avail_ring_elements r =
     (if wp r < rp r then int ((rp r - wp r) div el_size r) - 1
      else int ((rp r - base r) div el_size r) + (int ((base r + len r - wp r) div el_size r) - 1))"

definition get_used_ring_elements :: "nat \<Rightarrow> nat \<Rightarrow> u32 \<Rightarrow> u32" where
  "get_used_ring_elements p w el_num =
     (if p \<le> w then of_nat ((w - p) div 16) else el_num - of_nat ((p - w) div 16))"

definition mhi_to_virtual :: "mhi_ring \<Rightarrow> nat \<Rightarrow> nat" where
  "mhi_to_virtual r addr = nat ((int addr - int (iommu_base r) + int (base r)) mod 2 ^ 64)"
  \<comment> \<open>64-bit arithmetic: the device may name any address\<close>

definition mhi_to_physical :: "mhi_ring \<Rightarrow> nat \<Rightarrow> nat" where
  "mhi_to_physical r addr = (addr - base r) + iommu_base r"

definition mhi_recycle_ev_ring_element :: "mhi_ring \<Rightarrow> mhi_ring \<times> nat" where
  "mhi_recycle_ev_ring_element r =
     (let r1 = mhi_add_ring_element r in (mhi_del_ring_element r1, iommu_base r1 + (wp r1 - base r1)))"
  \<comment> \<open>the second component is what is stored in the context's write pointer\<close>

definition mhi_is_ring_full :: "mhi_ring \<Rightarrow> bool" where
  "mhi_is_ring_full r =
     (let tmp = wp r + el_size r in (if base r + len r \<le> tmp then base r else tmp) = rp r)"

section \<open>Channels\<close>

text \<open>The states of \<open>MHI_PM_STATE\<close>, one bit each.\<close>

definition MHI_PM_DISABLE :: u32 where "MHI_PM_DISABLE = 0x001"
definition MHI_PM_POR :: u32 where "MHI_PM_POR = 0x002"
definition MHI_PM_M0 :: u32 where "MHI_PM_M0 = 0x004"
definition MHI_PM_M2 :: u32 where "MHI_PM_M2 = 0x008"
definition MHI_PM_M3_ENTER :: u32 where "MHI_PM_M3_ENTER = 0x010"
definition MHI_PM_M3 :: u32 where "MHI_PM_M3 = 0x020"
definition MHI_PM_M3_EXIT :: u32 where "MHI_PM_M3_EXIT = 0x040"
definition MHI_PM_FW_DL_ERR :: u32 where "MHI_PM_FW_DL_ERR = 0x080"
definition MHI_PM_SYS_ERR_DETECT :: u32 where "MHI_PM_SYS_ERR_DETECT = 0x100"
definition MHI_PM_SYS_ERR_PROCESS :: u32 where "MHI_PM_SYS_ERR_PROCESS = 0x200"
definition MHI_PM_SHUTDOWN_PROCESS :: u32 where "MHI_PM_SHUTDOWN_PROCESS = 0x400"
definition MHI_PM_LD_ERR_FATAL_DETECT :: u32 where "MHI_PM_LD_ERR_FATAL_DETECT = 0x800"

definition MHI_PM_IN_ERROR_STATE :: "u32 \<Rightarrow> bool" where
  "MHI_PM_IN_ERROR_STATE s = (MHI_PM_FW_DL_ERR \<le> s)"

definition MHI_DB_ACCESS_VALID :: "u32 \<Rightarrow> bool" where
  "MHI_DB_ACCESS_VALID s = (s AND MHI_PM_M0 \<noteq> 0)"

definition MHI_PM_IN_SUSPEND_STATE :: "u32 \<Rightarrow> bool" where
  "MHI_PM_IN_SUSPEND_STATE s = (s AND (MHI_PM_M3_ENTER OR MHI_PM_M3) \<noteq> 0)"

text \<open>A buffer record and a transfer descriptor.\<close>

record mhi_buf_info =
  p_addr :: u64
  cb_buf :: nat
  b_wp :: nat
  b_len :: nat
  pre_mapped :: bool
  b_used :: bool

record mhi_tre =
  t_ptr :: u64
  t_dword0 :: u32
  t_dword1 :: u32

definition MHI_MAX_MTU :: u32 where "MHI_MAX_MTU = 0xffff"

definition MHI_TRE_DATA_DWORD1 :: "bool \<Rightarrow> bool \<Rightarrow> bool \<Rightarrow> bool \<Rightarrow> u32" where
  "MHI_TRE_DATA_DWORD1 bei ieot ieob chain =
     push_bit 16 2 OR (if bei then push_bit 10 1 else 0) OR (if ieot then push_bit 9 1 else 0)
     OR (if ieob then push_bit 8 1 else 0) OR (if chain then 1 else 0)"

record db_cfg =
  reset_req :: bool
  db_mode :: bool
  brstmode :: bool               \<comment> \<open>\<open>process_db\<close> is \<open>mhi_db_brstmode\<close>, otherwise \<open>mhi_db_brstmode_disable\<close>\<close>
  db_val :: nat

record mhi_chan =
  buf_ring :: mhi_ring
  tre_ring :: mhi_ring
  bufs :: "mhi_buf_info list"    \<comment> \<open>the memory of \<open>buf_ring\<close>\<close>
  tres :: "mhi_tre list"         \<comment> \<open>the memory of \<open>tre_ring\<close>\<close>
  to_device :: bool              \<comment> \<open>\<open>dir == DMA_TO_DEVICE\<close>, otherwise from the device\<close>
  ch_enabled :: bool             \<comment> \<open>\<open>ch_state == MHI_CH_STATE_ENABLED\<close>\<close>
  pre_alloc :: bool
  offload_ch :: bool
  intmod :: bool
  ch_db :: db_cfg
  tre_ctxt_wp :: nat             \<comment> \<open>the write pointer in the channel context, \<open>*tre_ring.ctxt_wp\<close>\<close>
  used_events :: "u32 list"

record mhi_cntrl =
  pm_state :: u32
  pending_pkts :: int

text \<open>Calls to the rest of the driver and to the client.\<close>

datatype mhi_call =
    RuntimeGet | RuntimePut | WakeGet bool | WakePut bool
  | WriteDb nat | Unmap nat | Kfree nat
  | XferCb nat nat int          \<comment> \<open>buffer, bytes transferred, transaction status\<close>
  | BadTre | UnknownCompletion

definition ENOMEM :: int where "ENOMEM = 12"
definition EIO :: int where "EIO = 5"
definition EOVERFLOW :: int where "EOVERFLOW = 75"
definition ENOTCONN :: int where "ENOTCONN = 107"

definition ring_slot :: "mhi_ring \<Rightarrow> nat \<Rightarrow> nat" where
  "ring_slot r a = (a - base r) div el_size r"

text \<open>
  Filling the records at the write pointers. \<open>map_single\<close> of the controller returns a code
  and a bus address; the fields \<open>used\<close> and \<open>pre_mapped\<close> of a record stay as they were.
\<close>

definition fill_buf :: "mhi_chan \<Rightarrow> nat \<Rightarrow> nat \<Rightarrow> u64 \<Rightarrow> mhi_chan" where
  "fill_buf ch cb n addr = ch\<lparr>bufs := (bufs ch)[ring_slot (buf_ring ch) (wp (buf_ring ch)) :=
      (bufs ch ! ring_slot (buf_ring ch) (wp (buf_ring ch)))
        \<lparr>cb_buf := cb, b_wp := wp (tre_ring ch), b_len := n, p_addr := addr\<rparr>]\<rparr>"

definition fill_tre :: "mhi_chan \<Rightarrow> u64 \<Rightarrow> nat \<Rightarrow> u32 \<Rightarrow> mhi_chan" where
  "fill_tre ch addr n dw1 = ch\<lparr>tres := (tres ch)[ring_slot (tre_ring ch) (wp (tre_ring ch)) :=
      \<lparr>t_ptr = addr, t_dword0 = of_nat n AND MHI_MAX_MTU, t_dword1 = dw1\<rparr>]\<rparr>"

definition advance_wp :: "mhi_chan \<Rightarrow> mhi_chan" where
  "advance_wp ch = ch\<lparr>tre_ring := mhi_add_ring_element (tre_ring ch), buf_ring := mhi_add_ring_element (buf_ring ch)\<rparr>"

definition advance_rp :: "mhi_chan \<Rightarrow> mhi_chan" where
  "advance_rp ch = ch\<lparr>buf_ring := mhi_del_ring_element (buf_ring ch), tre_ring := mhi_del_ring_element (tre_ring ch)\<rparr>"

type_synonym map_single = "nat \<Rightarrow> int \<times> u64"

definition assert_wake :: "mhi_cntrl \<Rightarrow> mhi_chan \<Rightarrow> bool" where
  "assert_wake c ch = (to_device ch \<or> pm_state c \<noteq> MHI_PM_M0)"

definition resume_calls :: "mhi_cntrl \<Rightarrow> mhi_call list" where
  "resume_calls c = (if MHI_PM_IN_SUSPEND_STATE (pm_state c) then [RuntimeGet, RuntimePut] else [])"

definition count_pending :: "mhi_cntrl \<Rightarrow> mhi_chan \<Rightarrow> mhi_cntrl \<times> mhi_call list" where
  "count_pending c ch =
     (if to_device ch then (c\<lparr>pending_pkts := pending_pkts c + 1\<rparr>, if pending_pkts c + 1 = 1 then [RuntimeGet] else [])
      else (c, []))"

definition mhi_db_brstmode :: "db_cfg \<Rightarrow> nat \<Rightarrow> db_cfg \<times> mhi_call list" where
  "mhi_db_brstmode cfg w =
     (if db_mode cfg then (cfg\<lparr>db_val := w, db_mode := False\<rparr>, [WriteDb w]) else (cfg, []))"

definition mhi_db_brstmode_disable :: "db_cfg \<Rightarrow> nat \<Rightarrow> db_cfg \<times> mhi_call list" where
  "mhi_db_brstmode_disable cfg w = (cfg\<lparr>db_val := w\<rparr>, [WriteDb w])"

definition process_db :: "db_cfg \<Rightarrow> nat \<Rightarrow> db_cfg \<times> mhi_call list" where
  "process_db cfg w = (if brstmode cfg then mhi_db_brstmode cfg w else mhi_db_brstmode_disable cfg w)"

definition mhi_ring_chan_db :: "mhi_chan \<Rightarrow> mhi_chan \<times> mhi_call list" where
  "mhi_ring_chan_db ch =
     (let db = iommu_base (tre_ring ch) + (wp (tre_ring ch) - base (tre_ring ch)); (cfg, log) = process_db (ch_db ch) db
      in (ch\<lparr>tre_ctxt_wp := db, ch_db := cfg\<rparr>, log))"

definition ring_db :: "mhi_cntrl \<Rightarrow> mhi_chan \<Rightarrow> mhi_chan \<times> mhi_call list" where
  "ring_db c ch = (if MHI_DB_ACCESS_VALID (pm_state c) then mhi_ring_chan_db ch else (ch, []))"

definition mhi_queue_skb ::
  "map_single \<Rightarrow> nat \<Rightarrow> nat \<Rightarrow> mhi_cntrl \<Rightarrow> mhi_chan \<Rightarrow> int \<times> mhi_cntrl \<times> mhi_chan \<times> mhi_call list" where
  "mhi_queue_skb map1 skb n c ch =
     (if mhi_is_ring_full (tre_ring ch) then (- ENOMEM, c, ch, [])
      else if MHI_PM_IN_ERROR_STATE (pm_state c) then (- EIO, c, ch, [])
      else let aw = assert_wake c ch;
               log1 = resume_calls c @ (if aw then [WakeGet False] else []);
               (ret, addr) = map1 skb;
               ch1 = fill_buf ch skb n addr in
        if ret \<noteq> 0 then (ret, c, ch1, log1 @ (if aw then [WakePut False] else []))
        else let ch2 = fill_tre ch1 addr n (MHI_TRE_DATA_DWORD1 True True False False);
                 (c1, log2) = count_pending c ch;
                 (ch3, log3) = ring_db c1 (advance_wp ch2)
             in (0, c1, ch3, log1 @ log2 @ log3 @ (if \<not> to_device ch \<and> aw then [WakePut True] else [])))"

definition mhi_gen_tre ::
  "map_single \<Rightarrow> nat \<Rightarrow> nat \<Rightarrow> bool \<Rightarrow> bool \<Rightarrow> bool \<Rightarrow> mhi_chan \<Rightarrow> int \<times> mhi_chan" where
  "mhi_gen_tre map1 buf n eot eob chain ch =
     (let (ret, addr) = map1 buf; ch1 = fill_buf ch buf n addr in
      if ret \<noteq> 0 then (ret, ch1)
      else (0, advance_wp (fill_tre ch1 addr n (MHI_TRE_DATA_DWORD1 (intmod ch) eot eob chain))))"

definition mhi_queue_buf ::
  "map_single \<Rightarrow> nat \<Rightarrow> nat \<Rightarrow> bool \<Rightarrow> bool \<Rightarrow> bool \<Rightarrow> mhi_cntrl \<Rightarrow> mhi_chan
     \<Rightarrow> int \<times> mhi_cntrl \<times> mhi_chan \<times> mhi_call list" where
  "mhi_queue_buf map1 buf n eot eob chain c ch =
     (if MHI_PM_IN_ERROR_STATE (pm_state c) then (- EIO, c, ch, [])
      else if mhi_is_ring_full (tre_ring ch) then (- ENOMEM, c, ch, [])
      else let (ret, ch1) = mhi_gen_tre map1 buf n eot eob chain ch in
        if ret \<noteq> 0 then (ret, c, ch1, [])
        else let aw = assert_wake c ch1; (c1, log2) = count_pending c ch1; (ch2, log3) = ring_db c1 ch1 in
          (0, c1, ch2, resume_calls c @ (if aw then [WakeGet False] else []) @ log2 @ log3
             @ (if \<not> to_device ch1 \<and> aw then [WakePut True] else [])))"

definition mhi_get_no_free_descriptors :: "mhi_chan \<Rightarrow> int" where
  "mhi_get_no_free_descriptors ch = (if offload_ch ch then 0 else get_nr_avail_ring_elements (tre_ring ch))"

section \<open>Completion and reset\<close>

definition MHI_EV_CC_EOT :: u32 where "MHI_EV_CC_EOT = 2"
definition MHI_EV_CC_OVERFLOW :: u32 where "MHI_EV_CC_OVERFLOW = 3"
definition MHI_EV_CC_EOB :: u32 where "MHI_EV_CC_EOB = 4"
definition MHI_EV_CC_OOB :: u32 where "MHI_EV_CC_OOB = 5"
definition MHI_EV_CC_DB_MODE :: u32 where "MHI_EV_CC_DB_MODE = 6"
definition MHI_EV_CC_BAD_TRE :: u32 where "MHI_EV_CC_BAD_TRE = 0x11"

definition MHI_TRE_GET_EV_CODE :: "mhi_tre \<Rightarrow> u32" where
  "MHI_TRE_GET_EV_CODE e = drop_bit 24 (t_dword0 e) AND 0xFF"

definition MHI_TRE_GET_EV_LEN :: "mhi_tre \<Rightarrow> nat" where
  "MHI_TRE_GET_EV_LEN e = unat (t_dword0 e AND 0xFFFF)"

definition uncount_pending :: "mhi_cntrl \<Rightarrow> mhi_chan \<Rightarrow> mhi_cntrl \<times> mhi_call list" where
  "uncount_pending c ch =
     (if to_device ch then (c\<lparr>pending_pkts := pending_pkts c - 1\<rparr>, if pending_pkts c - 1 = 0 then [RuntimePut] else [])
      else (c, []))"

definition buf_at_rp :: "mhi_chan \<Rightarrow> mhi_buf_info" where
  "buf_at_rp ch = bufs ch ! ring_slot (buf_ring ch) (rp (buf_ring ch))"

text \<open>One turn of the completion loop, with the recycling of a pre-allocated buffer.\<close>

definition xfer_one :: "map_single \<Rightarrow> nat \<Rightarrow> int \<Rightarrow> mhi_cntrl \<Rightarrow> mhi_chan \<Rightarrow> mhi_cntrl \<times> mhi_chan \<times> mhi_call list" where
  "xfer_one map1 n status c ch =
     (let b = buf_at_rp ch;
          slot = ring_slot (buf_ring ch) (rp (buf_ring ch));
          log0 = (if pre_mapped b then [] else [Unmap (cb_buf b)]);
          ch1 = advance_rp ch;
          (c1, log1) = uncount_pending c ch1;
          log2 = log0 @ [XferCb (cb_buf b) n status] @ log1 @ (if to_device ch1 then [WakePut False] else [])
      in if pre_alloc ch1 then
           let b1 = bufs ch1 ! slot; (ret, c2, ch2, log3) = mhi_queue_buf map1 (cb_buf b1) (b_len b1) True False False c1 ch1
           in (c2, ch2, log2 @ log3 @ (if ret \<noteq> 0 then [Kfree (cb_buf (bufs ch2 ! slot))] else []))
         else (c1, ch1, log2))"

partial_function (option) xfer_loop ::
  "map_single \<Rightarrow> nat \<Rightarrow> nat \<Rightarrow> int \<Rightarrow> mhi_cntrl \<Rightarrow> mhi_chan \<Rightarrow> (mhi_cntrl \<times> mhi_chan \<times> mhi_call list) option" where
  "xfer_loop map1 dev_rp n status c ch =
     (if rp (tre_ring ch) = dev_rp then Some (c, ch, [])
      else case xfer_one map1 n status c ch of (c1, ch1, log1) \<Rightarrow>
        Option.bind (xfer_loop map1 dev_rp n status c1 ch1) (\<lambda>(c2, ch2, log2). Some (c2, ch2, log1 @ log2)))"

text \<open>Where the device's read pointer is after the descriptor an event points to.\<close>

definition event_rp :: "mhi_ring \<Rightarrow> mhi_tre \<Rightarrow> nat" where
  "event_rp r ev = (let ev_tre = mhi_to_virtual r (unat (t_ptr ev)); dev_rp = (ev_tre + 16) mod 2 ^ 64 in
     if base r + len r \<le> dev_rp then base r else dev_rp)"

definition count_event :: "u32 \<Rightarrow> mhi_chan \<Rightarrow> mhi_chan" where
  "count_event code ch = ch\<lparr>used_events := (used_events ch)[unat code := used_events ch ! unat code + 1]\<rparr>"

definition parse_xfer_event ::
  "map_single \<Rightarrow> mhi_tre \<Rightarrow> mhi_cntrl \<Rightarrow> mhi_chan \<Rightarrow> (mhi_cntrl \<times> mhi_chan \<times> mhi_call list) option" where
  "parse_xfer_event map1 ev c ch =
     (let code = MHI_TRE_GET_EV_CODE ev;
          status = (if code = MHI_EV_CC_OVERFLOW then - EOVERFLOW else 0) in
      if \<not> ch_enabled ch then Some (c, ch, [])
      else if code = MHI_EV_CC_OVERFLOW \<or> code = MHI_EV_CC_EOB \<or> code = MHI_EV_CC_EOT then
        xfer_loop map1 (event_rp (tre_ring ch) ev) (MHI_TRE_GET_EV_LEN ev) status c (count_event code ch)
      else if code = MHI_EV_CC_OOB \<or> code = MHI_EV_CC_DB_MODE then
        let ch1 = (count_event code ch)\<lparr>ch_db := (ch_db ch)\<lparr>db_mode := True\<rparr>\<rparr> in
        Some (c, if wp (tre_ring ch1) \<noteq> rp (tre_ring ch1) then ring_db c ch1 else (ch1, []))
      else Some (c, ch, [if code = MHI_EV_CC_BAD_TRE then BadTre else UnknownCompletion]))"

text \<open>One turn of the loop of \<open>mhi_reset_data_chan\<close>.\<close>

definition reset_one :: "mhi_cntrl \<Rightarrow> mhi_chan \<Rightarrow> mhi_cntrl \<times> mhi_chan \<times> mhi_call list" where
  "reset_one c ch =
     (let b = buf_at_rp ch; (c1, log1) = uncount_pending c ch in
      (c1, advance_rp ch,
       log1 @ (if to_device ch then [WakePut False] else []) @ (if pre_mapped b then [] else [Unmap (cb_buf b)])
         @ [if pre_alloc ch then Kfree (cb_buf b) else XferCb (cb_buf b) 0 (- ENOTCONN)]))"

partial_function (option) mhi_reset_data_chan ::
  "mhi_cntrl \<Rightarrow> mhi_chan \<Rightarrow> (mhi_cntrl \<times> mhi_chan \<times> mhi_call list) option" where
  "mhi_reset_data_chan c ch =
     (if rp (tre_ring ch) = wp (tre_ring ch) then Some (c, ch, [])
      else case reset_one c ch of (c1, ch1, log1) \<Rightarrow>
        Option.bind (mhi_reset_data_chan c1 ch1) (\<lambda>(c2, ch2, log2). Some (c2, ch2, log1 @ log2)))"

section \<open>Ring indices\<close>

text \<open>A ring as it is set up: whole elements, both pointers at element boundaries.\<close>

definition slot_addr :: "mhi_ring \<Rightarrow> nat \<Rightarrow> bool" where
  "slot_addr r a \<longleftrightarrow> base r \<le> a \<and> a < base r + len r \<and> (a - base r) mod el_size r = 0"

definition ring_wf :: "mhi_ring \<Rightarrow> bool" where
  "ring_wf r \<longleftrightarrow> 0 < el_size r \<and> 0 < elements r \<and> len r = elements r * el_size r \<and> slot_addr r (rp r) \<and> slot_addr r (wp r)"

abbreviation ix :: "mhi_ring \<Rightarrow> nat \<Rightarrow> nat" where
  "ix \<equiv> ring_slot"

definition used :: "mhi_ring \<Rightarrow> nat" where
  "used r = (ix r (wp r) + elements r - ix r (rp r)) mod elements r"

lemma slot_addr_ix:
  assumes "ring_wf r" "slot_addr r a"
  shows "a = base r + ix r a * el_size r" "ix r a < elements r"
proof -
  from assms have a: "base r \<le> a" "a < base r + len r" "(a - base r) mod el_size r = 0" "0 < el_size r"
      "len r = elements r * el_size r"
    by (auto simp: slot_addr_def ring_wf_def)
  then have "ix r a * el_size r = a - base r" by (simp add: ring_slot_def minus_mod_eq_div_mult [symmetric])
  then show "a = base r + ix r a * el_size r" using a by linarith
  have "a - base r < elements r * el_size r" using a by linarith
  then show "ix r a < elements r" using a(4) by (simp add: ring_slot_def less_mult_imp_div_less)
qed

lemma slot_addr_end:
  assumes "ring_wf r" "slot_addr r a"
  shows "a + el_size r \<le> base r + len r"
proof -
  note a = slot_addr_ix [OF assms]
  have "Suc (ix r a) * el_size r \<le> elements r * el_size r" using a(2) by (intro mult_le_mono) auto
  then show ?thesis using a(1) assms(1) by (simp add: ring_wf_def)
qed

lemma slot_addr_mult:
  "ring_wf r \<Longrightarrow> i < elements r \<Longrightarrow> slot_addr r (base r + i * el_size r) \<and> ix r (base r + i * el_size r) = i"
  by (auto simp: slot_addr_def ring_wf_def ring_slot_def)

lemma slot_addr_inj: "ring_wf r \<Longrightarrow> slot_addr r a \<Longrightarrow> slot_addr r b \<Longrightarrow> ix r a = ix r b \<Longrightarrow> a = b"
  using slot_addr_ix(1) by metis

text \<open>The successor of an element, as every routine of the driver computes it.\<close>

definition next_addr :: "mhi_ring \<Rightarrow> nat \<Rightarrow> nat" where
  "next_addr r a = (let b = a + el_size r in if base r + len r \<le> b then base r else b)"

lemma next_addr_ix:
  assumes "ring_wf r" "slot_addr r a"
  shows "slot_addr r (next_addr r a)" "ix r (next_addr r a) = Suc (ix r a) mod elements r"
proof -
  note a = slot_addr_ix [OF assms]
  have r: "0 < el_size r" "0 < elements r" "len r = elements r * el_size r" using assms(1) by (auto simp: ring_wf_def)
  have nxt: "next_addr r a = base r + (Suc (ix r a) mod elements r) * el_size r"
  proof (cases "Suc (ix r a) = elements r")
    case True
    then have "base r + len r \<le> a + el_size r" using a(1) r(3) by (metis add.assoc add.commute mult_Suc order_refl)
    then show ?thesis using True by (simp add: next_addr_def Let_def)
  next
    case False
    then have "Suc (ix r a) < elements r" using a(2) by simp
    then have "Suc (ix r a) * el_size r < len r" unfolding r(3) using r(1) by (rule mult_less_mono1)
    moreover have "a + el_size r = base r + Suc (ix r a) * el_size r" using a(1) by simp
    ultimately show ?thesis using False a(2) by (simp add: next_addr_def Let_def)
  qed
  have "Suc (ix r a) mod elements r < elements r" using r(2) by simp
  from slot_addr_mult [OF assms(1) this] nxt
  show "slot_addr r (next_addr r a)" "ix r (next_addr r a) = Suc (ix r a) mod elements r" by simp_all
qed

lemma ring_ops_next:
  "mhi_add_ring_element r = r\<lparr>wp := next_addr r (wp r)\<rparr>"
  "mhi_del_ring_element r = r\<lparr>rp := next_addr r (rp r)\<rparr>"
  "mhi_is_ring_full r \<longleftrightarrow> next_addr r (wp r) = rp r"
  by (simp_all add: mhi_add_ring_element_def mhi_del_ring_element_def mhi_is_ring_full_def next_addr_def Let_def)


lemma next_addr_cong [simp]:
  "next_addr (r\<lparr>wp := w\<rparr>) a = next_addr r a" "next_addr (r\<lparr>rp := w\<rparr>) a = next_addr r a"
  "ix (r\<lparr>wp := w\<rparr>) a = ix r a" "ix (r\<lparr>rp := w\<rparr>) a = ix r a"
  "slot_addr (r\<lparr>wp := w\<rparr>) a = slot_addr r a" "slot_addr (r\<lparr>rp := w\<rparr>) a = slot_addr r a"
  by (simp_all add: next_addr_def ring_slot_def slot_addr_def Let_def)

text \<open>Arithmetic modulo the number of elements.\<close>

lemma mod_dist:
  assumes "j < (n :: nat)" "i < n"
  shows "(j + n - i) mod n = (if i \<le> j then j - i else j + n - i)"
proof (cases "i \<le> j")
  case True
  then have "(j + n - i) mod n = (j - i + n) mod n" by simp
  then show ?thesis using True assms by (simp only: mod_add_self2) simp
qed (use assms in simp)

lemma mod_dist_Suc:
  assumes "i < n" "j < (n :: nat)" "Suc j mod n \<noteq> i"
  shows "(Suc j mod n + n - i) mod n = Suc ((j + n - i) mod n)"
proof (cases "Suc j = n")
  case True
  then show ?thesis using assms mod_dist [of j n i] mod_dist [of 0 n i] by auto
next
  case False
  then have "Suc j mod n = Suc j" using assms(2) by simp
  then show ?thesis using False assms mod_dist [of j n i] mod_dist [of "Suc j" n i] by auto
qed

lemma mod_dist_pred:
  assumes "i < n" "j < (n :: nat)" "i \<noteq> j"
  shows "Suc ((j + n - Suc i mod n) mod n) = (j + n - i) mod n"
proof (cases "Suc i = n")
  case True
  then show ?thesis using assms mod_dist [of j n i] mod_dist [of j n 0] by auto
next
  case False
  then have "Suc i mod n = Suc i" using assms(1) by simp
  then show ?thesis using False assms mod_dist [of j n i] mod_dist [of j n "Suc i"] by auto
qed

lemma ring_used:
  assumes "ring_wf r"
  shows "used r < elements r" "used r = 0 \<longleftrightarrow> rp r = wp r"
    "mhi_is_ring_full r \<longleftrightarrow> used r = elements r - 1"
proof -
  have w: "slot_addr r (wp r)" "slot_addr r (rp r)" "0 < elements r" using assms by (auto simp: ring_wf_def)
  note i = slot_addr_ix(2) [OF assms w(1)] slot_addr_ix(2) [OF assms w(2)]
  show lt: "used r < elements r" using w(3) by (simp add: used_def)
  show z: "used r = 0 \<longleftrightarrow> rp r = wp r"
  proof
    assume "used r = 0"
    then have "ix r (rp r) = ix r (wp r)"
      using i mod_dist_pred [of "ix r (rp r)" "elements r" "ix r (wp r)"] by (fastforce simp: used_def)
    then show "rp r = wp r" using slot_addr_inj assms w by blast
  qed (simp add: used_def)
  note n = next_addr_ix [OF assms w(1)]
  show "mhi_is_ring_full r \<longleftrightarrow> used r = elements r - 1"
  proof
    assume "mhi_is_ring_full r"
    then have "Suc (ix r (wp r)) mod elements r = ix r (rp r)" using n(2) by (simp add: ring_ops_next)
    then show "used r = elements r - 1"
      using i by (cases "Suc (ix r (wp r)) = elements r") (auto simp: used_def)
  next
    assume u: "used r = elements r - 1"
    have "Suc (ix r (wp r)) mod elements r = ix r (rp r)"
    proof (rule ccontr)
      assume "Suc (ix r (wp r)) mod elements r \<noteq> ix r (rp r)"
      from mod_dist_Suc [OF i(2,1) this] u w(3)
      have "(Suc (ix r (wp r)) mod elements r + elements r - ix r (rp r)) mod elements r = elements r"
        by (simp add: used_def)
      then show False using w(3) by (metis mod_less_divisor less_irrefl)
    qed
    then have "next_addr r (wp r) = rp r" using n w(2) assms slot_addr_inj by metis
    then show "mhi_is_ring_full r" by (simp add: ring_ops_next)
  qed
qed

lemma ring_add:
  assumes "ring_wf r" "\<not> mhi_is_ring_full r"
  shows "ring_wf (mhi_add_ring_element r)" "used (mhi_add_ring_element r) = Suc (used r)"
    "ix r (wp (mhi_add_ring_element r)) = Suc (ix r (wp r)) mod elements r"
proof -
  have w: "slot_addr r (wp r)" "slot_addr r (rp r)" using assms by (auto simp: ring_wf_def)
  note n = next_addr_ix [OF assms(1) w(1)] and i = slot_addr_ix(2) [OF assms(1)]
  show "ring_wf (mhi_add_ring_element r)" using assms(1) n(1) by (simp add: ring_ops_next ring_wf_def)
  have "Suc (ix r (wp r)) mod elements r \<noteq> ix r (rp r)"
    using assms(2) n slot_addr_inj [OF assms(1) n(1) w(2)] by (auto simp: ring_ops_next)
  then show "used (mhi_add_ring_element r) = Suc (used r)"
    using mod_dist_Suc [OF i [OF w(2)] i [OF w(1)]] n(2) by (simp add: used_def ring_ops_next)
  show "ix r (wp (mhi_add_ring_element r)) = Suc (ix r (wp r)) mod elements r"
    using n(2) by (simp add: ring_ops_next)
qed

lemma ring_del:
  assumes "ring_wf r" "rp r \<noteq> wp r"
  shows "ring_wf (mhi_del_ring_element r)" "Suc (used (mhi_del_ring_element r)) = used r"
    "ix r (rp (mhi_del_ring_element r)) = Suc (ix r (rp r)) mod elements r"
proof -
  have w: "slot_addr r (wp r)" "slot_addr r (rp r)" using assms by (auto simp: ring_wf_def)
  note n = next_addr_ix [OF assms(1) w(2)] and i = slot_addr_ix(2) [OF assms(1)]
  show "ring_wf (mhi_del_ring_element r)" using assms(1) n(1) by (simp add: ring_ops_next ring_wf_def)
  have "ix r (rp r) \<noteq> ix r (wp r)" using assms slot_addr_inj [OF assms(1) w(2,1)] by blast
  then show "Suc (used (mhi_del_ring_element r)) = used r"
    using mod_dist_pred [OF i [OF w(2)] i [OF w(1)]] n(2) by (simp add: used_def ring_ops_next)
  show "ix r (rp (mhi_del_ring_element r)) = Suc (ix r (rp r)) mod elements r"
    using n(2) by (simp add: ring_ops_next)
qed


lemma ring_avail:
  assumes "ring_wf r"
  shows "get_nr_avail_ring_elements r = int (elements r) - 1 - int (used r)"
proof -
  have w: "slot_addr r (wp r)" "slot_addr r (rp r)" "0 < el_size r" "len r = elements r * el_size r"
    using assms by (auto simp: ring_wf_def)
  define i j where "i = ix r (rp r)" and "j = ix r (wp r)"
  have ij: "rp r = base r + i * el_size r" "wp r = base r + j * el_size r" "i < elements r" "j < elements r"
    using slot_addr_ix [OF assms w(1)] slot_addr_ix [OF assms w(2)] by (simp_all add: i_def j_def)
  have u: "used r = (if i \<le> j then j - i else j + elements r - i)"
    using mod_dist [OF ij(4,3)] by (simp add: used_def i_def j_def)
  have lt: "wp r < rp r \<longleftrightarrow> j < i" using ij(1,2) w(3) by simp
  have "(rp r - wp r) div el_size r = i - j"
    using w(3) by (simp add: ij diff_mult_distrib [symmetric])
  moreover have "(rp r - base r) div el_size r = i" using w(3) by (simp add: ij)
  moreover have "(base r + len r - wp r) div el_size r = elements r - j"
    using w(3) by (simp add: ij w(4) diff_mult_distrib [symmetric])
  ultimately show ?thesis using lt u ij(3,4) by (auto simp: get_nr_avail_ring_elements_def)
qed

section \<open>The channel as a bounded queue\<close>

definition chan_wf :: "mhi_chan \<Rightarrow> bool" where
  "chan_wf ch \<longleftrightarrow> ring_wf (tre_ring ch) \<and> ring_wf (buf_ring ch) \<and> elements (tre_ring ch) = elements (buf_ring ch) \<and>
     ix (tre_ring ch) (rp (tre_ring ch)) = ix (buf_ring ch) (rp (buf_ring ch)) \<and>
     ix (tre_ring ch) (wp (tre_ring ch)) = ix (buf_ring ch) (wp (buf_ring ch)) \<and>
     length (bufs ch) = elements (buf_ring ch)"

definition outstanding :: "mhi_chan \<Rightarrow> mhi_buf_info list" where
  "outstanding ch = map (\<lambda>k. bufs ch ! ((ix (buf_ring ch) (rp (buf_ring ch)) + k) mod elements (buf_ring ch)))
     [0..<used (buf_ring ch)]"

definition chan_cap :: "mhi_chan \<Rightarrow> nat" where
  "chan_cap ch = elements (buf_ring ch) - 1"

definition chan_full :: "mhi_chan \<Rightarrow> bool" where
  "chan_full ch = mhi_is_ring_full (tre_ring ch)"

definition chan_put :: "mhi_buf_info \<Rightarrow> mhi_chan \<Rightarrow> mhi_chan" where
  "chan_put b ch = advance_wp (ch\<lparr>bufs := (bufs ch)[ix (buf_ring ch) (wp (buf_ring ch)) := b]\<rparr>)"

lemma chan_used: "chan_wf ch \<Longrightarrow> used (tre_ring ch) = used (buf_ring ch)"
  by (simp add: chan_wf_def used_def)

lemma outstanding_length [simp]: "length (outstanding ch) = used (buf_ring ch)"
  by (simp add: outstanding_def)

lemma ix_add_mod:
  assumes "ring_wf r" "k < used r"
  shows "(ix r (rp r) + k) mod elements r \<noteq> ix r (wp r)"
proof -
  have w: "slot_addr r (wp r)" "slot_addr r (rp r)" using assms by (auto simp: ring_wf_def)
  define i j n where "i = ix r (rp r)" and "j = ix r (wp r)" and "n = elements r"
  have ij: "i < n" "j < n" using slot_addr_ix(2) [OF assms(1) w(1)] slot_addr_ix(2) [OF assms(1) w(2)]
    by (simp_all add: i_def j_def n_def)
  have u: "used r = (if i \<le> j then j - i else j + n - i)"
    using mod_dist [OF ij(2,1)] by (simp add: used_def i_def j_def n_def)
  have "(i + k) mod n \<noteq> j"
  proof (cases "i + k < n")
    case False
    then have "(i + k) mod n = (i + k - n) mod n" by (simp add: le_mod_geq)
    also have "\<dots> = i + k - n" using ij assms(2) u by (intro mod_less) (auto split: if_splits)
    finally have "(i + k) mod n = i + k - n" .
    then show ?thesis using False assms(2) u ij by (auto split: if_splits)
  qed (use assms(2) u ij in \<open>auto split: if_splits\<close>)
  then show ?thesis by (simp add: i_def j_def n_def)
qed


lemma chan_put_laws:
  assumes "chan_wf ch" "\<not> chan_full ch"
  shows "chan_wf (chan_put b ch) \<and> outstanding (chan_put b ch) = outstanding ch @ [b] \<and> chan_cap (chan_put b ch) = chan_cap ch"
proof -
  let ?t = "tre_ring ch" and ?r = "buf_ring ch"
  have wf: "ring_wf ?t" "ring_wf ?r" "elements ?t = elements ?r" "length (bufs ch) = elements ?r" using assms(1) by (auto simp: chan_wf_def)
  have full: "\<not> mhi_is_ring_full ?t" "\<not> mhi_is_ring_full ?r"
    using assms ring_used(3) [OF wf(1)] ring_used(3) [OF wf(2)] chan_used [OF assms(1)] wf(3) by (auto simp: chan_full_def)
  note t = ring_add [OF wf(1) full(1)] and r = ring_add [OF wf(2) full(2)]
  have new: "chan_put b ch = ch\<lparr>bufs := (bufs ch)[ix ?r (wp ?r) := b], tre_ring := mhi_add_ring_element ?t,
      buf_ring := mhi_add_ring_element ?r\<rparr>"
    by (simp add: chan_put_def advance_wp_def)
  have ops: "rp (mhi_add_ring_element q) = rp q" "elements (mhi_add_ring_element q) = elements q"
      "ix (mhi_add_ring_element q) a = ix q a" for q a
    by (simp_all add: ring_ops_next)
  have cwf: "chan_wf (chan_put b ch)"
    using assms(1) t r wf by (simp add: chan_wf_def new ops)
  have w: "ix ?r (wp ?r) < length (bufs ch)"
    using slot_addr_ix(2) [OF wf(2)] wf(2,4) by (simp add: ring_wf_def)
  have old: "(bufs ch)[ix ?r (wp ?r) := b] ! ((ix ?r (rp ?r) + k) mod elements ?r) = bufs ch ! ((ix ?r (rp ?r) + k) mod elements ?r)"
    if "k < used ?r" for k
    using ix_add_mod [OF wf(2) that] by simp
  have "(ix ?r (rp ?r) + used ?r) mod elements ?r = ix ?r (wp ?r)"
  proof -
    have i: "ix ?r (rp ?r) < elements ?r" "ix ?r (wp ?r) < elements ?r"
      using slot_addr_ix(2) [OF wf(2)] wf(2) by (simp_all add: ring_wf_def)
    then have "ix ?r (rp ?r) + used ?r = ix ?r (wp ?r) \<or> ix ?r (rp ?r) + used ?r = ix ?r (wp ?r) + elements ?r"
      using mod_dist [OF i(2,1)] by (auto simp: used_def)
    then show ?thesis using i by auto
  qed
  then have "outstanding (chan_put b ch) = outstanding ch @ [b]"
    using r(2) old w by (simp add: outstanding_def new ops)
  with cwf show ?thesis by (simp add: chan_cap_def new ops)
qed

lemma chan_get_laws:
  assumes "chan_wf ch" "outstanding ch \<noteq> []"
  shows "chan_wf (advance_rp ch) \<and> outstanding (advance_rp ch) = tl (outstanding ch) \<and> chan_cap (advance_rp ch) = chan_cap ch"
    and "buf_at_rp ch = hd (outstanding ch)"
proof -
  let ?t = "tre_ring ch" and ?r = "buf_ring ch"
  have wf: "ring_wf ?t" "ring_wf ?r" "elements ?t = elements ?r" "length (bufs ch) = elements ?r" using assms(1) by (auto simp: chan_wf_def)
  have u: "used ?r \<noteq> 0" using assms(2) by (metis outstanding_length length_0_conv)
  have ne: "rp ?t \<noteq> wp ?t" "rp ?r \<noteq> wp ?r"
    using u ring_used(2) [OF wf(1)] ring_used(2) [OF wf(2)] chan_used [OF assms(1)] by auto
  note t = ring_del [OF wf(1) ne(1)] and r = ring_del [OF wf(2) ne(2)]
  have ops: "wp (mhi_del_ring_element q) = wp q" "elements (mhi_del_ring_element q) = elements q"
      "ix (mhi_del_ring_element q) a = ix q a" for q a
    by (simp_all add: ring_ops_next)
  have cwf: "chan_wf (advance_rp ch)"
    using assms(1) t r wf by (simp add: chan_wf_def advance_rp_def ops)
  have shift: "(Suc (ix ?r (rp ?r)) mod elements ?r + k) mod elements ?r = (ix ?r (rp ?r) + Suc k) mod elements ?r" for k
    by (simp add: mod_add_left_eq)
  obtain m where m: "used ?r = Suc m" using u not0_implies_Suc by blast
  have "outstanding (advance_rp ch) = map (\<lambda>k. bufs ch ! ((ix ?r (rp ?r) + Suc k) mod elements ?r)) [0..<m]"
    using r(2,3) m by (simp add: outstanding_def advance_rp_def ops shift)
  moreover have "outstanding ch = bufs ch ! (ix ?r (rp ?r) mod elements ?r) #
      map (\<lambda>k. bufs ch ! ((ix ?r (rp ?r) + Suc k) mod elements ?r)) [0..<m]"
    unfolding outstanding_def m by (simp only: upt_rec [of 0 "Suc m"] map_Suc_upt [symmetric]) (simp add: comp_def)
  moreover have "ix ?r (rp ?r) < elements ?r" using slot_addr_ix(2) [OF wf(2)] wf(2) by (simp add: ring_wf_def)
  ultimately show "chan_wf (advance_rp ch) \<and> outstanding (advance_rp ch) = tl (outstanding ch) \<and> chan_cap (advance_rp ch) = chan_cap ch"
    and "buf_at_rp ch = hd (outstanding ch)"
    using cwf by (simp_all add: chan_cap_def advance_rp_def ops buf_at_rp_def)
qed

interpretation chan: bounded_fifo chan_wf outstanding chan_cap chan_full chan_put advance_rp
proof unfold_locales
  fix ch
  assume wf: "chan_wf ch"
  then have r: "ring_wf (tre_ring ch)" "elements (tre_ring ch) = elements (buf_ring ch)" by (auto simp: chan_wf_def)
  show "chan_full ch \<longleftrightarrow> length (outstanding ch) = chan_cap ch"
    using ring_used(3) [OF r(1)] chan_used [OF wf] r(2) by (simp add: chan_full_def chan_cap_def)
  show "length (outstanding ch) \<le> chan_cap ch"
    using ring_used(1) [OF r(1)] chan_used [OF wf] r(2) by (simp add: chan_cap_def)
qed (use chan_put_laws chan_get_laws(1) in blast)+


section \<open>Queueing\<close>

lemma ring_db_frame [simp]:
  "tre_ring (fst (ring_db c ch)) = tre_ring ch" "buf_ring (fst (ring_db c ch)) = buf_ring ch" "bufs (fst (ring_db c ch)) = bufs ch"
  "tres (fst (ring_db c ch)) = tres ch"
  "to_device (fst (ring_db c ch)) = to_device ch" "pre_alloc (fst (ring_db c ch)) = pre_alloc ch"
  "ch_enabled (fst (ring_db c ch)) = ch_enabled ch" "offload_ch (fst (ring_db c ch)) = offload_ch ch"
  by (simp_all add: ring_db_def mhi_ring_chan_db_def Let_def split: prod.splits)

lemma count_event_frame [simp]:
  "tre_ring (count_event code ch) = tre_ring ch" "buf_ring (count_event code ch) = buf_ring ch" "bufs (count_event code ch) = bufs ch"
  "to_device (count_event code ch) = to_device ch" "pre_alloc (count_event code ch) = pre_alloc ch"
  "ch_enabled (count_event code ch) = ch_enabled ch" "offload_ch (count_event code ch) = offload_ch ch"
  by (simp_all add: count_event_def)

lemma chan_queue_frame [simp]:
  "chan_wf (fst (ring_db c ch)) = chan_wf ch" "outstanding (fst (ring_db c ch)) = outstanding ch"
  "chan_wf (count_event code ch) = chan_wf ch" "outstanding (count_event code ch) = outstanding ch"
  by (simp_all add: chan_wf_def outstanding_def)

lemma chan_tres [simp]:
  "chan_wf (ch\<lparr>tres := t\<rparr>) = chan_wf ch" "outstanding (ch\<lparr>tres := t\<rparr>) = outstanding ch"
  by (simp_all add: chan_wf_def outstanding_def)

lemma advance_wp_fill:
  "advance_wp (fill_tre (fill_buf ch cb n addr) a m dw) =
     (chan_put ((bufs ch ! ix (buf_ring ch) (wp (buf_ring ch)))\<lparr>cb_buf := cb, b_wp := wp (tre_ring ch), b_len := n, p_addr := addr\<rparr>) ch)
       \<lparr>tres := (tres ch)[ix (tre_ring ch) (wp (tre_ring ch)) := \<lparr>t_ptr = a, t_dword0 = of_nat m AND MHI_MAX_MTU, t_dword1 = dw\<rparr>]\<rparr>"
  by (simp add: advance_wp_def fill_tre_def fill_buf_def chan_put_def)

lemma chan_static [simp]:
  "to_device (chan_put b ch) = to_device ch" "to_device (fill_buf ch cb n addr) = to_device ch"
  "to_device (advance_rp ch) = to_device ch" "pre_alloc (advance_rp ch) = pre_alloc ch"
  by (simp_all add: chan_put_def advance_wp_def fill_buf_def advance_rp_def)

lemma fill_buf_unqueued:
  assumes "chan_wf ch"
  shows "chan_wf (fill_buf ch cb n addr)" "outstanding (fill_buf ch cb n addr) = outstanding ch"
proof -
  have r: "ring_wf (buf_ring ch)" using assms by (simp add: chan_wf_def)
  show "chan_wf (fill_buf ch cb n addr)" using assms by (simp add: chan_wf_def fill_buf_def)
  have "ix (buf_ring ch) (wp (buf_ring ch)) \<noteq> (ix (buf_ring ch) (rp (buf_ring ch)) + k) mod elements (buf_ring ch)"
    if "k < used (buf_ring ch)" for k
    using ix_add_mod [OF r that] by simp
  then show "outstanding (fill_buf ch cb n addr) = outstanding ch"
    by (simp add: outstanding_def fill_buf_def)
qed

text \<open>What queueing did: nothing on an error, one more buffer at the end on success.\<close>

definition queued :: "nat \<Rightarrow> nat \<Rightarrow> int \<Rightarrow> mhi_cntrl \<Rightarrow> mhi_chan \<Rightarrow> mhi_cntrl \<Rightarrow> mhi_chan \<Rightarrow> bool" where
  "queued cb n ret c ch c' ch' \<longleftrightarrow> chan_wf ch' \<and>
     (if ret = 0 then map cb_buf (outstanding ch') = map cb_buf (outstanding ch) @ [cb] \<and> b_len (last (outstanding ch')) = n \<and>
          pending_pkts c' = pending_pkts c + (if to_device ch then 1 else 0)
      else outstanding ch' = outstanding ch \<and> c' = c)"

lemma count_pending_count: "pending_pkts (fst (count_pending c ch)) = pending_pkts c + (if to_device ch then 1 else 0)"
  by (simp add: count_pending_def)

lemma mhi_gen_tre_queued:
  assumes "chan_wf ch" "\<not> mhi_is_ring_full (tre_ring ch)" "mhi_gen_tre map1 buf n eot eob chain ch = (ret, ch1)"
  shows "chan_wf ch1 \<and> to_device ch1 = to_device ch \<and>
     (if ret = 0 then map cb_buf (outstanding ch1) = map cb_buf (outstanding ch) @ [buf] \<and> b_len (last (outstanding ch1)) = n
      else outstanding ch1 = outstanding ch)"
proof -
  obtain r addr where m: "map1 buf = (r, addr)" by (cases "map1 buf")
  have full: "\<not> chan_full ch" using assms(2) by (simp add: chan_full_def)
  note put = chan_put_laws [OF assms(1) full]
  show ?thesis
    using assms(3) m put fill_buf_unqueued [OF assms(1)]
    by (auto simp: mhi_gen_tre_def advance_wp_fill Let_def split: if_splits)
qed

lemma mhi_queue_buf_queued:
  assumes "chan_wf ch" "mhi_queue_buf map1 buf n eot eob chain c ch = (ret, c', ch', log)"
  shows "queued buf n ret c ch c' ch'"
proof (cases "MHI_PM_IN_ERROR_STATE (pm_state c) \<or> mhi_is_ring_full (tre_ring ch)")
  case True
  then show ?thesis
    using assms by (auto simp: mhi_queue_buf_def queued_def ENOMEM_def EIO_def split: if_splits)
next
  case False
  obtain r ch1 where g: "mhi_gen_tre map1 buf n eot eob chain ch = (r, ch1)" by (cases "mhi_gen_tre map1 buf n eot eob chain ch")
  have gen: "chan_wf ch1 \<and> to_device ch1 = to_device ch \<and>
     (if r = 0 then map cb_buf (outstanding ch1) = map cb_buf (outstanding ch) @ [buf] \<and> b_len (last (outstanding ch1)) = n
      else outstanding ch1 = outstanding ch)"
    using mhi_gen_tre_queued [OF assms(1) _ g] False by simp
  show ?thesis
    using assms(2) False g gen count_pending_count [of c ch1]
    by (auto simp: mhi_queue_buf_def queued_def Let_def case_prod_unfold split: if_splits)
qed

lemma mhi_queue_skb_queued:
  assumes "chan_wf ch" "mhi_queue_skb map1 buf n c ch = (ret, c', ch', log)"
  shows "queued buf n ret c ch c' ch'"
proof (cases "MHI_PM_IN_ERROR_STATE (pm_state c) \<or> mhi_is_ring_full (tre_ring ch)")
  case True
  then show ?thesis
    using assms by (auto simp: mhi_queue_skb_def queued_def ENOMEM_def EIO_def split: if_splits)
next
  case False
  then have "\<not> chan_full ch" by (simp add: chan_full_def)
  note put = chan_put_laws [OF assms(1) this]
  obtain r addr where m: "map1 buf = (r, addr)" by (cases "map1 buf")
  obtain c1 log2 where cp: "count_pending c ch = (c1, log2)" by (cases "count_pending c ch")
  have "pending_pkts c1 = pending_pkts c + (if to_device ch then 1 else 0)" using count_pending_count [of c ch] cp by simp
  then show ?thesis
    using assms(2) False m cp put fill_buf_unqueued [OF assms(1)]
    by (auto simp: mhi_queue_skb_def queued_def Let_def advance_wp_fill case_prod_unfold split: if_splits)
qed


section \<open>Completion\<close>

definition completions :: "mhi_call list \<Rightarrow> (nat \<times> nat \<times> int) list" where
  "completions log = concat (map (\<lambda>e. case e of XferCb b n st \<Rightarrow> [(b, n, st)] | _ \<Rightarrow> []) log)"

lemma completions_append [simp]: "completions (xs @ ys) = completions xs @ completions ys"
  by (simp add: completions_def)

definition pending_of :: "mhi_chan \<Rightarrow> int" where
  "pending_of ch = (if to_device ch then int (length (outstanding ch)) else 0)"

lemma xfer_one_plain:
  assumes "\<not> pre_alloc ch"
  shows "\<exists>c1 log. xfer_one map1 n status c ch = (c1, advance_rp ch, log) \<and>
     completions log = [(cb_buf (buf_at_rp ch), n, status)] \<and> pending_pkts c1 = pending_pkts c - (if to_device ch then 1 else 0)"
  using assms by (auto simp: xfer_one_def uncount_pending_def Let_def completions_def split: prod.splits)

lemma xfer_loop_fifo:
  "chan_wf ch \<Longrightarrow> \<not> pre_alloc ch \<Longrightarrow> slot_addr (tre_ring ch) dev_rp \<Longrightarrow> k \<le> length (outstanding ch) \<Longrightarrow>
   ix (tre_ring ch) dev_rp = (ix (tre_ring ch) (rp (tre_ring ch)) + k) mod elements (tre_ring ch) \<Longrightarrow>
   \<exists>c1 log. xfer_loop map1 dev_rp n status c ch = Some (c1, (advance_rp ^^ k) ch, log) \<and>
     completions log = map (\<lambda>b. (cb_buf b, n, status)) (take k (outstanding ch)) \<and>
     pending_pkts c1 = pending_pkts c - (if to_device ch then int k else 0)"
proof (induction k arbitrary: ch c)
  case 0
  have t: "ring_wf (tre_ring ch)" "slot_addr (tre_ring ch) (rp (tre_ring ch))" using 0(1) by (auto simp: chan_wf_def ring_wf_def)
  then have "rp (tre_ring ch) = dev_rp"
    using 0(3,5) slot_addr_ix(2) [OF t] slot_addr_inj [OF t(1,2)] by simp
  then show ?case by (subst xfer_loop.simps) (simp add: completions_def)
next
  case (Suc k)
  let ?t = "tre_ring ch"
  have t: "ring_wf ?t" "slot_addr ?t (rp ?t)" using Suc.prems(1) by (auto simp: chan_wf_def ring_wf_def)
  have ne: "outstanding ch \<noteq> []" using Suc.prems(4) by (metis list.size(3) not_less_eq_eq zero_le)
  have kn: "Suc k < elements ?t" using Suc.prems(1,4) ring_used(1) [OF t(1)] chan_used [OF Suc.prems(1)] by simp
  have i: "ix ?t (rp ?t) < elements ?t" using slot_addr_ix(2) [OF t] .
  have "rp ?t \<noteq> dev_rp"
  proof
    assume "rp ?t = dev_rp"
    then have e: "(ix ?t (rp ?t) + Suc k) mod elements ?t = ix ?t (rp ?t)" using Suc.prems(5) by simp
    show False
    proof (cases "ix ?t (rp ?t) + Suc k < elements ?t")
      case False
      then show False using e i kn by (simp add: le_mod_geq)
    qed (use e in simp)
  qed
  obtain c1 log1 where one: "xfer_one map1 n status c ch = (c1, advance_rp ch, log1)"
      "completions log1 = [(cb_buf (buf_at_rp ch), n, status)]" "pending_pkts c1 = pending_pkts c - (if to_device ch then 1 else 0)"
    using xfer_one_plain [OF Suc.prems(2)] by blast
  note get = chan_get_laws [OF Suc.prems(1) ne]
  have t1: "tre_ring (advance_rp ch) = mhi_del_ring_element ?t" by (simp add: advance_rp_def)
  have "ix ?t (next_addr ?t (rp ?t)) = Suc (ix ?t (rp ?t)) mod elements ?t" using next_addr_ix(2) [OF t] .
  then have ix1: "ix (tre_ring (advance_rp ch)) dev_rp =
      (ix (tre_ring (advance_rp ch)) (rp (tre_ring (advance_rp ch))) + k) mod elements (tre_ring (advance_rp ch))"
    using Suc.prems(5) by (simp add: t1 ring_ops_next mod_add_left_eq)
  have "k \<le> length (outstanding (advance_rp ch))" using get(1) Suc.prems(4) by simp
  with Suc.IH [of "advance_rp ch" c1] get(1) Suc.prems(2,3) ix1
  obtain c2 log2 where rec: "xfer_loop map1 dev_rp n status c1 (advance_rp ch) = Some (c2, (advance_rp ^^ k) (advance_rp ch), log2)"
      "completions log2 = map (\<lambda>b. (cb_buf b, n, status)) (take k (outstanding (advance_rp ch)))"
      "pending_pkts c2 = pending_pkts c1 - (if to_device ch then int k else 0)"
    by (auto simp: t1 ring_ops_next)
  have "take (Suc k) (outstanding ch) = buf_at_rp ch # take k (outstanding (advance_rp ch))"
    using get ne by (cases "outstanding ch") auto
  moreover have "xfer_loop map1 dev_rp n status c ch = Some (c2, (advance_rp ^^ Suc k) ch, log1 @ log2)"
    using \<open>rp ?t \<noteq> dev_rp\<close> one(1) rec(1) by (subst xfer_loop.simps) (simp add: funpow_swap1)
  ultimately show ?case using one rec by auto
qed

lemma reset_one_plain:
  assumes "\<not> pre_alloc ch"
  shows "\<exists>c1 log. reset_one c ch = (c1, advance_rp ch, log) \<and>
     completions log = [(cb_buf (buf_at_rp ch), 0, - ENOTCONN)] \<and> pending_pkts c1 = pending_pkts c - (if to_device ch then 1 else 0)"
  using assms by (auto simp: reset_one_def uncount_pending_def Let_def completions_def split: prod.splits)

lemma mhi_reset_data_chan_all:
  "chan_wf ch \<Longrightarrow> \<not> pre_alloc ch \<Longrightarrow>
   \<exists>c1 ch1 log. mhi_reset_data_chan c ch = Some (c1, ch1, log) \<and> chan_wf ch1 \<and> outstanding ch1 = [] \<and>
     completions log = map (\<lambda>b. (cb_buf b, 0, - ENOTCONN)) (outstanding ch) \<and> pending_pkts c1 = pending_pkts c - pending_of ch"
proof (induction "length (outstanding ch)" arbitrary: ch c)
  case 0
  have "rp (tre_ring ch) = wp (tre_ring ch)"
    using 0 ring_used(2) [of "tre_ring ch"] chan_used [of ch] by (simp add: chan_wf_def)
  moreover have "outstanding ch = []" using 0 by (metis length_0_conv)
  ultimately show ?case using 0(2) by (subst mhi_reset_data_chan.simps) (simp add: completions_def pending_of_def)
next
  case (Suc m)
  have ne: "outstanding ch \<noteq> []" using Suc.hyps(2) by (metis length_0_conv nat.distinct(1))
  note get = chan_get_laws [OF Suc.prems(1) ne]
  have "rp (tre_ring ch) \<noteq> wp (tre_ring ch)"
    using Suc.hyps(2) Suc.prems(1) ring_used(2) [of "tre_ring ch"] chan_used [of ch] by (simp add: chan_wf_def)
  moreover obtain c1 log1 where one: "reset_one c ch = (c1, advance_rp ch, log1)"
      "completions log1 = [(cb_buf (buf_at_rp ch), 0, - ENOTCONN)]" "pending_pkts c1 = pending_pkts c - (if to_device ch then 1 else 0)"
    using reset_one_plain [OF Suc.prems(2)] by blast
  moreover obtain c2 ch2 log2 where rec: "mhi_reset_data_chan c1 (advance_rp ch) = Some (c2, ch2, log2)" "chan_wf ch2" "outstanding ch2 = []"
      "completions log2 = map (\<lambda>b. (cb_buf b, 0, - ENOTCONN)) (outstanding (advance_rp ch))"
      "pending_pkts c2 = pending_pkts c1 - pending_of (advance_rp ch)"
  proof -
    have "m = length (tl (outstanding ch))" using Suc.hyps(2) by simp
    then have "m = length (outstanding (advance_rp ch))" using get(1) by (simp only:)
    from Suc.hyps(1) [OF this, of c1] get(1) Suc.prems(2) show ?thesis using that by auto
  qed
  moreover have "outstanding ch = buf_at_rp ch # outstanding (advance_rp ch)" using get ne by (cases "outstanding ch") auto
  ultimately show ?case
    by (subst mhi_reset_data_chan.simps) (auto simp: pending_of_def)
qed


section \<open>When the completion loop ends\<close>

lemma ring_static:
  "base (tre_ring (advance_rp ch)) = base (tre_ring ch)" "len (tre_ring (advance_rp ch)) = len (tre_ring ch)"
  "el_size (tre_ring (advance_rp ch)) = el_size (tre_ring ch)" "elements (tre_ring (advance_rp ch)) = elements (tre_ring ch)"
  "rp (tre_ring (advance_rp ch)) = next_addr (tre_ring ch) (rp (tre_ring ch))"
  by (simp_all add: advance_rp_def ring_ops_next)

text \<open>A later channel state whose transfer ring differs only in its write pointer.\<close>

definition same_ring :: "mhi_ring \<Rightarrow> mhi_ring \<Rightarrow> bool" where
  "same_ring r r' \<longleftrightarrow> ring_wf r' \<and> base r' = base r \<and> len r' = len r \<and> el_size r' = el_size r \<and>
     elements r' = elements r \<and> rp r' = rp r"

lemma same_ring_add: "ring_wf r \<Longrightarrow> same_ring r (mhi_add_ring_element r)"
  using next_addr_ix(1) [of r "wp r"] by (simp add: same_ring_def ring_ops_next ring_wf_def)

lemma queue_same_ring:
  assumes "mhi_queue_buf map1 buf n eot eob chain c ch = (ret, c', ch', log)" "ring_wf (tre_ring ch)"
  shows "same_ring (tre_ring ch) (tre_ring ch')"
  using assms same_ring_add [OF assms(2)]
  by (auto simp: mhi_queue_buf_def mhi_gen_tre_def Let_def advance_wp_def fill_tre_def fill_buf_def same_ring_def
      case_prod_unfold split: if_splits)

lemma xfer_one_ring:
  assumes "xfer_one map1 n status c ch = (c1, ch1, log)" "ring_wf (tre_ring ch)"
  shows "same_ring (tre_ring (advance_rp ch)) (tre_ring ch1)"
proof -
  have wf: "ring_wf (tre_ring (advance_rp ch))"
    using assms(2) next_addr_ix(1) [OF assms(2), of "rp (tre_ring ch)"]
    by (simp add: advance_rp_def ring_ops_next ring_wf_def)
  then have "same_ring (tre_ring (advance_rp ch)) (tre_ring (advance_rp ch))" by (simp add: same_ring_def)
  then show ?thesis
    using assms(1) queue_same_ring [OF _ wf]
    by (auto simp: xfer_one_def Let_def split: if_splits prod.splits)
qed

lemma same_ring_facts:
  assumes "same_ring r r'"
  shows "slot_addr r' a = slot_addr r a" "ix r' a = ix r a" "ring_wf r'" "rp r' = rp r" "elements r' = elements r"
  using assms by (auto simp: same_ring_def slot_addr_def ring_slot_def)

lemma xfer_loop_ends:
  "ring_wf (tre_ring ch) \<Longrightarrow> slot_addr (tre_ring ch) dev_rp \<Longrightarrow>
   \<exists>r. xfer_loop map1 dev_rp n status c ch = Some r"
proof (induction "(ix (tre_ring ch) dev_rp + elements (tre_ring ch) - ix (tre_ring ch) (rp (tre_ring ch))) mod elements (tre_ring ch)"
    arbitrary: ch c rule: less_induct)
  case less
  let ?t = "tre_ring ch"
  have t: "slot_addr ?t (rp ?t)" using less.prems(1) by (simp add: ring_wf_def)
  show ?case
  proof (cases "rp ?t = dev_rp")
    case False
    obtain c1 ch1 log1 where one: "xfer_one map1 n status c ch = (c1, ch1, log1)" by (cases "xfer_one map1 n status c ch")
    note same = same_ring_facts [OF xfer_one_ring [OF one less.prems(1)]]
    have s: "slot_addr (tre_ring (advance_rp ch)) a = slot_addr ?t a" "ix (tre_ring (advance_rp ch)) a = ix ?t a" for a
      by (simp_all add: slot_addr_def ring_slot_def ring_static)
    have ne: "ix ?t (rp ?t) \<noteq> ix ?t dev_rp" using slot_addr_inj [OF less.prems(1) t less.prems(2)] False by blast
    have "Suc ((ix ?t dev_rp + elements ?t - Suc (ix ?t (rp ?t)) mod elements ?t) mod elements ?t) =
        (ix ?t dev_rp + elements ?t - ix ?t (rp ?t)) mod elements ?t"
      using mod_dist_pred slot_addr_ix(2) [OF less.prems(1)] t less.prems(2) ne by blast
    then have "(ix (tre_ring ch1) dev_rp + elements (tre_ring ch1) - ix (tre_ring ch1) (rp (tre_ring ch1))) mod elements (tre_ring ch1)
        < (ix ?t dev_rp + elements ?t - ix ?t (rp ?t)) mod elements ?t"
      using next_addr_ix(2) [OF less.prems(1) t] by (simp add: same s ring_static)
    from less.hyps [OF this same(3), of c1] less.prems(2) one False show ?thesis
      by (subst xfer_loop.simps) (auto simp: same s)
  qed (subst xfer_loop.simps, simp)
qed

lemma xfer_loop_returns_slot:
  assumes "xfer_loop map1 dev_rp n status c ch = Some r"
  shows "ring_wf (tre_ring ch) \<longrightarrow> slot_addr (tre_ring ch) dev_rp"
  using assms
proof (rule xfer_loop.raw_induct [rotated])
  fix rec map1 dev_rp n status c ch r
  assume IH: "\<And>map1 dev_rp n status c ch r. rec map1 dev_rp n status c ch = Some r \<Longrightarrow>
      ring_wf (tre_ring ch) \<longrightarrow> slot_addr (tre_ring ch) dev_rp"
    and body: "(if rp (tre_ring ch) = dev_rp then Some (c, ch, [])
      else case xfer_one map1 n status c ch of (c1, ch1, log1) \<Rightarrow>
        Option.bind (rec map1 dev_rp n status c1 ch1) (\<lambda>(c2, ch2, log2). Some (c2, ch2, log1 @ log2))) = Some r"
  show "ring_wf (tre_ring ch) \<longrightarrow> slot_addr (tre_ring ch) dev_rp"
  proof
    assume wf: "ring_wf (tre_ring ch)"
    show "slot_addr (tre_ring ch) dev_rp"
    proof (cases "rp (tre_ring ch) = dev_rp")
      case False
      obtain c1 ch1 log1 where one: "xfer_one map1 n status c ch = (c1, ch1, log1)" by (cases "xfer_one map1 n status c ch")
      note same = same_ring_facts [OF xfer_one_ring [OF one wf]]
      obtain r' where "rec map1 dev_rp n status c1 ch1 = Some r'"
        using body False one by (cases "rec map1 dev_rp n status c1 ch1") auto
      from IH [OF this] same show ?thesis by (simp add: slot_addr_def ring_static)
    qed (use wf in \<open>auto simp: ring_wf_def\<close>)
  qed
qed


definition event_status :: "mhi_tre \<Rightarrow> int" where
  "event_status ev = (if MHI_TRE_GET_EV_CODE ev = MHI_EV_CC_OVERFLOW then - EOVERFLOW else 0)"

lemma parse_completion:
  assumes "ch_enabled ch" "MHI_TRE_GET_EV_CODE ev \<in> {MHI_EV_CC_OVERFLOW, MHI_EV_CC_EOB, MHI_EV_CC_EOT}"
  shows "parse_xfer_event map1 ev c ch = xfer_loop map1 (event_rp (tre_ring ch) ev) (MHI_TRE_GET_EV_LEN ev)
      (event_status ev) c (count_event (MHI_TRE_GET_EV_CODE ev) ch)"
  using assms by (auto simp: parse_xfer_event_def Let_def event_status_def)

lemma parse_completion_ends:
  assumes "ring_wf (tre_ring ch)" "ch_enabled ch"
    and "MHI_TRE_GET_EV_CODE ev \<in> {MHI_EV_CC_OVERFLOW, MHI_EV_CC_EOB, MHI_EV_CC_EOT}"
  shows "(\<exists>r. parse_xfer_event map1 ev c ch = Some r) \<longleftrightarrow> slot_addr (tre_ring ch) (event_rp (tre_ring ch) ev)"
  using parse_completion [OF assms(2,3)] xfer_loop_ends [of "count_event (MHI_TRE_GET_EV_CODE ev) ch"]
    xfer_loop_returns_slot assms(1)
  by (metis count_event_frame(1))

section \<open>Runs of a channel\<close>

text \<open>Where the rings lie: within 64-bit address space on both sides, 16-byte descriptors.\<close>

definition ring_placed :: "mhi_ring \<Rightarrow> bool" where
  "ring_placed r \<longleftrightarrow> el_size r = 16 \<and> base r + len r < 2 ^ 64 \<and> iommu_base r + len r < 2 ^ 64"

text \<open>The event of a device that has processed the \<open>k\<close>-th outstanding descriptor.\<close>

definition event_for :: "mhi_chan \<Rightarrow> nat \<Rightarrow> u16 \<Rightarrow> mhi_tre" where
  "event_for ch k n = \<lparr>t_ptr = of_nat (mhi_to_physical (tre_ring ch)
       (base (tre_ring ch) + ((ix (tre_ring ch) (rp (tre_ring ch)) + k) mod elements (tre_ring ch)) * el_size (tre_ring ch))),
     t_dword0 = push_bit 24 MHI_EV_CC_EOT OR ucast n, t_dword1 = 0\<rparr>"

lemma to_virtual_physical:
  assumes "ring_wf r" "ring_placed r" "slot_addr r a"
  shows "mhi_to_virtual r (unat (of_nat (mhi_to_physical r a) :: u64)) = a"
proof -
  have a: "base r \<le> a" "a < base r + len r" using assms(3) by (auto simp: slot_addr_def)
  have "mhi_to_physical r a < 2 ^ 64" using a assms(2) unfolding mhi_to_physical_def ring_placed_def by linarith
  then have "unat (of_nat (mhi_to_physical r a) :: u64) = mhi_to_physical r a"
    by (simp add: unat_of_nat take_bit_nat_eq_self)
  moreover have "(int (mhi_to_physical r a) - int (iommu_base r) + int (base r)) mod 2 ^ 64 = int a"
    using a assms(2) by (simp add: mhi_to_physical_def ring_placed_def)
  ultimately show ?thesis by (simp add: mhi_to_virtual_def)
qed

lemma event_for_fields:
  "MHI_TRE_GET_EV_CODE (event_for ch k n) = MHI_EV_CC_EOT" "MHI_TRE_GET_EV_LEN (event_for ch k n) = unat n"
proof -
  have "drop_bit 24 (push_bit 24 MHI_EV_CC_EOT OR (ucast n :: u32)) AND 0xFF = (2 :: u32)"
    by (rule bit_word_eqI) (auto simp: bit_simps MHI_EV_CC_EOT_def dest!: bit_imp_le_length)
  then show "MHI_TRE_GET_EV_CODE (event_for ch k n) = MHI_EV_CC_EOT"
    by (simp add: MHI_TRE_GET_EV_CODE_def event_for_def MHI_EV_CC_EOT_def)
  have "(push_bit 24 MHI_EV_CC_EOT OR (ucast n :: u32)) AND mask 16 = ucast n"
    by (rule bit_word_eqI) (auto simp: bit_simps dest: bit_imp_le_length)
  moreover have "(0xFFFF :: u32) = mask 16" by (simp add: mask_eq_exp_minus_1)
  ultimately show "MHI_TRE_GET_EV_LEN (event_for ch k n) = unat n"
    by (simp add: MHI_TRE_GET_EV_LEN_def event_for_def unat_ucast_widen)
qed


lemma parse_event_for:
  assumes wf: "chan_wf ch" and "\<not> pre_alloc ch" "ch_enabled ch" "ring_placed (tre_ring ch)" "k < length (outstanding ch)"
  shows "\<exists>c1 log. parse_xfer_event map1 (event_for ch k n) c ch = Some (c1, (advance_rp ^^ Suc k) (count_event MHI_EV_CC_EOT ch), log) \<and>
     completions log = map (\<lambda>b. (cb_buf b, unat n, 0)) (take (Suc k) (outstanding ch)) \<and>
     pending_pkts c1 = pending_pkts c - (if to_device ch then int (Suc k) else 0)"
proof -
  let ?t = "tre_ring ch"
  have t: "ring_wf ?t" "0 < elements ?t" using wf by (auto simp: chan_wf_def ring_wf_def)
  define a where "a = base ?t + ((ix ?t (rp ?t) + k) mod elements ?t) * el_size ?t"
  have a: "slot_addr ?t a" "ix ?t a = (ix ?t (rp ?t) + k) mod elements ?t"
    using slot_addr_mult [OF t(1), of "(ix ?t (rp ?t) + k) mod elements ?t"] t(2) by (simp_all add: a_def)
  note nx = next_addr_ix [OF t(1) a(1)]
  have v: "mhi_to_virtual ?t (unat (t_ptr (event_for ch k n))) = a"
    using to_virtual_physical [OF t(1) assms(4) a(1)] by (simp add: event_for_def a_def)
  have "a + 16 \<le> base ?t + len ?t"
    using assms(4) slot_addr_end [OF t(1) a(1)] by (simp add: ring_placed_def)
  then have "event_rp ?t (event_for ch k n) = next_addr ?t a"
    using assms(4) by (simp add: event_rp_def v next_addr_def ring_placed_def Let_def)
  then have p: "parse_xfer_event map1 (event_for ch k n) c ch = xfer_loop map1 (next_addr ?t a) (unat n) 0 c (count_event MHI_EV_CC_EOT ch)"
    using assms(3) by (simp add: parse_xfer_event_def event_for_fields Let_def MHI_EV_CC_EOT_def MHI_EV_CC_OVERFLOW_def)
  have i: "ix ?t (next_addr ?t a) = (ix ?t (rp ?t) + Suc k) mod elements ?t"
    using nx(2) a(2) by (simp add: mod_Suc_eq)
  have "Suc k \<le> length (outstanding ch)" using assms(5) by simp
  then show ?thesis
    using xfer_loop_fifo [of "count_event MHI_EV_CC_EOT ch" "next_addr ?t a" "Suc k" map1 "unat n" 0 c] wf assms(2) nx(1) i p by simp
qed

datatype chan_op =
    QueueSkb map_single nat nat
  | QueueBuf map_single nat nat
  | Complete nat u16

text \<open>
  What the client and the device do to a channel, with the buffers accepted and the buffers
  completed. A device completes only descriptors it was given.
\<close>

fun chan_apply :: "mhi_cntrl \<times> mhi_chan \<Rightarrow> chan_op \<Rightarrow> ((mhi_cntrl \<times> mhi_chan) \<times> nat list \<times> nat list) option" where
  "chan_apply (c, ch) (QueueSkb map1 skb n) =
     (case mhi_queue_skb map1 skb n c ch of (ret, c', ch', log) \<Rightarrow> Some ((c', ch'), if ret = 0 then [skb] else [], []))"
| "chan_apply (c, ch) (QueueBuf map1 buf n) =
     (case mhi_queue_buf map1 buf n True False False c ch of (ret, c', ch', log) \<Rightarrow> Some ((c', ch'), if ret = 0 then [buf] else [], []))"
| "chan_apply (c, ch) (Complete k n) =
     (if k < length (outstanding ch) then
        map_option (\<lambda>(c', ch', log). ((c', ch'), [], map fst (completions log)))
          (parse_xfer_event (\<lambda>_. (0, 0)) (event_for ch k n) c ch)
      else Some ((c, ch), [], []))"

fun chan_run :: "mhi_cntrl \<times> mhi_chan \<Rightarrow> chan_op list \<Rightarrow> ((mhi_cntrl \<times> mhi_chan) \<times> nat list \<times> nat list) option" where
  "chan_run st [] = Some (st, [], [])"
| "chan_run st (op # ops) = (case chan_apply st op of None \<Rightarrow> None
     | Some (st1, ins, outs) \<Rightarrow> (case chan_run st1 ops of None \<Rightarrow> None
         | Some (st2, ins', outs') \<Rightarrow> Some (st2, ins @ ins', outs @ outs')))"

definition chan_ready :: "mhi_chan \<Rightarrow> bool" where
  "chan_ready ch \<longleftrightarrow> chan_wf ch \<and> \<not> pre_alloc ch \<and> ch_enabled ch \<and> \<not> offload_ch ch \<and> ring_placed (tre_ring ch)"

text \<open>Queueing and completing leave everything but the rings' pointers and contents alone.\<close>

definition chan_frame :: "mhi_chan \<Rightarrow> mhi_chan \<Rightarrow> bool" where
  "chan_frame ch ch' \<longleftrightarrow> to_device ch' = to_device ch \<and> pre_alloc ch' = pre_alloc ch \<and> ch_enabled ch' = ch_enabled ch \<and>
     offload_ch ch' = offload_ch ch \<and> ring_placed (tre_ring ch') = ring_placed (tre_ring ch) \<and>
     elements (buf_ring ch') = elements (buf_ring ch)"

lemma chan_frame_ops:
  "chan_frame ch (advance_wp ch)" "chan_frame ch (advance_rp ch)" "chan_frame ch (fill_buf ch cb n addr)"
  "chan_frame ch (advance_wp (fill_tre (fill_buf ch cb n addr) a m dw))" "chan_frame ch ch"
  by (simp_all add: chan_frame_def advance_wp_def advance_rp_def fill_buf_def fill_tre_def ring_ops_next ring_placed_def)

lemma chan_frame_count: "chan_frame ch (count_event code ch)"
  by (simp add: chan_frame_def)

lemma chan_frame_trans: "chan_frame a b \<Longrightarrow> chan_frame b c \<Longrightarrow> chan_frame a c"
  by (simp add: chan_frame_def)

lemma chan_frame_db: "chan_frame ch (fst (ring_db c ch1)) = chan_frame ch ch1"
  by (simp add: chan_frame_def)

lemma chan_frame_queue:
  "mhi_queue_skb map1 skb n c ch = (ret, c', ch', log) \<Longrightarrow> chan_frame ch ch'"
  "mhi_queue_buf map1 skb n eot eob chain c ch = (ret, c', ch', log) \<Longrightarrow> chan_frame ch ch'"
  by (auto simp: mhi_queue_skb_def mhi_queue_buf_def mhi_gen_tre_def Let_def case_prod_unfold chan_frame_db split: if_splits
      intro: chan_frame_ops)

lemma chan_frame_get: "chan_frame ch ((advance_rp ^^ k) ch)"
  by (induction k) (auto intro: chan_frame_ops chan_frame_trans)


lemma chan_ready_frame: "chan_ready ch \<Longrightarrow> chan_frame ch ch' \<Longrightarrow> chan_wf ch' \<Longrightarrow> chan_ready ch'"
  by (simp add: chan_ready_def chan_frame_def)

definition op_ok :: "mhi_cntrl \<times> mhi_chan \<Rightarrow> mhi_cntrl \<times> mhi_chan \<Rightarrow> nat list \<Rightarrow> nat list \<Rightarrow> bool" where
  "op_ok st st' ins outs \<longleftrightarrow> chan_ready (snd st') \<and> chan_frame (snd st) (snd st') \<and>
     map cb_buf (outstanding (snd st)) @ ins = outs @ map cb_buf (outstanding (snd st')) \<and>
     pending_pkts (fst st') - pending_of (snd st') = pending_pkts (fst st) - pending_of (snd st)"

lemma queued_ok:
  assumes "queued cb n ret c ch c' ch'" "chan_ready ch" "chan_frame ch ch'"
  shows "op_ok (c, ch) (c', ch') (if ret = 0 then [cb] else []) []"
proof (cases "ret = 0")
  case True
  then have m: "map cb_buf (outstanding ch') = map cb_buf (outstanding ch) @ [cb]"
      "pending_pkts c' = pending_pkts c + (if to_device ch then 1 else 0)" "chan_wf ch'"
    using assms(1) by (auto simp: queued_def)
  have "length (outstanding ch') = Suc (length (outstanding ch))" using arg_cong [OF m(1), of length] by simp
  then have "pending_pkts c' - pending_of ch' = pending_pkts c - pending_of ch"
    using m(2) assms(3) by (simp add: pending_of_def chan_frame_def)
  then show ?thesis
    using True m chan_ready_frame [OF assms(2,3)] assms(3) by (simp add: op_ok_def)
next
  case False
  then show ?thesis
    using assms chan_ready_frame [OF assms(2,3)] by (auto simp: op_ok_def queued_def pending_of_def chan_frame_def)
qed

lemma chan_apply_ok:
  assumes "chan_ready ch"
  shows "\<exists>st' ins outs. chan_apply (c, ch) op = Some (st', ins, outs) \<and> op_ok (c, ch) st' ins outs"
proof (cases op)
  case (QueueSkb map1 skb n)
  obtain ret c' ch' log where r: "mhi_queue_skb map1 skb n c ch = (ret, c', ch', log)" by (metis prod_cases4)
  have "queued skb n ret c ch c' ch'" using mhi_queue_skb_queued [OF _ r] assms by (simp add: chan_ready_def)
  from queued_ok [OF this assms chan_frame_queue(1) [OF r]] r QueueSkb show ?thesis by simp
next
  case (QueueBuf map1 buf n)
  obtain ret c' ch' log where r: "mhi_queue_buf map1 buf n True False False c ch = (ret, c', ch', log)" by (metis prod_cases4)
  have "queued buf n ret c ch c' ch'" using mhi_queue_buf_queued [OF _ r] assms by (simp add: chan_ready_def)
  from queued_ok [OF this assms chan_frame_queue(2) [OF r]] r QueueBuf show ?thesis by simp
next
  case (Complete k n)
  show ?thesis
  proof (cases "k < length (outstanding ch)")
    case True
    from assms have rdy: "chan_wf ch" "\<not> pre_alloc ch" "ch_enabled ch" "ring_placed (tre_ring ch)" by (auto simp: chan_ready_def)
    from parse_event_for [OF rdy True] obtain c1 log where
      p: "parse_xfer_event (\<lambda>_. (0, 0)) (event_for ch k n) c ch = Some (c1, (advance_rp ^^ Suc k) (count_event MHI_EV_CC_EOT ch), log)"
        "completions log = map (\<lambda>b. (cb_buf b, unat n, 0)) (take (Suc k) (outstanding ch))"
        "pending_pkts c1 = pending_pkts c - (if to_device ch then int (Suc k) else 0)"
      by blast
    have "Suc k \<le> length (outstanding ch)" using True by simp
    let ?ch = "(advance_rp ^^ Suc k) (count_event MHI_EV_CC_EOT ch)"
    have fr: "chan_frame ch ?ch" using chan_frame_get chan_frame_count chan_frame_trans by blast
    have "chan_wf (count_event MHI_EV_CC_EOT ch)" using rdy(1) by simp
    from chan.get_many [OF this, of "Suc k"] \<open>Suc k \<le> length (outstanding ch)\<close>
    have g: "chan_wf ?ch" "outstanding ?ch = drop (Suc k) (outstanding ch)" by simp_all
    have outs: "map fst (completions log) = map cb_buf (take (Suc k) (outstanding ch))" by (simp add: p(2) comp_def)
    note o = g(2)
    have len: "length (outstanding ?ch) = length (outstanding ch) - Suc k" unfolding o by (rule length_drop)
    have pend: "pending_pkts c1 - pending_of ?ch = pending_pkts c - pending_of ch"
      using p(3) fr True len unfolding pending_of_def chan_frame_def by auto
    have "map cb_buf (outstanding ch) = map cb_buf (take (Suc k) (outstanding ch)) @ map cb_buf (outstanding ?ch)"
      unfolding o by (metis append_take_drop_id map_append)
    then have "op_ok (c, ch) (c1, ?ch) [] (map fst (completions log))"
      using g fr pend chan_ready_frame [OF assms fr] outs by (simp only: op_ok_def fst_conv snd_conv append_Nil2)
    with p(1) True Complete show ?thesis by simp
  next
    case False
    then show ?thesis using assms Complete by (simp add: op_ok_def chan_frame_def)
  qed
qed

lemma chan_run_ok:
  "chan_ready ch \<Longrightarrow> \<exists>st' ins outs. chan_run (c, ch) ops = Some (st', ins, outs) \<and> op_ok (c, ch) st' ins outs"
proof (induction ops arbitrary: c ch)
  case Nil
  then show ?case by (simp add: op_ok_def chan_frame_def)
next
  case (Cons op ops)
  obtain c1 ch1 ins outs where a: "chan_apply (c, ch) op = Some ((c1, ch1), ins, outs)" "op_ok (c, ch) (c1, ch1) ins outs"
    using chan_apply_ok [OF Cons.prems, of c op] by auto
  then have "chan_ready ch1" by (simp add: op_ok_def)
  from Cons.IH [OF this, of c1] obtain c2 ch2 ins' outs' where
    b: "chan_run (c1, ch1) ops = Some ((c2, ch2), ins', outs')" "op_ok (c1, ch1) (c2, ch2) ins' outs'" by auto
  have "map cb_buf (outstanding ch) @ ins @ ins' = outs @ outs' @ map cb_buf (outstanding ch2)"
    using a(2) b(2) unfolding op_ok_def by (metis append_assoc snd_conv)
  then have "op_ok (c, ch) (c2, ch2) (ins @ ins') (outs @ outs')"
    using a(2) b(2) chan_frame_trans by (auto simp: op_ok_def)
  with a(1) b(1) show ?case by simp
qed

section \<open>Properties\<close>

text \<open>
  C10. A transfer channel is a bounded FIFO: whatever buffers a client queues and whatever
  outstanding descriptors the device completes, in any order of these operations, every
  accepted buffer is completed at most once and in the order it was accepted, the ones not yet
  completed are the outstanding ones, the free descriptors count the rest of the ring, and
  the count of pending packets follows exactly.
\<close>

theorem channel_fifo:
  assumes "chan_ready ch"
  shows "\<exists>c' ch' ins outs. chan_run (c, ch) ops = Some ((c', ch'), ins, outs) \<and>
     map cb_buf (outstanding ch) @ ins = outs @ map cb_buf (outstanding ch') \<and>
     mhi_get_no_free_descriptors ch' = int (elements (buf_ring ch)) - 1 - int (length (outstanding ch')) \<and>
     pending_pkts c' - pending_of ch' = pending_pkts c - pending_of ch"
proof -
  obtain c' ch' ins outs where r: "chan_run (c, ch) ops = Some ((c', ch'), ins, outs)" "op_ok (c, ch) (c', ch') ins outs"
    using chan_run_ok [OF assms, of c ops] by auto
  then have rdy: "chan_wf ch'" "\<not> offload_ch ch'" "elements (buf_ring ch') = elements (buf_ring ch)"
    by (auto simp: op_ok_def chan_ready_def chan_frame_def)
  then have "mhi_get_no_free_descriptors ch' = int (elements (buf_ring ch)) - 1 - int (length (outstanding ch'))"
    using ring_avail [of "tre_ring ch'"] chan_used [of ch'] by (simp add: mhi_get_no_free_descriptors_def chan_wf_def)
  with r show ?thesis by (auto simp: op_ok_def)
qed

definition sample_buf :: mhi_buf_info where
  "sample_buf = \<lparr>p_addr = 0, cb_buf = 0, b_wp = 0, b_len = 0, pre_mapped = False, b_used = False\<rparr>"

definition sample_chan :: mhi_chan where
  "sample_chan =
     \<lparr>buf_ring = \<lparr>base = 1000, rp = 1040, wp = 1040, el_size = 40, len = 160, elements = 4, iommu_base = 0\<rparr>,
      tre_ring = \<lparr>base = 4096, rp = 4112, wp = 4112, el_size = 16, len = 64, elements = 4, iommu_base = 256\<rparr>,
      bufs = replicate 4 sample_buf, tres = replicate 4 \<lparr>t_ptr = 0, t_dword0 = 0, t_dword1 = 0\<rparr>, to_device = True,
      ch_enabled = True, pre_alloc = False, offload_ch = False, intmod = False,
      ch_db = \<lparr>reset_req = False, db_mode = False, brstmode = False, db_val = 0\<rparr>, tre_ctxt_wp = 0, used_events = replicate 7 0\<rparr>"

definition sample_cntrl :: mhi_cntrl where
  "sample_cntrl = \<lparr>pm_state = MHI_PM_M0, pending_pkts = 0\<rparr>"

lemma sample_chan_ready: "chan_ready sample_chan"
  by (simp add: chan_ready_def chan_wf_def ring_wf_def slot_addr_def ring_placed_def sample_chan_def ring_slot_def)

lemma channel_fifo_witness:
  "chan_ready sample_chan \<and>
   (\<exists>c' ch' ins outs.
     chan_run (sample_cntrl, sample_chan)
       [QueueSkb (\<lambda>_. (0, 7)) 11 60, QueueBuf (\<lambda>_. (0, 8)) 22 70, Complete 0 60, QueueSkb (\<lambda>_. (0, 9)) 33 80, Complete 1 80]
       = Some ((c', ch'), ins, outs) \<and>
     map cb_buf (outstanding sample_chan) @ ins = outs @ map cb_buf (outstanding ch') \<and>
     mhi_get_no_free_descriptors ch' = int (elements (buf_ring sample_chan)) - 1 - int (length (outstanding ch')) \<and>
     pending_pkts c' - pending_of ch' = pending_pkts sample_cntrl - pending_of sample_chan)"
  using sample_chan_ready channel_fifo [OF sample_chan_ready] by blast

text \<open>
  Resetting a data channel ends, empties the ring and gives every outstanding buffer back
  to the client exactly once, in order, with the error ENOTCONN and no bytes; the count of
  pending packets drops by their number.
\<close>

theorem reset_returns_every_buffer:
  assumes "chan_wf ch" "\<not> pre_alloc ch"
  shows "\<exists>c1 ch1 log. mhi_reset_data_chan c ch = Some (c1, ch1, log) \<and> chan_wf ch1 \<and> outstanding ch1 = [] \<and>
     completions log = map (\<lambda>b. (cb_buf b, 0, - ENOTCONN)) (outstanding ch) \<and>
     pending_pkts c1 = pending_pkts c - pending_of ch"
  by (rule mhi_reset_data_chan_all [OF assms])

definition busy_chan :: mhi_chan where
  "busy_chan = (case mhi_queue_skb (\<lambda>_. (0, 7)) 11 60 sample_cntrl sample_chan of (_, _, ch, _) \<Rightarrow> ch)"

lemma reset_returns_every_buffer_witness:
  "chan_wf busy_chan \<and> \<not> pre_alloc busy_chan \<and> map cb_buf (outstanding busy_chan) = [11] \<and>
   (\<exists>c1 ch1 log. mhi_reset_data_chan sample_cntrl busy_chan = Some (c1, ch1, log) \<and> chan_wf ch1 \<and> outstanding ch1 = [] \<and>
     completions log = map (\<lambda>b. (cb_buf b, 0, - ENOTCONN)) (outstanding busy_chan) \<and>
     pending_pkts c1 = pending_pkts sample_cntrl - pending_of busy_chan)"
proof -
  have h: "chan_wf busy_chan" "\<not> pre_alloc busy_chan" "map cb_buf (outstanding busy_chan) = [11]" by code_simp+
  then show ?thesis using reset_returns_every_buffer [OF h(1,2), of sample_cntrl] by blast
qed

text \<open>
  The pointer of a completion event is not checked. On an enabled channel the completion
  loop ends exactly when the position after the pointer is the address of a descriptor of the
  ring, so that a pointer inside the ring that is not aligned to a descriptor, or one below
  it, keeps the processor in the loop for ever.
\<close>

theorem completion_ends_iff_aligned:
  assumes "ring_wf (tre_ring ch)" "ch_enabled ch"
    and "MHI_TRE_GET_EV_CODE ev \<in> {MHI_EV_CC_OVERFLOW, MHI_EV_CC_EOB, MHI_EV_CC_EOT}"
  shows "(\<exists>r. parse_xfer_event map1 ev c ch = Some r) \<longleftrightarrow> slot_addr (tre_ring ch) (event_rp (tre_ring ch) ev)"
  by (rule parse_completion_ends [OF assms])

definition odd_event :: mhi_tre where
  "odd_event = \<lparr>t_ptr = 280, t_dword0 = 0x02000040, t_dword1 = 0\<rparr>"

lemma completion_ends_iff_aligned_witness:
  "ring_wf (tre_ring busy_chan) \<and> ch_enabled busy_chan \<and> MHI_TRE_GET_EV_CODE odd_event = MHI_EV_CC_EOT \<and>
   parse_xfer_event (\<lambda>_. (0, 0)) odd_event sample_cntrl busy_chan = None"
proof -
  have h: "ring_wf (tre_ring busy_chan)" "ch_enabled busy_chan" "MHI_TRE_GET_EV_CODE odd_event = MHI_EV_CC_EOT" by code_simp+
  have t: "base (tre_ring busy_chan) = 4096" "len (tre_ring busy_chan) = 64" "el_size (tre_ring busy_chan) = 16"
    "iommu_base (tre_ring busy_chan) = 256" by code_simp+
  have "event_rp (tre_ring busy_chan) odd_event = 4136"
    by (simp add: event_rp_def mhi_to_virtual_def odd_event_def t Let_def)
  then have "\<not> slot_addr (tre_ring busy_chan) (event_rp (tre_ring busy_chan) odd_event)"
    by (simp add: slot_addr_def t)
  then have "\<nexists>r. parse_xfer_event (\<lambda>_. (0, 0)) odd_event sample_cntrl busy_chan = Some r"
    using completion_ends_iff_aligned [OF h(1,2), of odd_event] h(3) by simp
  with h show ?thesis by (metis option.exhaust)
qed

text \<open>
  Nor is the pointer compared with what is outstanding. On a channel with nothing
  outstanding the repetition of the last event completes nothing, but any other event that
  ends the loop reports buffers to the client that it was already given back.
\<close>

theorem idle_channel_event:
  assumes "chan_wf ch" "\<not> pre_alloc ch" "ch_enabled ch" "outstanding ch = []"
    and "MHI_TRE_GET_EV_CODE ev \<in> {MHI_EV_CC_OVERFLOW, MHI_EV_CC_EOB, MHI_EV_CC_EOT}"
    and "parse_xfer_event map1 ev c ch = Some (c1, ch1, log)"
  shows "completions log = [] \<longleftrightarrow> event_rp (tre_ring ch) ev = rp (tre_ring ch)"
proof -
  let ?ch = "count_event (MHI_TRE_GET_EV_CODE ev) ch" and ?n = "MHI_TRE_GET_EV_LEN ev"
  have p: "xfer_loop map1 (event_rp (tre_ring ch) ev) ?n (event_status ev) c ?ch = Some (c1, ch1, log)"
    using parse_completion [OF assms(3,5)] assms(6) by simp
  obtain c2 log2 where one: "xfer_one map1 ?n (event_status ev) c ?ch = (c2, advance_rp ?ch, log2)"
      "completions log2 = [(cb_buf (buf_at_rp ?ch), ?n, event_status ev)]"
    using xfer_one_plain [of ?ch map1 ?n "event_status ev" c] assms(2) by auto
  show ?thesis
  proof (cases "event_rp (tre_ring ch) ev = rp (tre_ring ch)")
    case True
    then show ?thesis using p by (subst (asm) xfer_loop.simps) (simp add: completions_def)
  next
    case False
    then have "rp (tre_ring ?ch) \<noteq> event_rp (tre_ring ch) ev" by simp
    with p one obtain log3 where "log = log2 @ log3"
      by (subst (asm) xfer_loop.simps) (auto simp: bind_eq_Some_conv)
    then show ?thesis using False one by simp
  qed
qed

definition stale_event :: mhi_tre where
  "stale_event = \<lparr>t_ptr = 272, t_dword0 = 0x02000040, t_dword1 = 0\<rparr>"

lemma idle_channel_event_witness:
  "chan_wf sample_chan \<and> \<not> pre_alloc sample_chan \<and> ch_enabled sample_chan \<and> outstanding sample_chan = [] \<and>
   MHI_TRE_GET_EV_CODE stale_event = MHI_EV_CC_EOT \<and>
   (\<exists>c1 ch1 log. parse_xfer_event (\<lambda>_. (0, 0)) stale_event sample_cntrl sample_chan = Some (c1, ch1, log) \<and> completions log \<noteq> [])"
proof -
  have h: "chan_wf sample_chan" "\<not> pre_alloc sample_chan" "ch_enabled sample_chan" "outstanding sample_chan = []"
    "MHI_TRE_GET_EV_CODE stale_event = MHI_EV_CC_EOT" by code_simp+
  have t: "tre_ring sample_chan = \<lparr>base = 4096, rp = 4112, wp = 4112, el_size = 16, len = 64, elements = 4, iommu_base = 256\<rparr>"
    by (simp add: sample_chan_def)
  have e: "event_rp (tre_ring sample_chan) stale_event = 4128"
    by (simp add: event_rp_def mhi_to_virtual_def stale_event_def t Let_def)
  have "ring_wf (tre_ring sample_chan)" using h(1) by (simp add: chan_wf_def)
  moreover have "slot_addr (tre_ring sample_chan) (event_rp (tre_ring sample_chan) stale_event)"
    unfolding e by (simp add: slot_addr_def t)
  ultimately obtain r where "parse_xfer_event (\<lambda>_. (0, 0)) stale_event sample_cntrl sample_chan = Some r"
    using parse_completion_ends [OF _ h(3), of stale_event "\<lambda>_. (0, 0)" sample_cntrl] h(5) by auto
  then obtain c1 ch1 log where p: "parse_xfer_event (\<lambda>_. (0, 0)) stale_event sample_cntrl sample_chan = Some (c1, ch1, log)"
    by (cases r) auto
  then have "completions log \<noteq> []"
    using idle_channel_event [OF h(1-4) _ p] h(5) e by (simp add: t)
  with h p show ?thesis by blast
qed

end
