(* ===== verification/MhiPm.thy ===== *)
theory MhiPm
  imports MhiRing
begin

text \<open>
  Power management of the PCIe driver (\<open>quectel_MHI/src/core/mhi_pm.c\<close>): the table of allowed
  transitions, the handlers of the device's state changes, suspend and resume, the error and
  shutdown path. A wait for the device takes the list of state changes that other threads
  handle meanwhile; when the list is exhausted the wait times out. Register accesses, calls of
  the controller and notifications are returned as a list of calls, and what the device's
  registers read is an argument.
\<close>

section \<open>State\<close>

datatype mhi_dev_state =
    MHI_STATE_RESET | MHI_STATE_READY | MHI_STATE_M0 | MHI_STATE_M1 | MHI_STATE_M2 | MHI_STATE_M3
  | MHI_STATE_BHI | MHI_STATE_SYS_ERR | MHI_STATE_MAX

datatype mhi_ee =
    MHI_EE_PBL | MHI_EE_SBL | MHI_EE_AMSS | MHI_EE_RDDM | MHI_EE_WFW | MHI_EE_PTHRU | MHI_EE_EDL | MHI_EE_FP
  | MHI_EE_DISABLE_TRANSITION | MHI_EE_MAX

definition MHI_IN_MISSION_MODE :: "mhi_ee \<Rightarrow> bool" where
  "MHI_IN_MISSION_MODE e = (e = MHI_EE_AMSS \<or> e = MHI_EE_WFW)"

definition MHI_IN_PBL :: "mhi_ee \<Rightarrow> bool" where
  "MHI_IN_PBL e = (e = MHI_EE_PBL \<or> e = MHI_EE_PTHRU \<or> e = MHI_EE_EDL)"

definition MHI_REG_ACCESS_VALID :: "u32 \<Rightarrow> bool" where
  "MHI_REG_ACCESS_VALID s = (s AND (MHI_PM_POR OR MHI_PM_M0 OR MHI_PM_M2 OR MHI_PM_M3_ENTER OR MHI_PM_M3_EXIT
     OR MHI_PM_SYS_ERR_DETECT OR MHI_PM_SYS_ERR_PROCESS OR MHI_PM_SHUTDOWN_PROCESS OR MHI_PM_FW_DL_ERR) \<noteq> 0)"

definition MHI_PM_IN_FATAL_STATE :: "u32 \<Rightarrow> bool" where
  "MHI_PM_IN_FATAL_STATE s = (s = MHI_PM_LD_ERR_FATAL_DETECT)"

text \<open>Event and command rings with their contexts shared with the device.\<close>

record mhi_event =
  ev_ring :: mhi_ring
  ev_ctxt_rbase :: nat
  ev_ctxt_rp :: nat
  ev_ctxt_wp :: nat
  ev_db :: db_cfg
  hw_ring :: bool
  offload_ev :: bool

record mhi_cmd =
  cmd_ring :: mhi_ring
  cmd_ctxt_rbase :: nat
  cmd_ctxt_rp :: nat
  cmd_ctxt_wp :: nat

record mhi_pm = mhi_cntrl +
  dev_state :: mhi_dev_state
  ee :: mhi_ee
  dev_wake :: int
  count_M0 :: u32
  count_M2 :: u32
  count_M3 :: u32
  chans :: "mhi_chan list"
  events :: "mhi_event list"
  pm_cmd :: mhi_cmd
  pre_init :: bool
  fbc_image :: bool                  \<comment> \<open>a firmware image table is allocated\<close>

datatype mhi_cb = MHI_CB_IDLE | MHI_CB_SYS_ERROR | MHI_CB_FATAL_ERROR | MHI_CB_LPM_ENTER | MHI_CB_LPM_EXIT

datatype pm_call =
    WakeUpAll
  | WriteMhiState mhi_dev_state      \<comment> \<open>the field MHISTATE of the control register\<close>
  | WriteReset                       \<comment> \<open>its reset bit\<close>
  | WriteWakeDb
  | RingDb mhi_call
  | StatusCb mhi_cb
  | NotifyLpm mhi_cb                 \<comment> \<open>to the channels on the low-power list\<close>
  | ScheduleSysErr
  | ProgramEventRings | ProgramIntvec
  | KillTasklets | DestroyDevices | FlushWorkers | DestroyTimesync
  | ScheduleReady | QueueReady | InitDebugfs
  | DeinitDebugfs | FreeBhieTable | FreeIrq | DeinitDevCtxt
  | CheckInterrupt                   \<comment> \<open>\<open>mhi_intvec_threaded_handlr\<close>\<close>

section \<open>Transitions\<close>

definition mhi_state_transitions :: "(u32 \<times> u32) list" where
  "mhi_state_transitions =
     [(MHI_PM_DISABLE, MHI_PM_POR),
      (MHI_PM_POR, MHI_PM_POR OR MHI_PM_DISABLE OR MHI_PM_M0 OR MHI_PM_SYS_ERR_DETECT OR MHI_PM_SHUTDOWN_PROCESS
         OR MHI_PM_LD_ERR_FATAL_DETECT OR MHI_PM_FW_DL_ERR),
      (MHI_PM_M0, MHI_PM_M2 OR MHI_PM_M3_ENTER OR MHI_PM_SYS_ERR_DETECT OR MHI_PM_SHUTDOWN_PROCESS
         OR MHI_PM_LD_ERR_FATAL_DETECT OR MHI_PM_FW_DL_ERR),
      (MHI_PM_M2, MHI_PM_M0 OR MHI_PM_SYS_ERR_DETECT OR MHI_PM_SHUTDOWN_PROCESS OR MHI_PM_LD_ERR_FATAL_DETECT),
      (MHI_PM_M3_ENTER, MHI_PM_M3 OR MHI_PM_SYS_ERR_DETECT OR MHI_PM_SHUTDOWN_PROCESS OR MHI_PM_LD_ERR_FATAL_DETECT),
      (MHI_PM_M3, MHI_PM_M3_EXIT OR MHI_PM_SYS_ERR_DETECT OR MHI_PM_SHUTDOWN_PROCESS OR MHI_PM_LD_ERR_FATAL_DETECT),
      (MHI_PM_M3_EXIT, MHI_PM_M0 OR MHI_PM_SYS_ERR_DETECT OR MHI_PM_SHUTDOWN_PROCESS OR MHI_PM_LD_ERR_FATAL_DETECT),
      (MHI_PM_FW_DL_ERR, MHI_PM_FW_DL_ERR OR MHI_PM_SYS_ERR_DETECT OR MHI_PM_SHUTDOWN_PROCESS OR MHI_PM_LD_ERR_FATAL_DETECT),
      (MHI_PM_SYS_ERR_DETECT, MHI_PM_SYS_ERR_PROCESS OR MHI_PM_SHUTDOWN_PROCESS OR MHI_PM_LD_ERR_FATAL_DETECT),
      (MHI_PM_SYS_ERR_PROCESS, MHI_PM_POR OR MHI_PM_SHUTDOWN_PROCESS OR MHI_PM_LD_ERR_FATAL_DETECT),
      (MHI_PM_SHUTDOWN_PROCESS, MHI_PM_DISABLE OR MHI_PM_LD_ERR_FATAL_DETECT),
      (MHI_PM_LD_ERR_FATAL_DETECT, MHI_PM_LD_ERR_FATAL_DETECT OR MHI_PM_SHUTDOWN_PROCESS)]"

definition find_last_bit :: "u32 \<Rightarrow> nat" where
  "find_last_bit w = (case filter (bit w) (rev [0..<32]) of [] \<Rightarrow> 32 | i # _ \<Rightarrow> i)"

definition try_state :: "u32 \<Rightarrow> u32 \<Rightarrow> u32" where
  "try_state cur state =
     (let i = find_last_bit cur in
      if length mhi_state_transitions \<le> i then cur
      else if fst (mhi_state_transitions ! i) \<noteq> cur then cur
      else if snd (mhi_state_transitions ! i) AND state = 0 then cur
      else state)"

definition mhi_tryset_pm_state :: "u32 \<Rightarrow> mhi_pm \<Rightarrow> mhi_pm \<times> u32" where
  "mhi_tryset_pm_state state s = (s\<lparr>pm_state := try_state (pm_state s) state\<rparr>, try_state (pm_state s) state)"

definition mhi_set_mhi_state :: "mhi_dev_state \<Rightarrow> pm_call list" where
  "mhi_set_mhi_state st = (if st = MHI_STATE_RESET then [WriteReset] else [WriteMhiState st])"

definition mhi_assert_dev_wake :: "bool \<Rightarrow> mhi_pm \<Rightarrow> pm_call list" where
  "mhi_assert_dev_wake force s = (if dev_state s = MHI_STATE_M2 then [WriteWakeDb] else [])"

definition mhi_deassert_dev_wake :: "bool \<Rightarrow> mhi_pm \<Rightarrow> pm_call list" where
  "mhi_deassert_dev_wake override s = []"

section \<open>Handlers of the device's state changes\<close>

definition mhi_ring_er_db :: "mhi_event \<Rightarrow> mhi_event \<times> pm_call list" where
  "mhi_ring_er_db e = (let (cfg, log) = process_db (ev_db e) (ev_ctxt_wp e) in (e\<lparr>ev_db := cfg\<rparr>, map RingDb log))"

definition mhi_ring_cmd_db :: "mhi_cmd \<Rightarrow> mhi_cmd \<times> pm_call list" where
  "mhi_ring_cmd_db m =
     (let db = iommu_base (cmd_ring m) + (wp (cmd_ring m) - base (cmd_ring m)) in (m\<lparr>cmd_ctxt_wp := db\<rparr>, [RingDb (WriteDb db)]))"

definition map_log :: "('a \<Rightarrow> 'a \<times> 'l list) \<Rightarrow> 'a list \<Rightarrow> 'a list \<times> 'l list" where
  "map_log f xs = (map (\<lambda>x. fst (f x)) xs, concat (map (\<lambda>x. snd (f x)) xs))"

definition m0_event :: "mhi_event \<Rightarrow> mhi_event \<times> pm_call list" where
  "m0_event e = (if offload_ev e then (e, []) else mhi_ring_er_db e)"

definition m0_cmd :: "mhi_cmd \<Rightarrow> mhi_cmd \<times> pm_call list" where
  "m0_cmd m = (if rp (cmd_ring m) \<noteq> wp (cmd_ring m) then mhi_ring_cmd_db m else (m, []))"

definition m0_chan :: "mhi_chan \<Rightarrow> mhi_chan \<times> pm_call list" where
  "m0_chan ch =
     (let ch1 = (if reset_req (ch_db ch) then ch\<lparr>ch_db := (ch_db ch)\<lparr>db_mode := True\<rparr>\<rparr> else ch) in
      if base (tre_ring ch1) \<noteq> 0 \<and> wp (tre_ring ch1) \<noteq> rp (tre_ring ch1)
      then map_prod id (map RingDb) (mhi_ring_chan_db ch1) else (ch1, []))"

definition mhi_pm_m0_transition :: "mhi_pm \<Rightarrow> int \<times> mhi_pm \<times> pm_call list" where
  "mhi_pm_m0_transition s =
     (let (s1, cur) = mhi_tryset_pm_state MHI_PM_M0 (s\<lparr>dev_state := MHI_STATE_M0\<rparr>) in
      if cur \<noteq> MHI_PM_M0 then (- EIO, s1, [])
      else let s2 = s1\<lparr>count_M0 := count_M0 s1 + 1\<rparr>;
               log1 = mhi_assert_dev_wake False s2;
               (s3, log2) = (if MHI_IN_MISSION_MODE (ee s2) then
                   let (es, l1) = map_log m0_event (events s2); (m, l2) = m0_cmd (pm_cmd s2)
                   in (s2\<lparr>events := es, pm_cmd := m\<rparr>, l1 @ l2)
                 else (s2, []));
               (cs, log3) = map_log m0_chan (chans s3);
               s4 = s3\<lparr>chans := cs\<rparr>
           in (0, s4, log1 @ log2 @ log3 @ mhi_deassert_dev_wake False s4 @ [WakeUpAll]))"

definition mhi_pm_m1_transition :: "mhi_pm \<Rightarrow> mhi_pm \<times> pm_call list" where
  "mhi_pm_m1_transition s =
     (let (s1, st) = mhi_tryset_pm_state MHI_PM_M2 s in
      if st = MHI_PM_M2 then
        let s2 = s1\<lparr>dev_state := MHI_STATE_M2, count_M2 := count_M2 s1 + 1\<rparr>
        in (s2, mhi_set_mhi_state MHI_STATE_M2 @ [WakeUpAll]
             @ (if dev_wake s2 \<noteq> 0 then mhi_assert_dev_wake True s2 @ mhi_deassert_dev_wake False s2 else [StatusCb MHI_CB_IDLE]))
      else (s1, []))"

definition mhi_pm_m3_transition :: "mhi_pm \<Rightarrow> int \<times> mhi_pm \<times> pm_call list" where
  "mhi_pm_m3_transition s =
     (let (s1, st) = mhi_tryset_pm_state MHI_PM_M3 (s\<lparr>dev_state := MHI_STATE_M3\<rparr>) in
      if st \<noteq> MHI_PM_M3 then (- EIO, s1, [])
      else (0, s1\<lparr>count_M3 := count_M3 s1 + 1\<rparr>, [WakeUpAll]))"

text \<open>The state change event of the control event ring.\<close>

definition mhi_state_change_event :: "mhi_dev_state \<Rightarrow> mhi_pm \<Rightarrow> mhi_pm \<times> pm_call list" where
  "mhi_state_change_event st s =
     (case st of
        MHI_STATE_M0 \<Rightarrow> snd (mhi_pm_m0_transition s)
      | MHI_STATE_M1 \<Rightarrow> mhi_pm_m1_transition s
      | MHI_STATE_M3 \<Rightarrow> snd (mhi_pm_m3_transition s)
      | MHI_STATE_SYS_ERR \<Rightarrow> (let (s1, new) = mhi_tryset_pm_state MHI_PM_SYS_ERR_DETECT s
          in (s1, if new = MHI_PM_SYS_ERR_DETECT then [ScheduleSysErr] else []))
      | _ \<Rightarrow> (s, []))"

text \<open>A wait with a condition: the state changes handled before the condition holds or the time is up.\<close>

fun wait_event :: "(mhi_pm \<Rightarrow> bool) \<Rightarrow> mhi_dev_state list \<Rightarrow> mhi_pm \<Rightarrow> bool \<times> mhi_pm \<times> pm_call list" where
  "wait_event cond [] s = (cond s, s, [])"
| "wait_event cond (st # env) s =
     (if cond s then (True, s, [])
      else case mhi_state_change_event st s of (s1, log1) \<Rightarrow>
        (case wait_event cond env s1 of (ok, s2, log2) \<Rightarrow> (ok, s2, log1 @ log2)))"

section \<open>Suspend and resume\<close>

definition EBUSY :: int where "EBUSY = 16"
definition EINVAL :: int where "EINVAL = 22"
definition ETIMEDOUT :: int where "ETIMEDOUT = 110"

definition mhi_pm_suspend :: "mhi_dev_state list \<Rightarrow> mhi_dev_state list \<Rightarrow> mhi_pm \<Rightarrow> int \<times> mhi_pm \<times> pm_call list" where
  "mhi_pm_suspend env1 env2 s =
     (if pm_state s = MHI_PM_DISABLE then (- EINVAL, s, [])
      else if MHI_PM_IN_ERROR_STATE (pm_state s) then (- EIO, s, [])
      else if dev_wake s \<noteq> 0 then (- EBUSY, s, [])
      else
        let log0 = mhi_assert_dev_wake False s;
            (ok, s1, log1) = wait_event (\<lambda>s. dev_state s = MHI_STATE_M0 \<or> dev_state s = MHI_STATE_M1
                \<or> MHI_PM_IN_ERROR_STATE (pm_state s)) env1 s
        in if \<not> ok \<or> MHI_PM_IN_ERROR_STATE (pm_state s1)
           then (- EIO, s1, log0 @ log1 @ mhi_deassert_dev_wake False s1)
           else if 1 < dev_wake s1 then (- EBUSY, s1, log0 @ log1 @ mhi_deassert_dev_wake False s1)
           else let (s2, new) = mhi_tryset_pm_state MHI_PM_M3_ENTER s1 in
             if new \<noteq> MHI_PM_M3_ENTER then (- EIO, s2, log0 @ log1 @ mhi_deassert_dev_wake False s2)
             else let log2 = mhi_set_mhi_state MHI_STATE_M3 @ mhi_deassert_dev_wake False s2;
                      (ok2, s3, log3) = wait_event (\<lambda>s. dev_state s = MHI_STATE_M3 \<or> MHI_PM_IN_ERROR_STATE (pm_state s)) env2 s2
                  in if \<not> ok2 \<or> MHI_PM_IN_ERROR_STATE (pm_state s3) then (- EIO, s3, log0 @ log1 @ log2 @ log3)
                     else (0, s3, log0 @ log1 @ log2 @ log3 @ [NotifyLpm MHI_CB_LPM_ENTER]))"

definition mhi_pm_resume :: "mhi_dev_state list \<Rightarrow> mhi_pm \<Rightarrow> int \<times> mhi_pm \<times> pm_call list" where
  "mhi_pm_resume env s =
     (if pm_state s = MHI_PM_DISABLE then (0, s, [])
      else if MHI_PM_IN_ERROR_STATE (pm_state s) then (- EIO, s, [])
      else let (s1, cur) = mhi_tryset_pm_state MHI_PM_M3_EXIT s in
        if cur \<noteq> MHI_PM_M3_EXIT then (- EIO, s1, [NotifyLpm MHI_CB_LPM_EXIT])
        else let log1 = NotifyLpm MHI_CB_LPM_EXIT # mhi_assert_dev_wake True s1 @ mhi_set_mhi_state MHI_STATE_M0;
                 (ok, s2, log2) = wait_event (\<lambda>s. dev_state s = MHI_STATE_M0 \<or> MHI_PM_IN_ERROR_STATE (pm_state s)) env s1;
                 log3 = mhi_deassert_dev_wake False s2
             in if \<not> ok \<or> MHI_PM_IN_ERROR_STATE (pm_state s2) then (- EIO, s2, log1 @ log2 @ log3 @ [CheckInterrupt])
                else (0, s2, log1 @ log2 @ log3))"

section \<open>Ready, error and shutdown\<close>

definition fill_event :: "mhi_event \<Rightarrow> mhi_event" where
  "fill_event e = e\<lparr>ev_ring := (ev_ring e)\<lparr>wp := base (ev_ring e) + len (ev_ring e) - el_size (ev_ring e)\<rparr>,
     ev_ctxt_wp := iommu_base (ev_ring e) + len (ev_ring e) - el_size (ev_ring e)\<rparr>"

definition ready_event :: "mhi_event \<Rightarrow> mhi_event \<times> pm_call list" where
  "ready_event e = (if offload_ev e \<or> hw_ring e then (e, []) else mhi_ring_er_db (fill_event e))"

text \<open>
  What the device's registers read during the wait for READY: the reset bit and the ready bit
  at the end of the wait; and the result of \<open>mhi_init_mmio\<close>.
\<close>

record ready_regs =
  reg_reset :: bool
  reg_ready :: bool
  mmio_ret :: int

definition mhi_ready_state_transition :: "ready_regs \<Rightarrow> mhi_pm \<Rightarrow> int \<times> mhi_pm \<times> pm_call list" where
  "mhi_ready_state_transition q s =
     (if MHI_PM_IN_FATAL_STATE (pm_state s) then (- EIO, s, [])
      else if reg_reset q \<or> \<not> reg_ready q then (- ETIMEDOUT, s, [])
      else let (s1, cur) = mhi_tryset_pm_state MHI_PM_POR s; s2 = s1\<lparr>dev_state := MHI_STATE_READY\<rparr> in
        if cur \<noteq> MHI_PM_POR then (- EIO, s2, [])
        else if \<not> MHI_REG_ACCESS_VALID (pm_state s2) \<or> mmio_ret q \<noteq> 0 then (- EIO, s2, [])
        else let (es, log) = map_log ready_event (events s2)
             in (0, s2\<lparr>events := es\<rparr>, log @ mhi_set_mhi_state MHI_STATE_M0))"

definition reset_cmd :: "mhi_cmd \<Rightarrow> mhi_cmd" where
  "reset_cmd m = m\<lparr>cmd_ring := (cmd_ring m)\<lparr>rp := base (cmd_ring m), wp := base (cmd_ring m)\<rparr>,
     cmd_ctxt_rp := cmd_ctxt_rbase m, cmd_ctxt_wp := cmd_ctxt_rbase m\<rparr>"

definition reset_event :: "mhi_event \<Rightarrow> mhi_event" where
  "reset_event e = (if offload_ev e then e else e\<lparr>ev_ring := (ev_ring e)\<lparr>rp := base (ev_ring e), wp := base (ev_ring e)\<rparr>,
     ev_ctxt_rp := ev_ctxt_rbase e, ev_ctxt_wp := ev_ctxt_rbase e\<rparr>)"

text \<open>
  What happens around an error or shutdown transition: whether the device leaves reset in
  time, what the removal of the client devices does to the channels, the state changes handled
  while the workers are flushed, the device's execution environment and state afterwards, and
  the registers of the READY transition.
\<close>

record reset_env =
  leaves_reset :: bool
  destroy_devices :: "mhi_chan list \<Rightarrow> mhi_chan list"
  env_changes :: "mhi_dev_state list"
  env_ee :: mhi_ee
  env_state :: mhi_dev_state
  env_ready :: ready_regs

definition handle_changes :: "mhi_dev_state list \<Rightarrow> mhi_pm \<Rightarrow> mhi_pm \<times> pm_call list" where
  "handle_changes env s = snd (wait_event (\<lambda>_. False) env s)"

definition mhi_pm_disable_transition :: "reset_env \<Rightarrow> u32 \<Rightarrow> mhi_pm \<Rightarrow> mhi_pm \<times> pm_call list" where
  "mhi_pm_disable_transition q state s =
     (let log0 = (if state = MHI_PM_SYS_ERR_PROCESS then [StatusCb MHI_CB_SYS_ERROR] else []);
          prev = pm_state s;
          (s1, cur) = mhi_tryset_pm_state state s in
      if cur \<noteq> state then (s1, log0 @ [WakeUpAll])
      else
        let s2 = s1\<lparr>ee := MHI_EE_DISABLE_TRANSITION, dev_state := MHI_STATE_RESET\<rparr>;
            log1 = log0 @ [WakeUpAll] @ (if MHI_REG_ACCESS_VALID prev then mhi_set_mhi_state MHI_STATE_RESET else [])
        in if MHI_REG_ACCESS_VALID prev \<and> \<not> leaves_reset q \<and> cur = MHI_PM_SYS_ERR_PROCESS then (s2, log1)
           else
             let log2 = log1 @ (if MHI_REG_ACCESS_VALID prev then [ProgramEventRings, ProgramIntvec] else [])
                   @ [KillTasklets, DestroyDevices, WakeUpAll, FlushWorkers];
                 (s3, log3) = handle_changes (env_changes q) (s2\<lparr>chans := destroy_devices q (chans s2)\<rparr>);
                 s4 = s3\<lparr>pm_cmd := reset_cmd (pm_cmd s3), events := map reset_event (events s3)\<rparr>
             in if cur = MHI_PM_SYS_ERR_PROCESS then
                  if env_ee q = MHI_EE_EDL \<and> env_state q = MHI_STATE_RESET then
                    (fst (mhi_tryset_pm_state MHI_PM_POR (s4\<lparr>ee := MHI_EE_EDL\<rparr>)), log2 @ log3 @ [DestroyTimesync])
                  else let (_, s5, log5) = mhi_ready_state_transition (env_ready q) s4
                       in (s5, log2 @ log3 @ [DestroyTimesync] @ log5)
                else (fst (mhi_tryset_pm_state MHI_PM_DISABLE s4), log2 @ log3 @ [DestroyTimesync]))"

definition mhi_power_down :: "reset_env \<Rightarrow> bool \<Rightarrow> mhi_pm \<Rightarrow> mhi_pm \<times> pm_call list" where
  "mhi_power_down q graceful s =
     (let s1 = (if graceful then s else fst (mhi_tryset_pm_state MHI_PM_LD_ERR_FATAL_DETECT s));
          (s2, log) = mhi_pm_disable_transition q MHI_PM_SHUTDOWN_PROCESS s1
      in if pre_init s2 then (s2, log @ [DeinitDebugfs])
         else (s2\<lparr>fbc_image := False\<rparr>, log @ [DeinitDebugfs] @ (if fbc_image s2 then [FreeBhieTable] else [])
           @ [FreeIrq, DeinitDevCtxt]))"

definition mhi_pm_sys_err_worker :: "reset_env \<Rightarrow> mhi_pm \<Rightarrow> mhi_pm \<times> pm_call list" where
  "mhi_pm_sys_err_worker q s = mhi_pm_disable_transition q MHI_PM_SYS_ERR_PROCESS s"

text \<open>
  Powering up: what the initialisation functions and the register reads return, the device's
  execution environment and whether its state register reads M0 or higher.
\<close>

record power_env =
  up_running :: bool
  dev_ctxt_ret :: int
  irq_setup_ret :: int
  bhioff_ret :: int
  bhieoff_ret :: int
  up_ee :: mhi_ee

definition mhi_async_power_up :: "power_env \<Rightarrow> mhi_pm \<Rightarrow> int \<times> mhi_pm \<times> pm_call list" where
  "mhi_async_power_up q s =
     (let log0 = (if up_running q then mhi_set_mhi_state MHI_STATE_RESET else []) @ [ProgramEventRings];
          s1 = s\<lparr>pm_state := MHI_PM_DISABLE, dev_state := MHI_STATE_RESET\<rparr>;
          ret = (if bhioff_ret q \<noteq> 0 then bhioff_ret q else bhieoff_ret q) in
      if \<not> pre_init s \<and> dev_ctxt_ret q \<noteq> 0 then (dev_ctxt_ret q, s1, log0)
      else if \<not> pre_init s \<and> irq_setup_ret q \<noteq> 0 then (irq_setup_ret q, s1, log0 @ [DeinitDevCtxt])
      else if ret \<noteq> 0 then (ret, s1, log0 @ (if pre_init s then [] else [FreeIrq, DeinitDevCtxt]))
      else (0, s1\<lparr>pm_state := MHI_PM_POR, ee := MHI_EE_MAX\<rparr>,
            log0 @ [ProgramIntvec, if MHI_IN_PBL (up_ee q) then ScheduleReady else QueueReady, InitDebugfs]))"

section \<open>The transition table\<close>

definition pm_states :: "u32 list" where
  "pm_states = map fst mhi_state_transitions"

text \<open>The priority levels of the comment above the table.\<close>

definition pm_level :: "u32 \<Rightarrow> nat" where
  "pm_level s = (if s \<le> MHI_PM_FW_DL_ERR then 0 else if s \<le> MHI_PM_SYS_ERR_PROCESS then 1
     else if s \<le> MHI_PM_SHUTDOWN_PROCESS then 2 else 3)"

lemma table_checked:
  "list_all (\<lambda>cur. list_all (\<lambda>st. try_state cur st \<in> {cur, st} \<and>
     (pm_level cur \<le> pm_level (try_state cur st) \<or>
      (cur, try_state cur st) \<in> {(MHI_PM_SYS_ERR_PROCESS, MHI_PM_POR), (MHI_PM_SHUTDOWN_PROCESS, MHI_PM_DISABLE),
         (MHI_PM_LD_ERR_FATAL_DETECT, MHI_PM_SHUTDOWN_PROCESS)})) pm_states) pm_states"
  by code_simp

lemma table_refuses:
  "list_all (\<lambda>cur. 0 < pm_level cur \<longrightarrow>
     list_all (\<lambda>st. try_state cur st = cur) [MHI_PM_M0, MHI_PM_M2, MHI_PM_M3, MHI_PM_M3_ENTER, MHI_PM_M3_EXIT, MHI_PM_SYS_ERR_DETECT]) pm_states"
  by code_simp

lemma pm_states_members:
  "MHI_PM_DISABLE \<in> set pm_states" "MHI_PM_POR \<in> set pm_states" "MHI_PM_M0 \<in> set pm_states" "MHI_PM_M2 \<in> set pm_states"
  "MHI_PM_M3 \<in> set pm_states" "MHI_PM_M3_ENTER \<in> set pm_states" "MHI_PM_M3_EXIT \<in> set pm_states"
  "MHI_PM_SYS_ERR_DETECT \<in> set pm_states" "MHI_PM_SYS_ERR_PROCESS \<in> set pm_states"
  "MHI_PM_SHUTDOWN_PROCESS \<in> set pm_states" "MHI_PM_LD_ERR_FATAL_DETECT \<in> set pm_states"
  by code_simp+

lemma try_state_valid: "cur \<in> set pm_states \<Longrightarrow> st \<in> set pm_states \<Longrightarrow> try_state cur st \<in> set pm_states"
  using table_checked by (fastforce simp: list_all_iff)

lemma error_level: "cur \<in> set pm_states \<Longrightarrow> 0 < pm_level cur \<Longrightarrow> MHI_PM_IN_ERROR_STATE cur"
  by (simp add: pm_level_def MHI_PM_IN_ERROR_STATE_def MHI_PM_FW_DL_ERR_def split: if_splits)

section \<open>Effect on the power state\<close>

lemma tryset_effect [simp]:
  "pm_state (fst (mhi_tryset_pm_state st s)) = try_state (pm_state s) st"
  "snd (mhi_tryset_pm_state st s) = try_state (pm_state s) st"
  "dev_wake (fst (mhi_tryset_pm_state st s)) = dev_wake s"
  "dev_state (fst (mhi_tryset_pm_state st s)) = dev_state s"
  by (simp_all add: mhi_tryset_pm_state_def)

text \<open>The power state a device's state change asks for.\<close>

fun asked_state :: "mhi_dev_state \<Rightarrow> u32 option" where
  "asked_state MHI_STATE_M0 = Some MHI_PM_M0"
| "asked_state MHI_STATE_M1 = Some MHI_PM_M2"
| "asked_state MHI_STATE_M3 = Some MHI_PM_M3"
| "asked_state MHI_STATE_SYS_ERR = Some MHI_PM_SYS_ERR_DETECT"
| "asked_state _ = None"

lemma change_effect:
  "pm_state (fst (mhi_state_change_event st s)) = (case asked_state st of None \<Rightarrow> pm_state s | Some a \<Rightarrow> try_state (pm_state s) a)"
  "dev_wake (fst (mhi_state_change_event st s)) = dev_wake s"
  by (cases st; simp add: mhi_state_change_event_def mhi_pm_m0_transition_def mhi_pm_m1_transition_def mhi_pm_m3_transition_def
      Let_def case_prod_unfold)+

lemma asked_state_valid: "asked_state st = Some a \<Longrightarrow> a \<in> set pm_states \<and> a \<in> {MHI_PM_M0, MHI_PM_M2, MHI_PM_M3, MHI_PM_SYS_ERR_DETECT}"
  by (cases st) (auto simp: pm_states_members)

lemma wait_event_preserves:
  assumes "\<And>st s. P s \<Longrightarrow> P (fst (mhi_state_change_event st s))" "P s"
  shows "P (fst (snd (wait_event cond env s)))"
  using assms(2)
proof (induction env arbitrary: s)
  case (Cons st env)
  then show ?case using assms(1) [OF Cons.prems, of st] by (auto simp: case_prod_unfold)
qed simp

lemma wait_event_cond: "fst (wait_event cond env s) \<Longrightarrow> cond (fst (snd (wait_event cond env s)))"
  by (induction env arbitrary: s) (auto simp: case_prod_unfold split: if_splits)

definition pm_inv :: "mhi_pm \<Rightarrow> bool" where
  "pm_inv s \<longleftrightarrow> pm_state s \<in> set pm_states \<and> dev_wake s = 0"

lemma pm_inv_simps [simp]:
  "pm_inv (s\<lparr>dev_state := d\<rparr>) = pm_inv s" "pm_inv (s\<lparr>ee := e\<rparr>) = pm_inv s" "pm_inv (s\<lparr>chans := cs\<rparr>) = pm_inv s"
  "pm_inv (s\<lparr>events := es\<rparr>) = pm_inv s" "pm_inv (s\<lparr>pm_cmd := m\<rparr>) = pm_inv s" "pm_inv (s\<lparr>fbc_image := b\<rparr>) = pm_inv s"
  by (simp_all add: pm_inv_def)

lemma pm_inv_tryset [inv_intros]: "pm_inv s \<Longrightarrow> st \<in> set pm_states \<Longrightarrow> pm_inv (fst (mhi_tryset_pm_state st s))"
  by (simp add: pm_inv_def try_state_valid)

lemma pm_inv_change [inv_intros]: "pm_inv s \<Longrightarrow> pm_inv (fst (mhi_state_change_event st s))"
  by (auto simp: pm_inv_def change_effect try_state_valid asked_state_valid split: option.splits)

lemma pm_inv_wait [inv_intros]: "pm_inv s \<Longrightarrow> pm_inv (fst (snd (wait_event cond env s)))"
  by (rule wait_event_preserves) (auto intro: inv_intros)

lemma pm_inv_suspend [inv_intros]: "pm_inv s \<Longrightarrow> pm_inv (fst (snd (mhi_pm_suspend env1 env2 s)))"
  by (auto simp: mhi_pm_suspend_def Let_def case_prod_unfold pm_states_members intro!: inv_intros)

lemma pm_inv_resume [inv_intros]: "pm_inv s \<Longrightarrow> pm_inv (fst (snd (mhi_pm_resume env s)))"
  by (auto simp: mhi_pm_resume_def Let_def case_prod_unfold pm_states_members intro!: inv_intros)

lemma pm_inv_ready [inv_intros]: "pm_inv s \<Longrightarrow> pm_inv (fst (snd (mhi_ready_state_transition q s)))"
  by (auto simp: mhi_ready_state_transition_def Let_def case_prod_unfold pm_states_members intro!: inv_intros)

lemma pm_inv_disable [inv_intros]: "pm_inv s \<Longrightarrow> st \<in> set pm_states \<Longrightarrow> pm_inv (fst (mhi_pm_disable_transition q st s))"
  by (auto simp: mhi_pm_disable_transition_def handle_changes_def Let_def case_prod_unfold pm_states_members intro!: inv_intros)

lemma pm_inv_power_down [inv_intros]: "pm_inv s \<Longrightarrow> pm_inv (fst (mhi_power_down q graceful s))"
  by (auto simp: mhi_power_down_def Let_def case_prod_unfold pm_states_members intro!: inv_intros)

lemma pm_inv_power_up [inv_intros]: "pm_inv s \<Longrightarrow> pm_inv (fst (snd (mhi_async_power_up q s)))"
  by (simp add: mhi_async_power_up_def Let_def pm_inv_def pm_states_members)

section \<open>Reachable states\<close>

inductive pm_step :: "mhi_pm \<Rightarrow> mhi_pm \<Rightarrow> bool" where
  state_change: "pm_step s (fst (mhi_state_change_event st s))"
| suspend: "pm_step s (fst (snd (mhi_pm_suspend env1 env2 s)))"
| resume: "pm_step s (fst (snd (mhi_pm_resume env s)))"
| ready: "pm_step s (fst (snd (mhi_ready_state_transition r s)))"
| sys_err: "pm_step s (fst (mhi_pm_sys_err_worker q s))"
| power_down: "pm_step s (fst (mhi_power_down q graceful s))"
| power_up: "pm_step s (fst (snd (mhi_async_power_up u s)))"

text \<open>A controller as it is registered: powered off, nobody holding the device awake.\<close>

definition registered :: "mhi_pm \<Rightarrow> bool" where
  "registered s \<longleftrightarrow> pm_state s = MHI_PM_DISABLE \<and> dev_wake s = 0"

interpretation pm: inv_system registered pm_step pm_inv
proof unfold_locales
  show "registered s \<Longrightarrow> pm_inv s" for s by (simp add: registered_def pm_inv_def pm_states_members)
  show "pm_step s t \<Longrightarrow> pm_inv s \<Longrightarrow> pm_inv t" for s t
    by (induction rule: pm_step.induct)
      (auto simp: mhi_pm_sys_err_worker_def pm_states_members intro: inv_intros)
qed

section \<open>Priority of errors and shutdown\<close>

lemma change_refused:
  assumes "cur \<in> set pm_states" "0 < pm_level cur" "pm_state s = cur"
  shows "pm_state (fst (mhi_state_change_event st s)) = cur"
  using assms table_refuses asked_state_valid [of st]
  by (auto simp: change_effect list_all_iff split: option.splits)

lemma wait_refused:
  assumes "cur \<in> set pm_states" "0 < pm_level cur" "pm_state s = cur"
  shows "pm_state (fst (snd (wait_event cond env s))) = cur"
  by (rule wait_event_preserves [where P = "\<lambda>s. pm_state s = cur"]) (rule change_refused [OF assms(1,2)], assumption, rule assms(3))

lemma shutdown_level: "0 < pm_level MHI_PM_SHUTDOWN_PROCESS"
  by code_simp

lemma to_shutdown:
  "list_all (\<lambda>cur. try_state cur MHI_PM_SHUTDOWN_PROCESS =
     (if cur \<in> {MHI_PM_DISABLE, MHI_PM_SHUTDOWN_PROCESS} then cur else MHI_PM_SHUTDOWN_PROCESS)) pm_states"
  "list_all (\<lambda>cur. try_state cur MHI_PM_LD_ERR_FATAL_DETECT =
     (if cur = MHI_PM_DISABLE then cur else MHI_PM_LD_ERR_FATAL_DETECT)) pm_states"
  "try_state MHI_PM_SHUTDOWN_PROCESS MHI_PM_DISABLE = MHI_PM_DISABLE"
  "MHI_PM_DISABLE \<noteq> MHI_PM_SHUTDOWN_PROCESS" "MHI_PM_LD_ERR_FATAL_DETECT \<notin> {MHI_PM_DISABLE, MHI_PM_SHUTDOWN_PROCESS}"
  "MHI_PM_SHUTDOWN_PROCESS \<noteq> MHI_PM_SYS_ERR_PROCESS"
  by code_simp+

lemma shutdown_transition:
  assumes "pm_state s \<in> set pm_states" "pm_state s \<noteq> MHI_PM_SHUTDOWN_PROCESS"
  shows "pm_state (fst (mhi_pm_disable_transition q MHI_PM_SHUTDOWN_PROCESS s)) = MHI_PM_DISABLE"
proof (cases "pm_state s = MHI_PM_DISABLE")
  case True
  then have "try_state (pm_state s) MHI_PM_SHUTDOWN_PROCESS = MHI_PM_DISABLE" using to_shutdown(1) assms by (auto simp: list_all_iff)
  then show ?thesis using to_shutdown(4) by (simp add: mhi_pm_disable_transition_def Let_def case_prod_unfold)
next
  case False
  then have t: "try_state (pm_state s) MHI_PM_SHUTDOWN_PROCESS = MHI_PM_SHUTDOWN_PROCESS"
    using to_shutdown(1) assms by (auto simp: list_all_iff)
  have "pm_state (fst (handle_changes env u)) = MHI_PM_SHUTDOWN_PROCESS" if "pm_state u = MHI_PM_SHUTDOWN_PROCESS" for env u
    unfolding handle_changes_def by (rule wait_refused [OF pm_states_members(10) shutdown_level that])
  then show ?thesis
    using to_shutdown(3,6) by (simp add: mhi_pm_disable_transition_def Let_def case_prod_unfold t)
qed

section \<open>Suspend and resume\<close>

text \<open>A state change other than M3 and SYS_ERR leaves a controller alone that waits for M3.\<close>

lemma m3_enter_refuses:
  "try_state MHI_PM_M3_ENTER MHI_PM_M0 = MHI_PM_M3_ENTER" "try_state MHI_PM_M3_ENTER MHI_PM_M2 = MHI_PM_M3_ENTER"
  "try_state MHI_PM_M3_ENTER MHI_PM_M3_ENTER = MHI_PM_M3_ENTER" "try_state MHI_PM_M3_ENTER MHI_PM_M3_EXIT = MHI_PM_M3_ENTER"
  by code_simp+

lemma m3_path:
  "try_state MHI_PM_M0 MHI_PM_M3_ENTER = MHI_PM_M3_ENTER" "try_state MHI_PM_M3_ENTER MHI_PM_M3 = MHI_PM_M3"
  "try_state MHI_PM_M3 MHI_PM_M3_EXIT = MHI_PM_M3_EXIT" "try_state MHI_PM_M3_EXIT MHI_PM_M0 = MHI_PM_M0"
  by code_simp+

lemma not_in_error [simp]:
  "\<not> MHI_PM_IN_ERROR_STATE MHI_PM_M0" "\<not> MHI_PM_IN_ERROR_STATE MHI_PM_M3_ENTER" "\<not> MHI_PM_IN_ERROR_STATE MHI_PM_M3"
  "\<not> MHI_PM_IN_ERROR_STATE MHI_PM_M3_EXIT"
  by code_simp+

lemma distinct_m3 [simp]:
  "MHI_PM_M0 \<noteq> MHI_PM_DISABLE" "MHI_PM_M3 \<noteq> MHI_PM_DISABLE" "MHI_PM_M3_ENTER \<noteq> MHI_PM_DISABLE" "MHI_PM_M3_EXIT \<noteq> MHI_PM_DISABLE"
  "MHI_PM_M3_ENTER \<noteq> MHI_PM_M3_EXIT" "MHI_PM_M3_EXIT \<noteq> MHI_PM_M3_ENTER"
  by code_simp+

lemma m3_enter_change:
  assumes "pm_state s = MHI_PM_M3_ENTER" "st \<notin> {MHI_STATE_M3, MHI_STATE_SYS_ERR}"
  shows "pm_state (fst (mhi_state_change_event st s)) = MHI_PM_M3_ENTER"
  using assms by (cases st) (simp_all add: change_effect m3_enter_refuses)

lemma m3_enter_wait:
  "pm_state s = MHI_PM_M3_ENTER \<Longrightarrow> set env \<inter> {MHI_STATE_M3, MHI_STATE_SYS_ERR} = {} \<Longrightarrow>
   pm_state (fst (snd (wait_event cond env s))) = MHI_PM_M3_ENTER"
  by (induction env arbitrary: s) (auto simp: case_prod_unfold m3_enter_change)

lemma m3_enter_resume:
  "pm_state s = MHI_PM_M3_ENTER \<Longrightarrow> fst (mhi_pm_resume env s) = - EIO \<and> pm_state (fst (snd (mhi_pm_resume env s))) = MHI_PM_M3_ENTER"
  by (simp add: mhi_pm_resume_def Let_def case_prod_unfold m3_enter_refuses)

text \<open>The doorbells the return to M0 rings.\<close>

definition needs_db :: "mhi_chan \<Rightarrow> bool" where
  "needs_db ch \<longleftrightarrow> base (tre_ring ch) \<noteq> 0 \<and> wp (tre_ring ch) \<noteq> rp (tre_ring ch) \<and>
     (brstmode (ch_db ch) \<longrightarrow> db_mode (ch_db ch) \<or> reset_req (ch_db ch))"

lemma m0_chan_rings:
  "snd (m0_chan ch) = (if needs_db ch then [RingDb (WriteDb (iommu_base (tre_ring ch) + (wp (tre_ring ch) - base (tre_ring ch))))] else [])"
  by (auto simp: m0_chan_def needs_db_def mhi_ring_chan_db_def process_db_def mhi_db_brstmode_def mhi_db_brstmode_disable_def Let_def
      split: prod.splits)

lemma map_log_member: "x \<in> set xs \<Longrightarrow> e \<in> set (snd (f x)) \<Longrightarrow> e \<in> set (snd (map_log f xs))"
  by (auto simp: map_log_def)

lemma m0_transition_rings:
  assumes "try_state (pm_state s) MHI_PM_M0 = MHI_PM_M0" "ch \<in> set (chans s)" "needs_db ch"
  shows "RingDb (WriteDb (iommu_base (tre_ring ch) + (wp (tre_ring ch) - base (tre_ring ch)))) \<in> set (snd (snd (mhi_pm_m0_transition s)))"
  using map_log_member [OF assms(2), of _ m0_chan] m0_chan_rings [of ch] assms(1,3)
  by (auto simp: mhi_pm_m0_transition_def mhi_tryset_pm_state_def Let_def case_prod_unfold)

lemma suspend_ok:
  assumes "pm_state s = MHI_PM_M0" "dev_state s = MHI_STATE_M0" "dev_wake s = 0"
  shows "\<exists>s1 log. mhi_pm_suspend [] [MHI_STATE_M3] s = (0, s1, log) \<and> pm_state s1 = MHI_PM_M3 \<and> dev_state s1 = MHI_STATE_M3 \<and>
     dev_wake s1 = 0 \<and> chans s1 = chans s"
  using assms
  by (simp add: mhi_pm_suspend_def Let_def case_prod_unfold m3_path mhi_tryset_pm_state_def mhi_state_change_event_def mhi_pm_m3_transition_def)

lemma resume_ok:
  assumes "pm_state s = MHI_PM_M3" "dev_state s = MHI_STATE_M3"
  shows "\<exists>s1 log. mhi_pm_resume [MHI_STATE_M0] s = (0, s1, log) \<and> pm_state s1 = MHI_PM_M0 \<and> dev_state s1 = MHI_STATE_M0 \<and>
     set (snd (snd (mhi_pm_m0_transition (s\<lparr>pm_state := MHI_PM_M3_EXIT\<rparr>)))) \<subseteq> set log"
  using assms
  by (simp add: mhi_pm_resume_def Let_def case_prod_unfold m3_path mhi_tryset_pm_state_def mhi_state_change_event_def mhi_pm_m0_transition_def)
    auto

section \<open>Properties\<close>


definition sample_pm :: mhi_pm where
  "sample_pm = \<lparr>pm_state = MHI_PM_M0, pending_pkts = 0, dev_state = MHI_STATE_M0, ee = MHI_EE_AMSS, dev_wake = 0,
     count_M0 = 0, count_M2 = 0, count_M3 = 0, chans = [sample_chan], events = [],
     pm_cmd = \<lparr>cmd_ring = tre_ring sample_chan, cmd_ctxt_rbase = 0, cmd_ctxt_rp = 0, cmd_ctxt_wp = 0\<rparr>,
     pre_init = True, fbc_image = False\<rparr>"

definition sample_up :: power_env where
  "sample_up = \<lparr>up_running = False, dev_ctxt_ret = 0, irq_setup_ret = 0, bhioff_ret = 0, bhieoff_ret = 0, up_ee = MHI_EE_AMSS\<rparr>"


text \<open>
  Errors and shutdown have priority. In a system error, a shutdown or a link failure no
  state change of the device moves the power state, and suspend and resume fail with EIO and
  leave it; no attempt to set a state lowers the level of priority except from the processed
  error to POR, from shutdown to DISABLE and from the link failure to the shutdown.
\<close>

theorem pm_priority:
  assumes "pm_state s \<in> set pm_states" "st' \<in> set pm_states"
  shows "(0 < pm_level (pm_state s) \<longrightarrow>
        pm_state (fst (mhi_state_change_event st s)) = pm_state s \<and>
        mhi_pm_suspend env1 env2 s = (- EIO, s, []) \<and> mhi_pm_resume env1 s = (- EIO, s, [])) \<and>
     (pm_level (pm_state s) \<le> pm_level (pm_state (fst (mhi_tryset_pm_state st' s))) \<or>
      (pm_state s, pm_state (fst (mhi_tryset_pm_state st' s))) \<in>
        {(MHI_PM_SYS_ERR_PROCESS, MHI_PM_POR), (MHI_PM_SHUTDOWN_PROCESS, MHI_PM_DISABLE),
         (MHI_PM_LD_ERR_FATAL_DETECT, MHI_PM_SHUTDOWN_PROCESS)})"
proof (intro conjI impI)
  assume l: "0 < pm_level (pm_state s)"
  show "pm_state (fst (mhi_state_change_event st s)) = pm_state s" by (rule change_refused [OF assms(1) l refl])
  have "pm_state s \<noteq> MHI_PM_DISABLE" using l by (auto simp: pm_level_def MHI_PM_DISABLE_def MHI_PM_FW_DL_ERR_def)
  then show "mhi_pm_suspend env1 env2 s = (- EIO, s, [])" "mhi_pm_resume env1 s = (- EIO, s, [])"
    using error_level [OF assms(1) l] by (simp_all add: mhi_pm_suspend_def mhi_pm_resume_def)
next
  show "pm_level (pm_state s) \<le> pm_level (pm_state (fst (mhi_tryset_pm_state st' s))) \<or>
      (pm_state s, pm_state (fst (mhi_tryset_pm_state st' s))) \<in>
        {(MHI_PM_SYS_ERR_PROCESS, MHI_PM_POR), (MHI_PM_SHUTDOWN_PROCESS, MHI_PM_DISABLE),
         (MHI_PM_LD_ERR_FATAL_DETECT, MHI_PM_SHUTDOWN_PROCESS)}"
    using table_checked assms unfolding list_all_iff tryset_effect by blast
qed

lemma pm_priority_witness:
  "pm_state (fst (mhi_state_change_event MHI_STATE_M0 (sample_pm\<lparr>pm_state := MHI_PM_SHUTDOWN_PROCESS\<rparr>))) = MHI_PM_SHUTDOWN_PROCESS"
proof -
  let ?s = "sample_pm\<lparr>pm_state := MHI_PM_SHUTDOWN_PROCESS\<rparr>"
  have "pm_state ?s \<in> set pm_states" "0 < pm_level (pm_state ?s)" using pm_states_members(10) shutdown_level by simp_all
  then show ?thesis using pm_priority [of ?s MHI_PM_POR MHI_STATE_M0 "[]" "[]"] pm_states_members(2) by simp
qed



text \<open>
  Powering down always ends in the state DISABLE, whatever the power state, whatever the
  device does meanwhile and whether it leaves reset or not; only a graceful shutdown that
  finds another shutdown under way leaves the state to it.
\<close>

theorem power_down_disables:
  assumes "pm_state s \<in> set pm_states" "graceful \<longrightarrow> pm_state s \<noteq> MHI_PM_SHUTDOWN_PROCESS"
  shows "pm_state (fst (mhi_power_down q graceful s)) = MHI_PM_DISABLE"
proof -
  define s1 where "s1 = (if graceful then s else fst (mhi_tryset_pm_state MHI_PM_LD_ERR_FATAL_DETECT s))"
  have "pm_state s1 \<in> set pm_states \<and> pm_state s1 \<noteq> MHI_PM_SHUTDOWN_PROCESS"
    using assms to_shutdown(2,4,5) pm_states_members(11) by (auto simp: s1_def list_all_iff)
  then have "pm_state (fst (mhi_pm_disable_transition q MHI_PM_SHUTDOWN_PROCESS s1)) = MHI_PM_DISABLE"
    using shutdown_transition by blast
  then show ?thesis by (simp add: mhi_power_down_def s1_def Let_def case_prod_unfold)
qed

definition sample_reset :: reset_env where
  "sample_reset = \<lparr>leaves_reset = False, destroy_devices = (\<lambda>cs. cs), env_changes = [MHI_STATE_M0, MHI_STATE_SYS_ERR],
     env_ee = MHI_EE_AMSS, env_state = MHI_STATE_M0, env_ready = \<lparr>reg_reset = False, reg_ready = True, mmio_ret = 0\<rparr>\<rparr>"

lemma power_down_disables_witness:
  "pm_state sample_pm \<in> set pm_states \<and> pm_state (fst (mhi_power_down sample_reset False sample_pm)) = MHI_PM_DISABLE"
proof -
  have h: "pm_state sample_pm \<in> set pm_states" using pm_states_members(3) by (simp add: sample_pm_def)
  then show ?thesis using power_down_disables [OF h, of False sample_reset] by simp
qed

text \<open>
  A suspend whose device does not answer in time returns EIO with the power state left in
  M3_ENTER. From there no resume succeeds and no state change except M3 and SYS_ERR is
  accepted: a device that returns to M0 on its own stays without doorbells.
\<close>

theorem suspend_timeout_stuck:
  assumes "pm_state s = MHI_PM_M0" "dev_state s = MHI_STATE_M0" "dev_wake s = 0"
  shows "\<exists>s1 log. mhi_pm_suspend [] [] s = (- EIO, s1, log) \<and> pm_state s1 = MHI_PM_M3_ENTER \<and>
     \<not> MHI_DB_ACCESS_VALID (pm_state s1) \<and>
     (\<forall>env. fst (mhi_pm_resume env s1) = - EIO \<and> pm_state (fst (snd (mhi_pm_resume env s1))) = MHI_PM_M3_ENTER) \<and>
     (\<forall>st. st \<notin> {MHI_STATE_M3, MHI_STATE_SYS_ERR} \<longrightarrow> pm_state (fst (mhi_state_change_event st s1)) = MHI_PM_M3_ENTER)"
proof -
  obtain s1 log where s1: "mhi_pm_suspend [] [] s = (- EIO, s1, log)" "pm_state s1 = MHI_PM_M3_ENTER"
    using assms by (simp add: mhi_pm_suspend_def Let_def case_prod_unfold m3_path mhi_tryset_pm_state_def)
  moreover have "\<not> MHI_DB_ACCESS_VALID MHI_PM_M3_ENTER" by code_simp
  ultimately show ?thesis using m3_enter_resume [OF s1(2)] m3_enter_change [OF s1(2)] by auto
qed

lemma suspend_timeout_stuck_witness:
  "\<exists>s1 log. mhi_pm_suspend [] [] sample_pm = (- EIO, s1, log) \<and> fst (mhi_pm_resume [MHI_STATE_M0] s1) = - EIO \<and>
     pm_state (fst (mhi_state_change_event MHI_STATE_M0 s1)) = MHI_PM_M3_ENTER"
proof -
  have h: "pm_state sample_pm = MHI_PM_M0" "dev_state sample_pm = MHI_STATE_M0" "dev_wake sample_pm = 0"
    by (simp_all add: sample_pm_def)
  from suspend_timeout_stuck [OF h] show ?thesis by blast
qed

end
