(* ===== verification/CmMain.thy ===== *)
theory CmMain
  imports QmiThread
begin

text \<open>
  The main thread of the connection manager (\<open>quectel_cm_5G/src/main.c\<close>, \<open>qmi_main\<close>) with the QMI
  back-end: start-up, and the events that set up, watch and stop the data calls. One step handles
  one event: a signal read from \<open>signal_control_fd\<close>, an event of the reader thread, a timeout of
  \<open>poll\<close>, or a signal of the operating system. Time is an argument: \<open>now\<close> when a handler starts,
  \<open>later\<close> after its requests.
\<close>

section \<open>State\<close>

datatype dhcp_call = udhcpc_start PROFILE_T | udhcpc_stop PROFILE_T

record cm =
  qm :: qmi
  profile :: PROFILE_T
  SIMStatus :: SIM_Status
  ps_attached :: byte                       \<comment> \<open>\<open>PSAttachedState\<close>\<close>
  IPv4ConnectionStatus :: byte
  IPv6ConnectionStatus :: byte
  SetupCallFail :: u32
  SetupCallAllowTime :: nat
  s_link :: int
  alarm_in :: "nat option"                  \<comment> \<open>seconds of the pending \<open>alarm\<close>\<close>
  signals :: "int list"                     \<comment> \<open>unread in \<open>signal_control_fd\<close>\<close>
  to_qmidevice :: "int list"                \<comment> \<open>written to \<open>qmidevice_control_fd[0]\<close>\<close>
  dhcp :: "dhcp_call list"
  quit :: bool
  g_donot_exit_when_modem_hangup :: bool

definition send_signo_to_main :: "int \<Rightarrow> cm \<Rightarrow> cm" where
  "send_signo_to_main signo c = c\<lparr>signals := signals c @ [signo]\<rparr>"

definition main_send_event_to_qmidevice :: "int \<Rightarrow> cm \<Rightarrow> cm" where
  "main_send_event_to_qmidevice e c = c\<lparr>to_qmidevice := to_qmidevice c @ [e]\<rparr>"

definition usbnet_link_change :: "int \<Rightarrow> cm \<Rightarrow> cm" where
  "usbnet_link_change link c =
     (if s_link c = link then c
      else let p = profile c;
               p = (if bit link (nat IpFamilyV4) then p else p\<lparr>ipv4 := zero_ipv4\<rparr>);
               p = (if bit link (nat IpFamilyV6) then p else p\<lparr>ipv6 := zero_ipv6\<rparr>) in
           c\<lparr>s_link := link, profile := p, dhcp := dhcp c @ [if link \<noteq> 0 then udhcpc_start p else udhcpc_stop p]\<rparr>)"

definition check_ipv4_address :: "cm \<Rightarrow> (bool \<times> cm) option" where
  "check_ipv4_address c = do {
     (err, p, s) \<leftarrow> requestGetIPAddress (profile c) IpFamilyV4 (qm c);
     Some (err = 0 \<and> v4_Address (ipv4 p) = v4_Address (ipv4 (profile c)), c\<lparr>profile := p, qm := s\<rparr>)
   }"

section \<open>Setting up the data calls\<close>

text \<open>The retry with the other authentication protocol.\<close>

definition has_credentials :: "PROFILE_T \<Rightarrow> bool" where
  "has_credentials p \<longleftrightarrow> \<not> empty_cstr (user p) \<and> \<not> empty_cstr (password p)"

definition setup_ipv4 :: "PROFILE_T \<Rightarrow> qmi \<Rightarrow> (int \<times> PROFILE_T \<times> qmi) option" where
  "setup_ipv4 p s = do {
     (err, p, s) \<leftarrow> requestSetupDataCall p IpFamilyV4 s;
     if 0 < err \<and> has_credentials p then do {
       (err, p', s) \<leftarrow> requestSetupDataCall (p\<lparr>auth := (if auth p = 1 then 2 else 1)\<rparr>) IpFamilyV4 s;
       Some (err, if err \<noteq> 0 then p'\<lparr>auth := auth p\<rparr> else p', s)
     }
     else Some (err, p, s)
   }"

definition call_ipv4 :: "cm \<Rightarrow> cm option" where
  "call_ipv4 c =
     (if enable_ipv4 (profile c) \<and> IPv4ConnectionStatus c \<noteq> QWDS_PKT_DATA_CONNECTED then do {
        (err, p, s) \<leftarrow> setup_ipv4 (profile c) (qm c);
        if err \<noteq> 0 then Some (c\<lparr>profile := p, qm := s\<rparr>)
        else do {
          (err, p, s) \<leftarrow> requestGetIPAddress p IpFamilyV4 s;
          Some (c\<lparr>profile := p, qm := s, IPv4ConnectionStatus := (if err = 0 then QWDS_PKT_DATA_CONNECTED else IPv4ConnectionStatus c)\<rparr>)
        }
      }
      else Some c)"

definition call_ipv6 :: "cm \<Rightarrow> cm option" where
  "call_ipv6 c =
     (if enable_ipv6 (profile c) \<and> IPv6ConnectionStatus c \<noteq> QWDS_PKT_DATA_CONNECTED then do {
        (err, p, s) \<leftarrow> requestSetupDataCall (profile c) IpFamilyV6 (qm c);
        if err \<noteq> 0 then Some (c\<lparr>profile := p, qm := s\<rparr>)
        else do {
          (err, p, s) \<leftarrow> requestGetIPAddress p IpFamilyV6 s;
          Some (c\<lparr>profile := p, qm := s, IPv6ConnectionStatus := (if err = 0 then QWDS_PKT_DATA_CONNECTED else IPv6ConnectionStatus c)\<rparr>)
        }
      }
      else Some c)"

definition call_down :: "cm \<Rightarrow> bool" where
  "call_down c \<longleftrightarrow> enable_ipv4 (profile c) \<and> IPv4ConnectionStatus c = QWDS_PKT_DATA_DISCONNECTED
     \<or> enable_ipv6 (profile c) \<and> IPv6ConnectionStatus c = QWDS_PKT_DATA_DISCONNECTED"

definition call_up :: "cm \<Rightarrow> bool" where
  "call_up c \<longleftrightarrow> IPv4ConnectionStatus c = QWDS_PKT_DATA_CONNECTED \<or> IPv6ConnectionStatus c = QWDS_PKT_DATA_CONNECTED"

definition retry_delay :: "u32 \<Rightarrow> nat" where
  "retry_delay n = (if unat n < 5 then [5, 10, 20, 40, 60] ! unat n else 60)"

definition schedule_retry :: "nat \<Rightarrow> cm \<Rightarrow> cm" where
  "schedule_retry later c =
     (if call_down c
      then let d = retry_delay (SetupCallFail c) in
           c\<lparr>SetupCallFail := SetupCallFail c + 1, alarm_in := Some d, SetupCallAllowTime := d * 1000 + later\<rparr>
      else if call_up c then c\<lparr>SetupCallFail := 0, SetupCallAllowTime := later\<rparr>
      else c)"

text \<open>
  Too early for a call, the alarm is set to the seconds left: \<open>unsigned long\<close> milliseconds, of a
  second reading of the clock, and an \<open>unsigned\<close> argument of \<open>alarm\<close>, for which 0 means none.
\<close>

definition alarm_delay :: "nat \<Rightarrow> nat \<Rightarrow> nat option" where
  "alarm_delay allow later =
     (let n = nat ((int allow - int later + 999) mod 2 ^ 64 div 1000 mod 2 ^ 32) in if n = 0 then None else Some n)"

definition sig_start :: "nat \<Rightarrow> nat \<Rightarrow> cm \<Rightarrow> cm option" where
  "sig_start now later c =
     (if ps_attached c \<noteq> 1 \<and> loopback_state (profile c) = 0 then Some c
      else if now < SetupCallAllowTime c then Some (c\<lparr>alarm_in := alarm_delay (SetupCallAllowTime c) later\<rparr>)
      else do { c \<leftarrow> call_ipv4 c; c \<leftarrow> call_ipv6 c; Some (schedule_retry later c) })"

section \<open>Watching the data calls\<close>

definition registration :: "cm \<Rightarrow> cm option" where
  "registration c = do {
     (err, ps, printed, s) \<leftarrow> requestRegistrationState (ps_attached c) (qm c);
     Some (c\<lparr>ps_attached := ps, qm := s\<rparr>)
   }"

definition fetch_address :: "cm \<Rightarrow> cm option" where
  "fetch_address c =
     (if IPv4ConnectionStatus c = QWDS_PKT_DATA_CONNECTED \<and> v4_Address (ipv4 (profile c)) = 0 then do {
        (err, p, s) \<leftarrow> requestGetIPAddress (profile c) IpFamilyV4 (qm c);
        Some (c\<lparr>profile := p, qm := s, IPv4ConnectionStatus := (if err \<noteq> 0 then QWDS_PKT_DATA_DISCONNECTED else IPv4ConnectionStatus c)\<rparr>)
      }
      else Some c)"

definition compare_address :: "cm \<Rightarrow> cm option" where
  "compare_address c =
     (if IPv4ConnectionStatus c = QWDS_PKT_DATA_CONNECTED then do {
        (same, c) \<leftarrow> check_ipv4_address c;
        if same then Some c
        else do {
          (err, s) \<leftarrow> requestDeactivateDefaultPDP (profile c) IpFamilyV4 (qm c);
          Some (c\<lparr>qm := s, IPv4ConnectionStatus := QWDS_PKT_DATA_DISCONNECTED\<rparr>)
        }
      }
      else Some c)"

definition watch_ipv4 :: "cm \<Rightarrow> cm option" where
  "watch_ipv4 c =
     (if enable_ipv4 (profile c) \<and> IPv4ConnectionStatus c \<noteq> QWDS_PKT_DATA_DISCONNECTED then do {
        (err, st, s) \<leftarrow> requestQueryDataCall (IPv4ConnectionStatus c) IpFamilyV4 (qm c);
        let c = c\<lparr>qm := s, IPv4ConnectionStatus := st\<rparr>;
        if err \<noteq> 0 then Some (c\<lparr>IPv4ConnectionStatus := QWDS_PKT_DATA_DISCONNECTED\<rparr>)
        else do { c \<leftarrow> fetch_address c; compare_address c }
      }
      else Some (c\<lparr>IPv4ConnectionStatus := QWDS_PKT_DATA_DISCONNECTED\<rparr>))"

definition watch_ipv6 :: "cm \<Rightarrow> cm option" where
  "watch_ipv6 c =
     (if enable_ipv6 (profile c) \<and> IPv6ConnectionStatus c \<noteq> QWDS_PKT_DATA_DISCONNECTED then do {
        (err, st, s) \<leftarrow> requestQueryDataCall (IPv6ConnectionStatus c) IpFamilyV6 (qm c);
        Some (c\<lparr>qm := s, IPv6ConnectionStatus := st\<rparr>)
      }
      else Some (c\<lparr>IPv6ConnectionStatus := QWDS_PKT_DATA_DISCONNECTED\<rparr>))"

definition link_bits :: "cm \<Rightarrow> int" where
  "link_bits c =
     (if IPv4ConnectionStatus c = QWDS_PKT_DATA_CONNECTED then push_bit (nat IpFamilyV4) 1 else 0) OR
     (if IPv6ConnectionStatus c = QWDS_PKT_DATA_CONNECTED then push_bit (nat IpFamilyV6) 1 else 0)"

definition update_link :: "cm \<Rightarrow> cm" where
  "update_link c =
     (if IPv4ConnectionStatus c = QWDS_PKT_DATA_DISCONNECTED \<and> IPv6ConnectionStatus c = QWDS_PKT_DATA_DISCONNECTED
      then usbnet_link_change 0 c
      else if call_up c then usbnet_link_change (link_bits c) c
      else c)"

definition sig_check :: "cm \<Rightarrow> cm option" where
  "sig_check c = do {
     c \<leftarrow> (if ps_attached c \<noteq> 1 then registration c else Some c);
     c \<leftarrow> watch_ipv4 c;
     c \<leftarrow> watch_ipv6 c;
     let c = update_link c;
     Some (if call_down c then send_signo_to_main SIG_EVENT_START c else c)
   }"

section \<open>Stopping\<close>

definition stop_call :: "int \<Rightarrow> cm \<Rightarrow> cm option" where
  "stop_call family c = do {
     (err, s) \<leftarrow> requestDeactivateDefaultPDP (profile c) family (qm c);
     Some (c\<lparr>qm := s\<rparr>)
   }"

definition sig_stop :: "cm \<Rightarrow> cm option" where
  "sig_stop c = do {
     c \<leftarrow> (if enable_ipv4 (profile c) \<and> IPv4ConnectionStatus c = QWDS_PKT_DATA_CONNECTED then stop_call IpFamilyV4 c else Some c);
     c \<leftarrow> (if enable_ipv6 (profile c) \<and> IPv6ConnectionStatus c = QWDS_PKT_DATA_CONNECTED then stop_call IpFamilyV6 c else Some c);
     let c = usbnet_link_change 0 c;
     (ret, s) \<leftarrow> QmiWwanDeInit (qm c);
     Some (main_send_event_to_qmidevice RIL_REQUEST_QUIT (c\<lparr>qm := s, quit := True\<rparr>))
   }"

section \<open>Events\<close>

definition handle_signal :: "nat \<Rightarrow> nat \<Rightarrow> int \<Rightarrow> cm \<Rightarrow> cm option" where
  "handle_signal now later signo c =
     (let c = c\<lparr>alarm_in := None\<rparr> in
      if signo = SIG_EVENT_START then sig_start now later c
      else if signo = SIG_EVENT_CHECK then sig_check c
      else if signo = SIG_EVENT_STOP then sig_stop c
      else Some c)"

definition main_quit :: "cm \<Rightarrow> cm" where
  "main_quit c = (usbnet_link_change 0 c)\<lparr>quit := True\<rparr>"

definition handle_event :: "nat \<Rightarrow> main_event \<Rightarrow> cm \<Rightarrow> cm option" where
  "handle_event now ev c =
     (case ev of
        MainEvent e \<Rightarrow>
          if e = RIL_INDICATE_DEVICE_DISCONNECTED then Some (main_quit c)
          else if e = RIL_UNSOL_RESPONSE_VOICE_NETWORK_STATE_CHANGED then do {
            c \<leftarrow> registration c;
            Some (if ps_attached c = 1 then (if call_down c then send_signo_to_main SIG_EVENT_START c else c)
                  else c\<lparr>SetupCallAllowTime := now\<rparr>)
          }
          else if e = RIL_UNSOL_DATA_CALL_LIST_CHANGED then
            Some (send_signo_to_main SIG_EVENT_CHECK (if call_up c then c\<lparr>SetupCallAllowTime := now + 1000\<rparr> else c))
          else if e = MODEM_REPORT_RESET_EVENT then
            Some (main_quit (main_send_event_to_qmidevice RIL_REQUEST_QUIT (c\<lparr>g_donot_exit_when_modem_hangup := True\<rparr>)))
          else Some c
      | MainEventExt e d \<Rightarrow>
          if e = RIL_UNSOL_LOOPBACK_CONFIG_IND then do {
            st \<leftarrow> rd8 d 7;
            f \<leftarrow> rd32 d 11;
            let c = c\<lparr>profile := (profile c)\<lparr>loopback_state := st, replication_factor := f\<rparr>\<rparr>;
            Some (if st \<noteq> 0 then send_signo_to_main SIG_EVENT_START c else c)
          }
          else Some c)"

text \<open>\<open>ql_sigaction\<close>: the handler of SIGALRM, and of SIGINT and SIGTERM.\<close>

definition ql_sigaction :: "bool \<Rightarrow> cm \<Rightarrow> cm" where
  "ql_sigaction sigalrm c =
     (if sigalrm then send_signo_to_main SIG_EVENT_START c
      else main_send_event_to_qmidevice SIG_EVENT_STOP
        (send_signo_to_main SIG_EVENT_STOP (c\<lparr>g_donot_exit_when_modem_hangup := False\<rparr>)))"

text \<open>The loop of \<open>qmi_main\<close>, one event at a time.\<close>

inductive cm_step :: "cm \<Rightarrow> cm \<Rightarrow> bool" where
  poll_timeout: "\<not> quit c \<Longrightarrow> signals c = [] \<Longrightarrow> to_main (qm c) = [] \<Longrightarrow> cm_step c (send_signo_to_main SIG_EVENT_CHECK c)"
| read_signal: "\<not> quit c \<Longrightarrow> signals c = sg # sgs \<Longrightarrow> handle_signal now later sg (c\<lparr>signals := sgs\<rparr>) = Some c' \<Longrightarrow> cm_step c c'"
| read_event: "\<not> quit c \<Longrightarrow> to_main (qm c) = e # es \<Longrightarrow> handle_event now e (c\<lparr>qm := (qm c)\<lparr>to_main := es\<rparr>\<rparr>) = Some c' \<Longrightarrow> cm_step c c'"
| alarm_fires: "alarm_in c = Some n \<Longrightarrow> cm_step c (ql_sigaction True (c\<lparr>alarm_in := None\<rparr>))"
| user_stops: "cm_step c (ql_sigaction False c)"

section \<open>Start-up\<close>

text \<open>The SIM status is asked for until the modem supports the question.\<close>

lemma check_uses_exchange:
  assumes "t = (err, rsp, s1)" "request svc ty b s = Some t" "qmi_rsp_check_and_return (\<lambda>e s. (e, x, s)) t k = Some (e, y, s')"
    and "\<And>m u v w. k m s1 = Some (u, v, w) \<Longrightarrow> length (exchanges w) \<le> length (exchanges s1)"
  shows "length (exchanges s') \<le> length (exchanges s)"
    and "e \<notin> {- ENODEV, ETIMEDOUT} \<Longrightarrow> length (exchanges s') < length (exchanges s)"
proof -
  have r: "request svc ty b s = Some (err, rsp, s1)" using assms(1,2) by simp
  note u = request_uses_exchange [OF r]
  have c: "rsp = None \<and> s' = s1 \<and> e = err \<or> err < 0 \<and> s' = s1 \<and> e = err \<or> rsp \<noteq> None \<and> length (exchanges s') \<le> length (exchanges s1)"
    using assms(1,3,4) by (auto simp: qmi_rsp_check_and_return_def bind_eq_Some_conv split: if_splits option.splits)
  then show "length (exchanges s') \<le> length (exchanges s)" using u(1) by auto
  show "length (exchanges s') < length (exchanges s)" if "e \<notin> {- ENODEV, ETIMEDOUT}" using c u that by force
qed

lemma pin_exchanges:
  assumes "requestGetPINStatus st s = Some (e, st', s')"
  shows "length (exchanges s') \<le> length (exchanges s)"
proof -
  obtain svc ty err rsp s1 where r: "request svc ty no_body s = Some (err, rsp, s1)"
      and q: "qmi_rsp_check_and_return (\<lambda>e s. (e, st, s)) (err, rsp, s1) (\<lambda>m s. do {
         st \<leftarrow> with_tlv m 0x11 st (\<lambda>p. do { v \<leftarrow> rd8 m (p + 3);
                Some (if v = 1 then SIM_PIN else if v = 4 then SIM_PUK else if v = 5 then SIM_BAD else st) });
         Some (0, st, s) }) = Some (e, st', s')"
    using assms by (auto simp: requestGetPINStatus_def bind_eq_Some_conv split: if_splits)
  show ?thesis by (rule check_uses_exchange(1) [OF refl r q]) (auto simp: bind_eq_Some_conv)
qed

lemma sim_exchanges:
  assumes "requestGetSIMStatus st s = Some (0x19, st', s')"
  shows "length (exchanges s') < length (exchanges s)"
proof -
  obtain svc ty err rsp s1 where r: "request svc ty no_body s = Some (err, rsp, s1)"
      and q: "qmi_rsp_check_and_return (\<lambda>e s. (e, st, s)) (err, rsp, s1) (\<lambda>m s. do {
       (st, s) \<leftarrow> (if s_9x07 s then do { (cs, pin) \<leftarrow> card_status m; Some (sim_of cs pin, s) }
                  else do {
                    u \<leftarrow> rd8 m 23;
                    if u = 0x00 then Some (SIM_READY, s)
                    else if u = 0x01 then do { (e, st, s) \<leftarrow> requestGetPINStatus SIM_ABSENT s; Some (st, s) }
                    else Some (SIM_ABSENT, s)
                  });
       if st = SIM_BAD then None else Some (0, st, s) }) = Some (0x19, st', s')"
    using assms by (auto simp: requestGetSIMStatus_def bind_eq_Some_conv split: if_splits)
  show ?thesis
    by (rule check_uses_exchange(2) [OF refl r q])
      (auto simp: bind_eq_Some_conv ENODEV_def ETIMEDOUT_def split: if_splits dest: pin_exchanges)
qed

function sim_status_loop :: "SIM_Status \<Rightarrow> qmi \<Rightarrow> (SIM_Status \<times> qmi) option" where
  "sim_status_loop st s = do {
     (err, st', s') \<leftarrow> requestGetSIMStatus st s;
     if err = 0x19 then sim_status_loop st' s' else Some (st', s')
   }"
  by auto

termination
  by (relation "measure (\<lambda>(st, s). length (exchanges s))") (auto dest: sim_exchanges)

declare sim_status_loop.simps [simp del]

text \<open>\<open>qmi_main\<close> from the initialisation of the transport to the loop; a failed one ends the program.\<close>

definition cm_init :: "PROFILE_T \<Rightarrow> qmi \<Rightarrow> nat \<Rightarrow> cm" where
  "cm_init p s now = \<lparr>qm = s, profile = p, SIMStatus = SIM_ABSENT, ps_attached = 0, IPv4ConnectionStatus = QWDS_PKT_DATA_UNKNOW,
     IPv6ConnectionStatus = QWDS_PKT_DATA_UNKNOW, SetupCallFail = 0, SetupCallAllowTime = now, s_link = -1, alarm_in = None, signals = [],
     to_qmidevice = [], dhcp = [], quit = False, g_donot_exit_when_modem_hangup = False\<rparr>"

definition set_loopback :: "PROFILE_T \<Rightarrow> qmi \<Rightarrow> (PROFILE_T \<times> qmi) option" where
  "set_loopback p s =
     (if loopback_state p = 0 then Some (p, s)
      else do {
        (err, s) \<leftarrow> requestSetLoopBackState (loopback_state p) (replication_factor p) s;
        Some (if err \<noteq> 0x0047 then p\<lparr>loopback_state := 0\<rparr> else p, s)
      })"

definition qmi_main_start :: "PROFILE_T \<Rightarrow> qmi \<Rightarrow> nat \<Rightarrow> cm option" where
  "qmi_main_start p s now = do {
     (err, p, s) \<leftarrow> QmiWwanInit p s;
     if err \<noteq> 0 then Some ((cm_init p s now)\<lparr>quit := True\<rparr>)
     else do {
       (err, p, s) \<leftarrow> requestBaseBandVersion p s;
       (err, p, s) \<leftarrow> requestSetEthMode p s;
       (p, s) \<leftarrow> set_loopback p s;
       (sim, s) \<leftarrow> sim_status_loop SIM_ABSENT s;
       s \<leftarrow> (case pincode p of
               None \<Rightarrow> Some s
             | Some pin \<Rightarrow> if sim = SIM_PIN then do { (err, s) \<leftarrow> requestEnterSimPin pin s; Some s } else Some s);
       (err, p, s) \<leftarrow> requestGetProfile p s;
       s \<leftarrow> (if apn p \<noteq> None \<or> user p \<noteq> None \<or> password p \<noteq> None then do { (err, s) \<leftarrow> requestSetProfile p s; Some s } else Some s);
       (err, ps, printed, s) \<leftarrow> requestRegistrationState 0 s;
       Some (send_signo_to_main SIG_EVENT_CHECK ((cm_init p s now)\<lparr>SIMStatus := sim, ps_attached := ps\<rparr>))
     }
   }"

section \<open>The transport invariant\<close>

text \<open>Every request keeps the invariant of the transport, whatever the modem answers.\<close>

lemma request_ok_inv:
  assumes "request svc ty b s = Some (err, rsp, s')" "svc \<noteq> 0xFF" "qmi_ok s"
  shows "qmi_ok s'"
proof -
  let ?s = "s\<lparr>QMUXTransactionId := GetQMUXTransactionId (QMUXTransactionId s)\<rparr>"
  obtain req where c: "ComposeQMUXMsg svc ty b (GetQMUXTransactionId (QMUXTransactionId s)) = Some req"
      and r: "QmiThreadSendQMITimeout True req ?s = Some (err, rsp, s')"
    using assms(1) by (auto simp: request_def compose_def bind_eq_Some_conv Let_def)
  have "qmi_ok ?s" using assms(3) by (auto simp: qmi_ok_def GetQMUXTransactionId_def)
  from send_total [OF this, of req True] compose_request_ok [OF c assms(2)] r show ?thesis by auto
qed

text \<open>What holds of the result of a computation that may be undefined.\<close>

lemma ensures_bind: "pred_option Q r \<Longrightarrow> (\<And>x. Q x \<Longrightarrow> pred_option P (f x)) \<Longrightarrow> pred_option P (r \<bind> f)"
  by (cases r) auto

lemma ensures_any: "(\<And>x. pred_option P (f x)) \<Longrightarrow> pred_option P (r \<bind> f)"
  by (cases r) auto

lemma ensures_request:
  "qmi_ok s \<Longrightarrow> svc \<noteq> 0xFF \<Longrightarrow> pred_option (\<lambda>(err, rsp, s'). qmi_ok s') (request svc ty b s)"
  by (cases "request svc ty b s") (auto dest: request_ok_inv)

lemma ensures_check:
  assumes "\<And>e u. qmi_ok u \<Longrightarrow> P (ret e u)" "\<And>m u. qmi_ok u \<Longrightarrow> pred_option P (k m u)" "qmi_ok s"
  shows "pred_option P (qmi_rsp_check_and_return ret (err, rsp, s) k)"
  using assms unfolding qmi_rsp_check_and_return_def by (auto intro!: ensures_any split: option.split)

lemma ensures_ask:
  assumes "qmi_ok s" "svc \<noteq> 0xFF" "\<And>e u. qmi_ok u \<Longrightarrow> P (ret e u)" "\<And>m u. qmi_ok u \<Longrightarrow> pred_option P (k m u)"
  shows "pred_option P (request svc ty b s \<bind> (\<lambda>t. qmi_rsp_check_and_return ret t k))"
  by (rule ensures_bind [OF ensures_request [OF assms(1,2)]]) (auto intro!: ensures_check assms(3,4))

lemma qmi_ok_updates [simp]:
  "qmi_ok (s\<lparr>WdsConnectionIPv4Handle := h\<rparr>) = qmi_ok s" "qmi_ok (s\<lparr>WdsConnectionIPv6Handle := h\<rparr>) = qmi_ok s"
  "qmi_ok (s\<lparr>s_is_cdma := d\<rparr>) = qmi_ok s" "qmi_ok (s\<lparr>s_5g_type := g\<rparr>) = qmi_ok s" "qmi_ok (s\<lparr>s_hdr_personality := x\<rparr>) = qmi_ok s"
  "qmi_ok (s\<lparr>to_main := ev\<rparr>) = qmi_ok s" "qmi_ok (set_handle family h s) = qmi_ok s"
  by (simp_all add: qmi_ok_def set_handle_def)

lemma wds_type_ok [simp]: "wds_type family \<noteq> 0xFF" "QMUX_TYPE_NAS \<noteq> 0xFF"
  by (simp_all add: wds_type_def qmux_types)

lemma query_inv: "qmi_ok s \<Longrightarrow> pred_option (\<lambda>(e, st, s). qmi_ok s) (requestQueryDataCall st family s)"
  unfolding requestQueryDataCall_def by (rule ensures_ask) (auto intro!: ensures_any)

lemma deactivate_inv: "qmi_ok s \<Longrightarrow> pred_option (\<lambda>(e, s). qmi_ok s) (requestDeactivateDefaultPDP p family s)"
  unfolding requestDeactivateDefaultPDP_def by (auto intro!: ensures_ask)

lemma setup_inv: "qmi_ok s \<Longrightarrow> pred_option (\<lambda>(e, p, s). qmi_ok s) (requestSetupDataCall p family s)"
  unfolding requestSetupDataCall_def Let_def
  by (rule ensures_bind [OF ensures_request]) (auto intro!: ensures_any split: option.split)

lemma getip_inv: "qmi_ok s \<Longrightarrow> pred_option (\<lambda>(e, p, s). qmi_ok s) (requestGetIPAddress p family s)"
  unfolding requestGetIPAddress_def Let_def
  by (cases "family = IpFamilyV4 \<and> WdsConnectionIPv4Handle s = 0 \<or> family = IpFamilyV6 \<and> WdsConnectionIPv6Handle s = 0")
    (simp, simp only: if_False, rule ensures_ask, auto intro!: ensures_any)

lemma home_inv: "qmi_ok s \<Longrightarrow> pred_option (\<lambda>(e, n, i, s). qmi_ok s) (requestGetHomeNetwork net sid s)"
  unfolding requestGetHomeNetwork_def by (rule ensures_ask) (auto intro!: ensures_any)

lemma home_codes_inv: "qmi_ok s \<Longrightarrow> pred_option (\<lambda>(l, s). qmi_ok s) (home_codes l s)"
  unfolding home_codes_def by (rule ensures_bind [OF home_inv]) (auto split: option.split)

lemma sys_info_tlv_inv: "qmi_ok s \<Longrightarrow> pred_option (\<lambda>(l, s). qmi_ok s) (sys_info_tlv m p ty l s)"
  unfolding sys_info_tlv_def Let_def service_status_def by (auto intro!: ensures_any home_codes_inv)

lemma sys_info_loop_inv: "qmi_ok s \<Longrightarrow> pred_option (\<lambda>(l, s). qmi_ok s) (sys_info_loop m r p l s)"
proof (induction m r p l s rule: sys_info_loop.induct)
  case (1 m r p l s)
  have step: "pred_option (\<lambda>(l, s). qmi_ok s) (sys_info_loop m (r - (int (unat n) + 3)) (p + 1 + unat n + 2) l' s')"
    if "\<not> r \<le> 0" "rd8 m p = Some ty" "sys_info_tlv m p ty l s = Some (l', s')" "rd16 m (p + 1) = Some n" for ty l' s' n
    using "1.IH" [OF that(1,2) that(3) refl that(4)] sys_info_tlv_inv [OF "1.prems", of m p ty l] that(3) by simp
  show ?case
    using "1.prems" step
    by (subst sys_info_loop.simps) (auto simp del: One_nat_def of_nat_unat uint_nat split: Option.bind_split prod.split)
qed

lemma registration2_inv: "qmi_ok s \<Longrightarrow> pred_option (\<lambda>(e, ps, pr, s). qmi_ok s) (requestRegistrationState2 ps s)"
  unfolding requestRegistrationState2_def Let_def
  by (rule ensures_ask) (auto intro!: ensures_any [of _ _ "rd16 m n" for m n] ensures_bind [OF sys_info_loop_inv] split: prod.splits)

lemma registration_inv: "qmi_ok s \<Longrightarrow> pred_option (\<lambda>(e, ps, pr, s). qmi_ok s) (requestRegistrationState ps s)"
proof (cases "s_9x07 s")
  case True
  then show "qmi_ok s \<Longrightarrow> ?thesis" by (simp add: requestRegistrationState_def registration2_inv)
next
  case False
  have tail: "pred_option (\<lambda>(e, ps, pr, s). qmi_ok s) (home_codes l u \<bind> (\<lambda>(l, s). f l \<bind> (\<lambda>h. Some (g l h, q l h, w l h, s\<lparr>s_hdr_personality := h\<rparr>))))"
    if "qmi_ok u" for l u and f :: "reg \<Rightarrow> int option" and g :: "reg \<Rightarrow> int \<Rightarrow> int" and q :: "reg \<Rightarrow> int \<Rightarrow> byte"
      and w :: "reg \<Rightarrow> int \<Rightarrow> (u16 \<times> u16 \<times> string) option"
    by (rule ensures_bind [OF home_codes_inv [OF that]]) (auto intro!: ensures_any)
  assume "qmi_ok s"
  then show ?thesis
    unfolding requestRegistrationState_def Let_def if_not_P [OF False]
    by (intro ensures_ask) (auto intro!: tail ensures_any [of _ _ "with_tlv m n d f" for m n d f]
        ensures_any [of _ _ "serving_system m" for m] ensures_any [of _ _ "data_cap m" for m])
qed

section \<open>What the handlers leave alone\<close>

definition enables :: "PROFILE_T \<Rightarrow> bool \<times> bool" where
  "enables p = (enable_ipv4 p, enable_ipv6 p)"

definition outside :: "cm \<Rightarrow> int \<times> int list \<times> int list \<times> dhcp_call list \<times> bool \<times> nat option \<times> bool \<times> bool" where
  "outside c = (s_link c, signals c, to_qmidevice c, dhcp c, quit c, alarm_in c, enables (profile c))"

lemma outside_qm [simp]: "outside (c\<lparr>qm := s\<rparr>) = outside c"
  "outside (c\<lparr>IPv4ConnectionStatus := a\<rparr>) = outside c" "outside (c\<lparr>IPv6ConnectionStatus := a\<rparr>) = outside c"
  "outside (c\<lparr>ps_attached := a\<rparr>) = outside c" "outside (c\<lparr>profile := p\<rparr>) = outside c \<longleftrightarrow> enables p = enables (profile c)"
  by (simp_all add: outside_def)

lemma enables_updates [simp]:
  "enables (p\<lparr>ipv4 := a\<rparr>) = enables p" "enables (p\<lparr>ipv6 := b\<rparr>) = enables p" "enables (p\<lparr>curIpFamily := f\<rparr>) = enables p"
  "enables (p\<lparr>auth := n\<rparr>) = enables p" "enables (clear_family f p) = enables p"
  "enables (p\<lparr>PCSCFIpv4Addr1 := x\<rparr>) = enables p" "enables (p\<lparr>PCSCFIpv4Addr2 := x\<rparr>) = enables p"
  "enables (p\<lparr>PCSCFIpv6Addr1 := y\<rparr>) = enables p" "enables (p\<lparr>PCSCFIpv6Addr2 := y\<rparr>) = enables p"
  by (simp_all add: enables_def clear_family_def)

lemma ensures_tlv: "P d \<Longrightarrow> (\<And>q. pred_option P (f q)) \<Longrightarrow> pred_option P (with_tlv m ty d f)"
  unfolding with_tlv_def by (rule ensures_any) (simp split: option.split)

lemma ensures_reply:
  assumes "\<And>e u. P (ret e u)" "\<And>m u. pred_option P (k m u)"
  shows "pred_option P (qmi_rsp_check_and_return ret t k)"
  using assms unfolding qmi_rsp_check_and_return_def by (cases t) (auto intro!: ensures_any split: option.split)

lemma pcscf_enables:
  "pred_option (\<lambda>q. enables q = enables p) (pcscf6 m p)" "pred_option (\<lambda>q. enables q = enables p) (pcscf4 m p)"
  unfolding pcscf6_def pcscf4_def by (auto intro!: ensures_tlv ensures_any)

lemma getip_enables: "pred_option (\<lambda>(e, q, s). enables q = enables p) (requestGetIPAddress p family s)"
proof -
  have k: "pred_option (\<lambda>(e, q, s). enables q = enables p)
      (do { p \<leftarrow> pcscf6 m (clear_family family p); p \<leftarrow> pcscf4 m p; i4 \<leftarrow> decode_ipv4 m (ipv4 p); i6 \<leftarrow> decode_ipv6 m (ipv6 p);
            (i4, i6) \<leftarrow> F i4 i6; Some (0, p\<lparr>ipv4 := i4, ipv6 := i6\<rparr>, u) })" for m F u
    by (rule ensures_bind [OF pcscf_enables(1)], rule ensures_bind [OF pcscf_enables(2)]) (auto intro!: ensures_any)
  show ?thesis
    unfolding requestGetIPAddress_def Let_def
    by (cases "family = IpFamilyV4 \<and> WdsConnectionIPv4Handle s = 0 \<or> family = IpFamilyV6 \<and> WdsConnectionIPv6Handle s = 0")
      (simp, simp only: if_False, rule ensures_any, rule ensures_reply, simp, rule k)
qed

lemma setup_enables: "pred_option (\<lambda>(e, q, s). enables q = enables p) (requestSetupDataCall p family s)"
  unfolding requestSetupDataCall_def Let_def by (auto intro!: ensures_any split: option.split)

lemma ensures_conj: "pred_option P r \<Longrightarrow> (A \<Longrightarrow> pred_option Q r) \<Longrightarrow> pred_option (\<lambda>x. P x \<and> (A \<longrightarrow> Q x)) r"
  by (cases r) auto

lemma ensures_mono: "pred_option P r \<Longrightarrow> (\<And>x. P x \<Longrightarrow> Q x) \<Longrightarrow> pred_option Q r"
  by (cases r) auto

lemma getip_keeps:
  "pred_option (\<lambda>(e, q, u). enables q = enables p \<and> (qmi_ok s \<longrightarrow> qmi_ok u)) (requestGetIPAddress p family s)"
  by (rule ensures_mono [OF ensures_conj [OF getip_enables getip_inv]]) auto

lemma setup_keeps:
  "pred_option (\<lambda>(e, q, u). enables q = enables p \<and> (qmi_ok s \<longrightarrow> qmi_ok u)) (requestSetupDataCall p family s)"
  by (rule ensures_mono [OF ensures_conj [OF setup_enables setup_inv]]) auto

lemma query_keeps: "pred_option (\<lambda>(e, st, u). qmi_ok s \<longrightarrow> qmi_ok u) (requestQueryDataCall st family s)"
  using query_inv [of s st family] by (cases "requestQueryDataCall st family s") auto

lemma deactivate_keeps: "pred_option (\<lambda>(e, u). qmi_ok s \<longrightarrow> qmi_ok u) (requestDeactivateDefaultPDP p family s)"
  using deactivate_inv [of s p family] by (cases "requestDeactivateDefaultPDP p family s") auto

lemma registration_keeps: "pred_option (\<lambda>(e, ps, pr, u). qmi_ok s \<longrightarrow> qmi_ok u) (requestRegistrationState ps s)"
  using registration_inv [of s ps] by (cases "requestRegistrationState ps s") auto

lemma check_keeps:
  "pred_option (\<lambda>(same, d). outside d = outside c \<and> IPv4ConnectionStatus d = IPv4ConnectionStatus c \<and> IPv6ConnectionStatus d = IPv6ConnectionStatus c \<and>
     (qmi_ok (qm c) \<longrightarrow> qmi_ok (qm d)) \<and> (same \<longrightarrow> v4_Address (ipv4 (profile d)) = v4_Address (ipv4 (profile c)))) (check_ipv4_address c)"
  unfolding check_ipv4_address_def by (rule ensures_bind [OF getip_keeps]) auto

text \<open>The effect of each part of a check.\<close>

definition keeps :: "cm \<Rightarrow> cm \<Rightarrow> bool" where
  "keeps c d \<longleftrightarrow> outside d = outside c \<and> (qmi_ok (qm c) \<longrightarrow> qmi_ok (qm d))"

lemma registration_post:
  "pred_option (\<lambda>d. keeps c d \<and> profile d = profile c \<and> IPv4ConnectionStatus d = IPv4ConnectionStatus c \<and>
     IPv6ConnectionStatus d = IPv6ConnectionStatus c) (registration c)"
  unfolding registration_def keeps_def by (rule ensures_bind [OF registration_keeps]) auto

definition address_kept :: "cm \<Rightarrow> cm \<Rightarrow> bool" where
  "address_kept c d \<longleftrightarrow> v4_Address (ipv4 (profile c)) \<noteq> 0 \<and> IPv4ConnectionStatus d = QWDS_PKT_DATA_CONNECTED \<longrightarrow>
     v4_Address (ipv4 (profile d)) = v4_Address (ipv4 (profile c))"

lemmas pkt_states = QWDS_PKT_DATA_UNKNOW_def QWDS_PKT_DATA_DISCONNECTED_def QWDS_PKT_DATA_CONNECTED_def

lemma fetch_address_post:
  "pred_option (\<lambda>d. keeps c d \<and> IPv6ConnectionStatus d = IPv6ConnectionStatus c \<and>
     (v4_Address (ipv4 (profile c)) \<noteq> 0 \<longrightarrow> profile d = profile c)) (fetch_address c)"
  unfolding fetch_address_def keeps_def by (auto intro!: ensures_bind [OF getip_keeps])

lemma compare_address_post:
  "pred_option (\<lambda>d. keeps c d \<and> IPv6ConnectionStatus d = IPv6ConnectionStatus c \<and> address_kept c d) (compare_address c)"
proof (cases "IPv4ConnectionStatus c = QWDS_PKT_DATA_CONNECTED")
  case True
  have "pred_option (\<lambda>d. keeps c d \<and> IPv6ConnectionStatus d = IPv6ConnectionStatus c \<and> address_kept c d)
      (do { (same, c) \<leftarrow> check_ipv4_address c;
            if same then Some c
            else do { (err, s) \<leftarrow> requestDeactivateDefaultPDP (profile c) IpFamilyV4 (qm c);
                      Some (c\<lparr>qm := s, IPv4ConnectionStatus := QWDS_PKT_DATA_DISCONNECTED\<rparr>) } })"
    by (rule ensures_bind [OF check_keeps])
      (auto simp: keeps_def address_kept_def pkt_states intro!: ensures_bind [OF deactivate_keeps])
  then show ?thesis using True by (simp add: compare_address_def)
qed (simp add: compare_address_def keeps_def address_kept_def)

lemma watch_ipv4_post:
  "pred_option (\<lambda>d. keeps c d \<and> IPv6ConnectionStatus d = IPv6ConnectionStatus c \<and> address_kept c d \<and>
     (\<not> enable_ipv4 (profile c) \<longrightarrow> IPv4ConnectionStatus d = QWDS_PKT_DATA_DISCONNECTED)) (watch_ipv4 c)"
proof (cases "enable_ipv4 (profile c) \<and> IPv4ConnectionStatus c \<noteq> QWDS_PKT_DATA_DISCONNECTED")
  case True
  have "pred_option (\<lambda>d. keeps c d \<and> IPv6ConnectionStatus d = IPv6ConnectionStatus c \<and> address_kept c d)
      (do { d \<leftarrow> fetch_address (c\<lparr>qm := s, IPv4ConnectionStatus := st\<rparr>); compare_address d })"
    if "qmi_ok (qm c) \<longrightarrow> qmi_ok s" for s st
  proof (rule ensures_bind [OF fetch_address_post])
    fix d
    assume d: "keeps (c\<lparr>qm := s, IPv4ConnectionStatus := st\<rparr>) d \<and> IPv6ConnectionStatus d = IPv6ConnectionStatus (c\<lparr>qm := s, IPv4ConnectionStatus := st\<rparr>) \<and>
       (v4_Address (ipv4 (profile (c\<lparr>qm := s, IPv4ConnectionStatus := st\<rparr>))) \<noteq> 0 \<longrightarrow> profile d = profile (c\<lparr>qm := s, IPv4ConnectionStatus := st\<rparr>))"
    show "pred_option (\<lambda>d. keeps c d \<and> IPv6ConnectionStatus d = IPv6ConnectionStatus c \<and> address_kept c d) (compare_address d)"
      by (rule ensures_mono [OF compare_address_post]) (use that d in \<open>auto simp: keeps_def address_kept_def\<close>)
  qed
  then show ?thesis
    unfolding watch_ipv4_def if_P [OF True] Let_def
    by (intro ensures_bind [OF query_keeps]) (use True in \<open>auto simp: keeps_def address_kept_def pkt_states\<close>)
next
  case False
  then show ?thesis by (auto simp: watch_ipv4_def keeps_def address_kept_def pkt_states)
qed

lemma watch_ipv6_post:
  "pred_option (\<lambda>d. keeps c d \<and> profile d = profile c \<and> IPv4ConnectionStatus d = IPv4ConnectionStatus c \<and>
     (\<not> enable_ipv6 (profile c) \<longrightarrow> IPv6ConnectionStatus d = QWDS_PKT_DATA_DISCONNECTED)) (watch_ipv6 c)"
  unfolding watch_ipv6_def keeps_def by (auto intro!: ensures_bind [OF query_keeps])

lemma usbnet_link_change_post:
  "s_link (usbnet_link_change link c) = link"
  "dhcp (usbnet_link_change link c) = dhcp c @ (if link = s_link c then []
     else [if link \<noteq> 0 then udhcpc_start (profile (usbnet_link_change link c)) else udhcpc_stop (profile (usbnet_link_change link c))])"
  "signals (usbnet_link_change link c) = signals c" "to_qmidevice (usbnet_link_change link c) = to_qmidevice c"
  "qm (usbnet_link_change link c) = qm c" "enables (profile (usbnet_link_change link c)) = enables (profile c)"
  "IPv4ConnectionStatus (usbnet_link_change link c) = IPv4ConnectionStatus c" "quit (usbnet_link_change link c) = quit c"
  "IPv6ConnectionStatus (usbnet_link_change link c) = IPv6ConnectionStatus c" "alarm_in (usbnet_link_change link c) = alarm_in c"
  "bit link (nat IpFamilyV4) \<Longrightarrow> ipv4 (profile (usbnet_link_change link c)) = ipv4 (profile c)"
  by (auto simp: usbnet_link_change_def Let_def)

lemma enables_eq: "enables p = enables q \<Longrightarrow> enable_ipv4 p = enable_ipv4 q \<and> enable_ipv6 p = enable_ipv6 q"
  by (simp add: enables_def)

lemma link_bits_v4: "IPv4ConnectionStatus c = QWDS_PKT_DATA_CONNECTED \<Longrightarrow> bit (link_bits c) (nat IpFamilyV4)"
  by (simp add: link_bits_def families bit_or_iff bit_push_bit_iff)

lemma update_link_post:
  "IPv4ConnectionStatus (update_link c) = IPv4ConnectionStatus c" "IPv6ConnectionStatus (update_link c) = IPv6ConnectionStatus c"
  "signals (update_link c) = signals c" "to_qmidevice (update_link c) = to_qmidevice c" "qm (update_link c) = qm c"
  "enables (profile (update_link c)) = enables (profile c)" "quit (update_link c) = quit c" "alarm_in (update_link c) = alarm_in c"
  "dhcp (update_link c) = dhcp c @ (if s_link (update_link c) = s_link c then []
     else [if s_link (update_link c) \<noteq> 0 then udhcpc_start (profile (update_link c)) else udhcpc_stop (profile (update_link c))])"
  "s_link (update_link c) =
     (if IPv4ConnectionStatus c = QWDS_PKT_DATA_DISCONNECTED \<and> IPv6ConnectionStatus c = QWDS_PKT_DATA_DISCONNECTED then 0
      else if call_up c then link_bits c else s_link c)"
  "IPv4ConnectionStatus c = QWDS_PKT_DATA_CONNECTED \<Longrightarrow> ipv4 (profile (update_link c)) = ipv4 (profile c)"
  by (auto simp: update_link_def usbnet_link_change_post link_bits_v4 pkt_states call_up_def)

definition checked :: "cm \<Rightarrow> cm \<Rightarrow> bool" where
  "checked c d \<longleftrightarrow> keeps c d \<and> address_kept c d \<and>
     (\<not> enable_ipv4 (profile c) \<longrightarrow> IPv4ConnectionStatus d = QWDS_PKT_DATA_DISCONNECTED) \<and>
     (\<not> enable_ipv6 (profile c) \<longrightarrow> IPv6ConnectionStatus d = QWDS_PKT_DATA_DISCONNECTED)"

lemma sig_check_decompose:
  "pred_option (\<lambda>d. \<exists>e. checked c e \<and> d = (if call_down (update_link e) then send_signo_to_main SIG_EVENT_START (update_link e) else update_link e))
     (sig_check c)"
proof -
  have reg: "pred_option (\<lambda>d. keeps c d \<and> profile d = profile c) (if ps_attached c \<noteq> 1 then registration c else Some c)"
    using registration_post [of c] by (auto simp: keeps_def elim!: ensures_mono)
  show ?thesis
    unfolding sig_check_def Let_def
  proof (rule ensures_bind [OF reg], rule ensures_bind [OF watch_ipv4_post], rule ensures_bind [OF watch_ipv6_post])
    fix a b d
    assume a: "keeps c a \<and> profile a = profile c"
      and b: "keeps a b \<and> IPv6ConnectionStatus b = IPv6ConnectionStatus a \<and> address_kept a b \<and>
        (\<not> enable_ipv4 (profile a) \<longrightarrow> IPv4ConnectionStatus b = QWDS_PKT_DATA_DISCONNECTED)"
      and d: "keeps b d \<and> profile d = profile b \<and> IPv4ConnectionStatus d = IPv4ConnectionStatus b \<and>
        (\<not> enable_ipv6 (profile b) \<longrightarrow> IPv6ConnectionStatus d = QWDS_PKT_DATA_DISCONNECTED)"
    have "enables (profile b) = enables (profile a)" using b by (simp add: keeps_def outside_def)
    then have "checked c d"
      using a b d enables_eq [of "profile b" "profile a"] by (auto simp: checked_def keeps_def address_kept_def)
    then show "pred_option (\<lambda>d. \<exists>e. checked c e \<and> d = (if call_down (update_link e) then send_signo_to_main SIG_EVENT_START (update_link e) else update_link e))
       (Some (if call_down (update_link d) then send_signo_to_main SIG_EVENT_START (update_link d) else update_link d))" by auto
  qed
qed

lemma sig_check_effect:
  assumes "sig_check c = Some d"
  shows "IPv4ConnectionStatus d = QWDS_PKT_DATA_DISCONNECTED \<and> IPv6ConnectionStatus d = QWDS_PKT_DATA_DISCONNECTED \<longrightarrow> s_link d = 0"
    and "call_up d \<longrightarrow> s_link d = link_bits d"
    and "dhcp d = dhcp c @ (if s_link d = s_link c then [] else [if s_link d \<noteq> 0 then udhcpc_start (profile d) else udhcpc_stop (profile d)])"
    and "signals d = signals c @ (if call_down d then [SIG_EVENT_START] else [])"
    and "\<not> enable_ipv4 (profile c) \<longrightarrow> IPv4ConnectionStatus d = QWDS_PKT_DATA_DISCONNECTED"
    and "\<not> enable_ipv6 (profile c) \<longrightarrow> IPv6ConnectionStatus d = QWDS_PKT_DATA_DISCONNECTED"
    and "v4_Address (ipv4 (profile c)) \<noteq> 0 \<and> IPv4ConnectionStatus d = QWDS_PKT_DATA_CONNECTED \<longrightarrow>
       v4_Address (ipv4 (profile d)) = v4_Address (ipv4 (profile c))"
proof -
  obtain e where e: "checked c e"
      and d: "d = (if call_down (update_link e) then send_signo_to_main SIG_EVENT_START (update_link e) else update_link e)"
    using sig_check_decompose [of c] assms by auto
  have same: "call_up d = call_up e" "link_bits d = link_bits e" "call_down d = call_down (update_link e)" "s_link d = s_link (update_link e)"
    "profile d = profile (update_link e)"
    "IPv4ConnectionStatus d = IPv4ConnectionStatus e" "IPv6ConnectionStatus d = IPv6ConnectionStatus e"
    by (simp_all add: d send_signo_to_main_def call_up_def call_down_def link_bits_def update_link_post)
  have out: "s_link e = s_link c" "signals e = signals c" "dhcp e = dhcp c" using e by (simp_all add: checked_def keeps_def outside_def)
  show "IPv4ConnectionStatus d = QWDS_PKT_DATA_DISCONNECTED \<and> IPv6ConnectionStatus d = QWDS_PKT_DATA_DISCONNECTED \<longrightarrow> s_link d = 0"
    unfolding same by (simp add: update_link_post)
  show "call_up d \<longrightarrow> s_link d = link_bits d" unfolding same by (auto simp: update_link_post call_up_def pkt_states)
  have "dhcp d = dhcp (update_link e)" by (simp add: d send_signo_to_main_def)
  then show "dhcp d = dhcp c @ (if s_link d = s_link c then [] else [if s_link d \<noteq> 0 then udhcpc_start (profile d) else udhcpc_stop (profile d)])"
    unfolding same using update_link_post(9) [of e] by (simp only: out)
  show "signals d = signals c @ (if call_down d then [SIG_EVENT_START] else [])"
    unfolding same by (simp add: d send_signo_to_main_def update_link_post out)
  show "\<not> enable_ipv4 (profile c) \<longrightarrow> IPv4ConnectionStatus d = QWDS_PKT_DATA_DISCONNECTED"
    "\<not> enable_ipv6 (profile c) \<longrightarrow> IPv6ConnectionStatus d = QWDS_PKT_DATA_DISCONNECTED"
    using e by (simp_all add: same checked_def)
  show "v4_Address (ipv4 (profile c)) \<noteq> 0 \<and> IPv4ConnectionStatus d = QWDS_PKT_DATA_CONNECTED \<longrightarrow>
      v4_Address (ipv4 (profile d)) = v4_Address (ipv4 (profile c))"
    using e by (auto simp: same checked_def address_kept_def update_link_post(11))
qed

text \<open>
  C7. After a CHECK the network interface follows the data calls: it is down when both are down and
  up for exactly the connected families when one is up; the DHCP client is called once if that is a
  change and not otherwise; a new call is asked for exactly when an enabled family is down; a family
  that is not enabled counts as down; and a call stays up only under the address it had.
\<close>

theorem link_follows_status:
  assumes "sig_check c = Some d"
  shows "(IPv4ConnectionStatus d = QWDS_PKT_DATA_DISCONNECTED \<and> IPv6ConnectionStatus d = QWDS_PKT_DATA_DISCONNECTED \<longrightarrow> s_link d = 0) \<and>
     (call_up d \<longrightarrow> s_link d = link_bits d) \<and>
     dhcp d = dhcp c @ (if s_link d = s_link c then [] else [if s_link d \<noteq> 0 then udhcpc_start (profile d) else udhcpc_stop (profile d)]) \<and>
     signals d = signals c @ (if call_down d then [SIG_EVENT_START] else []) \<and>
     (\<not> enable_ipv4 (profile c) \<longrightarrow> IPv4ConnectionStatus d = QWDS_PKT_DATA_DISCONNECTED) \<and>
     (\<not> enable_ipv6 (profile c) \<longrightarrow> IPv6ConnectionStatus d = QWDS_PKT_DATA_DISCONNECTED) \<and>
     (v4_Address (ipv4 (profile c)) \<noteq> 0 \<and> IPv4ConnectionStatus d = QWDS_PKT_DATA_CONNECTED \<longrightarrow>
       v4_Address (ipv4 (profile d)) = v4_Address (ipv4 (profile c)))"
  by (intro conjI sig_check_effect [OF assms])

text \<open>An IPv4 call that was up on the interface and has gone down.\<close>

definition sample_cm :: cm where
  "sample_cm = (cm_init sample_profile (sample_qmi []) 1000)\<lparr>ps_attached := 1, IPv4ConnectionStatus := QWDS_PKT_DATA_DISCONNECTED,
     IPv6ConnectionStatus := QWDS_PKT_DATA_DISCONNECTED, s_link := 16, dhcp := [udhcpc_start sample_profile]\<rparr>"

lemma sample_cm_simps:
  "ps_attached sample_cm = 1" "IPv4ConnectionStatus sample_cm = QWDS_PKT_DATA_DISCONNECTED" "IPv6ConnectionStatus sample_cm = QWDS_PKT_DATA_DISCONNECTED"
  "profile sample_cm = sample_profile" "s_link sample_cm = 16" "qm sample_cm = sample_qmi []" "dhcp sample_cm = [udhcpc_start sample_profile]"
  "signals sample_cm = []" "SetupCallAllowTime sample_cm = 1000" "SetupCallFail sample_cm = 0"
  by (simp_all add: sample_cm_def cm_init_def)

lemma sample_check: "\<exists>d. sig_check sample_cm = Some d \<and> IPv4ConnectionStatus d = QWDS_PKT_DATA_DISCONNECTED \<and> IPv6ConnectionStatus d = QWDS_PKT_DATA_DISCONNECTED"
  by (simp add: sig_check_def watch_ipv4_def watch_ipv6_def sample_cm_simps Let_def update_link_post send_signo_to_main_def)

lemma link_follows_status_witness: "\<exists>d p. sig_check sample_cm = Some d \<and> s_link d = 0 \<and> dhcp d = [udhcpc_start sample_profile, udhcpc_stop p]"
proof -
  obtain d where d: "sig_check sample_cm = Some d" "IPv4ConnectionStatus d = QWDS_PKT_DATA_DISCONNECTED" "IPv6ConnectionStatus d = QWDS_PKT_DATA_DISCONNECTED"
    using sample_check by blast
  from link_follows_status [OF d(1)] d(2,3) have "s_link d = 0" "dhcp d = [udhcpc_start sample_profile, udhcpc_stop (profile d)]"
    by (simp_all add: sample_cm_simps)
  then show ?thesis using d(1) by blast
qed

section \<open>Retrying\<close>

lemma call_ipv4_post: "pred_option (\<lambda>d. keeps c d \<and> SetupCallFail d = SetupCallFail c \<and> SetupCallAllowTime d = SetupCallAllowTime c) (call_ipv4 c)"
proof -
  have setup4: "pred_option (\<lambda>(e, q, u). enables q = enables p \<and> (qmi_ok s \<longrightarrow> qmi_ok u)) (setup_ipv4 p s)" for p s
    unfolding setup_ipv4_def
    by (rule ensures_bind [OF setup_keeps]) (auto intro!: ensures_bind [OF setup_keeps])
  show ?thesis
  proof (cases "enable_ipv4 (profile c) \<and> IPv4ConnectionStatus c \<noteq> QWDS_PKT_DATA_CONNECTED")
    case True
    then show ?thesis
      unfolding call_ipv4_def if_P [OF True] keeps_def
      by (intro ensures_bind [OF setup4]) (auto intro!: ensures_bind [OF getip_keeps])
  qed (auto simp: call_ipv4_def keeps_def)
qed

lemma call_ipv6_post: "pred_option (\<lambda>d. keeps c d \<and> SetupCallFail d = SetupCallFail c \<and> SetupCallAllowTime d = SetupCallAllowTime c) (call_ipv6 c)"
proof (cases "enable_ipv6 (profile c) \<and> IPv6ConnectionStatus c \<noteq> QWDS_PKT_DATA_CONNECTED")
  case True
  then show ?thesis
    unfolding call_ipv6_def if_P [OF True] keeps_def
    by (intro ensures_bind [OF setup_keeps]) (auto intro!: ensures_bind [OF getip_keeps])
qed (auto simp: call_ipv6_def keeps_def)

lemma retry_delay_min: "retry_delay n = min 60 (5 * 2 ^ unat n)"
proof (cases "unat n < 5")
  case True
  then have "unat n \<in> {0, 1, 2, 3, 4}" by auto
  then show ?thesis by (auto simp: retry_delay_def)
next
  case False
  then have "(2 :: nat) ^ 5 \<le> 2 ^ unat n" by (intro power_increasing) auto
  then show ?thesis using False by (simp add: retry_delay_def)
qed

lemma seconds_up:
  fixes x :: int
  assumes "0 < x" "x \<le> 60000" "n = (x + 999) div 1000"
  shows "x \<le> 1000 * n" "1000 * n < x + 1000" "0 < n" "n \<le> 60"
proof -
  define r where "r = (x + 999) mod 1000"
  have "x + 999 = 1000 * n + r" "0 \<le> r" "r < 1000" unfolding r_def assms(3) by simp_all
  with assms(1,2) show "x \<le> 1000 * n" "1000 * n < x + 1000" "0 < n" "n \<le> 60" by linarith+
qed

lemma alarm_delay_pos:
  assumes "later < allow" "allow \<le> later + 60000"
  shows "\<exists>k. alarm_delay allow later = Some k \<and> allow \<le> later + 1000 * k \<and> 1000 * k < allow - later + 1000"
proof -
  define x where "x = int allow - int later"
  have x: "0 < x" "x \<le> 60000" using assms unfolding x_def by linarith+
  define n where "n = (x + 999) div 1000"
  note n = seconds_up [OF x n_def]
  have m: "(x + 999) mod 2 ^ 64 = x + 999" using x by (intro mod_pos_pos_trivial) simp_all
  have "n mod 2 ^ 32 = n" using n by (intro mod_pos_pos_trivial) simp_all
  then have "alarm_delay allow later = Some (nat n)"
    unfolding alarm_delay_def x_def [symmetric] m n_def [symmetric] Let_def using n(3) by simp
  moreover have "int allow \<le> int later + 1000 * n" "1000 * n < int allow - int later + 1000" using n(1,2) unfolding x_def by linarith+
  then have "allow \<le> later + 1000 * nat n" "1000 * nat n < allow - later + 1000" using n(3) assms(1) by linarith+
  ultimately show ?thesis by blast
qed

lemma alarm_delay_none:
  assumes "allow \<le> later" "later \<le> allow + 999"
  shows "alarm_delay allow later = None"
proof -
  have "0 \<le> int allow - int later + 999" "int allow - int later + 999 < 1000" using assms by simp_all
  then show ?thesis by (simp add: alarm_delay_def)
qed

lemma sig_start_effect:
  assumes "sig_start now later c = Some d" "ps_attached c = 1 \<or> loopback_state (profile c) \<noteq> 0" "SetupCallAllowTime c \<le> now"
  shows "\<exists>e. keeps c e \<and> SetupCallFail e = SetupCallFail c \<and> d = schedule_retry later e"
proof -
  have go: "\<not> (ps_attached c \<noteq> 1 \<and> loopback_state (profile c) = 0)" "\<not> now < SetupCallAllowTime c" using assms(2,3) by auto
  have "pred_option (\<lambda>d. \<exists>e. keeps c e \<and> SetupCallFail e = SetupCallFail c \<and> d = schedule_retry later e) (sig_start now later c)"
    unfolding sig_start_def if_not_P [OF go(1)] if_not_P [OF go(2)]
  proof (rule ensures_bind [OF call_ipv4_post], rule ensures_bind [OF call_ipv6_post])
    fix x y
    assume "keeps c x \<and> SetupCallFail x = SetupCallFail c \<and> SetupCallAllowTime x = SetupCallAllowTime c"
      "keeps x y \<and> SetupCallFail y = SetupCallFail x \<and> SetupCallAllowTime y = SetupCallAllowTime x"
    then have "keeps c y \<and> SetupCallFail y = SetupCallFail c" by (auto simp: keeps_def)
    then show "pred_option (\<lambda>d. \<exists>e. keeps c e \<and> SetupCallFail e = SetupCallFail c \<and> d = schedule_retry later e) (Some (schedule_retry later y))" by auto
  qed
  then show ?thesis using assms(1) by simp
qed

text \<open>
  C19. Calls are retried with a growing delay: a START before the time allowed asks the modem
  nothing and only sets the alarm, to the first whole second at which the call is allowed; after a
  START that leaves an enabled call down, the next is allowed and due after 5, 10, 20, 40 and then
  60 seconds; one that leaves the calls up resets the delay. The alarm is however lost if the time
  allowed passes between the two readings of the clock.
\<close>

theorem retry_backoff:
  assumes "handle_signal now later SIG_EVENT_START c = Some d" "ps_attached c = 1 \<or> loopback_state (profile c) \<noteq> 0"
  shows "if now < SetupCallAllowTime c
    then d = c\<lparr>alarm_in := alarm_in d\<rparr> \<and>
      (later < SetupCallAllowTime c \<and> SetupCallAllowTime c \<le> later + 60000 \<longrightarrow>
         (\<exists>k. alarm_in d = Some k \<and> SetupCallAllowTime c \<le> later + 1000 * k \<and> 1000 * k < SetupCallAllowTime c - later + 1000)) \<and>
      (SetupCallAllowTime c \<le> later \<and> later \<le> SetupCallAllowTime c + 999 \<longrightarrow> alarm_in d = None)
    else if call_down d
    then let n = min 60 (5 * 2 ^ unat (SetupCallFail c)) in
      SetupCallFail d = SetupCallFail c + 1 \<and> alarm_in d = Some n \<and> SetupCallAllowTime d = later + 1000 * n
    else call_up d \<longrightarrow> SetupCallFail d = 0 \<and> SetupCallAllowTime d = later \<and> alarm_in d = None"
proof (cases "now < SetupCallAllowTime c")
  case True
  have "d = c\<lparr>alarm_in := alarm_delay (SetupCallAllowTime c) later\<rparr>"
    using assms True by (auto simp: handle_signal_def sig_start_def)
  then show ?thesis using True alarm_delay_pos [of later "SetupCallAllowTime c"] alarm_delay_none by simp
next
  case False
  have "sig_start now later (c\<lparr>alarm_in := None\<rparr>) = Some d" using assms(1) by (simp add: handle_signal_def)
  then obtain e where e: "keeps (c\<lparr>alarm_in := None\<rparr>) e" "SetupCallFail e = SetupCallFail c" "d = schedule_retry later e"
    using sig_start_effect [of now later "c\<lparr>alarm_in := None\<rparr>" d] assms(2) False by auto
  have "alarm_in e = None" using e(1) by (simp add: keeps_def outside_def)
  moreover have "call_down d = call_down e" "call_up d = call_up e"
    by (simp_all add: e(3) schedule_retry_def Let_def call_down_def call_up_def)
  ultimately show ?thesis
    using False e(2,3) by (simp add: schedule_retry_def Let_def retry_delay_min add.commute mult.commute)
qed

lemma retry_backoff_witness:
  "(\<exists>d k. handle_signal 500 600 SIG_EVENT_START sample_cm = Some d \<and> qm d = qm sample_cm \<and> alarm_in d = Some k) \<and>
   (\<exists>d. handle_signal 999 1000 SIG_EVENT_START sample_cm = Some d \<and> alarm_in d = None)"
proof -
  have h: "handle_signal n l SIG_EVENT_START sample_cm = Some (sample_cm\<lparr>alarm_in := alarm_delay 1000 l\<rparr>)" if "n < 1000" for n l
    using that by (simp add: handle_signal_def sig_start_def sample_cm_simps SIG_EVENT_START_def SIG_EVENT_CHECK_def)
  have p: "ps_attached sample_cm = 1 \<or> loopback_state (profile sample_cm) \<noteq> 0" by (simp add: sample_cm_simps)
  have n: "(500 :: nat) < 1000" "(999 :: nat) < 1000" by simp_all
  from retry_backoff [OF h [OF n(1), of 600] p] retry_backoff [OF h [OF n(2), of 1000] p] show ?thesis
    by (auto simp: sample_cm_simps h)
qed

end
