(* ===== verification/CmRun.thy ===== *)
theory CmRun
  imports CmMain
begin

text \<open>
  Runs of the connection manager: the invariant from the start-up of \<open>qmi_main\<close> on, and what a
  stop leaves behind.
\<close>

section \<open>Start-up keeps the transport invariant\<close>

lemma ensures_ctl: "qmi_ok s \<Longrightarrow> pred_option (\<lambda>(m, u). request_ok m \<and> qmi_ok u) (compose_ctl ty b s)"
  by (auto simp: compose_ctl_def ComposeQCTLMsg_def Let_def request_ok_def le16_bytes_def qmi_ok_def GetQCTLTransactionId_def
      split: if_splits)

lemma ensures_send:
  "qmi_ok s \<Longrightarrow> request_ok req \<Longrightarrow> pred_option (\<lambda>(ret, rsp, u). qmi_ok u) (QmiThreadSendQMITimeout want req s)"
  using send_total [of s req want] by auto

lemma ensures_ctl_send:
  assumes "qmi_ok s" "\<And>ret rsp u. qmi_ok u \<Longrightarrow> pred_option P (k ret rsp u)"
  shows "pred_option P (do { (req, s) \<leftarrow> compose_ctl ty b s; (ret, rsp, s) \<leftarrow> QmiThreadSendQMITimeout want req s; k ret rsp s })"
  by (rule ensures_bind [OF ensures_ctl [OF assms(1)]]) (auto intro!: ensures_bind [OF ensures_send] assms(2))

lemma proxy_open_inv: "qmi_ok s \<Longrightarrow> pred_option (\<lambda>(ret, u). qmi_ok u) (libqmi_proxy_open path s)"
  unfolding libqmi_proxy_open_def by (rule ensures_ctl_send) (auto intro!: ensures_any split: option.split)

lemma sync_loop_inv: "qmi_ok s \<Longrightarrow> pred_option (\<lambda>(ret, u). qmi_ok u) (sync_loop n ret s)"
  by (induction n arbitrary: ret s) (auto intro!: ensures_ctl_send)

lemma get_version_inv: "qmi_ok s \<Longrightarrow> pred_option (\<lambda>(p, u). qmi_ok u) (get_version p s)"
  unfolding get_version_def by (rule ensures_ctl_send) (auto intro!: ensures_any split: option.split)

lemma qmi_ok_client [simp]: "qmi_ok (s\<lparr>qmiclientId := (qmiclientId s)[i := c]\<rparr>) = qmi_ok s"
  by (simp add: qmi_ok_def)

lemma client_id_inv: "qmi_ok s \<Longrightarrow> pred_option (\<lambda>(c, u). qmi_ok u) (QmiWwanGetClientID ty s)"
  unfolding QmiWwanGetClientID_def by (rule ensures_ctl_send) (auto intro!: ensures_any split: option.split)

lemma set_client_inv: "qmi_ok s \<Longrightarrow> pred_option (\<lambda>(c, u). qmi_ok u) (set_client slot ty s)"
  unfolding set_client_def by (rule ensures_bind [OF client_id_inv]) auto

lemma ensures_pair_bind:
  "pred_option (\<lambda>(a, u). Q u) r \<Longrightarrow> (\<And>a u. Q u \<Longrightarrow> pred_option P (f a u)) \<Longrightarrow> pred_option P (r \<bind> (\<lambda>(a, u). f a u))"
  by (cases r) auto

lemma ensures_triple_bind:
  "pred_option (\<lambda>(a, b, u). Q u) r \<Longrightarrow> (\<And>a b u. Q u \<Longrightarrow> pred_option P (f a b u)) \<Longrightarrow> pred_option P (r \<bind> (\<lambda>(a, b, u). f a b u))"
  by (cases r) auto

lemma ensures_if: "(b \<Longrightarrow> pred_option P x) \<Longrightarrow> (\<not> b \<Longrightarrow> pred_option P y) \<Longrightarrow> pred_option P (if b then x else y)"
  by simp

lemma init_inv: "qmi_ok s \<Longrightarrow> pred_option (\<lambda>(ret, p, u). qmi_ok u) (QmiWwanInit p s)"
proof -
  assume s: "qmi_ok s"
  have if_client: "pred_option (\<lambda>(c, u). qmi_ok u) (if b then set_client slot ty u else Some (c, u))" if "qmi_ok u" for b slot ty c u
    using that by (simp add: set_client_inv)
  have clients: "pred_option (\<lambda>(ret, p, u). qmi_ok u) (do {
         (c, s) \<leftarrow> set_client QMUX_TYPE_WDS QMUX_TYPE_WDS s;
         (c, s) \<leftarrow> (if enable_ipv6 p then set_client QMUX_TYPE_WDS_IPV6 QMUX_TYPE_WDS s else Some (c, s));
         (c, s) \<leftarrow> set_client QMUX_TYPE_DMS QMUX_TYPE_DMS s;
         (c, s) \<leftarrow> set_client QMUX_TYPE_NAS QMUX_TYPE_NAS s;
         (c, s) \<leftarrow> set_client QMUX_TYPE_UIM QMUX_TYPE_UIM s;
         (c, s) \<leftarrow> set_client QMUX_TYPE_WDS_ADMIN QMUX_TYPE_WDS_ADMIN s;
         Some (0, p\<lparr>wda_client := uint c\<rparr>, s) })" if "qmi_ok s" for p s
    by (rule ensures_pair_bind [OF set_client_inv [OF that]], rule ensures_pair_bind [OF if_client], assumption)
      (auto intro!: ensures_pair_bind [OF set_client_inv])
  have open_inv: "pred_option (\<lambda>(ret, u). qmi_ok u) (if b then libqmi_proxy_open path s else Some (0, s))" for b path
    using s by (simp add: proxy_open_inv)
  have sync_inv: "pred_option (\<lambda>(ret, u). qmi_ok u) (if b then sync_loop n r u else Some (0, u))" if "qmi_ok u" for b n r u
    using that by (simp add: sync_loop_inv)
  have rest: "pred_option (\<lambda>(ret, p, u). qmi_ok u) (get_version p u \<bind> (\<lambda>(p, u). k p u))"
    if "qmi_ok u" "\<And>p u. qmi_ok u \<Longrightarrow> pred_option (\<lambda>(ret, p, u). qmi_ok u) (k p u)" for u k
    by (rule ensures_pair_bind [OF get_version_inv [OF that(1)]]) (rule that(2))
  show ?thesis
    unfolding QmiWwanInit_def
    by (rule ensures_pair_bind [OF open_inv], rule ensures_if, simp, rule ensures_pair_bind [OF sync_inv], assumption, rule ensures_if, simp)
      (auto intro!: rest clients)
qed

lemma baseband_inv: "qmi_ok s \<Longrightarrow> pred_option (\<lambda>(e, p, u). qmi_ok u) (requestBaseBandVersion p s)"
  unfolding requestBaseBandVersion_def by (rule ensures_ask) (auto simp: qmux_types intro!: ensures_any)

lemma ensures_ask_if:
  assumes "qmi_ok s" "svc \<noteq> 0xFF" "svc' \<noteq> 0xFF" "\<And>e u. qmi_ok u \<Longrightarrow> P (ret e u)" "\<And>m u. qmi_ok u \<Longrightarrow> pred_option P (k m u)"
  shows "pred_option P ((if b then request svc ty x s else request svc' ty' x' s) \<bind> (\<lambda>t. qmi_rsp_check_and_return ret t k))"
  using assms by (cases b) (auto intro: ensures_ask)

lemma pin_inv: "qmi_ok s \<Longrightarrow> pred_option (\<lambda>(e, st, u). qmi_ok u) (requestGetPINStatus st s)"
  unfolding requestGetPINStatus_def by (rule ensures_ask_if) (auto simp: qmux_types intro!: ensures_any)

lemma sim_inv: "qmi_ok s \<Longrightarrow> pred_option (\<lambda>(e, st, u). qmi_ok u) (requestGetSIMStatus st s)"
proof -
  assume s: "qmi_ok s"
  have k: "pred_option (\<lambda>(st, u). qmi_ok u) (if s_9x07 u then do { (cs, pin) \<leftarrow> card_status m; Some (sim_of cs pin, u) }
                  else do {
                    v \<leftarrow> rd8 m 23;
                    if v = 0x00 then Some (SIM_READY, u)
                    else if v = 0x01 then do { (e, st, s) \<leftarrow> requestGetPINStatus SIM_ABSENT u; Some (st, s) }
                    else Some (SIM_ABSENT, u)
                  })" if "qmi_ok u" for m u
    using that by (cases "s_9x07 u") (simp_all, auto intro!: ensures_any [of _ _ "card_status m"] ensures_any [of _ _ "rd8 m 23"] ensures_bind [OF pin_inv])
  show ?thesis
    unfolding requestGetSIMStatus_def
  proof (rule ensures_ask_if [OF s], goal_cases)
    case (4 m u)
    show ?case by (rule ensures_pair_bind [OF k [OF 4]]) simp
  qed (simp_all add: qmux_types)
qed

lemma enter_pin_inv: "qmi_ok s \<Longrightarrow> pred_option (\<lambda>(e, u). qmi_ok u) (requestEnterSimPin pin s)"
  unfolding requestEnterSimPin_def by (rule ensures_ask_if) (auto simp: qmux_types)

lemma sim_status_loop_inv: "qmi_ok s \<Longrightarrow> pred_option (\<lambda>(st, u). qmi_ok u) (sim_status_loop st s)"
proof (induction st s rule: sim_status_loop.induct)
  case (1 st s)
  show ?case
    using "1.IH" sim_inv [OF "1.prems", of st] by (subst sim_status_loop.simps) (cases "requestGetSIMStatus st s"; auto)
qed

lemma loopback_inv: "qmi_ok s \<Longrightarrow> pred_option (\<lambda>(p, u). qmi_ok u) (set_loopback p s)"
proof -
  have b: "pred_option (\<lambda>(e, u). qmi_ok u) (requestSetLoopBackState b f s)" if "qmi_ok s" for b f
    unfolding requestSetLoopBackState_def by (rule ensures_ask [OF that]) (auto simp: qmux_types)
  show "qmi_ok s \<Longrightarrow> ?thesis"
    unfolding set_loopback_def by (auto intro!: ensures_pair_bind [OF b])
qed

lemma get_profile_loop_inv: "qmi_ok s \<Longrightarrow> pred_option (\<lambda>(e, p, u). qmi_ok u) (get_profile_loop p s)"
proof (induction p s rule: get_profile_loop.induct)
  case (1 p s)
  have r: "request QMUX_TYPE_WDS ty b u = Some (err, rsp, v) \<Longrightarrow> qmi_ok u \<Longrightarrow> qmi_ok v" for ty b u err rsp v
    using request_ok_inv [of QMUX_TYPE_WDS ty b u err rsp v] by (simp add: qmux_types)
  have step: "pred_option (\<lambda>(e, p, u). qmi_ok u) (get_profile_loop p s2)"
    if "request QMUX_TYPE_WDS 0x002B (WdsGetProfileSettingsReqSend p) s = Some (err, rsp, s1)" "profile_missing err rsp = Some True"
      "request QMUX_TYPE_WDS 0x0027 (WdsCreateProfileSettingsReqSend p) s1 = Some (err', Some m, s2)" "\<not> err' < 0"
      "m_Result m = Some 0" "m_Error m = Some 0" for err rsp s1 err' m s2
    by (rule "1.IH") (use that r [OF that(1) "1.prems"] r [OF that(3)] in auto)
  show ?case
  proof (cases "request QMUX_TYPE_WDS 0x002B (WdsGetProfileSettingsReqSend p) s")
    case None
    then show ?thesis by (simp add: get_profile_loop.simps)
  next
    case (Some t)
    then obtain err rsp s1 where q: "request QMUX_TYPE_WDS 0x002B (WdsGetProfileSettingsReqSend p) s = Some (err, rsp, s1)"
      by (cases t) auto
    have s1: "qmi_ok s1" using r [OF q "1.prems"] .
    have new: "pred_option (\<lambda>(e, p, u). qmi_ok u) (do {
       (err, rsp, s2) \<leftarrow> request QMUX_TYPE_WDS 0x0027 (WdsCreateProfileSettingsReqSend p) s1;
       if err < 0 then Some (err, p, s2)
       else case rsp of
         None \<Rightarrow> Some (err, p, s2)
       | Some m \<Rightarrow> do {
           r \<leftarrow> m_Result m; e \<leftarrow> m_Error m;
           if r \<noteq> 0 \<or> e \<noteq> 0 then Some (uint e, p, s2) else get_profile_loop p s2
         } })" if "profile_missing err rsp = Some True"
      using step [OF q that] r [OF _ s1] by (auto split: Option.bind_split option.split)
    have old: "pred_option (\<lambda>(e, p, u). qmi_ok u)
       (qmi_rsp_check_and_return (\<lambda>e s. (e, p, s)) (err, rsp, s1) (\<lambda>m s. do { p \<leftarrow> read_profile m p; Some (0, p, s) }))"
      by (rule ensures_check [OF _ _ s1]) (auto intro!: ensures_any)
    show ?thesis
      using new old by (subst get_profile_loop.simps) (cases "profile_missing err rsp"; simp add: q)
  qed
qed

lemma get_profile_inv: "qmi_ok s \<Longrightarrow> pred_option (\<lambda>(e, p, u). qmi_ok u) (requestGetProfile p s)"
  by (simp add: requestGetProfile_def Let_def get_profile_loop_inv)

lemma set_profile_inv: "qmi_ok s \<Longrightarrow> pred_option (\<lambda>(e, u). qmi_ok u) (requestSetProfile p s)"
  unfolding requestSetProfile_def by (auto simp: qmux_types intro!: ensures_ask)

section \<open>The data format\<close>

text \<open>What \<open>requestSetEthMode\<close> may hand to the network driver.\<close>

definition setting_ok :: "QMAP_SETTING \<Rightarrow> bool" where
  "setting_ok q \<longleftrightarrow> 1 < qs_ul_max_datagrams q \<and> qs_ul_max_datagrams q \<le> 11 \<and> qs_ul_max_size q \<le> 8192"

definition driver_ok :: "(QMAP_SETTING \<Rightarrow> bool) \<Rightarrow> qmi \<Rightarrow> bool" where
  "driver_ok R s \<longleftrightarrow> qmi_ok s \<and> list_all R (to_driver s)"

lemma request_driver:
  assumes "driver_ok R s" "svc \<noteq> 0xFF"
  shows "pred_option (\<lambda>(err, rsp, u). driver_ok R u) (request svc ty b s)"
proof -
  let ?s = "s\<lparr>QMUXTransactionId := GetQMUXTransactionId (QMUXTransactionId s)\<rparr>"
  have ok: "qmi_ok ?s" using assms(1) by (auto simp: driver_ok_def qmi_ok_def GetQMUXTransactionId_def)
  show ?thesis
  proof (cases "ComposeQMUXMsg svc ty b (GetQMUXTransactionId (QMUXTransactionId s))")
    case (Some req)
    from send_total [OF ok, of req True] compose_request_ok [OF Some assms(2)] assms(1) show ?thesis
      by (auto simp: request_def compose_def Some Let_def core_def driver_ok_def)
  qed (simp add: request_def compose_def Let_def)
qed

lemma ask_driver:
  assumes "driver_ok R s" "svc \<noteq> 0xFF" "\<And>e u. driver_ok R u \<Longrightarrow> P (ret e u)" "\<And>m u. driver_ok R u \<Longrightarrow> pred_option P (k m u)"
  shows "pred_option P (request svc ty b s \<bind> (\<lambda>t. qmi_rsp_check_and_return ret t k))"
proof (rule ensures_bind [OF request_driver [OF assms(1,2)]])
  fix t :: "int \<times> byte list option \<times> qmi"
  assume "case t of (err, rsp, u) \<Rightarrow> driver_ok R u"
  then show "pred_option P (qmi_rsp_check_and_return ret t k)"
    using assms(3,4) by (cases t) (auto simp: qmi_rsp_check_and_return_def intro!: ensures_any split: option.split)
qed

lemma bind_mux_driver:
  assumes "driver_ok R s" "svc \<noteq> 0xFF" "\<And>u. driver_ok R u \<Longrightarrow> pred_option (\<lambda>(e, p, u). driver_ok R u) (k u)"
  shows "pred_option (\<lambda>(e, p, u). driver_ok R u) (bind_mux svc q p s k)"
  using assms unfolding bind_mux_def by (auto intro!: ask_driver)

lemma wds_driver:
  assumes "driver_ok R s"
  shows "pred_option (\<lambda>(e, p, u). driver_ok R u) (set_ipv4 q p s (\<lambda>s. set_ipv6 q p s (\<lambda>s. do {
           (err, rsp, s) \<leftarrow> request QMUX_TYPE_WDS 0x0051 (WdsSetAutoConnect 0) s; Some (0, p, s) })))"
proof -
  have w: "pred_option (\<lambda>(err, rsp, u). driver_ok R u) (request QMUX_TYPE_WDS ty b u)" if "driver_ok R u" for ty b u
    using request_driver [OF that] by (simp add: qmux_types)
  have auto_connect: "pred_option (\<lambda>(e, p, u). driver_ok R u) (request QMUX_TYPE_WDS 0x0051 b u \<bind> (\<lambda>(err, rsp, s). Some (0, p, s)))"
    if "driver_ok R u" for u b
    by (rule ensures_triple_bind [OF w [OF that]]) simp
  have v6: "pred_option (\<lambda>(e, p, u). driver_ok R u) (set_ipv6 q p u k)"
    if "driver_ok R u" "\<And>u. driver_ok R u \<Longrightarrow> pred_option (\<lambda>(e, p, u). driver_ok R u) (k u)" for u k
    using that unfolding set_ipv6_def by (auto simp: qmux_types intro!: bind_mux_driver ask_driver)
  have v4: "pred_option (\<lambda>(e, p, u). driver_ok R u) (set_ipv4 q p u k)"
    if "driver_ok R u" "\<And>u. driver_ok R u \<Longrightarrow> pred_option (\<lambda>(e, p, u). driver_ok R u) (k u)" for u k
    using that unfolding set_ipv4_def by (auto simp: qmux_types intro!: bind_mux_driver ensures_triple_bind [OF w [unfolded qmux_types]])
  show ?thesis by (intro v4 v6 auto_connect assms)
qed

lemma tlv_u32_ensures: "P d \<Longrightarrow> (\<And>v. P (f v)) \<Longrightarrow> pred_option P (tlv_u32 m ty f d)"
  unfolding tlv_u32_def by (rule ensures_tlv) (auto intro!: ensures_any)

lemma set_data_format_driver:
  assumes "driver_ok R s" "\<And>q. setting_ok q \<Longrightarrow> R q" "qs_ul_max_datagrams q \<le> 11" "qs_ul_max_size q \<le> 8192"
    and "\<And>q p u. driver_ok R u \<Longrightarrow> pred_option (\<lambda>(e, p, u). driver_ok R u) (k q p u)"
  shows "pred_option (\<lambda>(e, p, u). driver_ok R u) (set_data_format q p s k)"
proof -
  let ?L = "\<lambda>q. qs_ul_max_datagrams q \<le> 11 \<and> qs_ul_max_size q \<le> 8192"
  have raw: "pred_option (\<lambda>(p, u). driver_ok R u) (tlv_u32 m 0x11 (\<lambda>v. (p\<lparr>rawIP := v = 2\<rparr>, u\<lparr>s_9x07 := v = 2\<rparr>)) (p, u))" if "driver_ok R u" for m u
    using that by (intro tlv_u32_ensures) (auto simp: driver_ok_def qmi_ok_def)
  have urb: "pred_option ?L (if b then tlv_u32 m 0x16 (\<lambda>v. q\<lparr>qs_rx_urb_size := v\<rparr>) q else do { z \<leftarrow> GetTLV m 0x16; Some q })" for b m
    using assms(3,4) by (intro ensures_if tlv_u32_ensures ensures_any) auto
  have dgrams: "pred_option ?L (tlv_u32 m 0x17 (\<lambda>v. q\<lparr>qs_ul_max_datagrams := min (qs_ul_max_datagrams q) v\<rparr>) q)" if "?L q" for m q
    using that by (intro tlv_u32_ensures) (auto simp: min_def)
  have lens: "pred_option ?L (tlv_u32 m 0x18 (\<lambda>v. q\<lparr>qs_ul_max_size := min (qs_ul_max_size q) v\<rparr>) q)" if "?L q" for m q
    using that by (intro tlv_u32_ensures) (auto simp: min_def)
  have padding: "pred_option ?L (tlv_u32 m 0x1A (\<lambda>v. q\<lparr>qs_dl_minimum_padding := v\<rparr>) q)" if "?L q" for m q
    using that by (intro tlv_u32_ensures) auto
  have handed: "driver_ok R (if 1 < qs_ul_max_datagrams q then u\<lparr>to_driver := to_driver u @ [q]\<rparr> else u)" if "driver_ok R u" "?L q" for u q
    using that assms(2) [of q] by (auto simp: driver_ok_def setting_ok_def qmi_ok_def)
  show ?thesis
    unfolding set_data_format_def
  proof (rule ask_driver [OF assms(1)], goal_cases)
    case (3 m u)
    show ?case
      by (rule ensures_pair_bind [OF raw [OF 3]], rule ensures_bind [OF urb], rule ensures_if, rule assms(5), assumption,
          rule ensures_bind [OF dgrams], assumption, rule ensures_bind [OF lens], assumption, rule ensures_bind [OF padding], assumption,
          rule assms(5), rule handed)
  qed (simp_all add: qmux_types)
qed

lemma set_eth_driver:
  assumes "driver_ok R s" "\<And>q. setting_ok q \<Longrightarrow> R q"
  shows "pred_option (\<lambda>(e, p, u). driver_ok R u) (requestSetEthMode p s)"
proof -
  obtain q p' s' where m: "qmap_setup p s = (q, p', s')" by (cases "qmap_setup p s")
  have "qs_ul_max_datagrams q \<le> 11" "qs_ul_max_size q \<le> 8192" "driver_ok R s'"
    using m assms(1) by (auto simp: qmap_setup_def Let_def driver_ok_def qmi_ok_def split: if_splits)
  then show ?thesis
    unfolding requestSetEthMode_def Let_def m prod.case
    by (intro ensures_if set_data_format_driver wds_driver assms(2))
qed

text \<open>
  The settings that the network driver is given for the uplink stay in the range that the
  driver's aggregation is made for, whatever the modem answers: more than one and at most 11
  datagrams, and at most 8192 bytes, in one transfer.
\<close>

lemma uplink_settings_bounded:
  assumes "qmi_ok s" "to_driver s = []" "requestSetEthMode p s = Some (e, p', s')" "q \<in> set (to_driver s')"
  shows "1 < qs_ul_max_datagrams q \<and> qs_ul_max_datagrams q \<le> 11 \<and> qs_ul_max_size q \<le> 8192"
proof -
  have "driver_ok setting_ok s" using assms(1,2) by (simp add: driver_ok_def)
  from set_eth_driver [OF this, of p] assms(3,4) show ?thesis by (auto simp: driver_ok_def setting_ok_def list_all_iff)
qed

text \<open>An answer that lowers the limits: two datagrams, 4096 bytes.\<close>

definition sample_format :: "tlv list" where
  "sample_format = [(0x11, le32_bytes 2), (0x16, le32_bytes 16384), (0x17, le32_bytes 2), (0x18, le32_bytes 4096)]"

definition sample_eth :: qmi where
  "sample_eth = (sample_qmi [\<lparr>x_poll = 1, x_pollout = True, x_write = 84,
      x_recv = [Some (pad_buf (reply QMUX_TYPE_WDS_ADMIN 9 7 0x0020 (result_ok # sample_format)))]\<rparr>])\<lparr>qmiclientId := (replicate 255 0)[0x1A := 9]\<rparr>"

lemma sample_eth_ok: "qmi_ok sample_eth"
proof -
  have "recv_buf (pad_buf (reply QMUX_TYPE_WDS_ADMIN 9 7 0x0020 (result_ok # sample_format)))"
    by (rule message_reply(1)) (simp add: sample_format_def result_ok_def)
  then show ?thesis by (simp add: sample_eth_def qmi_ok_def sample_qmi_def QMUX_TYPE_ALL_def recv_call_def)
qed

lemma sample_eth_settings:
  obtains e p s q where "requestSetEthMode (sample_profile\<lparr>enable_ipv4 := False\<rparr>) sample_eth = Some (e, p, s)"
    "q \<in> set (to_driver s)" "qs_ul_max_size q = 4096"
proof -
  have "map_option (\<lambda>(e, p, s). map qs_ul_max_size (to_driver s)) (requestSetEthMode (sample_profile\<lparr>enable_ipv4 := False\<rparr>) sample_eth) = Some [4096]"
    by code_simp
  then show ?thesis using that by auto
qed

section \<open>The whole program\<close>

definition starting :: "cm \<Rightarrow> bool" where
  "starting c \<longleftrightarrow> qmi_ok (qm c) \<and> s_link c = -1 \<and> dhcp c = []"

lemma starting_cm_init [simp]: "starting (cm_init p s now) \<longleftrightarrow> qmi_ok s"
  by (simp add: starting_def cm_init_def)

lemma starting_updates [simp]:
  "starting (c\<lparr>quit := b\<rparr>) = starting c" "starting (c\<lparr>SIMStatus := st\<rparr>) = starting c" "starting (c\<lparr>ps_attached := a\<rparr>) = starting c"
  "starting (send_signo_to_main sg c) = starting c"
  by (simp_all add: starting_def send_signo_to_main_def)

lemma enter_pin_if_inv:
  "qmi_ok s \<Longrightarrow> pred_option qmi_ok (case pin of None \<Rightarrow> Some s
     | Some pc \<Rightarrow> if sim = SIM_PIN then do { (err, s) \<leftarrow> requestEnterSimPin pc s; Some s } else Some s)"
  by (auto split: option.split intro!: ensures_pair_bind [OF enter_pin_inv])

lemma set_profile_if_inv:
  "qmi_ok s \<Longrightarrow> pred_option qmi_ok (if b then do { (err, s) \<leftarrow> requestSetProfile p s; Some s } else Some s)"
  by (auto intro!: ensures_pair_bind [OF set_profile_inv])

lemma set_eth_inv: "qmi_ok s \<Longrightarrow> pred_option (\<lambda>(e, p, u). qmi_ok u) (requestSetEthMode p s)"
  using set_eth_driver [of "\<lambda>q. True" s p] by (simp add: driver_ok_def list_all_iff)

lemma start_inv: "qmi_ok s \<Longrightarrow> pred_option starting (qmi_main_start p s now)"
proof -
  have quad: "pred_option P (r \<bind> (\<lambda>(a, b, c, u). f a b c u))"
    if "pred_option (\<lambda>(a, b, c, u). qmi_ok u) r" "\<And>a b c u. qmi_ok u \<Longrightarrow> pred_option P (f a b c u)"
    for P :: "cm \<Rightarrow> bool" and r :: "(int \<times> byte \<times> (u16 \<times> u16 \<times> string) option \<times> qmi) option" and f
    using that by (cases r) auto
  assume "qmi_ok s"
  then show ?thesis
    unfolding qmi_main_start_def
    by - (rule ensures_triple_bind [OF init_inv], assumption, rule ensures_if, simp, rule ensures_triple_bind [OF baseband_inv], assumption,
        rule ensures_triple_bind [OF set_eth_inv], assumption, rule ensures_pair_bind [OF loopback_inv], assumption,
        rule ensures_pair_bind [OF sim_status_loop_inv], assumption, rule ensures_bind [OF enter_pin_if_inv], assumption,
        rule ensures_triple_bind [OF get_profile_inv], assumption, rule ensures_bind [OF set_profile_if_inv], assumption,
        rule quad [OF registration_inv], assumption, simp)
qed

section \<open>Invariant\<close>

text \<open>The state of the interface, and the last call of the DHCP client, agree at all times.\<close>

definition dhcp_agrees :: "int \<Rightarrow> dhcp_call list \<Rightarrow> bool" where
  "dhcp_agrees link calls \<longleftrightarrow>
     link \<in> {-1, 0, 16, 64, 80} \<and>
     (if calls = [] then link = -1
      else case last calls of udhcpc_start p \<Rightarrow> 0 < link | udhcpc_stop p \<Rightarrow> link = 0)"

definition cm_ok :: "cm \<Rightarrow> bool" where
  "cm_ok c \<longleftrightarrow> qmi_ok (qm c) \<and> dhcp_agrees (s_link c) (dhcp c)"

lemma cm_ok_cong: "keeps c d \<Longrightarrow> cm_ok c \<Longrightarrow> cm_ok d"
  by (simp add: cm_ok_def keeps_def outside_def)

lemma cm_ok_updates [simp]:
  "cm_ok (send_signo_to_main sg c) = cm_ok c" "cm_ok (main_send_event_to_qmidevice e c) = cm_ok c" "cm_ok (c\<lparr>alarm_in := a\<rparr>) = cm_ok c"
  "cm_ok (c\<lparr>quit := b\<rparr>) = cm_ok c" "cm_ok (c\<lparr>SetupCallAllowTime := n\<rparr>) = cm_ok c" "cm_ok (c\<lparr>signals := sgs\<rparr>) = cm_ok c"
  "cm_ok (c\<lparr>g_donot_exit_when_modem_hangup := b\<rparr>) = cm_ok c" "cm_ok (c\<lparr>profile := p\<rparr>) = cm_ok c" "cm_ok (c\<lparr>SetupCallFail := w\<rparr>) = cm_ok c"
  by (simp_all add: cm_ok_def send_signo_to_main_def main_send_event_to_qmidevice_def)

lemma cm_ok_link: "cm_ok c \<Longrightarrow> link \<in> {0, 16, 64, 80} \<Longrightarrow> cm_ok (usbnet_link_change link c)"
  by (cases "link = s_link c") (auto simp: cm_ok_def dhcp_agrees_def usbnet_link_change_post)

lemma link_bits_values: "link_bits c \<in> {0, 16, 64, 80}"
  by (simp add: link_bits_def families)

lemma cm_ok_update_link: "cm_ok c \<Longrightarrow> cm_ok (update_link c)"
  by (simp add: update_link_def cm_ok_link cm_ok_link [OF _ link_bits_values])

lemma cm_ok_check: "cm_ok c \<Longrightarrow> pred_option cm_ok (sig_check c)"
proof (rule ensures_mono [OF sig_check_decompose])
  fix d
  assume c: "cm_ok c"
    and "\<exists>e. checked c e \<and> d = (if call_down (update_link e) then send_signo_to_main SIG_EVENT_START (update_link e) else update_link e)"
  then obtain e where "keeps c e"
      "d = (if call_down (update_link e) then send_signo_to_main SIG_EVENT_START (update_link e) else update_link e)"
    by (auto simp: checked_def)
  then show "cm_ok d" using cm_ok_update_link [OF cm_ok_cong [OF _ c]] by simp
qed

lemma cm_ok_start: "cm_ok c \<Longrightarrow> pred_option cm_ok (sig_start now later c)"
proof -
  assume c: "cm_ok c"
  have retry: "cm_ok (schedule_retry later d) = cm_ok d" for d by (simp add: schedule_retry_def Let_def)
  show ?thesis
    unfolding sig_start_def
    by (intro ensures_if, simp add: c, simp add: c, rule ensures_bind [OF call_ipv4_post], rule ensures_bind [OF call_ipv6_post])
      (use c in \<open>auto simp: retry dest: cm_ok_cong\<close>)
qed

lemma stop_call_post: "pred_option (keeps c) (stop_call family c)"
  unfolding stop_call_def by (rule ensures_pair_bind [OF deactivate_keeps]) (simp add: keeps_def)

lemma deinit_inv: "qmi_ok s \<Longrightarrow> pred_option (\<lambda>(ret, u). qmi_ok u \<and> qmiclientId u = replicate 255 0) (QmiWwanDeInit s)"
  using deinit_loop_total [of s 0 QMUX_TYPE_ALL] by (auto simp: QmiWwanDeInit_def QMUX_TYPE_ALL_def)

lemma sig_stop_effect:
  assumes "cm_ok c"
  shows "pred_option (\<lambda>d. cm_ok d \<and> quit d \<and> s_link d = 0 \<and> qmiclientId (qm d) = replicate 255 0 \<and>
      to_qmidevice d = to_qmidevice c @ [RIL_REQUEST_QUIT] \<and> signals d = signals c) (sig_stop c)"
proof -
  define P where "P d \<longleftrightarrow> cm_ok d \<and> quit d \<and> s_link d = 0 \<and> qmiclientId (qm d) = replicate 255 0 \<and>
      to_qmidevice d = to_qmidevice c @ [RIL_REQUEST_QUIT] \<and> signals d = signals c" for d
  have k: "pred_option (keeps c) (if b then stop_call family c else Some c)" for b family c
    using stop_call_post [of c family] by (simp add: keeps_def)
  have last: "pred_option P (QmiWwanDeInit (qm (usbnet_link_change 0 d)) \<bind>
      (\<lambda>(ret, s). Some (main_send_event_to_qmidevice RIL_REQUEST_QUIT ((usbnet_link_change 0 d)\<lparr>qm := s, quit := True\<rparr>))))"
    if "keeps c d" for d
  proof -
    have d: "cm_ok (usbnet_link_change 0 d)" using cm_ok_link [OF cm_ok_cong [OF that assms]] by simp
    then have "qmi_ok (qm (usbnet_link_change 0 d))" by (simp add: cm_ok_def)
    moreover have "to_qmidevice d = to_qmidevice c" "signals d = signals c" using that by (simp_all add: keeps_def outside_def)
    ultimately show ?thesis
      using d by (intro ensures_bind [OF deinit_inv])
        (auto simp: P_def cm_ok_def main_send_event_to_qmidevice_def usbnet_link_change_post)
  qed
  have "pred_option P (sig_stop c)"
    unfolding sig_stop_def Let_def
    by (rule ensures_bind [OF k], rule ensures_bind [OF k], rule last) (simp add: keeps_def)
  then show ?thesis by (simp add: P_def [abs_def])
qed

lemma cm_ok_signal: "cm_ok c \<Longrightarrow> pred_option cm_ok (handle_signal now later sg c)"
  unfolding handle_signal_def Let_def
  by (intro ensures_if cm_ok_start cm_ok_check ensures_mono [OF sig_stop_effect]) auto

lemma cm_ok_event: "cm_ok c \<Longrightarrow> pred_option cm_ok (handle_event now e c)"
proof (cases e)
  case (MainEvent n)
  assume c: "cm_ok c"
  have q: "cm_ok (main_quit d)" if "cm_ok d" for d using cm_ok_link [OF that, of 0] by (simp add: main_quit_def)
  have reg: "pred_option cm_ok (registration c)" by (rule ensures_mono [OF registration_post]) (use c in \<open>auto dest: cm_ok_cong\<close>)
  show ?thesis
    unfolding handle_event_def MainEvent main_event.case
    by (intro ensures_if ensures_bind [OF reg]) (simp_all add: c q)
next
  case (MainEventExt n d)
  then show "cm_ok c \<Longrightarrow> ?thesis" by (auto simp: handle_event_def Let_def intro!: ensures_any)
qed

text \<open>Only a handler that takes the interface down ends the loop.\<close>

definition ended_down :: "cm \<Rightarrow> bool" where
  "ended_down c \<longleftrightarrow> (quit c \<longrightarrow> s_link c \<le> 0)"

lemma keeps_quit: "keeps c d \<Longrightarrow> quit d = quit c"
  by (simp add: keeps_def outside_def)

lemma start_quit: "\<not> quit c \<Longrightarrow> pred_option (\<lambda>d. \<not> quit d) (sig_start now later c)"
proof -
  assume c: "\<not> quit c"
  have retry: "quit (schedule_retry later d) = quit d" for d by (simp add: schedule_retry_def Let_def)
  show ?thesis
    unfolding sig_start_def
    by (intro ensures_if, simp add: c, simp add: c, rule ensures_bind [OF call_ipv4_post], rule ensures_bind [OF call_ipv6_post])
      (use c in \<open>auto simp: retry dest: keeps_quit\<close>)
qed

lemma check_quit: "\<not> quit c \<Longrightarrow> pred_option (\<lambda>d. \<not> quit d) (sig_check c)"
proof (rule ensures_mono [OF sig_check_decompose])
  fix d
  assume c: "\<not> quit c"
    and "\<exists>e. checked c e \<and> d = (if call_down (update_link e) then send_signo_to_main SIG_EVENT_START (update_link e) else update_link e)"
  then obtain e where e: "keeps c e"
      "d = (if call_down (update_link e) then send_signo_to_main SIG_EVENT_START (update_link e) else update_link e)"
    by (auto simp: checked_def)
  then show "\<not> quit d" using c keeps_quit [OF e(1)] by (simp add: send_signo_to_main_def update_link_post)
qed

lemma signal_ended_down: "cm_ok c \<Longrightarrow> \<not> quit c \<Longrightarrow> pred_option ended_down (handle_signal now later sg c)"
  unfolding handle_signal_def Let_def
  by (intro ensures_if ensures_mono [OF start_quit] ensures_mono [OF check_quit] ensures_mono [OF sig_stop_effect])
    (auto simp: ended_down_def)

lemma event_ended_down: "\<not> quit c \<Longrightarrow> pred_option ended_down (handle_event now e c)"
proof (cases e)
  case (MainEvent n)
  assume c: "\<not> quit c"
  have q: "ended_down (main_quit d)" for d by (simp add: ended_down_def main_quit_def usbnet_link_change_post)
  have reg: "pred_option (\<lambda>d. \<not> quit d) (registration c)" by (rule ensures_mono [OF registration_post]) (use c in \<open>auto dest: keeps_quit\<close>)
  show ?thesis
    unfolding handle_event_def MainEvent main_event.case
    by (intro ensures_if ensures_bind [OF reg]) (simp_all add: c q, simp_all add: ended_down_def c send_signo_to_main_def)
next
  case (MainEventExt n d)
  then show "\<not> quit c \<Longrightarrow> ?thesis"
    by (auto simp: handle_event_def Let_def ended_down_def send_signo_to_main_def intro!: ensures_any)
qed

definition cm_inv :: "cm \<Rightarrow> bool" where
  "cm_inv c \<longleftrightarrow> cm_ok c \<and> ended_down c"

lemma cm_step_inv: "cm_step c d \<Longrightarrow> cm_inv c \<Longrightarrow> cm_inv d"
proof (induction rule: cm_step.induct)
  case (poll_timeout c)
  then show ?case by (simp add: cm_inv_def ended_down_def) (simp add: send_signo_to_main_def)
next
  case (read_signal c sg sgs now later c')
  then show ?case
    using cm_ok_signal [of "c\<lparr>signals := sgs\<rparr>" now later sg] signal_ended_down [of "c\<lparr>signals := sgs\<rparr>" now later sg] by (simp add: cm_inv_def)
next
  case (read_event c e es now c')
  let ?c = "c\<lparr>qm := (qm c)\<lparr>to_main := es\<rparr>\<rparr>"
  have "cm_ok ?c" using read_event.prems by (simp add: cm_inv_def cm_ok_def)
  then show ?case using read_event cm_ok_event [of ?c now e] event_ended_down [of ?c now e] by (simp add: cm_inv_def)
next
  case (alarm_fires c n)
  then show ?case by (simp add: cm_inv_def ql_sigaction_def ended_down_def) (simp add: send_signo_to_main_def)
next
  case (user_stops c)
  then show ?case
    by (simp add: cm_inv_def ql_sigaction_def ended_down_def) (simp add: send_signo_to_main_def main_send_event_to_qmidevice_def)
qed

definition cm_start :: "cm \<Rightarrow> bool" where
  "cm_start c \<longleftrightarrow> (\<exists>p s now. qmi_ok s \<and> qmi_main_start p s now = Some c)"

lemma cm_start_inv: "cm_start c \<Longrightarrow> cm_inv c"
proof -
  assume "cm_start c"
  then obtain p s now where "qmi_ok s" "qmi_main_start p s now = Some c" by (auto simp: cm_start_def)
  with start_inv [of s p now] have "starting c" by simp
  then show ?thesis by (simp add: starting_def cm_inv_def cm_ok_def dhcp_agrees_def ended_down_def)
qed

interpretation cm: inv_system cm_start cm_step cm_inv
  using cm_start_inv cm_step_inv by unfold_locales auto

text \<open>
  C2. In every run of the program, from start-up on and whatever the modem, the timers and the user
  do: the interface is in one of its four states or not yet set; the last call of the DHCP client is
  a start exactly when the interface is up, and a stop exactly when it was taken down; the transport
  is well-formed; and when the loop has ended the interface is down.
\<close>

theorem interface_and_dhcp_agree:
  assumes "qmi_ok s" "qmi_main_start p s now = Some c0" "cm_step\<^sup>*\<^sup>* c0 c"
  shows "qmi_ok (qm c) \<and> s_link c \<in> {-1, 0, 16, 64, 80} \<and> (quit c \<longrightarrow> s_link c \<le> 0) \<and>
     (if dhcp c = [] then s_link c = -1
      else case last (dhcp c) of udhcpc_start q \<Rightarrow> 0 < s_link c | udhcpc_stop q \<Rightarrow> s_link c = 0)"
proof -
  have "cm_start c0" using assms(1,2) by (auto simp: cm_start_def)
  from cm.reach_inv [OF this assms(3)] show ?thesis by (simp add: cm_inv_def cm_ok_def dhcp_agrees_def ended_down_def)
qed

text \<open>A start without a modem that answers, through a proxy, and its first check.\<close>

definition sample_run :: "(cm \<times> cm \<times> cm) option" where
  "sample_run = do {
     c0 \<leftarrow> qmi_main_start (sample_profile\<lparr>proxy := ''quectel-qmi-proxy''\<rparr>) (sample_qmi []) 1000;
     c1 \<leftarrow> handle_signal 1000 1000 SIG_EVENT_CHECK (c0\<lparr>signals := []\<rparr>);
     c2 \<leftarrow> handle_signal 1000 1000 SIG_EVENT_STOP c1;
     Some (c0, c1, c2)
   }"

lemma sample_run_reaches:
  obtains c0 c1 c2 where "qmi_main_start (sample_profile\<lparr>proxy := ''quectel-qmi-proxy''\<rparr>) (sample_qmi []) 1000 = Some c0"
    "cm_step\<^sup>*\<^sup>* c0 c1" "s_link c1 = 0" "handle_signal 1000 1000 SIG_EVENT_STOP c1 = Some c2"
proof -
  have "map_option (\<lambda>(c0, c1, c2). (quit c0, signals c0, s_link c1)) sample_run = Some (False, [1], 0)" by code_simp
  then obtain c0 c1 c2 where r: "qmi_main_start (sample_profile\<lparr>proxy := ''quectel-qmi-proxy''\<rparr>) (sample_qmi []) 1000 = Some c0"
      "handle_signal 1000 1000 SIG_EVENT_CHECK (c0\<lparr>signals := []\<rparr>) = Some c1" "handle_signal 1000 1000 SIG_EVENT_STOP c1 = Some c2"
      "\<not> quit c0" "signals c0 = [SIG_EVENT_CHECK]" "s_link c1 = 0"
    by (auto simp: sample_run_def bind_eq_Some_conv SIG_EVENT_CHECK_def)
  have "cm_step c0 c1" by (rule read_signal [OF r(4,5,2)])
  then show ?thesis using that r by blast
qed

lemma interface_and_dhcp_agree_witness:
  "\<exists>c0 c q. qmi_main_start (sample_profile\<lparr>proxy := ''quectel-qmi-proxy''\<rparr>) (sample_qmi []) 1000 = Some c0 \<and> cm_step\<^sup>*\<^sup>* c0 c \<and>
     last (dhcp c) = udhcpc_stop q"
proof (rule sample_run_reaches)
  fix c0 c1 c2
  assume a: "qmi_main_start (sample_profile\<lparr>proxy := ''quectel-qmi-proxy''\<rparr>) (sample_qmi []) 1000 = Some c0" "cm_step\<^sup>*\<^sup>* c0 c1" "s_link c1 = 0"
  have "qmi_ok (sample_qmi [])" by (rule sample_qmi_ok) simp
  from interface_and_dhcp_agree [OF this a(1,2)] a show ?thesis by (force split: dhcp_call.splits if_splits)
qed



end
