(* ===== verification/LedNetdev.thy ===== *)
theory LedNetdev
  imports Prelude
begin

text \<open>
  The LED trigger for network devices (\<open>patch/kernel/files/stable/drivers/leds/trigger/ledtrig-netdev.c\<close>;
  the nightly copy is the same file): the state kept per LED, the sysfs attributes, the notifier and
  the periodic work. The rest of the kernel is a parameter: an environment says what the network
  stack, the clock and the LED's driver answer at the time of a call; what the trigger does to the
  LED is the list of its calls. The mode bits are the set of the modes that are on.
\<close>

section \<open>State\<close>

datatype netdev_mode =
    TRIGGER_NETDEV_LINK | TRIGGER_NETDEV_LINK_10 | TRIGGER_NETDEV_LINK_100 | TRIGGER_NETDEV_LINK_1000
  | TRIGGER_NETDEV_HALF_DUPLEX | TRIGGER_NETDEV_FULL_DUPLEX | TRIGGER_NETDEV_TX | TRIGGER_NETDEV_RX | TRIGGER_NETDEV_OTHER

datatype netdev_event =
    NETDEV_UP | NETDEV_DOWN | NETDEV_CHANGE | NETDEV_REGISTER | NETDEV_UNREGISTER | NETDEV_CHANGENAME | NETDEV_EVENT_OTHER

datatype led_call =
    led_set_brightness nat
  | hw_control_set "netdev_mode set"
  | led_stop_software_blink
  | led_blink_set_oneshot nat nat bool

type_synonym netdev = nat

record led_env =
  dev_get_by_name :: "string \<Rightarrow> netdev option"
  dev_name :: "netdev \<Rightarrow> string"
  netif_carrier_ok :: "netdev \<Rightarrow> bool"
  get_link_ksettings :: "netdev \<Rightarrow> (int \<times> byte) option"    \<comment> \<open>speed and duplex, unless it fails\<close>
  dev_get_stats :: "netdev \<Rightarrow> u64 \<times> u64"                      \<comment> \<open>\<open>tx_packets\<close>, \<open>rx_packets\<close>\<close>
  msecs_to_jiffies :: "nat \<Rightarrow> nat"
  jiffies_to_msecs :: "nat \<Rightarrow> nat"
  led_brightness :: nat
  led_max_brightness :: nat
  hw_ops :: bool                                            \<comment> \<open>the driver has the three hardware operations\<close>
  hw_control_trigger :: string
  hw_control_get_device :: "netdev option"
  hw_control_get :: "(netdev_mode set) option"
  hw_control_is_supported :: "netdev_mode set \<Rightarrow> int"
  kstrtoul :: "string \<Rightarrow> int + u64"
  kzalloc_ok :: bool
  register_netdevice_notifier :: int

record led_netdev_data =
  work :: "nat option"                                      \<comment> \<open>jiffies until the work runs\<close>
  net_dev :: "netdev option"
  device_name :: string
  interval :: nat
  last_activity :: u32
  mode :: "netdev_mode set"
  link_speed :: int
  duplex :: byte
  carrier_link_up :: bool
  hw_control :: bool
  blink_brightness :: nat                                   \<comment> \<open>of \<open>led_cdev\<close>\<close>
  led_calls :: "led_call list"
  refs :: "netdev \<Rightarrow> int"                                   \<comment> \<open>references the trigger holds\<close>

definition NETDEV_LED_DEFAULT_INTERVAL :: nat where "NETDEV_LED_DEFAULT_INTERVAL = 50"
definition IFNAMSIZ :: nat where "IFNAMSIZ = 16"
definition EINVAL :: int where "EINVAL = 22"
definition ENOMEM :: int where "ENOMEM = 12"
definition SPEED_10 :: int where "SPEED_10 = 10"
definition SPEED_100 :: int where "SPEED_100 = 100"
definition SPEED_1000 :: int where "SPEED_1000 = 1000"
definition SPEED_UNKNOWN :: int where "SPEED_UNKNOWN = -1"
definition DUPLEX_HALF :: byte where "DUPLEX_HALF = 0"
definition DUPLEX_FULL :: byte where "DUPLEX_FULL = 1"
definition DUPLEX_UNKNOWN :: byte where "DUPLEX_UNKNOWN = 0xFF"

definition led_call :: "led_call \<Rightarrow> led_netdev_data \<Rightarrow> led_netdev_data" where
  "led_call x t = t\<lparr>led_calls := led_calls t @ [x]\<rparr>"

definition schedule_delayed_work :: "nat \<Rightarrow> led_netdev_data \<Rightarrow> led_netdev_data" where
  "schedule_delayed_work d t = (if work t = None then t\<lparr>work := Some d\<rparr> else t)"

definition dev_hold :: "netdev option \<Rightarrow> led_netdev_data \<Rightarrow> led_netdev_data" where
  "dev_hold d t = (case d of None \<Rightarrow> t | Some n \<Rightarrow> t\<lparr>refs := (refs t)(n := refs t n + 1)\<rparr>)"

definition dev_put :: "netdev option \<Rightarrow> led_netdev_data \<Rightarrow> led_netdev_data" where
  "dev_put d t = (case d of None \<Rightarrow> t | Some n \<Rightarrow> t\<lparr>refs := (refs t)(n := refs t n - 1)\<rparr>)"

section \<open>Operations\<close>

definition blink_on :: "led_netdev_data \<Rightarrow> bool" where
  "blink_on t \<longleftrightarrow>
     TRIGGER_NETDEV_LINK \<in> mode t \<or>
     TRIGGER_NETDEV_LINK_10 \<in> mode t \<and> link_speed t = SPEED_10 \<or>
     TRIGGER_NETDEV_LINK_100 \<in> mode t \<and> link_speed t = SPEED_100 \<or>
     TRIGGER_NETDEV_LINK_1000 \<in> mode t \<and> link_speed t = SPEED_1000 \<or>
     TRIGGER_NETDEV_HALF_DUPLEX \<in> mode t \<and> duplex t = DUPLEX_HALF \<or>
     TRIGGER_NETDEV_FULL_DUPLEX \<in> mode t \<and> duplex t = DUPLEX_FULL"

definition wants_stats :: "led_netdev_data \<Rightarrow> bool" where
  "wants_stats t \<longleftrightarrow> TRIGGER_NETDEV_TX \<in> mode t \<or> TRIGGER_NETDEV_RX \<in> mode t"

definition set_baseline_state :: "led_env \<Rightarrow> led_netdev_data \<Rightarrow> led_netdev_data" where
  "set_baseline_state e t =
     (if hw_control t then led_call (hw_control_set (mode t)) t
      else let t = (if led_brightness e \<noteq> 0 then t\<lparr>blink_brightness := led_brightness e\<rparr> else t);
               t = (if blink_brightness t = 0 then t\<lparr>blink_brightness := led_max_brightness e\<rparr> else t) in
        if \<not> carrier_link_up t then led_call (led_set_brightness 0) t
        else let t = led_call (led_set_brightness (if blink_on t then blink_brightness t else 0)) t in
          if wants_stats t then schedule_delayed_work 0 t else t)"

definition supports_hw_control :: "led_env \<Rightarrow> bool" where
  "supports_hw_control e \<longleftrightarrow> hw_ops e \<and> hw_control_trigger e = ''netdev''"

definition validate_net_dev :: "led_env \<Rightarrow> netdev option \<Rightarrow> bool" where
  "validate_net_dev e nd = (case hw_control_get_device e of None \<Rightarrow> False | Some d \<Rightarrow> nd = Some d)"

definition can_hw_control :: "led_env \<Rightarrow> led_netdev_data \<Rightarrow> bool" where
  "can_hw_control e t \<longleftrightarrow>
     supports_hw_control e \<and> interval t = msecs_to_jiffies e NETDEV_LED_DEFAULT_INTERVAL \<and> validate_net_dev e (net_dev t) \<and>
     hw_control_is_supported e (mode t) = 0"

definition get_device_state :: "led_env \<Rightarrow> netdev \<Rightarrow> led_netdev_data \<Rightarrow> led_netdev_data" where
  "get_device_state e d t =
     (let t = t\<lparr>carrier_link_up := netif_carrier_ok e d\<rparr> in
      if \<not> carrier_link_up t then t
      else case get_link_ksettings e d of None \<Rightarrow> t | Some (sp, dx) \<Rightarrow> t\<lparr>link_speed := sp, duplex := dx\<rparr>)"

definition reset_link :: "led_netdev_data \<Rightarrow> led_netdev_data" where
  "reset_link t = t\<lparr>carrier_link_up := False, link_speed := SPEED_UNKNOWN, duplex := DUPLEX_UNKNOWN\<rparr>"

text \<open>The string that the copied bytes and the terminating NUL make.\<close>

definition stored_name :: "string \<Rightarrow> string" where
  "stored_name name =
     takeWhile (\<lambda>c. c \<noteq> CHR 0x00) (if name \<noteq> [] \<and> last name = CHR 0x0A then butlast name else name)"

definition set_device_name :: "led_env \<Rightarrow> string \<Rightarrow> led_netdev_data \<Rightarrow> int \<times> led_netdev_data" where
  "set_device_name e name t =
     (if IFNAMSIZ \<le> length name then (- EINVAL, t)
      else let t = t\<lparr>work := None\<rparr>;
               t = (dev_put (net_dev t) t)\<lparr>net_dev := None\<rparr>;
               t = t\<lparr>device_name := stored_name name\<rparr>;
               t = (if device_name t = [] then t
                    else let d = dev_get_by_name e (device_name t) in (dev_hold d t)\<lparr>net_dev := d\<rparr>);
               t = reset_link t;
               t = (case net_dev t of None \<Rightarrow> t | Some d \<Rightarrow> get_device_state e d t);
               t = t\<lparr>last_activity := 0\<rparr>
           in (0, set_baseline_state e t))"

definition device_name_store :: "led_env \<Rightarrow> string \<Rightarrow> led_netdev_data \<Rightarrow> int \<times> led_netdev_data" where
  "device_name_store e buf t =
     (let (ret, t') = set_device_name e buf t in (if ret < 0 then ret else int (length buf), t'))"

definition device_name_show :: "led_netdev_data \<Rightarrow> string" where
  "device_name_show t = device_name t @ [CHR 0x0A]"

definition netdev_led_attr_show :: "netdev_mode \<Rightarrow> led_netdev_data \<Rightarrow> int + bool" where
  "netdev_led_attr_show attr t = (if attr = TRIGGER_NETDEV_OTHER then Inl (- EINVAL) else Inr (attr \<in> mode t))"

definition link_speeds :: "netdev_mode set" where
  "link_speeds = {TRIGGER_NETDEV_LINK_10, TRIGGER_NETDEV_LINK_100, TRIGGER_NETDEV_LINK_1000}"

definition netdev_led_attr_store :: "led_env \<Rightarrow> netdev_mode \<Rightarrow> string \<Rightarrow> led_netdev_data \<Rightarrow> int \<times> led_netdev_data" where
  "netdev_led_attr_store e attr buf t =
     (case kstrtoul e buf of
        Inl ret \<Rightarrow> (ret, t)
      | Inr state \<Rightarrow>
          if attr = TRIGGER_NETDEV_OTHER then (- EINVAL, t)
          else let m = (if state \<noteq> 0 then insert attr (mode t) else mode t - {attr}) in
            if TRIGGER_NETDEV_LINK \<in> m \<and> m \<inter> link_speeds \<noteq> {} then (- EINVAL, t)
            else let t = t\<lparr>work := None, mode := m\<rparr>; t = t\<lparr>hw_control := can_hw_control e t\<rparr>
                 in (int (length buf), set_baseline_state e t))"

definition interval_show :: "led_env \<Rightarrow> led_netdev_data \<Rightarrow> nat" where
  "interval_show e t = jiffies_to_msecs e (interval t)"

definition interval_store :: "led_env \<Rightarrow> string \<Rightarrow> led_netdev_data \<Rightarrow> int \<times> led_netdev_data" where
  "interval_store e buf t =
     (if hw_control t then (- EINVAL, t)
      else case kstrtoul e buf of
        Inl ret \<Rightarrow> (ret, t)
      | Inr v \<Rightarrow>
          (int (length buf),
           if 5 \<le> v \<and> v \<le> 10000 then set_baseline_state e (t\<lparr>work := None, interval := msecs_to_jiffies e (unat v)\<rparr>) else t))"

definition offloaded_show :: "led_netdev_data \<Rightarrow> bool" where
  "offloaded_show t = hw_control t"

definition notify_concerns :: "led_env \<Rightarrow> netdev_event \<Rightarrow> netdev \<Rightarrow> led_netdev_data \<Rightarrow> bool" where
  "notify_concerns e evt dev t \<longleftrightarrow>
     evt \<noteq> NETDEV_EVENT_OTHER \<and>
     (net_dev t = Some dev \<or> (evt = NETDEV_CHANGENAME \<or> evt = NETDEV_REGISTER) \<and> dev_name e dev = device_name t)"

definition netdev_trig_notify :: "led_env \<Rightarrow> netdev_event \<Rightarrow> netdev \<Rightarrow> led_netdev_data \<Rightarrow> led_netdev_data" where
  "netdev_trig_notify e evt dev t =
     (if \<not> notify_concerns e evt dev t then t
      else let t = reset_link (t\<lparr>work := None\<rparr>) in
        set_baseline_state e
          (if evt = NETDEV_CHANGENAME \<or> evt = NETDEV_REGISTER then
             let t = (dev_hold (Some dev) (dev_put (net_dev t) t))\<lparr>net_dev := Some dev\<rparr> in
             if evt = NETDEV_CHANGENAME then get_device_state e dev t else t
           else if evt = NETDEV_UNREGISTER then (dev_put (net_dev t) t)\<lparr>net_dev := None\<rparr>
           else if evt = NETDEV_UP \<or> evt = NETDEV_CHANGE then get_device_state e dev t
           else t))"

definition new_activity :: "led_env \<Rightarrow> netdev \<Rightarrow> led_netdev_data \<Rightarrow> u32" where
  "new_activity e d t =
     ucast ((if TRIGGER_NETDEV_TX \<in> mode t then fst (dev_get_stats e d) else 0) +
            (if TRIGGER_NETDEV_RX \<in> mode t then snd (dev_get_stats e d) else 0))"

definition invert :: "led_netdev_data \<Rightarrow> bool" where
  "invert t \<longleftrightarrow> TRIGGER_NETDEV_LINK \<in> mode t \<or> mode t \<inter> link_speeds \<noteq> {} \<or>
     TRIGGER_NETDEV_HALF_DUPLEX \<in> mode t \<or> TRIGGER_NETDEV_FULL_DUPLEX \<in> mode t"

definition netdev_trig_work :: "led_env \<Rightarrow> led_netdev_data \<Rightarrow> led_netdev_data" where
  "netdev_trig_work e t =
     (let t = t\<lparr>work := None\<rparr> in
      case net_dev t of
        None \<Rightarrow> led_call (led_set_brightness 0) t
      | Some d \<Rightarrow>
          if \<not> wants_stats t then t
          else let a = new_activity e d t;
                   ms = jiffies_to_msecs e (interval t);
                   t = (if last_activity t \<noteq> a
                        then (led_call (led_blink_set_oneshot ms ms (invert t)) (led_call led_stop_software_blink t))\<lparr>last_activity := a\<rparr>
                        else t)
               in schedule_delayed_work (interval t * 2) t)"

definition activated :: "led_env \<Rightarrow> nat \<Rightarrow> led_netdev_data" where
  "activated e bb = \<lparr>work = None, net_dev = None, device_name = [], interval = msecs_to_jiffies e NETDEV_LED_DEFAULT_INTERVAL,
     last_activity = 0, mode = {}, link_speed = 0, duplex = 0, carrier_link_up = False, hw_control = False, blink_brightness = bb,
     led_calls = [], refs = (\<lambda>d. 0)\<rparr>"

definition init_hw_control :: "led_env \<Rightarrow> nat \<Rightarrow> led_netdev_data" where
  "init_hw_control e bb =
     (let t = activated e bb in
      if supports_hw_control e then
        (case hw_control_get_device e of
           None \<Rightarrow> t
         | Some d \<Rightarrow>
             let t = (snd (set_device_name e (dev_name e d) t))\<lparr>hw_control := True\<rparr> in
             case hw_control_get e of None \<Rightarrow> t | Some m \<Rightarrow> t\<lparr>mode := m\<rparr>)
      else t)"

text \<open>The data is freed when the notifier cannot be registered; it is shown as it was then.\<close>

definition netdev_trig_activate :: "led_env \<Rightarrow> nat \<Rightarrow> int \<times> led_netdev_data option" where
  "netdev_trig_activate e bb =
     (if \<not> kzalloc_ok e then (- ENOMEM, None) else (register_netdevice_notifier e, Some (init_hw_control e bb)))"

definition netdev_trig_deactivate :: "led_netdev_data \<Rightarrow> led_netdev_data" where
  "netdev_trig_deactivate t = dev_put (net_dev t) (led_call (led_set_brightness 0) (t\<lparr>work := None\<rparr>))"

text \<open>What can happen while the trigger is active.\<close>

datatype led_op =
    StoreName string | StoreAttr netdev_mode string | StoreInterval string
  | Notify netdev_event netdev | Work

fun led_apply :: "led_env \<Rightarrow> led_op \<Rightarrow> led_netdev_data \<Rightarrow> led_netdev_data" where
  "led_apply e (StoreName b) t = snd (device_name_store e b t)"
| "led_apply e (StoreAttr a b) t = snd (netdev_led_attr_store e a b t)"
| "led_apply e (StoreInterval b) t = snd (interval_store e b t)"
| "led_apply e (Notify ev d) t = netdev_trig_notify e ev d t"
| "led_apply e Work t = (if work t = None then t else netdev_trig_work e t)"

inductive led_step :: "led_netdev_data \<Rightarrow> led_netdev_data \<Rightarrow> bool" where
  "led_step t (led_apply e x t)"

section \<open>The invariant\<close>

text \<open>
  The trigger holds exactly one reference, to the device it watches; only a watched device has a
  carrier; and the work is pending exactly when there is traffic to look for.
\<close>

definition holds_one :: "led_netdev_data \<Rightarrow> bool" where
  "holds_one t \<longleftrightarrow> (\<forall>d. refs t d = (if net_dev t = Some d then 1 else 0))"

definition polls :: "led_netdev_data \<Rightarrow> bool" where
  "polls t \<longleftrightarrow> \<not> hw_control t \<and> carrier_link_up t \<and> wants_stats t"

definition led_ok :: "led_netdev_data \<Rightarrow> bool" where
  "led_ok t \<longleftrightarrow> holds_one t \<and> (carrier_link_up t \<longrightarrow> net_dev t \<noteq> None) \<and> (work t \<noteq> None \<longleftrightarrow> polls t)"

text \<open>What the operations before the last one of each handler establish.\<close>

definition idle_ok :: "led_netdev_data \<Rightarrow> bool" where
  "idle_ok t \<longleftrightarrow> holds_one t \<and> (carrier_link_up t \<longrightarrow> net_dev t \<noteq> None) \<and> work t = None"

lemma led_call_simps [simp]:
  "work (led_call x t) = work t" "net_dev (led_call x t) = net_dev t" "mode (led_call x t) = mode t" "refs (led_call x t) = refs t"
  "carrier_link_up (led_call x t) = carrier_link_up t" "hw_control (led_call x t) = hw_control t" "led_calls (led_call x t) = led_calls t @ [x]"
  "interval (led_call x t) = interval t" "device_name (led_call x t) = device_name t"
  by (simp_all add: led_call_def)

lemma wants_stats_cong: "mode t = mode u \<Longrightarrow> wants_stats t = wants_stats u"
  by (simp add: wants_stats_def)

lemma baseline_frame [simp]:
  "net_dev (set_baseline_state e t) = net_dev t" "mode (set_baseline_state e t) = mode t" "refs (set_baseline_state e t) = refs t"
  "carrier_link_up (set_baseline_state e t) = carrier_link_up t" "hw_control (set_baseline_state e t) = hw_control t"
  "device_name (set_baseline_state e t) = device_name t" "interval (set_baseline_state e t) = interval t"
  by (simp_all add: set_baseline_state_def Let_def schedule_delayed_work_def)

lemma baseline_work: "work t = None \<Longrightarrow> work (set_baseline_state e t) \<noteq> None \<longleftrightarrow> polls t"
  by (simp add: set_baseline_state_def Let_def schedule_delayed_work_def polls_def wants_stats_def)

lemma baseline_ok [intro]: "idle_ok t \<Longrightarrow> led_ok (set_baseline_state e t)"
  using baseline_work [of t e] by (auto simp: idle_ok_def led_ok_def holds_one_def polls_def wants_stats_def)

lemma get_device_state_frame [simp]:
  "net_dev (get_device_state e d t) = net_dev t" "refs (get_device_state e d t) = refs t" "work (get_device_state e d t) = work t"
  "hw_control (get_device_state e d t) = hw_control t" "mode (get_device_state e d t) = mode t"
  "carrier_link_up (get_device_state e d t) = netif_carrier_ok e d" "device_name (get_device_state e d t) = device_name t"
  by (auto simp: get_device_state_def Let_def split: option.split)

lemma dev_put_held: "holds_one t \<Longrightarrow> refs (dev_put (net_dev t) t) = (\<lambda>d. 0)"
  by (auto simp: holds_one_def dev_put_def split: option.split)

lemma dev_hold_none: "refs t = (\<lambda>d. 0) \<Longrightarrow> refs (dev_hold d t) = (\<lambda>n. if d = Some n then 1 else 0)"
  by (auto simp: dev_hold_def split: option.split)

lemma ref_frame [simp]:
  "net_dev (dev_put d t) = net_dev t" "work (dev_put d t) = work t" "carrier_link_up (dev_put d t) = carrier_link_up t"
  "net_dev (dev_hold d t) = net_dev t" "work (dev_hold d t) = work t" "carrier_link_up (dev_hold d t) = carrier_link_up t"
  "hw_control (dev_put d t) = hw_control t" "hw_control (dev_hold d t) = hw_control t" "mode (dev_put d t) = mode t" "mode (dev_hold d t) = mode t"
  by (auto simp: dev_put_def dev_hold_def split: option.split)

lemma set_device_name_effect:
  assumes "holds_one t" "length name < IFNAMSIZ"
  shows "\<exists>u. set_device_name e name t = (0, set_baseline_state e u) \<and> idle_ok u \<and> hw_control u = hw_control t \<and> mode u = mode t \<and>
     device_name u = stored_name name \<and> net_dev u = (if stored_name name = [] then None else dev_get_by_name e (stored_name name))"
proof -
  define a where "a = (dev_put (net_dev t) (t\<lparr>work := None\<rparr>))\<lparr>net_dev := None, device_name := stored_name name\<rparr>"
  define d where "d = (if stored_name name = [] then None else dev_get_by_name e (stored_name name))"
  define b where "b = reset_link (if stored_name name = [] then a else (dev_hold d a)\<lparr>net_dev := d\<rparr>)"
  define u where "u = (case d of None \<Rightarrow> b | Some n \<Rightarrow> get_device_state e n b)\<lparr>last_activity := 0\<rparr>"
  have ra: "refs a = (\<lambda>d. 0)" using dev_put_held [of "t\<lparr>work := None\<rparr>"] assms(1) by (simp add: a_def holds_one_def)
  have b: "net_dev b = d" "work b = None" "\<not> carrier_link_up b" "hw_control b = hw_control t" "mode b = mode t" "device_name b = stored_name name"
    by (auto simp: b_def reset_link_def a_def d_def dev_hold_def split: option.split)
  have rb: "refs b = (\<lambda>n. if d = Some n then 1 else 0)"
    using ra dev_hold_none [OF ra, of d] by (auto simp: b_def reset_link_def d_def)
  have "set_device_name e name t = (0, set_baseline_state e u)"
  proof -
    have a: "(dev_put (net_dev (t\<lparr>work := None\<rparr>)) (t\<lparr>work := None\<rparr>))\<lparr>net_dev := None, device_name := stored_name name\<rparr> = a"
      by (simp add: a_def)
    have da: "device_name a = stored_name name" by (simp add: a_def)
    have bb: "reset_link (if device_name a = [] then a
        else (dev_hold (dev_get_by_name e (device_name a)) a)\<lparr>net_dev := dev_get_by_name e (device_name a)\<rparr>) = b"
      by (simp add: b_def d_def da)
    have "set_device_name e name t =
        (0, set_baseline_state e ((case net_dev b of None \<Rightarrow> b | Some d \<Rightarrow> get_device_state e d b)\<lparr>last_activity := 0\<rparr>))"
      unfolding set_device_name_def Let_def a bb using assms(2) by simp
    then show ?thesis by (simp add: b(1) u_def)
  qed
  moreover have "idle_ok u"
    using b rb by (auto simp: u_def idle_ok_def holds_one_def split: option.split)
  moreover have "hw_control u = hw_control t" "mode u = mode t" "device_name u = stored_name name" "net_dev u = d"
    using b by (auto simp: u_def split: option.split)
  ultimately show ?thesis unfolding d_def by blast
qed

lemma set_device_name_refused: "IFNAMSIZ \<le> length name \<Longrightarrow> set_device_name e name t = (- EINVAL, t)"
  by (simp add: set_device_name_def)

lemma name_store_ok: "led_ok t \<Longrightarrow> led_ok (snd (device_name_store e buf t))"
proof (cases "length buf < IFNAMSIZ")
  case True
  assume "led_ok t"
  then have "holds_one t" by (simp add: led_ok_def)
  from set_device_name_effect [OF this True, of e] show ?thesis by (auto simp: device_name_store_def)
qed (simp add: device_name_store_def set_device_name_refused)

lemma idle_updates:
  "led_ok t \<Longrightarrow> idle_ok (t\<lparr>work := None, interval := i\<rparr>)" "led_ok t \<Longrightarrow> idle_ok (t\<lparr>work := None, mode := m, hw_control := h\<rparr>)"
  by (simp_all add: led_ok_def idle_ok_def holds_one_def)

lemma attr_store_ok: "led_ok t \<Longrightarrow> led_ok (snd (netdev_led_attr_store e attr buf t))"
  by (auto simp: netdev_led_attr_store_def Let_def split: sum.split intro!: baseline_ok idle_updates)

lemma interval_store_ok: "led_ok t \<Longrightarrow> led_ok (snd (interval_store e buf t))"
  by (auto simp: interval_store_def split: sum.split intro!: baseline_ok idle_updates)

lemma notify_idle:
  assumes "led_ok t"
  shows "idle_ok ((dev_hold (Some dev) (dev_put (net_dev t) (reset_link (t\<lparr>work := None\<rparr>))))\<lparr>net_dev := Some dev\<rparr>)"
    and "idle_ok ((dev_put (net_dev t) (reset_link (t\<lparr>work := None\<rparr>)))\<lparr>net_dev := None\<rparr>)"
    and "idle_ok (reset_link (t\<lparr>work := None\<rparr>))"
proof -
  let ?t = "reset_link (t\<lparr>work := None\<rparr>)"
  have h: "holds_one ?t" "net_dev ?t = net_dev t" using assms by (simp_all add: led_ok_def holds_one_def reset_link_def)
  have r: "refs (dev_put (net_dev t) ?t) = (\<lambda>d. 0)" using dev_put_held [OF h(1)] h(2) by simp
  show "idle_ok ((dev_hold (Some dev) (dev_put (net_dev t) ?t))\<lparr>net_dev := Some dev\<rparr>)"
    using dev_hold_none [OF r, of "Some dev"] by (auto simp: idle_ok_def holds_one_def reset_link_def)
  show "idle_ok ((dev_put (net_dev t) ?t)\<lparr>net_dev := None\<rparr>)"
    using r by (simp add: idle_ok_def holds_one_def reset_link_def)
  show "idle_ok ?t" using h by (simp add: idle_ok_def reset_link_def)
qed

lemma idle_state [simp]: "idle_ok t \<Longrightarrow> net_dev t \<noteq> None \<Longrightarrow> idle_ok (get_device_state e d t)"
  by (simp add: idle_ok_def holds_one_def)

lemma notify_ok: "led_ok t \<Longrightarrow> led_ok (netdev_trig_notify e evt dev t)"
proof (cases "notify_concerns e evt dev t")
  case True
  assume t: "led_ok t"
  have r: "net_dev (reset_link (t\<lparr>work := None\<rparr>)) = net_dev t" by (simp add: reset_link_def)
  have n: "net_dev t = Some dev" if "evt \<noteq> NETDEV_CHANGENAME" "evt \<noteq> NETDEV_REGISTER" using True that by (auto simp: notify_concerns_def)
  show ?thesis
    using True n notify_idle [OF t] by (auto simp: netdev_trig_notify_def Let_def r intro!: baseline_ok)
qed (simp add: netdev_trig_notify_def)

lemma work_ok:
  assumes "led_ok t" "work t \<noteq> None"
  shows "led_ok (netdev_trig_work e t)"
proof -
  obtain d where d: "net_dev t = Some d" "polls t" using assms by (auto simp: led_ok_def polls_def)
  have w: "wants_stats (t\<lparr>work := None\<rparr>)" using d(2) by (simp add: polls_def wants_stats_def)
  show ?thesis
    using assms(1) d w
    by (cases "last_activity t = new_activity e d (t\<lparr>work := None\<rparr>)")
      (simp_all add: netdev_trig_work_def Let_def schedule_delayed_work_def led_ok_def holds_one_def polls_def, simp_all add: wants_stats_def)
qed

lemma init_ok: "led_ok (init_hw_control e bb)"
proof -
  have a: "led_ok (activated e bb)" by (simp add: activated_def led_ok_def holds_one_def polls_def)
  have n: "work (snd (set_device_name e name (activated e bb))) = None" "led_ok (snd (set_device_name e name (activated e bb)))" for name
  proof -
    have h: "holds_one (activated e bb)" "mode (activated e bb) = {}" "work (activated e bb) = None"
      by (simp_all add: activated_def holds_one_def)
    have "\<exists>u. set_device_name e name (activated e bb) = (0, set_baseline_state e u) \<and> idle_ok u \<and> mode u = {}" if "length name < IFNAMSIZ"
      using set_device_name_effect [OF h(1) that, of e] h(2) by auto
    moreover have "work (set_baseline_state e u) = None" if "idle_ok u" "mode u = {}" for u
      using that baseline_work [of u e] by (simp add: idle_ok_def polls_def wants_stats_def)
    ultimately show "work (snd (set_device_name e name (activated e bb))) = None" "led_ok (snd (set_device_name e name (activated e bb)))"
      using a h(3) set_device_name_refused [of name e "activated e bb"] by (cases "length name < IFNAMSIZ"; force)+
  qed
  have "led_ok (t\<lparr>hw_control := True, mode := m\<rparr>) \<and> led_ok (t\<lparr>hw_control := True\<rparr>)" if "led_ok t" "work t = None" for t m
    using that by (simp add: led_ok_def holds_one_def polls_def)
  with a n show ?thesis by (auto simp: init_hw_control_def Let_def split: option.split)
qed

lemma led_step_ok: "led_step t u \<Longrightarrow> led_ok t \<Longrightarrow> led_ok u"
proof (induction rule: led_step.induct)
  case (1 t e x)
  then show ?case by (cases x) (auto simp: name_store_ok attr_store_ok interval_store_ok notify_ok work_ok)
qed

definition led_start :: "led_netdev_data \<Rightarrow> bool" where
  "led_start t \<longleftrightarrow> (\<exists>e bb. netdev_trig_activate e bb = (0, Some t))"

interpretation led: inv_system led_start led_step led_ok
  by unfold_locales (auto simp: led_start_def netdev_trig_activate_def init_ok intro: led_step_ok split: if_splits)

section \<open>Properties\<close>

text \<open>
  C21. In every state an active LED trigger can reach: it holds one reference to the network device
  it watches and none to any other, so that nothing is left when it is deactivated; only a watched
  device has a carrier; and the periodic work is pending exactly while the trigger itself looks
  for traffic on a device with a carrier, so blinking neither stops nor outlives its cause.
\<close>

theorem led_references_and_work:
  assumes "netdev_trig_activate e bb = (0, Some s)" "led_step\<^sup>*\<^sup>* s t"
  shows "(\<forall>d. refs t d = (if net_dev t = Some d then 1 else 0)) \<and> (carrier_link_up t \<longrightarrow> net_dev t \<noteq> None) \<and>
     (work t \<noteq> None \<longleftrightarrow> \<not> hw_control t \<and> carrier_link_up t \<and> {TRIGGER_NETDEV_TX, TRIGGER_NETDEV_RX} \<inter> mode t \<noteq> {}) \<and>
     (\<forall>d. refs (netdev_trig_deactivate t) d = 0)"
proof -
  have ok: "led_ok t" using led.reach_inv [OF _ assms(2)] assms(1) by (auto simp: led_start_def)
  then have "holds_one (led_call (led_set_brightness 0) (t\<lparr>work := None\<rparr>))" by (simp add: led_ok_def holds_one_def)
  from dev_put_held [OF this] have "refs (netdev_trig_deactivate t) = (\<lambda>d. 0)" by (simp add: netdev_trig_deactivate_def)
  with ok show ?thesis by (auto simp: led_ok_def holds_one_def polls_def wants_stats_def)
qed

definition sample_led_env :: led_env where
  "sample_led_env = \<lparr>dev_get_by_name = map_of [(''eth0'', 0), (''wwan0'', 1)], dev_name = (\<lambda>d. if d = 0 then ''eth0'' else ''wwan0''),
     netif_carrier_ok = (\<lambda>d. True), get_link_ksettings = (\<lambda>d. Some (1000, 1)), dev_get_stats = (\<lambda>d. (7, 9)),
     msecs_to_jiffies = (\<lambda>n. n), jiffies_to_msecs = (\<lambda>n. n), led_brightness = 0, led_max_brightness = 255, hw_ops = True,
     hw_control_trigger = ''netdev'', hw_control_get_device = Some 0, hw_control_get = Some {TRIGGER_NETDEV_LINK},
     hw_control_is_supported = (\<lambda>m. 0), kstrtoul = (\<lambda>s. Inr (if s = ''0'' then 0 else 1)),
     kzalloc_ok = True, register_netdevice_notifier = 0\<rparr>"

lemma led_references_and_work_witness:
  "\<exists>s t. netdev_trig_activate (sample_led_env\<lparr>hw_ops := False\<rparr>) 0 = (0, Some s) \<and> led_step\<^sup>*\<^sup>* s t \<and> net_dev t = Some 1 \<and> refs t 1 = 1 \<and>
     work t = Some 0 \<and> refs (netdev_trig_deactivate t) 1 = 0"
proof -
  let ?e = "sample_led_env\<lparr>hw_ops := False\<rparr>"
  let ?s = "init_hw_control ?e 0"
  define t where "t = led_apply ?e (StoreAttr TRIGGER_NETDEV_RX ''1'') (led_apply ?e (StoreName ''wwan0'') ?s)"
  have a: "netdev_trig_activate ?e 0 = (0, Some ?s)" by (simp add: netdev_trig_activate_def sample_led_env_def)
  have r: "led_step\<^sup>*\<^sup>* ?s t"
    unfolding t_def by (meson led_step.intros r_into_rtranclp rtranclp.rtrancl_into_rtrancl)
  have "net_dev t = Some 1" "work t = Some 0" unfolding t_def by code_simp+
  with led_references_and_work [OF a r] a r show ?thesis by auto
qed

text \<open>
  A notifier that cannot be registered leaves the reference behind that the hardware control took:
  the data is freed, the device's count stays.
\<close>

lemma activate_failure_leaks:
  assumes "kzalloc_ok e" "register_netdevice_notifier e = rc" "rc \<noteq> 0" "supports_hw_control e" "hw_control_get_device e = Some d"
    and "length (dev_name e d) < IFNAMSIZ" "stored_name (dev_name e d) = dev_name e d" "dev_name e d \<noteq> []" "dev_get_by_name e (dev_name e d) = Some d"
  shows "\<exists>t. netdev_trig_activate e bb = (rc, Some t) \<and> refs t d = 1"
proof -
  have h: "holds_one (activated e bb)" by (simp add: activated_def holds_one_def)
  obtain u where u: "set_device_name e (dev_name e d) (activated e bb) = (0, set_baseline_state e u)" "idle_ok u" "net_dev u = Some d"
    using set_device_name_effect [OF h assms(6), of e] assms(7-9) by auto
  then have "refs (init_hw_control e bb) d = 1"
    using assms(4,5) by (simp add: init_hw_control_def Let_def idle_ok_def holds_one_def split: option.split)
  then show ?thesis using assms(1,2) by (simp add: netdev_trig_activate_def)
qed

text \<open>What the LED is meant to show for a link: it is on when one of the chosen modes holds of the link.\<close>

fun mode_holds :: "int \<Rightarrow> byte \<Rightarrow> netdev_mode \<Rightarrow> bool" where
  "mode_holds speed dx TRIGGER_NETDEV_LINK = True"
| "mode_holds speed dx TRIGGER_NETDEV_LINK_10 = (speed = 10)"
| "mode_holds speed dx TRIGGER_NETDEV_LINK_100 = (speed = 100)"
| "mode_holds speed dx TRIGGER_NETDEV_LINK_1000 = (speed = 1000)"
| "mode_holds speed dx TRIGGER_NETDEV_HALF_DUPLEX = (dx = 0)"
| "mode_holds speed dx TRIGGER_NETDEV_FULL_DUPLEX = (dx = 1)"
| "mode_holds speed dx _ = False"

lemma blink_on_mode: "blink_on t \<longleftrightarrow> (\<exists>m \<in> mode t. mode_holds (link_speed t) (duplex t) m)"
proof
  assume "\<exists>m \<in> mode t. mode_holds (link_speed t) (duplex t) m"
  then obtain m where "m \<in> mode t" "mode_holds (link_speed t) (duplex t) m" by blast
  then show "blink_on t"
    by (cases m) (auto simp: blink_on_def SPEED_10_def SPEED_100_def SPEED_1000_def DUPLEX_HALF_def DUPLEX_FULL_def)
next
  assume "blink_on t"
  then show "\<exists>m \<in> mode t. mode_holds (link_speed t) (duplex t) m"
    unfolding blink_on_def SPEED_10_def SPEED_100_def SPEED_1000_def DUPLEX_HALF_def DUPLEX_FULL_def
    by (elim disjE conjE) (auto intro: bexI [of _ TRIGGER_NETDEV_LINK] bexI [of _ TRIGGER_NETDEV_LINK_10] bexI [of _ TRIGGER_NETDEV_LINK_100]
        bexI [of _ TRIGGER_NETDEV_LINK_1000] bexI [of _ TRIGGER_NETDEV_HALF_DUPLEX] bexI [of _ TRIGGER_NETDEV_FULL_DUPLEX])
qed

lemma baseline_shows:
  assumes "\<not> hw_control t" "0 < led_max_brightness e"
  shows "\<exists>b > 0. led_calls (set_baseline_state e t) = led_calls t @ [led_set_brightness (if carrier_link_up t \<and> blink_on t then b else 0)]"
proof -
  define b where "b = (if led_brightness e \<noteq> 0 then led_brightness e else if blink_brightness t \<noteq> 0 then blink_brightness t else led_max_brightness e)"
  have "0 < b" using assms(2) by (simp add: b_def)
  moreover have "led_calls (set_baseline_state e t) = led_calls t @ [led_set_brightness (if carrier_link_up t \<and> blink_on t then b else 0)]"
    using assms by (auto simp: set_baseline_state_def Let_def b_def schedule_delayed_work_def blink_on_def led_call_def)
  ultimately show ?thesis by blast
qed

text \<open>
  When the watched device comes up or changes, an LED that the driver does not control itself
  is switched once: on, with a brightness above zero, exactly when the device has a carrier and its
  speed or duplex is one of those chosen, and off otherwise; it is off when the device goes down or
  away.
\<close>

theorem led_shows_link:
  assumes "net_dev t = Some d" "\<not> hw_control t" "0 < led_max_brightness e" "get_link_ksettings e d = Some (sp, dx)"
  shows "(\<forall>ev \<in> {NETDEV_UP, NETDEV_CHANGE}. \<exists>b > 0. led_calls (netdev_trig_notify e ev d t) =
       led_calls t @ [led_set_brightness (if netif_carrier_ok e d \<and> (\<exists>m \<in> mode t. mode_holds sp dx m) then b else 0)]) \<and>
     (\<forall>ev \<in> {NETDEV_DOWN, NETDEV_UNREGISTER}. led_calls (netdev_trig_notify e ev d t) = led_calls t @ [led_set_brightness 0])"
proof -
  let ?t = "reset_link (t\<lparr>work := None\<rparr>)" and ?u = "get_device_state e d (reset_link (t\<lparr>work := None\<rparr>))"
  have c: "notify_concerns e ev d t" if "ev \<noteq> NETDEV_EVENT_OTHER" for ev using assms(1) that by (simp add: notify_concerns_def)
  have t: "led_calls ?t = led_calls t" "hw_control ?t = hw_control t" "\<not> carrier_link_up ?t" "mode ?t = mode t" by (simp_all add: reset_link_def)
  have u: "led_calls ?u = led_calls t" "hw_control ?u = hw_control t" "mode ?u = mode t" "carrier_link_up ?u = netif_carrier_ok e d"
    by (simp_all add: t, auto simp: get_device_state_def reset_link_def Let_def split: option.split)
  have "link_speed ?u = sp \<and> duplex ?u = dx" if "netif_carrier_ok e d"
    using that assms(4) by (simp add: get_device_state_def)
  then have on: "carrier_link_up ?u \<and> blink_on ?u \<longleftrightarrow> netif_carrier_ok e d \<and> (\<exists>m \<in> mode t. mode_holds sp dx m)"
    by (auto simp: blink_on_mode t(4))
  have up: "netdev_trig_notify e ev d t = set_baseline_state e ?u" if "ev \<in> {NETDEV_UP, NETDEV_CHANGE}" for ev
    using that c [of ev] by (auto simp: netdev_trig_notify_def)
  have down: "led_calls (netdev_trig_notify e ev d t) = led_calls t @ [led_set_brightness 0]" if "ev \<in> {NETDEV_DOWN, NETDEV_UNREGISTER}" for ev
  proof -
    define v where "v = (if ev = NETDEV_DOWN then ?t else (dev_put (net_dev ?t) ?t)\<lparr>net_dev := None\<rparr>)"
    have "netdev_trig_notify e ev d t = set_baseline_state e v" using that c [of ev] by (auto simp: netdev_trig_notify_def Let_def v_def)
    moreover have "led_calls v = led_calls t" "\<not> hw_control v" "\<not> carrier_link_up v"
      using assms(2) t by (auto simp: v_def dev_put_def split: option.split)
    ultimately show ?thesis using baseline_shows [of v e] assms(3) by auto
  qed
  obtain b where "0 < b" "led_calls (set_baseline_state e ?u) = led_calls ?u @ [led_set_brightness (if carrier_link_up ?u \<and> blink_on ?u then b else 0)]"
    using baseline_shows [of ?u e] assms(2,3) u(2) by auto
  then have "\<exists>b > 0. led_calls (netdev_trig_notify e ev d t) =
      led_calls t @ [led_set_brightness (if netif_carrier_ok e d \<and> (\<exists>m \<in> mode t. mode_holds sp dx m) then b else 0)]"
    if "ev \<in> {NETDEV_UP, NETDEV_CHANGE}" for ev
    using that unfolding up [OF that] on u(1) by blast
  then show ?thesis using down by blast
qed

lemma led_shows_link_witness:
  "\<exists>b > 0. led_calls (netdev_trig_notify sample_led_env NETDEV_CHANGE 1
     ((activated sample_led_env 0)\<lparr>net_dev := Some 1, mode := {TRIGGER_NETDEV_LINK_1000}\<rparr>)) = [led_set_brightness b]"
proof -
  let ?t = "(activated sample_led_env 0)\<lparr>net_dev := Some 1, mode := {TRIGGER_NETDEV_LINK_1000}\<rparr>"
  have a: "net_dev ?t = Some 1" "\<not> hw_control ?t" "0 < led_max_brightness sample_led_env" "get_link_ksettings sample_led_env 1 = Some (1000, 1)"
    "netif_carrier_ok sample_led_env 1" "led_calls ?t = []"
    by (simp_all add: activated_def sample_led_env_def)
  from led_shows_link [OF a(1-4)] a(5,6) show ?thesis by auto
qed

text \<open>
  Naming another network device does not end hardware control: an LED under the control of
  its driver stays so although the device it is to watch is not the driver's own, for which
  hardware control would be refused, and its driver is told to keep on.
\<close>

theorem led_hw_control_stale:
  assumes "holds_one t" "hw_control t" "length buf < 16" "stored_name buf \<noteq> []" "dev_get_by_name e (stored_name buf) = Some d"
    and "hw_control_get_device e \<noteq> Some d"
  shows "\<exists>u. device_name_store e buf t = (int (length buf), u) \<and> net_dev u = Some d \<and> hw_control u \<and> \<not> can_hw_control e u \<and>
     last (led_calls u) = hw_control_set (mode t)"
proof -
  have l: "length buf < IFNAMSIZ" using assms(3) by (simp add: IFNAMSIZ_def)
  obtain u where u: "set_device_name e buf t = (0, set_baseline_state e u)" "hw_control u" "mode u = mode t" "net_dev u = Some d"
    using set_device_name_effect [OF assms(1) l, of e] assms(2,4,5) by auto
  then have "device_name_store e buf t = (int (length buf), led_call (hw_control_set (mode t)) u)"
    by (simp add: device_name_store_def set_baseline_state_def)
  moreover have "\<not> can_hw_control e (led_call (hw_control_set (mode t)) u)"
    using assms(6) u(4) by (auto simp: can_hw_control_def validate_net_dev_def split: option.splits)
  ultimately show ?thesis using u by (auto intro!: exI [of _ "led_call (hw_control_set (mode t)) u"])
qed

lemma led_hw_control_stale_witness:
  "\<exists>u. device_name_store sample_led_env ''wwan0'' (init_hw_control sample_led_env 0) = (5, u) \<and> net_dev u = Some 1 \<and> hw_control u"
proof -
  have "holds_one (init_hw_control sample_led_env 0)" using init_ok [of sample_led_env 0] by (simp add: led_ok_def)
  moreover have "hw_control (init_hw_control sample_led_env 0)" "stored_name ''wwan0'' \<noteq> []"
    "dev_get_by_name sample_led_env (stored_name ''wwan0'') = Some 1" "hw_control_get_device sample_led_env \<noteq> Some 1"
    by code_simp+
  ultimately show ?thesis using led_hw_control_stale [of "init_hw_control sample_led_env 0" "''wwan0''" sample_led_env 1] by auto
qed

text \<open>The name attribute reads back what was written to it.\<close>

lemma device_name_roundtrip:
  assumes "holds_one t" "length name < 15" "CHR 0x00 \<notin> set name" "CHR 0x0A \<notin> set name"
  shows "device_name_show (snd (device_name_store e (name @ [CHR 0x0A]) t)) = name @ [CHR 0x0A]"
proof -
  have "takeWhile (\<lambda>c. c \<noteq> CHR 0x00) name = name" using assms(3) by (auto simp: takeWhile_eq_all_conv)
  then have "stored_name (name @ [CHR 0x0A]) = name" by (simp add: stored_name_def)
  then show ?thesis
    using set_device_name_effect [OF assms(1), of "name @ [CHR 0x0A]" e] assms(2)
    by (auto simp: IFNAMSIZ_def device_name_store_def device_name_show_def)
qed

end
