(* ===== verification/Mbim.thy ===== *)
theory Mbim
  imports QmiThread
begin

text \<open>
  The MBIM back-end of the connection manager, \<^verbatim>\<open>quectel_cm_5G/src/mbim-cm.c\<close>: the messages, the
  command channel between the main thread and the reader thread, the queries, and the operations
  of \<open>mbim_dev_ops\<close> and \<open>mbim_request_ops\<close>.

  The field \<open>mb_exchanges\<close> holds what happens around each command: the messages the reader receives
  before the command takes the lock, the result of \<open>write\<close>, and the messages received during the
  wait. Commands beyond the list find a silent modem. \<open>None\<close> is undefined behaviour, a read outside
  of a message or buffer or a shift by a bad amount. Log output and freeing are left out; memory
  is never short.
\<close>

section \<open>Identifiers\<close>

definition UUID_BASIC_CONNECT :: string where "UUID_BASIC_CONNECT = ''a289cc33-bcbb-8b4f-b6b0-133ec2aae6df''"
definition UUID_BASIC_CONNECT_EXT :: string where "UUID_BASIC_CONNECT_EXT = ''3d01dcc5-fef5-4d05-0d3a-bef7058e9aaf''"
definition uuid_ext_qmux :: string where "uuid_ext_qmux = ''d1a30bc2-f97a-6e43-bf65-c7e24fb0f0d3''"
definition UUID_LIBMBIM_PROXY :: string where "UUID_LIBMBIM_PROXY = ''838cf7fb-8d0d-4d7f-871e-d71dbefbb39b''"
definition UUID_MBIMContextTypeInternet :: string where "UUID_MBIMContextTypeInternet = ''7E5E2A7E-4E6F-7272-736B-656E7E5E2A7E''"

text \<open>\<open>sscanf\<close> on a format of \<open>%02x\<close> (\<open>True\<close>) and dashes.\<close>

fun scan_uuid :: "bool list \<Rightarrow> string \<Rightarrow> int list" where
  "scan_uuid [] s = []"
| "scan_uuid (True # f) s = (case scan_X2 s of None \<Rightarrow> [] | Some (v, r) \<Rightarrow> v # scan_uuid f r)"
| "scan_uuid (False # f) s = (case s of c # r \<Rightarrow> if c = CHR ''-'' then scan_uuid f r else [] | [] \<Rightarrow> [])"

definition uuid_fmt :: "bool list" where
  "uuid_fmt = [True, True, True, True, False, True, True, False, True, True, False, True, True, False, True, True, True, True, True, True]"

text \<open>The array \<open>tmp\<close> has 37 bytes; a field that is not converted stays uninitialised.\<close>

definition str2uuid :: "string \<Rightarrow> byte list option" where
  "str2uuid s =
     (if length s > 36 then None
      else let d = scan_uuid uuid_fmt (map tolower s) in if length d = 16 then Some (map word_of_int d) else None)"

definition hex_lower :: "nat \<Rightarrow> char" where
  "hex_lower n = (if n < 10 then char_of (48 + n) else char_of (87 + n))"

definition hex02 :: "byte \<Rightarrow> string" where
  "hex02 b = [hex_lower (unat b div 16), hex_lower (unat b mod 16)]"

fun print_uuid :: "bool list \<Rightarrow> byte list \<Rightarrow> string" where
  "print_uuid (False # f) d = CHR ''-'' # print_uuid f d"
| "print_uuid (True # f) (b # d) = hex02 b @ print_uuid f d"
| "print_uuid f d = []"

definition uuid2str :: "byte list \<Rightarrow> string" where
  "uuid2str d = print_uuid uuid_fmt d"

definition MBIM_OPEN_MSG :: u32 where "MBIM_OPEN_MSG = 1"
definition MBIM_CLOSE_MSG :: u32 where "MBIM_CLOSE_MSG = 2"
definition MBIM_COMMAND_MSG :: u32 where "MBIM_COMMAND_MSG = 3"
definition MBIM_OPEN_DONE :: u32 where "MBIM_OPEN_DONE = 0x80000001"
definition MBIM_CLOSE_DONE :: u32 where "MBIM_CLOSE_DONE = 0x80000002"
definition MBIM_COMMAND_DONE :: u32 where "MBIM_COMMAND_DONE = 0x80000003"
definition MBIM_FUNCTION_ERROR_MSG :: u32 where "MBIM_FUNCTION_ERROR_MSG = 0x80000004"
definition MBIM_INDICATE_STATUS_MSG :: u32 where "MBIM_INDICATE_STATUS_MSG = 0x80000007"

definition MBIM_CID_DEVICE_CAPS :: u32 where "MBIM_CID_DEVICE_CAPS = 1"
definition MBIM_CID_SUBSCRIBER_READY_STATUS :: u32 where "MBIM_CID_SUBSCRIBER_READY_STATUS = 2"
definition MBIM_CID_RADIO_STATE :: u32 where "MBIM_CID_RADIO_STATE = 3"
definition MBIM_CID_REGISTER_STATE :: u32 where "MBIM_CID_REGISTER_STATE = 9"
definition MBIM_CID_PACKET_SERVICE :: u32 where "MBIM_CID_PACKET_SERVICE = 10"
definition MBIM_CID_CONNECT :: u32 where "MBIM_CID_CONNECT = 12"
definition MBIM_CID_IP_CONFIGURATION :: u32 where "MBIM_CID_IP_CONFIGURATION = 15"
definition MBIM_CID_DEVICE_SERVICES :: u32 where "MBIM_CID_DEVICE_SERVICES = 16"
definition MBIM_CID_MS_VERSION :: u32 where "MBIM_CID_MS_VERSION = 15"
definition MBIM_CID_PROXY_CONTROL_CONFIGURATION :: u32 where "MBIM_CID_PROXY_CONTROL_CONFIGURATION = 1"

definition MBIM_CID_CMD_TYPE_QUERY :: u32 where "MBIM_CID_CMD_TYPE_QUERY = 0"
definition MBIM_CID_CMD_TYPE_SET :: u32 where "MBIM_CID_CMD_TYPE_SET = 1"

definition MBIM_ERROR_NOT_OPENED :: u32 where "MBIM_ERROR_NOT_OPENED = 5"
definition EINVAL :: int where "EINVAL = 22"

section \<open>State\<close>

text \<open>A message the reader receives, or the end of the reader.\<close>

datatype mrecv = Msg "byte list" | Gone

record mexchange =
  mx_before :: "mrecv list"
  mx_write :: "int option"                  \<comment> \<open>\<open>None\<close>: the whole message was written\<close>
  mx_recv :: "mrecv list"

record mbim =
  mbim_open :: bool                         \<comment> \<open>\<open>mbim_fd > 0\<close>\<close>
  s_tid_reader :: bool                      \<comment> \<open>the reader thread runs\<close>
  TransactionId :: u32
  mbim_apn :: cstr
  mbim_user :: cstr
  mbim_passwd :: cstr
  mbim_iptype :: u32
  mbim_auth :: int
  mbim_sessionID :: int
  mbim_pRequest :: "byte list option"
  mbim_pResponse :: "byte list option"
  qmi_over_mbim_support :: bool
  qmi_over_mbim_sk :: bool                  \<comment> \<open>the socket pair exists\<close>
  qmi_over_mbim_nas :: byte
  mbim_ms_version :: byte
  mbim_open_state :: int
  ReadyState :: u32
  RegisterState :: u32
  PacketServiceState :: u32
  ActivationState :: u32
  oldReadyState :: u32
  oldRegisterState :: u32
  oldPacketServiceState :: u32
  oldActivationState :: u32
  cm_recv_buf :: "byte list"
  mb_device :: "byte list list"             \<comment> \<open>written to the device\<close>
  mb_main :: "int list"                     \<comment> \<open>events sent to the main thread\<close>
  mb_qmi :: "byte list list"                \<comment> \<open>written to \<open>qmi_over_mbim_sk[0]\<close>\<close>
  mb_exchanges :: "mexchange list"

definition mb_silent :: mexchange where
  "mb_silent = \<lparr>mx_before = [], mx_write = None, mx_recv = []\<rparr>"

definition mb_event :: "int \<Rightarrow> mbim \<Rightarrow> mbim" where
  "mb_event e s = s\<lparr>mb_main := mb_main s @ [e]\<rparr>"

definition mbim_update_state :: "mbim \<Rightarrow> int \<times> mbim" where
  "mbim_update_state s =
     ((if oldReadyState s \<noteq> ReadyState s then 1 else 0) + (if oldRegisterState s \<noteq> RegisterState s then 1 else 0) +
      (if oldPacketServiceState s \<noteq> PacketServiceState s then 1 else 0) + (if oldActivationState s \<noteq> ActivationState s then 1 else 0),
      s\<lparr>oldReadyState := ReadyState s, oldRegisterState := RegisterState s, oldPacketServiceState := PacketServiceState s,
        oldActivationState := ActivationState s\<rparr>)"

section \<open>Messages\<close>

definition h_TransactionId :: "byte list \<Rightarrow> u32" where "h_TransactionId m = fld32 m 8"

definition char2wchar :: "string \<Rightarrow> nat \<Rightarrow> byte list" where
  "char2wchar src dst_len = concat (map (\<lambda>c. [of_char c, 0]) (take (dst_len div 2) src))"

text \<open>\<open>wchar2char\<close> with its source inside the message \<open>m\<close>; the result ends at the first NUL.\<close>

fun wchar_loop :: "byte list \<Rightarrow> nat \<Rightarrow> nat \<Rightarrow> string option" where
  "wchar_loop m p 0 = Some []"
| "wchar_loop m p (Suc n) = do { c \<leftarrow> rd8 m p; r \<leftarrow> wchar_loop m (p + 2) n; Some (char_of (unat c) # r) }"

definition wchar2char :: "byte list \<Rightarrow> nat \<Rightarrow> nat \<Rightarrow> nat \<Rightarrow> string option" where
  "wchar2char m src src_size dst_len = do {
     r \<leftarrow> wchar_loop m src (min (dst_len - 1) (src_size div 2));
     Some (takeWhile (\<lambda>c. c \<noteq> CHR 0x00) r) }"

definition mbim2qmi_ipv4addr :: "u32 \<Rightarrow> u32" where
  "mbim2qmi_ipv4addr a =
     drop_bit 24 a OR (drop_bit 8 a AND 0xff00) OR (push_bit 8 a AND 0xff0000) OR push_bit 24 a"

definition compose_open_command :: "u32 \<Rightarrow> mbim \<Rightarrow> byte list \<times> mbim" where
  "compose_open_command mx s =
     (le32_bytes MBIM_OPEN_MSG @ le32_bytes 16 @ le32_bytes (TransactionId s) @ le32_bytes mx, s\<lparr>TransactionId := TransactionId s + 1\<rparr>)"

definition compose_close_command :: "mbim \<Rightarrow> byte list \<times> mbim" where
  "compose_close_command s =
     (le32_bytes MBIM_CLOSE_MSG @ le32_bytes 12 @ le32_bytes (TransactionId s), s\<lparr>TransactionId := TransactionId s + 1\<rparr>)"

text \<open>
  The message \<open>MBIM_COMMAND_MSG_T\<close>: \<open>info\<close> is \<open>pInformationBuffer\<close>, \<open>n\<close> its length. Without a buffer the
  message has \<open>n\<close> bytes that the caller fills.
\<close>

definition compose_command :: "byte list \<Rightarrow> u32 \<Rightarrow> u32 \<Rightarrow> byte list option \<Rightarrow> nat \<Rightarrow> mbim \<Rightarrow> byte list \<times> mbim" where
  "compose_command uuid cid ty info n s =
     (le32_bytes MBIM_COMMAND_MSG @ le32_bytes (of_nat (48 + n)) @ le32_bytes (TransactionId s) @
      le32_bytes 1 @ le32_bytes 0 @ uuid @ le32_bytes cid @ le32_bytes ty @
      (case info of
         Some b \<Rightarrow> le32_bytes (of_nat n) @ b
       | None \<Rightarrow> le32_bytes 0 @ replicate n 0),
      s\<lparr>TransactionId := TransactionId s + 1\<rparr>)"

definition compose_basic_connect_command :: "u32 \<Rightarrow> u32 \<Rightarrow> byte list option \<Rightarrow> nat \<Rightarrow> mbim \<Rightarrow> (byte list \<times> mbim) option" where
  "compose_basic_connect_command cid ty info n s =
     do { u \<leftarrow> str2uuid UUID_BASIC_CONNECT; Some (compose_command u cid ty info n s) }"

text \<open>The service identifier is replaced afterwards.\<close>

definition set_service :: "string \<Rightarrow> byte list \<Rightarrow> byte list option" where
  "set_service u m = do { u \<leftarrow> str2uuid u; Some (take 20 m @ u @ drop 36 m) }"

definition compose_basic_connect_ext_command :: "u32 \<Rightarrow> u32 \<Rightarrow> byte list option \<Rightarrow> nat \<Rightarrow> mbim \<Rightarrow> (byte list \<times> mbim) option" where
  "compose_basic_connect_ext_command cid ty info n s = do {
     (m, s) \<leftarrow> compose_basic_connect_command cid ty info n s;
     m \<leftarrow> set_service UUID_BASIC_CONNECT_EXT m;
     Some (m, s) }"

definition compose_qmi_over_mbim_command :: "u32 \<Rightarrow> u32 \<Rightarrow> byte list option \<Rightarrow> nat \<Rightarrow> mbim \<Rightarrow> (byte list \<times> mbim) option" where
  "compose_qmi_over_mbim_command cid ty info n s = do {
     (m, s) \<leftarrow> compose_basic_connect_command cid ty info n s;
     m \<leftarrow> set_service uuid_ext_qmux m;
     Some (m, s) }"

section \<open>Receiving\<close>

text \<open>An indication of the basic service: a changed state is reported to the main thread.\<close>

definition mb_indication :: "byte list \<Rightarrow> mbim \<Rightarrow> mbim" where
  "mb_indication m s =
     (let cid = fld32 m 36 in
      if cid = MBIM_CID_SUBSCRIBER_READY_STATUS then
        (if oldReadyState s \<noteq> fld32 m 44 then mb_event RIL_UNSOL_RESPONSE_VOICE_NETWORK_STATE_CHANGED s else s)
      else if cid = MBIM_CID_REGISTER_STATE then
        (if oldRegisterState s \<noteq> fld32 m 48 then mb_event RIL_UNSOL_RESPONSE_VOICE_NETWORK_STATE_CHANGED s else s)
      else if cid = MBIM_CID_PACKET_SERVICE then
        (if oldPacketServiceState s \<noteq> fld32 m 48 then mb_event RIL_UNSOL_RESPONSE_VOICE_NETWORK_STATE_CHANGED s else s)
      else if cid = MBIM_CID_CONNECT then
        (if fld32 m 44 = word_of_int (mbim_sessionID s) \<and> oldActivationState s \<noteq> fld32 m 48
         then mb_event RIL_UNSOL_DATA_CALL_LIST_CHANGED s else s)
      else s)"

text \<open>
  The message lies in the receive buffer, behind it what earlier messages left there; the answer
  is copied with the length it states. The result says whether the waiting thread is signalled.
\<close>

definition mbim_recv_command :: "mbim \<Rightarrow> (bool \<times> mbim) option" where
  "mbim_recv_command s =
     (let m = cm_recv_buf s; n = unat (fld32 m 4) in
      if (case mbim_pRequest s of None \<Rightarrow> False | Some q \<Rightarrow> h_TransactionId q = h_TransactionId m) then
        (if n > length m then None else Some (True, s\<lparr>mbim_pResponse := Some (take n m)\<rparr>))
      else if fld32 m 0 = MBIM_INDICATE_STATUS_MSG then do {
        u \<leftarrow> str2uuid UUID_BASIC_CONNECT;
        Some (False, if take 16 (drop 20 m) = u then mb_indication m s else s) }
      else Some (False, s))"

text \<open>The end of \<open>mbim_read_thread\<close>.\<close>

definition mbim_read_quit :: "mbim \<Rightarrow> mbim" where
  "mbim_read_quit s = (mb_event RIL_INDICATE_DEVICE_DISCONNECTED (s\<lparr>mbim_open := False\<rparr>))\<lparr>s_tid_reader := False\<rparr>"

fun mbim_reader :: "mrecv \<Rightarrow> mbim \<Rightarrow> (bool \<times> mbim) option" where
  "mbim_reader (Msg d) s =
     (if s_tid_reader s \<and> d \<noteq> [] then mbim_recv_command (s\<lparr>cm_recv_buf := take 4096 d @ drop (length d) (cm_recv_buf s)\<rparr>)
      else Some (False, s))"
| "mbim_reader Gone s = Some (if s_tid_reader s then (True, mbim_read_quit s) else (False, s))"

fun mbim_read_all :: "mrecv list \<Rightarrow> bool \<Rightarrow> mbim \<Rightarrow> (bool \<times> mbim) option" where
  "mbim_read_all [] sig s = Some (sig, s)"
| "mbim_read_all (r # rs) sig s = do { (sig', s) \<leftarrow> mbim_reader r s; mbim_read_all rs (sig \<or> sig') s }"

section \<open>Sending\<close>

definition set_TransactionId :: "u32 \<Rightarrow> byte list \<Rightarrow> byte list" where
  "set_TransactionId t m = take 8 m @ le32_bytes t @ drop 12 m"

definition mb_next :: "mbim \<Rightarrow> mexchange" where
  "mb_next s = (case mb_exchanges s of [] \<Rightarrow> mb_silent | x # _ \<Rightarrow> x)"

definition renumber :: "byte list \<Rightarrow> mbim \<Rightarrow> byte list \<times> mbim" where
  "renumber req s =
     (if h_TransactionId req = 0xFFFFFF + 1 then (set_TransactionId 1 req, s\<lparr>TransactionId := 2\<rparr>) else (req, s))"

text \<open>The return value and \<open>*ppCmdDone\<close>.\<close>

definition mbim_send_command :: "byte list \<Rightarrow> mbim \<Rightarrow> (int \<times> byte list option \<times> mbim) option" where
  "mbim_send_command req s = do {
     let x = mb_next s;
     (_, s) \<leftarrow> mbim_read_all (mx_before x) False (s\<lparr>mb_exchanges := tl (mb_exchanges s)\<rparr>);
     if \<not> mbim_open s then Some (- ENODEV, None, s)
     else if \<not> s_tid_reader s then Some (- EINVAL, None, s)
     else do {
       let (req, s) = renumber req s;
       let ret = (case mx_write x of None \<Rightarrow> int (length req) | Some r \<Rightarrow> r);
       if ret > 0 \<and> ret = int (length req) then do {
         (sig, s) \<leftarrow> mbim_read_all (mx_recv x) False
            (s\<lparr>mbim_pRequest := Some req, mbim_pResponse := None, mb_device := mb_device s @ [req]\<rparr>);
         Some (if sig then 0 else ETIMEDOUT, if sig then mbim_pResponse s else None, s\<lparr>mbim_pRequest := None, mbim_pResponse := None\<rparr>) }
       else Some (ret, None, s\<lparr>mbim_pRequest := None, mbim_pResponse := None\<rparr>) } }"

definition mbim_status_code :: "byte list \<Rightarrow> mbim \<Rightarrow> (int \<times> mbim) option" where
  "mbim_status_code m s = do {
     ty \<leftarrow> rd32 m 0;
     if ty = MBIM_OPEN_DONE \<or> ty = MBIM_CLOSE_DONE then do { v \<leftarrow> rd32 m 12; Some (sint v, s) }
     else if ty = MBIM_COMMAND_DONE then do { v \<leftarrow> rd32 m 40; Some (sint v, s) }
     else if ty = MBIM_FUNCTION_ERROR_MSG then do {
       v \<leftarrow> rd32 m 12;
       Some (sint v, if v = MBIM_ERROR_NOT_OPENED then s\<lparr>mbim_open_state := 0\<rparr> else s) }
     else Some (0, s) }"

text \<open>The macro \<open>mbim_check_err\<close>: \<open>ret\<close> is the early return, \<open>k\<close> what follows.\<close>

definition mbim_check_err ::
  "(int \<Rightarrow> mbim \<Rightarrow> 'r) \<Rightarrow> int \<times> byte list option \<times> mbim \<Rightarrow> (byte list \<Rightarrow> mbim \<Rightarrow> 'r option) \<Rightarrow> 'r option" where
  "mbim_check_err ret t k =
     (case t of (err, rsp, s) \<Rightarrow> (case rsp of
        None \<Rightarrow> Some (ret (if err \<noteq> 0 then err else 8888) s)
      | Some m \<Rightarrow> do {
          (status, s) \<leftarrow> mbim_status_code m s;
          if err \<noteq> 0 then Some (ret err s) else if status \<noteq> 0 then Some (ret status s) else k m s }))"

text \<open>A command of the basic service with its answer: the common frame of the queries.\<close>

definition basic_command ::
  "u32 \<Rightarrow> u32 \<Rightarrow> byte list \<Rightarrow> (int \<Rightarrow> mbim \<Rightarrow> 'r) \<Rightarrow> (byte list \<Rightarrow> mbim \<Rightarrow> 'r option) \<Rightarrow> mbim \<Rightarrow> 'r option" where
  "basic_command cid ty info ret k s = do {
     (req, s) \<leftarrow> compose_basic_connect_command cid ty (if info = [] then None else Some info) (length info) s;
     t \<leftarrow> mbim_send_command req s;
     mbim_check_err ret t k }"

section \<open>Device\<close>

definition mbim_open_device :: "u32 \<Rightarrow> mbim \<Rightarrow> (int \<times> mbim) option" where
  "mbim_open_device mx s = do {
     let (req, s) = compose_open_command mx s;
     t \<leftarrow> mbim_send_command req s;
     mbim_check_err Pair t (\<lambda>m s. do { v \<leftarrow> rd32 m 12; Some (sint v, s) }) }"

definition mbim_close_device :: "mbim \<Rightarrow> (int \<times> mbim) option" where
  "mbim_close_device s = do {
     let (req, s) = compose_close_command s;
     t \<leftarrow> mbim_send_command req s;
     mbim_check_err Pair t (\<lambda>m s. do { v \<leftarrow> rd32 m 12; Some (sint v, s) }) }"

definition mbim_ms_version_query :: "mbim \<Rightarrow> (int \<times> mbim) option" where
  "mbim_ms_version_query s = do {
     (req, s) \<leftarrow> compose_basic_connect_ext_command MBIM_CID_MS_VERSION MBIM_CID_CMD_TYPE_QUERY (Some [0, 1, 0, 2]) 4 s;
     t \<leftarrow> mbim_send_command req s;
     mbim_check_err Pair t (\<lambda>m s. do {
       n \<leftarrow> rd32 m 44;
       if n = 0 then Some (0, s) else do { v \<leftarrow> rd8 m 51; Some (0, s\<lparr>mbim_ms_version := v\<rparr>) } }) }"

text \<open>The element of a service: does its list of commands hold the version query?\<close>

fun cid_loop :: "byte list \<Rightarrow> nat \<Rightarrow> nat \<Rightarrow> bool \<Rightarrow> bool option" where
  "cid_loop m p 0 v2 = Some v2"
| "cid_loop m p (Suc n) v2 = do { c \<leftarrow> rd32 m p; cid_loop m (p + 4) n (v2 \<or> c = MBIM_CID_MS_VERSION) }"

fun services_loop :: "byte list \<Rightarrow> nat \<Rightarrow> nat \<Rightarrow> bool \<Rightarrow> mbim \<Rightarrow> (bool \<times> mbim) option" where
  "services_loop m p 0 v2 s = Some (v2, s)"
| "services_loop m p (Suc n) v2 s = do {
     off \<leftarrow> rd32 m p;
     let e = 48 + unat off;
     u \<leftarrow> rdn m e 16;
     if strcasecmp_eq UUID_BASIC_CONNECT_EXT (uuid2str u) then do {
       k \<leftarrow> rd32 m (e + 24);
       v2 \<leftarrow> cid_loop m (e + 28) (unat k) v2;
       services_loop m (p + 8) n v2 s }
     else services_loop m (p + 8) n v2 (if strcasecmp_eq uuid_ext_qmux (uuid2str u) then s\<lparr>qmi_over_mbim_support := True\<rparr> else s) }"

definition mbim_device_services_query :: "mbim \<Rightarrow> (int \<times> mbim) option" where
  "mbim_device_services_query =
     basic_command MBIM_CID_DEVICE_SERVICES MBIM_CID_CMD_TYPE_QUERY [] Pair (\<lambda>m s. do {
       n \<leftarrow> rd32 m 44;
       (v2, s) \<leftarrow> (if n = 0 then Some (False, s) else do { c \<leftarrow> rd32 m 48; services_loop m 56 (unat c) False s });
       if v2 then do { (_, s) \<leftarrow> mbim_ms_version_query s; Some (0, s) } else Some (0, s) })"

text \<open>A string of the answer at the offset and with the size stored at \<open>p\<close>, when both are not 0.\<close>

definition caps_string :: "byte list \<Rightarrow> nat \<Rightarrow> string option option" where
  "caps_string m p = do {
     off \<leftarrow> rd32 m p;
     n \<leftarrow> (if off = 0 then Some 0 else rd32 m (p + 4));
     if off = 0 \<or> n = 0 then Some None
     else do { x \<leftarrow> wchar2char m (48 + unat off) (unat n) 32; Some (Some x) } }"

definition mbim_device_caps_query :: "PROFILE_T \<Rightarrow> mbim \<Rightarrow> (int \<times> PROFILE_T \<times> mbim) option" where
  "mbim_device_caps_query p =
     basic_command MBIM_CID_DEVICE_CAPS MBIM_CID_CMD_TYPE_QUERY [] (\<lambda>e s. (e, p, s)) (\<lambda>m s. do {
       n \<leftarrow> rd32 m 44;
       if n = 0 then Some (0, p, s)
       else do {
         _ \<leftarrow> caps_string m 88;
         fw \<leftarrow> caps_string m 96;
         _ \<leftarrow> caps_string m 104;
         Some (0, case fw of None \<Rightarrow> p | Some x \<Rightarrow> p\<lparr>BaseBandVersion := x\<rparr>, s) } })"

definition mbim_set_radio_state :: "u32 \<Rightarrow> mbim \<Rightarrow> (int \<times> mbim) option" where
  "mbim_set_radio_state v =
     basic_command MBIM_CID_RADIO_STATE MBIM_CID_CMD_TYPE_SET (le32_bytes v) Pair (\<lambda>m s. do {
       n \<leftarrow> rd32 m 44;
       if n = 0 then Some (0, s) else do { _ \<leftarrow> rd32 m 48; _ \<leftarrow> rd32 m 52; Some (0, s) } })"

section \<open>States\<close>

definition mbim_subscriber_status_query :: "mbim \<Rightarrow> (int \<times> mbim) option" where
  "mbim_subscriber_status_query =
     basic_command MBIM_CID_SUBSCRIBER_READY_STATUS MBIM_CID_CMD_TYPE_QUERY [] Pair (\<lambda>m s. do {
       n \<leftarrow> rd32 m 44;
       if n = 0 then Some (0, s)
       else do {
         o1 \<leftarrow> rd32 m 52; n1 \<leftarrow> rd32 m 56;
         _ \<leftarrow> wchar2char m (48 + unat o1) (unat n1) 32;
         o2 \<leftarrow> rd32 m 60; n2 \<leftarrow> rd32 m 64;
         _ \<leftarrow> wchar2char m (48 + unat o2) (unat n2) 32;
         v \<leftarrow> rd32 m 48;
         Some (0, snd (mbim_update_state (s\<lparr>ReadyState := v\<rparr>))) } })"

definition mbim_register_state_query :: "mbim \<Rightarrow> (int \<times> mbim) option" where
  "mbim_register_state_query =
     basic_command MBIM_CID_REGISTER_STATE MBIM_CID_CMD_TYPE_QUERY [] Pair (\<lambda>m s. do {
       n \<leftarrow> rd32 m 44;
       if n = 0 then Some (0, s)
       else do { v \<leftarrow> rd32 m 52; Some (0, snd (mbim_update_state (s\<lparr>RegisterState := v\<rparr>))) } })"

definition mbim_packet_service_query :: "mbim \<Rightarrow> (int \<times> mbim) option" where
  "mbim_packet_service_query =
     basic_command MBIM_CID_PACKET_SERVICE MBIM_CID_CMD_TYPE_QUERY [] Pair (\<lambda>m s. do {
       n \<leftarrow> rd32 m 44;
       if n = 0 then Some (0, s)
       else do {
         v \<leftarrow> rd32 m 52;
         _ \<leftarrow> (if n = 32 then rd32 m 56 else Some 0);
         Some (0, snd (mbim_update_state (s\<lparr>PacketServiceState := v\<rparr>))) } })"

definition mbim_packet_service_set :: "u32 \<Rightarrow> mbim \<Rightarrow> (int \<times> mbim) option" where
  "mbim_packet_service_set action =
     basic_command MBIM_CID_PACKET_SERVICE MBIM_CID_CMD_TYPE_SET (le32_bytes action) Pair (\<lambda>m s. do {
       n \<leftarrow> rd32 m 44;
       if n = 0 then Some (0, s)
       else do { v \<leftarrow> rd32 m 52; Some (0, snd (mbim_update_state (s\<lparr>PacketServiceState := v\<rparr>))) } })"

section \<open>Connections\<close>

text \<open>Of the structure \<open>MBIM_SET_CONNECT_T\<close> on the stack only the session is set; \<open>junk\<close> is the rest.\<close>

definition store_activation :: "byte list \<Rightarrow> mbim \<Rightarrow> (int \<times> mbim) option" where
  "store_activation m s = do {
     n \<leftarrow> rd32 m 44;
     if n = 0 then Some (0, s)
     else do { v \<leftarrow> rd32 m 52; Some (0, snd (mbim_update_state (s\<lparr>ActivationState := v\<rparr>))) } }"

definition mbim_query_connect :: "byte list \<Rightarrow> int \<Rightarrow> mbim \<Rightarrow> (int \<times> mbim) option" where
  "mbim_query_connect junk sessionID =
     basic_command MBIM_CID_CONNECT MBIM_CID_CMD_TYPE_QUERY (le32_bytes (word_of_int sessionID) @ junk) Pair store_activation"

definition align_32 :: "nat \<Rightarrow> nat" where
  "align_32 n = n + (if n mod 4 \<noteq> 0 then 4 - n mod 4 else 0)"

definition cstrlen :: "cstr \<Rightarrow> nat" where
  "cstrlen x = (case x of None \<Rightarrow> 0 | Some y \<Rightarrow> length y)"

definition connect_buflen :: "mbim \<Rightarrow> nat" where
  "connect_buflen s =
     align_32 (align_32 (align_32 (2 * cstrlen (mbim_apn s)) + 2 * cstrlen (mbim_user s)) + 2 * cstrlen (mbim_passwd s))"

definition put_at :: "nat \<Rightarrow> byte list \<Rightarrow> byte list \<Rightarrow> byte list" where
  "put_at i b d = take i d @ b @ drop (i + length b) d"

text \<open>
  One string into the data buffer \<open>d\<close> of \<open>n\<close> bytes: offset and size for the structure, the new offset
  and the buffer. The new offset is what \<open>char2wchar\<close> returned, not added to the old one.
\<close>

definition put_string :: "cstr \<Rightarrow> nat \<Rightarrow> nat \<times> byte list \<Rightarrow> (u32 \<times> u32) \<times> nat \<times> byte list" where
  "put_string x n t =
     (case t of (offset, d) \<Rightarrow>
        if cstrlen x = 0 then ((0, 0), offset, d)
        else let b = char2wchar (the x) (n - offset) in
          ((of_nat (offset + 60), of_nat (2 * cstrlen x)), align_32 (length b), put_at offset b d))"

text \<open>The offsets and sizes of the three strings, and the data buffer.\<close>

definition mbim_populate_connect_data :: "mbim \<Rightarrow> (u32 \<times> u32) \<times> (u32 \<times> u32) \<times> (u32 \<times> u32) \<times> byte list" where
  "mbim_populate_connect_data s =
     (let n = connect_buflen s;
          (apn, t) = put_string (mbim_apn s) n (0, replicate n 0);
          (user, t) = put_string (mbim_user s) n t;
          (passwd, t) = put_string (mbim_passwd s) n t
      in (apn, user, passwd, snd t))"

definition pair_bytes :: "u32 \<times> u32 \<Rightarrow> byte list" where
  "pair_bytes x = le32_bytes (fst x) @ le32_bytes (snd x)"

definition connect_info :: "int \<Rightarrow> int \<Rightarrow> mbim \<Rightarrow> byte list option" where
  "connect_info onoff sessionID s = do {
     u \<leftarrow> str2uuid UUID_MBIMContextTypeInternet;
     let (apn, user, passwd, d) = mbim_populate_connect_data s;
     Some (le32_bytes (word_of_int sessionID) @ le32_bytes (if onoff = 0 then 0 else 1) @
       pair_bytes apn @ pair_bytes user @ pair_bytes passwd @
       le32_bytes 0 @ le32_bytes (word_of_int (mbim_auth s)) @ le32_bytes (mbim_iptype s) @ u @ d) }"

definition mbim_set_connect :: "int \<Rightarrow> int \<Rightarrow> mbim \<Rightarrow> (int \<times> mbim) option" where
  "mbim_set_connect onoff sessionID s = do {
     info \<leftarrow> connect_info onoff sessionID s;
     basic_command MBIM_CID_CONNECT MBIM_CID_CMD_TYPE_SET info Pair store_activation s }"

section \<open>Addresses\<close>

text \<open>A field of the answer at an offset that is itself a field: \<open>&pInfo->DataBuffer[offset - sizeof]\<close>.\<close>

definition ref32 :: "byte list \<Rightarrow> nat \<Rightarrow> nat \<Rightarrow> u32 option" where
  "ref32 m p k = do { off \<leftarrow> rd32 m p; rd32 m (48 + unat off + k) }"

definition refn :: "byte list \<Rightarrow> nat \<Rightarrow> nat \<Rightarrow> byte list option" where
  "refn m p k = do { off \<leftarrow> rd32 m p; rdn m (48 + unat off + k) 16 }"

definition subnet_mask :: "byte \<Rightarrow> u32 option" where
  "subnet_mask n =
     (if n = 0 \<or> n > 32 then None
      else let k = 32 - unat n in Some (mbim2qmi_ipv4addr (push_bit k (drop_bit k 0xFFFFFFFF))))"

text \<open>When a flag is set the value is read and stored, else it stays.\<close>

definition when_set :: "bool \<Rightarrow> 'a option \<Rightarrow> 'a \<Rightarrow> 'a option" where
  "when_set c new old = (if c then new else Some old)"

definition ip_config_v4 :: "byte list \<Rightarrow> PROFILE_T \<Rightarrow> (u32 \<times> PROFILE_T) option" where
  "ip_config_v4 m p = do {
     av \<leftarrow> rd32 m 52;
     if \<not> bit av 0 then Some (1500, p)
     else do {
       plen \<leftarrow> ref32 m 64 0;
       a \<leftarrow> ref32 m 64 4;
       gw \<leftarrow> when_set (bit av 1) (map_option mbim2qmi_ipv4addr (ref32 m 76 0)) (v4_Gateway (ipv4 p));
       n \<leftarrow> when_set (bit av 2) (rd32 m 84) 0;
       dns1 \<leftarrow> when_set (bit av 2) (map_option mbim2qmi_ipv4addr (ref32 m 88 0)) (v4_DnsPrimary (ipv4 p));
       dns2 \<leftarrow> when_set (bit av 2 \<and> n = 2) (map_option mbim2qmi_ipv4addr (ref32 m 88 4)) (v4_DnsSecondary (ipv4 p));
       mtu \<leftarrow> when_set (bit av 3) (rd32 m 100) 1500;
       mask \<leftarrow> subnet_mask (ucast plen);
       Some (mtu, p\<lparr>ipv4 := \<lparr>v4_Address = mbim2qmi_ipv4addr a, v4_Gateway = gw, v4_SubnetMask = mask, v4_DnsPrimary = dns1,
         v4_DnsSecondary = dns2, v4_Mtu = mbim2qmi_ipv4addr mtu\<rparr>\<rparr>) } }"

definition ip_config_v6 :: "byte list \<Rightarrow> u32 \<Rightarrow> PROFILE_T \<Rightarrow> PROFILE_T option" where
  "ip_config_v6 m mtu p = do {
     av \<leftarrow> rd32 m 56;
     if \<not> bit av 0 then Some p
     else do {
       plen \<leftarrow> ref32 m 72 0;
       a \<leftarrow> refn m 72 4;
       gw \<leftarrow> when_set (bit av 1) (refn m 80 0) (v6_Gateway (ipv6 p));
       n \<leftarrow> when_set (bit av 2) (rd32 m 92) 0;
       dns1 \<leftarrow> when_set (bit av 2) (refn m 96 0) (v6_DnsPrimary (ipv6 p));
       dns2 \<leftarrow> when_set (bit av 2 \<and> n = 2) (refn m 96 16) (v6_DnsSecondary (ipv6 p));
       mtu \<leftarrow> when_set (bit av 3) (rd32 m 104) mtu;
       Some (p\<lparr>ipv6 := \<lparr>v6_Address = a, v6_Gateway = gw, v6_DnsPrimary = dns1, v6_DnsSecondary = dns2,
         v6_PrefixLengthIPAddr = ucast plen, v6_PrefixLengthGateway = ucast plen, v6_Mtu = mbim2qmi_ipv4addr mtu\<rparr>\<rparr>) } }"

definition mbim_ip_config :: "byte list \<Rightarrow> int \<Rightarrow> PROFILE_T \<Rightarrow> mbim \<Rightarrow> (int \<times> PROFILE_T \<times> mbim) option" where
  "mbim_ip_config junk sessionID p =
     basic_command MBIM_CID_IP_CONFIGURATION MBIM_CID_CMD_TYPE_QUERY (le32_bytes (word_of_int sessionID) @ junk)
       (\<lambda>e s. (e, p, s)) (\<lambda>m s. do {
         n \<leftarrow> rd32 m 44;
         if n = 0 then Some (0, p, s)
         else do {
           (mtu, p) \<leftarrow> ip_config_v4 m p;
           p \<leftarrow> ip_config_v6 m mtu p;
           Some (0, p, s) } })"

section \<open>Start and stop\<close>

text \<open>The message has room for the path, but the stated length of its buffer is 0.\<close>

definition mbim_proxy_configure :: "string \<Rightarrow> mbim \<Rightarrow> (int \<times> mbim) option" where
  "mbim_proxy_configure dev s = do {
     let path = char2wchar dev (2 * length dev);
     (req, s) \<leftarrow> compose_basic_connect_command MBIM_CID_PROXY_CONTROL_CONFIGURATION MBIM_CID_CMD_TYPE_SET None (12 + 2 * length dev) s;
     req \<leftarrow> set_service UUID_LIBMBIM_PROXY req;
     t \<leftarrow> mbim_send_command (take 48 req @ le32_bytes 12 @ le32_bytes (of_nat (length path)) @ le32_bytes 15 @ path) s;
     mbim_check_err Pair t (\<lambda>m s. Some (0, s)) }"

fun open_loop :: "nat \<Rightarrow> int \<Rightarrow> mbim \<Rightarrow> (int \<times> mbim) option" where
  "open_loop 0 ret s = Some (ret, s)"
| "open_loop (Suc n) ret s = do {
     (ret, s) \<leftarrow> mbim_open_device 4096 s;
     if ret \<noteq> ETIMEDOUT then Some (ret, s) else open_loop n ret s }"

text \<open>\<open>sk\<close> is the outcome of \<open>socketpair\<close>.\<close>

definition mbim_init :: "bool \<Rightarrow> PROFILE_T \<Rightarrow> mbim \<Rightarrow> (int \<times> PROFILE_T \<times> mbim) option" where
  "mbim_init sk p s = do {
     (ret, s) \<leftarrow> (if proxy p = ''mbim-proxy'' then mbim_proxy_configure (qmichannel p) s else Some (0, s));
     if ret \<noteq> 0 then Some (ret, p, s)
     else do {
       (ret, s) \<leftarrow> open_loop 10 0 s;
       if ret \<noteq> 0 then Some (ret, p, s)
       else do {
         (ret, p, s) \<leftarrow> mbim_device_caps_query p s;
         if ret \<noteq> 0 then Some (ret, p, s)
         else do {
           (ret, s) \<leftarrow> mbim_device_services_query (snd (mbim_update_state s));
           if ret \<noteq> 0 then Some (ret, p, s)
           else do {
             (ret, s) \<leftarrow> mbim_set_radio_state 1 (snd (mbim_update_state s));
             if ret \<noteq> 0 then Some (ret, p, s)
             else let s = snd (mbim_update_state s) in
               Some (0, p, if qmi_over_mbim_support s \<and> sk then s\<lparr>qmi_over_mbim_sk := True\<rparr> else s) } } } } }"

text \<open>Without \<open>CONFIG_CELLINFO\<close> no client number of QMI is ever taken, so none is released.\<close>

definition mbim_deinit :: "mbim \<Rightarrow> (int \<times> mbim) option" where
  "mbim_deinit s = do { (_, s) \<leftarrow> mbim_close_device s; Some (0, s) }"

text \<open>
  \<open>mbim_read_thread\<close> up to its loop; \<open>fd\<close> is the descriptor that \<open>cm_open_proxy\<close> or \<open>cm_open_dev\<close> returned.
\<close>

definition mbim_read_start :: "int \<Rightarrow> PROFILE_T \<Rightarrow> mbim \<Rightarrow> PROFILE_T \<times> mbim" where
  "mbim_read_start fd p s =
     (let many = qmap_mode p > 1 \<and> qmapnet_adapter p \<noteq> [];
          p = (if many \<and> proxy p = [] then p\<lparr>proxy := ''quectel-mbim-proxy''\<rparr> else p);
          s = s\<lparr>s_tid_reader := True, mbim_sessionID := (if many then pdp p else mbim_sessionID s)\<rparr>
      in if fd \<le> 0 then (p, mbim_read_quit s)
         else (p, mb_event RIL_INDICATE_DEVICE_CONNECTED (s\<lparr>mbim_open := True\<rparr>)))"

text \<open>
  One message from a proxy, out of the bytes that have arrived: header, then the rest by the stated
  length. A message longer than the buffer stays in the stream; a length below the header's is a
  negative count, which \<open>read\<close> refuses.
\<close>

definition mbim_proxy_read :: "nat \<Rightarrow> byte list \<Rightarrow> byte list \<times> byte list" where
  "mbim_proxy_read sz bs =
     (let h = take 12 bs; n = unat (fld32 h 4) in
      if length h = 12 \<and> n \<le> sz \<and> 12 \<le> n then (take n bs, drop n bs) else (h, drop 12 bs))"

function mbim_proxy_messages :: "byte list \<Rightarrow> byte list list" where
  "mbim_proxy_messages bs =
     (if bs = [] then [] else case mbim_proxy_read 4096 bs of (m, r) \<Rightarrow> m # mbim_proxy_messages r)"
  by auto
termination
  by (relation "measure length") (auto simp: mbim_proxy_read_def Let_def length_greater_0_conv split: if_splits)

declare mbim_proxy_messages.simps [simp del]

text \<open>
  One return of \<open>poll\<close> in the reader: its result and, for the device, the control socket and the
  socket of QMI messages, whether they are in error or readable, with the result of the read or the
  event that was read. The outcome is whether the loop is left, whether it now waits for the
  end, and whether a message of the device was handed to \<open>mbim_recv_command\<close>.
\<close>

datatype mfd = MQuiet | MBroken | MIn int

definition mbim_poll :: "bool \<Rightarrow> int \<Rightarrow> mfd \<Rightarrow> mfd \<Rightarrow> mfd \<Rightarrow> bool \<times> bool \<times> bool" where
  "mbim_poll w ret dev ctl qsk =
     (if ret = 0 \<and> w \<or> ret < 0 \<or> dev = MBroken then (True, w, False)
      else if (case dev of MIn n \<Rightarrow> n \<le> 0 | _ \<Rightarrow> False) then (False, w, False)
      else let got = dev \<noteq> MQuiet; w' = (w \<or> ctl = MIn SIG_EVENT_STOP) in
        if ctl = MBroken \<or> ctl = MIn RIL_REQUEST_QUIT then (True, w, got)
        else (qsk = MBroken, w', got))"

section \<open>Requests\<close>

definition requestBaseBandVersion :: "PROFILE_T \<Rightarrow> mbim \<Rightarrow> (int \<times> PROFILE_T \<times> mbim) option" where
  "requestBaseBandVersion p s = Some (0, p, s)"

definition sim_of_ready :: "u32 \<Rightarrow> SIM_Status" where
  "sim_of_ready v =
     (if v = 0 then SIM_NOT_READY
      else if v = 1 then SIM_READY
      else if v = 3 then SIM_BAD
      else if v = 6 then SIM_PIN
      else SIM_ABSENT)"

definition requestGetSIMStatus :: "mbim \<Rightarrow> (int \<times> SIM_Status \<times> mbim) option" where
  "requestGetSIMStatus s = do {
     (ret, s) \<leftarrow> mbim_subscriber_status_query s;
     if ret \<noteq> 0 then Some (ret, SIM_ABSENT, s)
     else let s = snd (mbim_update_state s) in Some (ret, sim_of_ready (ReadyState s), s) }"

definition requestRegistrationState :: "mbim \<Rightarrow> (int \<times> byte \<times> mbim) option" where
  "requestRegistrationState s = do {
     (ret, s) \<leftarrow> mbim_register_state_query s;
     if ret \<noteq> 0 then Some (ret, 0, s)
     else let s = snd (mbim_update_state s) in
       if RegisterState s \<noteq> 3 \<and> RegisterState s \<noteq> 4 then Some (ret, 0, s)
       else do {
         (ret, s) \<leftarrow> mbim_packet_service_query s;
         if ret \<noteq> 0 then Some (ret, 1, s)
         else if PacketServiceState s = 2 then Some (ret, 1, s)
         else do { (_, s) \<leftarrow> mbim_packet_service_set 0 s; Some (ret, 0, s) } } }"

definition set_call_parameters :: "PROFILE_T \<Rightarrow> mbim \<Rightarrow> mbim" where
  "set_call_parameters p s =
     s\<lparr>mbim_apn := (if apn p \<noteq> None then apn p else mbim_apn s),
       mbim_user := (if user p \<noteq> None then user p else mbim_user s),
       mbim_passwd := (if password p \<noteq> None then password p else mbim_passwd s),
       mbim_auth := (if auth p \<noteq> 0 then auth p else mbim_auth s),
       mbim_iptype := (if enable_ipv4 p \<and> enable_ipv6 p then 4 else if enable_ipv6 p then 2 else if enable_ipv4 p then 1 else mbim_iptype s)\<rparr>"

definition requestSetupDataCall :: "PROFILE_T \<Rightarrow> mbim \<Rightarrow> (int \<times> mbim) option" where
  "requestSetupDataCall p s = (let s = set_call_parameters p s in mbim_set_connect 1 (mbim_sessionID s) s)"

definition pkt_of_activation :: "u32 \<Rightarrow> byte" where
  "pkt_of_activation v =
     (if v = 0 then QWDS_PKT_DATA_UNKNOW else if v = 1 then QWDS_PKT_DATA_CONNECTED else QWDS_PKT_DATA_DISCONNECTED)"

definition requestQueryDataCall :: "byte list \<Rightarrow> mbim \<Rightarrow> (int \<times> byte \<times> mbim) option" where
  "requestQueryDataCall junk s = do {
     (ret, s) \<leftarrow> mbim_query_connect junk (mbim_sessionID s) s;
     Some (ret, if ret \<noteq> 0 then QWDS_PKT_DATA_DISCONNECTED else pkt_of_activation (ActivationState s), s) }"

definition requestDeactivateDefaultPDP :: "mbim \<Rightarrow> (int \<times> mbim) option" where
  "requestDeactivateDefaultPDP s = mbim_set_connect 0 (mbim_sessionID s) s"

definition requestGetIPAddress :: "byte list \<Rightarrow> PROFILE_T \<Rightarrow> mbim \<Rightarrow> (int \<times> PROFILE_T \<times> mbim) option" where
  "requestGetIPAddress junk p s = mbim_ip_config junk (mbim_sessionID s) p s"

text \<open>
  A QMI message inside an MBIM command; \<open>ok\<close> is the outcome of the write to the socket. The client
  number of the message is changed in place before it is sent.
\<close>

definition qmi_over_mbim_qmidev_send :: "bool \<Rightarrow> byte list \<Rightarrow> mbim \<Rightarrow> (int \<times> byte list \<times> mbim) option" where
  "qmi_over_mbim_qmidev_send ok q s = do {
     l \<leftarrow> rd16 q 1;
     ty \<leftarrow> rd8 q 4;
     let q = (if ty = QMUX_TYPE_NAS then q[5 := qmi_over_mbim_nas s] else q);
     cid \<leftarrow> (if ty = QMUX_TYPE_CTL then Some 1 else rd8 q 5);
     if cid = 0 then Some (- ENODEV, q, s)
     else do {
       b \<leftarrow> rdn q 0 (unat l + 1);
       (req, s) \<leftarrow> compose_qmi_over_mbim_command 1 MBIM_CID_CMD_TYPE_SET (Some b) (unat l + 1) s;
       t \<leftarrow> mbim_send_command req s;
       mbim_check_err (\<lambda>e s. (e, q, s)) t (\<lambda>m s. do {
         n \<leftarrow> rd32 m 44;
         if n = 0 then Some (-1, q, s)
         else do {
           b \<leftarrow> rdn m 48 (unat n);
           Some (if ok then 0 else -1, q, if ok then s\<lparr>mb_qmi := mb_qmi s @ [b]\<rparr> else s) } }) } }"

section \<open>Identifiers are read back\<close>

lemma hex_lower_char:
  assumes "n < 16"
  shows "digit_val (hex_lower n) = n" "\<not> isspace (hex_lower n)" "hex_lower n \<noteq> CHR ''x''" "hex_lower n \<noteq> CHR ''X''" "tolower (hex_lower n) = hex_lower n"
proof -
  have c: "(of_char (hex_lower n) :: nat) = (if n < 10 then 48 + n else 87 + n)" using assms by (simp add: hex_lower_def of_char_of)
  then show "digit_val (hex_lower n) = n" using assms by (simp add: digit_val_def Let_def)
  have ne: "hex_lower n \<noteq> c" if "(of_char c :: nat) < 48 \<or> 57 < (of_char c :: nat) \<and> (of_char c :: nat) < 97 \<or> 102 < (of_char c :: nat)" for c
    using that c assms by (auto split: if_splits)
  then show "hex_lower n \<noteq> CHR ''x''" "hex_lower n \<noteq> CHR ''X''" by simp_all
  show "\<not> isspace (hex_lower n)" using c by (auto simp: isspace_def split: if_splits)
  show "tolower (hex_lower n) = hex_lower n" using c assms by (auto simp: tolower_def)
qed

lemma hex02_digits: "unat (b :: byte) div 16 < 16" "unat (b :: byte) mod 16 < 16"
  using unat_byte_less [of b] by (simp_all add: less_mult_imp_div_less)

lemma scan_X2_hex02: "scan_X2 (hex02 b @ r) = Some (uint b, r)"
proof -
  have "int (16 * (unat b div 16) + unat b mod 16) = uint b" by (simp only: mult_div_mod_eq) simp
  then show ?thesis
    using hex02_digits [of b] hex_lower_char [OF hex02_digits(1) [of b]] hex_lower_char [OF hex02_digits(2) [of b]]
    by (simp add: scan_X2_def hex02_def del: of_nat_add of_nat_mult)
qed

lemma tolower_uuid: "map tolower (print_uuid f d) = print_uuid f d"
proof (induction f d rule: print_uuid.induct)
  case (2 f b d)
  then show ?case using hex_lower_char(5) [OF hex02_digits(1) [of b]] hex_lower_char(5) [OF hex02_digits(2) [of b]] by (simp add: hex02_def)
qed (simp_all add: tolower_def)

lemma scan_print_uuid: "length (filter id f) = length d \<Longrightarrow> scan_uuid f (print_uuid f d) = map uint d"
  by (induction f d rule: print_uuid.induct) (simp_all add: scan_X2_hex02)

lemma length_print_uuid: "length (filter id f) = length d \<Longrightarrow> length (print_uuid f d) = length f + length d"
  by (induction f d rule: print_uuid.induct) (simp_all add: hex02_def)

lemma str2uuid_uuid2str:
  assumes "length d = 16"
  shows "str2uuid (uuid2str d) = Some d"
proof -
  have f: "length (filter id uuid_fmt) = length d" "length uuid_fmt = 20" using assms by (simp_all add: uuid_fmt_def)
  have "map (word_of_int \<circ> uint) d = d" by (induction d) simp_all
  then show ?thesis
    using assms scan_print_uuid [OF f(1)] length_print_uuid [OF f(1)] f(2) by (simp add: str2uuid_def uuid2str_def tolower_uuid)
qed

lemma str2uuid_length: "str2uuid s = Some u \<Longrightarrow> length u = 16"
  by (auto simp: str2uuid_def Let_def split: if_splits)

lemma str2uuid_tolower:
  assumes "map tolower a = map tolower b"
  shows "str2uuid a = str2uuid b"
proof -
  have "length a = length b" using arg_cong [OF assms, of length] by simp
  then show ?thesis using assms by (simp add: str2uuid_def)
qed

text \<open>
  The text of a 16 byte identifier is read back as the identifier, and a text that the
  case-insensitive comparison takes for that of an identifier is converted to this identifier: the
  two ways in which the services of the modem are recognised agree.
\<close>

theorem uuid_roundtrip:
  assumes "length d = 16"
  shows "str2uuid (uuid2str d) = Some d \<and> (strcasecmp_eq x (uuid2str d) \<longrightarrow> str2uuid x = Some d)"
  using str2uuid_uuid2str [OF assms] str2uuid_tolower [of x "uuid2str d"] by (simp add: strcasecmp_eq_def)

lemma uuid_roundtrip_witness:
  "str2uuid (uuid2str (replicate 16 0xAB)) = Some (replicate 16 0xAB) \<and>
   str2uuid ''ABABABAB-ABAB-ABAB-ABAB-ABABABABABAB'' = Some (replicate 16 0xAB)"
proof -
  have s: "strcasecmp_eq ''ABABABAB-ABAB-ABAB-ABAB-ABABABABABAB'' (uuid2str (replicate 16 0xAB))" by code_simp
  have l: "length (replicate 16 0xAB :: byte list) = 16" by simp
  from uuid_roundtrip [OF l, of "''ABABABAB-ABAB-ABAB-ABAB-ABABABABABAB''"] s show ?thesis by blast
qed

section \<open>Messages of a proxy\<close>

definition whole :: "byte list \<Rightarrow> bool" where
  "whole m \<longleftrightarrow> 12 \<le> length m \<and> length m \<le> 4096 \<and> unat (fld32 m 4) = length m"

lemma fld32_take: "i + 4 \<le> n \<Longrightarrow> fld32 (take n b) i = fld32 b i"
  by (simp add: fld32_def fld8_take)

lemma fld32_append1: "i + 4 \<le> length a \<Longrightarrow> fld32 (a @ b) i = fld32 a i"
  by (simp add: fld32_def)

lemma mbim_proxy_read_whole: "whole m \<Longrightarrow> mbim_proxy_read 4096 (m @ r) = (m, r)"
  by (simp add: mbim_proxy_read_def whole_def Let_def fld32_take fld32_append1)

interpretation mstream: framing id whole id "\<lambda>bs. if bs = [] then None else Some (mbim_proxy_read 4096 bs)" "\<lambda>bs. Some (mbim_proxy_messages bs)"
proof (unfold_locales, goal_cases)
  case (1 x rest)
  then have "x \<noteq> []" by (auto simp: whole_def)
  with 1 show ?case by (simp add: mbim_proxy_read_whole)
next
  case 2
  then show ?case by (simp add: mbim_proxy_messages.simps)
next
  case (3 bs y rest)
  then show ?case by (subst mbim_proxy_messages.simps) (auto split: if_splits)
qed

text \<open>
  Whatever messages a proxy writes into the stream, the reader takes the same messages out of
  it, one by one: their stated lengths delimit them.
\<close>

theorem proxy_stream_roundtrip:
  assumes "list_all whole ms"
  shows "mbim_proxy_messages (concat ms) = ms"
  using mstream.run_concat [OF assms] by (simp add: comp_def)

lemma proxy_stream_roundtrip_witness:
  "mbim_proxy_messages (concat [le32_bytes 1 @ le32_bytes 12 @ le32_bytes 7, le32_bytes 2 @ le32_bytes 16 @ le32_bytes 8 @ le32_bytes 0]) =
     [le32_bytes 1 @ le32_bytes 12 @ le32_bytes 7, le32_bytes 2 @ le32_bytes 16 @ le32_bytes 8 @ le32_bytes 0]"
  by (rule proxy_stream_roundtrip) (simp add: whole_def fld32_def fld8_def le32_bytes_def le32_of_def)


section \<open>Commands and answers\<close>

definition basic_uuid :: "byte list" where
  "basic_uuid = [0xa2, 0x89, 0xcc, 0x33, 0xbc, 0xbb, 0x8b, 0x4f, 0xb6, 0xb0, 0x13, 0x3e, 0xc2, 0xaa, 0xe6, 0xdf]"

lemma str2uuid_basic [simp]: "str2uuid UUID_BASIC_CONNECT = Some basic_uuid"
  by code_simp

lemma length_basic_uuid [simp]: "length basic_uuid = 16"
  by (simp add: basic_uuid_def)

text \<open>What an indication that lies complete in the buffer makes the reader tell the main thread.\<close>

definition reported :: "mbim \<Rightarrow> byte list \<Rightarrow> int list" where
  "reported s m =
     (if fld32 m 0 \<noteq> MBIM_INDICATE_STATUS_MSG \<or> take 16 (drop 20 m) \<noteq> basic_uuid then []
      else if fld32 m 36 = MBIM_CID_SUBSCRIBER_READY_STATUS \<and> fld32 m 44 \<noteq> oldReadyState s \<or>
              fld32 m 36 = MBIM_CID_REGISTER_STATE \<and> fld32 m 48 \<noteq> oldRegisterState s \<or>
              fld32 m 36 = MBIM_CID_PACKET_SERVICE \<and> fld32 m 48 \<noteq> oldPacketServiceState s
      then [RIL_UNSOL_RESPONSE_VOICE_NETWORK_STATE_CHANGED]
      else if fld32 m 36 = MBIM_CID_CONNECT \<and> fld32 m 44 = word_of_int (mbim_sessionID s) \<and> fld32 m 48 \<noteq> oldActivationState s
      then [RIL_UNSOL_DATA_CALL_LIST_CHANGED] else [])"

lemma reported_cong:
  assumes "oldReadyState t = oldReadyState s" "oldRegisterState t = oldRegisterState s" "oldPacketServiceState t = oldPacketServiceState s"
    and "oldActivationState t = oldActivationState s" "mbim_sessionID t = mbim_sessionID s"
  shows "reported t = reported s"
  unfolding reported_def assms ..

definition complete :: "byte list \<Rightarrow> bool" where
  "complete m \<longleftrightarrow> whole m \<and> (fld32 m 0 = MBIM_INDICATE_STATUS_MSG \<longrightarrow> 52 \<le> length m)"

definition answers :: "byte list \<Rightarrow> byte list \<Rightarrow> bool" where
  "answers req m \<longleftrightarrow> h_TransactionId m = h_TransactionId req"

definition mb_ready :: "mbim \<Rightarrow> bool" where
  "mb_ready s \<longleftrightarrow> mbim_open s \<and> s_tid_reader s \<and> length (cm_recv_buf s) = 4096"

lemmas id_consts = MBIM_CID_SUBSCRIBER_READY_STATUS_def MBIM_CID_REGISTER_STATE_def MBIM_CID_PACKET_SERVICE_def MBIM_CID_CONNECT_def

lemma indication_eq: "mb_indication m s = s\<lparr>mb_main := mb_main s @
   (if fld32 m 36 = MBIM_CID_SUBSCRIBER_READY_STATUS \<and> fld32 m 44 \<noteq> oldReadyState s \<or>
       fld32 m 36 = MBIM_CID_REGISTER_STATE \<and> fld32 m 48 \<noteq> oldRegisterState s \<or>
       fld32 m 36 = MBIM_CID_PACKET_SERVICE \<and> fld32 m 48 \<noteq> oldPacketServiceState s
    then [RIL_UNSOL_RESPONSE_VOICE_NETWORK_STATE_CHANGED]
    else if fld32 m 36 = MBIM_CID_CONNECT \<and> fld32 m 44 = word_of_int (mbim_sessionID s) \<and> fld32 m 48 \<noteq> oldActivationState s
    then [RIL_UNSOL_DATA_CALL_LIST_CHANGED] else [])\<rparr>"
proof -
  consider "fld32 m 36 = MBIM_CID_SUBSCRIBER_READY_STATUS" | "fld32 m 36 = MBIM_CID_REGISTER_STATE" | "fld32 m 36 = MBIM_CID_PACKET_SERVICE"
    | "fld32 m 36 = MBIM_CID_CONNECT"
    | "fld32 m 36 \<noteq> MBIM_CID_SUBSCRIBER_READY_STATUS" "fld32 m 36 \<noteq> MBIM_CID_REGISTER_STATE" "fld32 m 36 \<noteq> MBIM_CID_PACKET_SERVICE"
      "fld32 m 36 \<noteq> MBIM_CID_CONNECT"
    by blast
  then show ?thesis by cases (auto simp: mb_indication_def mb_event_def id_consts)
qed

lemma indication_reported:
  assumes "complete d" "fld32 d 0 = MBIM_INDICATE_STATUS_MSG"
  shows "(if take 16 (drop 20 (d @ b)) = basic_uuid then mb_indication (d @ b) s else s) = s\<lparr>mb_main := mb_main s @ reported s d\<rparr>"
proof -
  have l: "52 \<le> length d" using assms by (simp add: complete_def)
  have u: "take 16 (drop 20 (d @ b)) = take 16 (drop 20 d)" using l by simp
  have f: "fld32 (d @ b) i = fld32 d i" if "i + 4 \<le> 52" for i using that l by (intro fld32_append1) simp
  have f3: "fld32 (d @ b) 36 = fld32 d 36" "fld32 (d @ b) 44 = fld32 d 44" "fld32 (d @ b) 48 = fld32 d 48" by (rule f; simp)+
  show ?thesis unfolding indication_eq f3 u using assms(2) by (simp add: reported_def)
qed

lemma recv_whole:
  assumes "complete d" "mb_ready s"
  shows "\<exists>b. length b = 4096 \<and> mbim_reader (Msg d) s =
     (if \<exists>q. mbim_pRequest s = Some q \<and> answers q d then Some (True, s\<lparr>cm_recv_buf := b, mbim_pResponse := Some d\<rparr>)
      else Some (False, s\<lparr>cm_recv_buf := b, mb_main := mb_main s @ reported s d\<rparr>))"
proof -
  let ?b = "d @ drop (length d) (cm_recv_buf s)"
  have w: "12 \<le> length d" "length d \<le> 4096" "unat (fld32 d 4) = length d" using assms(1) by (auto simp: complete_def whole_def)
  then have l: "length ?b = 4096" "d \<noteq> []" using assms(2) by (auto simp: mb_ready_def)
  have f: "fld32 ?b i = fld32 d i" if "i + 4 \<le> 12" for i using that w by (intro fld32_append1) simp
  have "mbim_reader (Msg d) s = mbim_recv_command (s\<lparr>cm_recv_buf := ?b\<rparr>)" using assms(2) w l(2) by (simp add: mb_ready_def)
  moreover have "reported (s\<lparr>cm_recv_buf := ?b\<rparr>) d = reported s d" by (simp add: reported_def)
  moreover have "fld32 d 0 \<noteq> MBIM_INDICATE_STATUS_MSG \<Longrightarrow> reported s d = []" by (simp add: reported_def)
  ultimately show ?thesis
    using l(1) w f indication_reported [OF assms(1), of "drop (length d) (cm_recv_buf s)" "s\<lparr>cm_recv_buf := ?b\<rparr>"] assms(2)
    by (intro exI [of _ ?b])
      (auto simp: mbim_recv_command_def h_TransactionId_def answers_def mb_ready_def Let_def split: option.splits)
qed

lemma read_all_whole:
  "list_all complete ms \<Longrightarrow> mb_ready s \<Longrightarrow> \<exists>b. length b = 4096 \<and>
   mbim_read_all (map Msg ms) sig s = Some (sig \<or> (\<exists>q. mbim_pRequest s = Some q \<and> list_ex (answers q) ms),
     s\<lparr>cm_recv_buf := b,
       mbim_pResponse := (case mbim_pRequest s of None \<Rightarrow> mbim_pResponse s
          | Some q \<Rightarrow> if list_ex (answers q) ms then Some (last (filter (answers q) ms)) else mbim_pResponse s),
       mb_main := mb_main s @ concat (map (reported s) (filter (\<lambda>m. \<not> (\<exists>q. mbim_pRequest s = Some q \<and> answers q m)) ms))\<rparr>)"
proof (induction ms arbitrary: s sig)
  case Nil
  then show ?case by (intro exI [of _ "cm_recv_buf s"]) (auto simp: mb_ready_def split: option.splits)
next
  case (Cons m ms)
  from recv_whole [of m s] Cons.prems obtain b where b: "length b = 4096" "mbim_reader (Msg m) s =
     (if \<exists>q. mbim_pRequest s = Some q \<and> answers q m then Some (True, s\<lparr>cm_recv_buf := b, mbim_pResponse := Some m\<rparr>)
      else Some (False, s\<lparr>cm_recv_buf := b, mb_main := mb_main s @ reported s m\<rparr>))" by auto
  let ?t = "if \<exists>q. mbim_pRequest s = Some q \<and> answers q m then s\<lparr>cm_recv_buf := b, mbim_pResponse := Some m\<rparr>
      else s\<lparr>cm_recv_buf := b, mb_main := mb_main s @ reported s m\<rparr>"
  have t: "mb_ready ?t" "mbim_pRequest ?t = mbim_pRequest s" using Cons.prems b(1) by (auto simp: mb_ready_def)
  have r: "reported ?t = reported s" by (rule reported_cong) (simp_all split: if_split)
  have "list_all complete ms" using Cons.prems by simp
  from Cons.IH [OF this t(1), of "sig \<or> (\<exists>q. mbim_pRequest s = Some q \<and> answers q m)"] obtain c where
    c: "length c = 4096" "mbim_read_all (map Msg ms) (sig \<or> (\<exists>q. mbim_pRequest s = Some q \<and> answers q m)) ?t =
      Some ((sig \<or> (\<exists>q. mbim_pRequest s = Some q \<and> answers q m)) \<or> (\<exists>q. mbim_pRequest ?t = Some q \<and> list_ex (answers q) ms),
     ?t\<lparr>cm_recv_buf := c,
       mbim_pResponse := (case mbim_pRequest ?t of None \<Rightarrow> mbim_pResponse ?t
          | Some q \<Rightarrow> if list_ex (answers q) ms then Some (last (filter (answers q) ms)) else mbim_pResponse ?t),
       mb_main := mb_main ?t @ concat (map (reported ?t) (filter (\<lambda>m. \<not> (\<exists>q. mbim_pRequest ?t = Some q \<and> answers q m)) ms))\<rparr>)" by blast
  have ne: "filter (answers q) ms = [] \<longleftrightarrow> \<not> list_ex (answers q) ms" for q by (auto simp: filter_empty_conv list_ex_iff)
  show ?case
  proof (cases "\<exists>q. mbim_pRequest s = Some q \<and> answers q m")
    case True
    then obtain q where "mbim_pRequest s = Some q" "answers q m" by blast
    then show ?thesis using b c r ne by (intro exI [of _ c]) simp
  next
    case False
    then show ?thesis using b c r by (intro exI [of _ c]) (cases "mbim_pRequest s"; simp)
  qed
qed

lemma send_complete:
  assumes "mb_ready s" "mb_exchanges s = x # xs" "mx_before x = []" "mx_write x = None" "mx_recv x = map Msg ms" "list_all complete ms"
    and "12 \<le> length req" "(q, t) = renumber req s"
  shows "\<exists>b. length b = 4096 \<and> mbim_send_command req s =
     (let hits = filter (answers q) ms in
      Some (if hits = [] then ETIMEDOUT else 0, if hits = [] then None else Some (last hits),
        t\<lparr>cm_recv_buf := b, mbim_pRequest := None, mbim_pResponse := None, mb_exchanges := xs, mb_device := mb_device s @ [q],
          mb_main := mb_main s @ concat (map (reported s) (filter (\<lambda>m. \<not> answers q m) ms))\<rparr>))"
proof -
  let ?s = "s\<lparr>mb_exchanges := xs\<rparr>"
  let ?t = "t\<lparr>mb_exchanges := xs, mbim_pRequest := Some q, mbim_pResponse := None, mb_device := mb_device s @ [q]\<rparr>"
  have r: "renumber req ?s = (q, t\<lparr>mb_exchanges := xs\<rparr>)" "mb_device t = mb_device s" "mb_main t = mb_main s" "mb_ready ?t" "0 < length q"
    using assms(1,7,8) by (auto simp: renumber_def mb_ready_def set_TransactionId_def split: if_splits)
  have rep: "reported ?t = reported s" using assms(8) by (intro reported_cong) (auto simp: renumber_def split: if_splits)
  from read_all_whole [OF assms(6) r(4), of False] obtain b where
    b: "length b = 4096" "mbim_read_all (map Msg ms) False ?t = Some (list_ex (answers q) ms,
      ?t\<lparr>cm_recv_buf := b, mbim_pResponse := if list_ex (answers q) ms then Some (last (filter (answers q) ms)) else None,
        mb_main := mb_main s @ concat (map (reported s) (filter (\<lambda>m. \<not> answers q m) ms))\<rparr>)"
    unfolding rep using r(3) by auto
  have ne: "filter (answers q) ms = [] \<longleftrightarrow> \<not> list_ex (answers q) ms" by (auto simp: filter_empty_conv list_ex_iff)
  have "mb_next s = x" using assms(2) by (simp add: mb_next_def)
  then show ?thesis
    using assms(1-5) r(1,2,5) b by (intro exI [of _ b]) (simp add: mbim_send_command_def mb_ready_def ne)
qed

text \<open>
  C17. A command that reaches the device returns the message that carries its transaction id, the
  last one if there are several, and times out when none came. Every other message received
  during the wait is looked at once, in order: an indication of the basic service whose state
  differs from the last known one is reported to the main thread. Nothing else changes.
\<close>

theorem send_command_answer:
  assumes "mb_ready s" "mb_exchanges s = x # xs" "mx_before x = []" "mx_write x = None" "mx_recv x = map Msg ms" "list_all complete ms"
    and "12 \<le> length req" "(q, t) = renumber req s"
  shows "\<exists>b. length b = 4096 \<and> mbim_send_command req s =
     (let hits = filter (answers q) ms in
      Some (if hits = [] then ETIMEDOUT else 0, if hits = [] then None else Some (last hits),
        t\<lparr>cm_recv_buf := b, mbim_pRequest := None, mbim_pResponse := None, mb_exchanges := xs, mb_device := mb_device s @ [q],
          mb_main := mb_main s @ concat (map (reported s) (filter (\<lambda>m. \<not> answers q m) ms))\<rparr>))"
  using assms by (rule send_complete)


section \<open>The invariant of the back-end\<close>

text \<open>
  The reader can only answer, report, or stop: what it leaves alone.
\<close>

lemma reader_frame:
  assumes "mbim_reader r s = Some (sig, t)"
  obtains b a ev up run where "t = s\<lparr>cm_recv_buf := b, mbim_pResponse := a, mb_main := mb_main s @ ev, mbim_open := up, s_tid_reader := run\<rparr>"
    "up \<Longrightarrow> mbim_open s" "run \<Longrightarrow> s_tid_reader s" "length (cm_recv_buf s) = 4096 \<Longrightarrow> length b = 4096"
proof (cases "s_tid_reader s")
  case False
  then have "t = s" using assms by (cases r) simp_all
  then show ?thesis by (intro that [where b = "cm_recv_buf s" and a = "mbim_pResponse s" and ev = "[]" and up = "mbim_open s" and run = "s_tid_reader s"]) simp_all
next
  case True
  show ?thesis
  proof (cases r)
    case Gone
    then show ?thesis using assms True
      by (intro that [where b = "cm_recv_buf s" and a = "mbim_pResponse s" and ev = "[RIL_INDICATE_DEVICE_DISCONNECTED]" and up = False and run = False])
        (auto simp: mbim_read_quit_def mb_event_def intro!: mbim.equality)
  next
    case (Msg d)
    let ?b = "if d = [] then cm_recv_buf s else take 4096 d @ drop (length d) (cm_recv_buf s)"
    have "\<exists>a ev. t = s\<lparr>cm_recv_buf := ?b, mbim_pResponse := a, mb_main := mb_main s @ ev\<rparr>"
    proof (cases "d = []")
      case True
      then show ?thesis using assms Msg by (intro exI [of _ "mbim_pResponse s"] exI [of _ "[]"]) simp
    next
      case False
      have "\<exists>ev. mb_indication ?b (s\<lparr>cm_recv_buf := ?b\<rparr>) = s\<lparr>cm_recv_buf := ?b, mb_main := mb_main s @ ev\<rparr>"
        unfolding indication_eq by (rule exI) simp
      then obtain ev where ev: "mb_indication ?b (s\<lparr>cm_recv_buf := ?b\<rparr>) = s\<lparr>cm_recv_buf := ?b, mb_main := mb_main s @ ev\<rparr>" by blast
      have "t = s\<lparr>cm_recv_buf := ?b, mbim_pResponse := Some (take (unat (fld32 ?b 4)) ?b)\<rparr> \<or> t = s\<lparr>cm_recv_buf := ?b\<rparr> \<or>
          t = s\<lparr>cm_recv_buf := ?b, mb_main := mb_main s @ ev\<rparr>"
        using assms Msg True False ev by (auto simp: mbim_recv_command_def Let_def split: if_splits option.splits)
      then show ?thesis
      proof (elim disjE)
        assume "t = s\<lparr>cm_recv_buf := ?b, mbim_pResponse := Some (take (unat (fld32 ?b 4)) ?b)\<rparr>"
        then show ?thesis by (intro exI [of _ "Some (take (unat (fld32 ?b 4)) ?b)"] exI [of _ "[]"]) simp
      next
        assume "t = s\<lparr>cm_recv_buf := ?b\<rparr>"
        then show ?thesis by (intro exI [of _ "mbim_pResponse s"] exI [of _ "[]"]) simp
      next
        assume "t = s\<lparr>cm_recv_buf := ?b, mb_main := mb_main s @ ev\<rparr>"
        then show ?thesis by (intro exI [of _ "mbim_pResponse s"] exI [of _ ev]) simp
      qed
    qed
    then obtain a ev where t: "t = s\<lparr>cm_recv_buf := ?b, mbim_pResponse := a, mb_main := mb_main s @ ev\<rparr>" by blast
    then show ?thesis using True
      by (intro that [where b = ?b and a = a and ev = ev and up = "mbim_open s" and run = "s_tid_reader s"]) auto
  qed
qed

definition ids_ok :: "mbim \<Rightarrow> bool" where
  "ids_ok s \<longleftrightarrow> (\<forall>m \<in> set (mb_device s). 1 \<le> h_TransactionId m \<and> h_TransactionId m < 0x1000000) \<and>
     (mbim_open s \<and> s_tid_reader s \<longrightarrow> 1 \<le> TransactionId s \<and> TransactionId s \<le> 0x1000000)"

definition states_known :: "mbim \<Rightarrow> bool" where
  "states_known s \<longleftrightarrow> oldReadyState s = ReadyState s \<and> oldRegisterState s = RegisterState s \<and>
     oldPacketServiceState s = PacketServiceState s \<and> oldActivationState s = ActivationState s"

definition mb_inv :: "mbim \<Rightarrow> bool" where
  "mb_inv s \<longleftrightarrow> ids_ok s \<and> states_known s \<and> mbim_pRequest s = None \<and> length (cm_recv_buf s) = 4096"

lemma read_all_frame:
  assumes "mbim_read_all rs sig s = Some (sig', t)"
  shows "mb_device t = mb_device s \<and> TransactionId t = TransactionId s \<and> mbim_pRequest t = mbim_pRequest s \<and>
    (mbim_open t \<longrightarrow> mbim_open s) \<and> (s_tid_reader t \<longrightarrow> s_tid_reader s) \<and> states_known t = states_known s \<and>
    (length (cm_recv_buf s) = 4096 \<longrightarrow> length (cm_recv_buf t) = 4096)"
  using assms
proof (induction rs arbitrary: sig s)
  case (Cons r rs)
  then obtain sg u where u: "mbim_reader r s = Some (sg, u)" "mbim_read_all rs (sig \<or> sg) u = Some (sig', t)"
    by (auto simp: bind_eq_Some_conv)
  from u(1) obtain b a ev up run where f: "u = s\<lparr>cm_recv_buf := b, mbim_pResponse := a, mb_main := mb_main s @ ev, mbim_open := up, s_tid_reader := run\<rparr>"
    "up \<Longrightarrow> mbim_open s" "run \<Longrightarrow> s_tid_reader s" "length (cm_recv_buf s) = 4096 \<Longrightarrow> length b = 4096" by (rule reader_frame) blast
  from Cons.IH [OF u(2)] f(2-4) show ?case unfolding f(1) by (auto simp: states_known_def)
qed simp

lemma tid_step:
  fixes i :: u32
  assumes "1 \<le> i" "i \<le> 0x1000000" "i \<noteq> 0x1000000"
  shows "i < 0x1000000" "1 \<le> i + 1" "i + 1 \<le> 0x1000000"
proof -
  have n: "1 \<le> unat i" "unat i < 16777216" using assms by (auto simp: word_le_nat_alt word_unat_eq_iff)
  then have "unat (i + 1) = unat i + 1" by (simp add: unat_word_ariths)
  with n show "i < 0x1000000" "1 \<le> i + 1" "i + 1 \<le> 0x1000000" by (simp_all add: word_le_nat_alt word_less_nat_alt)
qed

lemma h_TransactionId_set: "12 \<le> length m \<Longrightarrow> h_TransactionId (set_TransactionId t m) = t"
  by (simp add: h_TransactionId_def set_TransactionId_def fld32_def le32_bytes_def) (simp add: fld8_def le32_of_le32_bytes)

lemma send_inv:
  assumes "mb_inv s" "h_TransactionId req = TransactionId s" "12 \<le> length req"
    and "mbim_send_command req (s\<lparr>TransactionId := TransactionId s + 1\<rparr>) = Some (err, rsp, t)"
  shows "mb_inv t"
proof -
  let ?x = "mb_next s" and ?s = "s\<lparr>TransactionId := TransactionId s + 1, mb_exchanges := tl (mb_exchanges s)\<rparr>"
  have nx: "mb_next (s\<lparr>TransactionId := TransactionId s + 1\<rparr>) = ?x" by (simp add: mb_next_def)
  obtain sg u where u: "mbim_read_all (mx_before ?x) False ?s = Some (sg, u)"
    using assms(4) by (auto simp: mbim_send_command_def nx bind_eq_Some_conv Let_def)
  note fu = read_all_frame [OF u]
  show ?thesis
  proof (cases "mbim_open u \<and> s_tid_reader u")
    case False
    then have "t = u" using assms(4) u by (auto simp: mbim_send_command_def nx bind_eq_Some_conv Let_def split: if_splits)
    then show ?thesis using False fu assms(1) by (auto simp: mb_inv_def ids_ok_def states_known_def)
  next
    case True
    obtain q v where q: "renumber req u = (q, v)" by fastforce
    have id: "1 \<le> TransactionId s" "TransactionId s \<le> 0x1000000" using True fu assms(1) by (auto simp: mb_inv_def ids_ok_def)
    have v: "mb_device v = mb_device s" "mbim_pRequest v = None" "states_known v" "length (cm_recv_buf v) = 4096"
        "mbim_open v" "s_tid_reader v"
      using q fu assms(1) True by (auto simp: renumber_def mb_inv_def states_known_def split: if_splits)
    have qid: "1 \<le> h_TransactionId q" "h_TransactionId q < 0x1000000" "1 \<le> TransactionId v" "TransactionId v \<le> 0x1000000"
      using q fu assms(2,3) id tid_step [OF id] h_TransactionId_set [OF assms(3), of 1] by (auto simp: renumber_def split: if_splits)
    have iv: "mb_inv v" using v qid assms(1) by (auto simp: mb_inv_def ids_ok_def)
    show ?thesis
    proof (cases "(case mx_write ?x of None \<Rightarrow> int (length q) | Some r \<Rightarrow> r) > 0 \<and> (case mx_write ?x of None \<Rightarrow> int (length q) | Some r \<Rightarrow> r) = int (length q)")
      case False
      then have "t = v\<lparr>mbim_pRequest := None, mbim_pResponse := None\<rparr>"
        using assms(4) u True q by (auto simp: mbim_send_command_def nx Let_def)
      then show ?thesis using iv by (simp add: mb_inv_def ids_ok_def states_known_def)
    next
      case sent: True
      let ?v = "v\<lparr>mbim_pRequest := Some q, mbim_pResponse := None, mb_device := mb_device v @ [q]\<rparr>"
      obtain sg' w where w: "mbim_read_all (mx_recv ?x) False ?v = Some (sg', w)" "t = w\<lparr>mbim_pRequest := None, mbim_pResponse := None\<rparr>"
        using assms(4) u True q sent by (auto simp: mbim_send_command_def nx Let_def bind_eq_Some_conv)
      from read_all_frame [OF w(1)] show ?thesis
        using v qid iv w(2) by (auto simp: mb_inv_def ids_ok_def states_known_def)
    qed
  qed
qed


text \<open>Rules for the queries: what holds of every result.\<close>

lemma pred_bind: "(\<And>y. x = Some y \<Longrightarrow> pred_option Q (f y)) \<Longrightarrow> pred_option Q (Option.bind x f)"
  by (cases x) simp_all

lemma check_err_inv:
  assumes "mb_inv s" "\<And>e s. mb_inv s \<Longrightarrow> Q (ret e s)" "\<And>m s. mb_inv s \<Longrightarrow> pred_option Q (k m s)"
  shows "pred_option Q (mbim_check_err ret (err, rsp, s) k)"
proof (cases rsp)
  case None
  then show ?thesis using assms by (simp add: mbim_check_err_def)
next
  case (Some m)
  have "mb_inv t" if "mbim_status_code m s = Some (c, t)" for c t
    using that assms(1) by (auto simp: mbim_status_code_def bind_eq_Some_conv mb_inv_def ids_ok_def states_known_def split: if_splits)
  then show ?thesis using Some assms(2,3) by (auto simp: mbim_check_err_def intro!: pred_bind)
qed

lemma compose_inv:
  assumes "mb_inv s" "mbim_send_command req (s\<lparr>TransactionId := TransactionId s + 1\<rparr>) = Some t" "h_TransactionId req = TransactionId s" "12 \<le> length req"
    and "\<And>e s. mb_inv s \<Longrightarrow> Q (ret e s)" "\<And>m s. mb_inv s \<Longrightarrow> pred_option Q (k m s)"
  shows "pred_option Q (mbim_check_err ret t k)"
proof -
  obtain err rsp u where t: "t = (err, rsp, u)" by (cases t)
  with send_inv [OF assms(1,3,4)] assms(2) have "mb_inv u" by blast
  with check_err_inv [of u Q ret k] assms(5,6) t show ?thesis by blast
qed

lemma compose_command_id:
  assumes "length uuid = 16"
  shows "snd (compose_command uuid cid ty info n s) = s\<lparr>TransactionId := TransactionId s + 1\<rparr>"
    and "h_TransactionId (fst (compose_command uuid cid ty info n s)) = TransactionId s"
    and "48 \<le> length (fst (compose_command uuid cid ty info n s))"
  using assms by (auto simp: compose_command_def h_TransactionId_def fld32_def fld8_def le32_bytes_def le32_of_le32_bytes split: option.split)

lemma set_service_id:
  assumes "set_service u m = Some r" "48 \<le> length m"
  shows "h_TransactionId r = h_TransactionId m" "length r = length m"
proof -
  from assms obtain b where b: "length b = 16" "r = take 20 m @ b @ drop 36 m"
    by (auto simp: set_service_def bind_eq_Some_conv dest: str2uuid_length)
  show "h_TransactionId r = h_TransactionId m" using assms(2) by (simp add: b(2) h_TransactionId_def fld32_append1 fld32_take)
  show "length r = length m" using assms(2) b by simp
qed

lemma basic_command_inv [inv_intros]:
  assumes "mb_inv s" "\<And>e s. mb_inv s \<Longrightarrow> Q (ret e s)" "\<And>m s. mb_inv s \<Longrightarrow> pred_option Q (k m s)"
  shows "pred_option Q (basic_command cid ty info ret k s)"
proof -
  let ?c = "compose_command basic_uuid cid ty (if info = [] then None else Some info) (length info) s"
  note c = compose_command_id [OF length_basic_uuid, of cid ty "if info = [] then None else Some info" "length info" s]
  have "pred_option Q (mbim_check_err ret t k)" if "mbim_send_command (fst ?c) (snd ?c) = Some t" for t
    using that c assms by (intro compose_inv [OF assms(1), of "fst ?c" t]) simp_all
  then show ?thesis by (auto simp: basic_command_def compose_basic_connect_command_def split_def intro!: pred_bind)
qed

lemma update_state_inv [inv_intros]:
  assumes "mb_inv s"
  shows "mb_inv (snd (mbim_update_state s))" "mb_inv (snd (mbim_update_state (s\<lparr>ReadyState := v\<rparr>)))"
    "mb_inv (snd (mbim_update_state (s\<lparr>RegisterState := v\<rparr>)))" "mb_inv (snd (mbim_update_state (s\<lparr>PacketServiceState := v\<rparr>)))"
    "mb_inv (snd (mbim_update_state (s\<lparr>ActivationState := v\<rparr>)))"
  using assms by (simp_all add: mbim_update_state_def mb_inv_def ids_ok_def states_known_def)

text \<open>A result with the state last, a result of two parts, and the state alone.\<close>

abbreviation inv2 :: "'a \<times> mbim \<Rightarrow> bool" where "inv2 x \<equiv> mb_inv (snd x)"
abbreviation inv3 :: "'a \<times> 'b \<times> mbim \<Rightarrow> bool" where "inv3 x \<equiv> mb_inv (snd (snd x))"

lemma state_queries_inv [inv_intros]:
  assumes "mb_inv s"
  shows "pred_option inv2 (mbim_subscriber_status_query s)" "pred_option inv2 (mbim_register_state_query s)"
    "pred_option inv2 (mbim_packet_service_query s)" "pred_option inv2 (mbim_packet_service_set a s)"
    "pred_option inv2 (mbim_set_radio_state a s)"
  unfolding mbim_subscriber_status_query_def mbim_register_state_query_def mbim_packet_service_query_def
    mbim_packet_service_set_def mbim_set_radio_state_def
  using assms by (auto intro!: inv_intros pred_bind)

lemma store_activation_inv [inv_intros]: "mb_inv s \<Longrightarrow> pred_option inv2 (store_activation m s)"
  by (auto simp: store_activation_def intro!: inv_intros pred_bind)

lemma call_inv [inv_intros]:
  assumes "mb_inv s"
  shows "pred_option inv2 (mbim_query_connect junk sid s)" "pred_option inv2 (mbim_set_connect onoff sid s)"
    "pred_option inv3 (mbim_ip_config junk sid p s)"
  unfolding mbim_query_connect_def mbim_set_connect_def mbim_ip_config_def
  using assms by (auto intro!: inv_intros pred_bind)

lemma open_close_inv [inv_intros]:
  assumes "mb_inv s"
  shows "pred_option inv2 (mbim_open_device mx s)" "pred_option inv2 (mbim_close_device s)"
proof -
  have o: "h_TransactionId (fst (compose_open_command mx s)) = TransactionId s" "12 \<le> length (fst (compose_open_command mx s))"
    "snd (compose_open_command mx s) = s\<lparr>TransactionId := TransactionId s + 1\<rparr>"
    by (simp_all add: compose_open_command_def h_TransactionId_def fld32_def fld8_def le32_bytes_def le32_of_le32_bytes)
  show "pred_option inv2 (mbim_open_device mx s)"
    unfolding mbim_open_device_def Let_def split_def o(3)
    by (rule pred_bind, rule compose_inv [OF assms _ o(1,2)]) (auto intro!: pred_bind)
  have c: "h_TransactionId (fst (compose_close_command s)) = TransactionId s" "12 \<le> length (fst (compose_close_command s))"
    "snd (compose_close_command s) = s\<lparr>TransactionId := TransactionId s + 1\<rparr>"
    by (simp_all add: compose_close_command_def h_TransactionId_def fld32_def fld8_def le32_bytes_def le32_of_le32_bytes)
  show "pred_option inv2 (mbim_close_device s)"
    unfolding mbim_close_device_def Let_def split_def c(3)
    by (rule pred_bind, rule compose_inv [OF assms _ c(1,2)]) (auto intro!: pred_bind)
qed

lemma service_command_inv:
  assumes "mb_inv s" "compose_basic_connect_command cid ty info n s = Some (req, t)" "set_service u req = Some req'"
    and "mbim_send_command (take 48 req' @ rest) t = Some r"
    and "\<And>e s. mb_inv s \<Longrightarrow> Q (ret e s)" "\<And>m s. mb_inv s \<Longrightarrow> pred_option Q (k m s)"
  shows "pred_option Q (mbim_check_err ret r k)"
proof -
  have c: "req = fst (compose_command basic_uuid cid ty info n s)" "t = snd (compose_command basic_uuid cid ty info n s)"
    using assms(2) by (simp_all add: compose_basic_connect_command_def)
  note i = compose_command_id [OF length_basic_uuid, of cid ty info n s, folded c]
  note s = set_service_id [OF assms(3) i(3)]
  have "h_TransactionId (take 48 req' @ rest) = TransactionId s" "12 \<le> length (take 48 req' @ rest)"
    using i s by (simp_all add: h_TransactionId_def fld32_append1 fld32_take)
  with compose_inv [OF assms(1), of "take 48 req' @ rest" r Q ret k] assms(4-6) i(1) show ?thesis by simp
qed

text \<open>Rules for sequences of operations with the state in the last place.\<close>

lemma seq2: "pred_option inv2 x \<Longrightarrow> (\<And>r s. mb_inv s \<Longrightarrow> pred_option Q (f (r, s))) \<Longrightarrow> pred_option Q (Option.bind x f)"
  by (cases x) auto

lemma seq3: "pred_option inv3 x \<Longrightarrow> (\<And>r p s. mb_inv s \<Longrightarrow> pred_option Q (f (r, p, s))) \<Longrightarrow> pred_option Q (Option.bind x f)"
  by (cases x) auto

lemma version_inv [inv_intros]:
  assumes "mb_inv s"
  shows "pred_option inv2 (mbim_ms_version_query s)"
proof -
  let ?k = "\<lambda>m s. do { n \<leftarrow> rd32 m 44; if n = 0 then Some (0 :: int, s) else do { v \<leftarrow> rd8 m 51; Some (0, s\<lparr>mbim_ms_version := v\<rparr>) } }"
  have "mb_inv s \<Longrightarrow> mb_inv (s\<lparr>mbim_ms_version := v\<rparr>)" for s v by (simp add: mb_inv_def ids_ok_def states_known_def)
  then have "mb_inv s \<Longrightarrow> pred_option inv2 (?k m s)" for m s by (auto intro!: pred_bind)
  then have k: "pred_option inv2 (mbim_check_err Pair r ?k)"
    if "compose_basic_connect_command cid ty info n s = Some (req, t)" "set_service u req = Some req'" "mbim_send_command req' t = Some r"
    for req t req' r cid ty info n u
    using service_command_inv [OF assms that(1,2), of "drop 48 req'" r inv2 Pair ?k] that(3) by simp
  show ?thesis
    unfolding mbim_ms_version_query_def compose_basic_connect_ext_command_def
    by (rule pred_bind) (auto simp: bind_eq_Some_conv intro!: pred_bind elim!: k)
qed

lemma services_loop_inv [inv_intros]: "mb_inv s \<Longrightarrow> pred_option inv2 (services_loop m a n v s)"
proof (induction n arbitrary: a v s)
  case (Suc n)
  have "mb_inv (s\<lparr>qmi_over_mbim_support := True\<rparr>)" using Suc.prems by (simp add: mb_inv_def ids_ok_def states_known_def)
  then show ?case using Suc by (auto simp: Let_def intro!: pred_bind)
qed simp

lemma services_inv [inv_intros]:
  assumes "mb_inv s"
  shows "pred_option inv2 (mbim_device_services_query s)"
proof -
  have loop: "pred_option inv2 (if n = 0 then Some (False, s) else do { c \<leftarrow> rd32 m 48; services_loop m 56 (unat c) False s })" if "mb_inv s" for m n s
    using that by (auto intro!: pred_bind inv_intros)
  show ?thesis
    unfolding mbim_device_services_query_def
  proof (rule basic_command_inv [OF assms], simp, rule pred_bind, rule seq2, rule loop, assumption)
    fix v2 and s :: mbim
    assume "mb_inv s"
    then show "pred_option inv2 (case (v2, s) of (v2, s) \<Rightarrow> if v2 then do { (_, s) \<leftarrow> mbim_ms_version_query s; Some (0, s) } else Some (0, s))"
      by (auto intro!: seq2 inv_intros)
  qed
qed

lemma caps_inv [inv_intros]: "mb_inv s \<Longrightarrow> pred_option inv3 (mbim_device_caps_query p s)"
  unfolding mbim_device_caps_query_def by (auto intro!: inv_intros pred_bind)

lemma configure_inv [inv_intros]:
  assumes "mb_inv s"
  shows "pred_option inv2 (mbim_proxy_configure dev s)"
proof -
  have "pred_option inv2 (mbim_check_err Pair r (\<lambda>m s. Some (0, s)))"
    if "compose_basic_connect_command cid ty info n s = Some (req, t)" "set_service u req = Some req'"
      "mbim_send_command (take 48 req' @ rest) t = Some r" for req t req' r cid ty info n rest u
    using service_command_inv [OF assms that, of inv2 Pair "\<lambda>m s. Some (0, s)"] by simp
  then show ?thesis by (auto simp: mbim_proxy_configure_def Let_def intro!: pred_bind)
qed

lemma open_loop_inv [inv_intros]: "mb_inv s \<Longrightarrow> pred_option inv2 (open_loop n ret s)"
  by (induction n arbitrary: ret s) (auto intro!: seq2 inv_intros)

lemma mbim_init_inv [inv_intros]:
  assumes "mb_inv s"
  shows "pred_option inv3 (mbim_init sk p s)" "pred_option inv2 (mbim_deinit s)"
proof -
  have sk: "mb_inv (s\<lparr>qmi_over_mbim_sk := True\<rparr>)" if "mb_inv s" for s using that by (simp add: mb_inv_def ids_ok_def states_known_def)
  show "pred_option inv3 (mbim_init sk p s)"
    unfolding mbim_init_def using assms
    by (auto intro!: seq2 seq3 inv_intros sk simp: Let_def)
  show "pred_option inv2 (mbim_deinit s)" unfolding mbim_deinit_def using assms by (auto intro!: seq2 inv_intros)
qed

lemma requests_inv [inv_intros]:
  assumes "mb_inv s"
  shows "pred_option inv3 (requestGetSIMStatus s)" "pred_option inv3 (requestRegistrationState s)"
    "pred_option inv2 (requestSetupDataCall p s)" "pred_option inv3 (requestQueryDataCall junk s)"
    "pred_option inv2 (requestDeactivateDefaultPDP s)" "pred_option inv3 (requestGetIPAddress junk p s)"
proof -
  show "pred_option inv3 (requestGetSIMStatus s)"
    unfolding requestGetSIMStatus_def using assms by (auto intro!: seq2 inv_intros simp: Let_def)
  show "pred_option inv3 (requestRegistrationState s)"
    unfolding requestRegistrationState_def using assms by (auto intro!: seq2 inv_intros simp: Let_def)
  have "mb_inv (set_call_parameters p s)" using assms by (simp add: set_call_parameters_def mb_inv_def ids_ok_def states_known_def)
  then show "pred_option inv2 (requestSetupDataCall p s)" unfolding requestSetupDataCall_def by (auto intro!: inv_intros simp: Let_def)
  show "pred_option inv3 (requestQueryDataCall junk s)" "pred_option inv2 (requestDeactivateDefaultPDP s)" "pred_option inv3 (requestGetIPAddress junk p s)"
    unfolding requestQueryDataCall_def requestDeactivateDefaultPDP_def requestGetIPAddress_def using assms
    by (auto intro!: seq2 inv_intros)
qed

text \<open>One operation that the main thread calls, in the life of one reader thread.\<close>

inductive mb_step :: "mbim \<Rightarrow> mbim \<Rightarrow> bool" where
  do_init: "mbim_init sk p s = Some (r, p', t) \<Longrightarrow> mb_step s t"
| do_deinit: "mbim_deinit s = Some (r, t) \<Longrightarrow> mb_step s t"
| do_sim: "requestGetSIMStatus s = Some (r, st, t) \<Longrightarrow> mb_step s t"
| do_reg: "requestRegistrationState s = Some (r, a, t) \<Longrightarrow> mb_step s t"
| do_setup: "requestSetupDataCall p s = Some (r, t) \<Longrightarrow> mb_step s t"
| do_query: "requestQueryDataCall junk s = Some (r, st, t) \<Longrightarrow> mb_step s t"
| do_deact: "requestDeactivateDefaultPDP s = Some (r, t) \<Longrightarrow> mb_step s t"
| do_ip: "requestGetIPAddress junk p s = Some (r, p', t) \<Longrightarrow> mb_step s t"

definition mb_start :: "mbim \<Rightarrow> bool" where
  "mb_start s \<longleftrightarrow> TransactionId s = 1 \<and> mbim_pRequest s = None \<and> length (cm_recv_buf s) = 4096 \<and> mb_device s = [] \<and>
     ReadyState s = 0 \<and> RegisterState s = 0 \<and> PacketServiceState s = 0 \<and> ActivationState s = 0 \<and>
     oldReadyState s = 0 \<and> oldRegisterState s = 0 \<and> oldPacketServiceState s = 0 \<and> oldActivationState s = 0"

lemma mb_step_inv:
  assumes "mb_step s t" "mb_inv s"
  shows "mb_inv t"
  using assms mbim_init_inv [OF assms(2)] requests_inv [OF assms(2)]
  by (cases rule: mb_step.cases) (metis option.pred_inject(2) snd_conv)+

interpretation mb: inv_system mb_start mb_step mb_inv
proof (unfold_locales, goal_cases)
  case (1 s)
  then show ?case by (simp add: mb_start_def mb_inv_def ids_ok_def states_known_def)
next
  case (2 s t)
  then show ?case by (rule mb_step_inv)
qed

text \<open>
  C18. In every run of the back-end over one life of its reader, whatever the modem sends and when
  it goes away: each message to the device has a transaction id from 1 to \<open>0xFFFFFF\<close>, which
  leaves the upper byte to the proxy; no request stays pending between two operations; and the
  states the indications are compared with are those the last answers gave.
\<close>

theorem mbim_run_invariant:
  assumes "mb_start s" "mb_step\<^sup>*\<^sup>* s t"
  shows "(\<forall>m \<in> set (mb_device t). 1 \<le> h_TransactionId m \<and> h_TransactionId m < 0x1000000) \<and> mbim_pRequest t = None \<and>
     oldReadyState t = ReadyState t \<and> oldRegisterState t = RegisterState t \<and> oldPacketServiceState t = PacketServiceState t \<and>
     oldActivationState t = ActivationState t"
  using mb.reach_inv [OF assms] by (simp add: mb_inv_def ids_ok_def states_known_def)


section \<open>Answers of the modem\<close>

text \<open>The message \<open>MBIM_COMMAND_DONE_T\<close> with status \<open>st\<close>, and the id the next command has on the wire.\<close>

definition done_msg :: "u32 \<Rightarrow> u32 \<Rightarrow> u32 \<Rightarrow> byte list \<Rightarrow> byte list" where
  "done_msg tid cid st info = le32_bytes MBIM_COMMAND_DONE @ le32_bytes (of_nat (48 + length info)) @ le32_bytes tid @
     le32_bytes 1 @ le32_bytes 0 @ basic_uuid @ le32_bytes cid @ le32_bytes st @ le32_bytes (of_nat (length info)) @ info"

definition wire_id :: "mbim \<Rightarrow> u32" where
  "wire_id s = (if TransactionId s = 0x1000000 then 1 else TransactionId s)"

definition says :: "mrecv list \<Rightarrow> mexchange" where
  "says rs = \<lparr>mx_before = [], mx_write = None, mx_recv = rs\<rparr>"

lemma rd8_append_le: "length a \<le> i \<Longrightarrow> rd8 (a @ b) i = rd8 b (i - length a)"
  by (auto simp: rd8_def nth_append)

lemma rd8_append_less: "i < length a \<Longrightarrow> rd8 (a @ b) i = rd8 a i"
  by (simp add: rd8_def nth_append)

lemma rd32_append_le: "length a \<le> i \<Longrightarrow> rd32 (a @ b) i = rd32 b (i - length a)"
  by (simp add: rd32_def rd8_append_le Suc_diff_le)

lemma rd32_append_less: "i + 4 \<le> length a \<Longrightarrow> rd32 (a @ b) i = rd32 a i"
  by (simp add: rd32_def rd8_append_less)

lemma rd32_le32_bytes: "rd32 (le32_bytes w @ b) 0 = Some w"
  by (simp add: rd32_def rd8_def le32_bytes_def le32_of_le32_bytes)

lemma rd32_le32_bytes': "rd32 (le32_bytes w) 0 = Some w"
  using rd32_le32_bytes [of w "[]"] by simp

lemma rd32_fld32: "i + 4 \<le> length m \<Longrightarrow> rd32 m i = Some (fld32 m i)"
  by (simp add: rd32_def rd8_def fld32_def fld8_def)

lemmas rd32_simps = rd32_append_le rd32_append_less rd32_le32_bytes rd32_le32_bytes'

lemma length_done [simp]: "length (done_msg tid cid st info) = 48 + length info"
  by (simp add: done_msg_def)

lemma done_fields:
  "rd32 (done_msg tid cid st info) 0 = Some MBIM_COMMAND_DONE" "rd32 (done_msg tid cid st info) 4 = Some (of_nat (48 + length info))"
  "rd32 (done_msg tid cid st info) 8 = Some tid" "rd32 (done_msg tid cid st info) 40 = Some st"
  "rd32 (done_msg tid cid st info) 44 = Some (of_nat (length info))"
  by (simp_all add: done_msg_def rd32_simps)

lemma done_info: "48 \<le> i \<Longrightarrow> rd32 (done_msg tid cid st info) i = rd32 info (i - 48)"
  by (simp add: done_msg_def rd32_append_le)

lemma rdn_done: "48 \<le> i \<Longrightarrow> rdn (done_msg tid cid st info) i n = rdn info (i - 48) n"
proof -
  assume i: "48 \<le> i"
  obtain h where h: "done_msg tid cid st info = h @ info" "length h = 48" by (simp add: done_msg_def)
  show ?thesis using i unfolding h(1) by (auto simp: rdn_def h(2))
qed

lemma done_complete:
  assumes "length info \<le> 4048"
  shows "complete (done_msg tid cid st info)" "h_TransactionId (done_msg tid cid st info) = tid"
proof -
  let ?m = "done_msg tid cid st info"
  have f: "fld32 ?m 4 = of_nat (48 + length info)" "fld32 ?m 0 = MBIM_COMMAND_DONE" "fld32 ?m 8 = tid"
    using done_fields [of tid cid st info] rd32_fld32 [of 4 ?m] rd32_fld32 [of 0 ?m] rd32_fld32 [of 8 ?m] by simp_all
  have "unat (of_nat (48 + length info) :: u32) = 48 + length info" using assms by (intro unat_of_nat_u32) simp
  then have "whole ?m" unfolding whole_def f(1) using assms by simp
  then show "complete ?m" using f(2) by (simp add: complete_def MBIM_COMMAND_DONE_def MBIM_INDICATE_STATUS_MSG_def)
  show "h_TransactionId ?m = tid" using f(3) by (simp add: h_TransactionId_def)
qed

text \<open>A command of the basic service: its message goes out under \<open>wire_id\<close>.\<close>

lemma basic_command_sent:
  assumes "mb_ready s" "mb_exchanges s = says rs # xs"
  obtains q where "h_TransactionId q = wire_id s" "12 \<le> length q" "info \<noteq> [] \<longrightarrow> drop 48 q = info"
    and "basic_command cid ty info ret k s = do {
      (sig, t) \<leftarrow> mbim_read_all rs False (s\<lparr>TransactionId := wire_id s + 1, mb_exchanges := xs, mbim_pRequest := Some q, mbim_pResponse := None,
        mb_device := mb_device s @ [q]\<rparr>);
      mbim_check_err ret (if sig then 0 else ETIMEDOUT, if sig then mbim_pResponse t else None, t\<lparr>mbim_pRequest := None, mbim_pResponse := None\<rparr>) k }"
proof -
  let ?c = "compose_command basic_uuid cid ty (if info = [] then None else Some info) (length info) s"
  let ?s = "s\<lparr>TransactionId := TransactionId s + 1\<rparr>" and ?u = "s\<lparr>TransactionId := TransactionId s + 1, mb_exchanges := xs\<rparr>"
  note c = compose_command_id [OF length_basic_uuid, of cid ty "if info = [] then None else Some info" "length info" s]
  obtain q t where q: "renumber (fst ?c) ?u = (q, t)" by fastforce
  have len: "12 \<le> length (fst ?c)" using c(3) by simp
  have t: "t = s\<lparr>TransactionId := wire_id s + 1, mb_exchanges := xs\<rparr>" "h_TransactionId q = wire_id s" "12 \<le> length q"
    using q c(2) len h_TransactionId_set [OF len, of 1] by (auto simp: renumber_def wire_id_def set_TransactionId_def split: if_splits)
  have body: "drop 48 q = info" if "info \<noteq> []"
  proof -
    have "drop 48 (fst ?c) = info" using that by (simp add: compose_command_def)
    then show ?thesis using q len by (auto simp: renumber_def set_TransactionId_def split: if_splits)
  qed
  have "basic_command cid ty info ret k s = Option.bind (mbim_send_command (fst ?c) (snd ?c)) (\<lambda>t. mbim_check_err ret t k)"
    by (simp add: basic_command_def compose_basic_connect_command_def split_def)
  also have "snd ?c = ?s" by (rule c(1))
  also have "mbim_send_command (fst ?c) ?s = do {
      (sig, u) \<leftarrow> mbim_read_all rs False (t\<lparr>mbim_pRequest := Some q, mbim_pResponse := None, mb_device := mb_device t @ [q]\<rparr>);
      Some (if sig then 0 else ETIMEDOUT, if sig then mbim_pResponse u else None, u\<lparr>mbim_pRequest := None, mbim_pResponse := None\<rparr>) }"
    using assms q t(3) by (cases q) (simp_all add: mbim_send_command_def mb_next_def says_def mb_ready_def)
  finally show ?thesis using t body by (intro that) (simp_all add: split_def)
qed

text \<open>When it is answered it goes on with the answer, or returns its status.\<close>

lemma basic_command_done:
  assumes "mb_ready s" "mb_exchanges s = says [Msg (done_msg (wire_id s) c st body0)] # xs" "length body0 \<le> 4048"
  shows "\<exists>b q. basic_command cid ty info ret k s =
     (let t = s\<lparr>TransactionId := wire_id s + 1, mb_exchanges := xs, mb_device := mb_device s @ [q], cm_recv_buf := b,
                mbim_pRequest := None, mbim_pResponse := None\<rparr> in
      if st = 0 then k (done_msg (wire_id s) c st body0) t else Some (ret (sint st) t))"
proof -
  let ?m = "done_msg (wire_id s) c st body0"
  obtain q where q: "h_TransactionId q = wire_id s" "12 \<le> length q" "info \<noteq> [] \<longrightarrow> drop 48 q = info"
    and e: "basic_command cid ty info ret k s = do {
      (sig, t) \<leftarrow> mbim_read_all [Msg ?m] False (s\<lparr>TransactionId := wire_id s + 1, mb_exchanges := xs, mbim_pRequest := Some q, mbim_pResponse := None,
        mb_device := mb_device s @ [q]\<rparr>);
      mbim_check_err ret (if sig then 0 else ETIMEDOUT, if sig then mbim_pResponse t else None, t\<lparr>mbim_pRequest := None, mbim_pResponse := None\<rparr>) k }"
    by (rule basic_command_sent [OF assms(1,2)])
  let ?s = "s\<lparr>TransactionId := wire_id s + 1, mb_exchanges := xs, mbim_pRequest := Some q, mbim_pResponse := None, mb_device := mb_device s @ [q]\<rparr>"
  have a: "answers q ?m" using q done_complete(2) [OF assms(3)] by (simp add: answers_def)
  have "list_all complete [?m]" "mb_ready ?s" using done_complete [OF assms(3)] assms(1) by (simp_all add: mb_ready_def)
  from read_all_whole [OF this, of False] a obtain b where
    b: "mbim_read_all [Msg ?m] False ?s = Some (True, ?s\<lparr>cm_recv_buf := b, mbim_pResponse := Some ?m\<rparr>)" by auto
  have "sint st = 0 \<longleftrightarrow> st = 0" by (rule signed_eq_0_iff)
  then have "basic_command cid ty info ret k s =
     (let t = s\<lparr>TransactionId := wire_id s + 1, mb_exchanges := xs, mb_device := mb_device s @ [q], cm_recv_buf := b,
                mbim_pRequest := None, mbim_pResponse := None\<rparr> in
      if st = 0 then k (done_msg (wire_id s) c st body0) t else Some (ret (sint st) t))"
    unfolding e b by (simp add: mbim_check_err_def mbim_status_code_def done_fields MBIM_COMMAND_DONE_def MBIM_OPEN_DONE_def MBIM_CLOSE_DONE_def Let_def)
  then show ?thesis by blast
qed


section \<open>The state of a call\<close>

lemma length_u32_nonzero: "0 < n \<Longrightarrow> n < 4294967296 \<Longrightarrow> (of_nat n :: u32) \<noteq> 0"
  using unat_of_nat_u32 [of n] by (metis less_numeral_extra(3) unat_0)

lemma store_activation_done:
  assumes "length rest \<le> 4000"
  shows "store_activation (done_msg tid c 0 (le32_bytes sid @ le32_bytes v @ rest)) s = Some (0, snd (mbim_update_state (s\<lparr>ActivationState := v\<rparr>)))"
  using assms length_u32_nonzero [of "8 + length rest"] by (simp add: store_activation_def done_fields done_info rd32_simps)

lemma query_eq:
  "requestQueryDataCall junk s =
     do { (ret, s) \<leftarrow> basic_command MBIM_CID_CONNECT MBIM_CID_CMD_TYPE_QUERY (le32_bytes (word_of_int (mbim_sessionID s)) @ junk) Pair store_activation s;
          Some (ret, if ret \<noteq> 0 then QWDS_PKT_DATA_DISCONNECTED else pkt_of_activation (ActivationState s), s) }"
  by (simp add: requestQueryDataCall_def mbim_query_connect_def)

lemma query_answered:
  assumes "mb_ready s" "mb_exchanges s = says [Msg (done_msg (wire_id s) c 0 (le32_bytes sid @ le32_bytes v @ rest))] # xs" "length rest \<le> 4000"
  shows "\<exists>t. requestQueryDataCall junk s = Some (0, pkt_of_activation v, t) \<and> ActivationState t = v \<and> oldActivationState t = v"
proof -
  let ?i = "le32_bytes (word_of_int (mbim_sessionID s)) @ junk"
  have "length (le32_bytes sid @ le32_bytes v @ rest) \<le> 4048" using assms(3) by simp
  from basic_command_done [OF assms(1,2) this, of MBIM_CID_CONNECT MBIM_CID_CMD_TYPE_QUERY ?i Pair store_activation] obtain t where
    "basic_command MBIM_CID_CONNECT MBIM_CID_CMD_TYPE_QUERY ?i Pair store_activation s =
      store_activation (done_msg (wire_id s) c 0 (le32_bytes sid @ le32_bytes v @ rest)) t" by (auto simp: Let_def)
  then show ?thesis unfolding query_eq store_activation_done [OF assms(3)] by (simp add: mbim_update_state_def)
qed

lemma query_refused:
  assumes "mb_ready s" "mb_exchanges s = says [Msg (done_msg (wire_id s) c st rest)] # xs" "length rest \<le> 4048" "st \<noteq> 0"
  shows "\<exists>t. requestQueryDataCall junk s = Some (sint st, QWDS_PKT_DATA_DISCONNECTED, t) \<and> ActivationState t = ActivationState s"
proof -
  let ?i = "le32_bytes (word_of_int (mbim_sessionID s)) @ junk"
  from basic_command_done [OF assms(1-3), of MBIM_CID_CONNECT MBIM_CID_CMD_TYPE_QUERY ?i Pair store_activation] obtain t where
    "basic_command MBIM_CID_CONNECT MBIM_CID_CMD_TYPE_QUERY ?i Pair store_activation s = Some (sint st, t)" "ActivationState t = ActivationState s"
    using assms(4) by (auto simp: Let_def)
  moreover have "sint st \<noteq> 0" using assms(4) signed_eq_0_iff [of st] by simp
  ultimately show ?thesis unfolding query_eq by simp
qed

lemma query_silent:
  assumes "mb_ready s" "mb_exchanges s = says [] # xs"
  shows "\<exists>t. requestQueryDataCall junk s = Some (ETIMEDOUT, QWDS_PKT_DATA_DISCONNECTED, t) \<and> ActivationState t = ActivationState s"
  unfolding query_eq
  by (rule basic_command_sent [OF assms, where cid = MBIM_CID_CONNECT and ty = MBIM_CID_CMD_TYPE_QUERY and info = "le32_bytes (word_of_int (mbim_sessionID s)) @ junk"
      and ret = Pair and k = store_activation])
    (simp add: mbim_check_err_def ETIMEDOUT_def)

lemma query_gone:
  assumes "mb_ready s" "mb_exchanges s = says [Gone] # xs"
  shows "\<exists>t. requestQueryDataCall junk s = Some (8888, QWDS_PKT_DATA_DISCONNECTED, t) \<and> ActivationState t = ActivationState s \<and>
     \<not> mbim_open t \<and> mb_main t = mb_main s @ [RIL_INDICATE_DEVICE_DISCONNECTED]"
proof -
  have "s_tid_reader s" using assms(1) by (simp add: mb_ready_def)
  then show ?thesis
    unfolding query_eq
    by - (rule basic_command_sent [OF assms, where cid = MBIM_CID_CONNECT and ty = MBIM_CID_CMD_TYPE_QUERY and info = "le32_bytes (word_of_int (mbim_sessionID s)) @ junk"
      and ret = Pair and k = store_activation],
      simp add: mbim_check_err_def mbim_read_quit_def mb_event_def)
qed

text \<open>
  Asking for the state of the call: the state in the answer is stored and decides whether the
  call counts as connected; a failure status is returned; without an answer the query times out,
  and when the reader ends during the wait it fails with 8888 and the end is reported. In these
  failures the call counts as disconnected and the stored state stays.
\<close>

theorem query_call_outcomes:
  assumes "mb_ready s" "mb_exchanges s = says rs # xs" "length rest \<le> 4000"
  shows "(rs = [Msg (done_msg (wire_id s) MBIM_CID_CONNECT 0 (le32_bytes sid @ le32_bytes v @ rest))] \<longrightarrow>
       (\<exists>t. requestQueryDataCall junk s = Some (0, pkt_of_activation v, t) \<and> ActivationState t = v \<and> oldActivationState t = v)) \<and>
     (rs = [Msg (done_msg (wire_id s) MBIM_CID_CONNECT st rest)] \<and> st \<noteq> 0 \<longrightarrow>
       (\<exists>t. requestQueryDataCall junk s = Some (sint st, QWDS_PKT_DATA_DISCONNECTED, t) \<and> ActivationState t = ActivationState s)) \<and>
     (rs = [] \<longrightarrow> (\<exists>t. requestQueryDataCall junk s = Some (ETIMEDOUT, QWDS_PKT_DATA_DISCONNECTED, t) \<and> ActivationState t = ActivationState s)) \<and>
     (rs = [Gone] \<longrightarrow> (\<exists>t. requestQueryDataCall junk s = Some (8888, QWDS_PKT_DATA_DISCONNECTED, t) \<and> ActivationState t = ActivationState s \<and>
       \<not> mbim_open t \<and> mb_main t = mb_main s @ [RIL_INDICATE_DEVICE_DISCONNECTED]))"
  using query_answered [OF assms(1) _ assms(3)] query_refused [OF assms(1), of MBIM_CID_CONNECT st rest] query_silent [OF assms(1)]
    query_gone [OF assms(1)] assms(2,3)
  by simp


section \<open>Addresses\<close>

lemma swap_bit:
  assumes "n < 32"
  shows "bit (mbim2qmi_ipv4addr w) n = bit w (8 * (3 - n div 8) + n mod 8)"
proof -
  have m: "(0xff00 :: u32) = push_bit 8 (mask 8)" "(0xff0000 :: u32) = push_bit 16 (mask 8)"
    by (simp_all add: push_bit_eq_mult mask_eq_exp_minus_1)
  have b: "bit (mbim2qmi_ipv4addr w) n = (bit w (24 + n) \<or> 8 \<le> n \<and> n < 16 \<and> bit w (8 + n) \<or> 16 \<le> n \<and> n < 24 \<and> bit w (n - 8) \<or> 24 \<le> n \<and> bit w (n - 24))"
    using assms unfolding mbim2qmi_ipv4addr_def m by (auto simp: bit_simps)
  have o: "\<not> bit w k" if "32 \<le> k" for k using that bit_imp_le_length [of w k] by auto
  consider "n < 8" | "8 \<le> n" "n < 16" | "16 \<le> n" "n < 24" | "24 \<le> n" "n < 32" using assms by linarith
  then show ?thesis
  proof cases
    case 1
    then show ?thesis unfolding b by simp
  next
    case 2
    then have "n div 8 = 1" "n mod 8 = n - 8" by (simp_all add: div_nat_eqI mod_if)
    then show ?thesis unfolding b using 2 o [of "24 + n"] by simp
  next
    case 3
    then have "n div 8 = 2" "n mod 8 = n - 16" by (simp_all add: div_nat_eqI mod_if)
    then show ?thesis unfolding b using 3 o [of "24 + n"] by simp
  next
    case 4
    then have "n div 8 = 3" "n mod 8 = n - 24" by (simp_all add: div_nat_eqI mod_if)
    then show ?thesis unfolding b using 4 o [of "24 + n"] by simp
  qed
qed

lemma swap_byte:
  assumes "k < 4"
  shows "(ucast (drop_bit (8 * k) (mbim2qmi_ipv4addr w)) :: byte) = ucast (drop_bit (8 * (3 - k)) w)"
proof (rule bit_word_eqI)
  fix n
  assume "n < LENGTH(8)"
  then have "bit (mbim2qmi_ipv4addr w) (8 * k + n) = bit w (8 * (3 - k) + n)" using assms by (subst swap_bit) simp_all
  then show "bit (ucast (drop_bit (8 * k) (mbim2qmi_ipv4addr w)) :: byte) n = bit (ucast (drop_bit (8 * (3 - k)) w) :: byte) n"
    by (simp add: bit_simps)
qed

lemma mbim2qmi_bytes: "mbim2qmi_ipv4addr (le32_of a b c d) = le32_of d c b a"
proof -
  let ?w = "le32_of a b c d"
  have "le32_bytes (mbim2qmi_ipv4addr ?w) = rev (le32_bytes ?w)"
    using swap_byte [of 0 ?w] swap_byte [of 1 ?w] swap_byte [of 2 ?w] swap_byte [of 3 ?w] by (simp add: le32_bytes_def)
  then have "le32_bytes (mbim2qmi_ipv4addr ?w) = [d, c, b, a]" by (simp add: le32_bytes_le32_of)
  then show ?thesis using le32_of_le32_bytes [of "mbim2qmi_ipv4addr ?w"] by (simp add: le32_bytes_def)
qed

lemma mask_high: "push_bit k (drop_bit k (0xFFFFFFFF :: u32)) = NOT (mask k)"
proof -
  have "(0xFFFFFFFF :: u32) = - 1" by simp
  then show ?thesis by (simp only:) (rule bit_word_eqI, auto simp: bit_simps)
qed

type_synonym addr4 = "byte \<times> byte \<times> byte \<times> byte"

fun addr_bytes :: "addr4 \<Rightarrow> byte list" where "addr_bytes (a, b, c, d) = [a, b, c, d]"

text \<open>The number that the manager keeps for \<open>a.b.c.d\<close>, its most significant byte first.\<close>

fun addr_val :: "addr4 \<Rightarrow> u32" where "addr_val (a, b, c, d) = le32_of d c b a"

lemma rd32_addr: "rd32 (addr_bytes a @ r) 0 = Some (mbim2qmi_ipv4addr (addr_val a))" "length (addr_bytes a) = 4"
  by (cases a; simp add: rd32_def rd8_def mbim2qmi_bytes)+

lemma mbim2qmi_twice: "mbim2qmi_ipv4addr (mbim2qmi_ipv4addr (addr_val a)) = addr_val a"
  by (cases a) (simp add: mbim2qmi_bytes)

text \<open>An IPv4 configuration as modems send it: address, gateway, two name servers, the largest packet.\<close>

definition ip_info :: "u32 \<Rightarrow> u32 \<Rightarrow> addr4 \<Rightarrow> addr4 \<Rightarrow> addr4 \<Rightarrow> addr4 \<Rightarrow> u32 \<Rightarrow> byte list" where
  "ip_info sid n a gw d1 d2 mtu =
     le32_bytes sid @ le32_bytes 15 @ le32_bytes 0 @ le32_bytes 1 @ le32_bytes 60 @ le32_bytes 0 @ le32_bytes 0 @ le32_bytes 68 @
     le32_bytes 0 @ le32_bytes 2 @ le32_bytes 72 @ le32_bytes 0 @ le32_bytes 0 @ le32_bytes mtu @ le32_bytes 0 @
     le32_bytes n @ addr_bytes a @ addr_bytes gw @ addr_bytes d1 @ addr_bytes d2"

lemma length_ip_info [simp]: "length (ip_info sid n a gw d1 d2 mtu) = 80"
  by (simp add: ip_info_def rd32_addr)

lemma ip_info_fields:
  "rd32 (ip_info sid n a gw d1 d2 mtu) 4 = Some 15" "rd32 (ip_info sid n a gw d1 d2 mtu) 8 = Some 0"
  "rd32 (ip_info sid n a gw d1 d2 mtu) 16 = Some 60" "rd32 (ip_info sid n a gw d1 d2 mtu) 28 = Some 68"
  "rd32 (ip_info sid n a gw d1 d2 mtu) 36 = Some 2" "rd32 (ip_info sid n a gw d1 d2 mtu) 40 = Some 72"
  "rd32 (ip_info sid n a gw d1 d2 mtu) 52 = Some mtu" "rd32 (ip_info sid n a gw d1 d2 mtu) 60 = Some n"
  "rd32 (ip_info sid n a gw d1 d2 mtu) 64 = Some (mbim2qmi_ipv4addr (addr_val a))"
  "rd32 (ip_info sid n a gw d1 d2 mtu) 68 = Some (mbim2qmi_ipv4addr (addr_val gw))"
  "rd32 (ip_info sid n a gw d1 d2 mtu) 72 = Some (mbim2qmi_ipv4addr (addr_val d1))"
  "rd32 (ip_info sid n a gw d1 d2 mtu) 76 = Some (mbim2qmi_ipv4addr (addr_val d2))"
  using rd32_addr(1) [of d2 "[]"] by (simp_all add: ip_info_def rd32_simps rd32_addr)

lemma ip_config_v4_info:
  assumes "0 < n" "n \<le> 32"
  shows "ip_config_v4 (done_msg tid c 0 (ip_info sid (of_nat n) a gw d1 d2 mtu)) p = Some (mtu, p\<lparr>ipv4 :=
     \<lparr>v4_Address = addr_val a, v4_Gateway = addr_val gw, v4_SubnetMask = mbim2qmi_ipv4addr (NOT (mask (32 - n))),
      v4_DnsPrimary = addr_val d1, v4_DnsSecondary = addr_val d2, v4_Mtu = mbim2qmi_ipv4addr mtu\<rparr>\<rparr>)"
    and "ip_config_v6 (done_msg tid c 0 (ip_info sid (of_nat n) a gw d1 d2 mtu)) mtu' p = Some p"
proof -
  let ?i = "ip_info sid (of_nat n) a gw d1 d2 mtu"
  have u: "unat (60 :: u32) = 60" "unat (68 :: u32) = 68" "unat (72 :: u32) = 72" by simp_all
  have n: "unat (of_nat n :: byte) = n" using assms(2) by (simp add: unat_of_nat take_bit_nat_eq_self)
  have uc: "ucast (of_nat n :: u32) = (of_nat n :: byte)"
    using assms(2) by (simp add: word_unat_eq_iff unsigned_ucast_eq unat_of_nat take_bit_nat_eq_self)
  have "(of_nat n :: byte) \<noteq> 0" "\<not> (of_nat n :: byte) > 32" using n assms by (auto simp: word_less_nat_alt)
  then have mask: "subnet_mask (ucast (of_nat n :: u32)) = Some (mbim2qmi_ipv4addr (NOT (mask (32 - n))))"
    using n uc mask_high [of "32 - n"] by (simp add: subnet_mask_def)
  have "bit (15 :: u32) 0" "bit (15 :: u32) 1" "bit (15 :: u32) 2" "bit (15 :: u32) 3" by (simp_all add: bit_numeral_rec)
  then show "ip_config_v4 (done_msg tid c 0 ?i) p = Some (mtu, p\<lparr>ipv4 :=
     \<lparr>v4_Address = addr_val a, v4_Gateway = addr_val gw, v4_SubnetMask = mbim2qmi_ipv4addr (NOT (mask (32 - n))),
      v4_DnsPrimary = addr_val d1, v4_DnsSecondary = addr_val d2, v4_Mtu = mbim2qmi_ipv4addr mtu\<rparr>\<rparr>)"
    using mask by (simp add: ip_config_v4_def ref32_def when_set_def done_info ip_info_fields u mbim2qmi_twice)
  show "ip_config_v6 (done_msg tid c 0 ?i) mtu' p = Some p" by (simp add: ip_config_v6_def done_info ip_info_fields)
qed

text \<open>
  C28. The configuration the modem sends arrives in the profile: address, gateway and name
  servers are kept as they were sent. Mask and packet size are not: both are stored with their
  bytes reversed, so a size of 1500 becomes \<open>0xDC050000\<close>.
\<close>

theorem ip_config_decoded:
  assumes "mb_ready s" "0 < n" "n \<le> 32"
    and "mb_exchanges s = says [Msg (done_msg (wire_id s) MBIM_CID_IP_CONFIGURATION 0 (ip_info sid (of_nat n) a gw d1 d2 mtu))] # xs"
  shows "\<exists>t. requestGetIPAddress junk p s = Some (0, p\<lparr>ipv4 :=
     \<lparr>v4_Address = addr_val a, v4_Gateway = addr_val gw, v4_SubnetMask = mbim2qmi_ipv4addr (NOT (mask (32 - n))),
      v4_DnsPrimary = addr_val d1, v4_DnsSecondary = addr_val d2, v4_Mtu = mbim2qmi_ipv4addr mtu\<rparr>\<rparr>, t)"
proof -
  have l: "length (ip_info sid (of_nat n) a gw d1 d2 mtu) \<le> 4048" by simp
  note v = ip_config_v4_info [OF assms(2,3), of "wire_id s" MBIM_CID_IP_CONFIGURATION sid a gw d1 d2 mtu]
  let ?k = "\<lambda>m s. do { n \<leftarrow> rd32 m 44; if n = 0 then Some (0 :: int, p, s) else do { (mtu, p) \<leftarrow> ip_config_v4 m p; p \<leftarrow> ip_config_v6 m mtu p; Some (0, p, s) } }"
  let ?i = "le32_bytes (word_of_int (mbim_sessionID s)) @ junk"
  from basic_command_done [OF assms(1,4) l, of MBIM_CID_IP_CONFIGURATION MBIM_CID_CMD_TYPE_QUERY ?i "\<lambda>e s. (e, p, s)" ?k] obtain t where
    "requestGetIPAddress junk p s = ?k (done_msg (wire_id s) MBIM_CID_IP_CONFIGURATION 0 (ip_info sid (of_nat n) a gw d1 d2 mtu)) t"
    by (auto simp: requestGetIPAddress_def mbim_ip_config_def Let_def)
  then show ?thesis using v by (simp add: done_fields)
qed


section \<open>The strings of a call\<close>

definition wide :: "string \<Rightarrow> byte list" where
  "wide x = concat (map (\<lambda>c. [of_char c, 0]) x)"

fun narrow :: "byte list \<Rightarrow> string" where
  "narrow (c # _ # r) = char_of (unat c) # narrow r"
| "narrow _ = []"

text \<open>The string that a command names at \<open>p\<close>, by offset and size.\<close>

definition string_at :: "byte list \<Rightarrow> nat \<Rightarrow> string" where
  "string_at q p = narrow (take (unat (fld32 q (p + 4))) (drop (48 + unat (fld32 q p)) q))"

lemma length_wide [simp]: "length (wide x) = 2 * length x"
  by (induction x) (simp_all add: wide_def)

lemma narrow_wide [simp]: "narrow (wide x) = x"
proof (induction x)
  case (Cons c x)
  have "unat (of_nat (of_char c :: nat) :: byte) = of_char c"
    using nat_of_char_less_256 [of c] by (simp only: unsigned_of_nat) (simp add: take_bit_nat_eq_self)
  then have "char_of (unat (of_char c :: byte)) = c" by (simp only: of_nat_of_char) simp
  with Cons show ?case by (simp add: wide_def)
qed (simp add: wide_def)

lemma char2wchar_wide: "2 * length x \<le> n \<Longrightarrow> char2wchar x n = wide x"
  by (simp add: char2wchar_def wide_def)

lemma align_32: "n \<le> align_32 n" "align_32 n \<le> n + 3"
  by (auto simp: align_32_def)

lemma put_at_read:
  assumes "i + length b \<le> length d"
  shows "length (put_at i b d) = length d" "take (length b) (drop i (put_at i b d)) = b"
    and "m \<le> i \<Longrightarrow> take m (put_at i b d) = take m d"
  using assms by (auto simp: put_at_def min_def)

lemma put_string_some:
  assumes "cstrlen x \<noteq> 0" "i + 2 * cstrlen x \<le> n"
  shows "put_string x n (i, d) = ((of_nat (i + 60), of_nat (2 * cstrlen x)), align_32 (2 * cstrlen x), put_at i (wide (the x)) d)"
  using assms by (cases x) (simp_all add: put_string_def cstrlen_def char2wchar_wide)

lemma put_string_none: "cstrlen x = 0 \<Longrightarrow> put_string x n t = ((0, 0), t)"
  by (cases t) (simp add: put_string_def)

lemma buflen_bounds:
  defines "n s \<equiv> connect_buflen s"
  shows "align_32 (2 * cstrlen (mbim_apn s)) + 2 * cstrlen (mbim_user s) \<le> n s"
    "align_32 (2 * cstrlen (mbim_apn s)) + 2 * cstrlen (mbim_user s) + 2 * cstrlen (mbim_passwd s) \<le> n s"
  using align_32(1) [of "align_32 (align_32 (2 * cstrlen (mbim_apn s)) + 2 * cstrlen (mbim_user s)) + 2 * cstrlen (mbim_passwd s)"]
    align_32(1) [of "align_32 (2 * cstrlen (mbim_apn s)) + 2 * cstrlen (mbim_user s)"]
  by (simp_all add: assms connect_buflen_def)

definition strings_of :: "(u32 \<times> u32) \<times> (u32 \<times> u32) \<times> (u32 \<times> u32) \<times> byte list \<Rightarrow> string \<times> string \<times> string" where
  "strings_of t = (case t of (a, u, w, d) \<Rightarrow>
     let get = (\<lambda>x. narrow (take (unat (snd x)) (drop (unat (fst x) - 60) d))) in (get a, get u, get w))"

lemma strings_no_password:
  assumes "mbim_apn s = Some a" "a \<noteq> []" "mbim_user s = Some u" "cstrlen (mbim_passwd s) = 0" "length a \<le> 500" "length u \<le> 500"
  shows "strings_of (mbim_populate_connect_data s) = (a, u, [])"
proof -
  let ?n = "connect_buflen s" and ?o = "align_32 (2 * length a)"
  let ?d = "put_at 0 (wide a) (replicate ?n 0)"
  have b: "?o + 2 * length u \<le> ?n" using buflen_bounds(1) [of s] assms(1,3) by (simp add: cstrlen_def)
  have o: "2 * length a \<le> ?o" "?o \<le> 1003" using align_32 [of "2 * length a"] assms(5) by simp_all
  have d: "length ?d = ?n" "take (2 * length a) ?d = wide a"
    using put_at_read [of 0 "wide a" "replicate ?n 0"] b o by simp_all
  have un: "unat (60 :: u32) = 60" "unat (of_nat (?o + 60) :: u32) = ?o + 60" "unat (of_nat (2 * length a) :: u32) = 2 * length a"
    "unat (of_nat (2 * length u) :: u32) = 2 * length u"
    using o assms(5,6) by (simp, (intro unat_of_nat_u32; simp)+)
  have p1: "put_string (mbim_apn s) ?n (0, replicate ?n 0) = ((of_nat 60, of_nat (2 * length a)), ?o, ?d)"
    using put_string_some [of "mbim_apn s" 0 ?n "replicate ?n 0"] assms(1,2) b o by (simp add: cstrlen_def)
  show ?thesis
  proof (cases "u = []")
    case True
    then have "mbim_populate_connect_data s = ((of_nat 60, of_nat (2 * length a)), (0, 0), (0, 0), ?d)"
      using p1 assms(3,4) by (simp add: mbim_populate_connect_data_def put_string_none cstrlen_def)
    then show ?thesis using True un d by (simp add: strings_of_def Let_def)
  next
    case False
    let ?e = "put_at ?o (wide u) ?d"
    have "mbim_populate_connect_data s = ((of_nat 60, of_nat (2 * length a)), (of_nat (?o + 60), of_nat (2 * length u)), (0, 0), ?e)"
      using p1 put_string_some [of "mbim_user s" ?o ?n ?d] assms(3,4) b False
      by (simp add: mbim_populate_connect_data_def put_string_none cstrlen_def)
    moreover have "take (2 * length u) (drop ?o ?e) = wide u" "take (2 * length a) ?e = take (2 * length a) ?d"
      using put_at_read(2) [of ?o "wide u" ?d] put_at_read(3) [of ?o "wide u" ?d "2 * length a"] b d(1) o by simp_all
    ultimately show ?thesis using un d(2) by (simp add: strings_of_def Let_def)
  qed
qed

lemma strings_with_password:
  assumes "mbim_apn s = Some a" "mbim_user s = Some u" "mbim_passwd s = Some w" "a \<noteq> []" "length u = length a" "length w = length a" "length a \<le> 500"
  shows "strings_of (mbim_populate_connect_data s) = (a, w, w)"
proof -
  let ?n = "connect_buflen s" and ?o = "align_32 (2 * length a)"
  let ?d = "put_at 0 (wide a) (replicate ?n 0)"
  let ?e = "put_at ?o (wide u) ?d" let ?f = "put_at ?o (wide w) ?e"
  have b: "?o + 2 * length u \<le> ?n" using buflen_bounds(1) [of s] assms(1,2) by (simp add: cstrlen_def)
  have o: "2 * length a \<le> ?o" "?o \<le> 1003" using align_32 [of "2 * length a"] assms(7) by simp_all
  have d: "length ?d = ?n" "take (2 * length a) ?d = wide a"
    using put_at_read [of 0 "wide a" "replicate ?n 0"] b o by simp_all
  have e: "length ?e = ?n" "take (2 * length a) ?e = take (2 * length a) ?d"
    using put_at_read(1) [of ?o "wide u" ?d] put_at_read(3) [of ?o "wide u" ?d "2 * length a"] b d(1) o by simp_all
  have f: "take (2 * length w) (drop ?o ?f) = wide w" "take (2 * length a) ?f = take (2 * length a) ?e"
    using put_at_read(2) [of ?o "wide w" ?e] put_at_read(3) [of ?o "wide w" ?e "2 * length a"] b e(1) o assms(5,6) by simp_all
  have un: "unat (60 :: u32) = 60" "unat (of_nat (?o + 60) :: u32) = ?o + 60" "unat (of_nat (2 * length a) :: u32) = 2 * length a"
    using o assms(7) by (simp, (intro unat_of_nat_u32; simp)+)
  have "put_string (mbim_apn s) ?n (0, replicate ?n 0) = ((of_nat 60, of_nat (2 * length a)), ?o, ?d)"
    using put_string_some [of "mbim_apn s" 0 ?n "replicate ?n 0"] assms(1,4) b o by (simp add: cstrlen_def)
  moreover have "put_string (mbim_user s) ?n (?o, ?d) = ((of_nat (?o + 60), of_nat (2 * length a)), ?o, ?e)"
    using put_string_some [of "mbim_user s" ?o ?n ?d] assms(2,4,5) b by (simp add: cstrlen_def)
  moreover have "put_string (mbim_passwd s) ?n (?o, ?e) = ((of_nat (?o + 60), of_nat (2 * length a)), ?o, ?f)"
    using put_string_some [of "mbim_passwd s" ?o ?n ?e] assms(3-6) b by (simp add: cstrlen_def)
  ultimately show ?thesis
    using un d(2) e(2) f assms(6) by (simp add: mbim_populate_connect_data_def strings_of_def Let_def)
qed


lemma fld32_drop: "fld32 (drop n b) i = fld32 b (n + i)"
  by (simp add: fld32_def fld8_drop add.assoc)

lemma connect_info_strings:
  assumes "connect_info onoff sid s = Some info" "mbim_populate_connect_data s = (a, u, w, d)" "drop 48 q = info"
    and "\<And>x. x \<in> {a, u, w} \<Longrightarrow> 60 \<le> unat (fst x) \<or> snd x = 0"
  shows "(string_at q 56, string_at q 64, string_at q 72) = strings_of (a, u, w, d)" "fld32 q 52 = (if onoff = 0 then 0 else 1)"
    "fld32 q 48 = word_of_int sid"
proof -
  obtain k where k: "length k = 16" "info = le32_bytes (word_of_int sid) @ le32_bytes (if onoff = 0 then 0 else 1) @
       pair_bytes a @ pair_bytes u @ pair_bytes w @
       le32_bytes 0 @ le32_bytes (word_of_int (mbim_auth s)) @ le32_bytes (mbim_iptype s) @ k @ d"
    using assms(1,2) by (auto simp: connect_info_def bind_eq_Some_conv dest: str2uuid_length)
  have len: "60 \<le> length info" and tl: "drop 60 info = d" using k by (simp_all add: pair_bytes_def)
  have "rd32 info 0 = Some (word_of_int sid)" "rd32 info 4 = Some (if onoff = 0 then 0 else 1)"
    "rd32 info 8 = Some (fst a)" "rd32 info 12 = Some (snd a)" "rd32 info 16 = Some (fst u)" "rd32 info 20 = Some (snd u)"
    "rd32 info 24 = Some (fst w)" "rd32 info 28 = Some (snd w)"
    by (simp_all add: k(2) pair_bytes_def rd32_simps)
  then have f: "fld32 q 48 = word_of_int sid" "fld32 q 52 = (if onoff = 0 then 0 else 1)" "fld32 q 56 = fst a" "fld32 q 60 = snd a"
      "fld32 q 64 = fst u" "fld32 q 68 = snd u" "fld32 q 72 = fst w" "fld32 q 76 = snd w"
    using len fld32_drop [of 48 q] by (simp_all add: rd32_fld32 assms(3))
  have g: "narrow (take (unat (snd x)) (drop (48 + unat (fst x)) q)) = narrow (take (unat (snd x)) (drop (unat (fst x) - 60) d))"
    if "60 \<le> unat (fst x) \<or> snd x = 0" for x :: "u32 \<times> u32"
  proof (cases "snd x = 0")
    case False
    then have "drop (48 + unat (fst x)) q = drop (unat (fst x) - 60) d"
      using that assms(3) tl by (metis add.commute drop_drop le_add_diff_inverse2)
    then show ?thesis by simp
  qed simp
  show "(string_at q 56, string_at q 64, string_at q 72) = strings_of (a, u, w, d)"
    using f g assms(4) by (simp add: string_at_def strings_of_def Let_def)
  show "fld32 q 52 = (if onoff = 0 then 0 else 1)" "fld32 q 48 = word_of_int sid" using f by simp_all
qed

lemma offsets_ok:
  assumes "mbim_populate_connect_data s = (a, u, w, d)" "connect_buflen s \<le> 4000" "x \<in> {a, u, w}"
  shows "60 \<le> unat (fst x) \<or> snd x = 0"
proof -
  have len: "length (char2wchar y m) \<le> m" for y m by (simp add: char2wchar_def length_concat comp_def sum_list_triv)
  have one: "(60 \<le> unat (fst (fst (put_string y n t))) \<or> snd (fst (put_string y n t)) = 0) \<and> fst (snd (put_string y n t)) \<le> max (fst t) (n + 3)"
    if "fst t \<le> 4003" "n \<le> 4000" for y n t
  proof -
    have "unat (of_nat (fst t + 60) :: u32) = fst t + 60" using that by (intro unat_of_nat_u32) simp
    moreover have "align_32 (length (char2wchar (the y) (n - fst t))) \<le> n + 3"
      using align_32(2) [of "length (char2wchar (the y) (n - fst t))"] len [of "the y" "n - fst t"] by linarith
    ultimately show ?thesis by (cases t) (auto simp: put_string_def Let_def)
  qed
  let ?n = "connect_buflen s"
  obtain t1 where 1: "put_string (mbim_apn s) ?n (0, replicate ?n 0) = (a, t1)" and t1: "fst t1 \<le> 4003"
    and s1: "60 \<le> unat (fst a) \<or> snd a = 0"
    using assms(1,2) one [of "(0, replicate ?n 0)" ?n "mbim_apn s"] by (fastforce simp: mbim_populate_connect_data_def Let_def split: prod.splits)
  obtain t2 where 2: "put_string (mbim_user s) ?n t1 = (u, t2)" and t2: "fst t2 \<le> 4003" and s2: "60 \<le> unat (fst u) \<or> snd u = 0"
    using assms(1,2) 1 t1 one [of t1 ?n "mbim_user s"] by (fastforce simp: mbim_populate_connect_data_def Let_def split: prod.splits)
  have "60 \<le> unat (fst w) \<or> snd w = 0"
    using assms(1,2) 1 2 t2 one [of t2 ?n "mbim_passwd s"] by (fastforce simp: mbim_populate_connect_data_def Let_def split: prod.splits)
  then show ?thesis using s1 s2 assms(3) by auto
qed

lemma activation_device:
  assumes "mbim_check_err Pair (e, rsp, u) store_activation = Some (r, t)"
  shows "mb_device t = mb_device u"
proof -
  have up: "mb_device (snd (mbim_update_state v)) = mb_device v" for v by (simp add: mbim_update_state_def)
  have st: "mb_device v = mb_device u" if "mbim_status_code m u = Some (c, v)" for m c v
    using that by (auto simp: mbim_status_code_def bind_eq_Some_conv split: if_splits)
  have act: "mb_device t = mb_device v" if "store_activation m v = Some (r, t)" for m v
    using that by (auto simp: store_activation_def bind_eq_Some_conv up split: if_splits)
  show ?thesis
  proof (cases rsp)
    case None
    then show ?thesis using assms by (auto simp: mbim_check_err_def)
  next
    case (Some m)
    with assms obtain c v where "mbim_status_code m u = Some (c, v)" "v = t \<or> store_activation m v = Some (r, t)"
      by (auto simp: mbim_check_err_def bind_eq_Some_conv split: if_splits)
    then show ?thesis using st act by metis
  qed
qed

lemma set_connect_sent:
  assumes "mb_ready s" "mb_exchanges s = says rs # xs" "mbim_set_connect onoff sid s = Some (r, t)" "connect_buflen s \<le> 4000"
  shows "\<exists>q. mb_device t = mb_device s @ [q] \<and> fld32 q 48 = word_of_int sid \<and> fld32 q 52 = (if onoff = 0 then 0 else 1) \<and>
     (string_at q 56, string_at q 64, string_at q 72) = strings_of (mbim_populate_connect_data s)"
proof -
  obtain info where i: "connect_info onoff sid s = Some info"
    and c: "basic_command MBIM_CID_CONNECT MBIM_CID_CMD_TYPE_SET info Pair store_activation s = Some (r, t)"
    using assms(3) by (auto simp: mbim_set_connect_def bind_eq_Some_conv)
  have ne: "info \<noteq> []" using i by (auto simp: connect_info_def bind_eq_Some_conv split_def le32_bytes_def Let_def)
  obtain q where q: "drop 48 q = info" "mb_device t = mb_device s @ [q]"
  proof (rule basic_command_sent [OF assms(1,2), where cid = MBIM_CID_CONNECT and ty = MBIM_CID_CMD_TYPE_SET and info = info and ret = Pair and k = store_activation], goal_cases)
    case (1 q)
    have "do { (sig, u) \<leftarrow> mbim_read_all rs False (s\<lparr>TransactionId := wire_id s + 1, mb_exchanges := xs, mbim_pRequest := Some q, mbim_pResponse := None,
        mb_device := mb_device s @ [q]\<rparr>);
      mbim_check_err Pair (if sig then 0 else ETIMEDOUT, if sig then mbim_pResponse u else None, u\<lparr>mbim_pRequest := None, mbim_pResponse := None\<rparr>)
        store_activation } = Some (r, t)"
      using 1(5) c by (simp only:)
    then obtain sig u where u: "mbim_read_all rs False (s\<lparr>TransactionId := wire_id s + 1, mb_exchanges := xs, mbim_pRequest := Some q, mbim_pResponse := None,
        mb_device := mb_device s @ [q]\<rparr>) = Some (sig, u)"
      "mbim_check_err Pair (if sig then 0 else ETIMEDOUT, if sig then mbim_pResponse u else None, u\<lparr>mbim_pRequest := None, mbim_pResponse := None\<rparr>) store_activation = Some (r, t)"
      unfolding bind_eq_Some_conv split_paired_Ex prod.case by blast
    have "mb_device t = mb_device s @ [q]" using activation_device [OF u(2)] read_all_frame [OF u(1)] by simp
    then show ?case using 1(1) [of q] 1(4) ne by simp
  qed
  obtain a u w d where p: "mbim_populate_connect_data s = (a, u, w, d)" by (cases "mbim_populate_connect_data s")
  from connect_info_strings [OF i p q(1) offsets_ok [OF p assms(4)]] q(2) show ?thesis unfolding p by blast
qed

lemma buflen_le: "connect_buflen s \<le> 2 * (cstrlen (mbim_apn s) + cstrlen (mbim_user s) + cstrlen (mbim_passwd s)) + 9"
  using align_32(2) [of "align_32 (align_32 (2 * cstrlen (mbim_apn s)) + 2 * cstrlen (mbim_user s)) + 2 * cstrlen (mbim_passwd s)"]
    align_32(2) [of "align_32 (2 * cstrlen (mbim_apn s)) + 2 * cstrlen (mbim_user s)"] align_32(2) [of "2 * cstrlen (mbim_apn s)"]
  by (simp add: connect_buflen_def)

lemma setup_sent:
  assumes "mb_ready s" "mb_exchanges s = says rs # xs" "requestSetupDataCall p s = Some (r, t)" "connect_buflen (set_call_parameters p s) \<le> 4000"
  shows "\<exists>q. mb_device t = mb_device s @ [q] \<and> fld32 q 48 = word_of_int (mbim_sessionID s) \<and> fld32 q 52 = 1 \<and>
     (string_at q 56, string_at q 64, string_at q 72) = strings_of (mbim_populate_connect_data (set_call_parameters p s))"
proof -
  let ?s = "set_call_parameters p s"
  have "mb_ready ?s" "mb_exchanges ?s = says rs # xs" "mb_device ?s = mb_device s" "mbim_sessionID ?s = mbim_sessionID s"
    using assms(1,2) by (simp_all add: set_call_parameters_def mb_ready_def)
  moreover have "mbim_set_connect 1 (mbim_sessionID ?s) ?s = Some (r, t)" using assms(3) by (simp add: requestSetupDataCall_def Let_def)
  ultimately show ?thesis using set_connect_sent [of ?s rs xs 1 "mbim_sessionID ?s" r t] assms(4) by simp
qed

text \<open>
  The request that sets up a call carries access point and user name so that the modem
  reads them back, character by character, at the offsets and sizes the request states, when
  there is no password.
\<close>

theorem connect_request_strings:
  assumes "mb_ready s" "mb_exchanges s = says rs # xs" "requestSetupDataCall p s = Some (r, t)"
    and "apn p = Some a" "a \<noteq> []" "user p = Some u" "password p = None" "mbim_passwd s = None" "length a \<le> 500" "length u \<le> 500"
  shows "\<exists>q. mb_device t = mb_device s @ [q] \<and> fld32 q 48 = word_of_int (mbim_sessionID s) \<and> fld32 q 52 = 1 \<and>
     string_at q 56 = a \<and> string_at q 64 = u \<and> string_at q 72 = []"
proof -
  let ?s = "set_call_parameters p s"
  have st: "mbim_apn ?s = Some a" "mbim_user ?s = Some u" "mbim_passwd ?s = None" using assms(4,6-8) by (simp_all add: set_call_parameters_def)
  have "connect_buflen ?s \<le> 4000" using buflen_le [of ?s] st assms(9,10) by (simp add: cstrlen_def)
  moreover have "strings_of (mbim_populate_connect_data ?s) = (a, u, [])"
    using st assms(5,9,10) by (intro strings_no_password) (simp_all add: cstrlen_def)
  ultimately show ?thesis using setup_sent [OF assms(1-3)] by simp
qed

text \<open>
  C34. With a password the request is wrong: the offset of the third string is computed from the
  length of the second alone. When the three strings are equally long, the password is written
  over the user name, and the modem reads the password in both places.
\<close>

theorem connect_password_overwrites_user:
  assumes "mb_ready s" "mb_exchanges s = says rs # xs" "requestSetupDataCall p s = Some (r, t)"
    and "apn p = Some a" "a \<noteq> []" "user p = Some u" "password p = Some w" "length u = length a" "length w = length a" "length a \<le> 500"
  shows "\<exists>q. mb_device t = mb_device s @ [q] \<and> string_at q 56 = a \<and> string_at q 64 = w \<and> string_at q 72 = w"
proof -
  let ?s = "set_call_parameters p s"
  have st: "mbim_apn ?s = Some a" "mbim_user ?s = Some u" "mbim_passwd ?s = Some w" using assms(4,6,7) by (simp_all add: set_call_parameters_def)
  have "connect_buflen ?s \<le> 4000" using buflen_le [of ?s] st assms(8-10) by (simp add: cstrlen_def)
  moreover have "strings_of (mbim_populate_connect_data ?s) = (a, w, w)" using st assms(5,8-10) by (intro strings_with_password)
  ultimately show ?thesis using setup_sent [OF assms(1-3)] by auto
qed

lemma connect_info_total: "\<exists>info. connect_info onoff sid s = Some info"
proof -
  have "str2uuid UUID_MBIMContextTypeInternet \<noteq> None" by code_simp
  then show ?thesis by (auto simp: connect_info_def split_def Let_def)
qed

lemma setup_silent:
  assumes "mb_ready s" "mb_exchanges s = says [] # xs"
  shows "\<exists>t. requestSetupDataCall p s = Some (ETIMEDOUT, t)"
proof -
  let ?s = "set_call_parameters p s"
  have s: "mb_ready ?s" "mb_exchanges ?s = says [] # xs" using assms by (simp_all add: set_call_parameters_def mb_ready_def)
  obtain info where i: "connect_info 1 (mbim_sessionID ?s) ?s = Some info" using connect_info_total by blast
  show ?thesis
    by (rule basic_command_sent [OF s, where cid = MBIM_CID_CONNECT and ty = MBIM_CID_CMD_TYPE_SET and info = info and ret = Pair and k = store_activation])
      (simp add: requestSetupDataCall_def mbim_set_connect_def i Let_def mbim_check_err_def ETIMEDOUT_def)
qed


section \<open>Sample runs\<close>

definition sample_mbim :: "mexchange list \<Rightarrow> mbim" where
  "sample_mbim xs = \<lparr>mbim_open = True, s_tid_reader = True, TransactionId = 1, mbim_apn = None, mbim_user = None, mbim_passwd = None,
     mbim_iptype = 0, mbim_auth = 0, mbim_sessionID = 0, mbim_pRequest = None, mbim_pResponse = None, qmi_over_mbim_support = False,
     qmi_over_mbim_sk = False, qmi_over_mbim_nas = 0, mbim_ms_version = 1, mbim_open_state = 0, ReadyState = 0, RegisterState = 0,
     PacketServiceState = 0, ActivationState = 0, oldReadyState = 0, oldRegisterState = 0, oldPacketServiceState = 0, oldActivationState = 0,
     cm_recv_buf = replicate 4096 0, mb_device = [], mb_main = [], mb_qmi = [], mb_exchanges = xs\<rparr>"

lemma sample_mbim [simp]:
  "mb_ready (sample_mbim xs)" "mb_start (sample_mbim xs)" "mb_exchanges (sample_mbim xs) = xs" "wire_id (sample_mbim xs) = 1"
  "mb_device (sample_mbim xs) = []" "mb_main (sample_mbim xs) = []" "mbim_sessionID (sample_mbim xs) = 0" "mbim_passwd (sample_mbim xs) = None"
  "ActivationState (sample_mbim xs) = 0"
  by (simp_all add: sample_mbim_def mb_ready_def mb_start_def wire_id_def)

lemma send_command_answer_witness:
  "\<exists>t. mbim_send_command (set_TransactionId 5 (replicate 12 0)) (sample_mbim [says [Msg (done_msg 5 12 0 [])]]) = Some (0, Some (done_msg 5 12 0 []), t)"
proof -
  let ?q = "set_TransactionId 5 (replicate 12 0)" and ?s = "sample_mbim [says [Msg (done_msg 5 12 0 [])]]"
  have id: "h_TransactionId ?q = 5" "12 \<le> length ?q"
    using h_TransactionId_set [of "replicate 12 0" 5] by (simp_all add: set_TransactionId_def)
  have r: "(?q, ?s) = renumber ?q ?s" using id by (simp add: renumber_def)
  have c: "list_all complete [done_msg 5 12 0 []]" using done_complete(1) [of "[]"] by simp
  have e: "mb_exchanges ?s = says [Msg (done_msg 5 12 0 [])] # []" "mx_before (says [Msg (done_msg 5 12 0 [])]) = []"
    "mx_write (says [Msg (done_msg 5 12 0 [])]) = None" "mx_recv (says [Msg (done_msg 5 12 0 [])]) = map Msg [done_msg 5 12 0 []]"
    by (simp_all add: says_def)
  have "answers ?q (done_msg 5 12 0 [])" using id done_complete(2) [of "[]"] by (simp add: answers_def)
  with send_command_answer [OF sample_mbim(1) e c id(2) r] show ?thesis by (auto simp: Let_def)
qed

lemma mbim_run_invariant_witness:
  "\<exists>t. mb_step\<^sup>*\<^sup>* (sample_mbim [says []]) t \<and> mb_device t \<noteq> [] \<and> (\<forall>m \<in> set (mb_device t). h_TransactionId m < 0x1000000)"
proof -
  let ?s = "sample_mbim [says []]"
  obtain q t where t: "requestQueryDataCall [] ?s = Some (ETIMEDOUT, QWDS_PKT_DATA_DISCONNECTED, t)" "mb_device t = [q]"
    unfolding query_eq
    by (rule basic_command_sent [of ?s "[]" "[]", OF _ _, where cid = MBIM_CID_CONNECT and ty = MBIM_CID_CMD_TYPE_QUERY
        and info = "le32_bytes (word_of_int (mbim_sessionID ?s)) @ []" and ret = Pair and k = store_activation])
      (simp_all add: mbim_check_err_def ETIMEDOUT_def)
  then have "mb_step\<^sup>*\<^sup>* ?s t" by (blast intro: do_query)
  from mbim_run_invariant [OF sample_mbim(2) this] this t(2) show ?thesis by auto
qed

lemma query_call_outcomes_witness:
  "\<exists>t. requestQueryDataCall [] (sample_mbim [says [Msg (done_msg 1 MBIM_CID_CONNECT 0 (le32_bytes 0 @ le32_bytes 1 @ []))]]) =
     Some (0, QWDS_PKT_DATA_CONNECTED, t)"
proof -
  let ?rs = "[Msg (done_msg 1 MBIM_CID_CONNECT 0 (le32_bytes 0 @ le32_bytes 1 @ []))]"
  have e: "mb_exchanges (sample_mbim [says ?rs]) = says ?rs # []" by simp
  have l: "length ([] :: byte list) \<le> 4000" by simp
  from query_call_outcomes [OF sample_mbim(1) e l, of 0 1 "[]" 1] show ?thesis by (auto simp: pkt_of_activation_def)
qed

lemma ip_config_decoded_witness:
  "\<exists>p t. requestGetIPAddress [] sample_profile (sample_mbim [says [Msg (done_msg 1 MBIM_CID_IP_CONFIGURATION 0
     (ip_info 0 (of_nat 24) (10, 0, 0, 2) (10, 0, 0, 1) (8, 8, 8, 8) (8, 8, 4, 4) 1500))]]) = Some (0, p, t) \<and>
     v4_Address (ipv4 p) = 0x0A000002 \<and> v4_SubnetMask (ipv4 p) = 0x00FFFFFF \<and> v4_Mtu (ipv4 p) = 0xDC050000"
proof -
  let ?x = "says [Msg (done_msg 1 MBIM_CID_IP_CONFIGURATION 0 (ip_info 0 (of_nat 24) (10, 0, 0, 2) (10, 0, 0, 1) (8, 8, 8, 8) (8, 8, 4, 4) 1500))]"
  have e: "mb_exchanges (sample_mbim [?x]) = says [Msg (done_msg (wire_id (sample_mbim [?x])) MBIM_CID_IP_CONFIGURATION 0
     (ip_info 0 (of_nat 24) (10, 0, 0, 2) (10, 0, 0, 1) (8, 8, 8, 8) (8, 8, 4, 4) 1500))] # []" by simp
  have n: "(0 :: nat) < 24" "(24 :: nat) \<le> 32" by simp_all
  have v: "addr_val (10, 0, 0, 2) = 0x0A000002" by (simp add: le32_of_def)
  have m: "mbim2qmi_ipv4addr (NOT (mask (32 - 24))) = 0x00FFFFFF" "mbim2qmi_ipv4addr 1500 = 0xDC050000" by code_simp+
  from ip_config_decoded [OF sample_mbim(1) n e, of "[]" sample_profile] v m show ?thesis by auto
qed

lemma connect_request_strings_witness:
  "\<exists>q t. requestSetupDataCall (sample_profile\<lparr>apn := Some ''web'', user := Some ''me'', password := None\<rparr>) (sample_mbim [says []]) = Some (ETIMEDOUT, t) \<and>
     mb_device t = [q] \<and> string_at q 56 = ''web'' \<and> string_at q 64 = ''me''"
proof -
  let ?p = "sample_profile\<lparr>apn := Some ''web'', user := Some ''me'', password := None\<rparr>" and ?s = "sample_mbim [says []]"
  obtain t where t: "requestSetupDataCall ?p ?s = Some (ETIMEDOUT, t)" using setup_silent [of ?s "[]" ?p] by auto
  have e: "mb_exchanges ?s = says [] # []" by simp
  from connect_request_strings [OF sample_mbim(1) e t, of "''web''" "''me''"] t show ?thesis by auto
qed

lemma connect_password_overwrites_user_witness:
  "\<exists>q t. requestSetupDataCall (sample_profile\<lparr>apn := Some ''web'', user := Some ''bob'', password := Some ''pwd''\<rparr>) (sample_mbim [says []]) = Some (ETIMEDOUT, t) \<and>
     mb_device t = [q] \<and> string_at q 64 = ''pwd''"
proof -
  let ?p = "sample_profile\<lparr>apn := Some ''web'', user := Some ''bob'', password := Some ''pwd''\<rparr>" and ?s = "sample_mbim [says []]"
  obtain t where t: "requestSetupDataCall ?p ?s = Some (ETIMEDOUT, t)" using setup_silent [of ?s "[]" ?p] by auto
  have e: "mb_exchanges ?s = says [] # []" by simp
  from connect_password_overwrites_user [OF sample_mbim(1) e t, of "''web''" "''bob''" "''pwd''"] t show ?thesis by auto
qed

end
