(* ===== verification/MbimProxy.thy ===== *)
theory MbimProxy
  imports Prelude
begin

text \<open>
  The MBIM proxy, \<^verbatim>\<open>quectel_cm_5G/src/quectel-mbim-proxy.c\<close>: up to 32 processes share one control
  device. The proxy puts the number of the client's slot into the upper byte of the transaction id
  of a request and takes it out of the answer. What the kernel reports (poll, accept, read) is the
  argument \<open>mpoll\<close> of a round; calls of \<open>write\<close> and \<open>close\<close> are logged in the state. What a \<open>write\<close>
  really takes is not part of the model: the source prints it and goes on.
\<close>

section \<open>State\<close>

definition CM_MAX_CLIENT :: nat where "CM_MAX_CLIENT = 32"
definition TID_MASK :: u32 where "TID_MASK = 0xFFFFFF"
definition TID_SHIFT :: nat where "TID_SHIFT = 24"

definition MBIM_OPEN_MSG :: u32 where "MBIM_OPEN_MSG = 1"
definition MBIM_CLOSE_MSG :: u32 where "MBIM_CLOSE_MSG = 2"
definition MBIM_OPEN_DONE :: u32 where "MBIM_OPEN_DONE = 0x80000001"

record CM_CLIENT_T =
  client_fd :: int
  client_idx :: int

record mbim_proxy =
  cm_clients :: "CM_CLIENT_T list"
  cm_recv_buffer :: "byte list"
  mbim_server_fd :: int
  writes :: "(int \<times> byte list) list"
  closed :: "int list"

text \<open>The fields of \<open>MBIM_MESSAGE_HEADER\<close> and of \<open>MBIM_OPEN_DONE_T\<close>, and the assignment of an id.\<close>

definition msg_type :: "byte list \<Rightarrow> u32" where "msg_type b = fld32 b 0"
definition msg_tid :: "byte list \<Rightarrow> u32" where "msg_tid b = fld32 b 8"
definition open_status :: "byte list \<Rightarrow> u32" where "open_status b = fld32 b 12"

definition set_tid :: "u32 \<Rightarrow> byte list \<Rightarrow> byte list" where
  "set_tid t b = take 8 b @ le32_bytes t @ drop 12 b"

fun first_slot :: "('a \<Rightarrow> bool) \<Rightarrow> 'a list \<Rightarrow> nat option" where
  "first_slot P [] = None"
| "first_slot P (x # xs) = (if P x then Some 0 else map_option Suc (first_slot P xs))"

definition safe_close :: "int \<Rightarrow> mbim_proxy \<Rightarrow> int \<times> mbim_proxy" where
  "safe_close fd s = (if fd > 0 then (-1, s\<lparr>closed := closed s @ [fd]\<rparr>) else (fd, s))"

definition non_block_write :: "int \<Rightarrow> byte list \<Rightarrow> mbim_proxy \<Rightarrow> int \<times> mbim_proxy" where
  "non_block_write fd d s = (int (length d), s\<lparr>writes := writes s @ [(fd, d)]\<rparr>)"

definition mbim_send_open_msg :: "int \<Rightarrow> u32 \<Rightarrow> mbim_proxy \<Rightarrow> int \<times> mbim_proxy" where
  "mbim_send_open_msg dev mx =
     non_block_write dev (le32_bytes MBIM_OPEN_MSG @ le32_bytes 16 @ le32_bytes 1 @ le32_bytes mx)"

section \<open>Clients\<close>

text \<open>\<open>fd\<close> is what \<open>accept\<close> returned.\<close>

definition handle_client_connect :: "int \<Rightarrow> mbim_proxy \<Rightarrow> int \<times> mbim_proxy" where
  "handle_client_connect fd s =
     (if fd < 0 then (-1, s)
      else case first_slot (\<lambda>c. client_fd c \<le> 0) (cm_clients s) of
        Some i \<Rightarrow> (0, s\<lparr>cm_clients := (cm_clients s)[i := \<lparr>client_fd = fd, client_idx = int i + 1\<rparr>]\<rparr>)
      | None \<Rightarrow> (-1, s\<lparr>closed := closed s @ [fd]\<rparr>))"

definition handle_client_disconnect :: "int \<Rightarrow> mbim_proxy \<Rightarrow> mbim_proxy" where
  "handle_client_disconnect fd s =
     (case first_slot (\<lambda>c. client_fd c = fd) (cm_clients s) of
        None \<Rightarrow> s
      | Some i \<Rightarrow> (case safe_close fd s of (v, s) \<Rightarrow>
          s\<lparr>cm_clients := (cm_clients s)[i := (cm_clients s ! i)\<lparr>client_fd := v\<rparr>]\<rparr>))"

definition handle_client_request :: "int \<Rightarrow> int \<Rightarrow> nat \<Rightarrow> mbim_proxy \<Rightarrow> int \<times> mbim_proxy" where
  "handle_client_request dev fd len s =
     (let b = cm_recv_buffer s; tid = msg_tid b;
          idx = (case first_slot (\<lambda>c. client_fd c = fd) (cm_clients s) of None \<Rightarrow> -1 | Some i \<Rightarrow> client_idx (cm_clients s ! i)) in
      if idx = -1 then (-1, s)
      else if msg_type b = MBIM_OPEN_MSG \<or> msg_type b = MBIM_CLOSE_MSG then
        (0, snd (non_block_write fd (le32_bytes (msg_type b OR 0x80000000) @ le32_bytes 16 @ le32_bytes tid @ le32_bytes 0) s))
      else let b = set_tid (tid OR push_bit TID_SHIFT (word_of_int idx)) b;
               (ret, s) = non_block_write dev (take len b) (s\<lparr>cm_recv_buffer := b\<rparr>) in
        (if ret = int len then 0 else -1, s))"

section \<open>Device\<close>

fun broadcast :: "CM_CLIENT_T list \<Rightarrow> byte list \<Rightarrow> mbim_proxy \<Rightarrow> mbim_proxy" where
  "broadcast [] d s = s"
| "broadcast (c # cs) d s = broadcast cs d (if client_fd c > 0 then snd (non_block_write (client_fd c) d s) else s)"

definition handle_device_response :: "nat \<Rightarrow> mbim_proxy \<Rightarrow> mbim_proxy" where
  "handle_device_response len s =
     (let b = cm_recv_buffer s; tid = msg_tid b in
      if tid = 0 then broadcast (cm_clients s) (take len b) s
      else case first_slot (\<lambda>c. client_idx c = uint (drop_bit TID_SHIFT tid) \<and> client_fd c > 0) (cm_clients s) of
        None \<Rightarrow> s
      | Some i \<Rightarrow> (let b = set_tid (tid AND TID_MASK) b in
          snd (non_block_write (client_fd (cm_clients s ! i)) (take len b) (s\<lparr>cm_recv_buffer := b\<rparr>))))"

text \<open>\<open>proxy_make_server\<close> with the outcomes of its system calls; a failed \<open>setsockopt\<close> makes \<open>bind\<close> fail.\<close>

definition proxy_make_server :: "int \<Rightarrow> bool \<Rightarrow> bool \<Rightarrow> int" where
  "proxy_make_server sock sockopt bound = (if sock < 0 then -1 else if \<not> sockopt then -1 else if \<not> bound then -1 else sock)"

section \<open>The loop\<close>

text \<open>
  One return of \<open>poll\<close>: its result, the descriptors in error and those with input, the outcomes of
  \<open>accept\<close> and of the system calls of \<open>proxy_make_server\<close>, and what \<open>read\<close> takes; when it takes nothing it returns 0 or,
  with \<open>read_fails\<close>, -1.
\<close>

record mpoll =
  poll_ret :: int
  broken :: "int \<Rightarrow> bool"
  readable :: "int \<Rightarrow> bool"
  accepted :: int
  new_server :: "int \<times> bool \<times> bool"
  input :: "int \<Rightarrow> byte list"
  read_fails :: "int \<Rightarrow> bool"

text \<open>How the handling of a descriptor ends: on with the next one, \<open>goto error\<close>, or \<open>return\<close>.\<close>

datatype flow = GoOn | GotoError | Return int

definition receive :: "byte list \<Rightarrow> mbim_proxy \<Rightarrow> mbim_proxy" where
  "receive d s = s\<lparr>cm_recv_buffer := d @ drop (length d) (cm_recv_buffer s)\<rparr>"

definition handle_fd :: "int \<Rightarrow> mpoll \<Rightarrow> int \<Rightarrow> mbim_proxy \<Rightarrow> flow \<times> mbim_proxy" where
  "handle_fd dev e fd s =
     (if broken e fd then
        (if fd = dev then (GotoError, s)
         else if fd = mbim_server_fd s then (GoOn, s)
         else (GoOn, handle_client_disconnect fd s))
      else if \<not> readable e fd then (GoOn, s)
      else if fd = mbim_server_fd s then (GoOn, snd (handle_client_connect (accepted e) s))
      else let d = take 4096 (input e fd) in
        if d = [] then
          (if fd = dev then (GotoError, s)
           else (Return (if read_fails e fd then -1 else 0), handle_client_disconnect fd s))
        else let s = receive d s in
          if fd = dev then
            (if mbim_server_fd s = -1 then
               (if msg_type (cm_recv_buffer s) = MBIM_OPEN_DONE then
                  (if open_status (cm_recv_buffer s) \<noteq> 0 then (GotoError, s)
                   else (GoOn, s\<lparr>mbim_server_fd := (case new_server e of (sock, sockopt, bound) \<Rightarrow> proxy_make_server sock sockopt bound)\<rparr>))
                else (GoOn, s))
             else (GoOn, handle_device_response (length d) s))
          else (GoOn, snd (handle_client_request dev fd (length d) s)))"

definition pollfds :: "int \<Rightarrow> mbim_proxy \<Rightarrow> int list" where
  "pollfds dev s =
     dev # (if mbim_server_fd s > 0 then mbim_server_fd s # filter (\<lambda>fd. fd > 0) (map client_fd (cm_clients s)) else [])"

fun handle_fds :: "int \<Rightarrow> mpoll \<Rightarrow> int list \<Rightarrow> mbim_proxy \<Rightarrow> flow \<times> mbim_proxy" where
  "handle_fds dev e [] s = (GoOn, s)"
| "handle_fds dev e (fd # fds) s =
     (case handle_fd dev e fd s of (GoOn, s) \<Rightarrow> handle_fds dev e fds s | r \<Rightarrow> r)"

definition poll_round :: "int \<Rightarrow> mpoll \<Rightarrow> mbim_proxy \<Rightarrow> flow \<times> mbim_proxy" where
  "poll_round dev e s = (if poll_ret e \<le> 0 then (GotoError, s) else handle_fds dev e (pollfds dev s) s)"

fun close_clients :: "CM_CLIENT_T list \<Rightarrow> mbim_proxy \<Rightarrow> CM_CLIENT_T list \<times> mbim_proxy" where
  "close_clients [] s = ([], s)"
| "close_clients (c # cs) s =
     (case safe_close (client_fd c) s of (v, s) \<Rightarrow> case close_clients cs s of (cs, s) \<Rightarrow> (c\<lparr>client_fd := v\<rparr> # cs, s))"

definition cleanup :: "mbim_proxy \<Rightarrow> mbim_proxy" where
  "cleanup s =
     (case safe_close (mbim_server_fd s) s of (v, s) \<Rightarrow>
      case close_clients (cm_clients s) s of (cs, s) \<Rightarrow> s\<lparr>mbim_server_fd := v, cm_clients := cs\<rparr>)"

text \<open>The result is the return value, \<open>None\<close> while the loop runs.\<close>

fun proxy_rounds :: "int \<Rightarrow> mpoll list \<Rightarrow> mbim_proxy \<Rightarrow> int option \<times> mbim_proxy" where
  "proxy_rounds dev [] s = (None, s)"
| "proxy_rounds dev (e # es) s =
     (case poll_round dev e s of
        (GoOn, s) \<Rightarrow> proxy_rounds dev es s
      | (GotoError, s) \<Rightarrow> (Some 0, cleanup s)
      | (Return r, s) \<Rightarrow> (Some r, s))"

definition proxy_loop :: "int \<Rightarrow> mpoll list \<Rightarrow> mbim_proxy \<Rightarrow> int option \<times> mbim_proxy" where
  "proxy_loop dev es s =
     (let s = s\<lparr>mbim_server_fd := -1\<rparr> in if dev > 0 then proxy_rounds dev es s else (Some 0, cleanup s))"

text \<open>The loop of \<open>main\<close>: one element is the outcome of an \<open>open\<close> of the device and what follows.\<close>

definition no_clients :: "CM_CLIENT_T list" where
  "no_clients = replicate CM_MAX_CLIENT \<lparr>client_fd = 0, client_idx = 0\<rparr>"

fun proxy_main :: "(int \<times> mpoll list) list \<Rightarrow> mbim_proxy \<Rightarrow> mbim_proxy" where
  "proxy_main [] s = s"
| "proxy_main ((dev, es) # rest) s =
     (if dev < 0 then proxy_main rest s
      else let s = snd (mbim_send_open_msg dev 4096 (s\<lparr>cm_clients := no_clients\<rparr>)) in
        case proxy_loop dev es s of
          (None, s) \<Rightarrow> s
        | (Some r, s) \<Rightarrow> proxy_main rest (snd (safe_close dev s)))"


section \<open>Slots and transaction ids\<close>

lemma first_slot_Some: "first_slot P xs = Some i \<Longrightarrow> i < length xs \<and> P (xs ! i)"
  by (induction P xs arbitrary: i rule: first_slot.induct) (auto split: if_splits)

lemma first_slot_None: "first_slot P xs = None \<longleftrightarrow> (\<forall>i < length xs. \<not> P (xs ! i))"
  by (induction P xs rule: first_slot.induct) (auto simp: less_Suc_eq_0_disj)

lemma first_slot_unique:
  assumes "i < length xs" "P (xs ! i)" "\<And>j. j < length xs \<Longrightarrow> P (xs ! j) \<Longrightarrow> j = i"
  shows "first_slot P xs = Some i"
proof (cases "first_slot P xs")
  case None
  then show ?thesis using assms first_slot_None [of P xs] by blast
next
  case (Some j)
  then show ?thesis using assms first_slot_Some [of P xs j] by blast
qed

lemma length_set_tid [simp]: "12 \<le> length b \<Longrightarrow> length (set_tid t b) = length b"
  by (simp add: set_tid_def)

lemma msg_tid_set_tid [simp]: "12 \<le> length b \<Longrightarrow> msg_tid (set_tid t b) = t"
  by (simp add: msg_tid_def set_tid_def fld32_def le32_bytes_def le32_of_le32_bytes) (simp add: fld8_def le32_of_le32_bytes)

lemma set_tid_msg_tid:
  assumes "12 \<le> length b"
  shows "set_tid (msg_tid b) b = b"
proof -
  have "[b ! 8, b ! 9, b ! 10, b ! 11] @ drop 12 b = drop 8 b"
    using assms by (simp add: Cons_nth_drop_Suc numeral_eq_Suc)
  then show ?thesis
    using assms by (simp add: set_tid_def msg_tid_def fld32_def fld8_def le32_bytes_le32_of)
qed

lemma set_tid_take: "12 \<le> n \<Longrightarrow> n \<le> length b \<Longrightarrow> take n (set_tid t b) = set_tid t (take n b)"
  by (simp add: set_tid_def take_drop min_def)

lemma fld32_append [simp]: "i + 4 \<le> length a \<Longrightarrow> fld32 (a @ b) i = fld32 a i"
  by (simp add: fld32_def)

lemma tagged_client:
  assumes "tid < 0x1000000" "i < 32"
  shows "drop_bit TID_SHIFT (tid OR push_bit TID_SHIFT (word_of_int (int i + 1)) :: u32) = word_of_int (int i + 1)"
    and "(tid OR push_bit TID_SHIFT (word_of_int (int i + 1))) AND TID_MASK = (tid :: u32)"
    and "tid OR push_bit TID_SHIFT (word_of_int (int i + 1)) \<noteq> (0 :: u32)"
proof -
  let ?w = "word_of_int (int i + 1) :: u32"
  have t: "take_bit 24 tid = tid"
    using assms(1) by (simp add: word_less_nat_alt take_bit_eq_mod word_unat_eq_iff unat_mod_distrib)
  have w: "uint ?w = int i + 1" using assms(2) by (simp only: uint_word_of_int_eq) (simp add: take_bit_int_eq_self)
  then have w8: "take_bit 8 ?w = ?w"
    using assms(2) by (simp add: word_uint_eq_iff take_bit_eq_mod uint_mod_distrib)
  have bt: "bit tid n \<longleftrightarrow> n < 24 \<and> bit tid n" for n using t by (metis bit_take_bit_iff)
  have bw: "bit ?w n \<longleftrightarrow> n < 8 \<and> bit ?w n" for n using w8 by (metis bit_take_bit_iff)
  show d: "drop_bit TID_SHIFT (tid OR push_bit TID_SHIFT ?w) = ?w"
  proof (rule bit_word_eqI)
    fix n
    assume "n < LENGTH(32)"
    show "bit (drop_bit TID_SHIFT (tid OR push_bit TID_SHIFT ?w)) n = bit ?w n"
      using bt [of "24 + n"] bw [of n] by (auto simp: bit_simps TID_SHIFT_def)
  qed
  have m: "TID_MASK = mask 24" by (simp add: TID_MASK_def mask_eq_exp_minus_1)
  have mask: "bit TID_MASK n \<longleftrightarrow> n < 24" for n unfolding m bit_mask_iff by (auto simp: possible_bit_def)
  show "(tid OR push_bit TID_SHIFT ?w) AND TID_MASK = tid"
  proof (rule bit_word_eqI)
    fix n
    show "bit ((tid OR push_bit TID_SHIFT ?w) AND TID_MASK) n = bit tid n"
      using bt [of n] by (auto simp: bit_and_iff bit_or_iff bit_push_bit_iff mask TID_SHIFT_def)
  qed
  show "tid OR push_bit TID_SHIFT ?w \<noteq> 0"
  proof
    assume "tid OR push_bit TID_SHIFT ?w = 0"
    then have "?w = 0" using d by simp
    then show False using w by simp
  qed
qed

section \<open>The invariant\<close>

text \<open>A slot is marked with its number or was never used; no two clients share a descriptor.\<close>

definition live :: "mbim_proxy \<Rightarrow> int list" where
  "live s = filter (\<lambda>fd. fd > 0) (map client_fd (cm_clients s))"

definition slot_ok :: "nat \<Rightarrow> CM_CLIENT_T \<Rightarrow> bool" where
  "slot_ok i c \<longleftrightarrow> client_idx c = int i + 1 \<or> client_idx c = 0 \<and> client_fd c \<le> 0"

definition mp_inv :: "mbim_proxy \<Rightarrow> bool" where
  "mp_inv s \<longleftrightarrow> length (cm_clients s) = CM_MAX_CLIENT \<and> length (cm_recv_buffer s) = 4096 \<and>
     (\<forall>i < CM_MAX_CLIENT. slot_ok i (cm_clients s ! i)) \<and>
     (\<forall>i < CM_MAX_CLIENT. \<forall>j < CM_MAX_CLIENT. client_fd (cm_clients s ! i) > 0 \<longrightarrow>
        client_fd (cm_clients s ! i) = client_fd (cm_clients s ! j) \<longrightarrow> i = j)"

definition mp_start :: "mbim_proxy \<Rightarrow> bool" where
  "mp_start s \<longleftrightarrow> cm_clients s = no_clients \<and> length (cm_recv_buffer s) = 4096"

text \<open>One descriptor is handled; \<open>accept\<close> never returns a descriptor that is in use.\<close>

inductive mp_step :: "int \<Rightarrow> mbim_proxy \<Rightarrow> mbim_proxy \<Rightarrow> bool" for dev where
  handled: "accepted e \<notin> set (live s) \<Longrightarrow> handle_fd dev e fd s = (c, t) \<Longrightarrow> mp_step dev s t"

lemma mp_inv_cong:
  "mp_inv s \<Longrightarrow> cm_clients t = cm_clients s \<Longrightarrow> length (cm_recv_buffer t) = 4096 \<Longrightarrow> mp_inv t"
  by (simp add: mp_inv_def)

lemma mp_inv_slot:
  assumes "mp_inv s" "i < CM_MAX_CLIENT" "slot_ok i c" "client_fd c > 0 \<Longrightarrow> client_fd c \<notin> set (live s)"
  shows "mp_inv (s\<lparr>cm_clients := (cm_clients s)[i := c]\<rparr>)"
proof -
  have l: "j < CM_MAX_CLIENT \<Longrightarrow> client_fd (cm_clients s ! j) > 0 \<Longrightarrow> client_fd (cm_clients s ! j) \<in> set (live s)" for j
    using assms(1) by (auto simp: live_def mp_inv_def)
  have "slot_ok j ((cm_clients s)[i := c] ! j)" if "j < CM_MAX_CLIENT" for j
    using assms that by (cases "i = j") (simp_all add: mp_inv_def)
  moreover have "j = k" if "j < CM_MAX_CLIENT" "k < CM_MAX_CLIENT" "client_fd ((cm_clients s)[i := c] ! j) > 0"
    "client_fd ((cm_clients s)[i := c] ! j) = client_fd ((cm_clients s)[i := c] ! k)" for j k
  proof (cases "i = j \<or> i = k")
    case True
    then show ?thesis using that assms l [of j] l [of k] by (auto simp: mp_inv_def nth_list_update split: if_splits)
  next
    case False
    then show ?thesis using that assms(1) by (simp add: mp_inv_def)
  qed
  ultimately show ?thesis using assms(1) by (simp add: mp_inv_def)
qed

lemma client_connect_inv [inv_intros]:
  assumes "mp_inv s" "fd \<notin> set (live s)"
  shows "mp_inv (snd (handle_client_connect fd s))"
proof (cases "first_slot (\<lambda>c. client_fd c \<le> 0) (cm_clients s)")
  case None
  then show ?thesis using assms by (auto simp: handle_client_connect_def mp_inv_def)
next
  case (Some i)
  then have "i < CM_MAX_CLIENT" using assms(1) first_slot_Some [OF Some] by (simp add: mp_inv_def)
  with Some assms show ?thesis by (auto simp: handle_client_connect_def slot_ok_def intro!: mp_inv_slot)
qed

lemma client_disconnect_inv [inv_intros]:
  assumes "mp_inv s"
  shows "mp_inv (handle_client_disconnect fd s)"
proof (cases "first_slot (\<lambda>c. client_fd c = fd) (cm_clients s)")
  case None
  then show ?thesis using assms by (simp add: handle_client_disconnect_def)
next
  case (Some i)
  let ?c = "(cm_clients s ! i)\<lparr>client_fd := fst (safe_close fd s)\<rparr>"
  have i: "i < CM_MAX_CLIENT" "client_fd (cm_clients s ! i) = fd"
    using assms first_slot_Some [OF Some] by (simp_all add: mp_inv_def)
  have "slot_ok i (cm_clients s ! i)" using assms i by (simp add: mp_inv_def)
  then have "slot_ok i ?c" "\<not> client_fd ?c > 0" by (auto simp: slot_ok_def safe_close_def)
  then have "mp_inv (s\<lparr>cm_clients := (cm_clients s)[i := ?c]\<rparr>)" using assms i by (intro mp_inv_slot) auto
  moreover have "length (cm_recv_buffer s) = 4096" using assms by (simp add: mp_inv_def)
  ultimately show ?thesis using Some by (auto simp: handle_client_disconnect_def safe_close_def elim!: mp_inv_cong)
qed

lemma client_request_inv [inv_intros]: "mp_inv s \<Longrightarrow> mp_inv (snd (handle_client_request dev fd n s))"
  by (auto simp: handle_client_request_def non_block_write_def Let_def elim: mp_inv_cong) (auto simp: mp_inv_def)

lemma broadcast_eq: "broadcast cs d s = s\<lparr>writes := writes s @ map (\<lambda>fd. (fd, d)) (filter (\<lambda>fd. fd > 0) (map client_fd cs))\<rparr>"
  by (induction cs d s rule: broadcast.induct) (simp_all add: non_block_write_def)

lemma device_response_inv [inv_intros]: "mp_inv s \<Longrightarrow> mp_inv (handle_device_response n s)"
  by (auto simp: handle_device_response_def non_block_write_def broadcast_eq Let_def mp_inv_def split: option.splits)

lemma receive_inv [inv_intros]: "mp_inv s \<Longrightarrow> length d \<le> 4096 \<Longrightarrow> mp_inv (receive d s)"
  by (simp add: receive_def mp_inv_def)

lemma handle_fd_inv:
  assumes "mp_inv s" "accepted e \<notin> set (live s)" "handle_fd dev e fd s = (c, t)"
  shows "mp_inv t"
proof -
  have r: "mp_inv (receive (take 4096 (input e fd)) s)" using assms(1) by (simp add: receive_inv)
  then have "mp_inv ((receive (take 4096 (input e fd)) s)\<lparr>mbim_server_fd := x\<rparr>)" for x by (simp add: mp_inv_def)
  with assms r show ?thesis
    by (auto simp: handle_fd_def Let_def split: if_splits intro!: inv_intros)
qed

interpretation mp: inv_system mp_start "mp_step dev" mp_inv for dev
proof (unfold_locales, goal_cases)
  case (1 s)
  then show ?case by (auto simp: mp_start_def no_clients_def mp_inv_def slot_ok_def)
next
  case (2 s t)
  then show ?case by (auto elim!: mp_step.cases intro: handle_fd_inv)
qed


section \<open>Requests and answers\<close>

lemma fd_unique:
  assumes "mp_inv s" "i < CM_MAX_CLIENT" "j < CM_MAX_CLIENT" "client_fd (cm_clients s ! i) > 0"
    and "client_fd (cm_clients s ! i) = client_fd (cm_clients s ! j)"
  shows "i = j"
proof -
  have "\<forall>i < CM_MAX_CLIENT. \<forall>j < CM_MAX_CLIENT. client_fd (cm_clients s ! i) > 0 \<longrightarrow>
      client_fd (cm_clients s ! i) = client_fd (cm_clients s ! j) \<longrightarrow> i = j"
    using assms(1) by (simp add: mp_inv_def)
  from this [rule_format, OF assms(2-5)] show ?thesis .
qed

lemma live_slot:
  assumes "mp_inv s" "i < CM_MAX_CLIENT" "client_fd (cm_clients s ! i) = fd" "fd > 0"
  shows "first_slot (\<lambda>c. client_fd c = fd) (cm_clients s) = Some i" "client_idx (cm_clients s ! i) = int i + 1"
    and "first_slot (\<lambda>c. client_idx c = int i + 1 \<and> client_fd c > 0) (cm_clients s) = Some i"
proof -
  have l: "length (cm_clients s) = CM_MAX_CLIENT" and ok: "j < CM_MAX_CLIENT \<Longrightarrow> slot_ok j (cm_clients s ! j)" for j
    using assms(1) by (simp_all add: mp_inv_def)
  have u: "j < CM_MAX_CLIENT \<Longrightarrow> client_fd (cm_clients s ! j) = fd \<Longrightarrow> j = i" for j
    using fd_unique [OF assms(1), of j i] assms(2-4) by simp
  show "first_slot (\<lambda>c. client_fd c = fd) (cm_clients s) = Some i"
    by (rule first_slot_unique) (simp_all add: l assms(2,3) u)
  show idx: "client_idx (cm_clients s ! i) = int i + 1" using ok [of i] assms by (auto simp: slot_ok_def)
  have "j = i" if "j < CM_MAX_CLIENT" "client_idx (cm_clients s ! j) = int i + 1" for j
    using ok [of j] that by (auto simp: slot_ok_def)
  then show "first_slot (\<lambda>c. client_idx c = int i + 1 \<and> client_fd c > 0) (cm_clients s) = Some i"
    by (intro first_slot_unique) (simp_all add: l assms(2,3,4) idx)
qed

lemma live_distinct:
  assumes "mp_inv s"
  shows "distinct (live s)"
proof -
  have l: "length (cm_clients s) = CM_MAX_CLIENT" using assms by (simp add: mp_inv_def)
  have "distinct (filter (\<lambda>fd. fd > 0) (map f xs))"
    if "\<And>i j. i < length xs \<Longrightarrow> j < length xs \<Longrightarrow> f (xs ! i) > 0 \<Longrightarrow> f (xs ! i) = f (xs ! j) \<Longrightarrow> i = j"
    for f :: "CM_CLIENT_T \<Rightarrow> int" and xs
    using that
  proof (induction xs)
    case (Cons x xs)
    have "f x \<notin> set (map f xs)" if "f x > 0"
      using that Cons.prems [of 0] by (force simp: in_set_conv_nth)
    moreover have "distinct (filter (\<lambda>fd. fd > 0) (map f xs))"
    proof (rule Cons.IH)
      fix i j
      assume "i < length xs" "j < length xs" "f (xs ! i) > 0" "f (xs ! i) = f (xs ! j)"
      then show "i = j" using Cons.prems [of "Suc i" "Suc j"] by simp
    qed
    ultimately show ?case by auto
  qed simp
  from this [of "cm_clients s" client_fd] show ?thesis
    using fd_unique [OF assms] l by (simp add: live_def)
qed

lemma msg_receive:
  assumes "12 \<le> length d"
  shows "msg_type (cm_recv_buffer (receive d s)) = msg_type d" "msg_tid (cm_recv_buffer (receive d s)) = msg_tid d"
  using assms by (simp_all add: receive_def msg_type_def msg_tid_def)

lemma set_tid_receive:
  assumes "mp_inv s" "12 \<le> length d"
  shows "take (length d) (set_tid t (cm_recv_buffer (receive d s))) = set_tid t d"
  using assms set_tid_take [of "length d" "cm_recv_buffer (receive d s)" t] by (simp add: receive_def)

lemma request_tagged:
  assumes "mp_inv s" "i < CM_MAX_CLIENT" "client_fd (cm_clients s ! i) = fd" "fd > 0"
    and "12 \<le> length m" "msg_type m \<noteq> MBIM_OPEN_MSG" "msg_type m \<noteq> MBIM_CLOSE_MSG" "length m \<le> 4096"
  shows "handle_client_request dev fd (length m) (receive m s) =
     (0, s\<lparr>cm_recv_buffer := set_tid (msg_tid m OR push_bit TID_SHIFT (word_of_int (int i + 1))) (cm_recv_buffer (receive m s)),
           writes := writes s @ [(dev, set_tid (msg_tid m OR push_bit TID_SHIFT (word_of_int (int i + 1))) m)]\<rparr>)"
proof -
  have "cm_clients (receive m s) = cm_clients s" by (simp add: receive_def)
  then show ?thesis
    using live_slot [OF assms(1-4)] assms(5-8) msg_receive [OF assms(5), of s] set_tid_receive [OF assms(1,5)]
    by (simp add: handle_client_request_def Let_def non_block_write_def) (simp add: receive_def)
qed

lemma answer_untagged:
  assumes "mp_inv s" "i < CM_MAX_CLIENT" "client_fd (cm_clients s ! i) = fd" "fd > 0"
    and "12 \<le> length r" "length r \<le> 4096" "tid < 0x1000000"
    and "msg_tid r = tid OR push_bit TID_SHIFT (word_of_int (int i + 1))"
  shows "writes (handle_device_response (length r) (receive r s)) = writes s @ [(fd, set_tid tid r)]"
proof -
  have i: "i < 32" using assms(2) by (simp add: CM_MAX_CLIENT_def)
  then have "uint (word_of_int (int i + 1) :: u32) = int i + 1" by (simp only: uint_word_of_int_eq) (simp add: take_bit_int_eq_self)
  moreover have "cm_clients (receive r s) = cm_clients s" "writes (receive r s) = writes s" by (simp_all add: receive_def)
  ultimately show ?thesis
    using tagged_client [OF assms(7) i] live_slot(3) [OF assms(1-4)] assms(3) msg_receive [OF assms(5), of s] assms(8)
      set_tid_receive [OF assms(1,5)]
    by (simp add: handle_device_response_def Let_def non_block_write_def)
qed

text \<open>
  A request that a client sends through the proxy reaches the device with its transaction id
  marked, and whenever an answer with the marked id comes back while the client is still
  connected, the proxy hands it to that client and to nobody else, with the id the client had
  chosen. This holds in every run and for ids below \<open>0x1000000\<close>.
\<close>

theorem request_answer_roundtrip:
  assumes "mp_start s0" "(mp_step dev)\<^sup>*\<^sup>* s0 s" "i < CM_MAX_CLIENT" "client_fd (cm_clients s ! i) = fd" "fd > 0"
    and "fd \<noteq> dev" "fd \<noteq> mbim_server_fd s" "\<not> broken e fd" "readable e fd" "accepted e \<notin> set (live s)"
    and "12 \<le> length (input e fd)" "length (input e fd) \<le> 4096"
    and "msg_type (input e fd) \<noteq> MBIM_OPEN_MSG" "msg_type (input e fd) \<noteq> MBIM_CLOSE_MSG" "msg_tid (input e fd) < 0x1000000"
    and "handle_fd dev e fd s = (c, t)" "(mp_step dev)\<^sup>*\<^sup>* t t'" "client_fd (cm_clients t' ! i) = fd"
    and "\<not> broken e' dev" "readable e' dev" "12 \<le> length (input e' dev)" "length (input e' dev) \<le> 4096"
    and "mbim_server_fd t' \<noteq> -1" "mbim_server_fd t' \<noteq> dev"
    and "snd (last (writes t)) = m" "msg_tid (input e' dev) = msg_tid m"
  shows "writes t = writes s @ [(dev, m)] \<and> set_tid (msg_tid (input e fd)) m = input e fd \<and>
     (\<exists>u. handle_fd dev e' dev t' = (GoOn, u) \<and> writes u = writes t' @ [(fd, set_tid (msg_tid (input e fd)) (input e' dev))])"
proof -
  let ?m = "input e fd" and ?r = "input e' dev"
  let ?tag = "msg_tid ?m OR push_bit TID_SHIFT (word_of_int (int i + 1))"
  have inv: "mp_inv s" using mp.reach_inv assms(1,2) by blast
  have d: "take 4096 ?m = ?m" "?m \<noteq> []" "take 4096 ?r = ?r" "?r \<noteq> []" using assms(11,12,21,22) by auto
  have "mp_step dev s t" using assms(10,16) by (rule handled)
  then have inv': "mp_inv t'" using inv assms(17) mp.step_inv mp.run_inv by blast
  have t: "t = s\<lparr>cm_recv_buffer := set_tid ?tag (cm_recv_buffer (receive ?m s)), writes := writes s @ [(dev, set_tid ?tag ?m)]\<rparr>"
    using assms(6-9,16) d request_tagged [OF inv assms(3-5,11,13,14,12)] by (simp add: handle_fd_def Let_def receive_def)
  then have m: "m = set_tid ?tag ?m" "msg_tid m = ?tag" using assms(11,25) by auto
  have b: "set_tid (msg_tid ?m) ?m = ?m"
    using assms(11) by (rule set_tid_msg_tid)
  have "writes (handle_device_response (length ?r) (receive ?r t')) = writes t' @ [(fd, set_tid (msg_tid ?m) ?r)]"
    using assms(26) m by (intro answer_untagged [OF inv' assms(3,18,5,21,22,15)]) simp
  moreover have "handle_fd dev e' dev t' = (GoOn, handle_device_response (length ?r) (receive ?r t'))"
    using assms(19,20,23,24) d by (simp add: handle_fd_def Let_def receive_def)
  moreover have "set_tid x (set_tid y ?m) = set_tid x ?m" for x y using assms(11) by (simp add: set_tid_def)
  ultimately show ?thesis using t m b by simp
qed

text \<open>A run with one client: descriptor 7 connects to the listening socket 5 of the device 3.\<close>

definition sample_proxy :: mbim_proxy where
  "sample_proxy = \<lparr>cm_clients = no_clients, cm_recv_buffer = replicate 4096 0, mbim_server_fd = 5, writes = [], closed = []\<rparr>"

definition sample_poll :: "int \<Rightarrow> byte list \<Rightarrow> mpoll" where
  "sample_poll fd d = \<lparr>poll_ret = 1, broken = (\<lambda>_. False), readable = (\<lambda>x. x = fd), accepted = (if fd = 5 then 7 else 8), new_server = (-1, False, False),
     input = (\<lambda>_. d), read_fails = (\<lambda>_. False)\<rparr>"

definition sample_connected :: mbim_proxy where
  "sample_connected = sample_proxy\<lparr>cm_clients := no_clients[0 := \<lparr>client_fd = 7, client_idx = 1\<rparr>]\<rparr>"

definition sample_request :: "byte list" where
  "sample_request = le32_bytes 3 @ le32_bytes 12 @ le32_bytes 9"

lemma sample_start: "mp_start sample_proxy"
  by (simp add: mp_start_def sample_proxy_def)

lemma sample_run: "(mp_step 3)\<^sup>*\<^sup>* sample_proxy sample_connected"
proof -
  have "first_slot (\<lambda>c. client_fd c \<le> 0) no_clients = Some 0"
    by (simp add: no_clients_def CM_MAX_CLIENT_def numeral_eq_Suc)
  then have "handle_fd 3 (sample_poll 5 []) 5 sample_proxy = (GoOn, sample_connected)"
    by (simp add: handle_fd_def sample_poll_def sample_proxy_def sample_connected_def handle_client_connect_def)
  moreover have "accepted (sample_poll 5 []) \<notin> set (live sample_proxy)"
    by (simp add: live_def sample_proxy_def no_clients_def)
  ultimately show ?thesis by (blast intro: handled)
qed

lemma sample_slot: "client_fd (cm_clients sample_connected ! 0) = 7"
  by (simp add: sample_connected_def no_clients_def CM_MAX_CLIENT_def)

lemma sample_live: "live sample_connected = [7]"
  by (simp add: live_def sample_connected_def no_clients_def CM_MAX_CLIENT_def numeral_eq_Suc)

lemma request_answer_roundtrip_witness:
  "\<exists>t u. handle_fd 3 (sample_poll 7 sample_request) 7 sample_connected = (GoOn, t) \<and> writes t = [(3, set_tid 0x1000009 sample_request)] \<and>
     handle_fd 3 (sample_poll 3 (set_tid 0x1000009 sample_request)) 3 t = (GoOn, u) \<and>
     writes u = writes t @ [(7, set_tid 9 (set_tid 0x1000009 sample_request))]"
proof -
  let ?e = "sample_poll 7 sample_request" and ?m = "set_tid 0x1000009 sample_request"
  obtain c t where t: "handle_fd 3 ?e 7 sample_connected = (c, t)" by fastforce
  have inv: "mp_inv sample_connected" using mp.reach_inv [OF sample_start sample_run] .
  have req: "length sample_request = 12" "msg_tid sample_request = 9" "msg_type sample_request = 3"
    by (simp_all add: sample_request_def msg_tid_def msg_type_def fld32_def fld8_def le32_bytes_def le32_of_def)
  have z: "0 < CM_MAX_CLIENT" by (simp add: CM_MAX_CLIENT_def)
  have r: "sample_request \<noteq> []" "take 4096 sample_request = sample_request" "mbim_server_fd sample_connected = 5" "mbim_server_fd (receive d sample_connected) = 5" for d
    using req by (auto simp: sample_connected_def sample_proxy_def receive_def)
  have tag: "handle_client_request 3 7 12 (receive sample_request sample_connected) =
      (0, sample_connected\<lparr>cm_recv_buffer := set_tid 0x1000009 (cm_recv_buffer (receive sample_request sample_connected)), writes := [(3, ?m)]\<rparr>)"
    using request_tagged [OF inv z sample_slot, of sample_request 3] req
    by (simp add: MBIM_OPEN_MSG_def MBIM_CLOSE_MSG_def TID_SHIFT_def sample_connected_def sample_proxy_def)
  have w: "writes t = [(3, ?m)]" "c = GoOn" "mbim_server_fd t = 5" "cm_clients t = cm_clients sample_connected"
    using t tag req r by (auto simp: handle_fd_def sample_poll_def Let_def)
  have "writes t = writes sample_connected @ [(3, ?m)] \<and> set_tid (msg_tid (input ?e 7)) ?m = input ?e 7 \<and>
     (\<exists>u. handle_fd 3 (sample_poll 3 ?m) 3 t = (GoOn, u) \<and>
        writes u = writes t @ [(7, set_tid (msg_tid (input ?e 7)) (input (sample_poll 3 ?m) 3))])"
    by (rule request_answer_roundtrip [where i = 0, OF sample_start sample_run z sample_slot _ _ _ _ _ _ _ _ _ _ _ t rtranclp.rtrancl_refl])
      (use req w sample_slot sample_live in \<open>simp_all add: sample_poll_def MBIM_OPEN_MSG_def MBIM_CLOSE_MSG_def word_less_nat_alt
        sample_connected_def sample_proxy_def\<close>)
  then show ?thesis using t w req by (auto simp: sample_poll_def)
qed

text \<open>
  C35. A message of the device that answers nobody, with transaction id 0, goes unchanged to
  every connected client, once to each; any other message goes to at most one client, the one in
  the slot its upper byte names, and to nobody when that slot is empty.
\<close>

theorem device_message_delivery:
  assumes "mp_start s0" "(mp_step dev)\<^sup>*\<^sup>* s0 s" "mbim_server_fd s \<noteq> -1" "mbim_server_fd s \<noteq> dev"
    and "\<not> broken e dev" "readable e dev" "input e dev = r" "12 \<le> length r" "length r \<le> 4096"
  shows "\<exists>t. handle_fd dev e dev s = (GoOn, t) \<and> distinct (live s) \<and> cm_clients t = cm_clients s \<and>
     writes t = writes s @
       (if msg_tid r = 0 then map (\<lambda>fd. (fd, r)) (live s)
        else let i = unat (drop_bit 24 (msg_tid r)) in
          if 0 < i \<and> i \<le> CM_MAX_CLIENT \<and> client_fd (cm_clients s ! (i - 1)) > 0
          then [(client_fd (cm_clients s ! (i - 1)), set_tid (msg_tid r AND 0xFFFFFF) r)] else [])"
proof -
  have inv: "mp_inv s" using mp.reach_inv assms(1,2) by blast
  let ?t = "handle_device_response (length r) (receive r s)" and ?i = "unat (drop_bit 24 (msg_tid r))"
  have d: "take 4096 r = r" "r \<noteq> []" using assms(8,9) by auto
  have h: "handle_fd dev e dev s = (GoOn, ?t)"
    using assms(3-7) d by (simp add: handle_fd_def Let_def receive_def)
  have rc: "cm_clients (receive r s) = cm_clients s" "writes (receive r s) = writes s" "take (length r) (cm_recv_buffer (receive r s)) = r"
    by (simp_all add: receive_def)
  note m = msg_receive(2) [OF assms(8), of s]
  have "distinct (live s)" using inv by (rule live_distinct)
  moreover have "cm_clients ?t = cm_clients s"
    by (simp add: handle_device_response_def rc broadcast_eq non_block_write_def Let_def split: option.split)
  moreover have "writes ?t = writes s @ map (\<lambda>fd. (fd, r)) (live s)" if "msg_tid r = 0"
    using that m rc by (simp add: handle_device_response_def broadcast_eq live_def)
  moreover have "writes ?t = writes s @ [(client_fd (cm_clients s ! (?i - 1)), set_tid (msg_tid r AND 0xFFFFFF) r)]"
    if "msg_tid r \<noteq> 0" "0 < ?i" "?i \<le> CM_MAX_CLIENT" "client_fd (cm_clients s ! (?i - 1)) > 0"
  proof -
    have "uint (drop_bit 24 (msg_tid r)) = int (?i - 1) + 1" using that(2) by (simp add: of_nat_diff)
    then show ?thesis
      using live_slot(3) [OF inv, of "?i - 1", OF _ refl] that m rc set_tid_receive [OF inv assms(8)]
      by (simp add: handle_device_response_def non_block_write_def TID_SHIFT_def TID_MASK_def Let_def)
  qed
  moreover have "writes ?t = writes s" if "msg_tid r \<noteq> 0" "\<not> (0 < ?i \<and> ?i \<le> CM_MAX_CLIENT \<and> client_fd (cm_clients s ! (?i - 1)) > 0)"
  proof -
    have "\<not> (client_idx (cm_clients s ! j) = uint (drop_bit 24 (msg_tid r)) \<and> client_fd (cm_clients s ! j) > 0)" if "j < CM_MAX_CLIENT" for j
    proof
      assume a: "client_idx (cm_clients s ! j) = uint (drop_bit 24 (msg_tid r)) \<and> client_fd (cm_clients s ! j) > 0"
      moreover have "slot_ok j (cm_clients s ! j)" using inv that by (simp add: mp_inv_def)
      ultimately have "?i = j + 1" by (auto simp: slot_ok_def unat_eq_nat_uint)
      then show False using a that \<open>\<not> (0 < ?i \<and> _ \<and> _)\<close> by simp
    qed
    then have "first_slot (\<lambda>c. client_idx c = uint (drop_bit 24 (msg_tid r)) \<and> client_fd c > 0) (cm_clients s) = None"
      using inv by (auto simp: first_slot_None mp_inv_def)
    then show ?thesis using that m rc by (simp add: handle_device_response_def TID_SHIFT_def Let_def)
  qed
  ultimately show ?thesis using h by (auto simp: Let_def)
qed

lemma device_message_delivery_witness:
  "\<exists>t. handle_fd 3 (sample_poll 3 (set_tid 0 sample_request)) 3 sample_connected = (GoOn, t) \<and> writes t = [(7, set_tid 0 sample_request)]"
proof -
  let ?r = "set_tid 0 sample_request"
  have l: "length sample_request = 12" by (simp add: sample_request_def)
  have s: "mbim_server_fd sample_connected = 5" "writes sample_connected = []" by (simp_all add: sample_connected_def sample_proxy_def)
  have "\<exists>t. handle_fd 3 (sample_poll 3 ?r) 3 sample_connected = (GoOn, t) \<and> distinct (live sample_connected) \<and>
      cm_clients t = cm_clients sample_connected \<and> writes t = writes sample_connected @
       (if msg_tid ?r = 0 then map (\<lambda>fd. (fd, ?r)) (live sample_connected)
        else let i = unat (drop_bit 24 (msg_tid ?r)) in
          if 0 < i \<and> i \<le> CM_MAX_CLIENT \<and> client_fd (cm_clients sample_connected ! (i - 1)) > 0
          then [(client_fd (cm_clients sample_connected ! (i - 1)), set_tid (msg_tid ?r AND 0xFFFFFF) ?r)] else [])"
    by (rule device_message_delivery [OF sample_start sample_run]) (simp_all add: s l sample_poll_def)
  then show ?thesis using l s sample_live by auto
qed

section \<open>A client that ends\<close>

lemma handle_fds_quiet:
  "(\<And>x. x \<in> set xs \<Longrightarrow> \<not> broken e x \<and> \<not> readable e x) \<Longrightarrow> handle_fds dev e (xs @ ys) s = handle_fds dev e ys s"
  by (induction xs) (simp_all add: handle_fd_def)

lemma first_slot_removed:
  "first_slot (\<lambda>c. client_fd c = fd) cs = Some i \<Longrightarrow> fd > 0 \<Longrightarrow> client_fd c \<le> 0 \<Longrightarrow>
   filter (\<lambda>fd. fd > 0) (map client_fd (cs[i := c])) = remove1 fd (filter (\<lambda>fd. fd > 0) (map client_fd cs))"
proof (induction cs arbitrary: i)
  case (Cons x xs)
  then show ?case by (cases i) (auto split: if_splits)
qed simp

lemma disconnect_live:
  assumes "fd \<in> set (live s)"
  shows "live (handle_client_disconnect fd s) = remove1 fd (live s)" "closed (handle_client_disconnect fd s) = closed s @ [fd]"
    and "mbim_server_fd (handle_client_disconnect fd s) = mbim_server_fd s"
proof -
  have pos: "fd > 0" and "fd \<in> client_fd ` set (cm_clients s)" using assms by (auto simp: live_def)
  then have "first_slot (\<lambda>c. client_fd c = fd) (cm_clients s) \<noteq> None" by (auto simp: first_slot_None in_set_conv_nth)
  then obtain i where i: "first_slot (\<lambda>c. client_fd c = fd) (cm_clients s) = Some i" by blast
  with pos first_slot_removed [OF i pos] show "live (handle_client_disconnect fd s) = remove1 fd (live s)"
    "closed (handle_client_disconnect fd s) = closed s @ [fd]" "mbim_server_fd (handle_client_disconnect fd s) = mbim_server_fd s"
    by (simp_all add: handle_client_disconnect_def safe_close_def live_def)
qed

text \<open>
  A client that closes its sending side, so that \<open>read\<close> returns 0, ends the whole loop:
  \<open>proxy_loop\<close> returns after closing this client only. The listening socket and the other clients
  stay open, and the next round of \<open>main\<close> has forgotten them.
\<close>

theorem client_eof_ends_loop:
  assumes "mbim_server_fd s > 0" "fd \<in> set (live s)" "fd \<noteq> dev" "fd \<noteq> mbim_server_fd s"
    and "poll_ret e > 0" "broken e = (\<lambda>_. False)" "readable e = (\<lambda>x. x = fd)" "input e fd = []"
  shows "\<exists>t. proxy_rounds dev (e # es) s = (Some (if read_fails e fd then -1 else 0), t) \<and>
     closed t = closed s @ [fd] \<and> mbim_server_fd t = mbim_server_fd s \<and> live t = remove1 fd (live s) \<and>
     live (proxy_main [(4, [])] t) = [] \<and> closed (proxy_main [(4, [])] t) = closed t"
proof -
  let ?t = "handle_client_disconnect fd s"
  obtain xs ys where xy: "live s = xs @ fd # ys" "fd \<notin> set xs" using assms(2) by (meson split_list_first)
  have "pollfds dev s = (dev # mbim_server_fd s # xs) @ fd # ys" using assms(1) xy by (simp add: pollfds_def live_def)
  moreover have "handle_fds dev e ((dev # mbim_server_fd s # xs) @ fd # ys) s = handle_fds dev e (fd # ys) s"
    using assms(3,4,6,7) xy(2) by (intro handle_fds_quiet) auto
  ultimately have "poll_round dev e s = (Return (if read_fails e fd then -1 else 0), ?t)"
    using assms(3-8) by (simp add: poll_round_def handle_fd_def)
  moreover have "live (proxy_main [(4, [])] t) = [] \<and> closed (proxy_main [(4, [])] t) = closed t" for t
    by (simp add: mbim_send_open_msg_def non_block_write_def proxy_loop_def live_def no_clients_def)
  ultimately show ?thesis using disconnect_live [OF assms(2)] by simp
qed

lemma client_eof_ends_loop_witness:
  "\<exists>t. proxy_rounds 3 [sample_poll 7 []] sample_connected = (Some 0, t) \<and> closed t = [7] \<and> mbim_server_fd t = 5"
proof -
  have s: "mbim_server_fd sample_connected = 5" "closed sample_connected = []" by (simp_all add: sample_connected_def sample_proxy_def)
  have "7 \<in> set (live sample_connected)" by (simp add: sample_live)
  from client_eof_ends_loop [OF _ this, of 3 "sample_poll 7 []" "[]"] s show ?thesis by (auto simp: sample_poll_def)
qed

end
