(* ===== verification/MhiNet.thy ===== *)
theory MhiNet
  imports Qmap MhiRing
begin

text \<open>
  The packet formats of the PCIe network driver, \<^verbatim>\<open>quectel_MHI/src/devices/mhi_netdev_quectel.c\<close>:
  the sub-devices and their private data, the MBIM transfer blocks (NTB) the driver builds and takes
  apart, the QMAP frames with their flow control commands, and bridge mode. Socket buffers, QMAP
  headers and the bridge's transmit side are the same code as in the USB driver and come from
  \<open>Qmap\<close>. The configuration: sub-devices (no \<open>MHI_NETDEV_ONE_CARD_MODE\<close>), the bridge module, no NSS
  offload, no \<open>CONFIG_USE_RMNET_DATA_FOR_SKIP_MEMCPY\<close>, a kernel later than 6.1.
\<close>

section \<open>State\<close>

datatype mhi_net_type = MHI_NET_UNKNOW | MHI_NET_RMNET | MHI_NET_MBIM | MHI_NET_ETHER

text \<open>The module parameters.\<close>

record mhi_params =
  par_qmap_mode :: u32
  par_mhi_mbim_enabled :: bool
  par_bridge_mode :: u32

text \<open>The private data of a sub-device, with its statistics.\<close>

record vnd_priv =
  v_offset_id :: byte
  v_mux_id :: byte
  v_qmap_version :: byte
  v_bridge_mode :: u32
  v_bridge_ipv4 :: u32
  v_bridge_mac :: "byte list"
  v_rx_packets :: nat
  v_rx_bytes :: nat
  v_tx_packets :: nat
  v_tx_bytes :: nat
  v_tx_errors :: nat

text \<open>
  An entry of \<open>mpQmapNetDev\<close>: null, the device itself, a sub-device, or a pointer to a sub-device
  that was freed when its registration failed.
\<close>

datatype nslot = NullDev | SelfDev | Vnd net_device vnd_priv | FreedDev

record mhi_netdev =
  net_type :: mhi_net_type
  nd_enabled :: bool
  tx_seq :: u16                     \<comment> \<open>\<open>mbim_ctx\<close>\<close>
  rx_seq :: u16
  rx_max :: u32
  mbim_mux_id :: u32
  mru :: u32
  max_mtu :: u32
  ndev :: net_device
  mpQmapNetDev :: "nslot list"
  nd_qmap_mode :: u32
  nd_qmap_version :: u32
  nd_qmap_size :: u32
  nd_link_state :: u32
  flow_control :: u32
  nd_dl_minimum_padding :: u32
  nd_bridge_mode :: u32
  nd_bridge_ipv4 :: u32
  nd_bridge_mac :: "byte list"
  use_rmnet_usb :: bool
  info_mux_id :: "byte list"        \<comment> \<open>\<open>rmnet_info.mux_id\<close>\<close>
  rmnet_map_command_stats :: "u32 list"
  alloc_failed :: u32
  nd_tx_errors :: nat
  to_ndev :: "skb list"             \<comment> \<open>handed to \<open>dev_queue_xmit\<close> for the device and not yet transmitted\<close>

text \<open>Following a pointer of the table: \<open>None\<close> is a null or dangling pointer, or an index outside.\<close>

definition vnd_at :: "mhi_netdev \<Rightarrow> nat \<Rightarrow> (net_device \<times> vnd_priv) option" where
  "vnd_at s i = (if i < length (mpQmapNetDev s) then (case mpQmapNetDev s ! i of Vnd n p \<Rightarrow> Some (n, p) | _ \<Rightarrow> None) else None)"

section \<open>Packets handed to the stack\<close>

record vpkt =
  vr_dev :: nat
  vr_protocol :: u16
  vr_mac :: "byte list"             \<comment> \<open>the link header, empty on a raw IP device\<close>
  vr_data :: "byte list"

definition vnd_dest :: "mhi_netdev \<Rightarrow> net_device \<Rightarrow> vnd_priv \<Rightarrow> byte list" where
  "vnd_dest s n p =
     (let (mode, mac) = (if nd_qmap_mode s > 0 then (v_bridge_mode p, v_bridge_mac p) else (nd_bridge_mode s, nd_bridge_mac s)) in
      if mode \<noteq> 0 then mac else nd_addr n)"

definition vnd_packet :: "mhi_netdev \<Rightarrow> nat \<Rightarrow> net_device \<Rightarrow> vnd_priv \<Rightarrow> u16 \<Rightarrow> byte list \<Rightarrow> vpkt" where
  "vnd_packet s i n p proto d =
     \<lparr>vr_dev = i, vr_protocol = proto,
      vr_mac = (if nd_ether n then vnd_dest s n p @ default_modem_addr @ be16_bytes proto else []), vr_data = d\<rparr>"

definition rmnet_vnd_upate_rx_stats :: "vpkt \<Rightarrow> mhi_netdev \<Rightarrow> mhi_netdev" where
  "rmnet_vnd_upate_rx_stats k s =
     (case vnd_at s (vr_dev k) of None \<Rightarrow> s
      | Some (n, p) \<Rightarrow> s\<lparr>mpQmapNetDev := (mpQmapNetDev s)[vr_dev k :=
          Vnd n (p\<lparr>v_rx_packets := v_rx_packets p + 1, v_rx_bytes := v_rx_bytes p + length (vr_data k)\<rparr>)]\<rparr>)"

section \<open>MBIM transfer blocks\<close>

definition USB_CDC_NCM_NTH16_SIGN :: u32 where "USB_CDC_NCM_NTH16_SIGN = 0x484D434E"
definition USB_CDC_MBIM_NDP16_IPS_SIGN :: u32 where "USB_CDC_MBIM_NDP16_IPS_SIGN = 0x00535049"
definition USB_CDC_MBIM_NDP16_DSS_SIGN :: u32 where "USB_CDC_MBIM_NDP16_DSS_SIGN = 0x00535344"

text \<open>The structures \<open>nth16\<close>, \<open>ndp16\<close> and \<open>dpe16\<close>.\<close>

definition nth16_bytes :: "u16 \<Rightarrow> u16 \<Rightarrow> u16 \<Rightarrow> byte list" where
  "nth16_bytes wSequence wBlockLength wNdpIndex =
     le32_bytes USB_CDC_NCM_NTH16_SIGN @ le16_bytes 12 @ le16_bytes wSequence @ le16_bytes wBlockLength @ le16_bytes wNdpIndex"

definition ndp16_bytes :: "byte \<Rightarrow> u16 \<Rightarrow> u16 \<Rightarrow> byte list" where
  "ndp16_bytes tci wLength wNextNdpIndex =
     take 3 (le32_bytes USB_CDC_MBIM_NDP16_IPS_SIGN) @ [tci] @ le16_bytes wLength @ le16_bytes wNextNdpIndex"

definition dpe16_bytes :: "nat \<Rightarrow> nat \<Rightarrow> byte list" where
  "dpe16_bytes wDatagramIndex wDatagramLength = le16_bytes (of_nat wDatagramIndex) @ le16_bytes (of_nat wDatagramLength)"

text \<open>\<open>wSequence\<close> is not set here: it keeps what the head room held, \<open>old\<close>.\<close>

definition add_mbim_hdr :: "mhi_params \<Rightarrow> u16 \<Rightarrow> skb \<Rightarrow> byte \<Rightarrow> skb option" where
  "add_mbim_hdr par old s mux =
     (let tci = (ucast mux :: u16) + (if par_qmap_mode par > 1 then 1 else 0); skb_len = length (s_data s) in
      if s_headroom s < 28 then None
      else skb_push (nth16_bytes old (of_nat (skb_len + 28)) 12 @ ndp16_bytes (ucast tci) 16 0 @
             dpe16_bytes 28 skb_len @ dpe16_bytes 0 0) s)"

datatype ntb_end = NtbOk | NtbError | NtbNoMem | NtbFault

definition tci_of :: "u32 \<Rightarrow> u16 option" where
  "tci_of dwSignature =
     (if dwSignature AND 0x00ffffff = USB_CDC_MBIM_NDP16_IPS_SIGN then Some (ucast (drop_bit 24 dwSignature))
      else if dwSignature AND 0x00ffffff = USB_CDC_MBIM_NDP16_DSS_SIGN then Some (ucast (drop_bit 24 dwSignature) + 256)
      else None)"

text \<open>The index of the sub-device of a session, in unsigned arithmetic; \<open>None\<close> is an unsupported session.\<close>

definition mbim_index :: "mhi_params \<Rightarrow> mhi_netdev \<Rightarrow> u16 \<Rightarrow> u32 option" where
  "mbim_index par s tci =
     (if par_qmap_mode par = 1 \<and> ucast tci \<noteq> mbim_mux_id s \<or> par_qmap_mode par > 1 \<and> ucast tci - mbim_mux_id s > par_qmap_mode par then None
      else Some (if par_qmap_mode par = 1 then 0 else ucast tci - 1 - mbim_mux_id s))"

text \<open>
  The datagrams of one NDP16: \<open>a\<close> is the offset of the next entry, \<open>n\<close> the number of entries left, \<open>k\<close>
  the number of buffers allocated so far, of which \<open>alloc\<close> says whether the allocation succeeds.
\<close>

fun dpe_loop :: "(nat \<Rightarrow> bool) \<Rightarrow> mhi_netdev \<Rightarrow> byte list \<Rightarrow> nat \<Rightarrow> nat \<Rightarrow> nat \<Rightarrow> nat \<Rightarrow> ntb_end \<times> vpkt list \<times> nat" where
  "dpe_loop alloc s d i a 0 k = (NtbOk, [], k)"
| "dpe_loop alloc s d i a (Suc n) k =
     (if length d < a + 4 then (NtbFault, [], k)
      else let offset = unat (fld16 d a); skb_len = unat (fld16 d (a + 2)) in
      if offset = 0 \<or> skb_len = 0 then (NtbOk, [], k)
      else if offset + skb_len > length d \<or> skb_len > unat (rx_max s) then (NtbError, [], k)
      else if \<not> alloc k then (NtbNoMem, [], k)
      else case ip_protocol_of (fld8 d offset) of None \<Rightarrow> (NtbError, [], k)
      | Some proto \<Rightarrow> (case vnd_at s i of None \<Rightarrow> (NtbFault, [], k)
        | Some (nt, p) \<Rightarrow> (case dpe_loop alloc s d i (a + 4) n (Suc k) of
            (e, ps, k') \<Rightarrow> (e, vnd_packet s i nt p proto (take skb_len (drop offset d)) # ps, k'))))"

text \<open>
  The chain of NDP16s. A chain that comes back to itself is never left: \<open>None\<close>. An entry behind the
  end of the block, or an index outside of the table, is \<open>NtbFault\<close>.
\<close>

definition ndp_head :: "mhi_params \<Rightarrow> mhi_netdev \<Rightarrow> byte list \<Rightarrow> nat \<Rightarrow> ntb_end + nat \<times> nat" where
  "ndp_head par s d off =
     (if length d < off + 8 then Inl NtbError
      else let wl = unat (fld16 d (off + 4)); nframes = (wl - 8) div 4 in
      if wl < 16 then Inl NtbError
      else if length d < 8 + nframes * 4 then Inl NtbError
      else case tci_of (fld32 d off) of None \<Rightarrow> Inl NtbError
      | Some tci \<Rightarrow> (case mbim_index par s tci of None \<Rightarrow> Inl NtbError
        | Some i \<Rightarrow> if unat i < length (mpQmapNetDev s) then Inr (unat i, nframes) else Inl NtbFault))"

partial_function (option) ndp_loop ::
  "mhi_params \<Rightarrow> (nat \<Rightarrow> bool) \<Rightarrow> mhi_netdev \<Rightarrow> byte list \<Rightarrow> nat \<Rightarrow> nat \<Rightarrow> (ntb_end \<times> vpkt list) option" where
  "ndp_loop par alloc s d off k =
     (if off = 0 then Some (NtbOk, [])
      else case ndp_head par s d off of Inl e \<Rightarrow> Some (e, [])
      | Inr (i, nframes) \<Rightarrow> (case dpe_loop alloc s d i (off + 8) nframes k of (e, ps, k') \<Rightarrow>
          if e \<noteq> NtbOk then Some (e, ps)
          else Option.bind (ndp_loop par alloc s d (unat (fld16 d (off + 6))) k') (\<lambda>r. Some (fst r, ps @ snd r))))"

text \<open>The packets come out of the chain in order, whatever ended the loop.\<close>

definition rmnet_mbim_rx_handler ::
  "mhi_params \<Rightarrow> (nat \<Rightarrow> bool) \<Rightarrow> byte list \<Rightarrow> mhi_netdev \<Rightarrow> (ntb_end \<times> vpkt list \<times> mhi_netdev) option" where
  "rmnet_mbim_rx_handler par alloc d s =
     (if length d < 20 \<or> fld32 d 0 \<noteq> USB_CDC_NCM_NTH16_SIGN \<or> unat (fld16 d 8) > unat (rx_max s) then Some (NtbError, [], s)
      else map_option (\<lambda>(e, ps). (e, ps, fold rmnet_vnd_upate_rx_stats ps
             (s\<lparr>rx_seq := fld16 d 6 + 1, alloc_failed := alloc_failed s + (if e = NtbNoMem then 1 else 0)\<rparr>)))
           (ndp_loop par alloc s d (unat (fld16 d 10)) 0))"

section \<open>QMAP frames and flow control\<close>

definition RMNET_MAP_COMMAND_FLOW_DISABLE :: byte where "RMNET_MAP_COMMAND_FLOW_DISABLE = 1"
definition RMNET_MAP_COMMAND_FLOW_ENABLE :: byte where "RMNET_MAP_COMMAND_FLOW_ENABLE = 2"
definition RMNET_MAP_COMMAND_UNKNOWN :: nat where "RMNET_MAP_COMMAND_UNKNOWN = 9"
definition RMNET_MAP_COMMAND_ENUM_LENGTH :: nat where "RMNET_MAP_COMMAND_ENUM_LENGTH = 10"
definition RMNET_MAP_COMMAND_ACK :: byte where "RMNET_MAP_COMMAND_ACK = 1"
definition RMNET_MAP_COMMAND_UNSUPPORTED :: byte where "RMNET_MAP_COMMAND_UNSUPPORTED = 2"

text \<open>The acknowledgement is a copy of the header and the command with its type replaced.\<close>

definition ack_bytes :: "byte \<Rightarrow> byte list \<Rightarrow> byte list" where
  "ack_bytes type m = take 5 m @ [(m ! 5 AND 0xFC) OR (type AND 0x03)] @ take 14 (drop 6 m)"

definition rmnet_map_send_ack :: "byte \<Rightarrow> byte list \<Rightarrow> mhi_netdev \<Rightarrow> mhi_netdev" where
  "rmnet_map_send_ack type m s =
     s\<lparr>to_ndev := to_ndev s @ [\<lparr>s_headroom = 0, s_data = ack_bytes type m, s_tail = [], s_protocol = ETH_P_MAP\<rparr>]\<rparr>"

definition rmnet_map_do_flow_control :: "byte list \<Rightarrow> bool \<Rightarrow> mhi_netdev \<Rightarrow> byte \<times> mhi_netdev" where
  "rmnet_map_do_flow_control m enable s =
     (let mux = fld8 m 1 - QUECTEL_QMAP_MUX_ID in
      if nd_qmap_mode s \<le> ucast mux then (RMNET_MAP_COMMAND_UNSUPPORTED, s)
      else if unat mux < length (mpQmapNetDev s) \<and> mpQmapNetDev s ! unat mux = NullDev then (RMNET_MAP_COMMAND_UNSUPPORTED, s)
      else (RMNET_MAP_COMMAND_ACK,
        s\<lparr>flow_control := (if enable then flow_control s OR push_bit (unat mux) 1 else flow_control s AND NOT (push_bit (unat mux) 1))\<rparr>))"

definition bump :: "nat \<Rightarrow> mhi_netdev \<Rightarrow> mhi_netdev" where
  "bump i s = s\<lparr>rmnet_map_command_stats := (rmnet_map_command_stats s)[i := rmnet_map_command_stats s ! i + 1]\<rparr>"

text \<open>\<open>m\<close> is the memory from the header on: the rest of the frame and what lies behind it in the buffer.\<close>

definition rmnet_data_map_command :: "bool \<Rightarrow> byte list \<Rightarrow> mhi_netdev \<Rightarrow> mhi_netdev option" where
  "rmnet_data_map_command alloc_ok m s =
     (let name = fld8 m 4; s1 = (if unat name < RMNET_MAP_COMMAND_ENUM_LENGTH then bump (unat name) s else s);
          (rc, s2) = (if name = RMNET_MAP_COMMAND_FLOW_ENABLE then rmnet_map_do_flow_control m True s1
             else if name = RMNET_MAP_COMMAND_FLOW_DISABLE then rmnet_map_do_flow_control m False s1
             else (RMNET_MAP_COMMAND_UNSUPPORTED, bump RMNET_MAP_COMMAND_UNKNOWN s1)) in
      if rc \<noteq> RMNET_MAP_COMMAND_ACK \<or> \<not> alloc_ok then Some s2
      else if length m < 20 then None else Some (rmnet_map_send_ack rc m s2))"

datatype qmi_step = QmiStop | QmiNoMem | QmiFault | QmiSkip nat | QmiCommand nat | QmiPacket vpkt nat

definition qmi_min_padding :: "mhi_netdev \<Rightarrow> u32" where
  "qmi_min_padding s = (if nd_qmap_version s = 9 then nd_dl_minimum_padding s else 0)"

text \<open>One turn of the loop, on the bytes \<open>d\<close> left in the frame.\<close>

definition qmi_rx_step :: "bool \<Rightarrow> byte list \<Rightarrow> mhi_netdev \<Rightarrow> qmi_step" where
  "qmi_rx_step alloc_ok d s =
     (let h0 = fld8 d 0;
          hdr_size = (if mh_next_hdr h0 then 8 else 4);
          pkt_len = unat (be16_of (fld8 d 2) (fld8 d 3));
          skb_len = (of_nat pkt_len - ucast (mh_pad_len h0)) - qmi_min_padding s :: u32;
          mux = (ucast (fld8 d 1) - ucast QUECTEL_QMAP_MUX_ID) :: u32 in
      if nd_qmap_mode s \<le> mux then QmiStop
      else if length (mpQmapNetDev s) \<le> unat mux then QmiFault
      else if mpQmapNetDev s ! unat mux = NullDev then QmiSkip (pkt_len + hdr_size)
      else case vnd_at s (unat mux) of None \<Rightarrow> QmiFault
      | Some (n, p) \<Rightarrow>
          if nd_mtu n < skb_len then QmiStop
          else if length d < pkt_len + hdr_size then QmiStop
          else if mh_cd_bit h0 then QmiCommand (pkt_len + hdr_size)
          else if length d \<le> hdr_size then QmiFault
          else case ip_protocol_of (fld8 d hdr_size) of None \<Rightarrow> QmiStop
          | Some proto \<Rightarrow>
              if \<not> alloc_ok then QmiNoMem
              else if length d < hdr_size + unat skb_len then QmiFault
              else QmiPacket (vnd_packet s (unat mux) n p proto (take (unat skb_len) (drop hdr_size d))) (pkt_len + hdr_size))"

text \<open>\<open>tail\<close> is what the receive buffer holds behind the frame. The result says whether the driver failed.\<close>

partial_function (option) qmi_rx_loop ::
  "(nat \<Rightarrow> bool) \<Rightarrow> byte list \<Rightarrow> byte list \<Rightarrow> mhi_netdev \<Rightarrow> (bool \<times> vpkt list \<times> mhi_netdev) option" where
  "qmi_rx_loop alloc tail d s =
     (if length d > 4 then
        (case qmi_rx_step (alloc 0) d s of
           QmiStop \<Rightarrow> Some (False, [], s)
         | QmiNoMem \<Rightarrow> Some (False, [], s\<lparr>alloc_failed := alloc_failed s + 1\<rparr>)
         | QmiFault \<Rightarrow> Some (True, [], s)
         | QmiSkip n \<Rightarrow> qmi_rx_loop (\<lambda>i. alloc (Suc i)) tail (pull_in n d) s
         | QmiCommand n \<Rightarrow> (case rmnet_data_map_command (alloc 0) (d @ tail) s of
             None \<Rightarrow> Some (True, [], s)
           | Some s1 \<Rightarrow> qmi_rx_loop (\<lambda>i. alloc (Suc i)) tail (pull_in n d) s1)
         | QmiPacket k n \<Rightarrow> Option.bind (qmi_rx_loop (\<lambda>i. alloc (Suc i)) tail (pull_in n d) s)
             (\<lambda>r. Some (fst r, k # fst (snd r), snd (snd r))))
      else Some (False, [], s))"

definition rmnet_qmi_rx_handler ::
  "(nat \<Rightarrow> bool) \<Rightarrow> byte list \<Rightarrow> byte list \<Rightarrow> mhi_netdev \<Rightarrow> (bool \<times> vpkt list \<times> mhi_netdev) option" where
  "rmnet_qmi_rx_handler alloc tail d s =
     map_option (\<lambda>(f, ps, t). (f, ps, fold rmnet_vnd_upate_rx_stats ps t)) (qmi_rx_loop alloc tail d s)"

section \<open>The QMAP decoder and that of the USB driver\<close>

text \<open>The state of the USB driver with the same sub-devices.\<close>

definition usb_priv :: "vnd_priv \<Rightarrow> qmap_priv" where
  "usb_priv p = \<lparr>offset_id = v_offset_id p, mux_id = v_mux_id p, qmap_version = v_qmap_version p, link_state = 0, agg_skb = None,
     agg_count = 0, agg_time = 0, agg_hrtimer = False, agg_wq = False, bridge_mode = v_bridge_mode p, bridge_ipv4 = v_bridge_ipv4 p,
     bridge_mac = v_bridge_mac p, tx_packets = v_tx_packets p, tx_bytes = v_tx_bytes p, tx_errors = v_tx_errors p\<rparr>"

fun usb_slot :: "nslot \<Rightarrow> slot" where
  "usb_slot (Vnd n p) = SubDev n (usb_priv p)"
| "usb_slot _ = NoDev"

definition usb_view :: "mhi_netdev \<Rightarrow> sQmiWwanQmap" where
  "usb_view s = \<lparr>q_net = ndev s, q_noarp = True, q_mpQmapNetDev = map usb_slot (mpQmapNetDev s), q_link_state = nd_link_state s,
     q_qmap_mode = nd_qmap_mode s, q_qmap_size = nd_qmap_size s, q_qmap_version = nd_qmap_version s,
     q_tx_ctx = \<lparr>ul_data_aggregation_max_datagrams = 1, ul_data_aggregation_max_size = 0, dl_minimum_padding = nd_dl_minimum_padding s\<rparr>,
     q_bridge_mode = nd_bridge_mode s, q_bridge_ipv4 = nd_bridge_ipv4 s, q_bridge_mac = nd_bridge_mac s, q_use_rmnet_usb = True\<rparr>"

definition as_usb :: "vpkt \<Rightarrow> rxpkt" where
  "as_usb k = \<lparr>rx_dev = vr_dev k, rx_protocol = vr_protocol k, rx_data = vr_mac k @ vr_data k\<rparr>"

text \<open>Every entry of the table is null or a registered sub-device.\<close>

definition table_ok :: "mhi_netdev \<Rightarrow> bool" where
  "table_ok s = list_all (\<lambda>x. case x of SelfDev \<Rightarrow> False | FreedDev \<Rightarrow> False | _ \<Rightarrow> True) (mpQmapNetDev s)"

lemma usb_view_simps [simp]:
  "q_qmap_mode (usb_view s) = nd_qmap_mode s" "q_mpQmapNetDev (usb_view s) = map usb_slot (mpQmapNetDev s)"
  "q_use_rmnet_usb (usb_view s)" "dl_min_padding (usb_view s) = qmi_min_padding s"
  by (simp_all add: usb_view_def dl_min_padding_def qmi_min_padding_def)

definition usb_step :: "qmi_step \<Rightarrow> dec_step" where
  "usb_step x = (case x of QmiStop \<Rightarrow> DecStop | QmiNoMem \<Rightarrow> DecStop | QmiFault \<Rightarrow> DecFault | QmiSkip n \<Rightarrow> DecSkip n
     | QmiCommand n \<Rightarrow> DecSkip n | QmiPacket k n \<Rightarrow> DecDeliver (as_usb k) n)"

lemma vnd_frame:
  assumes "nd_qmap_mode s > 0"
  shows "rx_frame (usb_view s) (SubDev n (usb_priv p)) n proto d = Some (rx_data (as_usb (vnd_packet s i n p proto d)))"
  using assms by (simp add: rx_frame_def bridge_mode_rx_fixup_def as_usb_def vnd_packet_def vnd_dest_def usb_priv_def)

lemma as_usb_vnd:
  "\<lparr>rx_dev = i, rx_protocol = proto, rx_data = rx_data (as_usb (vnd_packet s i n p proto d))\<rparr> = as_usb (vnd_packet s i n p proto d)"
  by (simp add: as_usb_def vnd_packet_def)

lemma qmi_rx_step_usb:
  assumes "table_ok s"
  shows "qmap_decode_step (usb_view s) a d = usb_step (qmi_rx_step a d s)"
proof -
  define m where "m = (ucast (fld8 d (Suc 0)) - ucast QUECTEL_QMAP_MUX_ID :: u32)"
  define h where "h = (if mh_next_hdr (fld8 d 0) then 8 else 4 :: nat)"
  define l where "l = be16_of (fld8 d 2) (fld8 d 3)"
  define z where "z = (ucast l - ucast (mh_pad_len (fld8 d 0))) - qmi_min_padding s"
  note defs = m_def [symmetric] h_def [symmetric] l_def [symmetric] z_def [symmetric]
  show ?thesis
  proof (cases "nd_qmap_mode s \<le> m \<or> length (mpQmapNetDev s) \<le> unat m")
    case True
    then show ?thesis by (cases "nd_qmap_mode s \<le> m") (simp_all add: qmap_decode_step_def qmi_rx_step_def Let_def defs usb_step_def)
  next
    case False
    then have m: "\<not> nd_qmap_mode s \<le> m" "\<not> length (mpQmapNetDev s) \<le> unat m" by blast+
    then have pos: "nd_qmap_mode s > 0" by (cases "nd_qmap_mode s = 0") (simp_all add: word_gt_0)
    have "case mpQmapNetDev s ! unat m of SelfDev \<Rightarrow> False | FreedDev \<Rightarrow> False | _ \<Rightarrow> True"
      using assms m(2) by (simp add: table_ok_def list_all_length not_le)
    then consider "mpQmapNetDev s ! unat m = NullDev" | n p where "mpQmapNetDev s ! unat m = Vnd n p"
      by (cases "mpQmapNetDev s ! unat m") simp_all
    then show ?thesis
    proof cases
      case 1
      then show ?thesis using m by (simp add: qmap_decode_step_def qmi_rx_step_def Let_def defs slot_net_def usb_step_def)
    next
      case (2 n p)
      let ?c = "\<lambda>stop nomem fault skip pkt. if nd_mtu n < z then stop else if length d < unat l + h then stop
        else if mh_cd_bit (fld8 d 0) then skip (unat l + h) else if length d \<le> h then fault
        else case ip_protocol_of (fld8 d h) of None \<Rightarrow> stop
          | Some proto \<Rightarrow> if \<not> a then nomem else if length d < h + unat z then fault else pkt (vnd_packet s (unat m) n p proto (take (unat z) (drop h d)))"
      have "qmap_decode_step (usb_view s) a d = ?c DecStop DecStop DecFault DecSkip (\<lambda>k. DecDeliver (as_usb k) (unat l + h))"
        using m 2 by (simp add: qmap_decode_step_def Let_def defs slot_net_def vnd_frame [OF pos, where i = "unat m"] as_usb_vnd cong: if_cong option.case_cong)
      moreover have "qmi_rx_step a d s = ?c QmiStop QmiNoMem QmiFault QmiCommand (\<lambda>k. QmiPacket k (unat l + h))"
        using m 2 by (simp add: qmi_rx_step_def Let_def defs vnd_at_def cong: if_cong option.case_cong)
      ultimately show ?thesis by (simp add: usb_step_def split: option.split)
    qed
  qed
qed

text \<open>Commands change neither the sub-devices nor what the decoder reads of the state.\<close>

lemma map_command_frame:
  assumes "rmnet_data_map_command a m s = Some t"
  shows "usb_view t = usb_view s" "table_ok t = table_ok s"
  using assms
  by (auto simp: rmnet_data_map_command_def rmnet_map_do_flow_control_def rmnet_map_send_ack_def bump_def usb_view_def table_ok_def Let_def
      split: if_splits)

lemma map_command_defined: "20 \<le> length m \<Longrightarrow> rmnet_data_map_command a m s \<noteq> None"
  by (simp add: rmnet_data_map_command_def Let_def split_def)

definition usb_result :: "bool \<times> vpkt list \<times> mhi_netdev \<Rightarrow> bool \<times> rxpkt list" where
  "usb_result r = (fst r, map as_usb (fst (snd r)))"

lemma qmi_rx_loop_usb1:
  assumes "qmi_rx_loop alloc tail d s = Some r" "table_ok s" "16 \<le> length tail"
  shows "qmap_packet_decode (usb_view s) alloc d = Some (usb_result r)"
  using assms
proof (induction arbitrary: rule: qmi_rx_loop.raw_induct [rotated, consumes 1, case_names body])
  case (body rec alloc tail d s r)
  note IH = body(1) [OF _ _ body(4)]
  show ?case
  proof (cases "length d > 4")
    case False
    then show ?thesis using body(2) by (auto simp: qmap_packet_decode.simps [of _ alloc d] usb_result_def)
  next
    case True
    note u = qmap_packet_decode.simps [of "usb_view s" alloc d] qmi_rx_step_usb [OF body(3), of "alloc 0" d]
    show ?thesis
    proof (cases "qmi_rx_step (alloc 0) d s")
      case (QmiCommand n)
      obtain s1 where s1: "rmnet_data_map_command (alloc 0) (d @ tail) s = Some s1"
        using map_command_defined [of "d @ tail" "alloc 0" s] True body(4) by auto
      have "rec (\<lambda>i. alloc (Suc i)) tail (pull_in n d) s1 = Some r" using body(2) True QmiCommand s1 by simp
      from IH [OF this] show ?thesis
        using True QmiCommand body(3) map_command_frame [OF s1] by (simp add: u usb_step_def)
    next
      case (QmiPacket k n)
      then obtain r' where r': "rec (\<lambda>i. alloc (Suc i)) tail (pull_in n d) s = Some r'" "r = (fst r', k # fst (snd r'), snd (snd r'))"
        using body(2) True by (auto simp: Option.bind_eq_Some_conv)
      from IH [OF r'(1) body(3)] show ?thesis
        using True QmiPacket r'(2) by (simp add: u usb_step_def usb_result_def)
    qed (use body(2,3) True IH in \<open>auto simp: u usb_step_def usb_result_def\<close>)
  qed
qed

lemma qmi_rx_loop_usb2:
  assumes "qmap_packet_decode q alloc d = Some r" "q = usb_view s" "table_ok s" "16 \<le> length tail"
  shows "qmi_rx_loop alloc tail d s \<noteq> None"
  using assms
proof (induction arbitrary: s rule: qmap_packet_decode.raw_induct [rotated, consumes 1, case_names body])
  case (body rec q alloc d r)
  note IH = body(1) [OF _ _ _ body(5)]
  show ?case
  proof (cases "length d > 4")
    case False
    then show ?thesis by (simp add: qmi_rx_loop.simps [of alloc tail d s])
  next
    case True
    note st = qmi_rx_step_usb [OF body(4), of "alloc 0" d] and u = qmi_rx_loop.simps [of alloc tail d s]
    show ?thesis
    proof (cases "qmi_rx_step (alloc 0) d s")
      case (QmiCommand n)
      obtain s1 where s1: "rmnet_data_map_command (alloc 0) (d @ tail) s = Some s1"
        using map_command_defined [of "d @ tail" "alloc 0" s] True body(5) by auto
      have "rec q (\<lambda>i. alloc (Suc i)) (pull_in n d) = Some r" using body(2,3) True QmiCommand st by (simp add: usb_step_def)
      from IH [OF this, of s1] show ?thesis
        using True QmiCommand s1 body(3,4) map_command_frame [OF s1] by (simp add: u)
    next
      case (QmiPacket k n)
      then obtain r' where "rec q (\<lambda>i. alloc (Suc i)) (pull_in n d) = Some r'"
        using body(2,3) True st by (auto simp: usb_step_def Option.bind_eq_Some_conv)
      from IH [OF this body(3,4)] show ?thesis using True QmiPacket by (auto simp: u)
    next
      case (QmiSkip n)
      then have "rec q (\<lambda>i. alloc (Suc i)) (pull_in n d) = Some r" using body(2,3) True st by (simp add: usb_step_def)
      from IH [OF this body(3,4)] show ?thesis using True QmiSkip by (simp add: u)
    qed (use True in \<open>simp_all add: u\<close>)
  qed
qed

lemma qmi_rx_loop_usb:
  assumes "table_ok s" "16 \<le> length tail"
  shows "map_option usb_result (qmi_rx_loop alloc tail d s) = qmap_packet_decode (usb_view s) alloc d"
proof (cases "qmi_rx_loop alloc tail d s")
  case None
  then show ?thesis using qmi_rx_loop_usb2 [OF _ refl assms, of alloc d] by (cases "qmap_packet_decode (usb_view s) alloc d") auto
next
  case (Some r)
  then show ?thesis using qmi_rx_loop_usb1 [OF _ assms] by simp
qed

text \<open>
  C38. On every sequence of bytes the QMAP decoder of the PCIe driver does what the one of the USB
  driver does with the same sub-devices: it ends on the same frames, hands the same packets with the
  same link headers to the same sub-devices, in the same order, and fails on the same frames. Flow
  control commands, which the USB driver drops, do not change this.
\<close>

theorem pcie_decoder_is_usb_decoder:
  assumes "table_ok s" "16 \<le> length tail"
  shows "map_option (\<lambda>(f, ps, t). (f, map as_usb ps)) (rmnet_qmi_rx_handler alloc tail d s) = qmap_packet_decode (usb_view s) alloc d"
  unfolding qmi_rx_loop_usb [OF assms, symmetric] rmnet_qmi_rx_handler_def
  by (simp add: option.map_comp comp_def split_def usb_result_def [abs_def])

section \<open>Blocks the modem sends\<close>

text \<open>
  A block as the modem builds it: the header, then for each session an NDP16 with its entries, which a
  zero entry ends, and the datagrams behind them.
\<close>

type_synonym ndp = "byte \<times> byte list list"

fun dpe_entries :: "nat \<Rightarrow> byte list list \<Rightarrow> byte list" where
  "dpe_entries off [] = dpe16_bytes 0 0"
| "dpe_entries off (p # ps) = dpe16_bytes off (length p) @ dpe_entries (off + length p) ps"

definition ndp_size :: "ndp \<Rightarrow> nat" where
  "ndp_size x = 12 + 4 * length (snd x) + length (concat (snd x))"

definition ndp_enc :: "nat \<Rightarrow> nat \<Rightarrow> ndp \<Rightarrow> byte list" where
  "ndp_enc off nxt x = ndp16_bytes (fst x) (of_nat (12 + 4 * length (snd x))) (of_nat nxt) @
     dpe_entries (off + 12 + 4 * length (snd x)) (snd x) @ concat (snd x)"

fun ndps_enc :: "nat \<Rightarrow> ndp list \<Rightarrow> byte list" where
  "ndps_enc off [] = []"
| "ndps_enc off (x # xs) = ndp_enc off (if xs = [] then 0 else off + ndp_size x) x @ ndps_enc (off + ndp_size x) xs"

definition ntb :: "u16 \<Rightarrow> ndp list \<Rightarrow> byte list" where
  "ntb seq xs = nth16_bytes seq (of_nat (12 + sum_list (map ndp_size xs))) (if xs = [] then 0 else 12) @ ndps_enc 12 xs"

definition session_dev :: "mhi_params \<Rightarrow> mhi_netdev \<Rightarrow> byte \<Rightarrow> (nat \<times> net_device \<times> vnd_priv) option" where
  "session_dev par s tci = Option.bind (mbim_index par s (ucast tci)) (\<lambda>i. map_option (Pair (unat i)) (vnd_at s (unat i)))"

definition datagram_ok :: "mhi_netdev \<Rightarrow> byte list \<Rightarrow> bool" where
  "datagram_ok s p \<longleftrightarrow> p \<noteq> [] \<and> ip_protocol_of (hd p) \<noteq> None \<and> length p \<le> unat (rx_max s)"

definition ntb_ok :: "mhi_params \<Rightarrow> mhi_netdev \<Rightarrow> ndp list \<Rightarrow> bool" where
  "ntb_ok par s xs \<longleftrightarrow> xs \<noteq> [] \<and> 12 + sum_list (map ndp_size xs) < 65536 \<and> 12 + sum_list (map ndp_size xs) \<le> unat (rx_max s) \<and>
     list_all (\<lambda>x. session_dev par s (fst x) \<noteq> None \<and> snd x \<noteq> [] \<and> list_all (datagram_ok s) (snd x)) xs"

definition ndp_view :: "mhi_params \<Rightarrow> mhi_netdev \<Rightarrow> ndp \<Rightarrow> vpkt list" where
  "ndp_view par s x = (case the (session_dev par s (fst x)) of (i, n, p) \<Rightarrow>
     map (\<lambda>d. vnd_packet s i n p (the (ip_protocol_of (hd d))) d) (snd x))"

lemma fld16_append [simp]: "length a \<le> i \<Longrightarrow> fld16 (a @ b) i = fld16 b (i - length a)"
  by (simp add: fld16_def Suc_diff_le)

lemma fld32_append2: "length a \<le> i \<Longrightarrow> fld32 (a @ b) i = fld32 b (i - length a)"
  by (simp add: fld32_def Suc_diff_le)

lemma fld16_second [simp]: "fld16 (le16_bytes v @ le16_bytes w @ r) 2 = w"
  by (simp add: wire_simps)

lemma length_mbim_parts [simp]:
  "length (dpe16_bytes a b) = 4" "length (nth16_bytes q l x) = 12" "length (ndp16_bytes t l n) = 8"
  "length (dpe_entries off ps) = 4 * Suc (length ps)"
  by (simp_all add: dpe16_bytes_def nth16_bytes_def ndp16_bytes_def) (induction ps arbitrary: off, simp_all add: dpe16_bytes_def)

lemma length_ndp [simp]: "length (ndp_enc off nxt x) = ndp_size x" "length (ndps_enc off xs) = sum_list (map ndp_size xs)"
  by (simp_all add: ndp_enc_def ndp_size_def) (induction xs arbitrary: off, simp_all add: ndp_enc_def ndp_size_def)

lemma dpe16_fields [simp]:
  "fld16 (dpe16_bytes a b @ r) 0 = of_nat a" "fld16 (dpe16_bytes a b @ r) 2 = of_nat b"
  by (simp_all add: dpe16_bytes_def wire_simps)

lemma ips_bytes: "take 3 (le32_bytes USB_CDC_MBIM_NDP16_IPS_SIGN) = [0x49, 0x50, 0x53]"
  by code_simp

lemma ndp16_fields [simp]:
  "fld16 (ndp16_bytes t l n @ r) 4 = l" "fld16 (ndp16_bytes t l n @ r) 6 = n"
  "fld32 (ndp16_bytes t l n @ r) 0 = le32_of 0x49 0x50 0x53 t"
proof -
  have e: "ndp16_bytes t l n @ r = [0x49, 0x50, 0x53, t] @ le16_bytes l @ le16_bytes n @ r"
    by (simp only: ndp16_bytes_def ips_bytes append.simps append_assoc)
  show "fld16 (ndp16_bytes t l n @ r) 4 = l" "fld16 (ndp16_bytes t l n @ r) 6 = n"
    unfolding e by (simp_all only: fld16_append length_Cons list.size) (simp_all add: wire_simps)
  show "fld32 (ndp16_bytes t l n @ r) 0 = le32_of 0x49 0x50 0x53 t"
    unfolding e by (simp add: fld32_def fld8_def)
qed

lemma nth16_fields [simp]:
  "fld32 (nth16_bytes q l x @ r) 0 = USB_CDC_NCM_NTH16_SIGN" "fld16 (nth16_bytes q l x @ r) 6 = q"
  "fld16 (nth16_bytes q l x @ r) 8 = l" "fld16 (nth16_bytes q l x @ r) 10 = x"
  by (simp_all add: nth16_bytes_def wire_simps)
    (simp add: fld32_def fld8_def le32_bytes_def le32_of_le32_bytes)

lemma tci_of_ips [simp]: "tci_of (le32_of 0x49 0x50 0x53 t) = Some (ucast t)"
proof -
  have "list_all (\<lambda>k. tci_of (le32_of 0x49 0x50 0x53 (of_nat k)) = Some (of_nat k)) [0..<256]" by code_simp
  then have "\<forall>k \<in> {0..<256}. tci_of (le32_of 0x49 0x50 0x53 (of_nat k)) = Some (of_nat k)" by (simp add: list_all_iff)
  from bspec [OF this, of "unat t"] show ?thesis by simp
qed

lemma dpe_loop_enc:
  assumes "d = pre @ dpe_entries off ps @ mid @ concat ps @ post" "off = length pre + 4 * Suc (length ps) + length mid"
    and "length d < 65536" "list_all (datagram_ok s) ps" "vnd_at s i = Some (n, p)" "0 < length pre"
  shows "dpe_loop (\<lambda>_. True) s d i (length pre) (Suc (length ps)) k =
     (NtbOk, map (\<lambda>x. vnd_packet s i n p (the (ip_protocol_of (hd x))) x) ps, k + length ps)"
  using assms
proof (induction ps arbitrary: pre off mid k)
  case Nil
  then show ?case by (simp add: dpe16_bytes_def wire_simps)
next
  case (Cons x ps)
  let ?e = "dpe16_bytes off (length x)"
  have x: "x \<noteq> []" "length x \<le> unat (rx_max s)" using Cons.prems(4) by (simp_all add: datagram_ok_def)
  obtain proto where proto: "ip_protocol_of (hd x) = Some proto" using Cons.prems(4) by (auto simp: datagram_ok_def)
  have d1: "d = (pre @ ?e) @ dpe_entries (off + length x) ps @ (mid @ x) @ concat ps @ post" using Cons.prems(1) by simp
  have o1: "off + length x = length (pre @ ?e) + 4 * Suc (length ps) + length (mid @ x)" using Cons.prems(2) by simp
  have dl: "off + length x \<le> length d" using Cons.prems(1,2) by simp
  have u: "unat (of_nat off :: u16) = off" "unat (of_nat (length x) :: u16) = length x"
    using dl Cons.prems(3) by (simp_all add: unat_of_nat take_bit_nat_eq_self)
  have f: "fld16 d (length pre) = of_nat off" "fld16 d (length pre + 2) = of_nat (length x)"
    unfolding d1 by simp_all
  have dr: "drop off d = x @ concat ps @ post"
  proof -
    have e: "d = (pre @ ?e @ dpe_entries (off + length x) ps @ mid) @ x @ concat ps @ post" using d1 by simp
    have "length (pre @ ?e @ dpe_entries (off + length x) ps @ mid) = off" using Cons.prems(2) by simp
    then show ?thesis unfolding e by (metis append_eq_conv_conj)
  qed
  then have h: "fld8 d off = hd x" using x(1) by (metis fld8_drop fld8_append1 add_0_right fld8_def hd_conv_nth length_greater_0_conv)
  have tk: "take (length x) (drop off d) = x" using dr by simp
  have off0: "off \<noteq> 0" "length pre + 4 \<le> length d" using Cons.prems(2,6) d1 by simp_all
  have IH: "dpe_loop (\<lambda>_. True) s d i (length pre + 4) (Suc (length ps)) (Suc k) =
     (NtbOk, map (\<lambda>x. vnd_packet s i n p (the (ip_protocol_of (hd x))) x) ps, Suc k + length ps)"
    using Cons.IH [OF d1 o1 Cons.prems(3) _ Cons.prems(5), of "Suc k"] Cons.prems(4) by simp
  have "dpe_loop (\<lambda>_. True) s d i (length pre) (Suc (Suc (length ps))) k =
     (case dpe_loop (\<lambda>_. True) s d i (length pre + 4) (Suc (length ps)) (Suc k) of
        (e, qs, k') \<Rightarrow> (e, vnd_packet s i n p proto x # qs, k'))"
    using f u x off0 dl h tk proto Cons.prems(5) by (simp add: Let_def del: dpe_loop.simps(1) add: dpe_loop.simps(2) [of _ _ _ _ _ "Suc (length ps)"])
  then show ?case using IH proto by simp
qed

lemma ndp_head_enc:
  assumes "d = pre @ ndp_enc (length pre) nxt x @ post" "session_dev par s (fst x) = Some (i, n, p)" "snd x \<noteq> []" "length d < 65536" "12 \<le> length pre"
  shows "ndp_head par s d (length pre) = Inr (i, Suc (length (snd x)))" "fld16 d (length pre + 6) = of_nat nxt"
proof -
  let ?l = "12 + 4 * length (snd x)"
  obtain j where j: "mbim_index par s (ucast (fst x)) = Some j" "i = unat j" "vnd_at s i = Some (n, p)"
    using assms(2) by (auto simp: session_dev_def Option.bind_eq_Some_conv)
  then have t: "i < length (mpQmapNetDev s)" by (simp add: vnd_at_def split: if_splits)
  have l: "length pre + ?l \<le> length d" using assms(1) by (simp add: ndp_size_def)
  then have u: "unat (of_nat ?l :: u16) = ?l" using assms(4) by (simp only: unat_of_nat take_bit_nat_eq_self) (simp add: take_bit_nat_eq_self)
  obtain r where e: "d = pre @ ndp16_bytes (fst x) (of_nat ?l) (of_nat nxt) @ r" using assms(1) by (simp add: ndp_enc_def)
  have f: "fld16 d (length pre + 4) = of_nat ?l" "fld32 d (length pre) = le32_of 0x49 0x50 0x53 (fst x)" "fld16 d (length pre + 6) = of_nat nxt"
    unfolding e by (simp_all del: of_nat_add add: fld32_append2)
  have nf: "(?l - 8) div 4 = Suc (length (snd x))" by simp
  have "\<not> ?l < 16" using assms(3) by (cases "snd x") simp_all
  moreover have "\<not> length d < 8 + Suc (length (snd x)) * 4" "\<not> length d < length pre + 8" using l assms(5) by simp_all
  ultimately show "ndp_head par s d (length pre) = Inr (i, Suc (length (snd x)))"
    unfolding ndp_head_def Let_def f(1,2) u nf tci_of_ips using j t by simp
  show "fld16 d (length pre + 6) = of_nat nxt" by (rule f(3))
qed

lemma ndp_loop_enc:
  assumes "d = pre @ ndps_enc (length pre) xs" "length d < 65536" "12 \<le> length pre"
    and "list_all (\<lambda>x. session_dev par s (fst x) \<noteq> None \<and> snd x \<noteq> [] \<and> list_all (datagram_ok s) (snd x)) xs"
  shows "ndp_loop par (\<lambda>_. True) s d (if xs = [] then 0 else length pre) k = Some (NtbOk, concat (map (ndp_view par s) xs))"
  using assms
proof (induction xs arbitrary: pre k)
  case Nil
  then show ?case by (simp add: ndp_loop.simps)
next
  case (Cons x xs)
  let ?nxt = "if xs = [] then 0 else length pre + ndp_size x" and ?e = "ndp_enc (length pre) (if xs = [] then 0 else length pre + ndp_size x) x"
  obtain i n p where dev: "session_dev par s (fst x) = Some (i, n, p)" using Cons.prems(4) by auto
  have x: "snd x \<noteq> []" "list_all (datagram_ok s) (snd x)" using Cons.prems(4) by simp_all
  have v: "vnd_at s i = Some (n, p)" using dev by (auto simp: session_dev_def Option.bind_eq_Some_conv)
  have d: "d = pre @ ?e @ ndps_enc (length pre + ndp_size x) xs" using Cons.prems(1) by simp
  have d': "d = (pre @ ?e) @ ndps_enc (length (pre @ ?e)) xs" using d by simp
  note h = ndp_head_enc [OF d dev x(1) Cons.prems(2,3)]
  let ?pre = "pre @ ndp16_bytes (fst x) (of_nat (12 + 4 * length (snd x))) (of_nat ?nxt)"
  have "d = ?pre @ dpe_entries (length pre + 12 + 4 * length (snd x)) (snd x) @ [] @ concat (snd x) @ ndps_enc (length pre + ndp_size x) xs"
    using d by (simp only: ndp_enc_def append_assoc append_Nil)
  from dpe_loop_enc [OF this _ Cons.prems(2) x(2) v, of k]
  have loop: "dpe_loop (\<lambda>_. True) s d i (length pre + 8) (Suc (length (snd x))) k = (NtbOk, ndp_view par s x, k + length (snd x))"
    using dev by (simp add: ndp_view_def)
  have "?nxt < 65536" using Cons.prems(2) d' by simp
  then have nx: "unat (fld16 d (length pre + 6)) = ?nxt" unfolding h(2) by (simp add: unat_of_nat take_bit_nat_eq_self)
  have IH: "ndp_loop par (\<lambda>_. True) s d ?nxt (k + length (snd x)) = Some (NtbOk, concat (map (ndp_view par s) xs))"
    using Cons.IH [OF d' Cons.prems(2), of "k + length (snd x)"] Cons.prems(3,4) by (cases "xs = []") simp_all
  have "length pre \<noteq> 0" using Cons.prems(3) by auto
  then show ?case
    using ndp_loop.simps [of par "\<lambda>_. True" s d "length pre" k] by (simp add: h(1) loop nx IH del: dpe_loop.simps)
qed

lemma ntb_decoded:
  assumes "ntb_ok par s xs"
  shows "\<exists>t. rmnet_mbim_rx_handler par (\<lambda>_. True) (ntb seq xs) s = Some (NtbOk, concat (map (ndp_view par s) xs), t) \<and>
     rx_seq t = seq + 1"
proof -
  let ?n = "12 + sum_list (map ndp_size xs)"
  have x: "xs \<noteq> []" "?n < 65536" "?n \<le> unat (rx_max s)" using assms by (simp_all add: ntb_ok_def)
  let ?h = "nth16_bytes seq (of_nat ?n) 12"
  have d: "ntb seq xs = ?h @ ndps_enc (length ?h) xs" using x(1) by (simp add: ntb_def)
  have l: "length (ntb seq xs) = ?n" by (simp add: d)
  have u: "unat (of_nat ?n :: u16) = ?n" using x(2) by (simp only: unat_of_nat take_bit_nat_eq_self) (simp add: take_bit_nat_eq_self)
  have "20 \<le> length (ntb seq xs)" unfolding l using x(1) by (cases xs) (simp_all add: ndp_size_def)
  moreover have "ndp_loop par (\<lambda>_. True) s (ntb seq xs) 12 0 = Some (NtbOk, concat (map (ndp_view par s) xs))"
    using ndp_loop_enc [OF d, of par s 0] x assms l by (simp add: ntb_ok_def)
  moreover have "rx_seq (fold rmnet_vnd_upate_rx_stats ps t) = rx_seq t" for ps t
    by (induction ps arbitrary: t) (auto simp: rmnet_vnd_upate_rx_stats_def split: option.split)
  moreover have "fld32 (ntb seq xs) 0 = USB_CDC_NCM_NTH16_SIGN" "fld16 (ntb seq xs) 6 = seq" "fld16 (ntb seq xs) 8 = of_nat ?n" "fld16 (ntb seq xs) 10 = 12"
    unfolding d by (simp_all only: nth16_fields)
  ultimately show ?thesis using x(3) u by (simp add: rmnet_mbim_rx_handler_def)
qed

text \<open>
  A block of the modem, with any number of sessions and packets in it, is taken apart into exactly
  its packets: each goes to the sub-device of its session, with this sub-device's link header, in the
  order of the block; and the sequence number of the next block is expected.
\<close>

theorem mbim_block_roundtrip:
  assumes "ntb_ok par s xs"
  shows "\<exists>t. rmnet_mbim_rx_handler par (\<lambda>_. True) (ntb seq xs) s = Some (NtbOk, concat (map (ndp_view par s) xs), t) \<and>
     rx_seq t = seq + 1"
  using assms by (rule ntb_decoded)

text \<open>
  C15. What a sub-device sends as an MBIM block carries its session: taken apart by the same driver it
  is the packet, for the same sub-device. This holds for both ranges of session numbers, that of the
  SDX7x modems, from 112, and that of the others, from 0, and for every number of sub-devices.
\<close>

theorem mbim_session_roundtrip:
  assumes "vnd_at s i = Some (n, p)" "i < unat (par_qmap_mode par)" "par_qmap_mode par \<le> 8" "length (mpQmapNetDev s) = 8"
    and "mbim_mux_id s = 0 \<or> mbim_mux_id s = 112" "v_mux_id p = ucast (mbim_mux_id s) + of_nat i"
    and "datagram_ok s (s_data k)" "length (s_data k) + 28 \<le> unat (rx_max s)" "length (s_data k) + 28 < 65536" "28 \<le> s_headroom k"
  shows "\<exists>b t. add_mbim_hdr par old k (v_mux_id p) = Some b \<and> rmnet_mbim_rx_handler par (\<lambda>_. True) (s_data b) s =
     Some (NtbOk, [vnd_packet s i n p (the (ip_protocol_of (hd (s_data k)))) (s_data k)], t)"
proof -
  define m where "m = unat (par_qmap_mode par)"
  have m: "m \<le> 8" "i < m" using assms(2,3) by (simp_all add: m_def word_le_nat_alt)
  have par: "par_qmap_mode par = of_nat m" by (simp add: m_def)
  define tci where "tci = (ucast ((ucast (v_mux_id p) :: u16) + (if par_qmap_mode par > 1 then 1 else 0)) :: byte)"
  have "mbim_index par s (ucast tci) = Some (of_nat i)"
  proof -
    have "m \<in> {1, 2, 3, 4, 5, 6, 7, 8}" "i \<in> {0, 1, 2, 3, 4, 5, 6, 7}" using m by auto
    then show ?thesis using m(2) assms(5) by (elim insertE emptyE disjE) (simp_all add: mbim_index_def tci_def assms(6) par)
  qed
  moreover have "unat (of_nat i :: u32) = i" using m by (simp add: unat_of_nat take_bit_nat_eq_self)
  ultimately have dev: "session_dev par s tci = Some (i, n, p)" using assms(1) by (simp add: session_dev_def)
  have ok: "ntb_ok par s [(tci, [s_data k])]" using dev assms(7-9) by (simp add: ntb_ok_def ndp_size_def)
  have b: "add_mbim_hdr par old k (v_mux_id p) = Some (k\<lparr>s_headroom := s_headroom k - 28, s_data := ntb old [(tci, [s_data k])]\<rparr>)"
    using assms(10) by (simp add: add_mbim_hdr_def tci_def ntb_def ndp_enc_def ndp_size_def skb_push_def Let_def add.commute dpe16_bytes_def)
  show ?thesis using ntb_decoded [OF ok, of old] b dev by (auto simp: ndp_view_def)
qed

section \<open>Blocks nobody checked\<close>

text \<open>Every NDP16 the driver accepts names a later one, or none.\<close>

definition chain_forward :: "mhi_params \<Rightarrow> mhi_netdev \<Rightarrow> byte list \<Rightarrow> bool" where
  "chain_forward par s d = list_all (\<lambda>off. case ndp_head par s d off of Inl _ \<Rightarrow> True
     | Inr _ \<Rightarrow> fld16 d (off + 6) = 0 \<or> off < unat (fld16 d (off + 6))) [0..<length d]"

lemma ndp_head_in: "ndp_head par s d off = Inr r \<Longrightarrow> off + 8 \<le> length d \<and> tci_of (fld32 d off) \<noteq> None"
  by (auto simp: ndp_head_def Let_def split: if_splits option.splits)

lemma ndp_loop_ends:
  assumes "chain_forward par s d"
  shows "ndp_loop par alloc s d off k \<noteq> None"
proof (induction "length d - off" arbitrary: off k rule: less_induct)
  case less
  show ?case
  proof (cases "off = 0 \<or> (\<exists>e. ndp_head par s d off = Inl e)")
    case True
    then show ?thesis by (auto simp: ndp_loop.simps [of par alloc s d off k])
  next
    case False
    then obtain i nf where h: "ndp_head par s d off = Inr (i, nf)" "off \<noteq> 0" by (cases "ndp_head par s d off") auto
    obtain e ps k' where l: "dpe_loop alloc s d i (off + 8) nf k = (e, ps, k')" by (metis prod_cases3)
    let ?n = "unat (fld16 d (off + 6))"
    have "off < length d" using ndp_head_in [OF h(1)] by simp
    then have "fld16 d (off + 6) = 0 \<or> off < ?n" using assms h(1) by (auto simp: chain_forward_def list_all_iff dest: bspec [of _ _ off])
    then consider "?n = 0" | "off < ?n" by fastforce
    then have "ndp_loop par alloc s d ?n k' \<noteq> None"
    proof cases
      case 1
      then show ?thesis by (simp add: ndp_loop.simps)
    next
      case 2
      then show ?thesis using \<open>off < length d\<close> by (intro less) simp
    qed
    then show ?thesis using h l by (auto simp: ndp_loop.simps [of par alloc s d off k])
  qed
qed

text \<open>
  C39. The decoder of MBIM blocks ends, for every outcome of its allocations, on every block in which no
  NDP16 that it accepts names itself or an earlier one.
\<close>

theorem mbim_decoder_ends:
  assumes "chain_forward par s d"
  shows "rmnet_mbim_rx_handler par alloc d s \<noteq> None"
  using ndp_loop_ends [OF assms] by (simp add: rmnet_mbim_rx_handler_def)

text \<open>An NDP16 without datagrams that names itself as the next one.\<close>

definition self_chained :: "mhi_params \<Rightarrow> mhi_netdev \<Rightarrow> byte list \<Rightarrow> nat \<Rightarrow> bool" where
  "self_chained par s d off \<longleftrightarrow> off \<noteq> 0 \<and> off + 12 \<le> length d \<and> (\<exists>i n. ndp_head par s d off = Inr (i, n)) \<and>
     fld16 d (off + 8) = 0 \<and> unat (fld16 d (off + 6)) = off"

lemma ndp_head_frames: "ndp_head par s d off = Inr (i, n) \<Longrightarrow> 2 \<le> n"
  by (auto simp: ndp_head_def Let_def split: if_splits option.splits)

lemma self_chained_dpe:
  assumes "self_chained par s d off" "ndp_head par s d off = Inr (i, n)"
  shows "dpe_loop alloc s d i (off + 8) n k = (NtbOk, [], k)"
  using assms ndp_head_frames [OF assms(2)] by (cases n) (simp_all add: self_chained_def)

lemma ndp_loop_stuck:
  assumes "ndp_loop par alloc s d off k = Some r"
  shows "\<not> self_chained par s d off"
  using assms
proof (induction rule: ndp_loop.raw_induct [rotated, consumes 1, case_names body])
  case (body rec par alloc s d off k r)
  show ?case
  proof
    assume c: "self_chained par s d off"
    then obtain i n where h: "ndp_head par s d off = Inr (i, n)" "off \<noteq> 0" "unat (fld16 d (off + 6)) = off" by (auto simp: self_chained_def)
    then obtain r' where "rec par alloc s d off k = Some r'"
      using body(2) self_chained_dpe [OF c h(1), of alloc k] by (auto simp: Option.bind_eq_Some_conv)
    then show False using body(1) c by blast
  qed
qed

text \<open>
  The chain of a received block is followed without any check: a block whose NDP16 names itself keeps
  the driver in its loop for ever.
\<close>

theorem mbim_decoder_hangs:
  assumes "20 \<le> length d" "fld32 d 0 = USB_CDC_NCM_NTH16_SIGN" "unat (fld16 d 8) \<le> unat (rx_max s)"
    and "self_chained par s d (unat (fld16 d 10))"
  shows "rmnet_mbim_rx_handler par alloc d s = None"
  using assms ndp_loop_stuck [of par alloc s d "unat (fld16 d 10)" 0]
  by (cases "ndp_loop par alloc s d (unat (fld16 d 10)) 0") (auto simp: rmnet_mbim_rx_handler_def)

lemma ndp_head_short:
  assumes "off + 8 \<le> length d" "16 \<le> length d" "fld16 d (off + 4) = 16" "tci_of (fld32 d off) = Some tci" "mbim_index par s tci = Some j"
  shows "ndp_head par s d off = (if unat j < length (mpQmapNetDev s) then Inr (unat j, 2) else Inl NtbFault)"
  using assms by (simp add: ndp_head_def)

lemma mbim_index_below:
  assumes "par_qmap_mode par > 1" "ucast tci = mbim_mux_id s \<or> ucast tci = mbim_mux_id s + 1"
  shows "mbim_index par s tci = Some (if ucast tci = mbim_mux_id s then 0xFFFFFFFF else 0)"
proof -
  have m: "par_qmap_mode par \<noteq> 1" "par_qmap_mode par \<noteq> 0" "\<not> par_qmap_mode par < 0" "\<not> par_qmap_mode par < 1" using assms(1) by auto
  have e: "(-1 :: u32) = 0xFFFFFFFF" by code_simp
  show ?thesis using assms(2) by (elim disjE) (simp_all add: mbim_index_def m e)
qed

lemma entries_behind: "length d < a + 4 \<Longrightarrow> dpe_loop alloc s d i a 2 k = (NtbFault, [], k)"
  by (simp add: numeral_2_eq_2)

text \<open>
  C40. Two more blocks that the driver takes for good bring it down. With several sub-devices, the
  number just below the first session is accepted and the table is read at index \<open>0xFFFFFFFF\<close>; and the
  number of entries is compared with the block's length without the offset of the NDP16, so for an
  NDP16 in the last 8 bytes the entries are read behind the block.
\<close>

theorem mbim_decoder_faults:
  assumes "20 \<le> length d" "fld32 d 0 = USB_CDC_NCM_NTH16_SIGN" "unat (fld16 d 8) \<le> unat (rx_max s)"
    and "off = unat (fld16 d 10)" "0 < off" "off + 8 \<le> length d" "fld16 d (off + 4) = 16"
    and "tci_of (fld32 d off) = Some tci" "length (mpQmapNetDev s) = 8" "par_qmap_mode par > 1"
    and "ucast tci = mbim_mux_id s \<or> off + 8 = length d \<and> ucast tci = mbim_mux_id s + 1"
  shows "\<exists>t. rmnet_mbim_rx_handler par alloc d s = Some (NtbFault, [], t)"
proof -
  have l: "16 \<le> length d" using assms(1) by simp
  have j: "ucast tci = mbim_mux_id s \<or> ucast tci = mbim_mux_id s + 1" using assms(11) by blast
  note h = ndp_head_short [OF assms(6) l assms(7,8) mbim_index_below [OF assms(10) j]]
  have "ndp_loop par alloc s d off 0 = Some (NtbFault, [])"
  proof (cases "ucast tci = mbim_mux_id s")
    case True
    then have "ndp_head par s d off = Inl NtbFault" using h assms(9) by simp
    then show ?thesis using assms(5) by (simp add: ndp_loop.simps [of par alloc s d off 0])
  next
    case False
    then have "off + 8 = length d" "ndp_head par s d off = Inr (0, 2)" using h assms(9,11) by simp_all
    then show ?thesis using assms(5) entries_behind [of d "off + 8" alloc s 0 0] by (simp add: ndp_loop.simps [of par alloc s d off 0])
  qed
  then show ?thesis using assms(1-4) by (auto simp: rmnet_mbim_rx_handler_def)
qed

section \<open>Concrete runs\<close>

definition sample_vnd :: "byte \<Rightarrow> byte \<Rightarrow> nslot" where
  "sample_vnd i mux = Vnd \<lparr>nd_mtu = 1500, nd_ether = True, nd_hard_header_len = 14, nd_addr = [0x02, 0x50, 0xf4, 0, 0, i + 1],
       nd_up = True, nd_carrier = True, nd_stopped = False\<rparr>
     \<lparr>v_offset_id = i, v_mux_id = mux, v_qmap_version = 5, v_bridge_mode = 0, v_bridge_ipv4 = 0, v_bridge_mac = [0, 0, 0, 0, 0, 0],
      v_rx_packets = 0, v_rx_bytes = 0, v_tx_packets = 0, v_tx_bytes = 0, v_tx_errors = 0\<rparr>"

definition sample_pcie :: "mhi_net_type \<Rightarrow> byte \<Rightarrow> mhi_netdev" where
  "sample_pcie ty mux = \<lparr>net_type = ty, nd_enabled = True, tx_seq = 0, rx_seq = 0, rx_max = 32768, mbim_mux_id = 0, mru = 32768,
     max_mtu = 32740, ndev = \<lparr>nd_mtu = 1500, nd_ether = False, nd_hard_header_len = 0, nd_addr = [0x02, 0x50, 0xf4, 0, 0, 0],
       nd_up = True, nd_carrier = True, nd_stopped = False\<rparr>,
     mpQmapNetDev = [sample_vnd 0 mux, sample_vnd 1 (mux + 1)] @ replicate 6 NullDev, nd_qmap_mode = 2, nd_qmap_version = 5, nd_qmap_size = 32768,
     nd_link_state = 3, flow_control = 0, nd_dl_minimum_padding = 0, nd_bridge_mode = 0, nd_bridge_ipv4 = 0, nd_bridge_mac = [0, 0, 0, 0, 0, 0],
     use_rmnet_usb = True, info_mux_id = [mux, mux + 1], rmnet_map_command_stats = replicate 10 0, alloc_failed = 0, nd_tx_errors = 0, to_ndev = []\<rparr>"

definition sample_par :: mhi_params where
  "sample_par = \<lparr>par_qmap_mode = 2, par_mhi_mbim_enabled = True, par_bridge_mode = 0\<rparr>"

lemma pcie_decoder_is_usb_decoder_witness:
  "\<exists>t. rmnet_qmi_rx_handler (\<lambda>_. True) (replicate 16 0) [0, 0x82, 0, 1, 0x45] (sample_pcie MHI_NET_RMNET 0x81) =
     Some (False, [\<lparr>vr_dev = 1, vr_protocol = ETH_P_IP, vr_mac = [0x02, 0x50, 0xf4, 0, 0, 2] @ default_modem_addr @ [8, 0], vr_data = [0x45]\<rparr>], t) \<and>
     qmap_packet_decode (usb_view (sample_pcie MHI_NET_RMNET 0x81)) (\<lambda>_. True) [0, 0x82, 0, 1, 0x45] \<noteq> None"
proof -
  let ?s = "sample_pcie MHI_NET_RMNET 0x81" and ?d = "[0, 0x82, 0, 1, 0x45] :: byte list"
  let ?k = "\<lparr>vr_dev = 1, vr_protocol = ETH_P_IP, vr_mac = [0x02, 0x50, 0xf4, 0, 0, 2] @ default_modem_addr @ [8, 0], vr_data = [0x45]\<rparr>"
  have ok: "table_ok ?s" "16 \<le> length (replicate 16 (0 :: byte))" by code_simp+
  have "qmi_rx_step True ?d ?s = QmiPacket ?k 5" by code_simp
  then have "qmi_rx_loop (\<lambda>_. True) (replicate 16 0) ?d ?s = Some (False, [?k], ?s)"
    by (simp add: qmi_rx_loop.simps [of "\<lambda>_. True" "replicate 16 0" ?d] qmi_rx_loop.simps [of "\<lambda>_. True" "replicate 16 0" "[]"] pull_in_def)
  then obtain t where t: "rmnet_qmi_rx_handler (\<lambda>_. True) (replicate 16 0) ?d ?s = Some (False, [?k], t)" by (simp add: rmnet_qmi_rx_handler_def)
  then have "qmap_packet_decode (usb_view ?s) (\<lambda>_. True) ?d = Some (False, [as_usb ?k])"
    using pcie_decoder_is_usb_decoder [OF ok, of "\<lambda>_. True" ?d] by simp
  then show ?thesis using t by auto
qed

lemma mbim_block_roundtrip_witness:
  "\<exists>t. rmnet_mbim_rx_handler sample_par (\<lambda>_. True) (ntb 7 [(1, [[0x45, 1], [0x60]]), (2, [[0x45]])]) (sample_pcie MHI_NET_MBIM 0) =
     Some (NtbOk, concat (map (ndp_view sample_par (sample_pcie MHI_NET_MBIM 0)) [(1, [[0x45, 1], [0x60]]), (2, [[0x45]])]), t) \<and> rx_seq t = 8"
proof -
  have "ntb_ok sample_par (sample_pcie MHI_NET_MBIM 0) [(1, [[0x45, 1], [0x60]]), (2, [[0x45]])]"
    by (simp add: ntb_ok_def ndp_size_def session_dev_def mbim_index_def datagram_ok_def vnd_at_def sample_pcie_def sample_vnd_def sample_par_def
        ip_protocol_of_def)
  from mbim_block_roundtrip [OF this, of 7] show ?thesis by simp
qed

lemma mbim_session_roundtrip_witness:
  "\<exists>b t k. add_mbim_hdr sample_par 0 \<lparr>s_headroom = 32, s_data = [0x45], s_tail = [], s_protocol = ETH_P_IP\<rparr> 1 = Some b \<and>
     rmnet_mbim_rx_handler sample_par (\<lambda>_. True) (s_data b) (sample_pcie MHI_NET_MBIM 0) = Some (NtbOk, [k], t) \<and> vr_dev k = 1"
proof -
  let ?s = "sample_pcie MHI_NET_MBIM 0" and ?k = "\<lparr>s_headroom = 32, s_data = [0x45], s_tail = [], s_protocol = ETH_P_IP\<rparr>"
  obtain n p where v: "sample_vnd 1 1 = Vnd n p" by (simp add: sample_vnd_def)
  then have e: "vnd_at ?s 1 = Some (n, p)" "v_mux_id p = 1" by (simp_all add: vnd_at_def sample_pcie_def) (auto simp: sample_vnd_def)
  have r: "1 < unat (par_qmap_mode sample_par)" "par_qmap_mode sample_par \<le> 8" "length (mpQmapNetDev ?s) = 8"
    "mbim_mux_id ?s = 0 \<or> mbim_mux_id ?s = 112" "datagram_ok ?s (s_data ?k)" "length (s_data ?k) + 28 \<le> unat (rx_max ?s)"
    "length (s_data ?k) + 28 < 65536" "28 \<le> s_headroom ?k"
    by (simp_all add: sample_pcie_def sample_par_def datagram_ok_def ip_protocol_of_def)
  have m: "v_mux_id p = ucast (mbim_mux_id ?s) + of_nat 1" using e(2) by (simp add: sample_pcie_def)
  show ?thesis
    using mbim_session_roundtrip [OF e(1) r(1-4) m r(5-8), of 0] e(2) by (auto simp: vnd_packet_def)
qed

definition short_block :: "byte list" where
  "short_block = nth16_bytes 0 20 12 @ ndp16_bytes 1 16 0"

lemma mbim_decoder_ends_witness: "rmnet_mbim_rx_handler sample_par (\<lambda>i. i < 1) short_block (sample_pcie MHI_NET_MBIM 0) \<noteq> None"
proof -
  have l: "length short_block = 20" "fld16 short_block 18 = 0" by code_simp+
  have t: "list_all (\<lambda>off. tci_of (fld32 short_block off) = None) [0..<12]" by code_simp
  have "fld16 short_block (off + 6) = 0" if "ndp_head sample_par (sample_pcie MHI_NET_MBIM 0) short_block off = Inr r" for off r
  proof -
    have "off = 12" using ndp_head_in [OF that] l(1) t by (cases "off < 12") (simp_all add: list_all_iff)
    then show ?thesis using l(2) by simp
  qed
  then have "chain_forward sample_par (sample_pcie MHI_NET_MBIM 0) short_block"
    by (auto simp: chain_forward_def list_all_iff split: sum.split)
  then show ?thesis by (rule mbim_decoder_ends)
qed

definition hanging_block :: "byte list" where
  "hanging_block = nth16_bytes 0 28 12 @ ndp16_bytes 1 16 12 @ dpe16_bytes 0 0 @ dpe16_bytes 0 0"

lemma mbim_decoder_hangs_witness: "rmnet_mbim_rx_handler sample_par (\<lambda>_. True) hanging_block (sample_pcie MHI_NET_MBIM 0) = None"
proof -
  let ?s = "sample_pcie MHI_NET_MBIM 0"
  have b: "20 \<le> length hanging_block" "fld32 hanging_block 0 = USB_CDC_NCM_NTH16_SIGN" "unat (fld16 hanging_block 8) \<le> unat (rx_max ?s)" by code_simp+
  have "ndp_head sample_par ?s hanging_block 12 = Inr (0, 2)" "fld16 hanging_block 20 = 0" "unat (fld16 hanging_block 18) = 12"
    "24 \<le> length hanging_block" "unat (fld16 hanging_block 10) = 12" by code_simp+
  then have "self_chained sample_par ?s hanging_block (unat (fld16 hanging_block 10))" by (simp add: self_chained_def)
  from mbim_decoder_hangs [OF b this] show ?thesis .
qed

lemma mbim_decoder_faults_witness:
  "\<exists>t. rmnet_mbim_rx_handler sample_par (\<lambda>_. True) (nth16_bytes 0 20 12 @ ndp16_bytes 1 16 0) (sample_pcie MHI_NET_MBIM 0) = Some (NtbFault, [], t)"
proof -
  let ?s = "sample_pcie MHI_NET_MBIM 0" and ?d = "nth16_bytes 0 20 12 @ ndp16_bytes 1 16 0"
  have a: "20 \<le> length ?d" "fld32 ?d 0 = USB_CDC_NCM_NTH16_SIGN" "unat (fld16 ?d 8) \<le> unat (rx_max ?s)" "12 = unat (fld16 ?d 10)" "0 < (12 :: nat)"
    "12 + 8 \<le> length ?d" "fld16 ?d (12 + 4) = 16" "tci_of (fld32 ?d 12) = Some 1" "length (mpQmapNetDev ?s) = 8" "par_qmap_mode sample_par > 1"
    "ucast (1 :: u16) = mbim_mux_id ?s \<or> 12 + 8 = length ?d \<and> ucast (1 :: u16) = mbim_mux_id ?s + 1"
    by code_simp+
  show ?thesis by (rule mbim_decoder_faults [OF a])
qed


end
