(* ===== verification/MhiNetdev.thy ===== *)
theory MhiNetdev
  imports MhiNet "HOL-Library.Multiset"
begin

text \<open>
  The PCIe network driver, \<^verbatim>\<open>quectel_MHI/src/devices/mhi_netdev_quectel.c\<close>, on top of the transfer
  channels of \<open>MhiRing\<close> and the packet formats of \<open>MhiNet\<close>: transmission and its flow control, the
  pool of receive buffers, the poll function, link state, ioctls, start and removal.

  A socket buffer on a channel is named by a number, as \<open>MhiRing\<close> names buffers; the state keeps who
  holds it. \<open>None\<close> is a kernel panic or a loop that does not end. What the kernel decides (allocations,
  registrations, the result of \<open>dev_queue_xmit\<close>) is an argument.
\<close>

section \<open>State\<close>

record nic =
  nd :: mhi_netdev
  cntrl :: mhi_cntrl
  ul :: mhi_chan
  dl :: mhi_chan
  tx_bound :: "(nat \<times> nat) list"                        \<comment> \<open>\<open>skb_data\<close> of the buffers on the uplink: buffer and length\<close>
  rx_bound :: "nat list"                                \<comment> \<open>buffers on the downlink, \<open>bind_netdev\<close> set\<close>
  rx_allocated :: "nat list"
  qmap_chain :: "(nat \<times> byte list \<times> byte list) list"    \<comment> \<open>received: buffer, data, the memory behind\<close>
  next_skb :: nat
  gone :: "nat list"                                    \<comment> \<open>buffers freed or handed to the stack\<close>
  sent :: "byte list list"                              \<comment> \<open>data put on the uplink\<close>
  delivered :: "vpkt list"
  alloc_work :: bool                                    \<comment> \<open>\<open>delayed_work_pending\<close>\<close>
  napi_scheduled :: bool
  rx_int :: u32
  st_rx_packets :: nat
  st_rx_bytes :: nat
  st_tx_packets :: nat
  st_tx_bytes :: nat

definition EINVAL :: int where "EINVAL = 22"
definition ENETDOWN :: int where "ENETDOWN = 100"
definition EOPNOTSUPP :: int where "EOPNOTSUPP = 95"

section \<open>Sub-devices\<close>

definition set_vnd :: "nat \<Rightarrow> net_device \<Rightarrow> vnd_priv \<Rightarrow> mhi_netdev \<Rightarrow> mhi_netdev" where
  "set_vnd i n p s = s\<lparr>mpQmapNetDev := (mpQmapNetDev s)[i := Vnd n p]\<rparr>"

text \<open>
  A field of the device an entry of the table points to: nothing behind a null pointer; the table may
  name the device itself. Writes through a pointer to a freed device leave the state as it is.
\<close>

definition upd_slot :: "(net_device \<Rightarrow> net_device) \<Rightarrow> nat \<Rightarrow> mhi_netdev \<Rightarrow> mhi_netdev" where
  "upd_slot f i s =
     (if i < length (mpQmapNetDev s) then (case mpQmapNetDev s ! i of
        Vnd n p \<Rightarrow> set_vnd i (f n) p s
      | SelfDev \<Rightarrow> s\<lparr>ndev := f (ndev s)\<rparr>
      | _ \<Rightarrow> s) else s)"

definition rmnet_vnd_open :: "nat \<Rightarrow> mhi_netdev \<Rightarrow> int \<times> mhi_netdev" where
  "rmnet_vnd_open i s =
     (if \<not> nd_up (ndev s) then (- ENETDOWN, s)
      else (0, if nd_carrier (ndev s) then upd_slot (nd_carrier_update (\<lambda>_. True)) i s else s))"

definition rmnet_vnd_stop :: "nat \<Rightarrow> mhi_netdev \<Rightarrow> int \<times> mhi_netdev" where
  "rmnet_vnd_stop i s = (0, upd_slot (nd_carrier_update (\<lambda>_. False)) i s)"

definition rmnet_vnd_change_mtu :: "nat \<Rightarrow> int \<Rightarrow> mhi_netdev \<Rightarrow> int \<times> mhi_netdev" where
  "rmnet_vnd_change_mtu i new_mtu s =
     (if new_mtu < 0 \<or> new_mtu > uint (max_mtu s) then (- EINVAL, s)
      else (0, upd_slot (nd_mtu_update (\<lambda>_. word_of_int new_mtu)) i s))"

definition NETDEV_TX_OK :: int where "NETDEV_TX_OK = 0"
definition NETDEV_TX_BUSY :: int where "NETDEV_TX_BUSY = 0x10"

definition vnd_header :: "mhi_params \<Rightarrow> u16 \<Rightarrow> mhi_netdev \<Rightarrow> vnd_priv \<Rightarrow> skb \<Rightarrow> tx_fixup" where
  "vnd_header par old s p k =
     (if net_type s = MHI_NET_MBIM then (case add_mbim_hdr par old k (v_mux_id p) of None \<Rightarrow> TxDrop | Some b \<Rightarrow> TxSend b)
      else if v_qmap_version p = 5 then (case add_qhdr k (v_mux_id p) of None \<Rightarrow> TxPanic | Some b \<Rightarrow> TxSend b)
      else if v_qmap_version p = 9 then (case add_qhdr_v5 k (v_mux_id p) of None \<Rightarrow> TxPanic | Some b \<Rightarrow> TxSend b)
      else TxDrop)"

text \<open>
  \<open>err\<close> is the result of \<open>dev_queue_xmit\<close>, which \<open>rmnet_vnd_tx_agg\<close> calls. The result: the return value,
  an ARP reply for the stack and the new state.
\<close>

definition pcie_vnd_start_xmit ::
  "mhi_params \<Rightarrow> u16 \<Rightarrow> int \<Rightarrow> nat \<Rightarrow> skb \<Rightarrow> mhi_netdev \<Rightarrow> (int \<times> arp_args option \<times> mhi_netdev) option" where
  "pcie_vnd_start_xmit par old err i k s =
     (case vnd_at s i of None \<Rightarrow> None
      | Some (n, p) \<Rightarrow>
          if nd_stopped (ndev s) then Some (NETDEV_TX_BUSY, None, set_vnd i (n\<lparr>nd_stopped := True\<rparr>) p s)
          else let (pass, mac, reply) = (if nd_ether n \<and> v_bridge_mode p \<noteq> 0
                     then bridge_mode_tx_fixup (s_data k) (v_bridge_ipv4 p) (v_bridge_mac p) else (True, v_bridge_mac p, None));
                   p = p\<lparr>v_bridge_mac := mac\<rparr>; s = set_vnd i n p s in
            if \<not> pass then Some (NETDEV_TX_OK, reply, s)
            else case (if nd_ether n then skb_pull ETH_HLEN k else Some k) of None \<Rightarrow> Some (NETDEV_TX_OK, reply, s)
            | Some k1 \<Rightarrow> (case vnd_header par old s p k1 of
                TxPanic \<Rightarrow> None
              | TxDrop \<Rightarrow> Some (NETDEV_TX_OK, reply, s)
              | TxSend b \<Rightarrow>
                  if err = 0 then Some (0, reply, set_vnd i n (p\<lparr>v_tx_packets := v_tx_packets p + 1, v_tx_bytes := v_tx_bytes p + length (s_data k)\<rparr>)
                      (s\<lparr>to_ndev := to_ndev s @ [b\<lparr>s_protocol := ETH_P_MAP\<rparr>]\<rparr>))
                  else Some (err, reply, set_vnd i n (p\<lparr>v_tx_errors := v_tx_errors p + 1\<rparr>) s)))"

section \<open>Transmission\<close>

definition upto_mode :: "mhi_netdev \<Rightarrow> nat list" where
  "upto_mode s = [0..<unat (nd_qmap_mode s)]"

definition stop_queues :: "mhi_netdev \<Rightarrow> mhi_netdev" where
  "stop_queues s = (let s = fold (upd_slot (nd_stopped_update (\<lambda>_. True))) (upto_mode s) s in s\<lparr>ndev := (ndev s)\<lparr>nd_stopped := True\<rparr>\<rparr>)"

definition wake_queues :: "mhi_netdev \<Rightarrow> mhi_netdev" where
  "wake_queues s = fold (upd_slot (nd_stopped_update (\<lambda>_. False))) (upto_mode s) (s\<lparr>ndev := (ndev s)\<lparr>nd_stopped := False\<rparr>\<rparr>)"

definition set_wSequence :: "u16 \<Rightarrow> byte list \<Rightarrow> byte list" where
  "set_wSequence q d = take (length d) (take 6 d @ le16_bytes q @ drop 8 d)"

text \<open>The data as it is sent, and the device afterwards: the sequence number used, the queues stopped when the ring runs short.\<close>

definition xmit_data :: "mhi_netdev \<Rightarrow> skb \<Rightarrow> byte list" where
  "xmit_data n k = (if net_type n = MHI_NET_MBIM then set_wSequence (tx_seq n) (s_data k) else s_data k)"

definition xmit_dev :: "mhi_chan \<Rightarrow> mhi_netdev \<Rightarrow> mhi_netdev" where
  "xmit_dev ch n = (let n = (if net_type n = MHI_NET_MBIM then n\<lparr>tx_seq := tx_seq n + 1\<rparr> else n) in
     if mhi_get_no_free_descriptors ch < 16 then stop_queues n else n)"

text \<open>The queue of the device hands over its first buffer.\<close>

definition mhi_netdev_xmit :: "map_single \<Rightarrow> nic \<Rightarrow> nic" where
  "mhi_netdev_xmit map1 s =
     (case to_ndev (nd s) of [] \<Rightarrow> s
      | k # ks \<Rightarrow> let n = (nd s)\<lparr>to_ndev := ks\<rparr>; b = next_skb s; s = s\<lparr>next_skb := b + 1\<rparr> in
          if (net_type n = MHI_NET_RMNET \<or> net_type n = MHI_NET_MBIM) \<and> s_protocol k \<noteq> ETH_P_MAP then s\<lparr>gone := gone s @ [b], nd := n\<rparr>
          else let d = xmit_data n k; n = xmit_dev (ul s) n; (res, c, ch, _) = mhi_queue_skb map1 b (length d) (cntrl s) (ul s) in
            if res \<noteq> 0 then s\<lparr>cntrl := c, ul := ch, gone := gone s @ [b], nd := n\<lparr>nd_tx_errors := nd_tx_errors n + 1\<rparr>\<rparr>
            else s\<lparr>cntrl := c, ul := ch, tx_bound := tx_bound s @ [(b, length d)], nd := n, sent := sent s @ [d]\<rparr>)"

definition mhi_netdev_xfer_ul_cb :: "nat \<Rightarrow> int \<Rightarrow> nic \<Rightarrow> nic" where
  "mhi_netdev_xfer_ul_cb b status s =
     (case map_of (tx_bound s) b of None \<Rightarrow> s
      | Some n \<Rightarrow>
          let s = (if status = 0 then
                let s = s\<lparr>st_tx_packets := st_tx_packets s + 1, st_tx_bytes := st_tx_bytes s + n\<rparr> in
                if nd_stopped (ndev (nd s)) \<and> nd_enabled (nd s) \<and> mhi_get_no_free_descriptors (ul s) > 32 then s\<lparr>nd := wake_queues (nd s)\<rparr> else s
              else s) in
          s\<lparr>tx_bound := filter (\<lambda>x. fst x \<noteq> b) (tx_bound s), gone := gone s @ [b]\<rparr>)"

text \<open>One turn of the completion loop of the uplink with the driver's callback.\<close>

definition ul_complete :: "map_single \<Rightarrow> int \<Rightarrow> nic \<Rightarrow> nic" where
  "ul_complete map1 status s =
     (case xfer_one map1 0 status (cntrl s) (ul s) of (c, ch, log) \<Rightarrow>
        fold (\<lambda>(b, _, st). mhi_netdev_xfer_ul_cb b st) (completions log) (s\<lparr>cntrl := c, ul := ch\<rparr>))"

section \<open>Receive buffers\<close>

text \<open>The loop of \<open>mhi_netdev_alloc_skb\<close>; \<open>alloc n\<close> is the outcome of \<open>alloc_skb\<close> with \<open>n\<close> more turns to go.\<close>

fun alloc_loop :: "map_single \<Rightarrow> (nat \<Rightarrow> bool) \<Rightarrow> nat \<Rightarrow> nic \<Rightarrow> int \<times> nic" where
  "alloc_loop map1 alloc 0 s = (0, s)"
| "alloc_loop map1 alloc (Suc n) s =
     (case (case rx_allocated s of
              b # bs \<Rightarrow> Some (b, s\<lparr>rx_allocated := bs\<rparr>)
            | [] \<Rightarrow> if alloc n then Some (next_skb s, s\<lparr>next_skb := next_skb s + 1\<rparr>) else None) of
        None \<Rightarrow> (- ENOMEM, s)
      | Some (b, s) \<Rightarrow>
          if \<not> nd_enabled (nd s) then (- EIO, s\<lparr>gone := gone s @ [b]\<rparr>)
          else case mhi_queue_skb map1 b (unat (mru (nd s))) (cntrl s) (dl s) of (ret, c, ch, _) \<Rightarrow>
            if ret \<noteq> 0 then (- EIO, s\<lparr>cntrl := c, dl := ch, gone := gone s @ [b]\<rparr>)
            else alloc_loop map1 alloc n (s\<lparr>cntrl := c, dl := ch, rx_bound := rx_bound s @ [b]\<rparr>))"

definition mhi_netdev_alloc_skb :: "map_single \<Rightarrow> (nat \<Rightarrow> bool) \<Rightarrow> nic \<Rightarrow> int \<times> nic" where
  "mhi_netdev_alloc_skb map1 alloc s = alloc_loop map1 alloc (nat (mhi_get_no_free_descriptors (dl s))) s"

definition mhi_netdev_alloc_work :: "map_single \<Rightarrow> (nat \<Rightarrow> bool) \<Rightarrow> nic \<Rightarrow> nic" where
  "mhi_netdev_alloc_work map1 alloc s =
     (case mhi_netdev_alloc_skb map1 alloc (s\<lparr>alloc_work := False\<rparr>) of (ret, s) \<Rightarrow> if ret = - ENOMEM then s\<lparr>alloc_work := True\<rparr> else s)"

definition mhi_netdev_dealloc :: "nic \<Rightarrow> nic" where
  "mhi_netdev_dealloc s = s\<lparr>gone := gone s @ rx_allocated s, rx_allocated := []\<rparr>"

text \<open>\<open>mem\<close> is the memory of the buffer after the transfer of \<open>n\<close> bytes into it.\<close>

definition mhi_netdev_xfer_dl_cb :: "byte list \<Rightarrow> nat \<Rightarrow> nat \<Rightarrow> int \<Rightarrow> nic \<Rightarrow> nic option" where
  "mhi_netdev_xfer_dl_cb mem b n status s =
     (if b \<notin> set (rx_bound s) then Some s
      else let s = s\<lparr>rx_bound := remove1 b (rx_bound s)\<rparr> in
      if status \<noteq> 0 then Some (s\<lparr>gone := gone s @ [b]\<rparr>)
      else if n > unat (mru (nd s)) then None
      else Some (s\<lparr>qmap_chain := qmap_chain s @ [(b, take n mem, drop n mem)]\<rparr>))"

definition dl_complete :: "map_single \<Rightarrow> byte list \<Rightarrow> nat \<Rightarrow> int \<Rightarrow> nic \<Rightarrow> nic option" where
  "dl_complete map1 mem n status s =
     (case xfer_one map1 n status (cntrl s) (dl s) of (c, ch, log) \<Rightarrow>
        fold (\<lambda>(b, m, st) r. Option.bind r (mhi_netdev_xfer_dl_cb mem b m st)) (completions log) (Some (s\<lparr>cntrl := c, dl := ch\<rparr>)))"

text \<open>A recycled buffer keeps its memory; with 128 buffers in the pool it is freed.\<close>

definition recycle :: "bool \<Rightarrow> nat \<Rightarrow> nic \<Rightarrow> nic" where
  "recycle cloned b s =
     (if \<not> cloned \<and> length (rx_allocated s) < 128 then s\<lparr>rx_allocated := rx_allocated s @ [b]\<rparr> else s\<lparr>gone := gone s @ [b]\<rparr>)"

definition rmnet_rx_handler ::
  "mhi_params \<Rightarrow> (nat \<Rightarrow> bool) \<Rightarrow> bool \<Rightarrow> nat \<times> byte list \<times> byte list \<Rightarrow> nic \<Rightarrow> nic option" where
  "rmnet_rx_handler par alloc cloned x s =
     (case x of (b, d, tail) \<Rightarrow>
        if net_type (nd s) = MHI_NET_MBIM then (case rmnet_mbim_rx_handler par alloc d (nd s) of
            None \<Rightarrow> None
          | Some (e, ps, t) \<Rightarrow> if e = NtbFault then None else Some (recycle cloned b (s\<lparr>nd := t, delivered := delivered s @ ps\<rparr>)))
        else (case rmnet_qmi_rx_handler alloc tail d (nd s) of
            None \<Rightarrow> None
          | Some (f, ps, t) \<Rightarrow> if f then None else Some (recycle cloned b (s\<lparr>nd := t, delivered := delivered s @ ps\<rparr>))))"

definition mhi_netdev_ip_type_trans :: "byte \<Rightarrow> u16" where
  "mhi_netdev_ip_type_trans b = (if b AND 0xf0 = 0x40 then ETH_P_IP else if b AND 0xf0 = 0x60 then ETH_P_IPV6 else ETH_P_MAP)"

text \<open>What \<open>mhi_netdev_poll\<close> does with one received buffer.\<close>

definition receive_one ::
  "mhi_params \<Rightarrow> (nat \<Rightarrow> bool) \<Rightarrow> bool \<Rightarrow> nat \<times> byte list \<times> byte list \<Rightarrow> nic \<Rightarrow> nic option" where
  "receive_one par alloc cloned x s =
     (let s = s\<lparr>st_rx_packets := st_rx_packets s + 1, st_rx_bytes := st_rx_bytes s + length (fst (snd x))\<rparr> in
      if net_type (nd s) = MHI_NET_MBIM \<or> net_type (nd s) = MHI_NET_RMNET then rmnet_rx_handler par alloc cloned x s
      else Some (s\<lparr>gone := gone s @ [fst x], delivered := delivered s @
        [\<lparr>vr_dev = 0, vr_protocol = mhi_netdev_ip_type_trans (fld8 (fst (snd x)) 0), vr_mac = [], vr_data = fst (snd x)\<rparr>]\<rparr>))"

fun receive_all :: "mhi_params \<Rightarrow> (nat \<Rightarrow> nat \<Rightarrow> bool) \<Rightarrow> (nat \<Rightarrow> bool) \<Rightarrow> (nat \<times> byte list \<times> byte list) list \<Rightarrow> nic \<Rightarrow> nic option" where
  "receive_all par alloc cloned [] s = Some s"
| "receive_all par alloc cloned (x # xs) s =
     Option.bind (receive_one par (alloc (fst x)) (cloned (fst x)) x s) (receive_all par alloc cloned xs)"

text \<open>The completions that \<open>mhi_poll\<close> reports: length, status and the buffer's memory.\<close>

fun dl_complete_all :: "map_single \<Rightarrow> (nat \<times> int \<times> byte list) list \<Rightarrow> nic \<Rightarrow> nic option" where
  "dl_complete_all map1 [] s = Some s"
| "dl_complete_all map1 ((n, st, mem) # xs) s = Option.bind (dl_complete map1 mem n st s) (dl_complete_all map1 xs)"

definition poll_refill :: "map_single \<Rightarrow> (nat \<Rightarrow> bool) \<Rightarrow> nic \<Rightarrow> nic" where
  "poll_refill map1 alloc s =
     (if alloc_work s then s
      else case mhi_netdev_alloc_skb map1 alloc s of (ret, s) \<Rightarrow>
        if ret = - ENOMEM then s\<lparr>nd := (nd s)\<lparr>alloc_failed := alloc_failed (nd s) + 1\<rparr>, alloc_work := True\<rparr> else s)"

definition mhi_netdev_poll ::
  "mhi_params \<Rightarrow> map_single \<Rightarrow> (nat \<Rightarrow> nat \<Rightarrow> bool) \<Rightarrow> (nat \<Rightarrow> bool) \<Rightarrow> (nat \<Rightarrow> bool) \<Rightarrow> int \<Rightarrow> int \<Rightarrow>
     (nat \<times> int \<times> byte list) list \<Rightarrow> nic \<Rightarrow> (int \<times> nic) option" where
  "mhi_netdev_poll par map1 alloc cloned mem_ok rx_work budget cs s =
     Option.bind (dl_complete_all map1 cs s) (\<lambda>s.
       if rx_work < 0 then Some (0, s\<lparr>napi_scheduled := False\<rparr>)
       else Option.bind (receive_all par alloc cloned (qmap_chain s) (s\<lparr>qmap_chain := []\<rparr>)) (\<lambda>s.
         Some (rx_work, if rx_work < budget then (poll_refill map1 mem_ok s)\<lparr>napi_scheduled := False\<rparr> else poll_refill map1 mem_ok s)))"

definition mhi_netdev_status_cb :: "bool \<Rightarrow> nic \<Rightarrow> nic" where
  "mhi_netdev_status_cb pending_data s =
     (if \<not> pending_data then s else if napi_scheduled s then s else s\<lparr>napi_scheduled := True, rx_int := rx_int s + 1\<rparr>)"

section \<open>Settings\<close>

definition mhi_netdev_open :: "bool \<Rightarrow> mhi_netdev \<Rightarrow> int \<times> mhi_netdev" where
  "mhi_netdev_open has_ul s = (0, s\<lparr>ndev := (ndev s)\<lparr>nd_stopped := \<not> has_ul\<rparr>\<rparr>)"

definition mhi_netdev_change_mtu :: "u32 \<Rightarrow> int \<Rightarrow> mhi_netdev \<Rightarrow> int \<times> mhi_netdev" where
  "mhi_netdev_change_mtu dev_mtu new_mtu s =
     (if new_mtu < 0 \<or> uint dev_mtu < new_mtu then (- EINVAL, s) else (0, s\<lparr>ndev := (ndev s)\<lparr>nd_mtu := word_of_int new_mtu\<rparr>\<rparr>))"

definition link_target :: "u32 \<Rightarrow> u32 \<Rightarrow> u32 \<Rightarrow> u32 \<times> nat" where
  "link_target mode w old =
     (if mode > 1 then let off = unat ((w AND 0xF) - 1) in
        (if 0 < w \<and> w \<le> mode then (old OR push_bit off 1, off)
         else if 0x80 < w \<and> w \<le> 0x80 + mode then (old AND NOT (push_bit off 1), off) else (old, off))
      else (if w \<noteq> 0 then 1 else 0, 0))"

definition pcie_link_state_set :: "u32 \<Rightarrow> mhi_netdev \<Rightarrow> mhi_netdev" where
  "pcie_link_state_set w s =
     (let (l, off) = link_target (nd_qmap_mode s) w (nd_link_state s) in
      if nd_link_state s = l then s
      else let s = s\<lparr>nd_link_state := l, ndev := (ndev s)\<lparr>nd_carrier := (l \<noteq> 0)\<rparr>\<rparr> in
        upd_slot (nd_carrier_update (\<lambda>_. l AND push_bit off 1 \<noteq> 0)) off s)"

definition pcie_link_state_store :: "(string \<Rightarrow> nat \<Rightarrow> u64) \<Rightarrow> string \<Rightarrow> mhi_netdev \<Rightarrow> mhi_netdev" where
  "pcie_link_state_store simple_strtoul buf s = pcie_link_state_set (ucast (simple_strtoul buf 0)) s"

definition qmap_setting_store :: "u32 \<Rightarrow> u32 \<Rightarrow> u32 \<Rightarrow> mhi_netdev \<Rightarrow> int \<times> mhi_netdev" where
  "qmap_setting_store size_field padding sz s =
     (if size_field \<noteq> sz then (- EOPNOTSUPP, s) else (0, s\<lparr>nd_dl_minimum_padding := padding\<rparr>))"

datatype pcie_ioctl = PcieLink u32 | PcieSettings u32 u32 | PcieInfo | PcieOther

text \<open>\<open>copy\<close> is the result of the copy from or to user space.\<close>

definition pcie_ndo_do_ioctl ::
  "(string \<Rightarrow> nat \<Rightarrow> u64) \<Rightarrow> (u32 \<Rightarrow> string) \<Rightarrow> int \<Rightarrow> pcie_ioctl \<Rightarrow> mhi_netdev \<Rightarrow> int \<times> mhi_netdev" where
  "pcie_ndo_do_ioctl simple_strtoul print copy cmd s =
     (case cmd of
        PcieLink w \<Rightarrow> if copy \<noteq> 0 then (copy, s) else (0, pcie_link_state_store simple_strtoul (print w) s)
      | PcieSettings size_field padding \<Rightarrow> if copy \<noteq> 0 then (copy, s) else qmap_setting_store size_field padding 32 s
      | PcieInfo \<Rightarrow> if use_rmnet_usb s then (copy, s) else (- EOPNOTSUPP, s)
      | PcieOther \<Rightarrow> (- EOPNOTSUPP, s))"

definition pcie_bridge_mode_store :: "u32 \<Rightarrow> nat option \<Rightarrow> mhi_netdev \<Rightarrow> mhi_netdev" where
  "pcie_bridge_mode_store w dev s =
     (case dev of
        None \<Rightarrow> if nd_ether (ndev s) then s\<lparr>nd_bridge_mode := w\<rparr> else s
      | Some i \<Rightarrow> (case vnd_at s i of None \<Rightarrow> s | Some (n, p) \<Rightarrow> if nd_ether n then set_vnd i n (p\<lparr>v_bridge_mode := w\<rparr>) s else s))"

definition pcie_bridge_ipv4_store :: "u32 \<Rightarrow> nat option \<Rightarrow> mhi_netdev \<Rightarrow> mhi_netdev" where
  "pcie_bridge_ipv4_store w dev s =
     (case dev of
        None \<Rightarrow> s\<lparr>nd_bridge_ipv4 := w\<rparr>
      | Some i \<Rightarrow> (case vnd_at s i of None \<Rightarrow> s | Some (n, p) \<Rightarrow> set_vnd i n (p\<lparr>v_bridge_ipv4 := w\<rparr>) s))"

section \<open>Start and removal\<close>

definition node_id :: "byte list" where "node_id = [0x02, 0x50, 0xf4, 0, 0, 0]"

datatype reg_result = RegNoMem | RegFailed | RegOk

text \<open>A failed registration frees the device and returns the pointer to it.\<close>

definition rmnet_vnd_register_device :: "reg_result \<Rightarrow> mhi_netdev \<Rightarrow> byte \<Rightarrow> byte \<Rightarrow> nslot" where
  "rmnet_vnd_register_device r s off mux =
     (case r of RegNoMem \<Rightarrow> NullDev | RegFailed \<Rightarrow> FreedDev
      | RegOk \<Rightarrow> Vnd \<lparr>nd_mtu = 1500, nd_ether = True, nd_hard_header_len = 14, nd_addr = take 5 (nd_addr (ndev s)) @ [off + 1],
            nd_up = False, nd_carrier = False, nd_stopped = False\<rparr>
          \<lparr>v_offset_id = off, v_mux_id = mux, v_qmap_version = ucast (nd_qmap_version s),
           v_bridge_mode = (if bit (nd_bridge_mode s) (unat off) then 1 else 0), v_bridge_ipv4 = 0, v_bridge_mac = replicate 6 0,
           v_rx_packets = 0, v_rx_bytes = 0, v_tx_packets = 0, v_tx_bytes = 0, v_tx_errors = 0\<rparr>)"

definition register_vnd :: "mhi_params \<Rightarrow> (nat \<Rightarrow> reg_result) \<Rightarrow> nat \<Rightarrow> mhi_netdev \<Rightarrow> mhi_netdev option" where
  "register_vnd par reg i s =
     (let mux = (if par_mhi_mbim_enabled par then ucast (mbim_mux_id s) + of_nat i else QUECTEL_QMAP_MUX_ID + of_nat i);
          v = rmnet_vnd_register_device (reg i) s (of_nat i) mux in
      if i < length (mpQmapNetDev s) then Some (s\<lparr>mpQmapNetDev := (mpQmapNetDev s)[i := v],
          info_mux_id := (if v = NullDev then info_mux_id s else (info_mux_id s)[i := mux])\<rparr>)
      else None)"

datatype ip_chan = IP_HW0 | IP_SW0 | OtherChan

definition is_sdx_v5 :: "u32 \<Rightarrow> u32 \<Rightarrow> bool" where
  "is_sdx_v5 vendor dev_id = ((vendor, dev_id) \<in> {(0x17cb, 0x0306), (0x17cb, 0x0308), (0x1eac, 0x1004), (0x17cb, 0x011a), (0x1eac, 0x100b), (0x17cb, 0x0309)})"

definition probe_netdev :: "mhi_params \<Rightarrow> ip_chan \<Rightarrow> u32 \<Rightarrow> u32 \<Rightarrow> mhi_netdev" where
  "probe_netdev par chan vendor dev_id =
     (let ty = (if chan = IP_HW0 then (if par_mhi_mbim_enabled par then MHI_NET_MBIM else MHI_NET_RMNET) else MHI_NET_ETHER);
          m = (if ty = MHI_NET_MBIM then 0x8000 else if ty = MHI_NET_ETHER then 0x2000 else 0x3C00);
          ether = (ty = MHI_NET_ETHER) in
      \<lparr>net_type = ty, nd_enabled = False, tx_seq = 0, rx_seq = 0, rx_max = (if ty = MHI_NET_MBIM then m else 0),
       mbim_mux_id = (if vendor = 0x17cb \<and> dev_id = 0x0309 then 112 else 0), mru = m,
       max_mtu = (if ty = MHI_NET_MBIM then m - 28 else if ether then m else m - 8),
       ndev = \<lparr>nd_mtu = 1500, nd_ether = False, nd_hard_header_len = 0, nd_addr = node_id, nd_up = False, nd_carrier = False, nd_stopped = False\<rparr>,
       mpQmapNetDev = replicate 8 NullDev, nd_qmap_mode = (if ether then 1 else par_qmap_mode par),
       nd_qmap_version = (if ether then 0 else if is_sdx_v5 vendor dev_id then 9 else 5), nd_qmap_size = m, nd_link_state = 0, flow_control = 0,
       nd_dl_minimum_padding = 0, nd_bridge_mode = 0, nd_bridge_ipv4 = 0, nd_bridge_mac = replicate 6 0, use_rmnet_usb = \<not> ether,
       info_mux_id = replicate 8 0, rmnet_map_command_stats = replicate RMNET_MAP_COMMAND_ENUM_LENGTH 0, alloc_failed = 0, nd_tx_errors = 0, to_ndev = []\<rparr>)"

text \<open>
  \<open>prep\<close> is the result of \<open>mhi_prepare_for_transfer\<close>, \<open>has_ndev\<close> whether the device could be allocated, \<open>reg_err\<close> the
  result of \<open>register_netdev\<close>.
\<close>

definition mhi_netdev_enable_iface :: "mhi_params \<Rightarrow> map_single \<Rightarrow> (nat \<Rightarrow> bool) \<Rightarrow> int \<Rightarrow> bool \<Rightarrow> int \<Rightarrow> nic \<Rightarrow> int \<times> nic" where
  "mhi_netdev_enable_iface par map1 alloc prep has_ndev reg_err s =
     (if prep \<noteq> 0 then (prep, s)
      else if \<not> has_ndev then (- ENOMEM, s)
      else let ether = (net_type (nd s) = MHI_NET_ETHER);
               n = (nd s)\<lparr>nd_bridge_mode := (if ether then 0 else par_bridge_mode par),
                     ndev := (ndev (nd s))\<lparr>nd_mtu := (if ether then mru (nd s) else nd_mtu (ndev (nd s)))\<rparr>\<rparr>; s = s\<lparr>nd := n\<rparr> in
      if reg_err \<noteq> 0 then (reg_err, s)
      else let (ret, s) = mhi_netdev_alloc_skb map1 alloc (s\<lparr>nd := n\<lparr>nd_enabled := True\<rparr>\<rparr>) in
        (0, if ret \<noteq> 0 then s\<lparr>alloc_work := True\<rparr> else s))"

definition fresh_nic :: "mhi_netdev \<Rightarrow> mhi_cntrl \<Rightarrow> mhi_chan \<Rightarrow> mhi_chan \<Rightarrow> nic" where
  "fresh_nic n c u d = \<lparr>nd = n, cntrl = c, ul = u, dl = d, tx_bound = [], rx_bound = [], rx_allocated = [], qmap_chain = [], next_skb = 0,
     gone = [], sent = [], delivered = [], alloc_work = False, napi_scheduled = False, rx_int = 0,
     st_rx_packets = 0, st_rx_bytes = 0, st_tx_packets = 0, st_tx_bytes = 0\<rparr>"

text \<open>With the module parameter \<open>qmap_mode\<close> above 8 the loop of registrations leaves the table: \<open>None\<close>.\<close>

definition mhi_netdev_probe ::
  "mhi_params \<Rightarrow> map_single \<Rightarrow> (nat \<Rightarrow> bool) \<Rightarrow> int \<Rightarrow> bool \<Rightarrow> int \<Rightarrow> (nat \<Rightarrow> reg_result) \<Rightarrow> ip_chan \<Rightarrow> u32 \<Rightarrow> u32 \<Rightarrow>
     mhi_cntrl \<Rightarrow> mhi_chan \<Rightarrow> mhi_chan \<Rightarrow> (int \<times> nic) option" where
  "mhi_netdev_probe par map1 alloc prep has_ndev reg_err reg chan vendor dev_id c u d =
     (let s = fresh_nic (probe_netdev par chan vendor dev_id) c u d in
      if chan = OtherChan then Some (- EINVAL, s)
      else case mhi_netdev_enable_iface par map1 alloc prep has_ndev reg_err s of (ret, s) \<Rightarrow>
        if ret \<noteq> 0 then Some (ret, s)
        else if net_type (nd s) = MHI_NET_ETHER
        then Some (0, s\<lparr>nd := (nd s)\<lparr>mpQmapNetDev := (mpQmapNetDev (nd s))[0 := SelfDev], ndev := (ndev (nd s))\<lparr>nd_carrier := True\<rparr>\<rparr>\<rparr>)
        else map_option (\<lambda>n. (0, s\<lparr>nd := n\<rparr>))
          (fold (\<lambda>i r. Option.bind r (register_vnd par reg i)) (upto_mode (nd s)) (Some (nd s))))"

definition rmnet_vnd_unregister_device :: "nat \<Rightarrow> mhi_netdev \<Rightarrow> mhi_netdev" where
  "rmnet_vnd_unregister_device i s = s\<lparr>mpQmapNetDev := (mpQmapNetDev s)[i := NullDev]\<rparr>"

definition mhi_netdev_remove :: "map_single \<Rightarrow> (nat \<Rightarrow> bool) \<Rightarrow> nic \<Rightarrow> nic" where
  "mhi_netdev_remove map1 alloc s =
     (let s = s\<lparr>nd := fold rmnet_vnd_unregister_device (upto_mode (nd s)) ((nd s)\<lparr>nd_enabled := False\<rparr>)\<rparr>;
          s = s\<lparr>gone := gone s @ map fst (qmap_chain s) @ rx_allocated s, qmap_chain := [], rx_allocated := [], napi_scheduled := False\<rparr>;
          s = mhi_netdev_dealloc s in
      if alloc_work s then mhi_netdev_alloc_work map1 alloc s else s)"

section \<open>What the handlers leave alone\<close>

definition same_dev :: "mhi_netdev \<Rightarrow> mhi_netdev \<Rightarrow> bool" where
  "same_dev s t \<longleftrightarrow> ndev t = ndev s \<and> nd_enabled t = nd_enabled s \<and> net_type t = net_type s \<and> mru t = mru s"

lemma same_dev_refl [simp]: "same_dev s s"
  by (simp add: same_dev_def)

lemma same_dev_trans: "same_dev a b \<Longrightarrow> same_dev b c \<Longrightarrow> same_dev a c"
  by (simp add: same_dev_def)

lemma same_dev_stats: "same_dev s (fold rmnet_vnd_upate_rx_stats ps t) = same_dev s t"
  by (induction ps arbitrary: t) (auto simp: rmnet_vnd_upate_rx_stats_def same_dev_def split: option.split)

lemma same_dev_command: "rmnet_data_map_command a m s = Some t \<Longrightarrow> same_dev s t"
  by (auto simp: rmnet_data_map_command_def rmnet_map_do_flow_control_def rmnet_map_send_ack_def bump_def same_dev_def Let_def
      split: if_splits)

lemma same_dev_qmi_loop:
  assumes "qmi_rx_loop alloc tail d s = Some r"
  shows "same_dev s (snd (snd r))"
  using assms
proof (induction arbitrary: rule: qmi_rx_loop.raw_induct [rotated, consumes 1, case_names body])
  case (body rec alloc tail d s r)
  note IH = body(1)
  show ?case
  proof (cases "length d > 4")
    case True
    show ?thesis
    proof (cases "qmi_rx_step (alloc 0) d s")
      case (QmiCommand n)
      show ?thesis
      proof (cases "rmnet_data_map_command (alloc 0) (d @ tail) s")
        case (Some s1)
        have "rec (\<lambda>i. alloc (Suc i)) tail (pull_in n d) s1 = Some r" using body(2) True QmiCommand Some by simp
        then show ?thesis using IH same_dev_trans same_dev_command [OF Some] by blast
      qed (use body(2) True QmiCommand in auto)
    next
      case (QmiPacket k n)
      then obtain r' where "rec (\<lambda>i. alloc (Suc i)) tail (pull_in n d) s = Some r'" "r = (fst r', k # fst (snd r'), snd (snd r'))"
        using body(2) True by (auto simp: Option.bind_eq_Some_conv)
      then show ?thesis using IH by fastforce
    qed (use body(2) True IH in \<open>auto simp: same_dev_def\<close>)
  qed (use body(2) in auto)
qed

lemma same_dev_rx:
  "rmnet_mbim_rx_handler par alloc d s = Some (e, ps, t) \<Longrightarrow> same_dev s t"
  "rmnet_qmi_rx_handler alloc tail d s = Some (f, ps, t) \<Longrightarrow> same_dev s t"
proof -
  show "rmnet_mbim_rx_handler par alloc d s = Some (e, ps, t) \<Longrightarrow> same_dev s t"
    by (auto simp: rmnet_mbim_rx_handler_def same_dev_stats split: if_splits) (simp_all add: same_dev_def)
  show "rmnet_qmi_rx_handler alloc tail d s = Some (f, ps, t) \<Longrightarrow> same_dev s t"
    using same_dev_qmi_loop [of alloc tail d s] by (auto simp: rmnet_qmi_rx_handler_def same_dev_stats)
qed

section \<open>Who holds a buffer\<close>

definition holders :: "nic \<Rightarrow> nat list" where
  "holders s = rx_bound s @ map fst (qmap_chain s) @ rx_allocated s @ map fst (tx_bound s) @ gone s"

definition rings_ok :: "nic \<Rightarrow> bool" where
  "rings_ok s \<longleftrightarrow> chan_wf (ul s) \<and> \<not> pre_alloc (ul s) \<and> \<not> offload_ch (ul s) \<and> chan_wf (dl s) \<and> \<not> pre_alloc (dl s) \<and> \<not> offload_ch (dl s) \<and>
     map cb_buf (outstanding (ul s)) = map fst (tx_bound s) \<and> map cb_buf (outstanding (dl s)) = rx_bound s"

definition stop_ok :: "nic \<Rightarrow> bool" where
  "stop_ok s \<longleftrightarrow> (nd_enabled (nd s) \<and> nd_stopped (ndev (nd s)) \<longrightarrow> mhi_get_no_free_descriptors (ul s) \<le> 32)"

definition nic_inv :: "nic \<Rightarrow> bool" where
  "nic_inv s \<longleftrightarrow> rings_ok s \<and> mset (holders s) = mset [0..<next_skb s] \<and> length (rx_allocated s) \<le> 128 \<and> stop_ok s"

lemma chan_free:
  "chan_wf ch \<Longrightarrow> \<not> offload_ch ch \<Longrightarrow> mhi_get_no_free_descriptors ch = int (chan_cap ch) - int (length (outstanding ch))"
  using ring_avail [of "tre_ring ch"] chan_used [of ch] ring_used(1) [of "tre_ring ch"]
  by (auto simp: mhi_get_no_free_descriptors_def chan_wf_def chan_cap_def)

lemma queue_skb_cases:
  assumes "mhi_queue_skb map1 b n c ch = (ret, c', ch', log)" "chan_wf ch"
  shows "chan_wf ch' \<and> pre_alloc ch' = pre_alloc ch \<and> offload_ch ch' = offload_ch ch \<and> chan_cap ch' = chan_cap ch \<and>
     map cb_buf (outstanding ch') = map cb_buf (outstanding ch) @ (if ret = 0 then [b] else [])"
  using mhi_queue_skb_queued [OF assms(2,1)] chan_frame_queue(1) [OF assms(1)]
  by (auto simp: queued_def chan_frame_def chan_cap_def split: if_splits)

lemma holders_distinct: "nic_inv s \<Longrightarrow> distinct (holders s)"
  using mset_eq_imp_distinct_iff [of "holders s" "[0..<next_skb s]"] by (simp add: nic_inv_def)

lemma nic_inv_nd:
  "nic_inv s \<Longrightarrow> same_dev (nd s) t \<Longrightarrow> nic_inv (s\<lparr>nd := t\<rparr>)"
  by (simp add: nic_inv_def rings_ok_def holders_def stop_ok_def same_dev_def)

lemma fresh_buffer [simp]: "mset_set {0..<Suc n} = add_mset n (mset_set {0..<n})"
  by (simp add: atLeast0_lessThan_Suc)

section \<open>Receive buffers are never lost\<close>

text \<open>What refilling the downlink changes: only the buffers on it and those taken from the pool.\<close>

definition refilled :: "nic \<Rightarrow> nic \<Rightarrow> bool" where
  "refilled s t \<longleftrightarrow> nd t = nd s \<and> ul t = ul s \<and> tx_bound t = tx_bound s \<and> qmap_chain t = qmap_chain s \<and> delivered t = delivered s \<and>
     sent t = sent s \<and> alloc_work t = alloc_work s"

lemma refilled_trans: "refilled a b \<Longrightarrow> refilled b c \<Longrightarrow> refilled a c"
  by (simp add: refilled_def)

definition take_buf :: "bool \<Rightarrow> nic \<Rightarrow> (nat \<times> nic) option" where
  "take_buf a s = (case rx_allocated s of b # bs \<Rightarrow> Some (b, s\<lparr>rx_allocated := bs\<rparr>)
     | [] \<Rightarrow> if a then Some (next_skb s, s\<lparr>next_skb := next_skb s + 1\<rparr>) else None)"

lemma take_buf_inv:
  assumes "nic_inv s" "take_buf a s = Some (b, t)"
  shows "rings_ok t" "mset (holders (t\<lparr>gone := gone t @ [b]\<rparr>)) = mset [0..<next_skb t]" "length (rx_allocated t) \<le> 128" "stop_ok t"
    "refilled s t" "rx_bound t = rx_bound s" "dl t = dl s" "cntrl t = cntrl s"
  using assms by (auto simp: take_buf_def nic_inv_def rings_ok_def holders_def stop_ok_def refilled_def split: list.splits if_splits)

lemma alloc_loop_Suc:
  "alloc_loop map1 alloc (Suc n) s = (case take_buf (alloc n) s of None \<Rightarrow> (- ENOMEM, s)
     | Some (b, s) \<Rightarrow>
          if \<not> nd_enabled (nd s) then (- EIO, s\<lparr>gone := gone s @ [b]\<rparr>)
          else case mhi_queue_skb map1 b (unat (mru (nd s))) (cntrl s) (dl s) of (ret, c, ch, _) \<Rightarrow>
            if ret \<noteq> 0 then (- EIO, s\<lparr>cntrl := c, dl := ch, gone := gone s @ [b]\<rparr>)
            else alloc_loop map1 alloc n (s\<lparr>cntrl := c, dl := ch, rx_bound := rx_bound s @ [b]\<rparr>))"
  by (simp add: take_buf_def)

lemma alloc_loop_inv:
  "nic_inv s \<Longrightarrow> alloc_loop map1 alloc n s = (ret, t) \<Longrightarrow>
   nic_inv t \<and> refilled s t \<and> chan_cap (dl t) = chan_cap (dl s) \<and> (ret = 0 \<longrightarrow> length (rx_bound t) = length (rx_bound s) + n)"
proof (induction n arbitrary: s)
  case 0
  then show ?case by (auto simp: refilled_def)
next
  case (Suc n)
  show ?case
  proof (cases "take_buf (alloc n) s")
    case None
    then show ?thesis using Suc.prems by (auto simp: alloc_loop_Suc refilled_def ENOMEM_def simp del: alloc_loop.simps)
  next
    case (Some r)
    then obtain b s1 where b: "take_buf (alloc n) s = Some (b, s1)" by (cases r) auto
    note inv = take_buf_inv [OF Suc.prems(1) b]
    obtain q c ch log where q: "mhi_queue_skb map1 b (unat (mru (nd s1))) (cntrl s1) (dl s1) = (q, c, ch, log)" by (metis prod_cases4)
    have wf: "chan_wf (dl s1)" using inv(1) by (simp add: rings_ok_def)
    note ch = queue_skb_cases [OF q wf]
    have lost: "nic_inv (s1\<lparr>gone := gone s1 @ [b]\<rparr>)" "q \<noteq> 0 \<Longrightarrow> nic_inv (s1\<lparr>cntrl := c, dl := ch, gone := gone s1 @ [b]\<rparr>)"
      using inv ch by (simp_all add: nic_inv_def rings_ok_def stop_ok_def holders_def)
    let ?s2 = "s1\<lparr>cntrl := c, dl := ch, rx_bound := rx_bound s1 @ [b]\<rparr>"
    have on: "q = 0 \<Longrightarrow> nic_inv ?s2" using inv ch by (simp add: nic_inv_def rings_ok_def stop_ok_def holders_def)
    have fr: "refilled s ?s2" "chan_cap (dl ?s2) = chan_cap (dl s)" "length (rx_bound ?s2) = Suc (length (rx_bound s))"
      using inv ch by (simp_all add: refilled_def)
    show ?thesis
    proof (cases "nd_enabled (nd s1) \<and> q = 0")
      case True
      then have "alloc_loop map1 alloc n ?s2 = (ret, t)" using Suc.prems(2) b q by (simp add: alloc_loop_Suc del: alloc_loop.simps)
      from Suc.IH [OF on this] True fr refilled_trans [OF fr(1)] show ?thesis by auto
    next
      case False
      define u where "u = (if nd_enabled (nd s1) then s1\<lparr>cntrl := c, dl := ch, gone := gone s1 @ [b]\<rparr> else s1\<lparr>gone := gone s1 @ [b]\<rparr>)"
      have "(ret, t) = (- EIO, u)"
        using False Suc.prems(2) b q by (cases "nd_enabled (nd s1)") (simp_all add: alloc_loop_Suc u_def del: alloc_loop.simps)
      moreover have "nic_inv u" using lost False by (simp add: u_def)
      moreover have "refilled s u" "chan_cap (dl u) = chan_cap (dl s)" using inv ch by (simp_all add: refilled_def u_def)
      ultimately show ?thesis by (simp add: EIO_def)
    qed
  qed
qed

lemma alloc_skb_inv:
  assumes "nic_inv s" "mhi_netdev_alloc_skb map1 alloc s = (ret, t)"
  shows "nic_inv t" "refilled s t" "ret = 0 \<Longrightarrow> length (rx_bound t) = chan_cap (dl t)"
proof -
  note l = alloc_loop_inv [OF assms(1) assms(2) [unfolded mhi_netdev_alloc_skb_def]]
  then show "nic_inv t" "refilled s t" by blast+
  have r: "chan_wf (dl s)" "\<not> offload_ch (dl s)" "map cb_buf (outstanding (dl s)) = rx_bound s" using assms(1) by (simp_all add: nic_inv_def rings_ok_def)
  have "length (rx_bound s) = length (outstanding (dl s))" using r(3) by (metis length_map)
  moreover have "length (outstanding (dl s)) \<le> chan_cap (dl s)" using chan.len_le [OF r(1)] .
  ultimately show "ret = 0 \<Longrightarrow> length (rx_bound t) = chan_cap (dl t)" using l chan_free [OF r(1,2)] by simp
qed

lemma queue_skb_ok:
  assumes "mhi_queue_skb map1 b n c ch = (q, c', ch', log)" "chan_wf ch" "length (outstanding ch) < chan_cap ch"
    "\<not> MHI_PM_IN_ERROR_STATE (pm_state c)" "fst (map1 b) = 0"
  shows "q = 0" "pm_state c' = pm_state c"
proof -
  have nf: "\<not> mhi_is_ring_full (tre_ring ch)" using chan.full_iff [OF assms(2)] assms(3) by (simp add: chan_full_def)
  obtain a where a: "map1 b = (0, a)" using assms(5) by (cases "map1 b") simp
  show "q = 0" "pm_state c' = pm_state c"
    using assms(1,4) nf a by (auto simp: mhi_queue_skb_def Let_def count_pending_def split: if_splits prod.splits)
qed

text \<open>With memory, an enabled device and working DMA the ring is filled completely.\<close>

lemma alloc_loop_fills:
  "nic_inv s \<Longrightarrow> nd_enabled (nd s) \<Longrightarrow> \<not> MHI_PM_IN_ERROR_STATE (pm_state (cntrl s)) \<Longrightarrow> (\<And>b. fst (map1 b) = 0) \<Longrightarrow>
   length (rx_bound s) + n \<le> chan_cap (dl s) \<Longrightarrow> fst (alloc_loop map1 (\<lambda>_. True) n s) = 0"
proof (induction n arbitrary: s)
  case (Suc n)
  obtain b s1 where b: "take_buf True s = Some (b, s1)" by (cases "rx_allocated s") (simp_all add: take_buf_def)
  note inv = take_buf_inv [OF Suc.prems(1) b]
  have e: "nd_enabled (nd s1)" "\<not> MHI_PM_IN_ERROR_STATE (pm_state (cntrl s1))" using Suc.prems(2,3) inv by (simp_all add: refilled_def)
  have wf: "chan_wf (dl s1)" "map cb_buf (outstanding (dl s1)) = rx_bound s1" using inv(1) by (simp_all add: rings_ok_def)
  have len: "length (outstanding (dl s1)) = length (rx_bound s1)" using wf(2) by (metis length_map)
  have nf: "length (outstanding (dl s1)) < chan_cap (dl s1)" using len Suc.prems(5) inv by simp
  obtain q c ch log where q: "mhi_queue_skb map1 b (unat (mru (nd s1))) (cntrl s1) (dl s1) = (q, c, ch, log)" by (metis prod_cases4)
  note q0 = queue_skb_ok [OF q wf(1) nf e(2) Suc.prems(4)]
  note ch = queue_skb_cases [OF q wf(1)]
  let ?s2 = "s1\<lparr>cntrl := c, dl := ch, rx_bound := rx_bound s1 @ [b]\<rparr>"
  have "nic_inv ?s2" using inv ch q0 by (simp add: nic_inv_def rings_ok_def stop_ok_def holders_def)
  moreover have "length (rx_bound ?s2) + n \<le> chan_cap (dl ?s2)" using Suc.prems(5) inv ch by simp
  ultimately have "fst (alloc_loop map1 (\<lambda>_. True) n ?s2) = 0" using Suc.IH [of ?s2] e q0 Suc.prems(4) by simp
  then show ?case using b q q0 e by (simp add: alloc_loop_Suc del: alloc_loop.simps)
qed simp

section \<open>Transmission and its flow control\<close>

lemma upd_slot_frame [simp]:
  "nd_enabled (upd_slot f i s) = nd_enabled s" "net_type (upd_slot f i s) = net_type s" "mru (upd_slot f i s) = mru s"
  "nd_qmap_mode (upd_slot f i s) = nd_qmap_mode s" "length (mpQmapNetDev (upd_slot f i s)) = length (mpQmapNetDev s)"
  by (simp_all add: upd_slot_def set_vnd_def split: nslot.split)

lemma upd_slots_frame [simp]:
  "nd_enabled (fold (upd_slot f) is s) = nd_enabled s" "nd_qmap_mode (fold (upd_slot f) is s) = nd_qmap_mode s"
  by (induction "is" arbitrary: s) simp_all

lemma upd_slots_ndev: "ndev (fold (upd_slot f) is s) \<in> {n. \<exists>j. n = (f ^^ j) (ndev s)}"
proof (induction "is" arbitrary: s)
  case Nil
  show ?case by (auto intro: exI [of _ 0])
next
  case (Cons i "is")
  have "\<exists>j. ndev (upd_slot f i s) = (f ^^ j) (ndev s)"
    by (auto simp: upd_slot_def set_vnd_def split: nslot.split intro: exI [of _ 0] exI [of _ 1])
  then obtain j where j: "ndev (upd_slot f i s) = (f ^^ j) (ndev s)" by blast
  obtain k where "ndev (fold (upd_slot f) is (upd_slot f i s)) = (f ^^ k) (ndev (upd_slot f i s))" using Cons by auto
  then have "ndev (fold (upd_slot f) (i # is) s) = (f ^^ (k + j)) (ndev s)" using j by (simp add: funpow_add)
  then show ?case by blast
qed

lemma stop_wake_ndev [simp]:
  "nd_stopped (ndev (stop_queues s))" "\<not> nd_stopped (ndev (wake_queues s))"
  "nd_enabled (stop_queues s) = nd_enabled s" "nd_enabled (wake_queues s) = nd_enabled s"
  "nd_qmap_mode (wake_queues s) = nd_qmap_mode s"
proof -
  have f: "\<not> nd_stopped ((nd_stopped_update (\<lambda>_. False) ^^ j) n)" if "\<not> nd_stopped n" for j n using that by (cases j) simp_all
  show "\<not> nd_stopped (ndev (wake_queues s))"
    using upd_slots_ndev [of "nd_stopped_update (\<lambda>_. False)" "upto_mode s" "s\<lparr>ndev := (ndev s)\<lparr>nd_stopped := False\<rparr>\<rparr>"]
      f [of "(ndev s)\<lparr>nd_stopped := False\<rparr>"]
    by (auto simp: wake_queues_def)
qed (simp_all add: stop_queues_def wake_queues_def Let_def)

text \<open>Waking reaches every sub-device in use.\<close>

lemma slot_after:
  "i < length (mpQmapNetDev s) \<Longrightarrow>
   mpQmapNetDev (upd_slot f j s) ! i = (if i = j then (case mpQmapNetDev s ! i of Vnd n p \<Rightarrow> Vnd (f n) p | x \<Rightarrow> x) else mpQmapNetDev s ! i)"
  by (auto simp: upd_slot_def set_vnd_def split: nslot.split)

lemma wake_slots:
  assumes "\<And>n. \<not> nd_stopped (f n)" "i \<in> set is \<or> (\<forall>n p. mpQmapNetDev s ! i = Vnd n p \<longrightarrow> \<not> nd_stopped n)" "i < length (mpQmapNetDev s)"
    "mpQmapNetDev (fold (upd_slot f) is s) ! i = Vnd n p"
  shows "\<not> nd_stopped n"
  using assms(2-4)
proof (induction "is" arbitrary: s)
  case (Cons j "is")
  have "i \<in> set is \<or> (\<forall>n p. mpQmapNetDev (upd_slot f j s) ! i = Vnd n p \<longrightarrow> \<not> nd_stopped n)"
    using Cons.prems(1,2) assms(1) by (auto simp: slot_after split: nslot.splits if_splits)
  then show ?case using Cons.IH [of "upd_slot f j s"] Cons.prems(2,3) by simp
qed simp

lemma wake_queues_slots:
  "i < unat (nd_qmap_mode s) \<Longrightarrow> vnd_at (wake_queues s) i = Some (n, p) \<Longrightarrow> \<not> nd_stopped n"
proof -
  assume i: "i < unat (nd_qmap_mode s)" and v: "vnd_at (wake_queues s) i = Some (n, p)"
  let ?f = "nd_stopped_update (\<lambda>_. False)" and ?s = "s\<lparr>ndev := (ndev s)\<lparr>nd_stopped := False\<rparr>\<rparr>"
  have len: "length (mpQmapNetDev (fold (upd_slot ?f) is t)) = length (mpQmapNetDev t)" for "is" t
    by (induction "is" arbitrary: t) simp_all
  have "i < length (mpQmapNetDev ?s)" "mpQmapNetDev (fold (upd_slot ?f) (upto_mode s) ?s) ! i = Vnd n p"
    using v len [of "upto_mode s" ?s] by (auto simp: vnd_at_def wake_queues_def split: nslot.splits if_splits)
  then show "\<not> nd_stopped n" using wake_slots [of ?f i "upto_mode s" ?s n p] i by (simp add: upto_mode_def)
qed

lemma nic_inv_cong:
  "nic_inv s \<Longrightarrow> (nd_enabled t \<and> nd_stopped (ndev t) \<Longrightarrow> nd_enabled (nd s) \<and> nd_stopped (ndev (nd s)) \<or> mhi_get_no_free_descriptors (ul s) \<le> 32) \<Longrightarrow>
   nic_inv (s\<lparr>nd := t\<rparr>)"
  by (auto simp: nic_inv_def rings_ok_def holders_def stop_ok_def)

lemma xmit_dev_stop:
  "nd_enabled (xmit_dev ch n) \<Longrightarrow> nd_stopped (ndev (xmit_dev ch n)) \<Longrightarrow> nd_enabled n \<and> nd_stopped (ndev n) \<or> mhi_get_no_free_descriptors ch \<le> 32"
  by (auto simp: xmit_dev_def Let_def split: if_splits)

lemma queue_ul_inv:
  assumes "nic_inv (s\<lparr>gone := gone s @ [b]\<rparr>)" "mhi_queue_skb map1 b n (cntrl s) (ul s) = (res, c, ch, log)"
    "nd_enabled t \<Longrightarrow> nd_stopped (ndev t) \<Longrightarrow> nd_enabled (nd s) \<and> nd_stopped (ndev (nd s)) \<or> mhi_get_no_free_descriptors (ul s) \<le> 32"
  shows "res \<noteq> 0 \<Longrightarrow> nic_inv (s\<lparr>cntrl := c, ul := ch, gone := gone s @ [b], nd := t\<rparr>)"
    and "res = 0 \<Longrightarrow> nic_inv (s\<lparr>cntrl := c, ul := ch, tx_bound := tx_bound s @ [(b, n)], nd := t, sent := x\<rparr>)"
proof -
  have wf: "chan_wf (ul s)" "\<not> offload_ch (ul s)" using assms(1) by (simp_all add: nic_inv_def rings_ok_def)
  note q = queue_skb_cases [OF assms(2) wf(1)]
  have "length (outstanding (ul s)) \<le> length (outstanding ch)" using q by (metis length_append length_map le_add1)
  then have "mhi_get_no_free_descriptors ch \<le> mhi_get_no_free_descriptors (ul s)"
    using chan_free [OF wf] chan_free [of ch] wf(2) q by simp
  then have "nd_enabled t \<and> nd_stopped (ndev t) \<longrightarrow> mhi_get_no_free_descriptors ch \<le> 32"
    using assms(1,3) by (auto simp: nic_inv_def stop_ok_def)
  then show "res \<noteq> 0 \<Longrightarrow> nic_inv (s\<lparr>cntrl := c, ul := ch, gone := gone s @ [b], nd := t\<rparr>)"
    and "res = 0 \<Longrightarrow> nic_inv (s\<lparr>cntrl := c, ul := ch, tx_bound := tx_bound s @ [(b, n)], nd := t, sent := x\<rparr>)"
    using assms(1) q by (simp_all add: nic_inv_def rings_ok_def holders_def stop_ok_def)
qed

lemma xmit_inv:
  assumes "nic_inv s"
  shows "nic_inv (mhi_netdev_xmit map1 s)"
proof (cases "to_ndev (nd s)")
  case Nil
  then show ?thesis using assms by (simp add: mhi_netdev_xmit_def)
next
  case (Cons k ks)
  define n where "n = (nd s)\<lparr>to_ndev := ks\<rparr>"
  define s1 where "s1 = s\<lparr>next_skb := next_skb s + 1\<rparr>"
  define e where "e = (xmit_dev (ul s) n)\<lparr>nd_tx_errors := nd_tx_errors (xmit_dev (ul s) n) + 1\<rparr>"
  obtain res c ch log where q: "mhi_queue_skb map1 (next_skb s) (length (xmit_data n k)) (cntrl s) (ul s) = (res, c, ch, log)" by (metis prod_cases4)
  have new: "nic_inv (s1\<lparr>gone := gone s1 @ [next_skb s]\<rparr>)"
    using assms by (simp add: s1_def nic_inv_def rings_ok_def holders_def stop_ok_def)
  have e: "nd_enabled e = nd_enabled (xmit_dev (ul s) n)" "ndev e = ndev (xmit_dev (ul s) n)" by (simp_all add: e_def)
  have s1: "ul s1 = ul s" "cntrl s1 = cntrl s" "nd s1 = nd s" "gone s1 = gone s" "tx_bound s1 = tx_bound s" "sent s1 = sent s" by (simp_all add: s1_def)
  have n: "nd_enabled n = nd_enabled (nd s)" "ndev n = ndev (nd s)" by (simp_all add: n_def)
  have drop1: "nic_inv (s1\<lparr>gone := gone s @ [next_skb s], nd := n\<rparr>)" using nic_inv_cong [OF new, of n] n by (simp add: s1)
  note dev = xmit_dev_stop [of "ul s" n, unfolded n]
  have on: "res \<noteq> 0 \<Longrightarrow> nic_inv (s1\<lparr>cntrl := c, ul := ch, gone := gone s @ [next_skb s], nd := e\<rparr>)"
    "res = 0 \<Longrightarrow> nic_inv (s1\<lparr>cntrl := c, ul := ch, tx_bound := tx_bound s @ [(next_skb s, length (xmit_data n k))], nd := xmit_dev (ul s) n, sent := x\<rparr>)" for x
    using queue_ul_inv(1) [OF new, of map1 "length (xmit_data n k)" res c ch log e] queue_ul_inv(2) [OF new, of map1 "length (xmit_data n k)" res c ch log] q dev
    by (simp_all add: s1 e)
  have "mhi_netdev_xmit map1 s =
     (if (net_type n = MHI_NET_RMNET \<or> net_type n = MHI_NET_MBIM) \<and> s_protocol k \<noteq> ETH_P_MAP then s1\<lparr>gone := gone s @ [next_skb s], nd := n\<rparr>
      else if res \<noteq> 0 then s1\<lparr>cntrl := c, ul := ch, gone := gone s @ [next_skb s], nd := e\<rparr>
      else s1\<lparr>cntrl := c, ul := ch, tx_bound := tx_bound s @ [(next_skb s, length (xmit_data n k))], nd := xmit_dev (ul s) n, sent := sent s @ [xmit_data n k]\<rparr>)"
    unfolding mhi_netdev_xmit_def Cons list.case Let_def n_def [symmetric] s1_def [symmetric] s1 q prod.case e_def ..
  then show ?thesis using drop1 on by simp
qed

lemma completion_fields [simp]:
  "ul (mhi_netdev_xfer_ul_cb b st s) = ul s" "cntrl (mhi_netdev_xfer_ul_cb b st s) = cntrl s" "dl (mhi_netdev_xfer_ul_cb b st s) = dl s"
  by (simp_all add: mhi_netdev_xfer_ul_cb_def Let_def split: option.split)

text \<open>The device after a successful completion, with \<open>free\<close> descriptors on the uplink.\<close>

definition woken :: "int \<Rightarrow> mhi_netdev \<Rightarrow> mhi_netdev" where
  "woken free n = (if nd_stopped (ndev n) \<and> nd_enabled n \<and> free > 32 then wake_queues n else n)"

lemma ul_complete_head:
  assumes "nic_inv s" "outstanding (ul s) \<noteq> []"
  shows "\<exists>b n c. tx_bound s = (b, n) # tl (tx_bound s) \<and> ul_complete map1 0 s = s\<lparr>cntrl := c, ul := advance_rp (ul s),
     st_tx_packets := st_tx_packets s + 1, st_tx_bytes := st_tx_bytes s + n,
     nd := woken (mhi_get_no_free_descriptors (advance_rp (ul s))) (nd s), tx_bound := tl (tx_bound s), gone := gone s @ [b]\<rparr>"
proof -
  have r: "chan_wf (ul s)" "\<not> pre_alloc (ul s)" "map cb_buf (outstanding (ul s)) = map fst (tx_bound s)" using assms(1) by (simp_all add: nic_inv_def rings_ok_def)
  obtain b n rest where t: "tx_bound s = (b, n) # rest" using r(3) assms(2) by (cases "tx_bound s") auto
  have b: "cb_buf (buf_at_rp (ul s)) = b" using chan_get_laws(2) [OF r(1) assms(2)] r(3) t assms(2) by (cases "outstanding (ul s)") auto
  obtain c log where x: "xfer_one map1 0 0 (cntrl s) (ul s) = (c, advance_rp (ul s), log)" "completions log = [(b, 0, 0)]"
    using xfer_one_plain [OF r(2), of map1 0 0 "cntrl s"] b by auto
  have "distinct (map fst (tx_bound s))" using holders_distinct [OF assms(1)] by (simp add: holders_def)
  then have rest: "filter (\<lambda>y. fst y \<noteq> b) rest = rest" using t by (auto simp: filter_id_conv image_iff)
  show ?thesis
  proof (intro exI conjI)
    show "tx_bound s = (b, n) # tl (tx_bound s)" using t by simp
    show "ul_complete map1 0 s = s\<lparr>cntrl := c, ul := advance_rp (ul s),
     st_tx_packets := st_tx_packets s + 1, st_tx_bytes := st_tx_bytes s + n,
     nd := woken (mhi_get_no_free_descriptors (advance_rp (ul s))) (nd s), tx_bound := tl (tx_bound s), gone := gone s @ [b]\<rparr>"
      using x t rest by (simp add: ul_complete_def mhi_netdev_xfer_ul_cb_def Let_def woken_def)
  qed
qed

lemma ul_complete_inv:
  assumes "nic_inv s" "outstanding (ul s) \<noteq> []"
  shows "nic_inv (ul_complete map1 0 s)"
proof -
  obtain b n c where x: "tx_bound s = (b, n) # tl (tx_bound s)" "ul_complete map1 0 s = s\<lparr>cntrl := c, ul := advance_rp (ul s),
     st_tx_packets := st_tx_packets s + 1, st_tx_bytes := st_tx_bytes s + n,
     nd := woken (mhi_get_no_free_descriptors (advance_rp (ul s))) (nd s), tx_bound := tl (tx_bound s), gone := gone s @ [b]\<rparr>"
    using ul_complete_head [OF assms] by blast
  have r: "chan_wf (ul s)" "map cb_buf (outstanding (ul s)) = map fst (tx_bound s)" using assms(1) by (simp_all add: nic_inv_def rings_ok_def)
  note get = chan_get_laws(1) [OF r(1) assms(2)]
  have fr: "pre_alloc (advance_rp (ul s)) = pre_alloc (ul s)" "offload_ch (advance_rp (ul s)) = offload_ch (ul s)"
    using chan_frame_ops(2) [of "ul s"] by (simp_all add: chan_frame_def)
  have "map cb_buf (outstanding (advance_rp (ul s))) = map fst (tl (tx_bound s))" using get r(2) by (simp add: map_tl)
  moreover have "mset (map fst (tx_bound s)) = add_mset b (mset (map fst (tl (tx_bound s))))"
    using arg_cong [OF x(1), of "\<lambda>l. mset (map fst l)"] by simp
  moreover have "nd_enabled (woken f m) \<and> nd_stopped (ndev (woken f m)) \<longrightarrow> f \<le> 32" for f m by (auto simp: woken_def)
  ultimately show ?thesis using assms(1) get fr unfolding x(2) by (simp add: nic_inv_def rings_ok_def holders_def stop_ok_def)
qed

lemma completions_below:
  assumes "nic_inv s" "nd_enabled (nd s)" "nd_stopped (ndev (nd s))"
  shows "j \<le> length (outstanding (ul s)) \<Longrightarrow> mhi_get_no_free_descriptors (ul s) + int j \<le> 32 \<Longrightarrow>
    (let t = (ul_complete map1 0 ^^ j) s in nic_inv t \<and> nd t = nd s \<and> outstanding (ul t) = drop j (outstanding (ul s)) \<and> chan_cap (ul t) = chan_cap (ul s))"
proof (induction j)
  case 0
  then show ?case using assms(1) by (simp add: Let_def)
next
  case (Suc j)
  define t where "t = (ul_complete map1 0 ^^ j) s"
  have t: "nic_inv t" "nd t = nd s" "outstanding (ul t) = drop j (outstanding (ul s))" "chan_cap (ul t) = chan_cap (ul s)"
    using Suc.IH Suc.prems unfolding t_def Let_def by auto
  have ne: "outstanding (ul t) \<noteq> []" using t(3) Suc.prems(1) by simp
  have wf: "chan_wf (ul s)" "\<not> offload_ch (ul s)" "chan_wf (ul t)" "\<not> offload_ch (ul t)" using assms(1) t(1) by (simp_all add: nic_inv_def rings_ok_def)
  note get = chan_get_laws(1) [OF wf(3) ne]
  have off: "\<not> offload_ch (advance_rp (ul t))" using wf(4) chan_frame_ops(2) [of "ul t"] by (simp add: chan_frame_def)
  have "mhi_get_no_free_descriptors (advance_rp (ul t)) = mhi_get_no_free_descriptors (ul s) + int (Suc j)"
    using chan_free [OF wf(1,2)] chan_free [of "advance_rp (ul t)"] off get t(3,4) Suc.prems(1) by simp
  then have "woken (mhi_get_no_free_descriptors (advance_rp (ul t))) (nd t) = nd s" using Suc.prems(2) t(2) by (simp add: woken_def)
  with ul_complete_head [OF t(1) ne, of map1] ul_complete_inv [OF t(1) ne, of map1] get t(3,4)
  show ?case by (auto simp: t_def [symmetric] Let_def drop_Suc tl_drop)
qed

lemma stopped_wakes:
  assumes "nic_inv s" "nd_enabled (nd s)" "nd_stopped (ndev (nd s))" "33 \<le> chan_cap (ul s)"
  shows "\<exists>k\<le>length (outstanding (ul s)). 0 < k \<and> (\<forall>j<k. nd_stopped (ndev (nd ((ul_complete map1 0 ^^ j) s)))) \<and>
     (\<exists>t. (ul_complete map1 0 ^^ k) s = t \<and> nd t = wake_queues (nd s) \<and> mhi_get_no_free_descriptors (ul t) = 33)"
proof -
  have wf: "chan_wf (ul s)" "\<not> offload_ch (ul s)" "mhi_get_no_free_descriptors (ul s) \<le> 32" using assms(1-3) by (simp_all add: nic_inv_def rings_ok_def stop_ok_def)
  note free = chan_free [OF wf(1,2)]
  define j where "j = nat (32 - mhi_get_no_free_descriptors (ul s))"
  have j: "Suc j \<le> length (outstanding (ul s))" "mhi_get_no_free_descriptors (ul s) + int j = 32" using free wf(3) assms(4) by (simp_all add: j_def)
  define t where "t = (ul_complete map1 0 ^^ j) s"
  have t: "nic_inv t" "nd t = nd s" "outstanding (ul t) = drop j (outstanding (ul s))" "chan_cap (ul t) = chan_cap (ul s)"
    using completions_below [OF assms(1-3), of j map1] j unfolding t_def Let_def by auto
  have ne: "outstanding (ul t) \<noteq> []" using t(3) j(1) by simp
  have wft: "chan_wf (ul t)" "\<not> offload_ch (ul t)" using t(1) by (simp_all add: nic_inv_def rings_ok_def)
  note get = chan_get_laws(1) [OF wft(1) ne]
  have off: "\<not> offload_ch (advance_rp (ul t))" using wft(2) chan_frame_ops(2) [of "ul t"] by (simp add: chan_frame_def)
  have f: "mhi_get_no_free_descriptors (advance_rp (ul t)) = 33"
    using free chan_free [of "advance_rp (ul t)"] off get t(3,4) j by simp
  have "nd (ul_complete map1 0 t) = wake_queues (nd s)" "ul (ul_complete map1 0 t) = advance_rp (ul t)"
    using ul_complete_head [OF t(1) ne, of map1] f t(2) assms(2,3) by (auto simp: woken_def)
  moreover have "nd_stopped (ndev (nd ((ul_complete map1 0 ^^ i) s)))" if "i < Suc j" for i
    using completions_below [OF assms(1-3), of i map1] that j assms(3) unfolding Let_def by auto
  ultimately show ?thesis using j(1) f by (intro exI [of _ "Suc j"]) (simp add: t_def)
qed

section \<open>Reception\<close>

lemma xfer_one_pm: "\<not> pre_alloc ch \<Longrightarrow> xfer_one map1 n st c ch = (c1, ch1, log) \<Longrightarrow> pm_state c1 = pm_state c"
  by (auto simp: xfer_one_def uncount_pending_def Let_def split: prod.splits if_splits)

lemma dl_complete_head:
  assumes "nic_inv s" "outstanding (dl s) \<noteq> []"
  shows "\<exists>c. pm_state c = pm_state (cntrl s) \<and> dl_complete map1 mem n st s =
     (let s1 = s\<lparr>cntrl := c, dl := advance_rp (dl s), rx_bound := tl (rx_bound s)\<rparr>; b = hd (rx_bound s) in
      if st \<noteq> 0 then Some (s1\<lparr>gone := gone s @ [b]\<rparr>)
      else if n > unat (mru (nd s)) then None
      else Some (s1\<lparr>qmap_chain := qmap_chain s @ [(b, take n mem, drop n mem)]\<rparr>))" "rx_bound s = hd (rx_bound s) # tl (rx_bound s)"
proof -
  have r: "chan_wf (dl s)" "\<not> pre_alloc (dl s)" "map cb_buf (outstanding (dl s)) = rx_bound s" using assms(1) by (simp_all add: nic_inv_def rings_ok_def)
  obtain b rest where t: "rx_bound s = b # rest" using r(3) assms(2) by (cases "rx_bound s") auto
  then show "rx_bound s = hd (rx_bound s) # tl (rx_bound s)" by simp
  have b: "cb_buf (buf_at_rp (dl s)) = b" using chan_get_laws(2) [OF r(1) assms(2)] r(3) t assms(2) by (cases "outstanding (dl s)") auto
  obtain c log where x: "xfer_one map1 n st (cntrl s) (dl s) = (c, advance_rp (dl s), log)" "completions log = [(b, n, st)]"
    using xfer_one_plain [OF r(2), of map1 n st "cntrl s"] b by auto
  show "\<exists>c. pm_state c = pm_state (cntrl s) \<and> dl_complete map1 mem n st s =
     (let s1 = s\<lparr>cntrl := c, dl := advance_rp (dl s), rx_bound := tl (rx_bound s)\<rparr>; b = hd (rx_bound s) in
      if st \<noteq> 0 then Some (s1\<lparr>gone := gone s @ [b]\<rparr>)
      else if n > unat (mru (nd s)) then None
      else Some (s1\<lparr>qmap_chain := qmap_chain s @ [(b, take n mem, drop n mem)]\<rparr>))"
    using x t xfer_one_pm [OF r(2) x(1)] by (intro exI [of _ c]) (simp add: dl_complete_def mhi_netdev_xfer_dl_cb_def Let_def)
qed

lemma dl_complete_inv:
  assumes "nic_inv s" "outstanding (dl s) \<noteq> []" "dl_complete map1 mem n st s = Some t"
  shows "nic_inv t" "nd t = nd s" "outstanding (dl t) = tl (outstanding (dl s))" "chan_cap (dl t) = chan_cap (dl s)" "delivered t = delivered s"
    "alloc_work t = alloc_work s"
proof -
  obtain c where c: "dl_complete map1 mem n st s =
     (let s1 = s\<lparr>cntrl := c, dl := advance_rp (dl s), rx_bound := tl (rx_bound s)\<rparr>; b = hd (rx_bound s) in
      if st \<noteq> 0 then Some (s1\<lparr>gone := gone s @ [b]\<rparr>)
      else if n > unat (mru (nd s)) then None
      else Some (s1\<lparr>qmap_chain := qmap_chain s @ [(b, take n mem, drop n mem)]\<rparr>))" and hd: "rx_bound s = hd (rx_bound s) # tl (rx_bound s)"
    using dl_complete_head [OF assms(1,2)] by blast
  have r: "chan_wf (dl s)" "map cb_buf (outstanding (dl s)) = rx_bound s" using assms(1) by (simp_all add: nic_inv_def rings_ok_def)
  note get = chan_get_laws(1) [OF r(1) assms(2)]
  have fr: "pre_alloc (advance_rp (dl s)) = pre_alloc (dl s)" "offload_ch (advance_rp (dl s)) = offload_ch (dl s)"
    using chan_frame_ops(2) [of "dl s"] by (simp_all add: chan_frame_def)
  have m: "map cb_buf (outstanding (advance_rp (dl s))) = tl (rx_bound s)" using get r(2) by (simp add: map_tl)
  have h: "mset (rx_bound s) = add_mset (hd (rx_bound s)) (mset (tl (rx_bound s)))" using arg_cong [OF hd, of mset] by simp
  define b where "b = hd (rx_bound s)"
  define u where "u = s\<lparr>cntrl := c, dl := advance_rp (dl s), rx_bound := tl (rx_bound s)\<rparr>"
  have "nic_inv (u\<lparr>gone := gone s @ [b]\<rparr>)" "nic_inv (u\<lparr>qmap_chain := qmap_chain s @ [(b, x, y)]\<rparr>)" for x y
    using assms(1) get fr m h by (simp_all add: nic_inv_def rings_ok_def holders_def stop_ok_def u_def b_def)
  then show "nic_inv t"
    using assms(3) unfolding c Let_def u_def [symmetric] b_def [symmetric] by (auto split: if_splits)
  show "nd t = nd s" "outstanding (dl t) = tl (outstanding (dl s))" "chan_cap (dl t) = chan_cap (dl s)" "delivered t = delivered s" "alloc_work t = alloc_work s"
    using assms(3) get unfolding c Let_def by (auto split: if_splits)
qed

lemma dl_complete_all_inv:
  "nic_inv s \<Longrightarrow> length cs \<le> length (outstanding (dl s)) \<Longrightarrow> dl_complete_all map1 cs s = Some t \<Longrightarrow> nic_inv t"
proof (induction cs arbitrary: s)
  case (Cons x cs)
  obtain n st mem where x: "x = (n, st, mem)" by (metis prod_cases3)
  obtain u where u: "dl_complete map1 mem n st s = Some u" "dl_complete_all map1 cs u = Some t"
    using Cons.prems(3) x by (auto simp: Option.bind_eq_Some_conv)
  have ne: "outstanding (dl s) \<noteq> []" using Cons.prems(2) by (metis length_Cons list.size(3) not_less_eq_eq zero_le)
  note inv = dl_complete_inv [OF Cons.prems(1) ne u(1)]
  have "length cs \<le> length (outstanding (dl u))" unfolding inv(3) using Cons.prems(2) by simp
  then show ?case using Cons.IH [OF inv(1) _ u(2)] by blast
qed simp

lemma recycle_inv:
  assumes "nic_inv (s\<lparr>qmap_chain := x # xs\<rparr>)" "same_dev (nd s) t"
  shows "nic_inv ((recycle cl (fst x) (s\<lparr>nd := t, delivered := ps\<rparr>))\<lparr>qmap_chain := xs\<rparr>)"
  using assms by (simp add: recycle_def nic_inv_def rings_ok_def holders_def stop_ok_def same_dev_def)

lemma recycle_fields [simp]:
  "qmap_chain (recycle cl b s) = qmap_chain s" "nd (recycle cl b s) = nd s" "delivered (recycle cl b s) = delivered s" "dl (recycle cl b s) = dl s"
  "alloc_work (recycle cl b s) = alloc_work s" "cntrl (recycle cl b s) = cntrl s" "rx_bound (recycle cl b s) = rx_bound s"
  by (simp_all add: recycle_def)

lemma rmnet_rx_handler_inv:
  assumes "nic_inv (s\<lparr>qmap_chain := x # xs\<rparr>)" "rmnet_rx_handler par alloc cl x s = Some t"
  shows "nic_inv (t\<lparr>qmap_chain := xs\<rparr>)" "qmap_chain t = qmap_chain s"
proof -
  obtain b d tail where x: "x = (b, d, tail)" by (metis prod_cases3)
  have "\<exists>n ps. same_dev (nd s) n \<and> t = recycle cl (fst x) (s\<lparr>nd := n, delivered := delivered s @ ps\<rparr>)"
    using assms(2) same_dev_rx [where s = "nd s"] unfolding rmnet_rx_handler_def x prod.case fst_conv
    by (auto split: if_splits option.splits) blast+
  then show "nic_inv (t\<lparr>qmap_chain := xs\<rparr>)" "qmap_chain t = qmap_chain s" using recycle_inv [OF assms(1)] by auto
qed

lemma receive_one_inv:
  assumes "nic_inv (s\<lparr>qmap_chain := x # xs\<rparr>)" "receive_one par alloc cl x s = Some t"
  shows "nic_inv (t\<lparr>qmap_chain := xs\<rparr>)" "qmap_chain t = qmap_chain s"
proof -
  define u where "u = s\<lparr>st_rx_packets := st_rx_packets s + 1, st_rx_bytes := st_rx_bytes s + length (fst (snd x))\<rparr>"
  have i: "nic_inv (u\<lparr>qmap_chain := x # xs\<rparr>)" "qmap_chain u = qmap_chain s"
    using assms(1) by (simp_all add: u_def nic_inv_def rings_ok_def holders_def stop_ok_def)
  have eth: "nic_inv (u\<lparr>gone := gone u @ [fst x], delivered := ps, qmap_chain := xs\<rparr>)" for ps
    using i by (simp add: nic_inv_def rings_ok_def holders_def stop_ok_def)
  show "nic_inv (t\<lparr>qmap_chain := xs\<rparr>)" "qmap_chain t = qmap_chain s"
    using assms(2) rmnet_rx_handler_inv [OF i(1), of par alloc cl t] i(2) eth
    unfolding receive_one_def Let_def u_def [symmetric] by (auto split: if_splits)
qed

lemma receive_all_inv:
  "nic_inv (s\<lparr>qmap_chain := xs\<rparr>) \<Longrightarrow> qmap_chain s = [] \<Longrightarrow> receive_all par alloc cl xs s = Some t \<Longrightarrow> nic_inv t"
proof (induction xs arbitrary: s)
  case (Cons x xs)
  obtain u where u: "receive_one par (alloc (fst x)) (cl (fst x)) x s = Some u" "receive_all par alloc cl xs u = Some t"
    using Cons.prems(3) by (auto simp: Option.bind_eq_Some_conv)
  from receive_one_inv [OF Cons.prems(1) u(1)] Cons.prems(2) show ?case using Cons.IH [OF _ _ u(2)] by simp
qed (auto simp: nic_inv_def rings_ok_def holders_def stop_ok_def)

lemma refill_inv: "nic_inv s \<Longrightarrow> nic_inv (poll_refill map1 alloc s)"
proof -
  assume s: "nic_inv s"
  obtain ret t where a: "mhi_netdev_alloc_skb map1 alloc s = (ret, t)" by (cases "mhi_netdev_alloc_skb map1 alloc s")
  have "nic_inv (t\<lparr>nd := (nd t)\<lparr>alloc_failed := i\<rparr>, alloc_work := True\<rparr>)" for i
    using alloc_skb_inv(1) [OF s a] by (simp add: nic_inv_def rings_ok_def holders_def stop_ok_def)
  then show ?thesis using alloc_skb_inv(1) [OF s a] s a by (simp add: poll_refill_def)
qed

lemma nic_inv_napi [simp]: "nic_inv (s\<lparr>napi_scheduled := b\<rparr>) = nic_inv s" "nic_inv (s\<lparr>alloc_work := b\<rparr>) = nic_inv s" "nic_inv (s\<lparr>rx_int := i\<rparr>) = nic_inv s"
  by (simp_all add: nic_inv_def rings_ok_def holders_def stop_ok_def)

lemma poll_inv:
  assumes "nic_inv s" "length cs \<le> length (outstanding (dl s))"
    "mhi_netdev_poll par map1 alloc cloned mem_ok rx_work budget cs s = Some (r, t)"
  shows "nic_inv t"
proof -
  obtain u where u: "dl_complete_all map1 cs s = Some u" using assms(3) by (auto simp: mhi_netdev_poll_def Option.bind_eq_Some_conv)
  note iu = dl_complete_all_inv [OF assms(1,2) u]
  show ?thesis
  proof (cases "rx_work < 0")
    case True
    then show ?thesis using assms(3) u iu by (auto simp: mhi_netdev_poll_def)
  next
    case False
    then obtain v where v: "receive_all par alloc cloned (qmap_chain u) (u\<lparr>qmap_chain := []\<rparr>) = Some v"
      using assms(3) u by (auto simp: mhi_netdev_poll_def Option.bind_eq_Some_conv)
    have "nic_inv v" using receive_all_inv [OF _ _ v] iu by simp
    then show ?thesis using assms(3) False u v refill_inv [of v map1 mem_ok] by (auto simp: mhi_netdev_poll_def)
  qed
qed

lemma alloc_work_inv: "nic_inv s \<Longrightarrow> nic_inv (mhi_netdev_alloc_work map1 alloc s)"
  using alloc_skb_inv(1) [of "s\<lparr>alloc_work := False\<rparr>"] by (simp add: mhi_netdev_alloc_work_def split: prod.split)

lemma remove_inv:
  assumes "nic_inv s"
  shows "nic_inv (mhi_netdev_remove map1 alloc s)"
proof -
  define n where "n = fold rmnet_vnd_unregister_device (upto_mode (nd s)) ((nd s)\<lparr>nd_enabled := False\<rparr>)"
  have "nd_enabled (fold rmnet_vnd_unregister_device is m) = nd_enabled m" for "is" m
    by (induction "is" arbitrary: m) (simp_all add: rmnet_vnd_unregister_device_def)
  then have n: "\<not> nd_enabled n" by (simp add: n_def)
  define u where "u = s\<lparr>nd := n, gone := gone s @ map fst (qmap_chain s) @ rx_allocated s, qmap_chain := [], rx_allocated := [], napi_scheduled := False\<rparr>"
  have u: "nic_inv (mhi_netdev_dealloc u)" using assms n by (simp add: mhi_netdev_dealloc_def u_def nic_inv_def rings_ok_def holders_def stop_ok_def ac_simps)
  have "mhi_netdev_remove map1 alloc s = (if alloc_work (mhi_netdev_dealloc u) then mhi_netdev_alloc_work map1 alloc (mhi_netdev_dealloc u) else mhi_netdev_dealloc u)"
    by (simp add: mhi_netdev_remove_def Let_def u_def n_def)
  then show ?thesis using u alloc_work_inv [OF u] by simp
qed

section \<open>Every run of the driver\<close>

definition same_flow :: "mhi_netdev \<Rightarrow> mhi_netdev \<Rightarrow> bool" where
  "same_flow s t \<longleftrightarrow> nd_enabled t = nd_enabled s \<and> nd_stopped (ndev t) = nd_stopped (ndev s)"

lemma same_flow_upd_slot: "(\<And>n. nd_stopped (f n) = nd_stopped n) \<Longrightarrow> same_flow s (upd_slot f i t) = same_flow s t"
  by (auto simp: same_flow_def upd_slot_def set_vnd_def split: nslot.split)

lemma same_flow_refl [simp]: "same_flow s s"
  by (simp add: same_flow_def)

lemma nic_inv_flow: "nic_inv s \<Longrightarrow> same_flow (nd s) t \<Longrightarrow> nic_inv (s\<lparr>nd := t\<rparr>)"
  by (rule nic_inv_cong) (simp_all add: same_flow_def)

lemma vnd_xmit_flow: "pcie_vnd_start_xmit par old err i k s = Some (r, reply, t) \<Longrightarrow> same_flow s t"
  by (auto simp: pcie_vnd_start_xmit_def set_vnd_def same_flow_def Let_def split: option.splits if_splits tx_fixup.splits prod.splits)

lemma link_state_flow: "same_flow s (pcie_link_state_set w s)"
  by (auto simp: pcie_link_state_set_def Let_def same_flow_upd_slot split: prod.splits) (simp add: same_flow_def)

lemma settings_flow:
  "same_flow s (snd (mhi_netdev_change_mtu dm m s))" "same_flow s (snd (rmnet_vnd_open i s))" "same_flow s (snd (rmnet_vnd_stop i s))"
  "same_flow s (snd (rmnet_vnd_change_mtu i m s))" "same_flow s (snd (pcie_ndo_do_ioctl stl pr cp cmd s))"
  "same_flow s (pcie_link_state_store stl buf s)" "same_flow s (pcie_bridge_mode_store w dev s)" "same_flow s (pcie_bridge_ipv4_store w dev s)"
proof -
  show "same_flow s (snd (pcie_ndo_do_ioctl stl pr cp cmd s))"
    using link_state_flow [of s]
    by (simp add: pcie_ndo_do_ioctl_def pcie_link_state_store_def qmap_setting_store_def split: pcie_ioctl.split) (simp add: same_flow_def)
  show "same_flow s (snd (mhi_netdev_change_mtu dm m s))" by (simp add: mhi_netdev_change_mtu_def same_flow_def)
  show "same_flow s (snd (rmnet_vnd_open i s))" "same_flow s (snd (rmnet_vnd_stop i s))" "same_flow s (snd (rmnet_vnd_change_mtu i m s))"
    by (simp_all add: rmnet_vnd_open_def rmnet_vnd_stop_def rmnet_vnd_change_mtu_def same_flow_upd_slot)
  show "same_flow s (pcie_link_state_store stl buf s)" by (simp add: pcie_link_state_store_def link_state_flow)
  show "same_flow s (pcie_bridge_mode_store w dev s)" "same_flow s (pcie_bridge_ipv4_store w dev s)"
    by (auto simp: pcie_bridge_mode_store_def pcie_bridge_ipv4_store_def same_flow_def set_vnd_def split: option.split)
qed

text \<open>
  The entry points of the driver. Transfers on the uplink complete successfully; of the downlink no more transfers
  complete than buffers are on it.
\<close>

inductive nic_step :: "mhi_params \<Rightarrow> nic \<Rightarrow> nic \<Rightarrow> bool" for par where
  vnd_xmit: "pcie_vnd_start_xmit par old err i k (nd s) = Some (r, reply, n) \<Longrightarrow> nic_step par s (s\<lparr>nd := n\<rparr>)"
| stack: "nic_step par s (s\<lparr>nd := (nd s)\<lparr>to_ndev := to_ndev (nd s) @ [k]\<rparr>\<rparr>)"
| xmit: "nic_step par s (mhi_netdev_xmit map1 s)"
| xmit_done: "outstanding (ul s) \<noteq> [] \<Longrightarrow> nic_step par s (ul_complete map1 0 s)"
| poll: "length cs \<le> length (outstanding (dl s)) \<Longrightarrow>
    mhi_netdev_poll par map1 alloc cloned mem_ok rx_work budget cs s = Some (r, t) \<Longrightarrow> nic_step par s t"
| worker: "nic_step par s (mhi_netdev_alloc_work map1 alloc s)"
| status: "nic_step par s (mhi_netdev_status_cb pending s)"
| opened: "nic_step par s (s\<lparr>nd := snd (mhi_netdev_open True (nd s))\<rparr>)"
| vnd_opened: "nic_step par s (s\<lparr>nd := snd (rmnet_vnd_open i (nd s))\<rparr>)"
| vnd_stopped: "nic_step par s (s\<lparr>nd := snd (rmnet_vnd_stop i (nd s))\<rparr>)"
| mtu: "nic_step par s (s\<lparr>nd := snd (mhi_netdev_change_mtu dm m (nd s))\<rparr>)"
| vnd_mtu: "nic_step par s (s\<lparr>nd := snd (rmnet_vnd_change_mtu i m (nd s))\<rparr>)"
| ioctl: "nic_step par s (s\<lparr>nd := snd (pcie_ndo_do_ioctl stl pr cp cmd (nd s))\<rparr>)"
| link: "nic_step par s (s\<lparr>nd := pcie_link_state_store stl buf (nd s)\<rparr>)"
| bridge: "nic_step par s (s\<lparr>nd := pcie_bridge_mode_store w dev (nd s)\<rparr>)"
| bridge_ip: "nic_step par s (s\<lparr>nd := pcie_bridge_ipv4_store w dev (nd s)\<rparr>)"
| remove: "nic_step par s (mhi_netdev_remove map1 alloc s)"

lemma nic_step_inv: "nic_step par s t \<Longrightarrow> nic_inv s \<Longrightarrow> nic_inv t"
proof (induction rule: nic_step.induct)
  case (vnd_xmit old err i k s r reply n)
  then show ?case using nic_inv_flow vnd_xmit_flow by blast
next
  case (stack s k)
  then show ?case by (rule nic_inv_flow) (simp add: same_flow_def)
next
  case (opened s)
  then show ?case by (rule nic_inv_cong) (simp add: mhi_netdev_open_def)
next
  case (status s pending)
  then show ?case by (simp add: mhi_netdev_status_cb_def)
qed (auto intro: xmit_inv ul_complete_inv poll_inv alloc_work_inv remove_inv nic_inv_flow settings_flow)

definition nic_init :: "mhi_params \<Rightarrow> nic \<Rightarrow> bool" where
  "nic_init par s \<longleftrightarrow> (\<exists>map1 alloc prep has_ndev reg_err reg chan vendor dev_id c u d.
     chan_ready u \<and> chan_ready d \<and> outstanding u = [] \<and> outstanding d = [] \<and>
     mhi_netdev_probe par map1 alloc prep has_ndev reg_err reg chan vendor dev_id c u d = Some (0, s))"

lemma fresh_inv:
  "chan_ready u \<Longrightarrow> chan_ready d \<Longrightarrow> outstanding u = [] \<Longrightarrow> outstanding d = [] \<Longrightarrow> \<not> nd_stopped (ndev n) \<Longrightarrow> nic_inv (fresh_nic n c u d)"
  by (simp add: fresh_nic_def nic_inv_def rings_ok_def chan_ready_def holders_def stop_ok_def)

lemma enable_inv:
  assumes "mhi_netdev_enable_iface par map1 alloc prep has_ndev reg_err s = (0, t)" "nic_inv s" "\<not> nd_stopped (ndev (nd s))"
  shows "nic_inv t" "\<not> nd_stopped (ndev (nd t))"
proof -
  define n where "n = (nd s)\<lparr>nd_bridge_mode := (if net_type (nd s) = MHI_NET_ETHER then 0 else par_bridge_mode par),
      ndev := (ndev (nd s))\<lparr>nd_mtu := (if net_type (nd s) = MHI_NET_ETHER then mru (nd s) else nd_mtu (ndev (nd s)))\<rparr>, nd_enabled := True\<rparr>"
  obtain ret u where u: "mhi_netdev_alloc_skb map1 alloc (s\<lparr>nd := n\<rparr>) = (ret, u)" by (cases "mhi_netdev_alloc_skb map1 alloc (s\<lparr>nd := n\<rparr>)")
  have "nic_inv (s\<lparr>nd := n\<rparr>)" using assms(3) by (intro nic_inv_cong [OF assms(2)]) (simp add: n_def)
  note i = alloc_skb_inv(1,2) [OF this u]
  have "t = (if ret \<noteq> 0 then u\<lparr>alloc_work := True\<rparr> else u)"
    using assms(1) u by (auto simp: mhi_netdev_enable_iface_def Let_def n_def ENOMEM_def split: if_splits)
  then show "nic_inv t" "\<not> nd_stopped (ndev (nd t))" using i assms(3) by (auto simp: refilled_def n_def)
qed

lemma register_none [simp]: "fold (\<lambda>i r. Option.bind r (register_vnd par reg i)) is None = None"
  by (induction "is") simp_all

lemma register_flow:
  "fold (\<lambda>i r. Option.bind r (register_vnd par reg i)) is (Some s) = Some t \<Longrightarrow> same_flow s t"
proof (induction "is" arbitrary: s)
  case (Cons i "is")
  show ?case
  proof (cases "register_vnd par reg i s")
    case (Some u)
    then have "same_flow s u" by (auto simp: register_vnd_def Let_def same_flow_def split: if_splits)
    with Cons.IH [of u] Cons.prems Some show ?thesis by (simp add: same_flow_def)
  qed (use Cons.prems in simp)
qed simp

lemma nic_init_inv: "nic_init par s \<Longrightarrow> nic_inv s"
proof -
  assume "nic_init par s"
  then obtain map1 alloc prep has_ndev reg_err reg chan vendor dev_id c u d where
    ch: "chan_ready u" "chan_ready d" "outstanding u = []" "outstanding d = []"
    and p: "mhi_netdev_probe par map1 alloc prep has_ndev reg_err reg chan vendor dev_id c u d = Some (0, s)"
    unfolding nic_init_def by blast
  let ?n = "probe_netdev par chan vendor dev_id"
  have st: "\<not> nd_stopped (ndev ?n)" by (simp add: probe_netdev_def Let_def)
  obtain ret t where t: "mhi_netdev_enable_iface par map1 alloc prep has_ndev reg_err (fresh_nic ?n c u d) = (ret, t)"
    by (cases "mhi_netdev_enable_iface par map1 alloc prep has_ndev reg_err (fresh_nic ?n c u d)")
  have ret: "ret = 0" "\<exists>n. s = t\<lparr>nd := n\<rparr> \<and> same_flow (nd t) n"
    using p t register_flow [of par reg "upto_mode (nd t)" "nd t"]
    by (auto simp: mhi_netdev_probe_def Let_def EINVAL_def same_flow_def split: if_splits)
  from t ret(1) have "nic_inv t" using enable_inv(1) [of par map1 alloc prep has_ndev reg_err "fresh_nic ?n c u d" t] fresh_inv [OF ch st] st
    by (simp add: fresh_nic_def)
  then show ?thesis using ret(2) nic_inv_flow by blast
qed

interpretation pcie: inv_system "nic_init par" "nic_step par" nic_inv for par
  using nic_init_inv nic_step_inv by unfold_locales auto

text \<open>The states the driver can be in.\<close>

definition nic_reach :: "mhi_params \<Rightarrow> nic \<Rightarrow> bool" where
  "nic_reach par s \<longleftrightarrow> (\<exists>s0. nic_init par s0 \<and> (nic_step par)\<^sup>*\<^sup>* s0 s)"

lemma nic_reach_inv: "nic_reach par s \<Longrightarrow> nic_inv s"
  using pcie.reach_inv by (auto simp: nic_reach_def)

section \<open>Properties\<close>


text \<open>
  C14. The transmit queue is not forgotten. Whenever it is stopped while the device is in use, with a ring of more than 33
  descriptors, the completion of transfers that are already on the ring wakes it: it stays stopped until 33 descriptors
  are free, and then the device's queue and those of all sub-devices in use are awake.
\<close>

theorem stopped_queue_wakes:
  assumes "nic_reach par s" "nd_enabled (nd s)" "nd_stopped (ndev (nd s))" "33 \<le> chan_cap (ul s)"
  shows "\<exists>k\<le>length (outstanding (ul s)). 0 < k \<and> (\<forall>j<k. nd_stopped (ndev (nd ((ul_complete map1 0 ^^ j) s)))) \<and>
     (let t = (ul_complete map1 0 ^^ k) s in
      mhi_get_no_free_descriptors (ul t) = 33 \<and> \<not> nd_stopped (ndev (nd t)) \<and>
      (\<forall>i n p. i < unat (nd_qmap_mode (nd t)) \<and> vnd_at (nd t) i = Some (n, p) \<longrightarrow> \<not> nd_stopped n))"
proof -
  from stopped_wakes [OF nic_reach_inv [OF assms(1)] assms(2-4), of map1] obtain k where
    k: "k \<le> length (outstanding (ul s))" "0 < k" "\<forall>j<k. nd_stopped (ndev (nd ((ul_complete map1 0 ^^ j) s)))"
      "nd ((ul_complete map1 0 ^^ k) s) = wake_queues (nd s)" "mhi_get_no_free_descriptors (ul ((ul_complete map1 0 ^^ k) s)) = 33"
    by auto
  then show ?thesis using wake_queues_slots [of _ "nd s"] by (intro exI [of _ k]) (auto simp: Let_def)
qed

lemma slots_frame [simp]:
  "to_ndev (fold (upd_slot f) is s) = to_ndev s" "tx_seq (fold (upd_slot f) is s) = tx_seq s"
  by (induction "is" arbitrary: s) (simp_all add: upd_slot_def set_vnd_def split: nslot.split)

lemma xmit_dev_fields:
  "to_ndev (xmit_dev ch n) = to_ndev n" "nd_enabled (xmit_dev ch n) = nd_enabled n"
  "nd_stopped (ndev (xmit_dev ch n)) = (nd_stopped (ndev n) \<or> mhi_get_no_free_descriptors ch < 16)"
  "tx_seq (xmit_dev ch n) = tx_seq n + (if net_type n = MHI_NET_MBIM then 1 else 0)"
  by (simp_all add: xmit_dev_def Let_def) (simp_all add: stop_queues_def Let_def)

lemma xmit_one:
  assumes "nic_inv s" "to_ndev (nd s) = k # ks" "s_protocol k = ETH_P_MAP" "0 < mhi_get_no_free_descriptors (ul s)"
    "\<not> MHI_PM_IN_ERROR_STATE (pm_state (cntrl s))" "\<And>b. fst (map1 b) = 0"
  defines "t \<equiv> mhi_netdev_xmit map1 s"
  shows "sent t = sent s @ [xmit_data (nd s) k]" "to_ndev (nd t) = ks" "nd_enabled (nd t) = nd_enabled (nd s)"
    "map cb_buf (outstanding (ul t)) = map cb_buf (outstanding (ul s)) @ [next_skb s]" "chan_cap (ul t) = chan_cap (ul s)"
    "nd_stopped (ndev (nd t)) = (nd_stopped (ndev (nd s)) \<or> mhi_get_no_free_descriptors (ul s) < 16)"
    "tx_seq (nd t) = tx_seq (nd s) + (if net_type (nd s) = MHI_NET_MBIM then 1 else 0)" "pm_state (cntrl t) = pm_state (cntrl s)"
proof -
  define n where "n = (nd s)\<lparr>to_ndev := ks\<rparr>"
  obtain q c ch log where q: "mhi_queue_skb map1 (next_skb s) (length (xmit_data n k)) (cntrl s) (ul s) = (q, c, ch, log)" by (metis prod_cases4)
  have wf: "chan_wf (ul s)" "\<not> offload_ch (ul s)" using assms(1) by (simp_all add: nic_inv_def rings_ok_def)
  have "length (outstanding (ul s)) < chan_cap (ul s)" using chan_free [OF wf] assms(4) by simp
  note ok = queue_skb_ok [OF q wf(1) this assms(5,6)] and ch = queue_skb_cases [OF q wf(1)]
  have d: "xmit_data n k = xmit_data (nd s) k" by (simp add: xmit_data_def n_def)
  have t: "t = s\<lparr>next_skb := next_skb s + 1, cntrl := c, ul := ch, tx_bound := tx_bound s @ [(next_skb s, length (xmit_data n k))],
      nd := xmit_dev (ul s) n, sent := sent s @ [xmit_data n k]\<rparr>"
    using q ok(1) assms(2,3) by (simp add: t_def mhi_netdev_xmit_def n_def [symmetric] Let_def)
  show "sent t = sent s @ [xmit_data (nd s) k]" "to_ndev (nd t) = ks" "nd_enabled (nd t) = nd_enabled (nd s)"
    "map cb_buf (outstanding (ul t)) = map cb_buf (outstanding (ul s)) @ [next_skb s]" "chan_cap (ul t) = chan_cap (ul s)"
    "nd_stopped (ndev (nd t)) = (nd_stopped (ndev (nd s)) \<or> mhi_get_no_free_descriptors (ul s) < 16)"
    "tx_seq (nd t) = tx_seq (nd s) + (if net_type (nd s) = MHI_NET_MBIM then 1 else 0)" "pm_state (cntrl t) = pm_state (cntrl s)"
    using ok ch by (simp_all add: t d xmit_dev_fields) (simp_all add: n_def)
qed

text \<open>
  C36. While the uplink has a free descriptor, a packet of a sub-device is put on the ring behind the ones already there;
  an MBIM block carries the next sequence number. The queue is stopped when fewer than 16 descriptors were free, and not
  before.
\<close>

theorem xmit_puts_on_ring:
  assumes "nic_reach par s" "to_ndev (nd s) = k # ks" "s_protocol k = ETH_P_MAP" "0 < mhi_get_no_free_descriptors (ul s)"
    "\<not> MHI_PM_IN_ERROR_STATE (pm_state (cntrl s))" "\<And>b. fst (map1 b) = 0" "net_type (nd s) = MHI_NET_MBIM"
  shows "sent (mhi_netdev_xmit map1 s) = sent s @ [set_wSequence (tx_seq (nd s)) (s_data k)] \<and> tx_seq (nd (mhi_netdev_xmit map1 s)) = tx_seq (nd s) + 1 \<and>
     map cb_buf (outstanding (ul (mhi_netdev_xmit map1 s))) = map cb_buf (outstanding (ul s)) @ [next_skb s] \<and>
     nd_stopped (ndev (nd (mhi_netdev_xmit map1 s))) = (nd_stopped (ndev (nd s)) \<or> mhi_get_no_free_descriptors (ul s) < 16)"
  using xmit_one [OF nic_reach_inv [OF assms(1)] assms(2-6)] assms(7) by (simp add: xmit_data_def)

lemma alloc_loop_fields:
  "alloc_loop map1 alloc n s = (ret, t) \<Longrightarrow> nd t = nd s \<and> pm_state (cntrl t) = pm_state (cntrl s) \<and> (rx_allocated s = [] \<longrightarrow> rx_allocated t = [])"
proof (induction n arbitrary: s)
  case (Suc n)
  show ?case
  proof (cases "take_buf (alloc n) s")
    case (Some r)
    then obtain b s1 where b: "take_buf (alloc n) s = Some (b, s1)" by (cases r) auto
    then have s1: "cntrl s1 = cntrl s" "nd s1 = nd s" "rx_allocated s = [] \<Longrightarrow> rx_allocated s1 = []" by (auto simp: take_buf_def split: list.splits if_splits)
    obtain q c ch log where q: "mhi_queue_skb map1 b (unat (mru (nd s1))) (cntrl s1) (dl s1) = (q, c, ch, log)" by (metis prod_cases4)
    then have pm: "pm_state c = pm_state (cntrl s1)" by (auto simp: mhi_queue_skb_def Let_def count_pending_def split: if_splits prod.splits)
    show ?thesis
    proof (cases "nd_enabled (nd s1) \<and> q = 0")
      case True
      then show ?thesis
        using Suc.IH [of "s1\<lparr>cntrl := c, dl := ch, rx_bound := rx_bound s1 @ [b]\<rparr>"] Suc.prems b q s1 pm by (simp add: alloc_loop_Suc del: alloc_loop.simps)
    qed (use Suc.prems b q s1 pm in \<open>auto simp: alloc_loop_Suc simp del: alloc_loop.simps split: if_splits\<close>)
  qed (use Suc.prems in \<open>auto simp: alloc_loop_Suc simp del: alloc_loop.simps\<close>)
qed simp

lemma worker_fills:
  assumes "nic_inv s" "nd_enabled (nd s)" "\<not> MHI_PM_IN_ERROR_STATE (pm_state (cntrl s))" "\<And>b. fst (map1 b) = 0"
  shows "\<exists>t. mhi_netdev_alloc_work map1 (\<lambda>_. True) s = t \<and> nic_inv t \<and> refilled (s\<lparr>alloc_work := False\<rparr>) t \<and> length (outstanding (dl t)) = chan_cap (dl s) \<and>
     chan_cap (dl t) = chan_cap (dl s) \<and> pm_state (cntrl t) = pm_state (cntrl s) \<and> (rx_allocated s = [] \<longrightarrow> rx_allocated t = [])"
proof -
  define u where "u = s\<lparr>alloc_work := False\<rparr>"
  have inv: "nic_inv u" using assms(1) by (simp add: u_def)
  have r: "chan_wf (dl u)" "\<not> offload_ch (dl u)" "map cb_buf (outstanding (dl u)) = rx_bound u" using inv by (simp_all add: nic_inv_def rings_ok_def)
  have len: "length (rx_bound u) = length (outstanding (dl u))" using r(3) by (metis length_map)
  have dl: "dl u = dl s" by (simp add: u_def)
  define m where "m = nat (mhi_get_no_free_descriptors (dl u))"
  have m: "length (rx_bound u) + m = chan_cap (dl u)" using chan_free [OF r(1,2)] chan.len_le [OF r(1)] len by (simp add: m_def)
  have "fst (alloc_loop map1 (\<lambda>_. True) m u) = 0" using assms(2-4) m by (intro alloc_loop_fills [OF inv]) (simp_all add: u_def)
  then obtain t where t: "alloc_loop map1 (\<lambda>_. True) m u = (0, t)" by (metis prod.collapse)
  note l = alloc_loop_inv [OF inv t]
  have "map cb_buf (outstanding (dl t)) = rx_bound t" using l by (simp add: nic_inv_def rings_ok_def)
  then have "length (outstanding (dl t)) = chan_cap (dl s)" using l m dl by (metis length_map)
  moreover have "mhi_netdev_alloc_work map1 (\<lambda>_. True) s = t"
    using t by (simp add: mhi_netdev_alloc_work_def mhi_netdev_alloc_skb_def u_def [symmetric] m_def [symmetric] ENOMEM_def)
  moreover note alloc_loop_fields [OF t]
  ultimately show ?thesis using l by (simp add: u_def)
qed

text \<open>
  C37. A shortage of memory is made up for: when memory is back, one run of the worker fills the downlink completely, and
  it is not scheduled again.
\<close>

theorem worker_fills_ring:
  assumes "nic_reach par s" "nd_enabled (nd s)" "\<not> MHI_PM_IN_ERROR_STATE (pm_state (cntrl s))" "\<And>b. fst (map1 b) = 0"
  shows "length (outstanding (dl (mhi_netdev_alloc_work map1 (\<lambda>_. True) s))) = chan_cap (dl s) \<and> \<not> alloc_work (mhi_netdev_alloc_work map1 (\<lambda>_. True) s)"
  using worker_fills [OF nic_reach_inv [OF assms(1)] assms(2-4)] by (auto simp: refilled_def)

text \<open>The table has eight entries, and nothing limits the module parameter: with more than eight sub-devices the driver writes behind it.\<close>

lemma register_length:
  "fold (\<lambda>i r. Option.bind r (register_vnd par reg i)) is (Some s) = Some t \<Longrightarrow> length (mpQmapNetDev t) = length (mpQmapNetDev s)"
proof (induction "is" arbitrary: s)
  case (Cons i "is")
  then obtain u where u: "register_vnd par reg i s = Some u" by (cases "register_vnd par reg i s") simp_all
  then have "length (mpQmapNetDev u) = length (mpQmapNetDev s)" by (auto simp: register_vnd_def Let_def split: if_splits)
  then show ?case using Cons.IH [of u] Cons.prems u by simp
qed simp

lemma register_outside:
  assumes "length (mpQmapNetDev s) < n"
  shows "fold (\<lambda>i r. Option.bind r (register_vnd par reg i)) [0..<n] (Some s) = None"
proof -
  let ?f = "\<lambda>i r. Option.bind r (register_vnd par reg i)" and ?m = "length (mpQmapNetDev s)"
  have split: "[0..<n] = [0..<?m] @ ?m # [Suc ?m..<n]" using assms by (metis less_imp_le_nat upt_add_eq_append upt_conv_Cons le_add_diff_inverse zero_le)
  show ?thesis
  proof (cases "fold ?f [0..<?m] (Some s)")
    case (Some t)
    then have "register_vnd par reg ?m t = None" using register_length [OF Some] by (simp add: register_vnd_def Let_def)
    then show ?thesis unfolding split using Some by simp
  qed (simp add: split)
qed

lemma probe_leaves_table:
  assumes "8 < par_qmap_mode par"
  shows "mhi_netdev_probe par map1 alloc 0 True 0 reg IP_HW0 vendor dev_id c u d = None"
proof -
  let ?s = "fresh_nic (probe_netdev par IP_HW0 vendor dev_id) c u d"
  obtain t where t: "mhi_netdev_enable_iface par map1 alloc 0 True 0 ?s = (0, t)" "net_type (nd t) \<noteq> MHI_NET_ETHER"
    "length (mpQmapNetDev (nd t)) = 8" "nd_qmap_mode (nd t) = par_qmap_mode par"
  proof -
    define n where "n = (nd ?s)\<lparr>nd_bridge_mode := par_bridge_mode par, ndev := (ndev (nd ?s))\<lparr>nd_mtu := nd_mtu (ndev (nd ?s))\<rparr>, nd_enabled := True\<rparr>"
    obtain ret v where v: "mhi_netdev_alloc_skb map1 alloc (?s\<lparr>nd := n\<rparr>) = (ret, v)" by (cases "mhi_netdev_alloc_skb map1 alloc (?s\<lparr>nd := n\<rparr>)")
    then have "nd v = n" using alloc_loop_fields by (fastforce simp: mhi_netdev_alloc_skb_def)
    moreover have ty: "net_type (nd ?s) \<noteq> MHI_NET_ETHER" by (simp add: fresh_nic_def probe_netdev_def Let_def)
    moreover have "mhi_netdev_enable_iface par map1 alloc 0 True 0 ?s = (0, if ret \<noteq> 0 then v\<lparr>alloc_work := True\<rparr> else v)"
      using v ty by (simp add: mhi_netdev_enable_iface_def n_def)
    ultimately show ?thesis by (intro that [of "if ret \<noteq> 0 then v\<lparr>alloc_work := True\<rparr> else v"]) (simp_all add: n_def fresh_nic_def probe_netdev_def Let_def)
  qed
  have "8 < unat (par_qmap_mode par)" using assms by (simp add: word_less_nat_alt)
  then have "fold (\<lambda>i r. Option.bind r (register_vnd par reg i)) (upto_mode (nd t)) (Some (nd t)) = None"
    unfolding upto_mode_def t(4) by (intro register_outside) (simp add: t(3))
  then show ?thesis using t by (simp add: mhi_netdev_probe_def Let_def)
qed

lemma downlink_poll:
  assumes inv: "nic_inv s" and ring: "length (outstanding (dl s)) = chan_cap (dl s)" "outstanding (dl s) \<noteq> []"
    and idle: "qmap_chain s = []" "rx_allocated s = []" "\<not> alloc_work s"
    and dev: "net_type (nd s) = MHI_NET_MBIM" "nd_enabled (nd s)" "\<not> MHI_PM_IN_ERROR_STATE (pm_state (cntrl s))" "\<And>b. fst (map1 b) = 0"
    and blk: "ntb_ok par (nd s) xs" "length (ntb seq xs) \<le> unat (mru (nd s))"
  shows "\<exists>t. mhi_netdev_poll par map1 (\<lambda>_ _. True) (\<lambda>_. False) mem_ok 1 budget [(length (ntb seq xs), 0, ntb seq xs @ rest)] s = Some (1, t) \<and>
     delivered t = delivered s @ concat (map (ndp_view par (nd s)) xs) \<and> rx_bound t = tl (rx_bound s) @ [hd (rx_bound s)] \<and> next_skb t = next_skb s"
proof -
  define b blk where "b = hd (rx_bound s)" and "blk = ntb seq xs"
  define ps where "ps = concat (map (ndp_view par (nd s)) xs)"
  obtain c where pm: "pm_state c = pm_state (cntrl s)" and c: "dl_complete map1 (blk @ rest) (length blk) 0 s =
      Some (s\<lparr>cntrl := c, dl := advance_rp (dl s), rx_bound := tl (rx_bound s), qmap_chain := [(b, blk, rest)]\<rparr>)"
    using dl_complete_head(1) [OF inv ring(2), of map1 "blk @ rest" "length blk" 0] blk(2) idle(1) by (auto simp: Let_def b_def blk_def)
  define u where "u = s\<lparr>cntrl := c, dl := advance_rp (dl s), rx_bound := tl (rx_bound s), qmap_chain := [(b, blk, rest)]\<rparr>"
  note iu = dl_complete_inv [OF inv ring(2) c [folded u_def]]
  obtain n where n: "rmnet_mbim_rx_handler par (\<lambda>_. True) blk (nd s) = Some (NtbOk, ps, n)"
    using ntb_decoded [OF blk(1), of seq] by (auto simp: blk_def ps_def)
  have sd: "same_dev (nd s) n" using same_dev_rx(1) [OF n] .
  define v where "v = u\<lparr>qmap_chain := [], st_rx_packets := st_rx_packets u + 1, st_rx_bytes := st_rx_bytes u + length blk, nd := n,
      delivered := delivered u @ ps, rx_allocated := [b]\<rparr>"
  have rcv: "receive_all par (\<lambda>_ _. True) (\<lambda>_. False) [(b, blk, rest)] (u\<lparr>qmap_chain := []\<rparr>) = Some v"
    using n idle(2) dev(1) by (simp add: receive_one_def rmnet_rx_handler_def recycle_def Let_def v_def u_def)
  have iv: "nic_inv v" using receive_all_inv [OF _ _ rcv] iu(1) by (simp add: u_def)
  have wf: "chan_wf (dl v)" "\<not> offload_ch (dl v)" using iv by (simp_all add: nic_inv_def rings_ok_def)
  have len: "length (outstanding (dl v)) = chan_cap (dl v) - 1" "0 < chan_cap (dl v)"
    using iu(3,4) ring by (simp_all add: v_def u_def) (metis length_greater_0_conv outstanding_length)
  then have free: "nat (mhi_get_no_free_descriptors (dl v)) = 1" using chan_free [OF wf] by simp
  obtain q c2 ch log where q: "mhi_queue_skb map1 b (unat (mru n)) (cntrl v) (dl v) = (q, c2, ch, log)" by (metis prod_cases4)
  have "q = 0" using queue_skb_ok(1) [OF q wf(1)] len dev(3,4) pm by (simp add: v_def u_def)
  then have "poll_refill map1 mem_ok v = v\<lparr>rx_allocated := [], cntrl := c2, dl := ch, rx_bound := rx_bound v @ [b]\<rparr>"
    using q idle(3) dev(2) sd unfolding poll_refill_def mhi_netdev_alloc_skb_def free One_nat_def
    by (simp add: v_def u_def same_dev_def ENOMEM_def)
  moreover have "dl_complete_all map1 [(length blk, 0, blk @ rest)] s = Some u" by (simp add: c u_def)
  ultimately have "mhi_netdev_poll par map1 (\<lambda>_ _. True) (\<lambda>_. False) mem_ok 1 budget [(length blk, 0, blk @ rest)] s =
      Some (1, let t = v\<lparr>rx_allocated := [], cntrl := c2, dl := ch, rx_bound := rx_bound v @ [b]\<rparr> in if 1 < budget then t\<lparr>napi_scheduled := False\<rparr> else t)"
    using rcv by (simp add: mhi_netdev_poll_def u_def)
  then show ?thesis by (simp add: blk_def [symmetric] ps_def [symmetric] v_def u_def b_def Let_def)
qed

text \<open>
  C6. From the ring to the network stack. With the downlink full of buffers, an MBIM block the modem wrote into the first
  of them is taken apart by the poll function into its packets, which go to their sub-devices in order, and the same
  buffer is put back on the ring behind the others: no buffer is allocated, and the ring is full again.
\<close>

theorem downlink_end_to_end:
  assumes "nic_reach par s" "length (outstanding (dl s)) = chan_cap (dl s)" "outstanding (dl s) \<noteq> []"
    "qmap_chain s = []" "rx_allocated s = []" "\<not> alloc_work s" "net_type (nd s) = MHI_NET_MBIM" "nd_enabled (nd s)"
    "\<not> MHI_PM_IN_ERROR_STATE (pm_state (cntrl s))" "\<And>b. fst (map1 b) = 0" "ntb_ok par (nd s) xs" "length (ntb seq xs) \<le> unat (mru (nd s))"
  shows "\<exists>t. mhi_netdev_poll par map1 (\<lambda>_ _. True) (\<lambda>_. False) mem_ok 1 budget [(length (ntb seq xs), 0, ntb seq xs @ rest)] s = Some (1, t) \<and>
     delivered t = delivered s @ concat (map (ndp_view par (nd s)) xs) \<and> rx_bound t = tl (rx_bound s) @ [hd (rx_bound s)] \<and> next_skb t = next_skb s"
  using downlink_poll [OF nic_reach_inv [OF assms(1)] assms(2-12)] .

section \<open>A concrete device\<close>

definition wide_chan :: mhi_chan where
  "wide_chan = sample_chan\<lparr>buf_ring := \<lparr>base = 1000, rp = 1000, wp = 1000, el_size = 40, len = 1600, elements = 40, iommu_base = 0\<rparr>,
     tre_ring := \<lparr>base = 4096, rp = 4096, wp = 4096, el_size = 16, len = 640, elements = 40, iommu_base = 256\<rparr>, bufs := replicate 40 sample_buf\<rparr>"

definition down_chan :: mhi_chan where
  "down_chan = sample_chan\<lparr>to_device := False\<rparr>"

definition start_nic :: nic where
  "start_nic = (case mhi_netdev_probe sample_par (\<lambda>_. (0, 7)) (\<lambda>_. False) 0 True 0 (\<lambda>_. RegOk) IP_HW0 0 0 sample_cntrl wide_chan down_chan of
     Some (_, s) \<Rightarrow> s | None \<Rightarrow> undefined)"

lemma chans_ready:
  "chan_ready wide_chan" "chan_ready down_chan" "outstanding wide_chan = []" "outstanding down_chan = []" "chan_cap wide_chan = 39" "chan_cap down_chan = 3"
  "mhi_get_no_free_descriptors down_chan = 3" "mhi_get_no_free_descriptors wide_chan = 39"
  by (simp_all add: chan_ready_def chan_wf_def ring_wf_def slot_addr_def ring_placed_def sample_chan_def ring_slot_def wide_chan_def down_chan_def
      outstanding_def used_def chan_cap_def mhi_get_no_free_descriptors_def get_nr_avail_ring_elements_def)

lemma alloc_loop_empty: "rx_allocated s = [] \<Longrightarrow> 0 < n \<Longrightarrow> alloc_loop map1 (\<lambda>_. False) n s = (- ENOMEM, s)"
  by (cases n) (simp_all add: take_buf_def alloc_loop_Suc del: alloc_loop.simps)

lemma start_nic_facts:
  "mhi_netdev_probe sample_par (\<lambda>_. (0, 7)) (\<lambda>_. False) 0 True 0 (\<lambda>_. RegOk) IP_HW0 0 0 sample_cntrl wide_chan down_chan = Some (0, start_nic)"
  "ul start_nic = wide_chan" "dl start_nic = down_chan" "cntrl start_nic = sample_cntrl" "nd_enabled (nd start_nic)" "\<not> nd_stopped (ndev (nd start_nic))"
  "net_type (nd start_nic) = MHI_NET_MBIM" "to_ndev (nd start_nic) = []" "qmap_chain start_nic = []" "rx_allocated start_nic = []" "mru (nd start_nic) = 0x8000"
  "rx_max (nd start_nic) = 0x8000" "mbim_mux_id (nd start_nic) = 0" "vnd_at (nd start_nic) 0 \<noteq> None" "delivered start_nic = []"
proof -
  note defs = mhi_netdev_probe_def mhi_netdev_enable_iface_def probe_netdev_def fresh_nic_def mhi_netdev_alloc_skb_def alloc_loop_empty
    upto_mode_def upt_rec register_vnd_def rmnet_vnd_register_device_def chans_ready sample_par_def ENOMEM_def Let_def vnd_at_def
  show "mhi_netdev_probe sample_par (\<lambda>_. (0, 7)) (\<lambda>_. False) 0 True 0 (\<lambda>_. RegOk) IP_HW0 0 0 sample_cntrl wide_chan down_chan = Some (0, start_nic)"
    by (simp add: start_nic_def defs)
  show "ul start_nic = wide_chan" "dl start_nic = down_chan" "cntrl start_nic = sample_cntrl" "nd_enabled (nd start_nic)" "\<not> nd_stopped (ndev (nd start_nic))"
  "net_type (nd start_nic) = MHI_NET_MBIM" "to_ndev (nd start_nic) = []" "qmap_chain start_nic = []" "rx_allocated start_nic = []" "mru (nd start_nic) = 0x8000"
  "rx_max (nd start_nic) = 0x8000" "mbim_mux_id (nd start_nic) = 0" "vnd_at (nd start_nic) 0 \<noteq> None" "delivered start_nic = []"
    by (simp_all add: start_nic_def defs)
qed

lemma start_reach: "nic_reach sample_par start_nic"
  unfolding nic_reach_def nic_init_def using chans_ready(1-4) start_nic_facts(1) by blast

lemma reach_step: "nic_reach par s \<Longrightarrow> nic_step par s t \<Longrightarrow> nic_reach par t"
  unfolding nic_reach_def by (meson rtranclp.rtrancl_into_rtrancl)

lemma reach_many: "nic_reach par s \<Longrightarrow> (\<And>s. nic_step par s (f s)) \<Longrightarrow> nic_reach par ((f ^^ n) s)"
  by (induction n) (auto intro: reach_step)

definition map_skb :: skb where
  "map_skb = \<lparr>s_headroom = 0, s_data = [], s_tail = [], s_protocol = ETH_P_MAP\<rparr>"

definition give :: "nic \<Rightarrow> nic" where
  "give s = s\<lparr>nd := (nd s)\<lparr>to_ndev := to_ndev (nd s) @ [map_skb]\<rparr>\<rparr>"

definition loaded :: nic where
  "loaded = (give ^^ 25) start_nic"

lemma give_many:
  "(give ^^ n) s = s\<lparr>nd := (nd s)\<lparr>to_ndev := to_ndev (nd s) @ replicate n map_skb\<rparr>\<rparr>"
  by (induction n) (simp_all add: give_def replicate_append_same)

lemma loaded_reach: "nic_reach sample_par loaded"
  unfolding loaded_def by (rule reach_many [OF start_reach]) (simp add: give_def nic_step.stack)

lemma xmit_run:
  "n \<le> 25 \<Longrightarrow> let t = (mhi_netdev_xmit (\<lambda>_. (0, 7)) ^^ n) loaded in nic_reach sample_par t \<and> length (outstanding (ul t)) = n \<and> chan_cap (ul t) = 39 \<and>
     nd_enabled (nd t) \<and> nd_stopped (ndev (nd t)) = (25 \<le> n) \<and> pm_state (cntrl t) = MHI_PM_M0 \<and>
     to_ndev (nd t) = replicate (25 - n) map_skb"
proof (induction n)
  case 0
  then show ?case using loaded_reach start_nic_facts chans_ready
    by (simp add: Let_def loaded_def give_many sample_cntrl_def del: outstanding_length)
next
  case (Suc n)
  define t where "t = (mhi_netdev_xmit (\<lambda>_. (0, 7)) ^^ n) loaded"
  have e: "replicate (25 - n) x = x # replicate (25 - Suc n) x" for x :: skb using Suc.prems by (metis Suc_diff_Suc Suc_le_lessD replicate_Suc)
  have t: "nic_reach sample_par t" "length (outstanding (ul t)) = n" "chan_cap (ul t) = 39" "nd_enabled (nd t)"
      "nd_stopped (ndev (nd t)) = (25 \<le> n)" "pm_state (cntrl t) = MHI_PM_M0"
      "to_ndev (nd t) = map_skb # replicate (25 - Suc n) map_skb"
    using Suc e unfolding t_def Let_def by (simp_all del: diff_Suc_Suc)
  note inv = nic_reach_inv [OF t(1)]
  have "chan_wf (ul t)" "\<not> offload_ch (ul t)" using inv by (simp_all add: nic_inv_def rings_ok_def)
  then have free: "mhi_get_no_free_descriptors (ul t) = 39 - int n" using chan_free t(2,3) by simp
  have pm: "\<not> MHI_PM_IN_ERROR_STATE (pm_state (cntrl t))" unfolding t(6) by (simp add: MHI_PM_IN_ERROR_STATE_def MHI_PM_M0_def MHI_PM_FW_DL_ERR_def)
  have "s_protocol map_skb = ETH_P_MAP" by (simp add: map_skb_def)
  note x = xmit_one [OF inv t(7) this _ pm, of "\<lambda>_. (0, 7)"]
  have len: "length (outstanding (ul (mhi_netdev_xmit (\<lambda>_. (0, 7)) t))) = Suc n"
    using arg_cong [OF x(4), of length] free Suc.prems t(2) by simp
  show ?case using x free Suc.prems t len reach_step [OF t(1) nic_step.xmit, of "\<lambda>_. (0, 7)"]
    by (simp add: Let_def t_def [symmetric] del: outstanding_length) linarith
qed


definition busy_nic :: nic where
  "busy_nic = (mhi_netdev_xmit (\<lambda>_. (0, 7)) ^^ 25) loaded"

lemma stopped_queue_wakes_witness:
  "\<exists>k\<le>25. 0 < k \<and> nd_stopped (ndev (nd busy_nic)) \<and> \<not> nd_stopped (ndev (nd ((ul_complete (\<lambda>_. (0, 7)) 0 ^^ k) busy_nic)))"
proof -
  have b: "nic_reach sample_par busy_nic" "nd_enabled (nd busy_nic)" "nd_stopped (ndev (nd busy_nic))" "length (outstanding (ul busy_nic)) = 25" "33 \<le> chan_cap (ul busy_nic)"
    using xmit_run [of 25] unfolding busy_nic_def Let_def by auto
  show ?thesis using stopped_queue_wakes [OF b(1-3,5), of "\<lambda>_. (0, 7)"] b(3,4) unfolding Let_def by metis
qed

lemma m0_no_error: "\<not> MHI_PM_IN_ERROR_STATE MHI_PM_M0"
  by (simp add: MHI_PM_IN_ERROR_STATE_def MHI_PM_M0_def MHI_PM_FW_DL_ERR_def)

lemma xmit_puts_on_ring_witness: "sent (mhi_netdev_xmit (\<lambda>_. (0, 7)) loaded) = [set_wSequence 0 []]"
proof -
  have l: "to_ndev (nd loaded) = map_skb # replicate 24 map_skb" "sent loaded = sent start_nic" "tx_seq (nd loaded) = tx_seq (nd start_nic)"
      "net_type (nd loaded) = MHI_NET_MBIM" "ul loaded = wide_chan" "cntrl loaded = sample_cntrl"
    using start_nic_facts by (simp_all add: loaded_def give_many) (simp add: numeral_eq_Suc)
  have s: "sent start_nic = []" "tx_seq (nd start_nic) = 0"
    by (simp_all add: start_nic_def mhi_netdev_probe_def mhi_netdev_enable_iface_def probe_netdev_def fresh_nic_def mhi_netdev_alloc_skb_def alloc_loop_empty
      upto_mode_def upt_rec register_vnd_def chans_ready sample_par_def ENOMEM_def Let_def)
  show ?thesis
    using xmit_puts_on_ring [OF loaded_reach l(1), of "\<lambda>_. (0, 7)"] l s chans_ready(8) m0_no_error by (simp add: map_skb_def sample_cntrl_def)
qed

lemma worker_fills_ring_witness:
  "length (outstanding (dl (mhi_netdev_alloc_work (\<lambda>_. (0, 7)) (\<lambda>_. True) start_nic))) = 3"
  using worker_fills_ring [OF start_reach, of "\<lambda>_. (0, 7)"] start_nic_facts(3-5) chans_ready(6) m0_no_error by (simp add: sample_cntrl_def)

definition filled_nic :: nic where
  "filled_nic = mhi_netdev_alloc_work (\<lambda>_. (0, 7)) (\<lambda>_. True) start_nic"

lemma downlink_end_to_end_witness:
  "\<exists>t. mhi_netdev_poll sample_par (\<lambda>_. (0, 7)) (\<lambda>_ _. True) (\<lambda>_. False) (\<lambda>_. False) 1 64
       [(length (ntb 7 [(1, [[0x45, 1], [0x60]])]), 0, ntb 7 [(1, [[0x45, 1], [0x60]])] @ [])] filled_nic = Some (1, t) \<and>
     length (delivered t) = 2"
proof -
  let ?xs = "[(1, [[0x45, 1], [0x60]])] :: ndp list"
  have pm: "\<not> MHI_PM_IN_ERROR_STATE (pm_state (cntrl start_nic))" using m0_no_error start_nic_facts(4) by (simp add: sample_cntrl_def)
  have f: "refilled (start_nic\<lparr>alloc_work := False\<rparr>) filled_nic" "length (outstanding (dl filled_nic)) = chan_cap (dl filled_nic)" "chan_cap (dl filled_nic) = 3"
      "pm_state (cntrl filled_nic) = pm_state (cntrl start_nic)" "rx_allocated filled_nic = []"
    using worker_fills [OF nic_reach_inv [OF start_reach] start_nic_facts(5) pm, of "\<lambda>_. (0, 7)"] start_nic_facts(3,10) chans_ready(6)
    by (simp_all add: filled_nic_def)
  have r: "nic_reach sample_par filled_nic" unfolding filled_nic_def by (rule reach_step [OF start_reach nic_step.worker])
  have e: "qmap_chain filled_nic = []" "\<not> alloc_work filled_nic" "nd filled_nic = nd start_nic" "delivered filled_nic = []"
    using f(1) start_nic_facts by (simp_all add: refilled_def)
  have ne: "outstanding (dl filled_nic) \<noteq> []" using f(2,3) by (metis list.size(3) zero_neq_numeral)
  have "mbim_index sample_par (nd start_nic) (ucast (1 :: byte)) = Some 0" by (simp add: mbim_index_def sample_par_def start_nic_facts)
  then obtain n p where dev: "session_dev sample_par (nd start_nic) 1 = Some (0, n, p)" using start_nic_facts(14) by (auto simp: session_dev_def)
  have ok: "ntb_ok sample_par (nd filled_nic) ?xs" "length (ntb 7 ?xs) \<le> unat (mru (nd filled_nic))"
    using dev start_nic_facts(11,12) by (simp_all add: e ntb_ok_def ndp_size_def datagram_ok_def ip_protocol_of_def ntb_def)
  show ?thesis
    using downlink_end_to_end [OF r f(2) ne e(1) f(5) e(2) _ _ _ _ ok, of "\<lambda>_. (0, 7)" "\<lambda>_. False" 64 "[]"] e(3,4) f(4) pm start_nic_facts(5,7) dev
    by (auto simp: ndp_view_def)
qed

end
