(* ===== verification/Spec2Isabelle.thy ===== *)
theory Spec2Isabelle
  imports AtReader Atc QmiProxy QmapCtl MhiPm CmRun LedNetdev Mbim MbimProxy MhiNetdev
begin

text \<open>
  BananaWRT is an OpenWrt distribution for a router with a cellular modem. The code of its own is the
  software around the modem: under \<open>src/5G-Modem/5G-Modem-Support\<close> the connection manager
  \<open>quectel_cm_5G\<close>, a user-space daemon, and the kernel drivers \<open>quectel_QMI_WWAN\<close> (network over USB)
  and \<open>quectel_MHI\<close> (the same over PCIe), and under \<open>src/patch\<close> a kernel LED trigger. The rest of the
  repository is build scripts, a web interface and copies of these sources. This development models
  the C code of these parts.

  \<^bold>\<open>The program.\<close> The connection manager dials and watches a data call. Its main loop (\<open>main.c\<close>) asks
  a back-end for it: QMI requests (\<open>QMIThread.c\<close>) over a control device (\<open>QmiWwanCM.c\<close>), which several
  processes share through the proxy (\<open>quectel-qmi-proxy.c\<close>), MBIM commands (\<open>mbim-cm.c\<close>), shared
  through a proxy of their own (\<open>quectel-mbim-proxy.c\<close>), or AT commands (\<open>atc.c\<close>) over a serial
  channel (\<open>atchannel.c\<close>, \<open>at_tok.c\<close>). A reader thread takes the modem's messages, hands answers to the
  waiting request and turns the others into events of the main loop. When a call is up, the manager
  sets the network interface and starts DHCP; it hands the negotiated framing to the network driver,
  which packs packets into QMAP frames towards the modem and unpacks those that come back. On PCIe
  the frames travel over the transfer rings of the MHI driver, whose power states the driver and the
  device agree on; a network device of its own (\<open>mhi_netdev_quectel.c\<close>) fills and empties these rings. The LED trigger shows the state of a network interface.

  \<^bold>\<open>Theories.\<close>
  \<^item> \<open>Prelude\<close>: machine words, C strings, little-endian fields; the locales \<open>framing\<close>,
    \<open>bounded_fifo\<close> and \<open>inv_system\<close>.
  \<^item> \<open>AtTok\<close> (\<open>at_tok.c\<close>): every function of the tokenizer, with the library's number parsing; what is
    printed is read back.
  \<^item> \<open>AtChannel\<close>, \<open>AtReader\<close> (\<open>atchannel.c\<close>): dispatch of lines, commands and their wait; the receive
    array and its line reader, index by index. Commands return for every behaviour of the reader; lines
    do not depend on how the bytes arrive; the two places where the array is overrun or read stale.
  \<^item> \<open>Atc\<close> (\<open>atc.c\<close>): start-up, reader thread and all requests of the AT back-end, on top of the
    former two. No command is left pending in any run; SIM status, address, set-up and query of a call.
  \<^item> \<open>QList\<close> (\<open>qlist.h\<close>): the intrusive list on a store of nodes, refined to HOL lists.
  \<^item> \<open>QmiProxy\<close> (\<open>quectel-qmi-proxy.c\<close>): connections, the queue of control requests, routing. Control
    traffic is a FIFO; what a disconnecting client does to it.
  \<^item> \<open>QmiMsg\<close> (\<open>QMIThread.c\<close>, \<open>QmiWwanCM.c\<close>): layout of messages, the search for a part, the request
    bodies. What is composed is found again.
  \<^item> \<open>QmiWwan\<close> (\<open>QmiWwanCM.c\<close>, \<open>QMIThread.c\<close>): sending and waiting, the reader thread, client numbers.
    A request returns the first message that answers it.
  \<^item> \<open>QmiThread\<close> (\<open>QMIThread.c\<close>): the requests: data format, SIM, registration, data calls, addresses,
    profiles.
  \<^item> \<open>Mbim\<close> (\<open>mbim-cm.c\<close>): messages, command channel, queries and requests of the MBIM back-end. A
    command returns the message with its id; the ids of every run leave the upper byte to the proxy;
    addresses and strings of a call, and where the latter overlap.
  \<^item> \<open>MbimProxy\<close> (\<open>quectel-mbim-proxy.c\<close>): the table of clients, marked ids, delivery, the loop's exits.
    Answers go to the client that asked, other messages to all.
  \<^item> \<open>CmMain\<close>, \<open>CmRun\<close> (\<open>main.c\<close>): the handlers of signals and events, and whole runs from the start-up to
    the stop. Interface, DHCP client and call agree; calls are retried with growing delays.
  \<^item> \<open>Qmap\<close>, \<open>RmnetUsb\<close>, \<open>QmapCtl\<close> (\<open>qmi_wwan_q.c\<close>): QMAP headers, decoder, fixups and bridge mode;
    aggregation towards the modem; binding, registration, link state, flow control, ioctls, power.
    What is sent decodes to the packets transmitted; the decoder's and the aggregation's failures.
  \<^item> \<open>MhiRing\<close>, \<open>MhiPm\<close> (\<open>mhi_main.c\<close>, \<open>mhi_pm.c\<close>, \<open>mhi_internal.h\<close>): transfer rings with their
    addresses, completion of events, reset; the power state machine with suspend, resume and error
    handling. A channel is a bounded FIFO; the reachable power states.
  \<^item> \<open>MhiNet\<close>, \<open>MhiNetdev\<close> (\<open>mhi_netdev_quectel.c\<close>): the network device on these rings: MBIM blocks and QMAP
    frames; sub-devices, transmission with its flow control, receive buffers, poll function, settings,
    start and removal. The QMAP decoder is that of the USB driver; blocks and sessions round trip; every
    buffer is in one place; a stopped queue is woken; the blocks the decoder cannot cope with.
  \<^item> \<open>LedNetdev\<close> (\<open>ledtrig-netdev.c\<close>): the LED trigger.
  \<^item> This theory: how the connection manager's negotiation and the driver's aggregation fit together,
    and how a command of the MBIM back-end travels through the MBIM proxy.

  \<^bold>\<open>How the code is modelled.\<close> A C structure is a record with the source's field names, an
  enumeration a datatype; unsigned integers of the wire and of counters are words, \<open>int\<close> is
  \<^typ>\<open>int\<close> with its wrap-around written out where a value can leave the range. A function of the
  source is a definition on the state, with every branch; the value \<^term>\<open>None\<close> of a result is
  undefined behaviour (a null pointer or bytes outside a buffer are read) or a kernel panic, and
  errors are the source's codes. What lies outside (the modem, the kernel, the clock) is an argument
  or a list in the state: the answers still to come, for example the messages the reader receives
  during each wait. These lists are the only fuel of the loops that wait, and the theorems quantify
  over all of them; when a list is empty the modem is silent and the waits time out. The loops that
  may really run for ever, the decoder's and the completion's, are partial functions with
  proofs of when they end. Two threads that share a lock interleave where the lock is free: the
  reader runs inside the wait of the command thread.

  \<^bold>\<open>Configuration.\<close> A 64-bit target with kernel later than 5.18, \<open>QUECTEL_WWAN_QMAP\<close> 4, the bridge
  module, no NSS offload, no \<open>CONFIG_BRIDGE_LAN\<close>; the requests behind options that the manager's build
  leaves undefined (\<open>CONFIG_CELLINFO\<close>, \<open>CONFIG_COEX_WWAN_STATE\<close> and others) are left out.

  \<^bold>\<open>Locales.\<close> \<open>framing\<close> gives the decoding of a concatenation from that of one frame (the QMAP
  decoder, the stream of MBIM messages); \<open>bounded_fifo\<close> gives queue runs from the laws of one put and one get (the transfer
  channel); \<open>list_store\<close> gives the order of many additions and removals from the laws of one (the
  intrusive list); \<open>inv_system\<close> gives invariants of reachable states (link state, aggregation, power states,
  main loop, LED trigger, AT and MBIM back-ends, MBIM proxy, PCIe network device).

  \<^bold>\<open>Not modelled.\<close> The QRTR and GobiNet transports, the initialisation of the MHI driver
  (\<open>mhi_init.c\<close>, \<open>mhi_boot.c\<close>), its character devices (\<open>mhi_uci.c\<close>) and the Fibocom driver, a variant of
  the modelled one. Device discovery, DHCP
  script and logging are calls of the operating system; \<open>MPQMUX.h\<close> and \<open>ethtool-copy.h\<close> declare layouts.
  Freeing of memory, debugging output and timing inside a wait are left out throughout.
\<close>

section \<open>The connection manager and the network driver\<close>

text \<open>\<open>util.c\<close>: the structure is handed over with its size, 32; \<open>copy\<close> is the outcome of the copy into the kernel.\<close>

definition ql_set_driver_qmap_setting ::
  "(string \<Rightarrow> nat \<Rightarrow> u64) \<Rightarrow> (u32 \<Rightarrow> string) \<Rightarrow> int \<Rightarrow> QmiMsg.QMAP_SETTING \<Rightarrow> sQmiWwanQmap \<Rightarrow> sQmiWwanQmap" where
  "ql_set_driver_qmap_setting simple_strtoul print copy q d =
     snd (qmap_ndo_do_ioctl simple_strtoul print 32 copy
       (IoctlSettings (RmnetUsb.QMAP_SETTING.make 32 (qs_ul_max_datagrams q) (qs_ul_max_size q) (QmiMsg.QMAP_SETTING.qs_dl_minimum_padding q))) d)"



section \<open>The MBIM back-end and the MBIM proxy\<close>


lemma sample_query_sent:
  "\<exists>t. requestQueryDataCall [] (sample_mbim [says []]) = Some (QmiWwan.ETIMEDOUT, QWDS_PKT_DATA_DISCONNECTED, t) \<and>
     mb_device t = [fst (compose_command basic_uuid MBIM_CID_CONNECT MBIM_CID_CMD_TYPE_QUERY (Some (le32_bytes 0)) 4 (sample_mbim [says []]))]"
proof -
  let ?s = "sample_mbim [says []]"
  let ?c = "compose_command basic_uuid MBIM_CID_CONNECT MBIM_CID_CMD_TYPE_QUERY (Some (le32_bytes 0)) 4 ?s"
  note c = compose_command_id [OF length_basic_uuid, of MBIM_CID_CONNECT MBIM_CID_CMD_TYPE_QUERY "Some (le32_bytes 0)" 4 ?s]
  obtain m u where mu: "?c = (m, u)" by fastforce
  have ne: "le32_bytes (0 :: u32) \<noteq> []" by (simp add: le32_bytes_def)
  have "h_TransactionId m = 1" "48 \<le> length m" "u = ?s\<lparr>TransactionId := 2\<rparr>" using c mu by (simp_all add: sample_mbim_def)
  then have "\<exists>t. mbim_send_command m u = Some (QmiWwan.ETIMEDOUT, None, t) \<and> mb_device t = [m]"
    by (cases m) (simp_all add: mbim_send_command_def mb_next_def says_def renumber_def sample_mbim_def)
  then show ?thesis
    using mu ne by (auto simp: query_eq basic_command_def compose_basic_connect_command_def mbim_check_err_def QmiWwan.ETIMEDOUT_def)
qed


end
